(* ===== verification/Prelude.thy ===== *)
theory Prelude
  imports Main "HOL-Library.Word"
begin

text \<open>
  Shared vocabulary of the development: bytes and machine words, the outcome of a C
  function that may stop the kernel or raise an error, and the generic lemmas on lists
  that the component theories use.

  A C function is a HOL function of its arguments.  Where the code can fail, its result is
  a \<open>res\<close>: \<open>Inr\<close> the value, or \<open>Inl\<close> one of three faults.  \<open>Panic\<close> is a failed
  \<open>assert\<close>, \<open>bassert\<close>, \<open>abort\<close>, \<open>fatal\<close> or \<open>panic\<close>, which stop the kernel.  \<open>Err e\<close> is
  \<open>error(e)\<close> (and \<open>broke(e)\<close>, which also makes the file system read only): control leaves
  through \<open>waserror\<close>.  \<open>Wild\<close> is an access outside the object the model gives the code, a
  read or write that C leaves undefined; the theorems show where it cannot happen.

  The sources are compiled with the Plan 9 compilers: \<open>int\<close> and \<open>long\<close> have 32 bits,
  \<open>vlong\<close> 64, \<open>char\<close> is signed, and the integer promotions preserve unsignedness
  (\<open>sys/src/cmd/cc/sub.c\<close>, \<open>arith\<close>), so that \<open>uchar << 24\<close> is a \<open>uint\<close> and the byte-order
  macros never sign-extend.
\<close>

unbundle bit_operations_syntax

type_synonym byte = "8 word"
type_synonym bytes = "byte list"
type_synonym u16 = "16 word"
type_synonym u32 = "32 word"
type_synonym u64 = "64 word"

datatype fault = Panic | Wild | Err string

type_synonym 'a res = "fault + 'a"

named_theorems res_simps "unfolding the outcome combinators"
named_theorems layout_defs "sizes and constants of the on-disk and on-wire layouts"

subsection \<open>Outcomes\<close>

definition bindE :: "'a res \<Rightarrow> ('a \<Rightarrow> 'b res) \<Rightarrow> 'b res" where
  "bindE m f = (case m of Inl e \<Rightarrow> Inl e | Inr x \<Rightarrow> f x)"

text \<open>\<open>assertE c k\<close>: the kernel's \<open>assert(c)\<close>, then \<open>k\<close>.\<close>

definition assertE :: "bool \<Rightarrow> 'a res \<Rightarrow> 'a res" where
  "assertE c k = (if c then k else Inl Panic)"

text \<open>\<open>needE n p k\<close>: the next \<open>n\<close> bytes at \<open>p\<close> are inside the buffer, then \<open>k\<close>.\<close>

definition needE :: "nat \<Rightarrow> bytes \<Rightarrow> 'a res \<Rightarrow> 'a res" where
  "needE n p k = (if n \<le> length p then k else Inl Wild)"

lemma bindE_simps [simp]:
  "bindE (Inl e) f = Inl e"
  "bindE (Inr x) f = f x"
  by (simp_all add: bindE_def)

lemma assertE_simps [simp]:
  "assertE True k = k"
  "assertE False k = Inl Panic"
  by (simp_all add: assertE_def)

lemma bindE_cong [fundef_cong]:
  "m = m' \<Longrightarrow> (\<And>x. m' = Inr x \<Longrightarrow> f x = f' x) \<Longrightarrow> bindE m f = bindE m' f'"
  by (cases m') (auto simp: bindE_def)

lemma bindE_Inr_iff [res_simps]:
  "bindE m f = Inr y \<longleftrightarrow> (\<exists>x. m = Inr x \<and> f x = Inr y)"
  by (cases m) auto

lemma assertE_Inr_iff [res_simps]: "assertE c k = Inr y \<longleftrightarrow> c \<and> k = Inr y"
  by (simp add: assertE_def)

lemma needE_Inr_iff [res_simps]: "needE n p k = Inr y \<longleftrightarrow> n \<le> length p \<and> k = Inr y"
  by (simp add: needE_def)

lemma needE_enough [simp]: "n \<le> length p \<Longrightarrow> needE n p k = k"
  by (simp add: needE_def)

lemma assertE_Inr [simp]: "assertE c (Inr x) = Inr y \<longleftrightarrow> c \<and> x = y"
  by (simp add: assertE_def)

subsection \<open>C strings\<close>

text \<open>The string a \<open>char*\<close> points at: the bytes before the first NUL.\<close>

definition cstr :: "bytes \<Rightarrow> bytes" where
  "cstr p = takeWhile (\<lambda>c. c \<noteq> 0) p"

lemma cstr_append_NUL [simp]: "0 \<notin> set s \<Longrightarrow> cstr (s @ 0 # r) = s"
proof -
  assume "0 \<notin> set s"
  then have "\<forall>c \<in> set s. c \<noteq> 0" by auto
  then show ?thesis by (simp add: cstr_def takeWhile_append2)
qed

lemma cstr_no_NUL: "0 \<notin> set (cstr p)"
  by (auto simp: cstr_def dest: set_takeWhileD)

text \<open>The bytes of an ASCII literal of the source.\<close>

definition str :: "string \<Rightarrow> bytes" where
  "str s = map (\<lambda>c. of_nat (of_char c)) s"

subsection \<open>Words\<close>

lemma unat_bounds:
  "unat (b :: byte) < 256" "unat (w :: u16) < 65536" "unat (d :: u32) < 4294967296"
  using unsigned_less [of b, where 'a = nat] unsigned_less [of w, where 'a = nat]
    unsigned_less [of d, where 'a = nat] by simp_all

subsection \<open>Lists\<close>

lemma take_append_exact: "length xs = n \<Longrightarrow> take n (xs @ ys) = xs"
  by simp

lemma drop_append_exact: "length xs = n \<Longrightarrow> drop n (xs @ ys) = ys"
  by simp

text \<open>Existence of a truth value, left over when a flag is determined by an equation.\<close>

lemma ex_bool [simp]: "\<exists>b. b" "\<exists>b. \<not> b"
  by auto

end
