(* ===== verification/Bytes.thy ===== *)
theory Bytes
  imports Prelude
begin

text \<open>
  The byte-order macros.  \<open>PACK\<close>/\<open>UNPACK\<close> of \<open>gefs/gfns.h\<close> are big endian (the order of the
  keys' bytes is the order of the numbers); \<open>PBIT\<close>/\<open>GBIT\<close> of \<open>include/fcall.h\<close> are little endian
  (9P).  A packing macro is the list of bytes it stores from \<open>p[0]\<close> on, an unpacking
  macro a function of the bytes at \<open>p\<close>.
\<close>

subsection \<open>gefs: big endian\<close>

definition PACK8 :: "byte \<Rightarrow> bytes" where
  "PACK8 v = [v]"

definition PACK16 :: "u16 \<Rightarrow> bytes" where
  "PACK16 v = [ucast (drop_bit 8 v), ucast v]"

definition PACK32 :: "u32 \<Rightarrow> bytes" where
  "PACK32 v = [ucast (drop_bit 24 v), ucast (drop_bit 16 v), ucast (drop_bit 8 v), ucast v]"

definition PACK64 :: "u64 \<Rightarrow> bytes" where
  "PACK64 v = [ucast (drop_bit 56 v), ucast (drop_bit 48 v), ucast (drop_bit 40 v),
     ucast (drop_bit 32 v), ucast (drop_bit 24 v), ucast (drop_bit 16 v),
     ucast (drop_bit 8 v), ucast v]"

definition UNPACK8 :: "bytes \<Rightarrow> byte" where
  "UNPACK8 p = p ! 0"

definition UNPACK16 :: "bytes \<Rightarrow> u16" where
  "UNPACK16 p = push_bit 8 (ucast (p ! 0)) OR ucast (p ! 1)"

definition UNPACK32 :: "bytes \<Rightarrow> u32" where
  "UNPACK32 p = push_bit 24 (ucast (p ! 0)) OR push_bit 16 (ucast (p ! 1)) OR
     push_bit 8 (ucast (p ! 2)) OR ucast (p ! 3)"

definition UNPACK64 :: "bytes \<Rightarrow> u64" where
  "UNPACK64 p = push_bit 32 (ucast (UNPACK32 p)) OR ucast (UNPACK32 (drop 4 p))"

subsection \<open>9P: little endian\<close>

definition PBIT8 :: "byte \<Rightarrow> bytes" where
  "PBIT8 v = [v]"

definition PBIT16 :: "u16 \<Rightarrow> bytes" where
  "PBIT16 v = [ucast v, ucast (drop_bit 8 v)]"

definition PBIT32 :: "u32 \<Rightarrow> bytes" where
  "PBIT32 v = [ucast v, ucast (drop_bit 8 v), ucast (drop_bit 16 v), ucast (drop_bit 24 v)]"

definition PBIT64 :: "u64 \<Rightarrow> bytes" where
  "PBIT64 v = [ucast v, ucast (drop_bit 8 v), ucast (drop_bit 16 v), ucast (drop_bit 24 v),
     ucast (drop_bit 32 v), ucast (drop_bit 40 v), ucast (drop_bit 48 v),
     ucast (drop_bit 56 v)]"

definition GBIT8 :: "bytes \<Rightarrow> byte" where
  "GBIT8 p = p ! 0"

definition GBIT16 :: "bytes \<Rightarrow> u16" where
  "GBIT16 p = ucast (p ! 0) OR push_bit 8 (ucast (p ! 1))"

definition GBIT32 :: "bytes \<Rightarrow> u32" where
  "GBIT32 p = ucast (p ! 0) OR push_bit 8 (ucast (p ! 1)) OR
     push_bit 16 (ucast (p ! 2)) OR push_bit 24 (ucast (p ! 3))"

definition GBIT64 :: "bytes \<Rightarrow> u64" where
  "GBIT64 p = ucast (GBIT32 p) OR push_bit 32 (ucast (GBIT32 (drop 4 p)))"

subsection \<open>Widths\<close>

lemma length_PACK [simp]:
  "length (PACK8 b) = 1" "length (PACK16 w) = 2" "length (PACK32 d) = 4" "length (PACK64 q) = 8"
  by (simp_all add: PACK8_def PACK16_def PACK32_def PACK64_def)

lemma length_PBIT [simp]:
  "length (PBIT8 b) = 1" "length (PBIT16 w) = 2" "length (PBIT32 d) = 4" "length (PBIT64 q) = 8"
  by (simp_all add: PBIT8_def PBIT16_def PBIT32_def PBIT64_def)

subsection \<open>Round trips\<close>

lemma join16: "push_bit 8 (ucast (ucast (drop_bit 8 v) :: byte)) OR ucast (ucast v :: byte) = (v :: u16)"
  by (rule bit_word_eqI) (auto simp: bit_simps)

lemma join32:
  "push_bit 24 (ucast (ucast (drop_bit 24 v) :: byte)) OR push_bit 16 (ucast (ucast (drop_bit 16 v) :: byte)) OR
   push_bit 8 (ucast (ucast (drop_bit 8 v) :: byte)) OR ucast (ucast v :: byte) = (v :: u32)"
  (is "?l = v")
proof (rule bit_word_eqI)
  fix n assume "n < LENGTH(32)"
  then consider "n < 8" | "8 \<le> n" "n < 16" | "16 \<le> n" "n < 24" | "24 \<le> n" "n < 32"
    by fastforce
  then show "bit ?l n = bit v n"
    by cases (auto simp: bit_simps)
qed

lemma join64:
  "push_bit 32 (ucast (ucast (drop_bit 32 v) :: u32)) OR ucast (ucast v :: u32) = (v :: u64)"
  by (rule bit_word_eqI) (auto simp: bit_simps)

lemma ucast_drop_bit_ucast:
  "k + 8 \<le> 32 \<Longrightarrow> (ucast (drop_bit k (ucast (v :: u64) :: u32)) :: byte) = ucast (drop_bit k v)"
  by (rule bit_word_eqI) (auto simp: bit_simps)

lemma ucast_ucast_byte: "(ucast (ucast (v :: u64) :: u32) :: byte) = ucast v"
  using ucast_drop_bit_ucast [of 0 v] by simp

text \<open>A 64-bit value is packed as its two halves, in either order.\<close>

lemma PACK64_halves: "PACK64 v = PACK32 (ucast (drop_bit 32 v)) @ PACK32 (ucast v)"
  by (simp add: PACK64_def PACK32_def ucast_drop_bit_ucast ucast_ucast_byte)

lemma PBIT64_halves: "PBIT64 v = PBIT32 (ucast v) @ PBIT32 (ucast (drop_bit 32 v))"
  by (simp add: PBIT64_def PBIT32_def ucast_drop_bit_ucast ucast_ucast_byte)

lemma UNPACK_PACK [simp]:
  "UNPACK8 (PACK8 b @ r) = b"
  "UNPACK16 (PACK16 w @ r) = w"
  "UNPACK32 (PACK32 d @ r) = d"
  "UNPACK64 (PACK64 q @ r) = q"
proof -
  show 32: "UNPACK32 (PACK32 d @ r) = d" for d r
    using join32 [of d] by (simp add: UNPACK32_def PACK32_def numeral_2_eq_2 numeral_3_eq_3)
  show "UNPACK8 (PACK8 b @ r) = b" by (simp add: UNPACK8_def PACK8_def)
  show "UNPACK16 (PACK16 w @ r) = w"
    using join16 [of w] by (simp add: UNPACK16_def PACK16_def)
  show "UNPACK64 (PACK64 q @ r) = q"
    using join64 [of q] by (simp add: UNPACK64_def PACK64_halves 32)
qed

lemma GBIT_PBIT [simp]:
  "GBIT8 (PBIT8 b @ r) = b"
  "GBIT16 (PBIT16 w @ r) = w"
  "GBIT32 (PBIT32 d @ r) = d"
  "GBIT64 (PBIT64 q @ r) = q"
proof -
  show 32: "GBIT32 (PBIT32 d @ r) = d" for d r
    using join32 [of d]
    by (simp add: GBIT32_def PBIT32_def numeral_2_eq_2 numeral_3_eq_3 or.assoc or.commute or.left_commute)
  show "GBIT8 (PBIT8 b @ r) = b" by (simp add: GBIT8_def PBIT8_def)
  show "GBIT16 (PBIT16 w @ r) = w"
    using join16 [of w] by (simp add: GBIT16_def PBIT16_def or.commute)
  show "GBIT64 (PBIT64 q @ r) = q"
    using join64 [of q] by (simp add: GBIT64_def PBIT64_halves 32 or.commute)
qed

lemma UNPACK_PACK_Nil [simp]:
  "UNPACK8 (PACK8 b) = b" "UNPACK16 (PACK16 w) = w" "UNPACK32 (PACK32 d) = d" "UNPACK64 (PACK64 q) = q"
  using UNPACK_PACK [where r = "[]"] by simp_all

lemma GBIT_PBIT_Nil [simp]:
  "GBIT8 (PBIT8 b) = b" "GBIT16 (PBIT16 w) = w" "GBIT32 (PBIT32 d) = d" "GBIT64 (PBIT64 q) = q"
  using GBIT_PBIT [where r = "[]"] by simp_all

text \<open>Reading depends on the bytes read only.\<close>

lemma UNPACK_append:
  "1 \<le> length p \<Longrightarrow> UNPACK8 (p @ r) = UNPACK8 p"
  "2 \<le> length p \<Longrightarrow> UNPACK16 (p @ r) = UNPACK16 p"
  "4 \<le> length p \<Longrightarrow> UNPACK32 (p @ r) = UNPACK32 p"
  "8 \<le> length p \<Longrightarrow> UNPACK64 (p @ r) = UNPACK64 p"
  by (auto simp: UNPACK8_def UNPACK16_def UNPACK32_def UNPACK64_def nth_append Suc_le_eq)

subsection \<open>Stores into a buffer\<close>

text \<open>The buffer after the bytes \<open>bs\<close> are stored from offset \<open>i\<close> on.\<close>

definition put :: "nat \<Rightarrow> bytes \<Rightarrow> bytes \<Rightarrow> bytes" where
  "put i bs xs = take i xs @ bs @ drop (i + length bs) xs"

lemma length_put [simp]: "i + length bs \<le> length xs \<Longrightarrow> length (put i bs xs) = length xs"
  by (simp add: put_def)

lemma put_Nil [simp]: "put i [] xs = xs"
  by (simp add: put_def)

lemma put_0: "put 0 bs xs = bs @ drop (length bs) xs"
  by (simp add: put_def)

text \<open>Adjacent stores are one store.\<close>

lemma put_put:
  "j = i + length as \<Longrightarrow> i + length as + length bs \<le> length xs \<Longrightarrow> put j bs (put i as xs) = put i (as @ bs) xs"
  by (simp add: put_def min_absorb1 min_absorb2 ac_simps)

lemma take_put: "j \<le> i \<Longrightarrow> i \<le> length xs \<Longrightarrow> take j (put i bs xs) = take j xs"
  by (simp add: put_def min_def)

lemma take_put_end: "i \<le> length xs \<Longrightarrow> take (i + length bs) (put i bs xs) = take i xs @ bs"
  by (simp add: put_def min_def)

lemma drop_put: "i + length bs \<le> j \<Longrightarrow> i + length bs \<le> length xs \<Longrightarrow> drop j (put i bs xs) = drop j xs"
  by (simp add: put_def min_def)

lemma drop_put_inner: "j \<le> i \<Longrightarrow> i \<le> length xs \<Longrightarrow> drop j (put i bs xs) = put (i - j) bs (drop j xs)"
  by (simp add: put_def min_def drop_take add.commute)

subsection \<open>A small number in the low byte of a word\<close>

lemma mask8: "(0xff :: u64) = mask 8"
  by (simp add: mask_eq_exp_minus_1)

lemma join8:
  assumes "x mod 256 = (0 :: int)" "take_bit 8 c = (c :: u64)"
  shows "(of_int x OR c) AND 0xff = c" and "(of_int x OR c) AND NOT 0xff = of_int x"
proof -
  from assms(1) obtain k where "x = 256 * k" by auto
  then have x: "(of_int x :: u64) = push_bit 8 (of_int k)" by (simp add: push_bit_eq_mult)
  have c: "bit c n \<Longrightarrow> n < 8" for n using assms(2) by (metis bit_take_bit_iff)
  show "(of_int x OR c) AND 0xff = c"
    unfolding mask8 x by (rule bit_word_eqI) (auto simp: bit_simps dest: c)
  show "(of_int x OR c) AND NOT 0xff = of_int x"
    unfolding mask8 x by (rule bit_word_eqI) (auto simp: bit_simps dest: c)
qed

lemma sint_small: "0 \<le> x \<Longrightarrow> x < 2 ^ 63 \<Longrightarrow> sint (of_int x :: u64) = x"
  by (simp add: sint_word_ariths signed_take_bit_int_eq_self sint_sbintrunc')

lemma sint_or_div: 
  assumes "0 \<le> g" "g < 2 ^ 55"
  shows "sint (of_int (g * 256) OR 3 :: u64) div 256 = g"
proof -
  have "of_int (g * 256) OR 3 = (of_int (g * 256 + 3) :: u64)"
  proof -
    have "of_int (g * 256) AND (3 :: u64) = 0"
    proof -
      have "(of_int (g * 256) :: u64) = push_bit 8 (of_int g)" by (simp add: push_bit_eq_mult)
      moreover have "push_bit 8 w AND (3 :: u64) = 0" for w
        by (rule bit_word_eqI) (auto simp: bit_simps bit_numeral_rec split: nat.splits)
      ultimately show ?thesis by simp
    qed
    then have "of_int (g * 256) OR (3 :: u64) = of_int (g * 256) + 3" using word_plus_and_or [of "of_int (g * 256) :: u64" 3] by simp
    then show ?thesis by simp
  qed
  moreover have "sint (of_int (g * 256 + 3) :: u64) = g * 256 + 3" using assms by (intro sint_small) auto
  ultimately show ?thesis by simp
qed
end
