(* ===== verification/Gefs_Hash.thy ===== *)
theory Gefs_Hash
  imports Bytes
begin

text \<open>
  \<open>sys/src/9/gefs/hash.c\<close>: MetroHash64 over a buffer, the checksum of every block and of the
  superblock, and the integer mixer that picks hash-table buckets.  The buffer is the byte
  list at \<open>key\<close>; \<open>read_u64\<close> and its kin are native loads, little endian on amd64 and arm64.
\<close>

definition rotate_right :: "u64 \<Rightarrow> nat \<Rightarrow> u64" where
  "rotate_right v k = drop_bit k v OR push_bit (64 - k) v"

definition mh_k0 :: u64 where "mh_k0 = 0xC83A91E1"
definition mh_k1 :: u64 where "mh_k1 = 0x8648DBDB"
definition mh_k2 :: u64 where "mh_k2 = 0x7BDEC03B"
definition mh_k3 :: u64 where "mh_k3 = 0x2F5870A5"

text \<open>One round of the \<open>do\<close> loop over 32 bytes.\<close>

definition mh_round :: "u64 \<times> u64 \<times> u64 \<times> u64 \<Rightarrow> bytes \<Rightarrow> u64 \<times> u64 \<times> u64 \<times> u64" where
  "mh_round st p = (case st of (v0, v1, v2, v3) \<Rightarrow>
     let v0 = rotate_right (v0 + GBIT64 p * mh_k0) 29 + v2;
         v1 = rotate_right (v1 + GBIT64 (drop 8 p) * mh_k1) 29 + v3;
         v2 = rotate_right (v2 + GBIT64 (drop 16 p) * mh_k2) 29 + v0;
         v3 = rotate_right (v3 + GBIT64 (drop 24 p) * mh_k3) 29 + v1
     in (v0, v1, v2, v3))"

function mh_loop :: "u64 \<times> u64 \<times> u64 \<times> u64 \<Rightarrow> bytes \<Rightarrow> (u64 \<times> u64 \<times> u64 \<times> u64) \<times> bytes" where
  "mh_loop st p =
     (let st' = mh_round st p; p' = drop 32 p
      in if 32 \<le> length p' then mh_loop st' p' else (st', p'))"
  by pat_completeness auto
termination
  by (relation "measure (\<lambda>(st, p). length p)") auto

declare mh_loop.simps [simp del]

definition mh_fold :: "u64 \<Rightarrow> u64 \<times> u64 \<times> u64 \<times> u64 \<Rightarrow> u64" where
  "mh_fold hash st = (case st of (v0, v1, v2, v3) \<Rightarrow>
     let v2 = v2 XOR (rotate_right ((v0 + v3) * mh_k0 + v1) 33 * mh_k1);
         v3 = v3 XOR (rotate_right ((v1 + v2) * mh_k1 + v0) 33 * mh_k0);
         v0 = v0 XOR (rotate_right ((v0 + v2) * mh_k0 + v3) 33 * mh_k1);
         v1 = v1 XOR (rotate_right ((v1 + v3) * mh_k1 + v2) 33 * mh_k0)
     in hash + (v0 XOR v1))"

definition mh_tail16 :: "u64 \<Rightarrow> bytes \<Rightarrow> u64 \<times> bytes" where
  "mh_tail16 hash p =
     (if 16 \<le> length p
      then let v0 = rotate_right (hash + GBIT64 p * mh_k0) 33 * mh_k1;
               v1 = rotate_right (hash + GBIT64 (drop 8 p) * mh_k1) 33 * mh_k2;
               v0 = v0 XOR (rotate_right (v0 * mh_k0) 35 + v1);
               v1 = v1 XOR (rotate_right (v1 * mh_k3) 35 + v0)
           in (hash + v1, drop 16 p)
      else (hash, p))"

text \<open>The last steps: 8, 4, 2 and 1 bytes, with their rotations.\<close>

definition mh_tail :: "nat \<Rightarrow> (bytes \<Rightarrow> u64) \<Rightarrow> nat \<Rightarrow> u64 \<times> bytes \<Rightarrow> u64 \<times> bytes" where
  "mh_tail n rd r = (\<lambda>(hash, p).
     if n \<le> length p
     then let hash = hash + rd p * mh_k3 in (hash XOR (rotate_right hash r * mh_k1), drop n p)
     else (hash, p))"

definition metrohash64_1 :: "bytes \<Rightarrow> u32 \<Rightarrow> u64" where
  "metrohash64_1 key seed =
     (let hash = (ucast seed + mh_k2) * mh_k0 + of_nat (length key);
          hp = (if 32 \<le> length key
                then let (st, p) = mh_loop (hash, hash, hash, hash) key in (mh_fold hash st, p)
                else (hash, key));
          hp = mh_tail16 (fst hp) (snd hp);
          hp = mh_tail 8 GBIT64 33 hp;
          hp = mh_tail 4 (\<lambda>p. ucast (GBIT32 p)) 15 hp;
          hp = mh_tail 2 (\<lambda>p. ucast (GBIT16 p)) 13 hp;
          hp = mh_tail 1 (\<lambda>p. ucast (GBIT8 p)) 25 hp;
          hash = fst hp;
          hash = hash XOR rotate_right hash 33;
          hash = hash * mh_k0
      in hash XOR rotate_right hash 33)"

definition bufhash :: "bytes \<Rightarrow> u64" where
  "bufhash src = metrohash64_1 src 0x6765"

definition ihash :: "u64 \<Rightarrow> u32" where
  "ihash x =
     (let x = (x XOR drop_bit 30 x) * 0xbf58476d1ce4e5b9;
          x = (x XOR drop_bit 27 x) * 0x94d049bb133111eb
      in ucast (x XOR drop_bit 31 x))"

end
