(* ===== verification/Gefs_Pack.thy ===== *)
theory Gefs_Pack
  imports Gefs_Hash
begin

text \<open>
  \<open>sys/src/9/gefs/pack.c\<close>: how the file system's structures are laid out in keys, values,
  arena headers and superblocks.  A packing function of the source writes at \<open>p\<close> and returns
  the pointer after what it wrote; here it is the list of bytes written, so the returned
  pointer is \<open>p\<close> plus its length.  \<open>sz\<close> is the room the caller passes.  A C string is the list
  of its bytes without the NUL.  The 64-bit fields are kept as their bit patterns: \<open>-1\<close> is
  the all-ones word.
\<close>

subsection \<open>Sizes and key types (gdat.h)\<close>

abbreviation (input) Blksz :: nat where "Blksz \<equiv> 16384"
abbreviation (input) Ptrsz :: nat where "Ptrsz \<equiv> 24"
abbreviation (input) Snapsz :: nat where "Snapsz \<equiv> 9"
abbreviation (input) Dlksz :: nat where "Dlksz \<equiv> 17"
abbreviation (input) Dlvsz :: nat where "Dlvsz \<equiv> 48"
abbreviation (input) Dlkvpsz :: nat where "Dlkvpsz \<equiv> 65"
abbreviation (input) Treesz :: nat where "Treesz \<equiv> 72"
abbreviation (input) Xdirsz :: nat where "Xdirsz \<equiv> 61"
abbreviation (input) Arenasz :: nat where "Arenasz \<equiv> 32"
abbreviation (input) Bufspc :: nat where "Bufspc \<equiv> 8187"
abbreviation (input) STATFIXLEN :: nat where "STATFIXLEN \<equiv> 49"

abbreviation (input) Kdat :: byte where "Kdat \<equiv> 0"
abbreviation (input) Kent :: byte where "Kent \<equiv> 1"
abbreviation (input) Kup :: byte where "Kup \<equiv> 2"
abbreviation (input) Klabel :: byte where "Klabel \<equiv> 3"
abbreviation (input) Ksnap :: byte where "Ksnap \<equiv> 4"
abbreviation (input) Kdlist :: byte where "Kdlist \<equiv> 5"
abbreviation (input) Kconf :: byte where "Kconf \<equiv> 6"
abbreviation (input) Kobj :: byte where "Kobj \<equiv> 7"

abbreviation (input) Efs :: fault where "Efs \<equiv> Err ''internal error''"

abbreviation (input) Enomem :: fault where "Enomem \<equiv> Err ''kernel allocate failed''"

subsection \<open>Structures\<close>

record Bptr =
  baddr :: u64
  bhash :: u64
  bgen :: u64

record Qid =
  qpath :: u64
  qvers :: u32
  qtype :: byte

record Xdir =
  dflag :: u64
  dqid :: Qid
  dmode :: u32
  datime :: u64
  dmtime :: u64
  dlength :: u64
  duid :: u32
  dgid :: u32
  dmuid :: u32
  dname :: bytes

text \<open>A key and its value; \<open>nk\<close> and \<open>nv\<close> are the lengths.\<close>

record Kvp =
  kk :: bytes
  kv :: bytes

record Dlist =
  lgen :: u64
  lbgen :: u64
  lhd :: Bptr
  ltl :: Bptr

text \<open>A snapshot's root: what \<open>packtree\<close> writes, then the in-memory fields.\<close>

record Tree =
  tnref :: u32
  tnlbl :: u32
  tht :: u32
  tflag :: u32
  tgen :: u64
  tpred :: u64
  tsucc :: u64
  tbase :: u64
  tbp :: Bptr
  tmemgen :: u64
  tdirty :: bool

text \<open>The part of an \<open>Arena\<close> its header block holds.\<close>

record Arenahd =
  aloghd :: Bptr
  asize :: u64
  aused :: u64

text \<open>The part of \<open>Gefs\<close> the superblock holds.\<close>

record Super =
  sblksz :: u32
  sbufspc :: u32
  snarena :: u32
  ssnapht :: u32
  ssnapbp :: Bptr
  ssnapdl :: Dlist
  sflag :: u64
  snextqid :: u64
  snextgen :: u64
  sqgen :: u64
  sarenabp :: "Bptr list"

record User =
  uid :: u32
  uname :: bytes

definition Zb :: Bptr where
  "Zb = \<lparr>baddr = -1, bhash = -1, bgen = -1\<rparr>"

subsection \<open>Strings\<close>

text \<open>The string and the number of bytes the pointer moves by.\<close>

definition unpackstr :: "bytes \<Rightarrow> (bytes \<times> nat) res" where
  "unpackstr p = assertE (3 \<le> length p)
     (let n = unat (UNPACK16 p) in
      if length p < n + 3 \<or> p ! (n + 2) \<noteq> 0 then Inl Efs
      else Inr (cstr (drop 2 p), 3 + n))"

definition packstr :: "nat \<Rightarrow> bytes \<Rightarrow> bytes res" where
  "packstr sz s = assertE (length s + 3 \<le> sz)
     (Inr (PACK16 (of_nat (length s)) @ s @ [0]))"

subsection \<open>Directory entries\<close>

definition packdkey :: "nat \<Rightarrow> u64 \<Rightarrow> bytes option \<Rightarrow> bytes res" where
  "packdkey sz pup name =
     (if sz < 9 then Inl Wild
      else case name of
        None \<Rightarrow> Inr (PACK8 Kent @ PACK64 pup)
      | Some s \<Rightarrow> bindE (packstr (sz - 9) s) (\<lambda>b. Inr (PACK8 Kent @ PACK64 pup @ b)))"

definition packdval :: "nat \<Rightarrow> Xdir \<Rightarrow> bytes res" where
  "packdval sz d = assertE (Xdirsz \<le> sz)
     (Inr (PACK64 (dflag d) @ PACK64 (qpath (dqid d)) @ PACK32 (qvers (dqid d)) @
        PACK8 (qtype (dqid d)) @ PACK32 (dmode d) @ PACK64 (datime d) @ PACK64 (dmtime d) @
        PACK64 (dlength d) @ PACK32 (duid d) @ PACK32 (dgid d) @ PACK32 (dmuid d)))"

definition dir2kv :: "u64 \<Rightarrow> Xdir \<Rightarrow> nat \<Rightarrow> Kvp res" where
  "dir2kv pup d nbuf =
     bindE (packdkey nbuf pup (Some (dname d))) (\<lambda>k.
     bindE (packdval (nbuf - length k) d) (\<lambda>v.
     Inr \<lparr>kk = k, kv = v\<rparr>))"

text \<open>The directory's qid and the entry's name.\<close>

definition unpackdkey :: "bytes \<Rightarrow> (u64 \<times> bytes) res" where
  "unpackdkey p = assertE (9 < length p)
     (let key = UNPACK8 p; pup = UNPACK64 (drop 1 p) in
      assertE (key = Kent)
        (bindE (unpackstr (drop 9 p)) (\<lambda>(name, n).
         assertE (9 + n \<le> length p) (Inr (pup, name)))))"

definition packsuper :: "nat \<Rightarrow> u64 \<Rightarrow> bytes res" where
  "packsuper sz pup = assertE (9 \<le> sz) (Inr (PACK8 Kup @ PACK64 pup))"

definition kv2dir :: "Kvp \<Rightarrow> Xdir res" where
  "kv2dir e =
     (if length (kk e) < 9 \<or> length (kv e) \<noteq> Xdirsz then Inl Efs
      else bindE (unpackstr (drop 9 (kk e))) (\<lambda>(name, _).
       let v = kv e in
       Inr \<lparr>dflag = UNPACK64 v,
            dqid = \<lparr>qpath = UNPACK64 (drop 8 v), qvers = UNPACK32 (drop 16 v), qtype = UNPACK8 (drop 20 v)\<rparr>,
            dmode = UNPACK32 (drop 21 v), datime = UNPACK64 (drop 25 v), dmtime = UNPACK64 (drop 33 v),
            dlength = UNPACK64 (drop 41 v), duid = UNPACK32 (drop 49 v), dgid = UNPACK32 (drop 53 v),
            dmuid = UNPACK32 (drop 57 v), dname = name\<rparr>))"

subsection \<open>Stat buffers\<close>

fun uid2user :: "User list \<Rightarrow> u32 \<Rightarrow> User option" where
  "uid2user [] i = None"
| "uid2user (u # us) i = (if uid u = i then Some u else uid2user us i)"

abbreviation (input) noneid :: u32 where "noneid \<equiv> 0"
abbreviation (input) nogroupid :: u32 where "nogroupid \<equiv> 9999"

text \<open>C's division of a \<open>vlong\<close> truncates towards zero; nanoseconds to seconds, rounded.\<close>

definition nsec2sec :: "u64 \<Rightarrow> u32" where
  "nsec2sec t = (let x = sint (t + 500000000) in
     of_int (sgn x * (\<bar>x\<bar> div 1000000000)))"

definition dir2statbuf :: "User list \<Rightarrow> Xdir \<Rightarrow> nat \<Rightarrow> bytes option res" where
  "dir2statbuf us d nbuf =
     (let u = (case uid2user us (duid d) of None \<Rightarrow> uid2user us noneid | x \<Rightarrow> x);
          g = (case uid2user us (dgid d) of None \<Rightarrow> uid2user us nogroupid | x \<Rightarrow> x);
          m = (case uid2user us (dmuid d) of None \<Rightarrow> uid2user us noneid | x \<Rightarrow> x)
      in case (u, g, m) of
        (Some u, Some g, Some m) \<Rightarrow>
          let nn = length (dname d); nu = length (uname u); ng = length (uname g); nm = length (uname m);
              sz = STATFIXLEN + nn + nu + ng + nm
          in if nbuf < sz then Inr None
             else Inr (Some (PBIT16 (of_nat (sz - 2)) @ PBIT16 (-1) @ PBIT32 (-1) @
                PBIT8 (qtype (dqid d)) @ PBIT32 (qvers (dqid d)) @ PBIT64 (qpath (dqid d)) @
                PBIT32 (dmode d) @ PBIT32 (nsec2sec (datime d)) @ PBIT32 (nsec2sec (dmtime d)) @
                PBIT64 (dlength d) @
                PBIT16 (of_nat nn) @ dname d @ PBIT16 (of_nat nu) @ uname u @
                PBIT16 (of_nat ng) @ uname g @ PBIT16 (of_nat nm) @ uname m))
      | _ \<Rightarrow> Inl (Err ''permission denied''))"

definition kv2statbuf :: "User list \<Rightarrow> Kvp \<Rightarrow> nat \<Rightarrow> bytes option res" where
  "kv2statbuf us e nbuf = bindE (kv2dir e) (\<lambda>d. dir2statbuf us d nbuf)"

definition kv2qid :: "Kvp \<Rightarrow> (u64 \<times> u32) res" where
  "kv2qid e = assertE (16 \<le> length (kv e)) (Inr (UNPACK64 (kv e), ucast (UNPACK64 (drop 8 (kv e)))))"

definition fillxdir :: "u64 \<Rightarrow> bytes \<Rightarrow> byte \<Rightarrow> u32 \<Rightarrow> u64 \<Rightarrow> Xdir" where
  "fillxdir q name ty mode len =
     \<lparr>dflag = 0, dqid = \<lparr>qpath = q, qvers = 0, qtype = ty\<rparr>, dmode = mode, datime = 0, dmtime = 0,
      dlength = len, duid = -1, dgid = -1, dmuid = 0, dname = name\<rparr>"

subsection \<open>Block pointers\<close>

definition packbp :: "nat \<Rightarrow> Bptr \<Rightarrow> bytes res" where
  "packbp sz bp = assertE (Ptrsz \<le> sz)
     (Inr (PACK64 (baddr bp) @ PACK64 (bhash bp) @ PACK64 (bgen bp)))"

definition unpackbp :: "bytes \<Rightarrow> Bptr res" where
  "unpackbp p = assertE (Ptrsz \<le> length p)
     (Inr \<lparr>baddr = UNPACK64 p, bhash = UNPACK64 (drop 8 p), bgen = UNPACK64 (drop 16 p)\<rparr>)"

subsection \<open>The snapshot tree's keys and values\<close>

definition packlbl :: "nat \<Rightarrow> bytes \<Rightarrow> bytes res" where
  "packlbl sz name = assertE (length name + 1 \<le> sz) (Inr (Klabel # name))"

definition packsnap :: "nat \<Rightarrow> u64 \<Rightarrow> bytes res" where
  "packsnap sz i = assertE (Snapsz \<le> sz) (Inr (Ksnap # PACK64 i))"

definition kv2dlist :: "Kvp \<Rightarrow> Dlist res" where
  "kv2dlist e = assertE (Dlksz \<le> length (kk e))
     (bindE (unpackbp (kv e)) (\<lambda>hd.
      bindE (unpackbp (drop Ptrsz (kv e))) (\<lambda>tl.
      Inr \<lparr>lgen = UNPACK64 (drop 1 (kk e)), lbgen = UNPACK64 (drop 9 (kk e)), lhd = hd, ltl = tl\<rparr>)))"

definition dlist2kv :: "Dlist \<Rightarrow> nat \<Rightarrow> Kvp res" where
  "dlist2kv dl nbuf = assertE (Dlkvpsz \<le> nbuf)
     (bindE (packbp (nbuf - 17) (lhd dl)) (\<lambda>hd.
      bindE (packbp (nbuf - 41) (ltl dl)) (\<lambda>tl.
      Inr \<lparr>kk = Kdlist # PACK64 (lgen dl) @ PACK64 (lbgen dl), kv = hd @ tl\<rparr>)))"

definition unpacktree :: "bytes \<Rightarrow> Tree res" where
  "unpacktree p = assertE (Treesz \<le> length p)
     (Inr \<lparr>tnref = UNPACK32 p, tnlbl = UNPACK32 (drop 4 p), tht = UNPACK32 (drop 8 p),
           tflag = UNPACK32 (drop 12 p), tgen = UNPACK64 (drop 16 p), tpred = UNPACK64 (drop 24 p),
           tsucc = UNPACK64 (drop 32 p), tbase = UNPACK64 (drop 40 p),
           tbp = \<lparr>baddr = UNPACK64 (drop 48 p), bhash = UNPACK64 (drop 56 p), bgen = UNPACK64 (drop 64 p)\<rparr>,
           tmemgen = 0, tdirty = False\<rparr>)"

definition packtree :: "nat \<Rightarrow> Tree \<Rightarrow> bytes res" where
  "packtree sz t = assertE (Treesz \<le> sz)
     (Inr (PACK32 (tnref t) @ PACK32 (tnlbl t) @ PACK32 (tht t) @ PACK32 (tflag t) @
        PACK64 (tgen t) @ PACK64 (tpred t) @ PACK64 (tsucc t) @ PACK64 (tbase t) @
        PACK64 (baddr (tbp t)) @ PACK64 (bhash (tbp t)) @ PACK64 (bgen (tbp t))))"

definition tree2kv :: "Tree \<Rightarrow> nat \<Rightarrow> Kvp res" where
  "tree2kv t nbuf =
     bindE (packsnap nbuf (tgen t)) (\<lambda>k.
     bindE (packtree (nbuf - length k) t) (\<lambda>v. Inr \<lparr>kk = k, kv = v\<rparr>))"

text \<open>A change of a snapshot's link and counts; \<open>dlbl\<close> and \<open>dref\<close> are signed characters.\<close>

definition retag2kv :: "u64 \<Rightarrow> u64 \<Rightarrow> byte \<Rightarrow> byte \<Rightarrow> nat \<Rightarrow> Kvp res" where
  "retag2kv gen link dlbl dref nbuf = assertE (gen \<noteq> -1) (assertE (10 \<le> nbuf)
     (bindE (packsnap nbuf gen) (\<lambda>k.
      if nbuf < 19 then Inl Wild
      else Inr \<lparr>kk = k, kv = PACK64 link @ [dlbl, dref]\<rparr>)))"

definition lbl2kv :: "bytes \<Rightarrow> u64 \<Rightarrow> u32 \<Rightarrow> nat \<Rightarrow> Kvp res" where
  "lbl2kv lbl gen flg nbuf = assertE (1 + length lbl + 1 + 8 + 4 \<le> nbuf)
     (Inr \<lparr>kk = Klabel # lbl, kv = Ksnap # PACK64 gen @ PACK32 flg\<rparr>)"

subsection \<open>Arena headers and superblocks\<close>

definition packarena :: "nat \<Rightarrow> Arenahd \<Rightarrow> bytes res" where
  "packarena sz a = assertE (Arenasz \<le> sz)
     (Inr (PACK64 (baddr (aloghd a)) @ PACK64 (bhash (aloghd a)) @ PACK64 (asize a) @ PACK64 (aused a)))"

definition unpackarena :: "bytes \<Rightarrow> Arenahd res" where
  "unpackarena p = assertE (Arenasz \<le> length p)
     (Inr \<lparr>aloghd = \<lparr>baddr = UNPACK64 p, bhash = UNPACK64 (drop 8 p), bgen = -1\<rparr>,
           asize = UNPACK64 (drop 16 p), aused = UNPACK64 (drop 24 p)\<rparr>)"

definition packarenabps :: "Bptr list \<Rightarrow> bytes" where
  "packarenabps bps = concat (map (\<lambda>bp. PACK64 (baddr bp) @ PACK64 (bhash bp)) bps)"

definition packsbhd :: "Super \<Rightarrow> bytes" where
  "packsbhd fi =
     str ''gefs9.00'' @ PACK32 (of_nat Blksz) @ PACK32 (of_nat Bufspc) @ PACK32 (snarena fi) @
     PACK32 (ssnapht fi) @ PACK64 (baddr (ssnapbp fi)) @ PACK64 (bhash (ssnapbp fi)) @
     PACK64 (baddr (lhd (ssnapdl fi))) @ PACK64 (bhash (lhd (ssnapdl fi))) @
     PACK64 (baddr (ltl (ssnapdl fi))) @ PACK64 (bhash (ltl (ssnapdl fi))) @
     PACK64 (sflag fi) @ PACK64 (snextqid fi) @ PACK64 (snextgen fi) @ PACK64 (sqgen fi)"

text \<open>\<open>fi->narena\<close> is an \<open>int\<close>, and \<open>fi->arenabp\<close> an array of that many pointers.\<close>

definition packsb :: "nat \<Rightarrow> Super \<Rightarrow> bytes res" where
  "packsb sz fi = assertE (sz = Blksz) (assertE (sint (snarena fi) < 512)
     (if int (length (sarenabp fi)) < sint (snarena fi) then Inl Wild
      else let b = packsbhd fi @ packarenabps (take (nat (sint (snarena fi))) (sarenabp fi))
           in Inr (b @ PACK64 (bufhash b))))"

fun unpackarenabps :: "nat \<Rightarrow> bytes \<Rightarrow> Bptr list" where
  "unpackarenabps 0 p = []"
| "unpackarenabps (Suc n) p =
     \<lparr>baddr = UNPACK64 p, bhash = UNPACK64 (drop 8 p), bgen = -1\<rparr> # unpackarenabps n (drop 16 p)"

text \<open>
  The arena count is read from the block, and the loop over the arenas' pointers runs before
  the checksum is compared.  The array's size is an \<open>int\<close> product; a negative one is a huge
  \<open>usize\<close>, which \<open>emalloc\<close> refuses, and other sizes are taken to be allocated.
\<close>

definition unpacksb :: "bytes \<Rightarrow> nat \<Rightarrow> Super res" where
  "unpacksb p0 sz = assertE (sz = Blksz)
     (if take 8 p0 \<noteq> str ''gefs9.00'' then Inl (Err ''unknown fs version'')
      else let na = sint (UNPACK32 (drop 16 p0)); n = nat na;
               dl = \<lparr>lgen = -1, lbgen = 0,
                     lhd = \<lparr>baddr = UNPACK64 (drop 40 p0), bhash = UNPACK64 (drop 48 p0), bgen = -1\<rparr>,
                     ltl = \<lparr>baddr = UNPACK64 (drop 56 p0), bhash = UNPACK64 (drop 64 p0), bgen = -1\<rparr>\<rparr>;
               fi = \<lparr>sblksz = UNPACK32 (drop 8 p0), sbufspc = UNPACK32 (drop 12 p0),
                     snarena = UNPACK32 (drop 16 p0), ssnapht = UNPACK32 (drop 20 p0),
                     ssnapbp = \<lparr>baddr = UNPACK64 (drop 24 p0), bhash = UNPACK64 (drop 32 p0), bgen = -1\<rparr>,
                     ssnapdl = dl, sflag = UNPACK64 (drop 72 p0), snextqid = UNPACK64 (drop 80 p0),
                     snextgen = UNPACK64 (drop 88 p0), sqgen = UNPACK64 (drop 96 p0),
                     sarenabp = unpackarenabps n (drop 104 p0)\<rparr>
           in if sint (UNPACK32 (drop 16 p0) * 24) < 0 then Inl Enomem
              else needE (104 + 16 * n + 8) p0
                (let xh = bufhash (take (104 + 16 * n) p0); dh = UNPACK64 (drop (104 + 16 * n) p0)
                 in if dh \<noteq> xh then Inl (Err ''corrupt superblock'')
                    else assertE (na < 256) (Inr fi)))"

section \<open>Properties\<close>

lemma unpackstr_packstr:
  assumes "packstr sz s = Inr b" and "0 \<notin> set s" and "length s < 2 ^ 16"
  shows "unpackstr (b @ r) = Inr (s, length s + 3)"
proof -
  have b: "b = PACK16 (of_nat (length s)) @ s @ [0]"
    using assms(1) by (simp add: packstr_def)
  have n: "unat (of_nat (length s) :: u16) = length s"
    using assms(3) by (simp add: unat_of_nat take_bit_nat_eq_self)
  have nul: "(b @ r) ! (length s + 2) = 0"
    by (simp add: b nth_append)
  show ?thesis
    using nul assms(2) by (simp add: unpackstr_def b n)
qed

lemma dir2kv_Inr:
  "dir2kv pup d nbuf = Inr e \<longleftrightarrow>
     73 + length (dname d) \<le> nbuf \<and>
     e = \<lparr>kk = PACK8 Kent @ PACK64 pup @ PACK16 (of_nat (length (dname d))) @ dname d @ [0],
          kv = PACK64 (dflag d) @ PACK64 (qpath (dqid d)) @ PACK32 (qvers (dqid d)) @
            PACK8 (qtype (dqid d)) @ PACK32 (dmode d) @ PACK64 (datime d) @ PACK64 (dmtime d) @
            PACK64 (dlength d) @ PACK32 (duid d) @ PACK32 (dgid d) @ PACK32 (dmuid d)\<rparr>"
  by (auto simp: dir2kv_def packdkey_def packstr_def packdval_def res_simps)

text \<open>
  C27. A directory entry survives the trip to the tree: the key and value \<open>dir2kv\<close> makes of
  an entry of directory \<open>pup\<close> are read back by \<open>kv2dir\<close> as the same entry, and by
  \<open>unpackdkey\<close> as its directory and name.
\<close>

theorem dirent_roundtrip:
  assumes "dir2kv pup d nbuf = Inr e" and "0 \<notin> set (dname d)" and "length (dname d) < 2 ^ 16"
  shows "kv2dir e = Inr d \<and> unpackdkey (kk e) = Inr (pup, dname d)"
proof -
  have e: "e = \<lparr>kk = PACK8 Kent @ PACK64 pup @ PACK16 (of_nat (length (dname d))) @ dname d @ [0],
          kv = PACK64 (dflag d) @ PACK64 (qpath (dqid d)) @ PACK32 (qvers (dqid d)) @
            PACK8 (qtype (dqid d)) @ PACK32 (dmode d) @ PACK64 (datime d) @ PACK64 (dmtime d) @
            PACK64 (dlength d) @ PACK32 (duid d) @ PACK32 (dgid d) @ PACK32 (dmuid d)\<rparr>"
    using assms(1) by (simp add: dir2kv_Inr)
  have "packstr (length (dname d) + 3) (dname d) = Inr (PACK16 (of_nat (length (dname d))) @ dname d @ [0])"
    by (simp add: packstr_def)
  from unpackstr_packstr [OF this assms(2,3), of "[]"]
  have s: "unpackstr (PACK16 (of_nat (length (dname d))) @ dname d @ [0]) = Inr (dname d, length (dname d) + 3)"
    by simp
  have "kv2dir e = Inr d"
    by (simp add: kv2dir_def e s)
  moreover have "unpackdkey (kk e) = Inr (pup, dname d)"
    by (simp add: unpackdkey_def e s)
  ultimately show ?thesis ..
qed

theorem dirent_roundtrip_witness:
  "kv2dir \<lparr>kk = [1, 0,0,0,0,0,0,0,9, 0,2,97,98,0], kv = [0,0,0,0,0,0,0,0, 0,0,0,0,0,0,1,7, 0,0,0,2, 0,
       0,0,1,180, 0,0,0,0,0,0,0,5, 0,0,0,0,0,0,0,6, 0,0,0,0,0,0,3,0, 0,0,0,1, 0,0,0,2, 0,0,0,3]\<rparr> =
   Inr \<lparr>dflag = 0, dqid = \<lparr>qpath = 263, qvers = 2, qtype = 0\<rparr>, dmode = 436, datime = 5, dmtime = 6,
      dlength = 768, duid = 1, dgid = 2, dmuid = 3, dname = [97, 98]\<rparr>"
  (is "kv2dir ?e = Inr ?d")
proof -
  have "dir2kv 9 ?d 256 = Inr ?e"
    by (simp add: dir2kv_Inr PACK8_def PACK16_def PACK32_def PACK64_def)
  from dirent_roundtrip [OF this] show ?thesis by simp
qed

text \<open>
  A deadlist's key and value: what \<open>dlist2kv\<close> stores, \<open>kv2dlist\<close> loads.
\<close>

theorem dlist_roundtrip:
  assumes "dlist2kv dl nbuf = Inr e"
  shows "kv2dlist e = Inr dl \<and> length (kk e) = Dlksz \<and> length (kv e) = Dlvsz"
  using assms by (auto simp: dlist2kv_def kv2dlist_def packbp_def unpackbp_def res_simps)

theorem dlist_roundtrip_witness:
  "kv2dlist \<lparr>kk = Kdlist # PACK64 7 @ PACK64 3, kv = PACK64 (-1) @ PACK64 0 @ PACK64 0 @ PACK64 (-1) @ PACK64 0 @ PACK64 0\<rparr>
   = Inr \<lparr>lgen = 7, lbgen = 3, lhd = \<lparr>baddr = -1, bhash = 0, bgen = 0\<rparr>, ltl = \<lparr>baddr = -1, bhash = 0, bgen = 0\<rparr>\<rparr>"
  using dlist_roundtrip [of "\<lparr>lgen = 7, lbgen = 3, lhd = \<lparr>baddr = -1, bhash = 0, bgen = 0\<rparr>,
      ltl = \<lparr>baddr = -1, bhash = 0, bgen = 0\<rparr>\<rparr>" 65]
  by (simp add: dlist2kv_def packbp_def)

text \<open>
  A snapshot root: the value \<open>tree2kv\<close> stores under the snapshot's generation loads as
  the same root, with the in-memory fields cleared.
\<close>

theorem tree_roundtrip:
  assumes "tree2kv t nbuf = Inr e"
  shows "unpacktree (kv e) = Inr (t\<lparr>tmemgen := 0, tdirty := False\<rparr>) \<and> kk e = Ksnap # PACK64 (tgen t)"
  using assms by (auto simp: tree2kv_def packtree_def packsnap_def unpacktree_def res_simps)

theorem tree_roundtrip_witness:
  "unpacktree (PACK32 1 @ PACK32 2 @ PACK32 3 @ PACK32 0 @ PACK64 5 @ PACK64 (-1) @ PACK64 8 @ PACK64 0 @
      PACK64 65536 @ PACK64 77 @ PACK64 5) =
   Inr \<lparr>tnref = 1, tnlbl = 2, tht = 3, tflag = 0, tgen = 5, tpred = -1, tsucc = 8,
      tbase = 0, tbp = \<lparr>baddr = 65536, bhash = 77, bgen = 5\<rparr>, tmemgen = 0, tdirty = False\<rparr>"
  using tree_roundtrip [of "\<lparr>tnref = 1, tnlbl = 2, tht = 3, tflag = 0, tgen = 5, tpred = -1, tsucc = 8,
      tbase = 0, tbp = \<lparr>baddr = 65536, bhash = 77, bgen = 5\<rparr>, tmemgen = 9, tdirty = True\<rparr>" 768]
  by (simp add: tree2kv_def packtree_def packsnap_def)

lemma length_packarenabps [simp]: "length (packarenabps bps) = 16 * length bps"
  by (induction bps) (simp_all add: packarenabps_def)

lemma unpackarenabps_packarenabps:
  "unpackarenabps (length bps) (packarenabps bps @ r) = map (\<lambda>bp. bp\<lparr>bgen := -1\<rparr>) bps"
  by (induction bps) (simp_all add: packarenabps_def)

lemma length_packsbhd [simp]: "length (packsbhd fi) = 104"
  by (simp add: packsbhd_def str_def)

lemma packsbhd_fields:
  "take 8 (packsbhd fi @ r) = str ''gefs9.00''"
  "UNPACK32 (drop 8 (packsbhd fi @ r)) = of_nat Blksz"
  "UNPACK32 (drop 12 (packsbhd fi @ r)) = of_nat Bufspc"
  "UNPACK32 (drop 16 (packsbhd fi @ r)) = snarena fi"
  "UNPACK32 (drop 20 (packsbhd fi @ r)) = ssnapht fi"
  "UNPACK64 (drop 24 (packsbhd fi @ r)) = baddr (ssnapbp fi)"
  "UNPACK64 (drop 32 (packsbhd fi @ r)) = bhash (ssnapbp fi)"
  "UNPACK64 (drop 40 (packsbhd fi @ r)) = baddr (lhd (ssnapdl fi))"
  "UNPACK64 (drop 48 (packsbhd fi @ r)) = bhash (lhd (ssnapdl fi))"
  "UNPACK64 (drop 56 (packsbhd fi @ r)) = baddr (ltl (ssnapdl fi))"
  "UNPACK64 (drop 64 (packsbhd fi @ r)) = bhash (ltl (ssnapdl fi))"
  "UNPACK64 (drop 72 (packsbhd fi @ r)) = sflag fi"
  "UNPACK64 (drop 80 (packsbhd fi @ r)) = snextqid fi"
  "UNPACK64 (drop 88 (packsbhd fi @ r)) = snextgen fi"
  "UNPACK64 (drop 96 (packsbhd fi @ r)) = sqgen fi"
  "drop 104 (packsbhd fi @ r) = r"
  by (simp_all add: packsbhd_def str_def)

text \<open>What a superblock keeps of the file system's state: no generations in its pointers.\<close>

definition super_loaded :: "Super \<Rightarrow> Super" where
  "super_loaded fi = fi\<lparr>sblksz := of_nat Blksz, sbufspc := of_nat Bufspc,
     ssnapbp := (ssnapbp fi)\<lparr>bgen := -1\<rparr>,
     ssnapdl := \<lparr>lgen = -1, lbgen = 0, lhd = (lhd (ssnapdl fi))\<lparr>bgen := -1\<rparr>, ltl = (ltl (ssnapdl fi))\<lparr>bgen := -1\<rparr>\<rparr>,
     sarenabp := map (\<lambda>bp. bp\<lparr>bgen := -1\<rparr>) (sarenabp fi)\<rparr>"

lemma small_arena_product:
  assumes "0 \<le> sint (w :: u32)" and "sint w < 512"
  shows "\<not> sint (w * 24) < 0"
proof -
  have "sint (w * 24) = signed_take_bit 31 (sint w * 24)"
    by (simp add: sint_word_ariths)
  also have "\<dots> = sint w * 24"
    using assms by (simp add: signed_take_bit_int_eq_self)
  finally show ?thesis using assms by simp
qed

text \<open>
  C28. The superblock survives a sync and a load, whatever the rest of its block holds, up to
  255 arenas; from 256 to 511 arenas \<open>packsb\<close> still writes it, and \<open>unpacksb\<close> stops the
  kernel on the block it wrote.
\<close>

theorem superblock_roundtrip:
  assumes "packsb Blksz fi = Inr b" and "0 \<le> sint (snarena fi)"
    and "int (length (sarenabp fi)) = sint (snarena fi)"
  shows "unpacksb (b @ pad) Blksz =
    (if sint (snarena fi) < 256 then Inr (super_loaded fi) else Inl Panic)"
proof -
  define bps where "bps = packarenabps (sarenabp fi)"
  define hd where "hd = packsbhd fi @ bps"
  define r where "r = bps @ PACK64 (bufhash hd) @ pad"
  have n: "nat (sint (snarena fi)) = length (sarenabp fi)" using assms(3) by linarith
  have b: "b = hd @ PACK64 (bufhash hd)" and lt: "sint (snarena fi) < 512"
    using assms(1,3) n by (auto simp: packsb_def hd_def bps_def res_simps Let_def split: if_splits)
  have p0: "b @ pad = packsbhd fi @ r" by (simp add: b hd_def r_def)
  have len: "length hd = 104 + 16 * length (sarenabp fi)" by (simp add: hd_def bps_def)
  have load: "unpackarenabps (length (sarenabp fi)) r = map (\<lambda>bp. bp\<lparr>bgen := -1\<rparr>) (sarenabp fi)"
    by (simp add: r_def bps_def unpackarenabps_packarenabps)
  have "take (104 + 16 * length (sarenabp fi)) (packsbhd fi @ r) = hd"
    and "UNPACK64 (drop (104 + 16 * length (sarenabp fi)) (packsbhd fi @ r)) = bufhash hd"
    and "104 + 16 * length (sarenabp fi) + 8 \<le> length (packsbhd fi @ r)"
    by (simp_all add: p0 [symmetric] b len)
  then show ?thesis
    using small_arena_product [OF assms(2) lt]
    unfolding unpacksb_def super_loaded_def p0 packsbhd_fields Let_def n load
    by (simp add: assertE_def)
qed

theorem superblock_roundtrip_witness:
  "\<exists>b. unpacksb (b @ replicate 16000 0) Blksz = Inr \<lparr>sblksz = 16384, sbufspc = 8187, snarena = 1, ssnapht = 1,
     ssnapbp = \<lparr>baddr = 49152, bhash = 5, bgen = -1\<rparr>,
     ssnapdl = \<lparr>lgen = -1, lbgen = 0, lhd = Zb, ltl = Zb\<rparr>, sflag = 0, snextqid = 4, snextgen = 9, sqgen = 2,
     sarenabp = [\<lparr>baddr = 16384, bhash = 6, bgen = -1\<rparr>]\<rparr>"
  (is "\<exists>b. unpacksb (b @ _) _ = Inr ?fi")
proof -
  obtain b where b: "packsb Blksz ?fi = Inr b"
    by (simp add: packsb_def Let_def)
  have "super_loaded ?fi = ?fi" by (simp add: super_loaded_def Zb_def)
  with superblock_roundtrip [OF b] show ?thesis by auto
qed

text \<open>
  C37. The arena count of a superblock is trusted before its checksum is compared: a block
  whose count is over 1017, and whose array size still fits an \<open>int\<close>, makes \<open>unpacksb\<close> read
  the arenas' pointers past the end of the block, whatever its checksum.
\<close>

theorem superblock_narena_overrun:
  assumes "length p0 = Blksz" and "take 8 p0 = str ''gefs9.00''"
    and "1017 < sint (UNPACK32 (drop 16 p0))" and "0 \<le> sint (UNPACK32 (drop 16 p0) * 24)"
  shows "unpacksb p0 Blksz = Inl Wild"
proof -
  have "\<not> 104 + 16 * nat (sint (UNPACK32 (drop 16 p0))) + 8 \<le> length p0"
    using assms(1,3) by linarith
  then show ?thesis
    using assms(2,4) by (simp add: unpacksb_def Let_def needE_def)
qed

theorem superblock_narena_overrun_witness:
  "unpacksb (str ''gefs9.00'' @ PACK32 16384 @ PACK32 8187 @ PACK32 2000 @ replicate 16364 0) Blksz = Inl Wild"
  by (rule superblock_narena_overrun) (simp_all add: str_def)

end
