(* ===== verification/Ninep.thy ===== *)
theory Ninep
  imports Gefs_Pack
begin

text \<open>
  9P messages and directory entries on the wire: \<open>sys/src/libc/9sys/convM2S.c\<close>, \<open>convS2M.c\<close>,
  \<open>convM2D.c\<close> and \<open>convD2M.c\<close>, which the kernel (\<open>devmnt\<close>, gefs) and the user programs share.

  A \<open>Fcall\<close> is a tag and a body; the body's constructor is \<open>f->type\<close>, with the members of the
  union that type uses.  A \<open>char*\<close> is \<open>None\<close> for nil.  \<open>count\<close>, \<open>nstat\<close>, \<open>nwname\<close> and \<open>nwqid\<close> are the
  lengths of the lists.  While a message is read, \<open>p\<close> is the list of the bytes from \<open>p\<close> up to
  \<open>ep\<close>, so \<open>p+n > ep\<close> is \<open>length p < n\<close>.
\<close>

abbreviation (input) BIT8SZ :: nat where "BIT8SZ \<equiv> 1"
abbreviation (input) BIT16SZ :: nat where "BIT16SZ \<equiv> 2"
abbreviation (input) BIT32SZ :: nat where "BIT32SZ \<equiv> 4"
abbreviation (input) BIT64SZ :: nat where "BIT64SZ \<equiv> 8"
abbreviation (input) QIDSZ :: nat where "QIDSZ \<equiv> 13"
abbreviation (input) MAXWELEM :: nat where "MAXWELEM \<equiv> 16"

type_synonym cstring = "bytes option"

datatype Fbody =
    Tversion u32 cstring | Rversion u32 cstring
  | Tauth u32 cstring cstring | Rauth Qid
  | Tattach u32 u32 cstring cstring | Rattach Qid
  | Rerror cstring
  | Tflush u16 | Rflush
  | Twalk u32 u32 "cstring list" | Rwalk "Qid list"
  | Topen u32 byte | Ropen Qid u32
  | Tcreate u32 cstring u32 byte | Rcreate Qid u32
  | Tread u32 u64 u32 | Rread bytes
  | Twrite u32 u64 bytes | Rwrite u32
  | Tclunk u32 | Rclunk
  | Tremove u32 | Rremove
  | Tstat u32 | Rstat bytes
  | Twstat u32 bytes | Rwstat
  | Tother byte

record Fcall =
  ftag :: u16
  fbody :: Fbody

text \<open>The type byte (the \<open>enum\<close> of fcall.h); \<open>Tother\<close> stands for the values with no case.\<close>

fun ftype :: "Fbody \<Rightarrow> byte" where
  "ftype (Tversion _ _) = 100" | "ftype (Rversion _ _) = 101"
| "ftype (Tauth _ _ _) = 102" | "ftype (Rauth _) = 103"
| "ftype (Tattach _ _ _ _) = 104" | "ftype (Rattach _) = 105"
| "ftype (Rerror _) = 107"
| "ftype (Tflush _) = 108" | "ftype Rflush = 109"
| "ftype (Twalk _ _ _) = 110" | "ftype (Rwalk _) = 111"
| "ftype (Topen _ _) = 112" | "ftype (Ropen _ _) = 113"
| "ftype (Tcreate _ _ _ _) = 114" | "ftype (Rcreate _ _) = 115"
| "ftype (Tread _ _ _) = 116" | "ftype (Rread _) = 117"
| "ftype (Twrite _ _ _) = 118" | "ftype (Rwrite _) = 119"
| "ftype (Tclunk _) = 120" | "ftype Rclunk = 121"
| "ftype (Tremove _) = 122" | "ftype Rremove = 123"
| "ftype (Tstat _) = 124" | "ftype (Rstat _) = 125"
| "ftype (Twstat _ _) = 126" | "ftype Rwstat = 127"
| "ftype (Tother t) = t"

section \<open>Writing a message (convS2M.c)\<close>

definition pstring :: "cstring \<Rightarrow> bytes" where
  "pstring s = (case s of None \<Rightarrow> PBIT16 0 | Some b \<Rightarrow> PBIT16 (of_nat (length b)) @ b)"

definition pqid :: "Qid \<Rightarrow> bytes" where
  "pqid q = PBIT8 (qtype q) @ PBIT32 (qvers q) @ PBIT64 (qpath q)"

definition stringsz :: "cstring \<Rightarrow> nat" where
  "stringsz s = (case s of None \<Rightarrow> BIT16SZ | Some b \<Rightarrow> BIT16SZ + length b)"

text \<open>
  The size is a \<open>uint\<close>: the sum wraps.  The loop over \<open>wname\<close> reads \<open>nwname\<close> elements of an
  array of \<open>MAXWELEM\<close>.
\<close>

definition sizeS2M :: "Fcall \<Rightarrow> u32 res" where
  "sizeS2M f =
     (let hd = BIT32SZ + BIT8SZ + BIT16SZ; ok = (\<lambda>n. Inr (of_nat (hd + n))) in
      case fbody f of
        Tversion _ v \<Rightarrow> ok (BIT32SZ + stringsz v)
      | Tflush _ \<Rightarrow> ok BIT16SZ
      | Tauth _ u a \<Rightarrow> ok (BIT32SZ + stringsz u + stringsz a)
      | Tattach _ _ u a \<Rightarrow> ok (BIT32SZ + BIT32SZ + stringsz u + stringsz a)
      | Twalk _ _ ws \<Rightarrow> if MAXWELEM < length ws then Inl Wild
                        else ok (BIT32SZ + BIT32SZ + BIT16SZ + sum_list (map stringsz ws))
      | Topen _ _ \<Rightarrow> ok (BIT32SZ + BIT8SZ)
      | Tcreate _ n _ _ \<Rightarrow> ok (BIT32SZ + stringsz n + BIT32SZ + BIT8SZ)
      | Tread _ _ _ \<Rightarrow> ok (BIT32SZ + BIT64SZ + BIT32SZ)
      | Twrite _ _ d \<Rightarrow> ok (BIT32SZ + BIT64SZ + BIT32SZ + length d)
      | Tclunk _ \<Rightarrow> ok BIT32SZ
      | Tremove _ \<Rightarrow> ok BIT32SZ
      | Tstat _ \<Rightarrow> ok BIT32SZ
      | Twstat _ s \<Rightarrow> ok (BIT32SZ + BIT16SZ + length s)
      | Rversion _ v \<Rightarrow> ok (BIT32SZ + stringsz v)
      | Rerror e \<Rightarrow> ok (stringsz e)
      | Rflush \<Rightarrow> ok 0
      | Rauth _ \<Rightarrow> ok QIDSZ
      | Rattach _ \<Rightarrow> ok QIDSZ
      | Rwalk qs \<Rightarrow> ok (BIT16SZ + length qs * QIDSZ)
      | Ropen _ _ \<Rightarrow> ok (QIDSZ + BIT32SZ)
      | Rcreate _ _ \<Rightarrow> ok (QIDSZ + BIT32SZ)
      | Rread d \<Rightarrow> ok (BIT32SZ + length d)
      | Rwrite _ \<Rightarrow> ok BIT32SZ
      | Rclunk \<Rightarrow> ok 0
      | Rremove \<Rightarrow> ok 0
      | Rstat s \<Rightarrow> ok (BIT16SZ + length s)
      | Rwstat \<Rightarrow> ok 0
      | Tother _ \<Rightarrow> Inr 0)"

text \<open>What the switch of \<open>convS2M\<close> stores after the header; \<open>None\<close> is its \<open>return 0\<close>.\<close>

fun convS2M_T :: "Fbody \<Rightarrow> bytes option" where
  "convS2M_T (Tversion msize v) = Some (PBIT32 msize @ pstring v)"
| "convS2M_T (Tflush oldtag) = Some (PBIT16 oldtag)"
| "convS2M_T (Tauth afid u a) = Some (PBIT32 afid @ pstring u @ pstring a)"
| "convS2M_T (Tattach fid afid u a) = Some (PBIT32 fid @ PBIT32 afid @ pstring u @ pstring a)"
| "convS2M_T (Twalk fid newfid ws) =
     (if MAXWELEM < length ws then None
      else Some (PBIT32 fid @ PBIT32 newfid @ PBIT16 (of_nat (length ws)) @ concat (map pstring ws)))"
| "convS2M_T (Topen fid mode) = Some (PBIT32 fid @ PBIT8 mode)"
| "convS2M_T (Tcreate fid name perm mode) = Some (PBIT32 fid @ pstring name @ PBIT32 perm @ PBIT8 mode)"
| "convS2M_T (Tread fid off count) = Some (PBIT32 fid @ PBIT64 off @ PBIT32 count)"
| "convS2M_T (Twrite fid off d) = Some (PBIT32 fid @ PBIT64 off @ PBIT32 (of_nat (length d)) @ d)"
| "convS2M_T (Tclunk fid) = Some (PBIT32 fid)"
| "convS2M_T (Tremove fid) = Some (PBIT32 fid)"
| "convS2M_T (Tstat fid) = Some (PBIT32 fid)"
| "convS2M_T (Twstat fid s) = Some (PBIT32 fid @ PBIT16 (of_nat (length s)) @ s)"
| "convS2M_T _ = None"

fun convS2M_R :: "Fbody \<Rightarrow> bytes option" where
  "convS2M_R (Rversion msize v) = Some (PBIT32 msize @ pstring v)"
| "convS2M_R (Rerror e) = Some (pstring e)"
| "convS2M_R Rflush = Some []"
| "convS2M_R (Rauth q) = Some (pqid q)"
| "convS2M_R (Rattach q) = Some (pqid q)"
| "convS2M_R (Rwalk qs) =
     (if MAXWELEM < length qs then None
      else Some (PBIT16 (of_nat (length qs)) @ concat (map pqid qs)))"
| "convS2M_R (Ropen q iounit) = Some (pqid q @ PBIT32 iounit)"
| "convS2M_R (Rcreate q iounit) = Some (pqid q @ PBIT32 iounit)"
| "convS2M_R (Rread d) = Some (PBIT32 (of_nat (length d)) @ d)"
| "convS2M_R (Rwrite count) = Some (PBIT32 count)"
| "convS2M_R Rclunk = Some []"
| "convS2M_R Rremove = Some []"
| "convS2M_R (Rstat s) = Some (PBIT16 (of_nat (length s)) @ s)"
| "convS2M_R Rwstat = Some []"
| "convS2M_R _ = None"

text \<open>\<open>Inr None\<close> is a return of 0; \<open>nap\<close> is the room at \<open>ap\<close>.\<close>

definition convS2M :: "Fcall \<Rightarrow> nat \<Rightarrow> bytes option res" where
  "convS2M f nap = bindE (sizeS2M f) (\<lambda>size.
     if size = 0 then Inr None
     else if nap < unat size then Inr None
     else case (case convS2M_T (fbody f) of None \<Rightarrow> convS2M_R (fbody f) | b \<Rightarrow> b) of
       None \<Rightarrow> Inr None
     | Some b \<Rightarrow>
         let m = PBIT32 size @ PBIT8 (ftype (fbody f)) @ PBIT16 (ftag f) @ b in
         if nap < length m then Inl Wild
         else if unat size \<noteq> length m then Inr None
         else Inr (Some m))"

section \<open>Reading a message (convM2S.c)\<close>

text \<open>
  The string moves down over its count to make room for the NUL, which touches no byte after
  it: the result is the string and the bytes after it.
\<close>

definition gstring :: "bytes \<Rightarrow> (cstring \<times> bytes) option" where
  "gstring p =
     (if length p < BIT16SZ then None
      else let n = unat (GBIT16 p) in
        if length p < BIT16SZ + n then None
        else Some (Some (cstr (take n (drop BIT16SZ p))), drop (BIT16SZ + n) p))"

definition gqid :: "bytes \<Rightarrow> (Qid \<times> bytes) option" where
  "gqid p =
     (if length p < QIDSZ then None
      else Some (\<lparr>qpath = GBIT64 (drop 5 p), qvers = GBIT32 (drop 1 p), qtype = GBIT8 p\<rparr>, drop QIDSZ p))"

text \<open>The loops over \<open>wname\<close> and \<open>wqid\<close>; a nil \<open>p\<close> leaves the loop and fails at the end.\<close>

fun gmany :: "(bytes \<Rightarrow> ('a \<times> bytes) option) \<Rightarrow> nat \<Rightarrow> bytes \<Rightarrow> ('a list \<times> bytes) option" where
  "gmany g 0 p = Some ([], p)"
| "gmany g (Suc n) p =
     Option.bind (g p) (\<lambda>(x, p). Option.bind (gmany g n p) (\<lambda>(xs, p). Some (x # xs, p)))"

text \<open>A guard \<open>if(p+n > ep) return 0\<close>.\<close>

definition room :: "nat \<Rightarrow> bytes \<Rightarrow> 'a option \<Rightarrow> 'a option" where
  "room n p k = (if length p < n then None else k)"

text \<open>The switch of \<open>convM2S\<close>: the body and the bytes left, for the T types and the R types.\<close>

definition convM2S_T :: "byte \<Rightarrow> bytes \<Rightarrow> (Fbody \<times> bytes) option" where
  "convM2S_T ty p =
    (if ty = 100 then room BIT32SZ p
       (Option.bind (gstring (drop 4 p)) (\<lambda>(v, r). Some (Tversion (GBIT32 p) v, r)))
     else if ty = 108 then room BIT16SZ p (Some (Tflush (GBIT16 p), drop 2 p))
     else if ty = 102 then room BIT32SZ p
       (Option.bind (gstring (drop 4 p)) (\<lambda>(u, r).
        Option.bind (gstring r) (\<lambda>(a, r). Some (Tauth (GBIT32 p) u a, r))))
     else if ty = 104 then room BIT32SZ p (room BIT32SZ (drop 4 p)
       (Option.bind (gstring (drop 8 p)) (\<lambda>(u, r).
        Option.bind (gstring r) (\<lambda>(a, r). Some (Tattach (GBIT32 p) (GBIT32 (drop 4 p)) u a, r)))))
     else if ty = 110 then room (BIT32SZ + BIT32SZ + BIT16SZ) p
       (let n = unat (GBIT16 (drop 8 p)) in
        if MAXWELEM < n then None
        else Option.bind (gmany gstring n (drop 10 p)) (\<lambda>(ws, r).
          Some (Twalk (GBIT32 p) (GBIT32 (drop 4 p)) ws, r)))
     else if ty = 112 then room (BIT32SZ + BIT8SZ) p (Some (Topen (GBIT32 p) (GBIT8 (drop 4 p)), drop 5 p))
     else if ty = 114 then room BIT32SZ p
       (Option.bind (gstring (drop 4 p)) (\<lambda>(n, r). room (BIT32SZ + BIT8SZ) r
         (Some (Tcreate (GBIT32 p) n (GBIT32 r) (GBIT8 (drop 4 r)), drop 5 r))))
     else if ty = 116 then room (BIT32SZ + BIT64SZ + BIT32SZ) p
       (Some (Tread (GBIT32 p) (GBIT64 (drop 4 p)) (GBIT32 (drop 12 p)), drop 16 p))
     else if ty = 118 then room (BIT32SZ + BIT64SZ + BIT32SZ) p
       (let n = unat (GBIT32 (drop 12 p)) in room n (drop 16 p)
         (Some (Twrite (GBIT32 p) (GBIT64 (drop 4 p)) (take n (drop 16 p)), drop (16 + n) p)))
     else if ty = 120 then room BIT32SZ p (Some (Tclunk (GBIT32 p), drop 4 p))
     else if ty = 122 then room BIT32SZ p (Some (Tremove (GBIT32 p), drop 4 p))
     else if ty = 124 then room BIT32SZ p (Some (Tstat (GBIT32 p), drop 4 p))
     else if ty = 126 then room (BIT32SZ + BIT16SZ) p
       (let n = unat (GBIT16 (drop 4 p)) in room n (drop 6 p)
         (Some (Twstat (GBIT32 p) (take n (drop 6 p)), drop (6 + n) p)))
     else None)"

definition convM2S_R :: "byte \<Rightarrow> bytes \<Rightarrow> (Fbody \<times> bytes) option" where
  "convM2S_R ty p =
    (if ty = 101 then room BIT32SZ p
       (Option.bind (gstring (drop 4 p)) (\<lambda>(v, r). Some (Rversion (GBIT32 p) v, r)))
     else if ty = 107 then Option.bind (gstring p) (\<lambda>(e, r). Some (Rerror e, r))
     else if ty = 109 then Some (Rflush, p)
     else if ty = 103 then Option.bind (gqid p) (\<lambda>(q, r). Some (Rauth q, r))
     else if ty = 105 then Option.bind (gqid p) (\<lambda>(q, r). Some (Rattach q, r))
     else if ty = 111 then room BIT16SZ p
       (let n = unat (GBIT16 p) in
        if MAXWELEM < n then None
        else Option.bind (gmany gqid n (drop 2 p)) (\<lambda>(qs, r). Some (Rwalk qs, r)))
     else if ty = 113 then Option.bind (gqid p) (\<lambda>(q, r). room BIT32SZ r (Some (Ropen q (GBIT32 r), drop 4 r)))
     else if ty = 115 then Option.bind (gqid p) (\<lambda>(q, r). room BIT32SZ r (Some (Rcreate q (GBIT32 r), drop 4 r)))
     else if ty = 117 then room BIT32SZ p
       (let n = unat (GBIT32 p) in room n (drop 4 p) (Some (Rread (take n (drop 4 p)), drop (4 + n) p)))
     else if ty = 119 then room BIT32SZ p (Some (Rwrite (GBIT32 p), drop 4 p))
     else if ty = 121 then Some (Rclunk, p)
     else if ty = 123 then Some (Rremove, p)
     else if ty = 125 then room BIT16SZ p
       (let n = unat (GBIT16 p) in room n (drop 2 p) (Some (Rstat (take n (drop 2 p)), drop (2 + n) p)))
     else if ty = 127 then Some (Rwstat, p)
     else None)"

text \<open>The size returned and the message; \<open>None\<close> is a return of 0.\<close>

definition convM2S :: "bytes \<Rightarrow> (nat \<times> Fcall) option" where
  "convM2S ap = room (BIT32SZ + BIT8SZ + BIT16SZ) ap
     (let size = unat (GBIT32 ap) in
      if size < BIT32SZ + BIT8SZ + BIT16SZ then None
      else let ty = GBIT8 (drop 4 ap); tag = GBIT16 (drop 5 ap); p = drop 7 ap in
        Option.bind (case convM2S_T ty p of None \<Rightarrow> convM2S_R ty p | b \<Rightarrow> b) (\<lambda>(b, r).
          if size = length ap - length r then Some (size, \<lparr>ftag = tag, fbody = b\<rparr>) else None))"

section \<open>Properties of messages\<close>

text \<open>The strings and counts a message can carry.\<close>

definition wfstring :: "cstring \<Rightarrow> bool" where
  "wfstring s = (case s of None \<Rightarrow> True | Some b \<Rightarrow> length b < 2 ^ 16 \<and> 0 \<notin> set b)"

fun wfbody :: "Fbody \<Rightarrow> bool" where
  "wfbody (Tversion _ v) = wfstring v"
| "wfbody (Rversion _ v) = wfstring v"
| "wfbody (Tauth _ u a) = (wfstring u \<and> wfstring a)"
| "wfbody (Tattach _ _ u a) = (wfstring u \<and> wfstring a)"
| "wfbody (Rerror e) = wfstring e"
| "wfbody (Twalk _ _ ws) = (length ws \<le> MAXWELEM \<and> list_all wfstring ws)"
| "wfbody (Rwalk qs) = (length qs \<le> MAXWELEM)"
| "wfbody (Tcreate _ n _ _) = wfstring n"
| "wfbody (Rread d) = (length d < 2 ^ 32 - 11)"
| "wfbody (Twrite _ _ d) = (length d < 2 ^ 32 - 23)"
| "wfbody (Rstat s) = (length s < 2 ^ 16)"
| "wfbody (Twstat _ s) = (length s < 2 ^ 16)"
| "wfbody (Tother _) = False"
| "wfbody _ = True"

text \<open>A nil string arrives as the empty one.\<close>

definition recvstring :: "cstring \<Rightarrow> cstring" where
  "recvstring s = Some (case s of None \<Rightarrow> [] | Some b \<Rightarrow> b)"

fun recvbody :: "Fbody \<Rightarrow> Fbody" where
  "recvbody (Tversion m v) = Tversion m (recvstring v)"
| "recvbody (Rversion m v) = Rversion m (recvstring v)"
| "recvbody (Tauth f u a) = Tauth f (recvstring u) (recvstring a)"
| "recvbody (Tattach f g u a) = Tattach f g (recvstring u) (recvstring a)"
| "recvbody (Rerror e) = Rerror (recvstring e)"
| "recvbody (Twalk f g ws) = Twalk f g (map recvstring ws)"
| "recvbody (Tcreate f n p m) = Tcreate f (recvstring n) p m"
| "recvbody b = b"

lemma cstr_id: "0 \<notin> set s \<Longrightarrow> cstr s = s"
  by (induction s) (auto simp: cstr_def)

lemma gstring_pstring [simp]:
  "wfstring s \<Longrightarrow> gstring (pstring s @ r) = Some (recvstring s, r)"
  by (auto simp: wfstring_def gstring_def pstring_def recvstring_def cstr_id unat_of_nat
      take_bit_nat_eq_self split: option.splits)

lemma gstring_pstring_Nil [simp]: "wfstring s \<Longrightarrow> gstring (pstring s) = Some (recvstring s, [])"
  using gstring_pstring [of s "[]"] by simp

lemma gqid_pqid [simp]: "gqid (pqid q @ r) = Some (q, r)"
  by (simp add: gqid_def pqid_def)

lemma length_pstring [simp]: "length (pstring s) = stringsz s"
  by (simp add: pstring_def stringsz_def split: option.splits)

lemma length_pqid [simp]: "length (pqid q) = QIDSZ"
  by (simp add: pqid_def)

lemma length_pstrings: "length (concat (map pstring ws)) = sum_list (map stringsz ws)"
  by (induction ws) simp_all

lemma length_pqids: "length (concat (map pqid qs)) = length qs * QIDSZ"
  by (induction qs) simp_all

lemma gmany_gstring:
  "list_all wfstring ws \<Longrightarrow> gmany gstring (length ws) (concat (map pstring ws) @ r) = Some (map recvstring ws, r)"
  by (induction ws) simp_all

lemma gmany_gqid: "gmany gqid (length qs) (concat (map pqid qs) @ r) = Some (qs, r)"
  by (induction qs) simp_all

lemma unat_small16: "n < 2 ^ 16 \<Longrightarrow> unat (of_nat n :: u16) = n"
  by (simp add: unat_of_nat take_bit_nat_eq_self)

lemma unat_small32: "n < 2 ^ 32 \<Longrightarrow> unat (of_nat n :: u32) = n"
  by (simp add: unat_of_nat take_bit_nat_eq_self)

text \<open>The bytes of the body, and that the switch of \<open>convM2S\<close> reads them back.\<close>

definition body_bytes :: "Fbody \<Rightarrow> bytes option" where
  "body_bytes b = (case convS2M_T b of None \<Rightarrow> convS2M_R b | x \<Rightarrow> x)"

lemma body_roundtrip:
  assumes "wfbody b" and "body_bytes b = Some m"
  shows "(case convM2S_T (ftype b) (m @ r) of None \<Rightarrow> convM2S_R (ftype b) (m @ r) | x \<Rightarrow> x) = Some (recvbody b, r)"
  using assms
  by (cases b) (auto simp: body_bytes_def convM2S_T_def convM2S_R_def room_def gmany_gstring gmany_gqid
      unat_small16 unat_small32 Let_def)

lemma stringsz_bound: "wfstring s \<Longrightarrow> stringsz s < 65538"
  by (auto simp: wfstring_def stringsz_def split: option.splits)

lemma stringsz_sum_bound: "list_all wfstring ws \<Longrightarrow> sum_list (map stringsz ws) \<le> length ws * (2 + 2 ^ 16)"
proof (induction ws)
  case (Cons w ws)
  then show ?case using stringsz_bound [of w] by simp
qed simp

lemma body_size_nat:
  assumes "wfbody (fbody f)"
  obtains m where "body_bytes (fbody f) = Some m" and "length m + 7 < 2 ^ 32"
    and "sizeS2M f = Inr (of_nat (length m + 7))"
proof (cases "fbody f")
  case (Twalk a b ws)
  with assms have ws: "length ws \<le> 16" "list_all wfstring ws" by simp_all
  then have "sum_list (map stringsz ws) \<le> 16 * (2 + 2 ^ 16)"
    using stringsz_sum_bound [OF ws(2)] mult_le_mono1 [OF ws(1), of "2 + 2 ^ 16"] by linarith
  with that ws(1) Twalk show ?thesis
    by (auto simp: body_bytes_def sizeS2M_def length_pstrings add.commute)
next
  case (Tauth a u v)
  with assms have "stringsz u < 65538" "stringsz v < 65538" by (simp_all add: stringsz_bound)
  with that Tauth show ?thesis by (auto simp: body_bytes_def sizeS2M_def add_ac)
next
  case (Tattach a b u v)
  with assms have "stringsz u < 65538" "stringsz v < 65538" by (simp_all add: stringsz_bound)
  with that Tattach show ?thesis by (auto simp: body_bytes_def sizeS2M_def add_ac)
qed (use assms that in \<open>auto dest!: stringsz_bound simp: body_bytes_def sizeS2M_def length_pqids add_ac\<close>)

lemma body_size:
  assumes "wfbody (fbody f)"
  obtains b n where "body_bytes (fbody f) = Some b" and "sizeS2M f = Inr n" and "unat n = length b + 7"
  using body_size_nat [OF assms] unat_small32 by metis

lemma convS2M_bytes:
  assumes "body_bytes (fbody f) = Some b" and "sizeS2M f = Inr n" and "unat n = length b + 7"
  shows "convS2M f nap = (if unat n \<le> nap
    then Inr (Some (PBIT32 n @ PBIT8 (ftype (fbody f)) @ PBIT16 (ftag f) @ b)) else Inr None)"
proof -
  have "n \<noteq> 0" using assms(3) by auto
  then show ?thesis
    using assms by (auto simp: convS2M_def body_bytes_def Let_def)
qed

text \<open>
  C22. A message fits exactly when it should: for a well-formed message \<open>sizeS2M\<close> is the number
  of bytes \<open>convS2M\<close> stores, never wraps, and \<open>convS2M\<close> succeeds exactly when the buffer has
  that room, never writing outside it.
\<close>

theorem convS2M_size:
  assumes "wfbody (fbody f)"
  shows "\<exists>n m. sizeS2M f = Inr n \<and> length m = unat n \<and>
    convS2M f nap = (if unat n \<le> nap then Inr (Some m) else Inr None)"
proof -
  from assms obtain b n where b: "body_bytes (fbody f) = Some b" "sizeS2M f = Inr n" "unat n = length b + 7"
    by (rule body_size)
  show ?thesis
    by (rule exI [of _ n], rule exI [of _ "PBIT32 n @ PBIT8 (ftype (fbody f)) @ PBIT16 (ftag f) @ b"])
      (simp add: convS2M_bytes [OF b] b)
qed

theorem convS2M_size_witness:
  "\<exists>n m. sizeS2M \<lparr>ftag = 1, fbody = Tversion 8192 (Some [57, 80])\<rparr> = Inr n \<and> length m = unat n \<and>
    convS2M \<lparr>ftag = 1, fbody = Tversion 8192 (Some [57, 80])\<rparr> 15 =
      (if unat n \<le> 15 then Inr (Some m) else Inr None)"
  using convS2M_size [of "\<lparr>ftag = 1, fbody = Tversion 8192 (Some [57, 80])\<rparr>" 15]
  by (simp add: wfstring_def)

text \<open>
  C21. What one side sends the other receives: a well-formed message written by \<open>convS2M\<close> is
  read by \<open>convM2S\<close>, from a buffer that may hold more after it, as the same message, with
  its size; only a nil string becomes the empty string.
\<close>

theorem fcall_roundtrip:
  assumes "wfbody (fbody f)" and "convS2M f nap = Inr (Some m)"
  shows "convM2S (m @ r) = Some (length m, f\<lparr>fbody := recvbody (fbody f)\<rparr>)"
proof -
  from assms(1) obtain b n where b: "body_bytes (fbody f) = Some b" "sizeS2M f = Inr n" "unat n = length b + 7"
    by (rule body_size)
  have m: "m = PBIT32 n @ PBIT8 (ftype (fbody f)) @ PBIT16 (ftag f) @ b"
    using assms(2) by (simp add: convS2M_bytes [OF b] split: if_splits)
  show ?thesis
    using body_roundtrip [OF assms(1) b(1), of r] b(3) by (simp add: convM2S_def room_def m)
qed

theorem fcall_roundtrip_witness:
  "convM2S [26, 0, 0, 0, 110, 5, 0, 1, 0, 0, 0, 2, 0, 0, 0, 2, 0, 3, 0, 117, 115, 114, 2, 0, 97, 98] =
     Some (26, \<lparr>ftag = 5, fbody = Twalk 1 2 [Some [117, 115, 114], Some [97, 98]]\<rparr>)"
  (is "convM2S ?m = Some (26, ?f)")
proof -
  have "convS2M ?f 26 = Inr (Some ?m)"
    by (simp add: convS2M_def sizeS2M_def stringsz_def pstring_def PBIT8_def PBIT16_def PBIT32_def)
  from fcall_roundtrip [OF _ this, of "[]"] show ?thesis
    by (simp add: wfstring_def recvstring_def)
qed

lemma gstring_Some:
  assumes "gstring p = Some (s, r)"
  shows "wfstring s \<and> length r \<le> length p"
proof -
  have c: "set (cstr q) \<subseteq> set q" "length (cstr q) \<le> length q" for q
    by (auto simp: cstr_def dest: set_takeWhileD intro: length_takeWhile_le)
  have "unat (GBIT16 p) < 2 ^ 16" by (simp add: unat_bounds)
  then show ?thesis
    using assms c(2) [of "take (unat (GBIT16 p)) (drop 2 p)"] cstr_no_NUL
    by (auto simp: gstring_def wfstring_def Let_def split: if_splits)
qed

lemma gqid_Some: "gqid p = Some (q, r) \<Longrightarrow> length r \<le> length p"
  by (auto simp: gqid_def split: if_splits)

lemma gmany_Some:
  assumes "\<And>p x r. g p = Some (x, r) \<Longrightarrow> P x \<and> length r \<le> length p"
  shows "gmany g n p = Some (xs, r) \<Longrightarrow> list_all P xs \<and> length xs = n \<and> length r \<le> length p"
proof (induction n arbitrary: p xs)
  case (Suc n)
  from Suc.prems obtain x q ys where g: "g p = Some (x, q)" "gmany g n q = Some (ys, r)" "xs = x # ys"
    by (auto simp: bind_eq_Some_conv)
  from Suc.IH [OF g(2)] assms [OF g(1)] g(3) show ?case by auto
qed simp

lemma gstring_loop:
  "gmany gstring n p = Some (ws, r) \<Longrightarrow> list_all wfstring ws \<and> length ws = n \<and> length r \<le> length p"
  using gmany_Some [of gstring wfstring] gstring_Some by blast

lemma gqid_loop: "gmany gqid n p = Some (qs, r) \<Longrightarrow> length qs = n \<and> length r \<le> length p"
  using gmany_Some [of gqid "\<lambda>_. True"] gqid_Some by blast

text \<open>What the switch accepts, given how much of the message is left.\<close>

lemma body_read_safe:
  assumes "(case convM2S_T ty p of None \<Rightarrow> convM2S_R ty p | x \<Rightarrow> x) = Some (b, r)"
    and "length p - length r < 2 ^ 32 - 7"
  shows "wfbody b \<and> length r \<le> length p \<and> ftype b = ty"
  using assms unat_bounds(2) [of "GBIT16 p"] unat_bounds(2) [of "GBIT16 (drop 4 p)"]
  by (auto simp: convM2S_T_def convM2S_R_def room_def Let_def bind_eq_Some_conv
      dest!: gstring_Some gqid_Some gstring_loop gqid_loop split: if_splits option.splits)



section \<open>Directory entries (convD2M.c, convM2D.c)\<close>

record Dir =
  rtype :: u16
  rdev :: u32
  rqid :: Qid
  rmode :: u32
  ratime :: u32
  rmtime :: u32
  rlength :: u64
  rname :: cstring
  ruid :: cstring
  rgid :: cstring
  rmuid :: cstring

definition sv :: "Dir \<Rightarrow> bytes list" where
  "sv d = map (\<lambda>s. case s of None \<Rightarrow> [] | Some b \<Rightarrow> b) [rname d, ruid d, rgid d, rmuid d]"

definition sizeD2M :: "Dir \<Rightarrow> nat" where
  "sizeD2M d = STATFIXLEN + sum_list (map length (sv d))"

definition convD2M_fixed :: "Dir \<Rightarrow> bytes" where
  "convD2M_fixed d = PBIT16 (rtype d) @ PBIT32 (rdev d) @ PBIT8 (qtype (rqid d)) @ PBIT32 (qvers (rqid d)) @
     PBIT64 (qpath (rqid d)) @ PBIT32 (rmode d) @ PBIT32 (ratime d) @ PBIT32 (rmtime d) @ PBIT64 (rlength d)"

text \<open>The loop over the four strings; \<open>room\<close> is what is left up to \<open>ebuf\<close>.\<close>

fun pstrings :: "nat \<Rightarrow> bytes list \<Rightarrow> bytes option" where
  "pstrings left [] = Some []"
| "pstrings left (s # ss) =
     (if left < length s + BIT16SZ then None
      else Option.bind (pstrings (left - (length s + BIT16SZ)) ss)
        (\<lambda>b. Some (PBIT16 (of_nat (length s)) @ s @ b)))"

text \<open>
  The bytes stored, whose number is returned; \<open>None\<close> is a return of 0.  When the entry does
  not fit, the two bytes of its size are stored and 2 is returned.
\<close>

definition convD2M :: "Dir \<Rightarrow> nat \<Rightarrow> bytes option" where
  "convD2M d nbuf =
     (if nbuf < BIT16SZ then None
      else let ss = STATFIXLEN + sum_list (map length (sv d)); sz = PBIT16 (of_nat (ss - BIT16SZ)) in
        if nbuf < ss then Some sz
        else Option.bind (pstrings (nbuf - 41) (sv d)) (\<lambda>b.
          let m = sz @ convD2M_fixed d @ b in if ss \<noteq> length m then None else Some m))"

fun statcheck_loop :: "nat \<Rightarrow> bytes \<Rightarrow> bool" where
  "statcheck_loop 0 p = (p = [])"
| "statcheck_loop (Suc n) p =
     (if length p < BIT16SZ then False
      else let k = BIT16SZ + unat (GBIT16 p) in k \<le> length p \<and> statcheck_loop n (drop k p))"

text \<open>
  True for a return of 0.  Inside the loop \<open>buf\<close> may pass \<open>ebuf\<close>; then the next round or the
  comparison after the loop fails.
\<close>

definition statcheck :: "bytes \<Rightarrow> bool" where
  "statcheck buf = (STATFIXLEN \<le> length buf \<and> length buf = BIT16SZ + unat (GBIT16 buf) \<and>
     statcheck_loop 4 (drop 41 buf))"

fun gstrings :: "nat \<Rightarrow> bytes \<Rightarrow> (bytes list \<times> bytes) option" where
  "gstrings 0 p = Some ([], p)"
| "gstrings (Suc n) p =
     (if length p < BIT16SZ then None
      else let ns = unat (GBIT16 p); q = drop BIT16SZ p in
        if length q < ns then None
        else Option.bind (gstrings n (drop ns q)) (\<lambda>(ss, r). Some (cstr (take ns q) # ss, r)))"

text \<open>The count returned and the entry; \<open>strs\<close> says whether the caller gave room for the strings.\<close>

definition convM2D :: "bytes \<Rightarrow> bool \<Rightarrow> (nat \<times> Dir) option" where
  "convM2D buf strs =
     (if length buf < STATFIXLEN then None
      else Option.bind (gstrings 4 (drop 41 buf)) (\<lambda>(ss, r).
        let ss = (if strs then ss else replicate 4 []) in
        Some (length buf - length r,
          \<lparr>rtype = GBIT16 (drop 2 buf), rdev = GBIT32 (drop 4 buf),
           rqid = \<lparr>qpath = GBIT64 (drop 13 buf), qvers = GBIT32 (drop 9 buf), qtype = GBIT8 (drop 8 buf)\<rparr>,
           rmode = GBIT32 (drop 21 buf), ratime = GBIT32 (drop 25 buf), rmtime = GBIT32 (drop 29 buf),
           rlength = GBIT64 (drop 33 buf),
           rname = Some (ss ! 0), ruid = Some (ss ! 1), rgid = Some (ss ! 2), rmuid = Some (ss ! 3)\<rparr>)))"

section \<open>Properties of directory entries\<close>

definition recvdir :: "Dir \<Rightarrow> Dir" where
  "recvdir d = d\<lparr>rname := recvstring (rname d), ruid := recvstring (ruid d),
     rgid := recvstring (rgid d), rmuid := recvstring (rmuid d)\<rparr>"

definition wfdir :: "Dir \<Rightarrow> bool" where
  "wfdir d = (list_all (\<lambda>s. 0 \<notin> set s) (sv d) \<and> sizeD2M d - BIT16SZ < 2 ^ 16)"

definition strbytes :: "bytes list \<Rightarrow> bytes" where
  "strbytes ss = concat (map (\<lambda>s. PBIT16 (of_nat (length s)) @ s) ss)"

lemma length_strbytes: "length (strbytes ss) = sum_list (map length ss) + 2 * length ss"
  by (induction ss) (simp_all add: strbytes_def)

lemma pstrings_enough: "length (strbytes ss) \<le> left \<Longrightarrow> pstrings left ss = Some (strbytes ss)"
  by (induction left ss rule: pstrings.induct) (auto simp: strbytes_def)

lemma gstrings_strbytes:
  "list_all (\<lambda>s. 0 \<notin> set s \<and> length s < 2 ^ 16) ss \<Longrightarrow> gstrings (length ss) (strbytes ss @ r) = Some (ss, r)"
  by (induction ss) (simp_all add: strbytes_def unat_small16 cstr_id)

lemma statcheck_loop_strbytes:
  "list_all (\<lambda>s. length s < 2 ^ 16) ss \<Longrightarrow> statcheck_loop (length ss) (strbytes ss)"
  by (induction ss) (simp_all add: strbytes_def unat_small16)

lemma length_convD2M_fixed [simp]: "length (convD2M_fixed d) = 39"
  by (simp add: convD2M_fixed_def)

lemma length_sv [simp]: "length (sv d) = 4"
  by (simp add: sv_def)

lemma sv_nth:
  "Some (sv d ! 0) = recvstring (rname d)" "Some (sv d ! Suc 0) = recvstring (ruid d)"
  "Some (sv d ! 2) = recvstring (rgid d)" "Some (sv d ! 3) = recvstring (rmuid d)"
  by (simp_all add: sv_def recvstring_def numeral_2_eq_2 numeral_3_eq_3)

lemma length_member_sum: "s \<in> set ss \<Longrightarrow> length s \<le> sum_list (map length ss)"
  by (induction ss) auto

lemma wfdir_short: "wfdir d \<Longrightarrow> list_all (\<lambda>s. 0 \<notin> set s \<and> length s < 2 ^ 16) (sv d)"
  by (force simp: wfdir_def sizeD2M_def list_all_iff dest: length_member_sum)

lemma gstrings_statcheck: "statcheck_loop n p \<Longrightarrow> \<exists>ss. gstrings n p = Some (ss, [])"
proof (induction n arbitrary: p)
  case (Suc n)
  then have "statcheck_loop n (drop (BIT16SZ + unat (GBIT16 p)) p)" and "BIT16SZ + unat (GBIT16 p) \<le> length p"
    by (auto simp: Let_def split: if_splits)
  from Suc.IH [OF this(1)] this(2) show ?case by (auto simp: Let_def)
qed simp

text \<open>The bytes of an entry, and what the two checks of the reading side make of them.\<close>

definition dirbytes :: "Dir \<Rightarrow> bytes" where
  "dirbytes d = PBIT16 (of_nat (sizeD2M d - 2)) @ convD2M_fixed d @ strbytes (sv d)"

lemma length_dirbytes [simp]: "length (dirbytes d) = sizeD2M d"
  by (simp add: dirbytes_def length_strbytes sizeD2M_def)

lemma unat_sizeD2M: "wfdir d \<Longrightarrow> unat (of_nat (sizeD2M d - 2) :: u16) = sizeD2M d - 2"
  by (simp add: wfdir_def unat_small16)

lemma statcheck_dirbytes:
  assumes "wfdir d"
  shows "statcheck (dirbytes d)"
proof -
  from wfdir_short [OF assms] have "list_all (\<lambda>s. length s < 2 ^ 16) (sv d)" by (simp add: list_all_iff)
  from statcheck_loop_strbytes [OF this] show ?thesis
    using length_dirbytes [of d] unat_sizeD2M [OF assms]
    by (simp add: statcheck_def) (simp add: dirbytes_def sizeD2M_def)
qed

lemma convM2D_dirbytes:
  assumes "wfdir d"
  shows "convM2D (dirbytes d @ r) True = Some (sizeD2M d, recvdir d)"
  using gstrings_strbytes [OF wfdir_short [OF assms], of r] length_dirbytes [of d]
  by (simp add: convM2D_def sizeD2M_def) (simp add: dirbytes_def convD2M_fixed_def sv_nth recvdir_def sizeD2M_def)

lemma convD2M_dirbytes:
  assumes "sizeD2M d \<le> nbuf"
  shows "convD2M d nbuf = Some (dirbytes d)"
proof -
  have ps: "pstrings (nbuf - 41) (sv d) = Some (strbytes (sv d))"
    using assms by (intro pstrings_enough) (simp add: sizeD2M_def length_strbytes)
  have ge: "49 \<le> sizeD2M d" by (simp add: sizeD2M_def)
  with assms have "\<not> nbuf < 2" "\<not> nbuf < sizeD2M d" by simp_all
  then show ?thesis
    using length_dirbytes [of d] by (simp add: convD2M_def sizeD2M_def [symmetric] ps Let_def dirbytes_def)
qed

text \<open>
  C24. A directory entry on the wire: given the room \<open>sizeD2M\<close> asks for, \<open>convD2M\<close> stores that many
  bytes, they pass \<open>statcheck\<close>, and \<open>convM2D\<close> reads the same entry from them, whatever follows;
  with less room (and at least two bytes) the answer is the size that is needed.
\<close>

theorem dir_roundtrip:
  assumes "wfdir d"
  shows "if sizeD2M d \<le> nbuf
     then \<exists>m. convD2M d nbuf = Some m \<and> length m = sizeD2M d \<and> statcheck m \<and>
        convM2D (m @ r) True = Some (sizeD2M d, recvdir d)
     else 2 \<le> nbuf \<longrightarrow> (\<exists>m. convD2M d nbuf = Some m \<and> length m = 2 \<and> unat (GBIT16 m) + 2 = sizeD2M d)"
proof -
  have ge: "49 \<le> sizeD2M d" by (simp add: sizeD2M_def)
  have "convD2M d nbuf = Some (PBIT16 (of_nat (sizeD2M d - 2)))" if "2 \<le> nbuf" "\<not> sizeD2M d \<le> nbuf"
    using that by (simp add: convD2M_def sizeD2M_def [symmetric])
  then show ?thesis
    using convD2M_dirbytes [of d nbuf] statcheck_dirbytes [OF assms] convM2D_dirbytes [OF assms, of r]
      unat_sizeD2M [OF assms] ge by auto
qed

theorem dir_roundtrip_witness:
  "\<exists>m. convD2M \<lparr>rtype = 77, rdev = 0, rqid = \<lparr>qpath = 1, qvers = 2, qtype = 128\<rparr>, rmode = 2147484141,
       ratime = 10, rmtime = 11, rlength = 0, rname = Some [97], ruid = Some [98], rgid = None, rmuid = None\<rparr> 60 = Some m
     \<and> length m = 51 \<and> statcheck m"
  using dir_roundtrip [of "\<lparr>rtype = 77, rdev = 0, rqid = \<lparr>qpath = 1, qvers = 2, qtype = 128\<rparr>, rmode = 2147484141,
       ratime = 10, rmtime = 11, rlength = 0, rname = Some [97], ruid = Some [98], rgid = None, rmuid = None\<rparr>" 60 "[]"]
  by (auto simp: wfdir_def sizeD2M_def sv_def)

text \<open>
  A stat buffer that \<open>statcheck\<close> accepts is one \<open>convM2D\<close> can read to its last byte.
\<close>

theorem statcheck_convM2D:
  assumes "statcheck buf"
  shows "\<exists>d. convM2D buf strs = Some (length buf, d)"
proof -
  from assms have "statcheck_loop 4 (drop 41 buf)" and "49 \<le> length buf"
    by (simp_all add: statcheck_def)
  from gstrings_statcheck [OF this(1)] this(2) show ?thesis
    by (auto simp: convM2D_def Let_def)
qed

theorem statcheck_convM2D_witness:
  "\<exists>d. convM2D (PBIT16 47 @ replicate 39 0 @ [0, 0, 0, 0, 0, 0, 0, 0]) True = Some (49, d)"
proof -
  have "statcheck_loop 4 [0, 0, 0, 0, 0, 0, 0, 0]" by (simp add: numeral_eq_Suc GBIT16_def)
  then have "statcheck (PBIT16 47 @ replicate 39 0 @ [0, 0, 0, 0, 0, 0, 0, 0])"
    by (simp add: statcheck_def)
  from statcheck_convM2D [OF this, of True] show ?thesis by simp
qed

text \<open>
  C26. What gefs answers to Tstat and to reads of a directory is well formed: the buffer
  \<open>dir2statbuf\<close> makes of a directory entry passes the checks of the mount driver's side and is
  read there as that entry, with the users' names and the times in seconds.
\<close>

theorem gefs_stat_wellformed:
  assumes "dir2statbuf us d nbuf = Inr (Some b)"
    and "uid2user us (duid d) = Some u" and "uid2user us (dgid d) = Some g" and "uid2user us (dmuid d) = Some m"
    and "list_all (\<lambda>s. 0 \<notin> set s) [dname d, uname u, uname g, uname m]"
    and "length b < 2 ^ 16"
  shows "statcheck b \<and> length b \<le> nbuf \<and>
    convM2D b True = Some (length b, \<lparr>rtype = -1, rdev = -1, rqid = dqid d, rmode = dmode d,
      ratime = nsec2sec (datime d), rmtime = nsec2sec (dmtime d), rlength = dlength d,
      rname = Some (dname d), ruid = Some (uname u), rgid = Some (uname g), rmuid = Some (uname m)\<rparr>)"
proof -
  define e where "e = \<lparr>rtype = -1, rdev = -1, rqid = dqid d, rmode = dmode d,
      ratime = nsec2sec (datime d), rmtime = nsec2sec (dmtime d), rlength = dlength d,
      rname = Some (dname d), ruid = Some (uname u), rgid = Some (uname g), rmuid = Some (uname m)\<rparr>"
  have sv: "sv e = [dname d, uname u, uname g, uname m]" by (simp add: sv_def e_def)
  have b: "b = dirbytes e" and fits: "sizeD2M e \<le> nbuf"
    using assms(1-4)
    by (auto simp: dirbytes_def dir2statbuf_def sv_def strbytes_def convD2M_fixed_def sizeD2M_def e_def Let_def split: if_splits)
  have lb: "length b = sizeD2M e" by (simp add: b)
  have wf: "wfdir e" using assms(5,6) by (simp add: wfdir_def sv lb [symmetric])
  have "recvdir e = e" by (simp add: recvdir_def recvstring_def e_def)
  with statcheck_dirbytes [OF wf] convM2D_dirbytes [OF wf, of "[]"] fits lb show ?thesis
    by (simp add: b e_def)
qed

theorem gefs_stat_wellformed_witness:
  "\<exists>b. dir2statbuf [\<lparr>uid = 0, uname = [110]\<rparr>, \<lparr>uid = 1, uname = [98, 111]\<rparr>]
      (fillxdir 9 [99] 0 436 0\<lparr>duid := 1, dgid := 1\<rparr>) 60 = Inr (Some b) \<and> statcheck b"
proof -
  let ?us = "[\<lparr>uid = 0, uname = [110]\<rparr>, \<lparr>uid = 1, uname = [98, 111]\<rparr>] :: User list"
  let ?d = "fillxdir 9 [99] 0 436 0\<lparr>duid := 1, dgid := 1\<rparr>"
  obtain b where b: "dir2statbuf ?us ?d 60 = Inr (Some b)" and l: "length b = 55"
    by (simp add: dir2statbuf_def fillxdir_def)
  have u: "uid2user ?us (duid ?d) = Some \<lparr>uid = 1, uname = [98, 111]\<rparr>"
    "uid2user ?us (dgid ?d) = Some \<lparr>uid = 1, uname = [98, 111]\<rparr>"
    "uid2user ?us (dmuid ?d) = Some \<lparr>uid = 0, uname = [110]\<rparr>"
    by (simp_all add: fillxdir_def)
  from gefs_stat_wellformed [OF b u] l b show ?thesis by (auto simp: fillxdir_def)
qed

end
