(* ===== verification/Avl.thy ===== *)
theory Avl
  imports Prelude
begin

text \<open>
  \<open>sys/src/9/gefs/avl.c\<close>: the AVL tree that keeps an arena's free ranges.

  A pointer to a node is the path to it from the root, a list of child indices, and \<open>nil\<close> is
  \<open>Nil\<close> or \<open>None\<close>; the parent of a node is the path without its last index, so the \<open>p\<close> links,
  which the source maintains next to the \<open>c\<close> links, are the paths themselves.  A node's \<open>key\<close>
  is the structure the \<open>Avl\<close> header is embedded in.  Following a nil pointer is the fault
  \<open>Wild\<close>; the theorems show that a balanced tree never does.
\<close>

datatype 'a avl = Nil | Node (c0: "'a avl") (key: 'a) (balance: int) (c1: "'a avl")

type_synonym 'a cmp = "'a \<Rightarrow> 'a \<Rightarrow> int"

section \<open>The operations\<close>

fun avllookup_loop :: "'a cmp \<Rightarrow> 'a avl \<Rightarrow> 'a \<Rightarrow> int \<Rightarrow> 'a option \<Rightarrow> 'a option" where
  "avllookup_loop cmp Nil k d n = n"
| "avllookup_loop cmp (Node l h b r) k d n =
     (let c = cmp k h in
      if c < 0 then avllookup_loop cmp l k d (if d > 0 then Some h else n)
      else if c > 0 then avllookup_loop cmp r k d (if d < 0 then Some h else n)
      else Some h)"

definition avllookup :: "'a cmp \<Rightarrow> 'a avl \<Rightarrow> 'a \<Rightarrow> int \<Rightarrow> 'a option" where
  "avllookup cmp t k d = avllookup_loop cmp t k d None"

fun setbal :: "int \<Rightarrow> 'a avl \<Rightarrow> 'a avl" where
  "setbal b Nil = Nil"
| "setbal b (Node l k _ r) = Node l k b r"

text \<open>Rotation towards the side opposite to \<open>c\<close>; the balances stay with their nodes.\<close>

fun rotate_avl :: "int \<Rightarrow> 'a avl \<Rightarrow> 'a avl res" where
  "rotate_avl c (Node l k b (Node rl rk rb rr)) =
     (if c = 1 then Inr (Node (Node l k b rl) rk rb rr)
      else case l of Nil \<Rightarrow> Inl Wild
        | Node ll lk lb lr \<Rightarrow> Inr (Node ll lk lb (Node lr k b (Node rl rk rb rr))))"
| "rotate_avl c (Node l k b Nil) =
     (if c = 1 then Inl Wild
      else case l of Nil \<Rightarrow> Inl Wild
        | Node ll lk lb lr \<Rightarrow> Inr (Node ll lk lb (Node lr k b Nil)))"
| "rotate_avl c Nil = Inl Wild"

definition singlerot :: "int \<Rightarrow> 'a avl \<Rightarrow> 'a avl res" where
  "singlerot c s = bindE (rotate_avl c (setbal 0 s)) (\<lambda>s. Inr (setbal 0 s))"

text \<open>
  After the two rotations the old root \<open>s\<close> and its child \<open>r\<close> are the two children of \<open>p\<close>, as the
  two assertions of the source say.
\<close>

fun doublerot :: "int \<Rightarrow> 'a avl \<Rightarrow> 'a avl res" where
  "doublerot c Nil = Inl Wild"
| "doublerot c (Node l k b r) =
     bindE (if c = 1 then bindE (rotate_avl (-c) r) (\<lambda>r. Inr (Node l k b r))
            else bindE (rotate_avl (-c) l) (\<lambda>l. Inr (Node l k b r))) (\<lambda>s.
     bindE (rotate_avl c s) (\<lambda>p.
     let sb = (if balance p = c then -c else 0); rb = (if balance p = -c then c else 0)
     in Inr (if c = 1 then Node (setbal sb (c0 p)) (key p) 0 (setbal rb (c1 p))
             else Node (setbal rb (c0 p)) (key p) 0 (setbal sb (c1 p)))))"

text \<open>The child \<open>s->c[(c+1)/2]\<close>.\<close>

definition child :: "int \<Rightarrow> 'a avl \<Rightarrow> 'a avl" where
  "child c s = (if c = 1 then c1 s else c0 s)"

fun insertfix :: "int \<Rightarrow> 'a avl \<Rightarrow> (bool \<times> 'a avl) res" where
  "insertfix c Nil = Inl Wild"
| "insertfix c (Node l k b r) =
     (let s = Node l k b r in
      if b = 0 then Inr (True, setbal c s)
      else if b = -c then Inr (False, setbal 0 s)
      else if child c s = Nil then Inl Wild
      else if balance (child c s) = c then bindE (singlerot c s) (\<lambda>s. Inr (False, s))
      else bindE (doublerot c s) (\<lambda>s. Inr (False, s)))"

text \<open>The flag that the subtree grew, the subtree, and the node replaced.\<close>

fun insert_avl :: "'a cmp \<Rightarrow> 'a avl \<Rightarrow> 'a \<Rightarrow> (bool \<times> 'a avl \<times> 'a option) res" where
  "insert_avl cmp Nil k = Inr (True, Node Nil k 0 Nil, None)"
| "insert_avl cmp (Node l q b r) k =
     (let c = cmp k q in
      if c = 0 then Inr (False, Node l k b r, Some q)
      else if c > 0
      then bindE (insert_avl cmp r k) (\<lambda>(fix, r, old).
        if fix then bindE (insertfix 1 (Node l q b r)) (\<lambda>(f, t). Inr (f, t, old))
        else Inr (False, Node l q b r, old))
      else bindE (insert_avl cmp l k) (\<lambda>(fix, l, old).
        if fix then bindE (insertfix (-1) (Node l q b r)) (\<lambda>(f, t). Inr (f, t, old))
        else Inr (False, Node l q b r, old)))"

definition avlinsert :: "'a cmp \<Rightarrow> 'a avl \<Rightarrow> 'a \<Rightarrow> ('a avl \<times> 'a option) res" where
  "avlinsert cmp t k = bindE (insert_avl cmp t k) (\<lambda>(_, t, old). Inr (t, old))"

fun deletefix :: "int \<Rightarrow> 'a avl \<Rightarrow> (bool \<times> 'a avl) res" where
  "deletefix c Nil = Inl Wild"
| "deletefix c (Node l k b r) =
     (let s = Node l k b r in
      if b = 0 then Inr (False, setbal c s)
      else if b = -c then Inr (True, setbal 0 s)
      else if child c s = Nil then Inl Wild
      else if balance (child c s) = 0 then bindE (rotate_avl c s) (\<lambda>s. Inr (False, setbal (-c) s))
      else if balance (child c s) = c then bindE (singlerot c s) (\<lambda>s. Inr (True, s))
      else bindE (doublerot c s) (\<lambda>s. Inr (True, s)))"

text \<open>The flag that the subtree shrank, the subtree, and the node taken out.\<close>

fun deletemin :: "'a avl \<Rightarrow> (bool \<times> 'a avl \<times> 'a) res" where
  "deletemin Nil = Inl Wild"
| "deletemin (Node l q b r) =
     (if l = Nil then Inr (True, r, q)
      else bindE (deletemin l) (\<lambda>(fix, l, old).
        if fix then bindE (deletefix 1 (Node l q b r)) (\<lambda>(f, t). Inr (f, t, old))
        else Inr (False, Node l q b r, old)))"

fun delete_avl :: "'a cmp \<Rightarrow> 'a avl \<Rightarrow> 'a \<Rightarrow> (bool \<times> 'a avl \<times> 'a option) res" where
  "delete_avl cmp Nil k = Inr (False, Nil, None)"
| "delete_avl cmp (Node l q b r) k =
     (let c = cmp k q in
      if c = 0 then
        if r = Nil then Inr (True, l, Some q)
        else bindE (deletemin r) (\<lambda>(fix, r, e).
          if fix then bindE (deletefix (-1) (Node l e b r)) (\<lambda>(f, t). Inr (f, t, Some q))
          else Inr (False, Node l e b r, Some q))
      else if c > 0
      then bindE (delete_avl cmp r k) (\<lambda>(fix, r, old).
        if fix then bindE (deletefix (-1) (Node l q b r)) (\<lambda>(f, t). Inr (f, t, old))
        else Inr (False, Node l q b r, old))
      else bindE (delete_avl cmp l k) (\<lambda>(fix, l, old).
        if fix then bindE (deletefix 1 (Node l q b r)) (\<lambda>(f, t). Inr (f, t, old))
        else Inr (False, Node l q b r, old)))"

definition avldelete :: "'a cmp \<Rightarrow> 'a avl \<Rightarrow> 'a \<Rightarrow> ('a avl \<times> 'a option) res" where
  "avldelete cmp t k = bindE (delete_avl cmp t k) (\<lambda>(_, t, old). Inr (t, old))"

fun bottom :: "bool \<Rightarrow> 'a avl \<Rightarrow> 'a option" where
  "bottom d Nil = None"
| "bottom d (Node l k b r) =
     (if (if d then r else l) = Nil then Some k else if d then bottom d r else bottom d l)"

abbreviation avlmin :: "'a avl \<Rightarrow> 'a option" where "avlmin \<equiv> bottom False"
abbreviation avlmax :: "'a avl \<Rightarrow> 'a option" where "avlmax \<equiv> bottom True"

text \<open>
  \<open>walk1\<close> from the node at a path: down into child \<open>a\<close> and then always the other way, or up
  until a step that came from the other child.
\<close>

fun subtree :: "'a avl \<Rightarrow> bool list \<Rightarrow> 'a avl" where
  "subtree t [] = t"
| "subtree Nil (d # p) = Nil"
| "subtree (Node l k b r) (d # p) = subtree (if d then r else l) p"

fun descend :: "bool \<Rightarrow> 'a avl \<Rightarrow> bool list" where
  "descend a Nil = []"
| "descend a (Node l k b r) =
     (if (if a then r else l) = Nil then [] else a # (if a then descend a r else descend a l))"

text \<open>The argument is the path from the node upwards.\<close>

fun climb :: "bool \<Rightarrow> bool list \<Rightarrow> bool list option" where
  "climb a [] = None"
| "climb a (d # up) = (if d = a then climb a up else Some (rev up))"

definition walk1 :: "bool \<Rightarrow> 'a avl \<Rightarrow> bool list \<Rightarrow> bool list option" where
  "walk1 a t p =
     (let q = subtree t p; c = (if a then c1 q else c0 q) in
      if c \<noteq> Nil then Some (p @ a # descend (\<not> a) c) else climb a (rev p))"

text \<open>
  The nodes of a tree have distinct keys, so a pointer to a node is the node that compares equal;
  \<open>node_path\<close> is where it is.  \<open>avlnode\<close> is the memory write through such a pointer: it
  replaces the contents of the node in place.
\<close>

fun node_path :: "'a cmp \<Rightarrow> 'a avl \<Rightarrow> 'a \<Rightarrow> bool list option" where
  "node_path cmp Nil k = None"
| "node_path cmp (Node l q b r) k =
     (let c = cmp k q in
      if c = 0 then Some []
      else if c > 0 then map_option (Cons True) (node_path cmp r k)
      else map_option (Cons False) (node_path cmp l k))"

fun setkey :: "'a avl \<Rightarrow> bool list \<Rightarrow> 'a \<Rightarrow> 'a avl" where
  "setkey Nil p x = Nil"
| "setkey (Node l k b r) [] x = Node l x b r"
| "setkey (Node l k b r) (d # p) x = (if d then Node l k b (setkey r p x) else Node (setkey l p x) k b r)"

definition avlstep :: "bool \<Rightarrow> 'a cmp \<Rightarrow> 'a avl \<Rightarrow> 'a \<Rightarrow> 'a option" where
  "avlstep a cmp t r = (case node_path cmp t r of None \<Rightarrow> None
     | Some p \<Rightarrow> map_option (\<lambda>q. key (subtree t q)) (walk1 a t p))"

abbreviation avlprev :: "'a cmp \<Rightarrow> 'a avl \<Rightarrow> 'a \<Rightarrow> 'a option" where "avlprev \<equiv> avlstep False"
abbreviation avlnext :: "'a cmp \<Rightarrow> 'a avl \<Rightarrow> 'a \<Rightarrow> 'a option" where "avlnext \<equiv> avlstep True"

definition avlnode :: "'a cmp \<Rightarrow> 'a avl \<Rightarrow> 'a \<Rightarrow> 'a \<Rightarrow> 'a avl" where
  "avlnode cmp t r x = (case node_path cmp t r of None \<Rightarrow> t | Some p \<Rightarrow> setkey t p x)"

section \<open>Balance and order\<close>

fun height :: "'a avl \<Rightarrow> nat" where
  "height Nil = 0"
| "height (Node l k b r) = max (height l) (height r) + 1"

fun balanced :: "'a avl \<Rightarrow> bool" where
  "balanced Nil = True"
| "balanced (Node l k b r) =
     (int (height r) = int (height l) + b \<and> \<bar>b\<bar> \<le> 1 \<and> balanced l \<and> balanced r)"

fun inorder :: "'a avl \<Rightarrow> 'a list" where
  "inorder Nil = []"
| "inorder (Node l k b r) = inorder l @ k # inorder r"

lemma height_0_iff [simp]: "height t = 0 \<longleftrightarrow> t = Nil"
  by (cases t) auto

lemma inorder_Nil_iff [simp]: "inorder t = [] \<longleftrightarrow> t = Nil"
  by (cases t) auto

text \<open>
  The rotations, for a root whose right subtree is two levels higher than its left one, and
  the mirror image.
\<close>

lemma singlerot_right:
  "singlerot 1 (Node l k b (Node rl rk rb rr)) = Inr (Node (Node l k 0 rl) rk 0 rr)"
  by (simp add: singlerot_def)

lemma singlerot_left:
  "singlerot (-1) (Node (Node ll lk lb lr) k b r) = Inr (Node ll lk 0 (Node lr k 0 r))"
  by (cases r) (simp_all add: singlerot_def)

lemma doublerot_right:
  "doublerot 1 (Node l k b (Node (Node x p pb y) rk rb rr)) =
     Inr (Node (Node l k (if pb = 1 then -1 else 0) x) p 0 (Node y rk (if pb = -1 then 1 else 0) rr))"
  by (cases rr) simp_all

lemma doublerot_left:
  "doublerot (-1) (Node (Node ll lk lb (Node x p pb y)) k b r) =
     Inr (Node (Node ll lk (if pb = 1 then -1 else 0) x) p 0 (Node y k (if pb = -1 then 1 else 0) r))"
  by (cases r) simp_all

lemma rotate_right_avl: "rotate_avl 1 (Node l k b (Node rl rk rb rr)) = Inr (Node (Node l k b rl) rk rb rr)"
  by simp

lemma rotate_left_avl: "rotate_avl (-1) (Node (Node ll lk lb lr) k b r) = Inr (Node ll lk lb (Node lr k b r))"
  by (cases r) simp_all

declare rotate_avl.simps [simp del] doublerot.simps [simp del]

lemma abs_le_1_cases: "\<bar>b :: int\<bar> \<le> 1 \<Longrightarrow> b = -1 \<or> b = 0 \<or> b = 1"
  by auto

text \<open>The result of a fix: the tree is balanced, with the same elements, and the flag tells its height.\<close>

definition fixed :: "'a list \<Rightarrow> nat \<Rightarrow> nat \<Rightarrow> bool \<times> 'a avl \<Rightarrow> bool" where
  "fixed xs h0 h1 ft = (balanced (snd ft) \<and> inorder (snd ft) = xs \<and>
     height (snd ft) = (if fst ft then h1 else h0))"

text \<open>A right subtree two levels higher than the left one, its root not level.\<close>

lemma rot_right:
  assumes "balanced l" "balanced (Node rl rk rb rr)" "height (Node rl rk rb rr) = height l + 2"
    and "rb = -1 \<or> rb = 1"
  shows "\<exists>t. (if rb = 1 then singlerot 1 (Node l k b (Node rl rk rb rr))
              else doublerot 1 (Node l k b (Node rl rk rb rr))) = Inr t \<and>
     balanced t \<and> inorder t = inorder l @ k # inorder rl @ rk # inorder rr \<and> height t = height l + 2"
proof (cases "rb = 1")
  case True
  then show ?thesis using assms by (simp add: singlerot_right)
next
  case False
  with assms have rb: "rb = -1" by blast
  with assms obtain x p pb y where rl: "rl = Node x p pb y" by (cases rl) auto
  from assms(2) have "\<bar>pb\<bar> \<le> 1" by (auto simp: rl)
  then have pb: "pb = -1 \<or> pb = 0 \<or> pb = 1" by (rule abs_le_1_cases)
  show ?thesis using assms rb pb by (elim disjE) (simp_all add: rl doublerot_right)
qed

lemma rot_left:
  assumes "balanced (Node ll lk lb lr)" "balanced r" "height (Node ll lk lb lr) = height r + 2"
    and "lb = -1 \<or> lb = 1"
  shows "\<exists>t. (if lb = -1 then singlerot (-1) (Node (Node ll lk lb lr) k b r)
              else doublerot (-1) (Node (Node ll lk lb lr) k b r)) = Inr t \<and>
     balanced t \<and> inorder t = inorder ll @ lk # inorder lr @ k # inorder r \<and> height t = height r + 2"
proof (cases "lb = -1")
  case True
  then show ?thesis using assms by (simp add: singlerot_left)
next
  case False
  with assms have lb: "lb = 1" by blast
  with assms obtain x p pb y where lr: "lr = Node x p pb y" by (cases lr) auto
  from assms(1) have "\<bar>pb\<bar> \<le> 1" by (auto simp: lr)
  then have pb: "pb = -1 \<or> pb = 0 \<or> pb = 1" by (rule abs_le_1_cases)
  show ?thesis using assms lb pb by (elim disjE) (auto simp: lr doublerot_left max_def)
qed

text \<open>
  \<open>insertfix\<close> on a tree whose right (left) subtree has grown by a level; a grown subtree is not
  level, unless it is a single new node.
\<close>

lemma insertfix_right:
  assumes "balanced l" "balanced r" "int (height r) = int (height l) + b + 1" "\<bar>b\<bar> \<le> 1"
    and "r \<noteq> Nil" and "balance r \<noteq> 0 \<or> height r = 1"
  shows "\<exists>f t. insertfix 1 (Node l k b r) = Inr (f, t) \<and>
    fixed (inorder l @ k # inorder r) (max (height l) (height r - 1) + 1) (max (height l) (height r - 1) + 2) (f, t) \<and>
    (f \<longrightarrow> balance t \<noteq> 0)"
proof -
  obtain rl rk rb rr where r: "r = Node rl rk rb rr" using assms(5) by (cases r) auto
  from abs_le_1_cases [OF assms(4)] show ?thesis
  proof (elim disjE)
    assume b: "b = 1"
    with assms(3,6) r have h: "height (Node rl rk rb rr) = height l + 2" and "rb \<noteq> 0" by auto
    moreover from assms(2) have "\<bar>rb\<bar> \<le> 1" by (auto simp: r)
    ultimately have rb: "rb = -1 \<or> rb = 1" using abs_le_1_cases by blast
    from rot_right [OF assms(1) assms(2) [unfolded r] h rb, of k b] h b
    show ?thesis by (auto simp: r child_def fixed_def Let_def)
  qed (use assms in \<open>auto simp: fixed_def\<close>)
qed

lemma insertfix_left:
  assumes "balanced l" "balanced r" "int (height l) = int (height r) - b + 1" "\<bar>b\<bar> \<le> 1"
    and "l \<noteq> Nil" and "balance l \<noteq> 0 \<or> height l = 1"
  shows "\<exists>f t. insertfix (-1) (Node l k b r) = Inr (f, t) \<and>
    fixed (inorder l @ k # inorder r) (max (height l - 1) (height r) + 1) (max (height l - 1) (height r) + 2) (f, t) \<and>
    (f \<longrightarrow> balance t \<noteq> 0)"
proof -
  obtain ll lk lb lr where l: "l = Node ll lk lb lr" using assms(5) by (cases l) auto
  from abs_le_1_cases [OF assms(4)] show ?thesis
  proof (elim disjE)
    assume b: "b = -1"
    with assms(3,6) l have h: "height (Node ll lk lb lr) = height r + 2" and "lb \<noteq> 0" by auto
    moreover from assms(1) have "\<bar>lb\<bar> \<le> 1" by (auto simp: l)
    ultimately have lb: "lb = -1 \<or> lb = 1" using abs_le_1_cases by blast
    from rot_left [OF assms(1) [unfolded l] assms(2) h lb, of k b] h b
    show ?thesis by (auto simp: l child_def fixed_def Let_def)
  qed (use assms in \<open>auto simp: fixed_def\<close>)
qed

text \<open>\<open>deletefix\<close> on a tree whose left (right) subtree has lost a level.\<close>

lemma deletefix_right:
  assumes "balanced l" "balanced r" "int (height r) = int (height l) + 1 + b" "\<bar>b\<bar> \<le> 1"
  shows "\<exists>f t. deletefix 1 (Node l k b r) = Inr (f, t) \<and>
    fixed (inorder l @ k # inorder r) (max (height l + 1) (height r) + 1) (max (height l + 1) (height r)) (f, t)"
proof -
  from abs_le_1_cases [OF assms(4)] show ?thesis
  proof (elim disjE)
    assume b: "b = 1"
    with assms(3) have h0: "height r = height l + 2" by auto
    then obtain rl rk rb rr where r: "r = Node rl rk rb rr" by (cases r) auto
    with h0 have h: "height (Node rl rk rb rr) = height l + 2" by simp
    from assms(2) have "\<bar>rb\<bar> \<le> 1" by (auto simp: r)
    then consider "rb = 0" | "rb = -1 \<or> rb = 1" using abs_le_1_cases by blast
    then show ?thesis
    proof cases
      case 1
      then show ?thesis using assms h b
        by (auto simp: r child_def fixed_def Let_def rotate_right_avl)
    next
      case 2
      from rot_right [OF assms(1) assms(2) [unfolded r] h 2, of k b] h b 2
      show ?thesis by (auto simp: r child_def fixed_def Let_def)
    qed
  qed (use assms in \<open>auto simp: fixed_def\<close>)
qed

lemma deletefix_left:
  assumes "balanced l" "balanced r" "int (height l) = int (height r) + 1 - b" "\<bar>b\<bar> \<le> 1"
  shows "\<exists>f t. deletefix (-1) (Node l k b r) = Inr (f, t) \<and>
    fixed (inorder l @ k # inorder r) (max (height l) (height r + 1) + 1) (max (height l) (height r + 1)) (f, t)"
proof -
  from abs_le_1_cases [OF assms(4)] show ?thesis
  proof (elim disjE)
    assume b: "b = -1"
    with assms(3) have h0: "height l = height r + 2" by auto
    then obtain ll lk lb lr where l: "l = Node ll lk lb lr" by (cases l) auto
    with h0 have h: "height (Node ll lk lb lr) = height r + 2" by simp
    from assms(1) have "\<bar>lb\<bar> \<le> 1" by (auto simp: l)
    then consider "lb = 0" | "lb = -1 \<or> lb = 1" using abs_le_1_cases by blast
    then show ?thesis
    proof cases
      case 1
      then show ?thesis using assms h b
        by (auto simp: l child_def fixed_def Let_def rotate_left_avl)
    next
      case 2
      from rot_left [OF assms(1) [unfolded l] assms(2) h 2, of k b] h b 2
      show ?thesis by (auto simp: l child_def fixed_def Let_def)
    qed
  qed (use assms in \<open>auto simp: fixed_def\<close>)
qed


section \<open>What the operations do to the sorted list of nodes\<close>

text \<open>
  The trees are generic in the comparison the creator passes.  The locale is what the tree
  relies on: the comparison is the sign of the difference of two keys of a linear order.
\<close>

locale avl_order =
  fixes cmp :: "'a cmp" and ord :: "'a \<Rightarrow> 'k :: linorder"
  assumes cmp_less: "cmp x y < 0 \<longleftrightarrow> ord x < ord y"
    and cmp_eq: "cmp x y = 0 \<longleftrightarrow> ord x = ord y"
begin

lemma cmp_greater: "cmp x y > 0 \<longleftrightarrow> ord y < ord x"
  using cmp_less [of x y] cmp_eq [of x y] by (auto simp: not_less order_less_le)

lemma ord_cases:
  obtains (eq) "ord k = ord q"
  | (greater) "ord q < ord k" "ord k \<noteq> ord q" "ord q \<noteq> ord k" "\<not> ord k < ord q" "ord q \<le> ord k" "\<not> ord k \<le> ord q"
  | (less) "ord k < ord q" "ord k \<noteq> ord q" "ord q \<noteq> ord k" "\<not> ord q < ord k" "ord k \<le> ord q" "\<not> ord q \<le> ord k"
  by (metis linorder_cases order.asym order.strict_implies_order less_le_not_le order.strict_implies_not_eq)

definition ordered :: "'a list \<Rightarrow> bool" where
  "ordered = sorted_wrt (\<lambda>x y. ord x < ord y)"

definition below :: "'a \<Rightarrow> 'a list \<Rightarrow> 'a list" where
  "below k = filter (\<lambda>x. ord x < ord k)"

definition above :: "'a \<Rightarrow> 'a list \<Rightarrow> 'a list" where
  "above k = filter (\<lambda>x. ord k < ord x)"

lemma ordered_simps [simp]:
  "ordered []"
  "ordered (x # xs) \<longleftrightarrow> (\<forall>y \<in> set xs. ord x < ord y) \<and> ordered xs"
  "ordered (xs @ ys) \<longleftrightarrow> ordered xs \<and> ordered ys \<and> (\<forall>x \<in> set xs. \<forall>y \<in> set ys. ord x < ord y)"
  by (auto simp: ordered_def sorted_wrt_append)

lemma below_simps [simp]:
  "below k [] = []"
  "below k (x # xs) = (if ord x < ord k then x # below k xs else below k xs)"
  "below k (xs @ ys) = below k xs @ below k ys"
  by (auto simp: below_def)

lemma above_simps [simp]:
  "above k [] = []"
  "above k (x # xs) = (if ord k < ord x then x # above k xs else above k xs)"
  "above k (xs @ ys) = above k xs @ above k ys"
  by (auto simp: above_def)

lemma below_all: "\<forall>x \<in> set xs. ord x < ord k \<Longrightarrow> below k xs = xs"
  by (simp add: below_def)

lemma above_all: "\<forall>x \<in> set xs. ord k < ord x \<Longrightarrow> above k xs = xs"
  by (simp add: above_def)

lemma below_none: "\<forall>x \<in> set xs. ord k \<le> ord x \<Longrightarrow> below k xs = []"
  by (auto simp: below_def filter_empty_conv not_less)

lemma above_none: "\<forall>x \<in> set xs. ord x \<le> ord k \<Longrightarrow> above k xs = []"
  by (auto simp: above_def filter_empty_conv not_less)

lemma find_none: "\<forall>x \<in> set xs. \<not> P x \<Longrightarrow> find P xs = None"
  by (simp add: find_None_iff)

lemma find_split: "find P xs = Some x \<Longrightarrow> \<exists>us vs. xs = us @ x # vs \<and> P x \<and> (\<forall>y \<in> set us. \<not> P y)"
proof (induction xs)
  case (Cons z xs)
  show ?case
  proof (cases "P z")
    case True
    with Cons.prems show ?thesis by (intro exI [of _ "[]"] exI [of _ xs]) auto
  next
    case False
    with Cons obtain us vs where "xs = us @ x # vs" "P x" "\<forall>y \<in> set us. \<not> P y" by auto
    with False show ?thesis by (intro exI [of _ "z # us"] exI [of _ vs]) auto
  qed
qed simp

lemma find_append: "find P (xs @ ys) = (case find P xs of None \<Rightarrow> find P ys | Some x \<Rightarrow> Some x)"
  by (induction xs) auto

text \<open>Insertion: the two ways \<open>insert\<close> goes on after a subtree was changed.\<close>

lemma insert_right:
  assumes "balanced (Node l q b r)" "fixed xs (height r) (height r + 1) (f, r')"
    and "r' \<noteq> Nil" "f \<longrightarrow> balance r' \<noteq> 0 \<or> height r' = 1"
  shows "\<exists>g t. (if f then insertfix 1 (Node l q b r') else Inr (False, Node l q b r')) = Inr (g, t) \<and>
    fixed (inorder l @ q # xs) (height (Node l q b r)) (height (Node l q b r) + 1) (g, t) \<and>
    t \<noteq> Nil \<and> (g \<longrightarrow> balance t \<noteq> 0)"
proof (cases f)
  case True
  with assms have "int (height r') = int (height l) + b + 1" "balanced l" "balanced r'" "\<bar>b\<bar> \<le> 1"
    "balance r' \<noteq> 0 \<or> height r' = 1" by (auto simp: fixed_def)
  note fix_r = insertfix_right [OF this(2,3,1,4) assms(3) this(5), of q]
  have "max (height l) (height r' - 1) + 1 = height (Node l q b r)" "xs = inorder r'"
    using assms(2) True by (simp_all add: fixed_def)
  with fix_r obtain g t where I: "insertfix 1 (Node l q b r') = Inr (g, t)"
    and F: "fixed (inorder l @ q # xs) (height (Node l q b r)) (height (Node l q b r) + 1) (g, t)" and g: "g \<longrightarrow> balance t \<noteq> 0"
    by (metis add.assoc one_add_one)
  then have "t \<noteq> Nil" by (auto simp: fixed_def split: if_splits)
  with I F g True show ?thesis by (simp only: if_True) blast
next
  case False
  then show ?thesis using assms by (simp add: fixed_def)
qed

lemma insert_left:
  assumes "balanced (Node l q b r)" "fixed xs (height l) (height l + 1) (f, l')"
    and "l' \<noteq> Nil" "f \<longrightarrow> balance l' \<noteq> 0 \<or> height l' = 1"
  shows "\<exists>g t. (if f then insertfix (-1) (Node l' q b r) else Inr (False, Node l' q b r)) = Inr (g, t) \<and>
    fixed (xs @ q # inorder r) (height (Node l q b r)) (height (Node l q b r) + 1) (g, t) \<and>
    t \<noteq> Nil \<and> (g \<longrightarrow> balance t \<noteq> 0)"
proof (cases f)
  case True
  with assms have "int (height l') = int (height r) - b + 1" "balanced l'" "balanced r" "\<bar>b\<bar> \<le> 1"
    "balance l' \<noteq> 0 \<or> height l' = 1" by (auto simp: fixed_def)
  note fix_l = insertfix_left [OF this(2,3,1,4) assms(3) this(5), of q]
  have "max (height l' - 1) (height r) + 1 = height (Node l q b r)" "xs = inorder l'"
    using assms(2) True by (simp_all add: fixed_def)
  with fix_l obtain g t where I: "insertfix (-1) (Node l' q b r) = Inr (g, t)"
    and F: "fixed (xs @ q # inorder r) (height (Node l q b r)) (height (Node l q b r) + 1) (g, t)" and g: "g \<longrightarrow> balance t \<noteq> 0"
    by (metis add.assoc one_add_one)
  then have "t \<noteq> Nil" by (auto simp: fixed_def split: if_splits)
  with I F g True show ?thesis by (simp only: if_True) blast
next
  case False
  then show ?thesis using assms by (simp add: fixed_def)
qed

lemma bindE_flag:
  "(if f then bindE X (\<lambda>(g, t). Inr (g, t, y)) else Inr (False, n, y)) =
   bindE (if f then X else Inr (False, n)) (\<lambda>(g, t). Inr (g, t, y))"
  by simp

lemma insert_avl_correct:
  "balanced t \<Longrightarrow> ordered (inorder t) \<Longrightarrow>
   \<exists>f t' old. insert_avl cmp t k = Inr (f, t', old) \<and>
     fixed (below k (inorder t) @ k # above k (inorder t)) (height t) (height t + 1) (f, t') \<and>
     t' \<noteq> Nil \<and> (f \<longrightarrow> balance t' \<noteq> 0 \<or> height t' = 1) \<and>
     old = find (\<lambda>x. ord x = ord k) (inorder t)"
proof (induction t)
  case Nil
  then show ?case by (auto simp: fixed_def)
next
  case (Node l q b r)
  from Node.prems have l: "\<forall>x \<in> set (inorder l). ord x < ord q" and r: "\<forall>x \<in> set (inorder r). ord q < ord x"
    and bal: "balanced l" "balanced r" and ol: "ordered (inorder l)" "ordered (inorder r)" by auto
  show ?case
  proof (cases rule: ord_cases [of k q])
    case 1: eq
    with l r have "below k (inorder l) = inorder l" "above k (inorder l) = []"
      "below k (inorder r) = []" "above k (inorder r) = inorder r"
      "find (\<lambda>x. ord x = ord k) (inorder l) = None"
      by (auto intro!: below_all above_all below_none above_none find_none)
    with 1 Node.prems show ?thesis by (auto simp: fixed_def Let_def cmp_eq find_append)
  next
    case 2: greater
    with l have k: "below k (inorder l) = inorder l" "above k (inorder l) = []"
      "find (\<lambda>x. ord x = ord k) (inorder l) = None"
      by (auto intro!: below_all above_none find_none)
    from Node.IH(2) [OF bal(2) ol(2)] obtain f r' where
      I: "insert_avl cmp r k = Inr (f, r', find (\<lambda>x. ord x = ord k) (inorder r))"
      and F: "fixed (below k (inorder r) @ k # above k (inorder r)) (height r) (height r + 1) (f, r')"
      and n: "r' \<noteq> Nil" "f \<longrightarrow> balance r' \<noteq> 0 \<or> height r' = 1" by blast
    from insert_right [OF Node.prems(1) F n] obtain g t where
      "(if f then insertfix 1 (Node l q b r') else Inr (False, Node l q b r')) = Inr (g, t)" and
      *: "fixed (inorder l @ q # below k (inorder r) @ k # above k (inorder r))
        (height (Node l q b r)) (height (Node l q b r) + 1) (g, t)" "t \<noteq> Nil" "g \<longrightarrow> balance t \<noteq> 0" by blast
    then have "insert_avl cmp (Node l q b r) k = Inr (g, t, find (\<lambda>x. ord x = ord k) (inorder r))"
      using 2 I by (simp add: Let_def cmp_eq cmp_greater bindE_flag del: insertfix.simps)
    with * 2 k show ?thesis by (simp add: find_append del: height.simps insert_avl.simps)
  next
    case 3: less
    with r have k: "above k (inorder r) = inorder r" "below k (inorder r) = []"
      "find (\<lambda>x. ord x = ord k) (inorder r) = None"
      by (auto intro!: above_all below_none find_none)
    from Node.IH(1) [OF bal(1) ol(1)] obtain f l' where
      I: "insert_avl cmp l k = Inr (f, l', find (\<lambda>x. ord x = ord k) (inorder l))"
      and F: "fixed (below k (inorder l) @ k # above k (inorder l)) (height l) (height l + 1) (f, l')"
      and n: "l' \<noteq> Nil" "f \<longrightarrow> balance l' \<noteq> 0 \<or> height l' = 1" by blast
    from 3 have c: "\<not> 0 < cmp k q" "cmp k q \<noteq> 0" by (auto simp: cmp_greater cmp_eq)
    from insert_left [OF Node.prems(1) F n] obtain g t where
      "(if f then insertfix (-1) (Node l' q b r) else Inr (False, Node l' q b r)) = Inr (g, t)" and
      *: "fixed ((below k (inorder l) @ k # above k (inorder l)) @ q # inorder r)
        (height (Node l q b r)) (height (Node l q b r) + 1) (g, t)" "t \<noteq> Nil" "g \<longrightarrow> balance t \<noteq> 0" by blast
    then have "insert_avl cmp (Node l q b r) k = Inr (g, t, find (\<lambda>x. ord x = ord k) (inorder l))"
      using c I by (simp add: Let_def bindE_flag del: insertfix.simps)
    with * 3 k show ?thesis by (simp add: find_append option.case_eq_if del: height.simps)
  qed
qed

text \<open>Deletion.\<close>

lemma deletemin_correct:
  "balanced t \<Longrightarrow> t \<noteq> Nil \<Longrightarrow>
   \<exists>f t'. deletemin t = Inr (f, t', hd (inorder t)) \<and>
     fixed (tl (inorder t)) (height t) (height t - 1) (f, t')"
proof (induction t)
  case (Node l q b r)
  show ?case
  proof (cases "l = Nil")
    case True
    with Node.prems show ?thesis by (auto simp: fixed_def)
  next
    case False
    with Node.IH(1) Node.prems obtain f l' where
      D: "deletemin l = Inr (f, l', hd (inorder l))"
      and F: "fixed (tl (inorder l)) (height l) (height l - 1) (f, l')" by auto
    obtain n where h: "height l = Suc n" using False by (cases l) auto
    show ?thesis
    proof (cases f)
      case True
      with F Node.prems h have "int (height r) = int (height l') + 1 + b" "balanced l'" "balanced r" "\<bar>b\<bar> \<le> 1"
        by (auto simp: fixed_def)
      from deletefix_right [OF this(2,3,1,4), of q] D F False True h show ?thesis
        by (auto simp: fixed_def simp del: deletefix.simps)
    next
      case False
      with D F Node.prems \<open>l \<noteq> Nil\<close> show ?thesis by (auto simp: fixed_def)
    qed
  qed
qed simp

text \<open>The two ways \<open>delete\<close> goes on after a subtree was changed.\<close>

lemma delete_right:
  assumes "balanced (Node l q b r)" "fixed xs (height r) (height r - 1) (f, r')" "f \<longrightarrow> r \<noteq> Nil"
  shows "\<exists>g t. (if f then deletefix (-1) (Node l e b r') else Inr (False, Node l e b r')) = Inr (g, t) \<and>
    fixed (inorder l @ e # xs) (height (Node l q b r)) (height (Node l q b r) - 1) (g, t)"
proof (cases f)
  case True
  with assms obtain n where h: "height r = Suc n" by (cases r) auto
  with assms True have "int (height l) = int (height r') + 1 - b" "balanced l" "balanced r'" "\<bar>b\<bar> \<le> 1"
    by (auto simp: fixed_def)
  from deletefix_left [OF this(2,3,1,4), of e] assms(2) True h show ?thesis
    by (auto simp: fixed_def simp del: deletefix.simps)
qed (use assms in \<open>auto simp: fixed_def\<close>)

lemma delete_left:
  assumes "balanced (Node l q b r)" "fixed xs (height l) (height l - 1) (f, l')" "f \<longrightarrow> l \<noteq> Nil"
  shows "\<exists>g t. (if f then deletefix 1 (Node l' q b r) else Inr (False, Node l' q b r)) = Inr (g, t) \<and>
    fixed (xs @ q # inorder r) (height (Node l q b r)) (height (Node l q b r) - 1) (g, t)"
proof (cases f)
  case True
  with assms obtain n where h: "height l = Suc n" by (cases l) auto
  with assms True have "int (height r) = int (height l') + 1 + b" "balanced l'" "balanced r" "\<bar>b\<bar> \<le> 1"
    by (auto simp: fixed_def)
  from deletefix_right [OF this(2,3,1,4), of q] assms(2) True h show ?thesis
    by (auto simp: fixed_def simp del: deletefix.simps)
qed (use assms in \<open>auto simp: fixed_def\<close>)

lemma delete_avl_correct:
  "balanced t \<Longrightarrow> ordered (inorder t) \<Longrightarrow>
   \<exists>f t' old. delete_avl cmp t k = Inr (f, t', old) \<and>
     fixed (below k (inorder t) @ above k (inorder t)) (height t) (height t - 1) (f, t') \<and>
     (f \<longrightarrow> t \<noteq> Nil) \<and> old = find (\<lambda>x. ord x = ord k) (inorder t)"
proof (induction t)
  case Nil
  then show ?case by (auto simp: fixed_def)
next
  case (Node l q b r)
  from Node.prems have l: "\<forall>x \<in> set (inorder l). ord x < ord q" and r: "\<forall>x \<in> set (inorder r). ord q < ord x"
    and bal: "balanced l" "balanced r" and ol: "ordered (inorder l)" "ordered (inorder r)" by auto
  show ?case
  proof (cases rule: ord_cases [of k q])
    case 1: eq
    with l r have k: "below k (inorder l) = inorder l" "above k (inorder l) = []"
      "below k (inorder r) = []" "above k (inorder r) = inorder r"
      "find (\<lambda>x. ord x = ord k) (inorder l) = None"
      by (auto intro!: below_all above_all below_none above_none find_none)
    show ?thesis
    proof (cases "r = Nil")
      case True
      with 1 k Node.prems show ?thesis by (auto simp: fixed_def Let_def cmp_eq find_append)
    next
      case False
      from deletemin_correct [OF bal(2) False] obtain f r' where
        D: "deletemin r = Inr (f, r', hd (inorder r))"
        and F: "fixed (tl (inorder r)) (height r) (height r - 1) (f, r')" by blast
      from delete_right [OF Node.prems(1) F, of "hd (inorder r)"] False obtain g t where
        "(if f then deletefix (-1) (Node l (hd (inorder r)) b r') else Inr (False, Node l (hd (inorder r)) b r')) = Inr (g, t)"
        and *: "fixed (inorder l @ hd (inorder r) # tl (inorder r)) (height (Node l q b r)) (height (Node l q b r) - 1) (g, t)"
        by blast
      then have "delete_avl cmp (Node l q b r) k = Inr (g, t, Some q)"
        using 1 D False by (simp add: Let_def cmp_eq bindE_flag del: deletefix.simps)
      with * 1 k False show ?thesis by (simp add: find_append del: height.simps delete_avl.simps)
    qed
  next
    case 3: greater
    with l have k: "below k (inorder l) = inorder l" "above k (inorder l) = []"
      "find (\<lambda>x. ord x = ord k) (inorder l) = None"
      by (auto intro!: below_all above_none find_none)
    from Node.IH(2) [OF bal(2) ol(2)] obtain f r' where
      D: "delete_avl cmp r k = Inr (f, r', find (\<lambda>x. ord x = ord k) (inorder r))"
      and F: "fixed (below k (inorder r) @ above k (inorder r)) (height r) (height r - 1) (f, r')"
      and n: "f \<longrightarrow> r \<noteq> Nil" by blast
    from delete_right [OF Node.prems(1) F n, of q] obtain g t where
      "(if f then deletefix (-1) (Node l q b r') else Inr (False, Node l q b r')) = Inr (g, t)"
      and *: "fixed (inorder l @ q # below k (inorder r) @ above k (inorder r))
        (height (Node l q b r)) (height (Node l q b r) - 1) (g, t)" by blast
    then have "delete_avl cmp (Node l q b r) k = Inr (g, t, find (\<lambda>x. ord x = ord k) (inorder r))"
      using 3 D by (simp add: Let_def cmp_eq cmp_greater bindE_flag del: deletefix.simps)
    with * 3 k show ?thesis by (simp add: find_append del: height.simps delete_avl.simps)
  next
    case 4: less
    with r have k: "above k (inorder r) = inorder r" "below k (inorder r) = []"
      "find (\<lambda>x. ord x = ord k) (inorder r) = None"
      by (auto intro!: above_all below_none find_none)
    from Node.IH(1) [OF bal(1) ol(1)] obtain f l' where
      D: "delete_avl cmp l k = Inr (f, l', find (\<lambda>x. ord x = ord k) (inorder l))"
      and F: "fixed (below k (inorder l) @ above k (inorder l)) (height l) (height l - 1) (f, l')"
      and n: "f \<longrightarrow> l \<noteq> Nil" by blast
    from 4 have c: "\<not> 0 < cmp k q" "cmp k q \<noteq> 0" by (auto simp: cmp_greater cmp_eq)
    from delete_left [OF Node.prems(1) F n] obtain g t where
      "(if f then deletefix 1 (Node l' q b r) else Inr (False, Node l' q b r)) = Inr (g, t)"
      and *: "fixed ((below k (inorder l) @ above k (inorder l)) @ q # inorder r)
        (height (Node l q b r)) (height (Node l q b r) - 1) (g, t)" by blast
    then have "delete_avl cmp (Node l q b r) k = Inr (g, t, find (\<lambda>x. ord x = ord k) (inorder l))"
      using c D by (simp add: Let_def bindE_flag del: deletefix.simps)
    with * 4 k show ?thesis by (simp add: find_append option.case_eq_if del: height.simps)
  qed
qed


text \<open>Lookup: the node itself, or the nearest one in the direction asked for.\<close>

lemma ordered_find_Node:
  assumes "ordered (inorder (Node l q b r))"
  shows "ord q \<le> ord k \<Longrightarrow> find (\<lambda>x. ord x = ord k) (inorder l) = None"
    and "ord q \<le> ord k \<Longrightarrow> find (\<lambda>x. ord k \<le> ord x) (inorder l) = None"
    and "ord k \<le> ord q \<Longrightarrow> find (\<lambda>x. ord x = ord k) (inorder r) = None"
    and "ord k \<le> ord q \<Longrightarrow> find (\<lambda>x. ord x \<le> ord k) (rev (inorder r)) = None"
  using assms by (auto intro!: find_none) (metis order.trans leD)

lemma avllookup_loop_exact:
  "ordered (inorder t) \<Longrightarrow> avllookup_loop cmp t k 0 n =
    (case find (\<lambda>x. ord x = ord k) (inorder t) of None \<Rightarrow> n | Some x \<Rightarrow> Some x)"
proof (induction t arbitrary: n)
  case (Node l q b r)
  note nf = ordered_find_Node [OF Node.prems, of k]
  show ?case
    by (cases rule: ord_cases [of k q]) (use Node nf in \<open>auto simp: Let_def cmp_less cmp_greater find_append split: option.splits\<close>)
qed simp

lemma avllookup_loop_up:
  "ordered (inorder t) \<Longrightarrow> avllookup_loop cmp t k 1 n =
    (case find (\<lambda>x. ord k \<le> ord x) (inorder t) of None \<Rightarrow> n | Some x \<Rightarrow> Some x)"
proof (induction t arbitrary: n)
  case (Node l q b r)
  note nf = ordered_find_Node [OF Node.prems, of k]
  show ?case
    by (cases rule: ord_cases [of k q]) (use Node nf in \<open>auto simp: Let_def cmp_less cmp_greater find_append split: option.splits\<close>)
qed simp

lemma avllookup_loop_down:
  "ordered (inorder t) \<Longrightarrow> avllookup_loop cmp t k (-1) n =
    (case find (\<lambda>x. ord x \<le> ord k) (rev (inorder t)) of None \<Rightarrow> n | Some x \<Rightarrow> Some x)"
proof (induction t arbitrary: n)
  case (Node l q b r)
  note nf = ordered_find_Node [OF Node.prems, of k]
  show ?case
    by (cases rule: ord_cases [of k q]) (use Node nf in \<open>auto simp: Let_def cmp_less cmp_greater find_append split: option.splits\<close>)
qed simp

lemma avllookup_correct:
  assumes "ordered (inorder t)"
  shows "avllookup cmp t k 0 = find (\<lambda>x. ord x = ord k) (inorder t)"
    and "avllookup cmp t k 1 = find (\<lambda>x. ord k \<le> ord x) (inorder t)"
    and "avllookup cmp t k (-1) = find (\<lambda>x. ord x \<le> ord k) (rev (inorder t))"
  using assms by (simp_all add: avllookup_def avllookup_loop_exact avllookup_loop_up avllookup_loop_down option.case_eq_if)

lemma avlinsert_correct:
  assumes "balanced t" "ordered (inorder t)"
  shows "\<exists>t'. avlinsert cmp t k = Inr (t', find (\<lambda>x. ord x = ord k) (inorder t)) \<and>
    balanced t' \<and> inorder t' = below k (inorder t) @ k # above k (inorder t)"
  using insert_avl_correct [OF assms, of k] by (auto simp: avlinsert_def fixed_def)

lemma avldelete_correct:
  assumes "balanced t" "ordered (inorder t)"
  shows "\<exists>t'. avldelete cmp t k = Inr (t', find (\<lambda>x. ord x = ord k) (inorder t)) \<and>
    balanced t' \<and> inorder t' = below k (inorder t) @ above k (inorder t)"
  using delete_avl_correct [OF assms, of k] by (auto simp: avldelete_def fixed_def)

end

section \<open>Ends and neighbours\<close>

lemma bottom_correct:
  "bottom d t = (if t = Nil then None else Some (if d then last (inorder t) else hd (inorder t)))"
  by (induction t) auto

text \<open>The position of the node at a path in the sorted list.\<close>

fun rank :: "'a avl \<Rightarrow> bool list \<Rightarrow> nat" where
  "rank Nil p = 0"
| "rank (Node l k b r) [] = length (inorder l)"
| "rank (Node l k b r) (d # p) = (if d then length (inorder l) + 1 + rank r p else rank l p)"

lemma subtree_Nil [simp]: "subtree Nil p = Nil"
  by (cases p) auto

lemma rank_bound: "subtree t p \<noteq> Nil \<Longrightarrow> rank t p < length (inorder t)"
  by (induction t p rule: rank.induct) (auto split: if_splits)

lemma rank_nth: "subtree t p \<noteq> Nil \<Longrightarrow> inorder t ! rank t p = key (subtree t p)"
  by (induction t p rule: rank.induct) (auto simp: nth_append rank_bound dest: rank_bound split: if_splits)

lemma descend_subtree: "t \<noteq> Nil \<Longrightarrow> subtree t (descend a t) \<noteq> Nil"
  by (induction t) auto

lemma descend_rank: "t \<noteq> Nil \<Longrightarrow> rank t (descend a t) = (if a then length (inorder t) - 1 else 0)"
  by (induction t) auto

lemma climb_snoc: "climb a (p @ [d]) = (case climb a p of Some q \<Rightarrow> Some (d # q) | None \<Rightarrow> if d = a then None else Some [])"
  by (induction p) auto

lemma walk1_Cons: "walk1 a (Node l k b r) (d # p) =
    (case walk1 a (if d then r else l) p of Some q \<Rightarrow> Some (d # q) | None \<Rightarrow> if d = a then None else Some [])"
  by (auto simp: walk1_def Let_def climb_snoc split: option.splits)

text \<open>
  \<open>walk1\<close> from the node at position \<open>i\<close> gives the node at position \<open>i + 1\<close> (\<open>i - 1\<close> for
  \<open>a = 0\<close>), and nil from the last (first) one.
\<close>

lemma walk1_next:
  "subtree t p \<noteq> Nil \<Longrightarrow>
   (\<forall>q. walk1 True t p = Some q \<longrightarrow> subtree t q \<noteq> Nil \<and> rank t q = rank t p + 1) \<and>
   (walk1 True t p = None \<longleftrightarrow> rank t p + 1 = length (inorder t))"
proof (induction t arbitrary: p)
  case (Node l k b r)
  show ?case
  proof (cases p)
    case Nil
    then show ?thesis
      by (auto simp: walk1_def Let_def descend_rank descend_subtree)
  next
    case (Cons d p')
    with Node.prems have "subtree (if d then r else l) p' \<noteq> Nil" by simp
    with Node.IH [of p'] rank_bound [OF this] show ?thesis
      by (auto simp: Cons walk1_Cons split: option.splits if_splits)
  qed
qed simp

lemma walk1_prev:
  "subtree t p \<noteq> Nil \<Longrightarrow>
   (\<forall>q. walk1 False t p = Some q \<longrightarrow> subtree t q \<noteq> Nil \<and> rank t p = rank t q + 1) \<and>
   (walk1 False t p = None \<longleftrightarrow> rank t p = 0)"
proof (induction t arbitrary: p)
  case (Node l k b r)
  show ?case
  proof (cases p)
    case Nil
    then show ?thesis
      by (auto simp: walk1_def Let_def descend_rank descend_subtree)
  next
    case (Cons d p')
    with Node.prems have "subtree (if d then r else l) p' \<noteq> Nil" by simp
    with Node.IH [of p'] rank_bound [OF this] show ?thesis
      by (auto simp: Cons walk1_Cons split: option.splits if_splits)
  qed
qed simp


lemma setkey_height [simp]: "height (setkey t p x) = height t"
  by (induction t p x rule: setkey.induct) auto

lemma setkey_balanced [simp]: "balanced (setkey t p x) = balanced t"
  by (induction t p x rule: setkey.induct) auto

lemma setkey_inorder: "subtree t p \<noteq> Nil \<Longrightarrow> inorder (setkey t p x) = (inorder t)[rank t p := x]"
  by (induction t p x rule: setkey.induct)
    (auto simp: list_update_append rank_bound not_less dest: rank_bound split: if_splits nat.splits)

text \<open>
  The operations through a pointer, with the sorted list split at the node pointed to: this is
  the form in which the allocator uses them.
\<close>

context avl_order
begin

lemma ordered_distinct: "ordered xs \<Longrightarrow> distinct xs"
  by (induction xs) auto

lemma node_path_found:
  "ordered (inorder t) \<Longrightarrow> r \<in> set (inorder t) \<Longrightarrow>
   \<exists>p. node_path cmp t r = Some p \<and> subtree t p \<noteq> Nil \<and> key (subtree t p) = r"
proof (induction t)
  case (Node l q b s)
  from Node.prems have l: "\<forall>x \<in> set (inorder l). ord x < ord q" and s: "\<forall>x \<in> set (inorder s). ord q < ord x"
    and ol: "ordered (inorder l)" "ordered (inorder s)" by auto
  show ?case
  proof (cases rule: ord_cases [of r q])
    case eq
    with l s Node.prems have "r = q" by (auto dest: bspec)
    with eq show ?thesis by (auto simp: cmp_eq intro!: exI [of _ "[]"])
  next
    case greater
    with l Node.prems have "r \<in> set (inorder s)" by auto
    with Node.IH(2) ol obtain p where "node_path cmp s r = Some p" "subtree s p \<noteq> Nil" "key (subtree s p) = r" by blast
    with greater show ?thesis by (auto simp: Let_def cmp_eq cmp_greater intro!: exI [of _ "True # p"])
  next
    case less
    with s Node.prems have "r \<in> set (inorder l)" by auto
    with Node.IH(1) ol obtain p where "node_path cmp l r = Some p" "subtree l p \<noteq> Nil" "key (subtree l p) = r" by blast
    with less show ?thesis by (auto simp: Let_def cmp_eq cmp_greater intro!: exI [of _ "False # p"])
  qed
qed simp

lemma node_path_correct:
  assumes "ordered (inorder t)" "inorder t = xs @ r # ys"
  shows "\<exists>p. node_path cmp t r = Some p \<and> subtree t p \<noteq> Nil \<and> rank t p = length xs"
proof -
  from assms obtain p where p: "node_path cmp t r = Some p" "subtree t p \<noteq> Nil" "key (subtree t p) = r"
    using node_path_found [of t r] by auto
  from rank_nth [OF p(2)] p(3) assms(2) have "inorder t ! rank t p = inorder t ! length xs" by simp
  moreover have "length xs < length (inorder t)" by (simp add: assms(2))
  ultimately have "rank t p = length xs"
    using nth_eq_iff_index_eq [OF ordered_distinct [OF assms(1)]] rank_bound [OF p(2)] by blast
  with p show ?thesis by blast
qed

lemma avlstep_correct:
  assumes "ordered (inorder t)" "inorder t = xs @ r # ys"
  shows "avlprev cmp t r = (if xs = [] then None else Some (last xs))"
    and "avlnext cmp t r = (if ys = [] then None else Some (hd ys))"
proof -
  from node_path_correct [OF assms] obtain p where
    p: "node_path cmp t r = Some p" "subtree t p \<noteq> Nil" "rank t p = length xs" by blast
  show "avlprev cmp t r = (if xs = [] then None else Some (last xs))"
  proof (cases "walk1 False t p")
    case None
    with walk1_prev [OF p(2)] p show ?thesis by (simp add: avlstep_def)
  next
    case (Some q)
    with walk1_prev [OF p(2)] p have "subtree t q \<noteq> Nil" "length xs = rank t q + 1" by auto
    with rank_nth [of t q] Some p assms(2) show ?thesis by (auto simp: avlstep_def last_conv_nth nth_append)
  qed
  show "avlnext cmp t r = (if ys = [] then None else Some (hd ys))"
  proof (cases "walk1 True t p")
    case None
    with walk1_next [OF p(2)] p assms(2) show ?thesis by (simp add: avlstep_def)
  next
    case (Some q)
    with walk1_next [OF p(2)] p have q: "subtree t q \<noteq> Nil" "rank t q = length xs + 1" by auto
    with rank_bound [OF q(1)] assms(2) have "ys \<noteq> []" by auto
    with rank_nth [of t q] q Some p assms(2) show ?thesis
      by (auto simp: avlstep_def nth_append hd_conv_nth)
  qed
qed

lemma avlnode_correct:
  assumes "ordered (inorder t)" "inorder t = xs @ r # ys"
  shows "inorder (avlnode cmp t r x) = xs @ x # ys" and "balanced (avlnode cmp t r x) = balanced t"
  using node_path_correct [OF assms] assms(2) by (auto simp: avlnode_def setkey_inorder)

lemma avllookup_down_split:
  assumes "ordered (inorder t)" "avllookup cmp t k (-1) = Some r"
  obtains xs ys where "inorder t = xs @ r # ys" "ord r \<le> ord k" "\<forall>y \<in> set ys. ord k < ord y"
proof -
  from assms obtain us vs where "rev (inorder t) = us @ r # vs" "ord r \<le> ord k" "\<forall>y \<in> set us. \<not> ord y \<le> ord k"
    using find_split [of "\<lambda>x. ord x \<le> ord k" "rev (inorder t)" r] by (auto simp: avllookup_correct)
  with that [of "rev vs" "rev us"] show ?thesis
    by (metis append.assoc append_Cons append_Nil not_le rev.simps(2) rev_append rev_rev_ident set_rev)
qed

lemma avllookup_down_none:
  assumes "ordered (inorder t)" "avllookup cmp t k (-1) = None" "x \<in> set (inorder t)"
  shows "ord k < ord x"
  using assms by (auto simp: avllookup_correct find_None_iff not_le)

lemma below_above: "ordered xs \<Longrightarrow> find (\<lambda>x. ord x = ord k) xs = None \<Longrightarrow> xs = below k xs @ above k xs"
proof (induction xs)
  case (Cons x xs)
  show ?case
  proof (cases rule: ord_cases [of x k])
    case greater
    with Cons.prems have "\<forall>y \<in> set xs. ord k < ord y" by auto
    with greater show ?thesis by (simp add: below_none above_all order.strict_implies_order)
  qed (use Cons in \<open>auto split: if_splits\<close>)
qed simp

lemma below_split: "ordered (xs @ r # ys) \<Longrightarrow> ord k = ord r \<Longrightarrow> below k (xs @ r # ys) = xs"
  by (auto simp: below_all intro!: below_none)

lemma above_split: "ordered (xs @ r # ys) \<Longrightarrow> ord k = ord r \<Longrightarrow> above k (xs @ r # ys) = ys"
  by (auto simp: above_all intro!: above_none)

lemma avldelete_split:
  assumes "balanced t" "ordered (inorder t)" "inorder t = xs @ r # ys"
  shows "\<exists>t'. avldelete cmp t r = Inr (t', Some r) \<and> balanced t' \<and> inorder t' = xs @ ys"
proof -
  have "find (\<lambda>x. ord x = ord r) (inorder t) = Some r"
    using assms by (auto simp: find_append find_none less_imp_neq)
  moreover have "below r (inorder t) @ above r (inorder t) = xs @ ys"
    using below_split [of xs r ys r] above_split [of xs r ys r] assms(2,3) by (simp only:)
  ultimately show ?thesis using avldelete_correct [OF assms(1,2), of r] by simp
qed

lemma avlinsert_split:
  assumes "balanced t" "ordered (inorder t)" "inorder t = xs @ ys"
    and "\<forall>x \<in> set xs. ord x < ord r" "\<forall>y \<in> set ys. ord r < ord y"
  shows "\<exists>t'. avlinsert cmp t r = Inr (t', None) \<and> balanced t' \<and> inorder t' = xs @ r # ys"
proof -
  have "find (\<lambda>x. ord x = ord r) (inorder t) = None"
    using assms by (auto simp: find_None_iff)
  moreover have "below r (inorder t) = xs" "above r (inorder t) = ys"
    using assms by (auto simp: below_all above_all intro!: below_none above_none order.strict_implies_order)
  ultimately show ?thesis using avlinsert_correct [OF assms(1,2), of r] by auto
qed

end

end
