(* ===== verification/Gefs_Blk.thy ===== *)
theory Gefs_Blk
  imports Gefs_Pack
begin

text \<open>
  \<open>sys/src/9/gefs/blk.c\<close>, the block itself: its flags, the header that \<open>finalize\<close> writes and
  \<open>readblk\<close> reads back, and the checksums.

  A \<open>Blk\<close> keeps its buffer of \<open>Blksz\<close> bytes and the header fields that are copied to it; \<open>data\<close>
  is the offset of the data pointer in the buffer.  The counts of a tree block and those of
  a log block share their storage in the source (a union); no block uses both.  The fields
  kept for debugging are left out.
\<close>

subsection \<open>Constants (gdat.h)\<close>

abbreviation (input) Tdat :: int where "Tdat \<equiv> 0"
abbreviation (input) Tpivot :: int where "Tpivot \<equiv> 1"
abbreviation (input) Tleaf :: int where "Tleaf \<equiv> 2"
abbreviation (input) Tlog :: int where "Tlog \<equiv> 3"
abbreviation (input) Tdlist :: int where "Tdlist \<equiv> 4"
abbreviation (input) Tarena :: int where "Tarena \<equiv> 5"
abbreviation (input) Tsuper :: int where "Tsuper \<equiv> 0x6765"

abbreviation (input) Bdirty :: u32 where "Bdirty \<equiv> 1"
abbreviation (input) Bfinal :: u32 where "Bfinal \<equiv> 2"
abbreviation (input) Bfreed :: u32 where "Bfreed \<equiv> 4"
abbreviation (input) Bcached :: u32 where "Bcached \<equiv> 8"
abbreviation (input) Bqueued :: u32 where "Bqueued \<equiv> 16"
abbreviation (input) Blimbo :: u32 where "Blimbo \<equiv> 32"
abbreviation (input) Bstatic :: u32 where "Bstatic \<equiv> 64"

abbreviation (input) GBraw :: u32 where "GBraw \<equiv> 1"
abbreviation (input) GBnochk :: u32 where "GBnochk \<equiv> 4"

abbreviation (input) Pivhdsz :: nat where "Pivhdsz \<equiv> 10"
abbreviation (input) Leafhdsz :: nat where "Leafhdsz \<equiv> 6"
abbreviation (input) Loghdsz :: nat where "Loghdsz \<equiv> 36"
abbreviation (input) Logspc :: nat where "Logspc \<equiv> 16348"

abbreviation (input) Eio :: fault where "Eio \<equiv> Err ''i/o error''"
abbreviation (input) Ecorrupt :: fault where "Ecorrupt \<equiv> Err ''block contents corrupted''"

record Blk =
  btype :: int
  nval :: int
  valsz :: int
  nbuf :: int
  bufsz :: int
  logsz :: int
  logh :: u64
  logp :: Bptr
  bbp :: Bptr
  bref :: int
  bflag :: u32
  bdata :: nat
  bbuf :: bytes

text \<open>A block as the cache is filled with at the start: all zero.\<close>

definition zeroblk :: Blk where
  "zeroblk = \<lparr>btype = 0, nval = 0, valsz = 0, nbuf = 0, bufsz = 0, logsz = 0, logh = 0,
     logp = \<lparr>baddr = 0, bhash = 0, bgen = 0\<rparr>, bbp = \<lparr>baddr = 0, bhash = 0, bgen = 0\<rparr>, bref = 0, bflag = 0,
     bdata = 0, bbuf = replicate Blksz 0\<rparr>"

subsection \<open>Flags\<close>

definition checkflag :: "Blk \<Rightarrow> u32 \<Rightarrow> u32 \<Rightarrow> bool" where
  "checkflag b st cl = (bflag b AND (st OR cl) = st)"

definition setflag :: "Blk \<Rightarrow> u32 \<Rightarrow> u32 \<Rightarrow> Blk" where
  "setflag b st cl = b\<lparr>bflag := (bflag b AND NOT cl) OR st\<rparr>"

subsection \<open>Initialising, writing and reading a block\<close>

text \<open>The \<open>cacheget\<close> that looks for a block already at the address is the argument \<open>cached\<close>.\<close>

definition initblk :: "(u64 \<Rightarrow> bool) \<Rightarrow> Blk \<Rightarrow> u64 \<Rightarrow> u64 \<Rightarrow> int \<Rightarrow> Blk res" where
  "initblk cached b bp gen ty =
     (let b = b\<lparr>btype := ty, bbp := \<lparr>baddr = bp, bhash = -1, bgen = gen\<rparr>\<rparr> in
      assertE (\<not> cached bp)
      (let b = (if ty = Tdat then b\<lparr>bdata := 0\<rparr>
                else if ty = Tarena then b\<lparr>bdata := 2\<rparr>
                else if ty = Tdlist \<or> ty = Tlog
                then b\<lparr>logsz := 0, logp := \<lparr>baddr = -1, bhash = -1, bgen = -1\<rparr>, bdata := Loghdsz\<rparr>
                else if ty = Tpivot then b\<lparr>bdata := Pivhdsz\<rparr>
                else if ty = Tleaf then b\<lparr>bdata := Leafhdsz\<rparr>
                else b);
           b = setflag b Bdirty 0
       in Inr (b\<lparr>nval := 0, valsz := 0, nbuf := 0, bufsz := 0, logsz := 0\<rparr>)))"

text \<open>The bytes at \<open>b->data\<close>, \<open>n\<close> of them; more than the buffer holds is out of bounds.\<close>

definition databytes :: "Blk \<Rightarrow> int \<Rightarrow> bytes res" where
  "databytes b n = (if 0 \<le> n \<and> bdata b + nat n \<le> length (bbuf b)
     then Inr (take (nat n) (drop (bdata b) (bbuf b))) else Inl Wild)"

definition blkhash :: "Blk \<Rightarrow> u64" where
  "blkhash b = metrohash64_1 (bbuf b) 0x6765"

definition putblk :: "nat \<Rightarrow> bytes \<Rightarrow> Blk \<Rightarrow> Blk" where
  "putblk i bs b = b\<lparr>bbuf := put i bs (bbuf b)\<rparr>"

definition finalize :: "Blk \<Rightarrow> Blk res" where
  "finalize b =
     (let b = (if btype b \<noteq> Tdat then putblk 0 (PACK16 (of_int (btype b))) b else b) in
      bindE
       (if btype b = Tpivot then
          let b = putblk 2 (PACK16 (of_int (nval b))) b;
              b = putblk 4 (PACK16 (of_int (valsz b))) b;
              b = putblk 6 (PACK16 (of_int (nbuf b))) b;
              b = putblk 8 (PACK16 (of_int (bufsz b))) b
          in Inr b
        else if btype b = Tleaf then
          let b = putblk 2 (PACK16 (of_int (nval b))) b;
              b = putblk 4 (PACK16 (of_int (valsz b))) b
          in Inr b
        else if btype b = Tdlist \<or> btype b = Tlog then
          bindE (databytes b (logsz b)) (\<lambda>d.
          let b = b\<lparr>logh := bufhash d\<rparr>;
              b = putblk 2 (PACK16 (of_int (logsz b))) b;
              b = putblk 4 (PACK64 (logh b)) b
          in bindE (packbp Ptrsz (logp b)) (\<lambda>p. Inr (putblk 12 p b)))
        else if btype b = Tdat \<or> btype b = Tarena \<or> btype b = Tsuper then Inr b
        else Inl Panic) (\<lambda>b.
      Inr (setflag (b\<lparr>bbp := (bbp b)\<lparr>bhash := blkhash b\<rparr>\<rparr>) (Bdirty OR Bfinal) 0)))"

text \<open>
  The device.  \<open>pread off n\<close> is what one read returns: between 1 and \<open>n\<close> bytes, or none at an
  error or the end.  A read of more than was asked for is outside the buffer.
\<close>

function readbuf :: "(nat \<Rightarrow> nat \<Rightarrow> bytes) \<Rightarrow> nat \<Rightarrow> nat \<Rightarrow> bytes res" where
  "readbuf pread off rem =
     (if rem = 0 then Inr []
      else let p = pread off rem in
        if p = [] then Inl Eio
        else if length p > rem then Inl Wild
        else bindE (readbuf pread (off + length p) (rem - length p)) (\<lambda>q. Inr (p @ q)))"
  by pat_completeness auto
termination
  by (relation "measure (\<lambda>(pread, off, rem). rem)") auto

declare readbuf.simps [simp del]

definition short :: "u16 \<Rightarrow> int" where
  "short w = sint w"

text \<open>The switch over the block's type.\<close>

definition readhdr :: "Blk \<Rightarrow> Blk res" where
  "readhdr b =
     (if btype b = Tdat \<or> btype b = Tsuper then Inr (b\<lparr>bdata := 0\<rparr>)
      else if btype b = Tarena then Inr (b\<lparr>bdata := 2\<rparr>)
      else if btype b = Tdlist \<or> btype b = Tlog then
        bindE (unpackbp (drop 12 (bbuf b))) (\<lambda>lp.
        Inr (b\<lparr>logsz := uint (UNPACK16 (drop 2 (bbuf b))), logh := UNPACK64 (drop 4 (bbuf b)), logp := lp, bdata := 36\<rparr>))
      else if btype b = Tpivot then
        Inr (b\<lparr>nval := short (UNPACK16 (drop 2 (bbuf b))), valsz := short (UNPACK16 (drop 4 (bbuf b))),
               nbuf := short (UNPACK16 (drop 6 (bbuf b))), bufsz := short (UNPACK16 (drop 8 (bbuf b))), bdata := 10\<rparr>)
      else if btype b = Tleaf then
        Inr (b\<lparr>nval := short (UNPACK16 (drop 2 (bbuf b))), valsz := short (UNPACK16 (drop 4 (bbuf b))), bdata := 6\<rparr>)
      else Inl (Err ''invalid block type''))"

definition readblk :: "(nat \<Rightarrow> nat \<Rightarrow> bytes) \<Rightarrow> Blk \<Rightarrow> Bptr \<Rightarrow> u32 \<Rightarrow> Blk res" where
  "readblk pread b bp flg =
     bindE (readbuf pread (unat (baddr bp)) Blksz) (\<lambda>buf.
     bindE (readhdr (b\<lparr>bbuf := buf, bbp := \<lparr>baddr = baddr bp, bhash = -1, bgen = -1\<rparr>,
               nval := 0, valsz := 0, nbuf := 0, bufsz := 0, logsz := 0,
               btype := (if flg AND GBraw \<noteq> 0 then Tdat else short (UNPACK16 buf))\<rparr>)) (\<lambda>b.
     bindE
       (if btype b = Tlog \<or> btype b = Tdlist
        then bindE (databytes b (logsz b)) (\<lambda>d. Inr (logh b, bufhash d))
        else Inr (bhash bp, blkhash b)) (\<lambda>(xh, ck).
     if flg AND GBnochk = 0 \<and> ck \<noteq> xh then Inl Ecorrupt else Inr b)))"

definition blkfill :: "Blk \<Rightarrow> int res" where
  "blkfill b =
     (if btype b = Tpivot then Inr ((2 * nbuf b + bufsz b + 2 * nval b + valsz b) mod 2 ^ 16)
      else if btype b = Tleaf then Inr ((2 * nval b + valsz b) mod 2 ^ 16)
      else Inl Panic)"

subsection \<open>What was written is what is read\<close>

text \<open>A device that serves the block at an address, in pieces of any length.\<close>

definition serves :: "(nat \<Rightarrow> nat \<Rightarrow> bytes) \<Rightarrow> nat \<Rightarrow> bytes \<Rightarrow> bool" where
  "serves pread off xs \<longleftrightarrow> (\<forall>i < length xs. \<forall>n > 0. i + n \<le> length xs \<longrightarrow>
     (\<exists>k > 0. k \<le> n \<and> pread (off + i) n = take k (drop i xs)))"

lemma readbuf_serves:
  assumes "serves pread off xs"
  shows "i + n \<le> length xs \<Longrightarrow> readbuf pread (off + i) n = Inr (take n (drop i xs))"
proof (induction n arbitrary: i rule: less_induct)
  case (less n)
  show ?case
  proof (cases "n = 0")
    case True
    then show ?thesis by (simp add: readbuf.simps)
  next
    case False
    with less.prems assms obtain k where k: "0 < k" "k \<le> n" "pread (off + i) n = take k (drop i xs)"
      unfolding serves_def by (metis add_lessD1 le_neq_implies_less less_add_same_cancel1 less_le_trans not_gr_zero)
    with less.prems have l: "length (pread (off + i) n) = k" by simp
    from less.IH [of "n - k" "i + k"] k False less.prems
    have "readbuf pread (off + i + k) (n - k) = Inr (take (n - k) (drop (i + k) xs))" by (simp add: add.assoc)
    moreover have "take k (drop i xs) @ take (n - k) (drop (i + k) xs) = take n (drop i xs)"
      using k by (metis add.commute drop_drop le_add_diff_inverse take_add)
    ultimately show ?thesis using k l False by (subst readbuf.simps) (auto simp: Let_def)
  qed
qed

text \<open>The header \<open>finalize\<close> writes, by type.\<close>

definition blkhdr :: "Blk \<Rightarrow> bytes" where
  "blkhdr b =
     (if btype b = Tdat then []
      else if btype b = Tpivot then PACK16 1 @ PACK16 (of_int (nval b)) @ PACK16 (of_int (valsz b)) @
        PACK16 (of_int (nbuf b)) @ PACK16 (of_int (bufsz b))
      else if btype b = Tleaf then PACK16 2 @ PACK16 (of_int (nval b)) @ PACK16 (of_int (valsz b))
      else if btype b = Tdlist \<or> btype b = Tlog then PACK16 (of_int (btype b)) @ PACK16 (of_int (logsz b)) @
        PACK64 (bufhash (take (nat (logsz b)) (drop 36 (bbuf b)))) @
        PACK64 (baddr (logp b)) @ PACK64 (bhash (logp b)) @ PACK64 (bgen (logp b))
      else PACK16 (of_int (btype b)))"

text \<open>Where the data of a block begins.\<close>

definition datastart :: "int \<Rightarrow> nat" where
  "datastart ty = (if ty = Tarena then 2 else if ty = Tdlist \<or> ty = Tlog then 36
     else if ty = Tpivot then 10 else if ty = Tleaf then 6 else 0)"

text \<open>A block as the file system keeps it: the counts fit their fields and the log fits the block.\<close>

definition wfblk :: "Blk \<Rightarrow> bool" where
  "wfblk b \<longleftrightarrow> length (bbuf b) = Blksz \<and> btype b \<in> {Tdat, Tpivot, Tleaf, Tlog, Tdlist, Tarena, Tsuper} \<and>
     bdata b = datastart (btype b) \<and>
     (\<forall>n \<in> {nval b, valsz b, nbuf b, bufsz b}. 0 \<le> n \<and> n < 2 ^ 15) \<and> 0 \<le> logsz b \<and> logsz b \<le> int Logspc"

lemma finalize_buf:
  assumes "wfblk b"
  shows "\<exists>b'. finalize b = Inr b' \<and> bbuf b' = put 0 (blkhdr b) (bbuf b) \<and> bbp b' = (bbp b)\<lparr>bhash := blkhash b'\<rparr> \<and>
    btype b' = btype b \<and> nval b' = nval b \<and> valsz b' = valsz b \<and> nbuf b' = nbuf b \<and> bufsz b' = bufsz b \<and>
    logsz b' = logsz b \<and> logp b' = logp b \<and> bdata b' = bdata b \<and>
    bref b' = bref b \<and> bflag b' = bflag b OR 3"
proof -
  have len: "length (bbuf b) = 16384" using assms by (simp add: wfblk_def)
  have db: "databytes (putblk 0 (PACK16 (of_int (btype b))) b) (logsz b) = Inr (take (nat (logsz b)) (drop 36 (bbuf b)))"
    if "btype b = 3 \<or> btype b = 4"
    using assms that by (auto simp: databytes_def putblk_def wfblk_def datastart_def drop_put)
  from assms consider "btype b = 0" | "btype b = 1" | "btype b = 2" | "btype b = 3 \<or> btype b = 4" | "btype b = 5 \<or> btype b = 26469"
    by (auto simp: wfblk_def)
  then show ?thesis
  proof cases
    case 4
    with db len show ?thesis
      by (auto simp: finalize_def Let_def blkhdr_def putblk_def setflag_def packbp_def put_put blkhash_def)
  qed (use len in \<open>auto simp: finalize_def Let_def blkhdr_def putblk_def setflag_def put_put blkhash_def\<close>)
qed

text \<open>Flags that are set, and that others do not disturb.\<close>

lemma checkflag_or:
  "checkflag (b\<lparr>bflag := w OR 3\<rparr>) Bfinal 0"
  "checkflag b Bstatic 0 \<Longrightarrow> checkflag (b\<lparr>bflag := bflag b OR 3\<rparr>) Bstatic 0"
  by (simp_all add: checkflag_def bit.conj_disj_distrib2)

lemma checkflag_weaken: "checkflag b st cl \<Longrightarrow> checkflag b st 0"
proof -
  assume "checkflag b st cl"
  then have a: "bflag b AND (st OR cl) = st" by (simp add: checkflag_def)
  have "bflag b AND st = (bflag b AND (st OR cl)) AND st"
    by (rule bit_word_eqI) (auto simp: bit_simps)
  then show ?thesis by (simp add: a checkflag_def)
qed

lemma checkflag_static: "checkflag b Bstatic 0 \<Longrightarrow> \<not> checkflag b 0 (Bdirty OR Bstatic)"
proof
  assume "checkflag b Bstatic 0" "checkflag b 0 (Bdirty OR Bstatic)"
  then have a: "bflag b AND 64 = 64" "bflag b AND 65 = 0" by (simp_all add: checkflag_def)
  have "bflag b AND 64 = (bflag b AND 65) AND 64" by (simp add: and.assoc)
  with a show False by simp
qed

lemma short_of_int: "0 \<le> n \<Longrightarrow> n < 2 ^ 15 \<Longrightarrow> short (word_of_int n) = n"
  by (simp add: short_def sint_word_ariths signed_take_bit_int_eq_self sint_sbintrunc')

lemma readblk_image:
  assumes "wfblk b" "blkimg = put 0 (blkhdr b) (bbuf b)"
    and "readbuf pread (unat (baddr bp)) Blksz = Inr blkimg"
    and "btype b = Tlog \<or> btype b = Tdlist \<or> bhash bp = metrohash64_1 blkimg 0x6765"
    and "flg = (if btype b = Tdat then GBraw else 0)"
  shows "\<exists>r. readblk pread b0 bp flg = Inr r \<and> btype r = btype b \<and> bdata r = bdata b \<and> bbuf r = blkimg \<and>
    (btype b = Tpivot \<longrightarrow> nval r = nval b \<and> valsz r = valsz b \<and> nbuf r = nbuf b \<and> bufsz r = bufsz b) \<and>
    (btype b = Tleaf \<longrightarrow> nval r = nval b \<and> valsz r = valsz b) \<and>
    (btype b = Tlog \<or> btype b = Tdlist \<longrightarrow> logsz r = logsz b \<and> logp r = logp b)"
proof -
  have len: "length (bbuf b) = 16384" using assms(1) by (simp add: wfblk_def)
  have n: "short (word_of_int (nval b)) = nval b" "short (word_of_int (valsz b)) = valsz b"
    "short (word_of_int (nbuf b)) = nbuf b" "short (word_of_int (bufsz b)) = bufsz b"
    using assms(1) by (auto simp: wfblk_def short_of_int)
  have l: "uint (word_of_int (logsz b) :: u16) = logsz b" "nat (logsz b) \<le> 16348"
    using assms(1) by (auto simp: wfblk_def uint_word_of_int)
  have ty: "short 1 = 1" "short 2 = 2" "short 3 = 3" "short 4 = 4" "short 5 = 5" "short 26469 = 26469"
    by (simp_all add: short_def)
  from assms(1) consider "btype b = 0" | "btype b = 1" | "btype b = 2" | "btype b = 3" | "btype b = 4" | "btype b = 5" | "btype b = 26469"
    by (auto simp: wfblk_def)
  then show ?thesis
    by cases (use assms len n l ty in \<open>simp_all add: readblk_def readhdr_def blkhdr_def put_0 wfblk_def datastart_def
      databytes_def blkhash_def unpackbp_def\<close>)
qed



lemma readbuf_length: "readbuf pread off n = Inr p \<Longrightarrow> length p = n"
proof (induction pread off n arbitrary: p rule: readbuf.induct)
  case (1 pread off n)
  let ?p = "pread off n"
  show ?case
  proof (cases "n = 0 \<or> ?p = [] \<or> n < length ?p")
    case True
    with 1(2) show ?thesis by (auto simp: readbuf.simps [of pread off n] Let_def split: if_splits)
  next
    case False
    with 1(2) obtain q where q: "readbuf pread (off + length ?p) (n - length ?p) = Inr q" "p = ?p @ q"
      by (cases "readbuf pread (off + length ?p) (n - length ?p)") (auto simp: readbuf.simps [of pread off n] Let_def)
    with 1(1) [OF _ refl _ _ q(1)] False show ?thesis by auto
  qed
qed

lemma readhdr_Inr:
  assumes "readhdr b = Inr c"
  shows "bbuf c = bbuf b \<and> bbp c = bbp b \<and> btype c = btype b \<and>
    btype c \<in> {Tdat, Tpivot, Tleaf, Tlog, Tdlist, Tarena, Tsuper} \<and> (btype c = Tlog \<or> btype c = Tdlist \<longrightarrow> bdata c = 36)"
  using assms by (auto simp: readhdr_def unpackbp_def assertE_def split: if_splits)



text \<open>
  The length of a log is believed before its checksum is compared: a log block whose length
  field is larger than what a block holds makes \<open>readblk\<close> hash bytes past the end of the buffer.
\<close>

theorem log_length_overrun:
  assumes "readbuf pread (unat (baddr bp)) Blksz = Inr buf" and "UNPACK16 buf = 3" and "Logspc < unat (UNPACK16 (drop 2 buf))"
    and "flg AND GBraw = 0"
  shows "readblk pread b bp flg = Inl Wild"
proof -
  let ?b = "b\<lparr>bbuf := buf, bbp := \<lparr>baddr = baddr bp, bhash = -1, bgen = -1\<rparr>,
               nval := 0, valsz := 0, nbuf := 0, bufsz := 0, logsz := 0, btype := 3\<rparr>"
  have ty: "short 3 = 3" by (simp add: short_def)
  have len: "length buf = 16384" using assms(1) by (rule readbuf_length)
  obtain c where c: "readhdr ?b = Inr c" "btype c = 3" "bbuf c = buf" "bdata c = 36"
    "logsz c = uint (UNPACK16 (drop 2 buf))" using len by (simp add: readhdr_def unpackbp_def)
  have "databytes c (logsz c) = Inl Wild"
    using assms(3) c len by (simp add: databytes_def)
  with assms(1,2,4) ty c(1,2) show ?thesis by (simp add: readblk_def)
qed

theorem log_length_overrun_witness:
  "readblk (\<lambda>off n. take n (drop off (PACK16 3 @ PACK16 16349 @ replicate 16380 0))) zeroblk \<lparr>baddr = 0, bhash = 0, bgen = 0\<rparr> 0 = Inl Wild"
proof -
  have "readbuf (\<lambda>off n. take n (drop off (PACK16 3 @ PACK16 16349 @ replicate 16380 0))) 0 16384 =
      Inr (PACK16 3 @ PACK16 16349 @ replicate 16380 0)"
    by (subst readbuf.simps, simp add: Let_def) (simp add: readbuf.simps PACK16_def)
  from log_length_overrun [where bp = "\<lparr>baddr = 0, bhash = 0, bgen = 0\<rparr>", OF _ _ _, of _ _ 0 zeroblk] this show ?thesis
    by simp
qed

end
