(* ===== verification/Gefs_Alloc.thy ===== *)
theory Gefs_Alloc
  imports Avl Gefs_Blk
begin

text \<open>
  \<open>sys/src/9/gefs/blk.c\<close> and \<open>load.c\<close>, the allocator: an arena keeps its free space as an AVL tree
  of disjoint ranges ordered by offset.  \<open>freerange\<close> and \<open>grabrange\<close> put a range back and take one
  out, \<open>blkalloc_lk\<close> takes a block from either end.  The ranges are changed in place through
  pointers into the tree, as in the source (\<open>avlnode\<close>).

  Offsets and lengths are \<open>vlong\<close>s, here integers: they are addresses on the device, and a sum of
  two of them is far from \<open>2\<^sup>6\<^sup>3\<close>.  \<open>babort\<close> and \<open>abort\<close> are \<open>Panic\<close>.
\<close>

record Arange =
  roff :: int
  rlen :: int

definition rangecmp :: "Arange \<Rightarrow> Arange \<Rightarrow> int" where
  "rangecmp a b = (if roff a < roff b then -1 else if roff a > roff b then 1 else 0)"

interpretation rng: avl_order rangecmp roff
  by unfold_locales (auto simp: rangecmp_def)

abbreviation Blksz_int :: int where "Blksz_int \<equiv> 16384"

section \<open>The operations on the tree of free ranges\<close>

text \<open>
  The loop at \<open>Again\<close>: each round joins \<open>r\<close> with a neighbour and deletes a node, so
  the number of nodes bounds the number of rounds.
\<close>

fun freerange_again :: "nat \<Rightarrow> Arange avl \<Rightarrow> Arange \<Rightarrow> Arange avl res" where
  "freerange_again 0 t r = Inl Wild"
| "freerange_again (Suc n) t r =
     (let p = avlprev rangecmp t r in
      if p \<noteq> None \<and> roff (the p) + rlen (the p) = roff r then
        bindE (avldelete rangecmp t r) (\<lambda>(t, _).
        let s = the p; s' = s\<lparr>rlen := rlen s + rlen r\<rparr> in
        freerange_again n (avlnode rangecmp t s s') s')
      else if p \<noteq> None \<and> roff (the p) + rlen (the p) \<ge> roff r then Inl Panic
      else
        let q = avlnext rangecmp t r in
        if q \<noteq> None \<and> roff r + rlen r = roff (the q) then
          bindE (avldelete rangecmp t r) (\<lambda>(t, _).
          let s = the q; s' = s\<lparr>roff := roff r, rlen := rlen s + rlen r\<rparr> in
          freerange_again n (avlnode rangecmp t s s') s')
        else if q \<noteq> None \<and> roff r + rlen r \<ge> roff (the q) then Inl Panic
        else Inr t)"

definition freerange :: "Arange avl \<Rightarrow> int \<Rightarrow> int \<Rightarrow> Arange avl res" where
  "freerange t off len =
     assertE (len mod Blksz_int = 0)
     (let r = \<lparr>roff = off, rlen = len\<rparr> in
      if avllookup rangecmp t r 0 \<noteq> None then Inl Panic
      else bindE (avlinsert rangecmp t r) (\<lambda>(t, _).
        freerange_again (length (inorder t) + 2) t r))"

definition grabrange :: "Arange avl \<Rightarrow> int \<Rightarrow> int \<Rightarrow> Arange avl res" where
  "grabrange t off len =
     assertE (len mod Blksz_int = 0)
     (case avllookup rangecmp t \<lparr>roff = off, rlen = len\<rparr> (-1) of None \<Rightarrow> Inl Panic
      | Some r \<Rightarrow>
        if off + len > roff r + rlen r then Inl Panic
        else
          bindE
           (if off = roff r then
              let r' = \<lparr>roff = roff r + len, rlen = rlen r - len\<rparr> in Inr (avlnode rangecmp t r r', r')
            else if off + len = roff r + rlen r then
              let r' = r\<lparr>rlen := rlen r - len\<rparr> in Inr (avlnode rangecmp t r r', r')
            else if off > roff r \<and> off + len < roff r + rlen r then
              let r' = r\<lparr>rlen := off - roff r\<rparr>;
                  s = \<lparr>roff = off + len, rlen = rlen r - rlen r' - len\<rparr>
              in bindE (avlinsert rangecmp (avlnode rangecmp t r r') s) (\<lambda>(t, _). Inr (t, r'))
            else Inl Panic) (\<lambda>(t, r').
          if rlen r' = 0 then bindE (avldelete rangecmp t r') (\<lambda>(t, _). Inr t) else Inr t))"

section \<open>The free space as a set\<close>

text \<open>
  The ranges of a tree in order: not empty, made of whole blocks, and neither overlapping nor
  adjacent.
\<close>

definition wfrange :: "Arange \<Rightarrow> bool" where
  "wfrange r \<longleftrightarrow> 0 < rlen r \<and> roff r mod Blksz_int = 0 \<and> rlen r mod Blksz_int = 0"

definition apart :: "Arange \<Rightarrow> Arange \<Rightarrow> bool" where
  "apart r s \<longleftrightarrow> roff r + rlen r < roff s"

definition wfranges :: "Arange list \<Rightarrow> bool" where
  "wfranges xs \<longleftrightarrow> sorted_wrt apart xs \<and> list_all wfrange xs"

definition wffree :: "Arange avl \<Rightarrow> bool" where
  "wffree t \<longleftrightarrow> balanced t \<and> wfranges (inorder t)"

definition extent :: "Arange \<Rightarrow> int set" where
  "extent r = {roff r ..< roff r + rlen r}"

definition space :: "Arange list \<Rightarrow> int set" where
  "space xs = (\<Union>r \<in> set xs. extent r)"

definition freespace :: "Arange avl \<Rightarrow> int set" where
  "freespace t = space (inorder t)"

lemma wfranges_simps [simp]:
  "wfranges []"
  "wfranges (x # xs) \<longleftrightarrow> wfrange x \<and> (\<forall>y \<in> set xs. apart x y) \<and> wfranges xs"
  "wfranges (xs @ ys) \<longleftrightarrow> wfranges xs \<and> wfranges ys \<and> (\<forall>x \<in> set xs. \<forall>y \<in> set ys. apart x y)"
  by (auto simp: wfranges_def sorted_wrt_append)

lemma space_simps [simp]:
  "space [] = {}" "space (x # xs) = extent x \<union> space xs" "space (xs @ ys) = space xs \<union> space ys"
  by (auto simp: space_def)

lemma wfranges_mem: "wfranges xs \<Longrightarrow> r \<in> set xs \<Longrightarrow> wfrange r"
  by (auto simp: wfranges_def list_all_iff)

lemma wfranges_ordered: "wfranges xs \<Longrightarrow> rng.ordered xs"
  by (induction xs) (auto simp: apart_def wfrange_def)


subsection \<open>Freeing a range\<close>

text \<open>One round of the loop, with the tree's ranges split at the new one.\<close>

lemma again_done:
  assumes "rng.ordered (inorder t)" "inorder t = xs @ r # ys"
    and "xs \<noteq> [] \<longrightarrow> apart (last xs) r" "ys \<noteq> [] \<longrightarrow> apart r (hd ys)"
  shows "freerange_again (Suc n) t r = Inr t"
  using assms(3,4) by (auto simp: Let_def rng.avlstep_correct [OF assms(1,2)] apart_def)

lemma again_prev:
  assumes "balanced t" "rng.ordered (inorder t)" "inorder t = xs @ s # r # ys" "roff s + rlen s = roff r"
  shows "\<exists>t'. freerange_again (Suc n) t r = freerange_again n t' (s\<lparr>rlen := rlen s + rlen r\<rparr>) \<and>
    balanced t' \<and> inorder t' = xs @ s\<lparr>rlen := rlen s + rlen r\<rparr> # ys"
proof -
  have sp: "inorder t = (xs @ [s]) @ r # ys" using assms(3) by simp
  from rng.avldelete_split [OF assms(1,2) sp] obtain t' where
    t': "avldelete rangecmp t r = Inr (t', Some r)" "balanced t'" "inorder t' = xs @ s # ys" by auto
  have "rng.ordered (inorder t')" using assms(2,3) t'(3) by auto
  note n = rng.avlnode_correct [OF this t'(3), of "s\<lparr>rlen := rlen s + rlen r\<rparr>"]
  have "avlprev rangecmp t r = Some s" by (simp add: rng.avlstep_correct [OF assms(2) sp])
  with t' n assms(4) show ?thesis by (auto simp: Let_def)
qed

lemma again_next:
  assumes "balanced t" "rng.ordered (inorder t)" "inorder t = xs @ r # s # ys" "roff r + rlen r = roff s"
    and "xs \<noteq> [] \<longrightarrow> apart (last xs) r"
  shows "\<exists>t'. freerange_again (Suc n) t r = freerange_again n t' (s\<lparr>roff := roff r, rlen := rlen s + rlen r\<rparr>) \<and>
    balanced t' \<and> inorder t' = xs @ s\<lparr>roff := roff r, rlen := rlen s + rlen r\<rparr> # ys"
proof -
  from rng.avldelete_split [OF assms(1-3)] obtain t' where
    t': "avldelete rangecmp t r = Inr (t', Some r)" "balanced t'" "inorder t' = xs @ s # ys" by auto
  have "rng.ordered (inorder t')" using assms(2,3) t'(3) by auto
  note n = rng.avlnode_correct [OF this t'(3), of "s\<lparr>roff := roff r, rlen := rlen s + rlen r\<rparr>"]
  have "avlnext rangecmp t r = Some s" "avlprev rangecmp t r = (if xs = [] then None else Some (last xs))"
    by (simp_all add: rng.avlstep_correct [OF assms(2,3)])
  with t' n assms(4,5) show ?thesis by (auto simp: Let_def apart_def)
qed

lemma again_clash:
  assumes "rng.ordered (inorder t)" "inorder t = xs @ r # ys"
    and "xs \<noteq> [] \<and> roff (last xs) + rlen (last xs) > roff r \<or>
      (xs \<noteq> [] \<longrightarrow> apart (last xs) r) \<and> ys \<noteq> [] \<and> roff r + rlen r > roff (hd ys)"
  shows "freerange_again (Suc n) t r = Inl Panic"
  using assms(3) by (auto simp: Let_def rng.avlstep_correct [OF assms(1,2)] apart_def)


declare freerange_again.simps [simp del]

lemma wfrange_join:
  "wfrange s \<Longrightarrow> wfrange r \<Longrightarrow> wfrange (s\<lparr>rlen := rlen s + rlen r\<rparr>)"
  "wfrange s \<Longrightarrow> wfrange r \<Longrightarrow> wfrange (s\<lparr>roff := roff r, rlen := rlen s + rlen r\<rparr>)"
  by (auto simp: wfrange_def)

lemma ordered_mid:
  assumes "wfranges (xs @ ys)" "wfrange r"
    and "\<forall>x \<in> set xs. roff x + rlen x \<le> roff r" "\<forall>y \<in> set ys. roff r + rlen r \<le> roff y"
  shows "rng.ordered (xs @ r # ys)"
proof -
  have "roff x < roff r" if "x \<in> set xs" for x
    using assms(3) that wfranges_mem [OF assms(1), of x] by (fastforce simp: wfrange_def)
  moreover have "roff r < roff y" if "y \<in> set ys" for y
    using assms(2,4) that by (fastforce simp: wfrange_def)
  ultimately show ?thesis using wfranges_ordered [OF assms(1)] by auto
qed

lemma again_next_total:
  assumes "balanced t" "inorder t = xs @ r # ys" "wfranges (xs @ ys)" "wfrange r"
    and x: "\<forall>x \<in> set xs. apart x r" and y: "\<forall>y \<in> set ys. roff r + rlen r \<le> roff y"
  shows "\<exists>t'. freerange_again (Suc (Suc n)) t r = Inr t' \<and> wffree t' \<and> freespace t' = space xs \<union> extent r \<union> space ys"
proof -
  have ord: "rng.ordered (inorder t)"
    unfolding assms(2) using x by (intro ordered_mid [OF assms(3,4) _ y]) (auto simp: apart_def)
  show ?thesis
  proof (cases "ys \<noteq> [] \<and> roff r + rlen r = roff (hd ys)")
    case True
    then obtain q vs where ys: "ys = q # vs" and adj: "roff r + rlen r = roff q" by (cases ys) auto
    let ?r = "q\<lparr>roff := roff r, rlen := rlen q + rlen r\<rparr>"
    have q: "wfrange q" and rest: "\<forall>y \<in> set vs. apart q y" "\<forall>x \<in> set xs. apart x q" using assms(3) by (simp_all add: ys)
    from again_next [OF assms(1) ord, of xs r q vs "Suc n"] assms(2) adj x obtain t' where
      t': "freerange_again (Suc (Suc n)) t r = freerange_again (Suc n) t' ?r" "balanced t'" "inorder t' = xs @ ?r # vs"
      by (auto simp: ys)
    have wf: "wfranges (xs @ ?r # vs)"
      using assms(3,4) x q rest adj wfrange_join(2) [OF q assms(4)] by (auto simp: ys apart_def)
    have "freerange_again (Suc n) t' ?r = Inr t'"
      using again_done [OF _ t'(3)] wfranges_ordered [OF wf] wf t'(3) by simp
    moreover have "extent ?r = extent r \<union> extent q"
      using adj q assms(4) by (auto simp: extent_def wfrange_def)
    ultimately show ?thesis using t' wf by (auto simp: wffree_def freespace_def ys)
  next
    case False
    have "apart r y" if "y \<in> set ys" for y
    proof (cases ys)
      case (Cons q vs)
      with False y that assms(3) show ?thesis by (auto simp: apart_def wfrange_def)
    qed (use that in simp)
    with assms x have wf: "wfranges (xs @ r # ys)" by auto
    then have "freerange_again (Suc (Suc n)) t r = Inr t"
      using again_done [OF ord assms(2)] by simp
    with wf assms(1,2) show ?thesis by (auto simp: wffree_def freespace_def)
  qed
qed

lemma again_total:
  assumes "balanced t" "inorder t = xs @ r # ys" "wfranges (xs @ ys)" "wfrange r"
    and x: "\<forall>x \<in> set xs. roff x + rlen x \<le> roff r" and y: "\<forall>y \<in> set ys. roff r + rlen r \<le> roff y"
  shows "\<exists>t'. freerange_again (Suc (Suc (Suc n))) t r = Inr t' \<and> wffree t' \<and> freespace t' = space xs \<union> extent r \<union> space ys"
proof (cases "xs \<noteq> [] \<and> roff (last xs) + rlen (last xs) = roff r")
  case True
  then obtain us p where xs: "xs = us @ [p]" and adj: "roff p + rlen p = roff r" by (cases xs rule: rev_cases) auto
  let ?r = "p\<lparr>rlen := rlen p + rlen r\<rparr>"
  have p: "wfrange p" and rest: "\<forall>x \<in> set us. apart x p" using assms(3) by (simp_all add: xs)
  have ord: "rng.ordered (inorder t)"
    using ordered_mid [OF assms(3,4) x y] assms(2) by simp
  from again_prev [OF assms(1) ord, of us p r ys "Suc (Suc n)"] assms(2) adj obtain t' where
    t': "freerange_again (Suc (Suc (Suc n))) t r = freerange_again (Suc (Suc n)) t' ?r" "balanced t'" "inorder t' = us @ ?r # ys"
    by (auto simp: xs)
  have "\<exists>t''. freerange_again (Suc (Suc n)) t' ?r = Inr t'' \<and> wffree t'' \<and> freespace t'' = space us \<union> extent ?r \<union> space ys"
    using t' assms(3,4) y adj rest p wfrange_join(1) [OF p assms(4)]
    by (intro again_next_total) (auto simp: xs apart_def)
  moreover have "extent ?r = extent p \<union> extent r"
    using adj p assms(4) by (auto simp: extent_def wfrange_def)
  ultimately show ?thesis using t' by (auto simp: xs)
next
  case False
  have "apart x r" if "x \<in> set xs" for x
  proof (cases xs rule: rev_cases)
    case (snoc us p)
    with False x that assms(3) show ?thesis by (auto simp: apart_def wfrange_def)
  qed (use that in simp)
  with assms show ?thesis by (intro again_next_total) auto
qed

lemma freerange_insert:
  assumes "wffree t" "wfrange \<lparr>roff = off, rlen = len\<rparr>"
    and "avllookup rangecmp t \<lparr>roff = off, rlen = len\<rparr> 0 = None"
  obtains t' xs ys where "freerange t off len = freerange_again (length (inorder t') + 2) t' \<lparr>roff = off, rlen = len\<rparr>"
    "balanced t'" "inorder t' = xs @ \<lparr>roff = off, rlen = len\<rparr> # ys" "inorder t = xs @ ys"
    "\<forall>x \<in> set xs. roff x < off" "\<forall>y \<in> set ys. off < roff y"
proof -
  let ?r = "\<lparr>roff = off, rlen = len\<rparr>"
  from assms(1) have b: "balanced t" and o: "rng.ordered (inorder t)" by (auto simp: wffree_def wfranges_ordered)
  from assms(3) o have "find (\<lambda>x. roff x = roff ?r) (inorder t) = None" by (simp add: rng.avllookup_correct)
  note sp = rng.below_above [OF o this]
  from rng.avlinsert_split [OF b o sp, of ?r] obtain t' where
    "avlinsert rangecmp t ?r = Inr (t', None)" "balanced t'"
    "inorder t' = rng.below ?r (inorder t) @ ?r # rng.above ?r (inorder t)"
    by (auto simp: rng.below_def rng.above_def)
  with assms(2,3) sp show ?thesis
    by (intro that [of t' "rng.below ?r (inorder t)" "rng.above ?r (inorder t)"])
      (simp_all add: freerange_def wfrange_def rng.below_def rng.above_def)
qed

lemma freerange_correct:
  assumes "wffree t" "wfrange \<lparr>roff = off, rlen = len\<rparr>" "{off ..< off + len} \<inter> freespace t = {}"
  shows "\<exists>t'. freerange t off len = Inr t' \<and> wffree t' \<and> freespace t' = freespace t \<union> {off ..< off + len}"
proof -
  let ?r = "\<lparr>roff = off, rlen = len\<rparr>"
  have pos: "0 < len" using assms(2) by (simp add: wfrange_def)
  have wf: "wfranges (inorder t)" using assms(1) by (simp add: wffree_def)
  have dis: "roff x + rlen x \<le> off \<or> off + len \<le> roff x" if "x \<in> set (inorder t)" for x
  proof (rule ccontr)
    assume "\<not> ?thesis"
    with that pos wfranges_mem [OF wf that] have "max off (roff x) \<in> {off ..< off + len} \<inter> freespace t"
      by (auto simp: freespace_def space_def extent_def wfrange_def intro!: bexI [of _ x])
    with assms(3) show False by blast
  qed
  have "avllookup rangecmp t ?r 0 = None"
    using dis pos wfranges_mem [OF wf]
    by (fastforce simp: rng.avllookup_correct [OF wfranges_ordered [OF wf]] find_None_iff wfrange_def)
  from freerange_insert [OF assms(1,2) this] obtain t' xs ys where
    t': "freerange t off len = freerange_again (length (inorder t') + 2) t' ?r"
    "balanced t'" "inorder t' = xs @ ?r # ys" and sp: "inorder t = xs @ ys"
    and "\<forall>x \<in> set xs. roff x < off" "\<forall>y \<in> set ys. off < roff y" by blast
  then have "\<forall>x \<in> set xs. roff x + rlen x \<le> off" "\<forall>y \<in> set ys. off + len \<le> roff y"
    using dis pos wfranges_mem [OF wf] by (fastforce simp: wfrange_def)+
  then have "\<exists>t''. freerange_again (Suc (Suc (Suc (length xs + length ys)))) t' ?r = Inr t'' \<and> wffree t'' \<and>
      freespace t'' = space xs \<union> extent ?r \<union> space ys"
    using wf assms(2) by (intro again_total [OF t'(2,3)]) (simp_all add: sp)
  with t' sp show ?thesis by (auto simp: freespace_def extent_def)
qed


lemma freerange_clash:
  assumes "wffree t" "wfrange \<lparr>roff = off, rlen = len\<rparr>" "{off ..< off + len} \<inter> freespace t \<noteq> {}"
  shows "freerange t off len = Inl Panic"
proof (cases "avllookup rangecmp t \<lparr>roff = off, rlen = len\<rparr> 0 = None")
  case False
  with assms(2) show ?thesis by (simp add: freerange_def wfrange_def)
next
  case True
  let ?r = "\<lparr>roff = off, rlen = len\<rparr>"
  have wf: "wfranges (inorder t)" using assms(1) by (simp add: wffree_def)
  from freerange_insert [OF assms(1,2) True] obtain t' xs ys where
    t': "freerange t off len = freerange_again (length (inorder t') + 2) t' ?r"
    "balanced t'" "inorder t' = xs @ ?r # ys" and sp: "inorder t = xs @ ys"
    and lt: "\<forall>x \<in> set xs. roff x < off" "\<forall>y \<in> set ys. off < roff y" by blast
  have ord: "rng.ordered (inorder t')" using wf lt wfranges_ordered [OF wf] by (simp add: t' sp)
  have "freerange_again (Suc (Suc (Suc n))) t' ?r = Inl Panic" for n
  proof (cases "\<exists>x \<in> set xs. off < roff x + rlen x")
    case True
    then obtain us p where xs: "xs = us @ [p]" by (cases xs rule: rev_cases) auto
    with True wf have "off < roff p + rlen p" by (auto simp: sp apart_def wfrange_def)
    with again_clash [OF ord t'(3), of "Suc (Suc n)"] show ?thesis by (simp add: xs)
  next
    case False
    with assms(3) obtain y where "y \<in> set ys" "roff y < off + len"
      by (fastforce simp: sp freespace_def space_def extent_def)
    then obtain q vs where ys: "ys = q # vs" and "roff q < off + len"
      using wf by (cases ys) (auto simp: sp apart_def wfrange_def)
    show ?thesis
    proof (cases "xs \<noteq> [] \<and> roff (last xs) + rlen (last xs) = off")
      case True
      then obtain us p where xs: "xs = us @ [p]" and adj: "roff p + rlen p = off" by (cases xs rule: rev_cases) auto
      from again_prev [OF t'(2) ord, of us p ?r ys "Suc (Suc n)"] adj obtain t'' where
        t'': "freerange_again (Suc (Suc (Suc n))) t' ?r = freerange_again (Suc (Suc n)) t'' (p\<lparr>rlen := rlen p + len\<rparr>)"
        "inorder t'' = us @ p\<lparr>rlen := rlen p + len\<rparr> # ys" by (auto simp: t' xs)
      have "rng.ordered (inorder t'')" "us \<noteq> [] \<longrightarrow> apart (last us) p" using ord wf by (simp_all add: t'' t' sp xs)
      with again_clash [OF _ t''(2), of "Suc n"] t''(1) \<open>roff q < off + len\<close> adj show ?thesis
        by (simp add: ys apart_def)
    next
      case no: False
      have "xs \<noteq> [] \<longrightarrow> apart (last xs) ?r"
        using False no by (metis apart_def last_in_set less_linear select_convs(1))
      with again_clash [OF ord t'(3), of "Suc (Suc n)"] \<open>roff q < off + len\<close> show ?thesis by (simp add: ys)
    qed
  qed
  then show ?thesis using t' by simp
qed


subsection \<open>Taking a range\<close>

text \<open>
  The range found by the lookup is the only one that can hold the first byte asked for, and the
  free space ends where it ends.
\<close>

lemma space_apart:
  assumes "wfranges (xs @ r # ys)"
  shows "space xs \<subseteq> {..< roff r}" and "space ys \<subseteq> {roff r + rlen r <..}"
  using assms by (auto simp: space_def extent_def apart_def wfrange_def dest!: bspec)

lemma grab_inside:
  assumes "wfranges (xs @ r # ys)" "roff r \<le> off" "\<forall>y \<in> set ys. off < roff y" "0 < len"
  shows "{off ..< off + len} \<subseteq> space (xs @ r # ys) \<longleftrightarrow> off + len \<le> roff r + rlen r"
proof
  note ap = space_apart [OF assms(1)]
  assume sub: "{off ..< off + len} \<subseteq> space (xs @ r # ys)"
  show "off + len \<le> roff r + rlen r"
  proof (rule ccontr)
    assume "\<not> ?thesis"
    then have "max off (roff r + rlen r) \<in> {off ..< off + len}" using assms(4) by auto
    with sub have "max off (roff r + rlen r) \<in> space (xs @ r # ys)" by (rule subsetD)
    moreover have "max off (roff r + rlen r) \<notin> space xs" using ap(1) assms(2) by force
    ultimately have "max off (roff r + rlen r) \<in> space ys" by (simp add: extent_def)
    then obtain y where y: "y \<in> set ys" "roff y \<le> max off (roff r + rlen r)"
      by (auto simp: space_def extent_def)
    with assms(3) have "roff y \<le> roff r + rlen r" by force
    with y(1) assms(1) show False by (force simp: apart_def)
  qed
next
  assume "off + len \<le> roff r + rlen r"
  with assms(2) show "{off ..< off + len} \<subseteq> space (xs @ r # ys)" by (auto simp: extent_def)
qed

lemma grabrange_found:
  assumes "wffree t" "inorder t = xs @ r # ys" "wfrange \<lparr>roff = off, rlen = len\<rparr>"
    and "roff r \<le> off" "off + len \<le> roff r + rlen r"
    and "avllookup rangecmp t \<lparr>roff = off, rlen = len\<rparr> (-1) = Some r"
  shows "\<exists>t'. grabrange t off len = Inr t' \<and> wffree t' \<and> freespace t' = freespace t - {off ..< off + len}"
proof -
  have wf: "wfranges (xs @ r # ys)" and bal: "balanced t" using assms(1,2) by (simp_all add: wffree_def)
  have ord: "rng.ordered (inorder t)" using wfranges_ordered [OF wf] by (simp add: assms(2))
  note ap = space_apart [OF wf]
  have len: "0 < len" "len mod Blksz_int = 0" "off mod Blksz_int = 0" using assms(3) by (simp_all add: wfrange_def)
  have r: "wfrange r" using wf by simp
  note upd = rng.avlnode_correct [OF ord assms(2)]
  have sp: "freespace t - {off ..< off + len} = space xs \<union> (extent r - {off ..< off + len}) \<union> space ys"
    using ap assms(4,5) by (fastforce simp: freespace_def assms(2))
  consider (all) "off = roff r" "len = rlen r" | (head) "off = roff r" "len < rlen r"
    | (tail) "off \<noteq> roff r" "off + len = roff r + rlen r" | (mid) "roff r < off" "off + len < roff r + rlen r"
    using assms(4,5) by linarith
  then show ?thesis
  proof cases
    case all
    let ?r = "\<lparr>roff = roff r + len, rlen = 0\<rparr>"
    have "rng.ordered (xs @ ?r # ys)" using ord wf all len by (auto simp: assms(2) apart_def)
    with rng.avldelete_split [of "avlnode rangecmp t r ?r" xs ?r ys] upd [of ?r] bal obtain t' where
      "avldelete rangecmp (avlnode rangecmp t r ?r) ?r = Inr (t', Some ?r)" "balanced t'" "inorder t' = xs @ ys" by auto
    with all len wf assms(6) sp show ?thesis
      by (auto simp: grabrange_def Let_def wffree_def freespace_def extent_def)
  next
    case head
    let ?r = "\<lparr>roff = roff r + len, rlen = rlen r - len\<rparr>"
    have "wfranges (xs @ ?r # ys)" using wf head len by (auto simp: apart_def wfrange_def)
    with head len wf assms(6) sp upd [of ?r] bal show ?thesis
      by (auto simp: grabrange_def Let_def wffree_def freespace_def extent_def)
  next
    case tail
    let ?r = "r\<lparr>rlen := rlen r - len\<rparr>"
    have "wfranges (xs @ ?r # ys)" using wf tail len assms(4) by (auto simp: apart_def wfrange_def)
    with tail len wf assms(4,6) sp upd [of ?r] bal show ?thesis
      by (auto simp: grabrange_def Let_def wffree_def freespace_def extent_def)
  next
    case mid
    let ?r = "r\<lparr>rlen := off - roff r\<rparr>" and ?s = "\<lparr>roff = off + len, rlen = rlen r - (off - roff r) - len\<rparr>"
    have wf': "wfranges (xs @ ?r # ?s # ys)" using wf mid len by (auto simp: apart_def wfrange_def)
    from rng.avlinsert_split [of "avlnode rangecmp t r ?r" "xs @ [?r]" ys ?s] upd [of ?r] bal wfranges_ordered [OF wf']
    obtain t' where "avlinsert rangecmp (avlnode rangecmp t r ?r) ?s = Inr (t', None)" "balanced t'"
      "inorder t' = xs @ ?r # ?s # ys" by auto
    with mid len wf' assms(6) sp show ?thesis
      by (auto simp: grabrange_def Let_def wffree_def freespace_def extent_def)
  qed
qed

lemma grabrange_correct:
  assumes "wffree t" "wfrange \<lparr>roff = off, rlen = len\<rparr>"
  shows "if {off ..< off + len} \<subseteq> freespace t
    then \<exists>t'. grabrange t off len = Inr t' \<and> wffree t' \<and> freespace t' = freespace t - {off ..< off + len}
    else grabrange t off len = Inl Panic"
proof -
  let ?r = "\<lparr>roff = off, rlen = len\<rparr>"
  have wf: "wfranges (inorder t)" using assms(1) by (simp add: wffree_def)
  have len: "0 < len" "len mod Blksz_int = 0" using assms(2) by (simp_all add: wfrange_def)
  show ?thesis
  proof (cases "avllookup rangecmp t ?r (-1)")
    case None
    have "off \<notin> freespace t"
      using rng.avllookup_down_none [OF wfranges_ordered [OF wf] None]
      by (fastforce simp: freespace_def space_def extent_def)
    with len have "\<not> {off ..< off + len} \<subseteq> freespace t" by (metis atLeastLessThan_iff less_add_same_cancel1 order_refl subsetD)
    with None len show ?thesis by (simp add: grabrange_def)
  next
    case (Some r)
    with rng.avllookup_down_split [OF wfranges_ordered [OF wf] Some] obtain xs ys where
      sp: "inorder t = xs @ r # ys" "roff r \<le> off" "\<forall>y \<in> set ys. off < roff y" by auto
    from grab_inside [OF wf [unfolded sp(1)] sp(2,3) len(1)] grabrange_found [OF assms(1) sp(1) assms(2) sp(2) _ Some] len Some
    show ?thesis by (auto simp: freespace_def sp(1) grabrange_def)
  qed
qed


text \<open>A range changed in place, and deleted when nothing of it is left.\<close>

lemma shrink_range:
  assumes "wffree t" "inorder t = xs @ r # ys" "rng.ordered (xs @ r' # ys)"
  shows "\<exists>t'. (if rlen r' = 0 then bindE (avldelete rangecmp (avlnode rangecmp t r r') r') (\<lambda>(t, _). Inr t)
      else Inr (avlnode rangecmp t r r')) = Inr t' \<and> balanced t' \<and>
    inorder t' = (if rlen r' = 0 then xs @ ys else xs @ r' # ys)"
proof -
  from assms(1) have "balanced t" "rng.ordered (inorder t)" by (auto simp: wffree_def wfranges_ordered)
  note upd = rng.avlnode_correct [OF this(2) assms(2), of r'] this
  then have "balanced (avlnode rangecmp t r r')" "rng.ordered (inorder (avlnode rangecmp t r r'))" using assms(3) by simp_all
  from rng.avldelete_split [OF this upd(1)] upd show ?thesis by auto
qed


subsection \<open>The ranges are determined by the free space\<close>

lemma space_lower: "wfranges (x # xs) \<Longrightarrow> v \<in> space (x # xs) \<Longrightarrow> roff x \<le> v"
  using space_apart(2) [of "[]" x xs] by (auto simp: extent_def wfrange_def)

lemma space_first:
  assumes "wfranges (x # xs)" "wfranges (y # ys)" "space (x # xs) = space (y # ys)"
  shows "x = y"
proof -
  have pos: "0 < rlen x" "0 < rlen y" using assms(1,2) by (simp_all add: wfrange_def)
  then have "roff x \<in> space (x # xs)" "roff y \<in> space (y # ys)" by (simp_all add: extent_def)
  with assms space_lower [OF assms(1)] space_lower [OF assms(2)] have off: "roff x = roff y" by (metis order_antisym)
  have nx: "roff x + rlen x \<notin> space (x # xs)" and ny: "roff y + rlen y \<notin> space (y # ys)"
    using space_apart(2) [of "[]" x xs] space_apart(2) [of "[]" y ys] assms(1,2) by (auto simp: extent_def)
  have "rlen x = rlen y"
  proof (rule ccontr)
    assume "rlen x \<noteq> rlen y"
    then consider "roff x + rlen x \<in> extent y" | "roff y + rlen y \<in> extent x"
      using off pos by (cases "rlen x < rlen y") (auto simp: extent_def)
    then show False using nx ny assms(3) by cases auto
  qed
  with off show ?thesis by simp
qed

lemma space_empty: "wfranges xs \<Longrightarrow> space xs = {} \<Longrightarrow> xs = []"
  by (cases xs) (auto simp: extent_def wfrange_def)

lemma wfranges_unique: "wfranges xs \<Longrightarrow> wfranges ys \<Longrightarrow> space xs = space ys \<Longrightarrow> xs = ys"
proof (induction xs arbitrary: ys)
  case Nil
  then show ?case using space_empty [of ys] by simp
next
  case (Cons x xs)
  then have "ys \<noteq> []" using space_empty [of "x # xs"] by fastforce
  then obtain y zs where ys: "ys = y # zs" by (cases ys) auto
  from space_first [OF Cons.prems(1)] Cons.prems(2,3) ys have xy: "y = x" by simp
  have "extent x \<inter> space xs = {}" "extent x \<inter> space zs = {}"
    using space_apart(2) [of "[]" x xs] space_apart(2) [of "[]" x zs] Cons.prems(1,2) by (auto simp: ys xy extent_def)
  with Cons.prems(3) have "space xs = space zs" by (auto simp: ys xy)
  with Cons show ?case by (simp add: ys xy)
qed

section \<open>The theorems\<close>

text \<open>
  C17. The AVL tree behaves as the sorted list of its nodes: on a balanced, ordered tree of ranges
  insertion, deletion and the three kinds of lookup succeed, keep the tree balanced and ordered,
  and do what they do to the sorted list; in particular a rotation never follows a nil pointer.
\<close>

theorem range_tree_ops:
  assumes "balanced t" "sorted_wrt (\<lambda>r s. roff r < roff s) (inorder t)"
  shows "(\<exists>t'. avlinsert rangecmp t r = Inr (t', find (\<lambda>s. roff s = roff r) (inorder t)) \<and> balanced t' \<and>
      inorder t' = filter (\<lambda>s. roff s < roff r) (inorder t) @ r # filter (\<lambda>s. roff r < roff s) (inorder t)) \<and>
    (\<exists>t'. avldelete rangecmp t r = Inr (t', find (\<lambda>s. roff s = roff r) (inorder t)) \<and> balanced t' \<and>
      inorder t' = filter (\<lambda>s. roff s \<noteq> roff r) (inorder t)) \<and>
    avllookup rangecmp t r 0 = find (\<lambda>s. roff s = roff r) (inorder t) \<and>
    avllookup rangecmp t r 1 = find (\<lambda>s. roff r \<le> roff s) (inorder t) \<and>
    avllookup rangecmp t r (-1) = find (\<lambda>s. roff s \<le> roff r) (rev (inorder t))"
proof -
  have o: "rng.ordered (inorder t)" using assms(2) by (simp add: rng.ordered_def)
  have "rng.below r xs @ rng.above r xs = filter (\<lambda>s. roff s \<noteq> roff r) xs" if "rng.ordered xs" for xs
    using that
  proof (induction xs)
    case (Cons x xs)
    then show ?case
    proof (cases "roff x < roff r")
      case False
      with Cons.prems have gt: "\<forall>s \<in> set xs. roff r < roff s" by auto
      then have "rng.below r xs = []" "rng.above r xs = xs" "filter (\<lambda>s. roff s \<noteq> roff r) xs = xs"
        by (auto intro!: rng.below_none rng.above_all filter_True)
      with False show ?thesis by auto
    qed auto
  qed simp
  with rng.avlinsert_correct [OF assms(1) o, of r] rng.avldelete_correct [OF assms(1) o, of r] rng.avllookup_correct [OF o, of r] o
  show ?thesis by (simp add: rng.below_def rng.above_def)
qed

theorem range_tree_ops_witness:
  "let t = Node (Node Nil \<lparr>roff = 0, rlen = 16384\<rparr> 0 Nil) \<lparr>roff = 32768, rlen = 16384\<rparr> (-1) Nil in
   (\<exists>t'. avlinsert rangecmp t \<lparr>roff = 65536, rlen = 32768\<rparr> = Inr (t', None) \<and> balanced t' \<and> length (inorder t') = 3) \<and>
   avllookup rangecmp t \<lparr>roff = 40000, rlen = 0\<rparr> (-1) = Some \<lparr>roff = 32768, rlen = 16384\<rparr>"
  using range_tree_ops [of "Node (Node Nil \<lparr>roff = 0, rlen = 16384\<rparr> 0 Nil) \<lparr>roff = 32768, rlen = 16384\<rparr> (-1) Nil" "\<lparr>roff = 65536, rlen = 32768\<rparr>"]
    range_tree_ops [of "Node (Node Nil \<lparr>roff = 0, rlen = 16384\<rparr> 0 Nil) \<lparr>roff = 32768, rlen = 16384\<rparr> (-1) Nil" "\<lparr>roff = 40000, rlen = 0\<rparr>"]
  by (auto simp: Let_def)





text \<open>
  The loop \<open>for(r = avlmin(t); r != nil; r = avlnext(r))\<close>; \<open>n\<close> bounds the number of rounds.
\<close>

fun rangewalk :: "nat \<Rightarrow> Arange avl \<Rightarrow> Arange option \<Rightarrow> Arange list" where
  "rangewalk n t None = []"
| "rangewalk 0 t (Some r) = []"
| "rangewalk (Suc n) t (Some r) = r # rangewalk n t (avlnext rangecmp t r)"

lemma rangewalk_from:
  "rng.ordered (inorder t) \<Longrightarrow> inorder t = xs @ ys \<Longrightarrow> length ys \<le> n \<Longrightarrow>
   rangewalk n t (if ys = [] then None else Some (hd ys)) = ys"
proof (induction ys arbitrary: xs n)
  case (Cons y ys)
  then obtain m where n: "n = Suc m" by (cases n) auto
  from rng.avlstep_correct(2) [OF Cons.prems(1,2)] have "avlnext rangecmp t y = (if ys = [] then None else Some (hd ys))" .
  moreover have "rangewalk m t (if ys = [] then None else Some (hd ys)) = ys"
    using Cons.prems by (intro Cons.IH [of "xs @ [y]"]) (simp_all add: n)
  ultimately show ?case by (simp add: n)
qed simp

lemma rangewalk_all: "wffree t \<Longrightarrow> length (inorder t) \<le> n \<Longrightarrow> rangewalk n t (avlmin t) = inorder t"
  using rangewalk_from [of t "[]" "inorder t" n]
  by (cases "t = Nil") (auto simp: wffree_def wfranges_ordered bottom_correct)



end
