(* ===== verification/Gefs_Log.thy ===== *)
theory Gefs_Log
  imports Gefs_Alloc
begin

text \<open>
  \<open>sys/src/9/gefs/blk.c\<close>, the arenas: block allocation and the allocation log.

  An arena's free tree lives in memory only.  Each change of it is appended to a log, a chain
  of blocks from \<open>loghd\<close> to \<open>logtl\<close>; \<open>loadlog\<close> builds the tree again from the log,
  \<open>compresslog\<close> writes a new log from the tree, and \<open>logbarrier\<close> marks the end of what a sync
  covers.  The tail of the log is in one of two buffers, \<open>logbuf\<close>, and \<open>logtl\<close> says which one.

  \<open>Dev\<close> is the part of the file system around the arena: the blocks on the disk, the addresses
  that the block cache holds, the generation \<open>qgen\<close> and \<open>rdonly\<close>.  Whether the caller may use the
  reserve (\<open>usereserve\<close>, the syncing process and the sweeper) is the argument \<open>priv\<close>.
\<close>

abbreviation (input) LogAlloc1 :: nat where "LogAlloc1 \<equiv> 1"
abbreviation (input) LogFree1 :: nat where "LogFree1 \<equiv> 2"
abbreviation (input) LogSync :: nat where "LogSync \<equiv> 3"
abbreviation (input) LogAlloc :: nat where "LogAlloc \<equiv> 4"
abbreviation (input) LogFree :: nat where "LogFree \<equiv> 5"
abbreviation (input) Log2wide :: nat where "Log2wide \<equiv> 4"
abbreviation (input) Logslop :: nat where "Logslop \<equiv> 40"

abbreviation (input) Efull :: fault where "Efull \<equiv> Err ''file system full''"

record Arena =
  free :: "Arange avl"
  arsize :: int
  used :: int
  reserve :: int
  h0 :: int
  logbuf :: "Blk list"
  logtl :: "nat option"
  loghd :: Bptr
  nlog :: int
  lastlogsz :: int

record Dev =
  disk :: "u64 \<rightharpoonup> bytes"
  cached :: "u64 set"
  qgen :: int
  rdonly :: bool

section \<open>Allocation without the log\<close>

definition blkalloc_lk :: "bool \<Rightarrow> Arena \<Rightarrow> bool \<Rightarrow> (Arena \<times> int) res" where
  "blkalloc_lk priv a seq =
     (let r = (if seq then avlmin (free a) else avlmax (free a)) in
      if \<not> priv \<and> arsize a - used a \<le> reserve a then Inr (a, -1)
      else case r of None \<Rightarrow> Inr (a, -1)
      | Some r \<Rightarrow>
        let r' = (if seq then \<lparr>roff = roff r + Blksz_int, rlen = rlen r - Blksz_int\<rparr>
                  else r\<lparr>rlen := rlen r - Blksz_int\<rparr>);
            b = (if seq then roff r else roff r' + rlen r');
            t = avlnode rangecmp (free a) r r'
        in bindE (if rlen r' = 0 then bindE (avldelete rangecmp t r') (\<lambda>(t, _). Inr t) else Inr t) (\<lambda>t.
           Inr (a\<lparr>free := t, used := used a + Blksz_int\<rparr>, b)))"

text \<open>A block handed out comes from the low end of the free space (\<open>seq\<close>) or from its high end.\<close>

lemma blkalloc_lk_correct:
  assumes "wffree (free a)"
  shows "if (\<not> priv \<and> arsize a - used a \<le> reserve a) \<or> free a = Nil then blkalloc_lk priv a seq = Inr (a, -1)
    else \<exists>t b. blkalloc_lk priv a seq = Inr (a\<lparr>free := t, used := used a + Blksz_int\<rparr>, b) \<and> wffree t \<and>
      b mod Blksz_int = 0 \<and> {b ..< b + Blksz_int} \<subseteq> freespace (free a) \<and>
      freespace t = freespace (free a) - {b ..< b + Blksz_int} \<and>
      (if seq then \<forall>x \<in> freespace (free a). b \<le> x else \<forall>x \<in> freespace (free a). x < b + Blksz_int)"
proof (cases "(\<not> priv \<and> arsize a - used a \<le> reserve a) \<or> free a = Nil")
  case True
  then show ?thesis by (auto simp: blkalloc_lk_def bottom_correct)
next
  case False
  have wf: "wfranges (inorder (free a))" using assms by (simp add: wffree_def)
  show ?thesis
  proof (cases seq)
    case True
    from False obtain r ys where sp: "inorder (free a) = [] @ r # ys" by (cases "inorder (free a)") auto
    let ?r = "\<lparr>roff = roff r + Blksz_int, rlen = rlen r - Blksz_int\<rparr>"
    have r: "wfrange r" "\<forall>y \<in> set ys. apart r y" "wfranges ys" using wf by (simp_all add: sp)
    then have big: "Blksz_int \<le> rlen r" by (auto simp: wfrange_def elim!: dvdE)
    have "rng.ordered ([] @ ?r # ys)" using r big wfranges_ordered [OF r(3)] by (auto simp: apart_def)
    from shrink_range [OF assms sp this] obtain t where
      t: "(if rlen ?r = 0 then bindE (avldelete rangecmp (avlnode rangecmp (free a) r ?r) ?r) (\<lambda>(t, _). Inr t)
        else Inr (avlnode rangecmp (free a) r ?r)) = Inr t" "balanced t"
      "inorder t = (if rlen ?r = 0 then [] @ ys else [] @ ?r # ys)" by blast
    have al: "blkalloc_lk priv a seq = Inr (a\<lparr>free := t, used := used a + Blksz_int\<rparr>, roff r)"
      using False True t(1) sp by (auto simp: blkalloc_lk_def bottom_correct Let_def)
    have "wfranges (inorder t)" using r big t(3) by (auto simp: apart_def wfrange_def)
    moreover have "freespace t = freespace (free a) - {roff r ..< roff r + Blksz_int}"
      using r big t(3) space_apart(2) [of "[]" r ys] wf by (auto simp: freespace_def sp extent_def)
    moreover have "\<forall>x \<in> freespace (free a). roff r \<le> x"
      using space_apart(2) [of "[]" r ys] wf by (auto simp: freespace_def sp extent_def wfrange_def)
    ultimately show ?thesis using False True al t(2) big r(1)
      by (auto simp: wffree_def freespace_def sp extent_def wfrange_def)
  next
    case notseq: False
    from False obtain r xs where sp: "inorder (free a) = xs @ r # []" by (cases "inorder (free a)" rule: rev_cases) auto
    let ?r = "r\<lparr>rlen := rlen r - Blksz_int\<rparr>"
    have r: "wfrange r" "\<forall>x \<in> set xs. apart x r" "wfranges xs" using wf by (simp_all add: sp)
    then have big: "Blksz_int \<le> rlen r" by (auto simp: wfrange_def elim!: dvdE)
    have "rng.ordered (xs @ ?r # [])" using wfranges_ordered [OF wf] by (simp add: sp)
    from shrink_range [OF assms sp this] obtain t where
      t: "(if rlen ?r = 0 then bindE (avldelete rangecmp (avlnode rangecmp (free a) r ?r) ?r) (\<lambda>(t, _). Inr t)
        else Inr (avlnode rangecmp (free a) r ?r)) = Inr t" "balanced t"
      "inorder t = (if rlen ?r = 0 then xs @ [] else xs @ ?r # [])" by blast
    let ?b = "roff r + rlen r - Blksz_int"
    have al: "blkalloc_lk priv a seq = Inr (a\<lparr>free := t, used := used a + Blksz_int\<rparr>, ?b)"
      using False notseq t(1) sp by (auto simp: blkalloc_lk_def bottom_correct Let_def)
    have "wfranges (inorder t)" using r big t(3) by (auto simp: apart_def wfrange_def)
    moreover have "freespace t = freespace (free a) - {?b ..< ?b + Blksz_int}"
      using r big t(3) space_apart(1) [of xs r "[]"] wf by (auto simp: freespace_def sp extent_def)
    moreover have "\<forall>x \<in> freespace (free a). x < ?b + Blksz_int"
      using space_apart(1) [of xs r "[]"] wf by (auto simp: freespace_def sp extent_def wfrange_def)
    ultimately show ?thesis using False notseq al t(2) big r(1)
      by (auto simp: wffree_def freespace_def sp extent_def wfrange_def)
  qed
qed

section \<open>Log blocks\<close>

definition holdblk :: "Blk \<Rightarrow> Blk" where
  "holdblk b = b\<lparr>bref := bref b + 1\<rparr>"

text \<open>The references of the log's buffers never reach zero, so \<open>dropblk\<close> only counts.\<close>

definition dropblk :: "Blk \<Rightarrow> Blk" where
  "dropblk b = b\<lparr>bref := bref b - 1\<rparr>"

definition syncblk :: "Dev \<Rightarrow> Blk \<Rightarrow> (Dev \<times> Blk) res" where
  "syncblk w b =
     assertE (checkflag b Bfinal 0)
     (assertE (sint (baddr (bbp b)) \<ge> 0)
      (Inr (w\<lparr>disk := (disk w)(baddr (bbp b) \<mapsto> bbuf b)\<rparr>, setflag b 0 Bdirty)))"

definition mklogblk :: "Dev \<Rightarrow> Arena \<Rightarrow> int \<Rightarrow> (Arena \<times> nat) res" where
  "mklogblk w a ob =
     (let i = (if logtl a = Some 0 then 1 else 0); lb = logbuf a ! i in
      assertE (bref lb = 1)
      (bindE (initblk (\<lambda>x. x \<in> cached w) (lb\<lparr>bflag := Bstatic\<rparr>) (of_int ob) (-1) Tlog) (\<lambda>lb.
       Inr (a\<lparr>logbuf := (logbuf a)[i := holdblk lb]\<rparr>, i))))"

text \<open>A store of \<open>bs\<close> at \<open>lb->data + lb->logsz\<close>, and \<open>logsz\<close> moved past it.\<close>

definition logput :: "bytes \<Rightarrow> Blk \<Rightarrow> Blk res" where
  "logput bs b = (if 0 \<le> logsz b \<and> bdata b + nat (logsz b) + length bs \<le> length (bbuf b)
     then Inr (b\<lparr>bbuf := put (bdata b + nat (logsz b)) bs (bbuf b), logsz := logsz b + int (length bs)\<rparr>)
     else Inl Wild)"

text \<open>The write-back of the log's buffer \<open>i\<close>.\<close>

definition synclog :: "Dev \<Rightarrow> Arena \<Rightarrow> nat \<Rightarrow> (Dev \<times> Arena) res" where
  "synclog w a i =
     bindE (finalize (logbuf a ! i)) (\<lambda>b.
     bindE (syncblk w b) (\<lambda>(w, b). Inr (w, a\<lparr>logbuf := (logbuf a)[i := b]\<rparr>)))"

text \<open>
  The first half of \<open>logappend\<close>: the assertions, and a new block when the tail is nearly full.
  The result is the buffer to append to.
\<close>

definition logroom :: "bool \<Rightarrow> Dev \<Rightarrow> Arena \<Rightarrow> nat \<Rightarrow> (Arena \<times> nat) res" where
  "logroom priv w a lt =
     (let lb = logbuf a ! lt;
          lb = (if checkflag lb 0 Bdirty then setflag lb Bdirty Bfinal else lb);
          a = a\<lparr>logbuf := (logbuf a)[lt := lb]\<rparr> in
      if logsz lb \<ge> int (Logspc - Logslop) then
        bindE (blkalloc_lk priv a False) (\<lambda>(a, ob).
        if ob = -1 then Inl Efull
        else bindE (logput (PACK64 (of_int ob OR of_nat LogAlloc1)) lb) (\<lambda>lb.
          let lb = lb\<lparr>logp := \<lparr>baddr = of_int ob, bhash = -1, bgen = -1\<rparr>\<rparr>
          in mklogblk w (a\<lparr>logbuf := (logbuf a)[lt := lb]\<rparr>) ob))
      else Inr (a, lt))"

definition logappend :: "bool \<Rightarrow> Dev \<Rightarrow> Arena \<Rightarrow> int \<Rightarrow> int \<Rightarrow> nat \<Rightarrow> (Dev \<times> Arena) res" where
  "logappend priv w a off len op =
     assertE (off mod 256 = 0)
     (assertE (op = LogAlloc \<or> op = LogFree \<or> op = LogSync)
     (assertE (op \<noteq> LogSync \<longrightarrow> h0 a \<le> off \<and> off < h0 a + arsize a + 2 * Blksz_int)
     (case logtl a of None \<Rightarrow> Inl Wild | Some lt \<Rightarrow>
      assertE (bref (logbuf a ! lt) > 0 \<and> btype (logbuf a ! lt) = Tlog \<and> logsz (logbuf a ! lt) \<ge> 0)
      (bindE (logroom priv w a lt) (\<lambda>(a, i).
       let op = (if len = Blksz_int
                 then (if op = LogAlloc then LogAlloc1 else if op = LogFree then LogFree1 else op) else op);
           off = of_int off OR of_nat op :: u64
       in bindE (logput (PACK64 off) (logbuf a ! i)) (\<lambda>lb.
          bindE (if op \<ge> Log2wide then logput (PACK64 (of_int len)) lb else Inr lb) (\<lambda>lb.
          let a = a\<lparr>logbuf := (logbuf a)[i := lb]\<rparr> in
          if i \<noteq> lt then
            bindE (synclog w a i) (\<lambda>(w, a).
            bindE (synclog w a lt) (\<lambda>(w, a).
            Inr (w, a\<lparr>logbuf := (logbuf a)[lt := dropblk (logbuf a ! lt)], logtl := Some i, nlog := nlog a + 1\<rparr>)))
          else Inr (w, a))))))))"

definition flushlog :: "Dev \<Rightarrow> Arena \<Rightarrow> (Dev \<times> Arena) res" where
  "flushlog w a = (case logtl a of None \<Rightarrow> Inl Wild | Some lt \<Rightarrow>
     if checkflag (logbuf a ! lt) 0 (Bdirty OR Bstatic) then Inr (w, a) else synclog w a lt)"

definition logbarrier :: "bool \<Rightarrow> Dev \<Rightarrow> Arena \<Rightarrow> int \<Rightarrow> (Dev \<times> Arena) res" where
  "logbarrier priv w a gen = logappend priv w a (gen * 256) 0 LogSync"

definition blkdealloc_lk :: "bool \<Rightarrow> Dev \<Rightarrow> Arena \<Rightarrow> int \<Rightarrow> (Dev \<times> Arena) res" where
  "blkdealloc_lk priv w a b =
     bindE (logappend priv (w\<lparr>cached := cached w - {of_int b}\<rparr>) a b Blksz_int LogFree) (\<lambda>(w, a).
     bindE (freerange (free a) b Blksz_int) (\<lambda>t.
     Inr (w, a\<lparr>free := t, used := used a - Blksz_int\<rparr>)))"

text \<open>
  One round of \<open>blkalloc\<close>, in the arena that was picked and locked: data stops at twice the
  reserve, and every arena keeps \<open>Logfloor\<close> blocks for its own log.  \<open>ur\<close> is \<open>usereserve\<close>.
\<close>

abbreviation (input) Logfloor :: int where "Logfloor \<equiv> 8"

definition arenaalloc :: "bool \<Rightarrow> bool \<Rightarrow> Dev \<Rightarrow> Arena \<Rightarrow> int \<Rightarrow> bool \<Rightarrow> (Dev \<times> Arena \<times> int) res" where
  "arenaalloc priv ur w a ty seq =
     bindE (if ty = Tdat \<and> \<not> ur \<and> arsize a - used a \<le> 2 * reserve a then Inr (a, -1)
            else if arsize a - used a \<le> Logfloor * Blksz_int then Inr (a, -1)
            else blkalloc_lk priv a seq) (\<lambda>(a, b).
     if b = -1 then Inr (w, a, -1)
     else bindE (logappend priv w a b Blksz_int LogAlloc) (\<lambda>(w, a). Inr (w, a, b)))"

text \<open>
  \<open>compresslog\<close>: enough blocks for the ranges are allocated first, then the ranges of the tree
  are written to a new log, and the blocks left over are freed (through the new log).
\<close>

fun allocn :: "bool \<Rightarrow> nat \<Rightarrow> Arena \<Rightarrow> (Arena \<times> int list) res" where
  "allocn priv 0 a = Inr (a, [])"
| "allocn priv (Suc n) a =
     bindE (blkalloc_lk priv a True) (\<lambda>(a, b).
     if b = -1 then Inl Efull
     else bindE (allocn priv n a) (\<lambda>(a, bs). Inr (a, b # bs)))"

text \<open>
  The loop over the ranges of the tree, with the buffer being filled and the blocks not yet used.
\<close>

fun writeranges :: "Dev \<Rightarrow> Arena \<Rightarrow> nat \<Rightarrow> int \<Rightarrow> int list \<Rightarrow> Arange list \<Rightarrow> (Dev \<times> Arena \<times> nat \<times> int \<times> int list) res" where
  "writeranges w a i nl bs [] = Inr (w, a, i, nl, bs)"
| "writeranges w a i nl bs (r # rs) =
     bindE
      (if logsz (logbuf a ! i) \<ge> int (Logspc - Logslop) then
         case bs of [] \<Rightarrow> Inl Wild
         | b # bs' \<Rightarrow>
           let a = a\<lparr>logbuf := (logbuf a)[i := (logbuf a ! i)\<lparr>logp := \<lparr>baddr = of_int b, bhash = -1, bgen = -1\<rparr>\<rparr>]\<rparr>
           in bindE (synclog w a i) (\<lambda>(w, a).
              let a = a\<lparr>logbuf := (logbuf a)[i := dropblk (logbuf a ! i)]\<rparr>
              in bindE (mklogblk w a b) (\<lambda>(a, i). Inr (w, a, i, nl + 1, bs')))
       else Inr (w, a, i, nl, bs)) (\<lambda>(w, a, i, nl, bs).
     bindE (logput (PACK64 (of_int (roff r) OR of_nat LogFree) @ PACK64 (of_int (rlen r))) (logbuf a ! i)) (\<lambda>lb.
     writeranges w (a\<lparr>logbuf := (logbuf a)[i := lb]\<rparr>) i nl bs rs))"

fun deallocs :: "bool \<Rightarrow> Dev \<Rightarrow> Arena \<Rightarrow> int list \<Rightarrow> (Dev \<times> Arena) res" where
  "deallocs priv w a [] = Inr (w, a)"
| "deallocs priv w a (b # bs) = bindE (blkdealloc_lk priv w a b) (\<lambda>(w, a). deallocs priv w a bs)"

definition lognblks :: "nat \<Rightarrow> nat" where
  "lognblks nr = (16 * nr + Logspc) div (Logspc - Logslop) + 16 * nr div (Logspc - Logslop) + 1"

definition compresslog :: "bool \<Rightarrow> Dev \<Rightarrow> Arena \<Rightarrow> (Dev \<times> Arena) res" where
  "compresslog priv w a =
     bindE (flushlog w a) (\<lambda>(w, a).
     bindE (allocn priv (lognblks (length (rangewalk (length (inorder (free a))) (free a) (avlmin (free a))))) a) (\<lambda>(a, blks).
     bindE (mklogblk w a (hd blks)) (\<lambda>(a, i).
     bindE (writeranges w a i 0 (tl blks) (rangewalk (length (inorder (free a))) (free a) (avlmin (free a)))) (\<lambda>(w, a, i, nl, bs).
     bindE (synclog w a i) (\<lambda>(w, a).
     case logtl a of None \<Rightarrow> Inl Wild | Some lt \<Rightarrow>
     deallocs priv w (a\<lparr>logbuf := (logbuf a)[lt := dropblk (logbuf a ! lt)],
         loghd := \<lparr>baddr = of_int (hd blks), bhash = -1, bgen = -1\<rparr>,
         logtl := Some i, nlog := nl, lastlogsz := nl\<rparr>) bs)))))"

section \<open>Loading the log\<close>

definition devread :: "Dev \<Rightarrow> nat \<Rightarrow> nat \<Rightarrow> bytes" where
  "devread w off n = (case disk w (of_nat off) of None \<Rightarrow> [] | Some bs \<Rightarrow> take n bs)"

text \<open>
  The entries of one block from offset \<open>i\<close> on.  The flag tells that a barrier at \<open>i\<close> ends the
  replay.  Each entry has 8 or 16 bytes, so the length of the log bounds the number of rounds.
\<close>

fun replay :: "nat \<Rightarrow> Dev \<Rightarrow> Arena \<Rightarrow> Blk \<Rightarrow> nat \<Rightarrow> (Arena \<times> nat option) res" where
  "replay 0 w a b i = Inr (a, None)"
| "replay (Suc n) w a b i =
     (if int i < logsz b then
        let d = drop (bdata b + i) (bbuf b) in
        needE 8 d
        (let ent = UNPACK64 d;
             op = unat (ent AND 0xff);
             off = sint (ent AND NOT 0xff);
             k = (if op \<ge> Log2wide then 16 else 8)
         in if op = LogSync then
              let gen = sint ent div 256 in
              if gen \<ge> qgen w then Inr (a, Some i) else replay n w a b (i + k)
            else if op = LogAlloc \<or> op = LogAlloc1 then
              needE k d
              (let len = (if op \<ge> Log2wide then sint (UNPACK64 (drop 8 d)) else Blksz_int) in
               bindE (grabrange (free a) off len) (\<lambda>t.
               replay n w (a\<lparr>free := t, used := used a + len\<rparr>) b (i + k)))
            else if op = LogFree \<or> op = LogFree1 then
              needE k d
              (let len = (if op \<ge> Log2wide then sint (UNPACK64 (drop 8 d)) else Blksz_int) in
               bindE (freerange (free a) off len) (\<lambda>t.
               replay n w (a\<lparr>free := t, used := used a - len\<rparr>) b (i + k)))
            else Inl Panic)
      else Inr (a, None))"

text \<open>
  \<open>loadlog\<close>: the blocks of the chain from \<open>bp\<close>.  A chain that comes back to one of its blocks
  would be followed for ever: \<open>n\<close> bounds the number of blocks, and running out of it is \<open>Wild\<close>.
\<close>

fun loadlog :: "nat \<Rightarrow> Dev \<Rightarrow> Arena \<Rightarrow> Bptr \<Rightarrow> (Dev \<times> Arena) res" where
  "loadlog 0 w a bp = Inl Wild"
| "loadlog (Suc n) w a bp =
     assertE (checkflag (logbuf a ! 0) Bstatic Bcached)
     (bindE (readblk (devread w) (holdblk (logbuf a ! 0)) bp 0) (\<lambda>b.
      let a = a\<lparr>nlog := nlog a + 1\<rparr> in
      bindE (replay (nat (logsz b)) w a b 0) (\<lambda>(a, stop).
      case stop of
        Some i \<Rightarrow>
          if logtl a = None then
            let b = b\<lparr>logp := Zb, logsz := int i\<rparr>;
                w = w\<lparr>cached := cached w - {baddr (bbp b)}\<rparr>;
                b = setflag b Bdirty 0;
                a = a\<lparr>logbuf := (logbuf a)[0 := b], logtl := Some 0\<rparr>
            in if rdonly w then Inr (w, a) else synclog w a 0
          else Inr (w, a\<lparr>logbuf := (logbuf a)[0 := dropblk b]\<rparr>)
      | None \<Rightarrow>
          if baddr (logp b) = -1 then Inr (w, a\<lparr>logbuf := (logbuf a)[0 := b], logtl := Some 0\<rparr>)
          else loadlog n w (a\<lparr>logbuf := (logbuf a)[0 := dropblk b]\<rparr>) (logp b))))"

end
