(* ===== verification/Gefs_Recovery.thy ===== *)
theory Gefs_Recovery
  imports Gefs_Log "HOL-Library.Sublist"
begin

text \<open>
  What the allocation log of \<open>Gefs_Log\<close> is for: the free space of an arena is what its log says,
  in memory and on the disk, and after a crash \<open>loadlog\<close> gives back the free space at the last
  barrier.  The log is abstracted to a list of entries, and the entries to what they do to the
  set of free addresses.
\<close>

section \<open>The log as a list of entries\<close>

datatype Logent = LAlloc int int | LFree int int | LSync int

text \<open>
  The encodings of an entry: a single block may be written in the short form, and \<open>compresslog\<close>
  writes every range in the long one.
\<close>

fun entenc :: "Logent \<Rightarrow> bytes \<Rightarrow> bool" where
  "entenc (LAlloc off len) bs \<longleftrightarrow>
     len = Blksz_int \<and> bs = PACK64 (of_int off OR 1) \<or> bs = PACK64 (of_int off OR 4) @ PACK64 (of_int len)"
| "entenc (LFree off len) bs \<longleftrightarrow>
     len = Blksz_int \<and> bs = PACK64 (of_int off OR 2) \<or> bs = PACK64 (of_int off OR 5) @ PACK64 (of_int len)"
| "entenc (LSync gen) bs \<longleftrightarrow> bs = PACK64 (of_int (gen * 256) OR 3)"

fun wfent :: "Logent \<Rightarrow> bool" where
  "wfent (LAlloc off len) \<longleftrightarrow> 0 \<le> off \<and> 0 < len \<and> off + len < 2 ^ 63 \<and> off mod Blksz_int = 0 \<and> len mod Blksz_int = 0"
| "wfent (LFree off len) \<longleftrightarrow> 0 \<le> off \<and> 0 < len \<and> off + len < 2 ^ 63 \<and> off mod Blksz_int = 0 \<and> len mod Blksz_int = 0"
| "wfent (LSync gen) \<longleftrightarrow> 0 \<le> gen \<and> gen < 2 ^ 55"

fun logenc :: "Logent list \<Rightarrow> bytes \<Rightarrow> bool" where
  "logenc [] bs \<longleftrightarrow> bs = []"
| "logenc (e # es) bs \<longleftrightarrow> (\<exists>b1 b2. bs = b1 @ b2 \<and> wfent e \<and> entenc e b1 \<and> logenc es b2)"

lemma logenc_append: "logenc es bs \<Longrightarrow> logenc es' bs' \<Longrightarrow> logenc (es @ es') (bs @ bs')"
  by (induction es arbitrary: bs) (auto, metis append.assoc)

lemma logenc_appendE: "logenc (es @ es') bs \<Longrightarrow> \<exists>b1 b2. bs = b1 @ b2 \<and> logenc es b1 \<and> logenc es' b2"
  by (induction es arbitrary: bs) (auto, metis append.assoc)

text \<open>What the entries do to the free space and the used count; \<open>None\<close> where the code would abort.\<close>

fun apply_ent :: "Logent \<Rightarrow> int set \<times> int \<Rightarrow> (int set \<times> int) option" where
  "apply_ent (LAlloc off len) (S, u) =
     (if {off ..< off + len} \<subseteq> S then Some (S - {off ..< off + len}, u + len) else None)"
| "apply_ent (LFree off len) (S, u) =
     (if {off ..< off + len} \<inter> S = {} then Some (S \<union> {off ..< off + len}, u - len) else None)"
| "apply_ent (LSync gen) su = Some su"

fun run :: "Logent list \<Rightarrow> int set \<times> int \<Rightarrow> (int set \<times> int) option" where
  "run [] su = Some su"
| "run (e # es) su = (case apply_ent e su of None \<Rightarrow> None | Some su \<Rightarrow> run es su)"

lemma run_append: "run (es @ es') su = (case run es su of None \<Rightarrow> None | Some su \<Rightarrow> run es' su)"
  by (induction es arbitrary: su) (auto split: option.splits)

fun barrier :: "int \<Rightarrow> Logent \<Rightarrow> bool" where
  "barrier q (LSync gen) \<longleftrightarrow> gen \<ge> q"
| "barrier q _ \<longleftrightarrow> False"

text \<open>The entries before the first barrier of generation \<open>q\<close> or later.\<close>

definition upto :: "int \<Rightarrow> Logent list \<Rightarrow> Logent list" where
  "upto q = takeWhile (\<lambda>e. \<not> barrier q e)"

subsection \<open>Replaying one entry\<close>

lemma ent_small: "take_bit 8 (1 :: u64) = 1" "take_bit 8 (2 :: u64) = 2" "take_bit 8 (3 :: u64) = 3"
  "take_bit 8 (4 :: u64) = 4" "take_bit 8 (5 :: u64) = 5"
  by (simp_all add: take_bit_eq_mask mask8 [symmetric])

lemma block_mod256: "x mod Blksz_int = 0 \<Longrightarrow> x mod 256 = 0"
  using dvd_trans [of 256 Blksz_int x] by (simp add: mod_eq_0_iff_dvd)

lemma entenc_length: "entenc e bs \<Longrightarrow> 8 \<le> length bs"
  by (cases e) auto

lemma wfent_range:
  "wfent (LAlloc off len) \<Longrightarrow> wfrange \<lparr>roff = off, rlen = len\<rparr>"
  "wfent (LFree off len) \<Longrightarrow> wfrange \<lparr>roff = off, rlen = len\<rparr>"
  by (auto simp: wfrange_def)

lemma replay_ent:
  assumes "bdata b = 36" "drop (36 + i) (bbuf b) = bs @ r" "int i < logsz b" "wfent e" "entenc e bs" "wffree (free a)"
  shows "if barrier (qgen w) e then replay (Suc n) w a b i = Inr (a, Some i)
    else \<forall>S u. apply_ent e (freespace (free a), used a) = Some (S, u) \<longrightarrow>
      (\<exists>t. replay (Suc n) w a b i = replay n w (a\<lparr>free := t, used := u\<rparr>) b (i + length bs) \<and> wffree t \<and> freespace t = S)"
proof (cases e)
  case (LAlloc off len)
  then have off: "off mod 256 = 0" "sint (of_int off :: u64) = off" "sint (of_int len :: u64) = len"
    using assms(4) by (auto intro!: block_mod256 sint_small)
  have op: "unat ((of_int off OR 1 :: u64) AND 0xff) = 1" "unat ((of_int off OR 4 :: u64) AND 0xff) = 4"
    by (simp_all add: join8 [OF off(1)] ent_small)
  have hi: "(of_int off OR 1 :: u64) AND NOT 0xff = of_int off" "(of_int off OR 4 :: u64) AND NOT 0xff = of_int off"
    by (simp_all only: join8 [OF off(1)] ent_small)
  note grab = grabrange_correct [OF assms(6) wfent_range(1)]
  from assms(5) consider "len = Blksz_int" "bs = PACK64 (of_int off OR 1)" | "bs = PACK64 (of_int off OR 4) @ PACK64 (of_int len)"
    by (auto simp: LAlloc)
  then show ?thesis
  proof cases
    case 1
    with grab [of off len] assms op hi off show ?thesis
      by (auto simp: LAlloc Let_def needE_def split: if_splits)
  next
    case 2
    with grab [of off len] assms op hi off show ?thesis
      by (auto simp: LAlloc Let_def needE_def split: if_splits)
  qed
next
  case (LFree off len)
  then have off: "off mod 256 = 0" "sint (of_int off :: u64) = off" "sint (of_int len :: u64) = len"
    using assms(4) by (auto intro!: block_mod256 sint_small)
  have op: "unat ((of_int off OR 2 :: u64) AND 0xff) = 2" "unat ((of_int off OR 5 :: u64) AND 0xff) = 5"
    by (simp_all add: join8 [OF off(1)] ent_small)
  have hi: "(of_int off OR 2 :: u64) AND NOT 0xff = of_int off" "(of_int off OR 5 :: u64) AND NOT 0xff = of_int off"
    by (simp_all only: join8 [OF off(1)] ent_small)
  note fr = freerange_correct [OF assms(6) wfent_range(2)]
  from assms(5) consider "len = Blksz_int" "bs = PACK64 (of_int off OR 2)" | "bs = PACK64 (of_int off OR 5) @ PACK64 (of_int len)"
    by (auto simp: LFree)
  then show ?thesis
  proof cases
    case 1
    with fr [of off len] assms op hi off show ?thesis
      by (auto simp: LFree Let_def needE_def split: if_splits) blast
  next
    case 2
    with fr [of off len] assms op hi off show ?thesis
      by (auto simp: LFree Let_def needE_def split: if_splits) blast
  qed
next
  case (LSync gen)
  have "unat ((of_int (gen * 256) OR 3 :: u64) AND 0xff) = 3"
    by (subst join8) (simp_all add: ent_small)
  moreover have "sint (of_int (gen * 256) OR 3 :: u64) div 256 = gen" using assms(4) by (intro sint_or_div) (auto simp: LSync)
  ultimately show ?thesis using assms by (auto simp: LSync Let_def needE_def intro!: exI [of _ "free a"])
qed


subsection \<open>Replaying a block\<close>

lemma upto_simps [simp]:
  "upto q [] = []" "upto q (e # es) = (if barrier q e then [] else e # upto q es)"
  by (simp_all add: upto_def)

lemma replay_block:
  assumes "bdata b = 36"
  shows "logenc es bs \<Longrightarrow> drop (36 + i) (bbuf b) = bs @ r \<Longrightarrow> logsz b = int (i + length bs) \<Longrightarrow> length bs \<le> n \<Longrightarrow>
    wffree (free a) \<Longrightarrow> run (upto (qgen w) es) (freespace (free a), used a) = Some (S, u) \<Longrightarrow>
    \<exists>t k. replay n w a b i = Inr (a\<lparr>free := t, used := u\<rparr>, if upto (qgen w) es = es then None else Some (i + k)) \<and>
      wffree t \<and> freespace t = S \<and> k \<le> length bs \<and> (upto (qgen w) es \<noteq> es \<longrightarrow> k + 8 \<le> length bs) \<and>
      logenc (upto (qgen w) es) (take k bs)"
proof (induction es arbitrary: bs i n a)
  case Nil
  then have "replay n w a b i = Inr (a, None)" by (cases n) auto
  moreover have "a = a\<lparr>free := free a, used := used a\<rparr>" by simp
  ultimately show ?case using Nil by (intro exI [of _ "free a"] exI [of _ 0]) auto
next
  case (Cons e es)
  from Cons.prems(1) obtain b1 b2 where bs: "bs = b1 @ b2" and e: "wfent e" "entenc e b1" and es: "logenc es b2" by auto
  have l1: "8 \<le> length b1" using e(2) by (rule entenc_length)
  then obtain m where n: "n = Suc m" using Cons.prems(4) bs by (cases n) auto
  have lt: "int i < logsz b" using Cons.prems(3) l1 bs by simp
  have dr: "drop (36 + i) (bbuf b) = b1 @ (b2 @ r)" using Cons.prems(2) bs by simp
  note step = replay_ent [OF assms dr lt e Cons.prems(5), of w m]
  show ?case
  proof (cases "barrier (qgen w) e")
    case True
    have "a = a\<lparr>free := free a, used := used a\<rparr>" by simp
    with True step Cons.prems(5,6) l1 bs show ?thesis
      by (intro exI [of _ "free a"] exI [of _ 0]) (auto simp: n)
  next
    case False
    with Cons.prems(6) obtain S1 u1 where ap: "apply_ent e (freespace (free a), used a) = Some (S1, u1)"
      and run: "run (upto (qgen w) es) (S1, u1) = Some (S, u)" by (auto split: option.splits)
    from step False ap obtain t1 where t1: "replay n w a b i = replay m w (a\<lparr>free := t1, used := u1\<rparr>) b (i + length b1)"
      "wffree t1" "freespace t1 = S1" by (auto simp: n)
    have "drop (36 + (i + length b1)) (bbuf b) = b2 @ r"
      using dr by (metis add.assoc append_eq_conv_conj drop_drop add.commute)
    then obtain t k where tk: "replay m w (a\<lparr>free := t1, used := u1\<rparr>) b (i + length b1) =
        Inr (a\<lparr>free := t1, used := u1\<rparr>\<lparr>free := t, used := u\<rparr>, if upto (qgen w) es = es then None else Some (i + length b1 + k))"
      "wffree t" "freespace t = S" "k \<le> length b2" "upto (qgen w) es \<noteq> es \<longrightarrow> k + 8 \<le> length b2" "logenc (upto (qgen w) es) (take k b2)"
      using Cons.IH [OF es, of "i + length b1" m "a\<lparr>free := t1, used := u1\<rparr>"] Cons.prems(3,4) run t1(2,3) l1
      by (auto simp: bs n)
    have "logenc (upto (qgen w) (e # es)) (take (length b1 + k) bs)"
      using False e tk(6) by (auto simp: bs)
    with tk t1(1) False bs show ?thesis
      by (intro exI [of _ t] exI [of _ "length b1 + k"]) (auto simp: add.assoc)
  qed
qed


section \<open>The log on the disk\<close>

text \<open>A block's image holds a log with the entries \<open>es\<close>, and the next block of the chain is \<open>nx\<close>.\<close>

definition logimage :: "bytes \<Rightarrow> Logent list \<Rightarrow> u64 \<Rightarrow> bool" where
  "logimage img es nx \<longleftrightarrow> length img = Blksz \<and> UNPACK16 img = 3 \<and>
     (let sz = unat (UNPACK16 (drop 2 img)) in sz \<le> Logspc \<and>
        UNPACK64 (drop 4 img) = bufhash (take sz (drop 36 img)) \<and> logenc es (take sz (drop 36 img))) \<and>
     UNPACK64 (drop 12 img) = nx"

text \<open>
  The blocks of a log from \<open>x\<close> on, up to but without the block at \<open>z\<close>; the other blocks' addresses
  are \<open>ys\<close>, so \<open>z\<close> is the last of \<open>x # ys\<close>.
\<close>

fun prechain :: "(u64 \<rightharpoonup> bytes) \<Rightarrow> u64 \<Rightarrow> u64 list \<Rightarrow> Logent list \<Rightarrow> u64 \<Rightarrow> bool" where
  "prechain d x [] es z \<longleftrightarrow> x = z \<and> es = []"
| "prechain d x (y # ys) es z \<longleftrightarrow> y \<noteq> -1 \<and>
     (\<exists>img es1 es2. d x = Some img \<and> logimage img es1 y \<and> prechain d y ys es2 z \<and> es = es1 @ es2)"

text \<open>The last block has room for the entry that links the next one.\<close>

definition tailimage :: "bytes \<Rightarrow> Logent list \<Rightarrow> bool" where
  "tailimage img es \<longleftrightarrow> logimage img es (-1) \<and> unat (UNPACK16 (drop 2 img)) \<le> 16340"

definition chain :: "(u64 \<rightharpoonup> bytes) \<Rightarrow> u64 \<Rightarrow> u64 list \<Rightarrow> Logent list \<Rightarrow> bool" where
  "chain d x ys es \<longleftrightarrow> (\<exists>z es1 es2 img. prechain d x ys es1 z \<and> d z = Some img \<and> tailimage img es2 \<and> es = es1 @ es2)"

lemma readbuf_dev: "disk w x = Some img \<Longrightarrow> length img = Blksz \<Longrightarrow> readbuf (devread w) (unat x) Blksz = Inr img"
  by (subst readbuf.simps) (auto simp: devread_def Let_def readbuf.simps)

lemma readblk_log:
  assumes "disk w x = Some img" "logimage img es nx" "baddr bp = x"
  shows "\<exists>b'. readblk (devread w) b bp 0 = Inr b' \<and> btype b' = Tlog \<and> bdata b' = 36 \<and> bbuf b' = img \<and>
    logsz b' = uint (UNPACK16 (drop 2 img)) \<and> baddr (logp b') = nx \<and> baddr (bbp b') = x \<and>
    bref b' = bref b \<and> bflag b' = bflag b \<and>
    nval b' = 0 \<and> valsz b' = 0 \<and> nbuf b' = 0 \<and> bufsz b' = 0"
proof -
  have ty: "short 3 = 3" by (simp add: short_def)
  from assms(2) have img: "length img = 16384" "UNPACK16 img = 3" "unat (UNPACK16 (drop 2 img)) \<le> 16348"
    "UNPACK64 (drop 4 img) = bufhash (take (unat (UNPACK16 (drop 2 img))) (drop 36 img))" "UNPACK64 (drop 12 img) = nx"
    by (auto simp: logimage_def Let_def)
  show ?thesis
    using readbuf_dev [OF assms(1)] img assms(3) ty
    by (simp add: readblk_def readhdr_def unpackbp_def databytes_def)
qed

subsection \<open>The tail of the log in memory\<close>

text \<open>
  The tail is the buffer \<open>logtl\<close>, a log block with the entries \<open>es\<close> at the address \<open>z\<close>; what the disk
  has of it, \<open>ds\<close>, may lag behind.  The other buffer is free for the next block.
\<close>

definition tailblk :: "Blk \<Rightarrow> u64 \<Rightarrow> Logent list \<Rightarrow> bool" where
  "tailblk b z es \<longleftrightarrow> wfblk b \<and> btype b = Tlog \<and> baddr (bbp b) = z \<and> 0 \<le> sint z \<and> checkflag b Bstatic 0 \<and>
     logenc es (take (nat (logsz b)) (drop 36 (bbuf b)))"

definition tailok :: "(u64 \<rightharpoonup> bytes) \<Rightarrow> Arena \<Rightarrow> u64 \<Rightarrow> Logent list \<Rightarrow> Logent list \<Rightarrow> bool" where
  "tailok d a z es ds \<longleftrightarrow> length (logbuf a) = 2 \<and>
     (\<exists>t. logtl a = Some t \<and> t < 2 \<and>
        tailblk (logbuf a ! t) z es \<and> logsz (logbuf a ! t) \<le> 16340 \<and> bref (logbuf a ! t) = 2 \<and> baddr (logp (logbuf a ! t)) = -1 \<and>
        bref (logbuf a ! (1 - t)) = 1 \<and> length (bbuf (logbuf a ! (1 - t))) = Blksz) \<and>
     (\<exists>img. d z = Some img \<and> tailimage img ds) \<and> prefix ds es"

lemma finalize_log:
  assumes "tailblk b z es"
  shows "\<exists>b'. finalize b = Inr b' \<and> logimage (bbuf b') es (baddr (logp b)) \<and>
    unat (UNPACK16 (drop 2 (bbuf b'))) = nat (logsz b) \<and> tailblk b' z es \<and>
    logp b' = logp b \<and> logsz b' = logsz b \<and> bref b' = bref b \<and> checkflag b' Bfinal 0"
proof -
  from assms have wf: "wfblk b" and ty: "btype b = 3" and st: "checkflag b Bstatic 0"
    and sz: "0 \<le> logsz b" "logsz b \<le> 16348" and es: "logenc es (take (nat (logsz b)) (drop 36 (bbuf b)))"
    by (auto simp: tailblk_def wfblk_def)
  from finalize_buf [OF wf] obtain b' where f: "finalize b = Inr b'" and buf: "bbuf b' = put 0 (blkhdr b) (bbuf b)"
    and same: "bbp b' = (bbp b)\<lparr>bhash := blkhash b'\<rparr>" "btype b' = btype b" "nval b' = nval b" "valsz b' = valsz b"
      "nbuf b' = nbuf b" "bufsz b' = bufsz b" "logsz b' = logsz b" "logp b' = logp b" "bdata b' = bdata b"
      "bref b' = bref b" "bflag b' = bflag b OR 3" by blast
  have len: "length (bbuf b) = 16384" using wf by (simp add: wfblk_def)
  have img: "bbuf b' = PACK16 3 @ PACK16 (word_of_int (logsz b)) @ PACK64 (bufhash (take (nat (logsz b)) (drop 36 (bbuf b)))) @
      PACK64 (baddr (logp b)) @ PACK64 (bhash (logp b)) @ PACK64 (bgen (logp b)) @ drop 36 (bbuf b)"
    by (simp add: buf put_0 blkhdr_def ty)
  have usz: "unat (word_of_int (logsz b) :: u16) = nat (logsz b)"
    using sz by (simp add: unat_eq_nat_uint uint_word_of_int del: nat_uint_eq)
  have "wfblk b'" using wf len by (simp add: wfblk_def same ty img)
  moreover have "checkflag b' Bstatic 0" using checkflag_or(2) [OF st] by (simp add: checkflag_def same)
  moreover have "checkflag b' Bfinal 0" using checkflag_or(1) [where w = "bflag b"] by (simp add: checkflag_def same)
  moreover have "logimage (bbuf b') es (baddr (logp b))" using len sz es usz by (simp add: logimage_def img Let_def)
  ultimately show ?thesis using f assms usz es by (simp add: same tailblk_def img)
qed

lemma syncblk_log:
  assumes "tailblk b z es" "checkflag b Bfinal 0"
  shows "\<exists>b'. syncblk w b = Inr (w\<lparr>disk := (disk w)(z \<mapsto> bbuf b)\<rparr>, b') \<and> tailblk b' z es \<and>
    logp b' = logp b \<and> logsz b' = logsz b \<and> bref b' = bref b"
proof -
  have "checkflag (setflag b 0 1) Bstatic 0"
    using assms(1) by (simp add: tailblk_def checkflag_def setflag_def ac_simps)
  then show ?thesis using assms
    by (auto simp: syncblk_def tailblk_def setflag_def wfblk_def)
qed

text \<open>A log block written back: the disk then has its entries and its link.\<close>

lemma synclog_correct:
  assumes "i < length (logbuf a)" "tailblk (logbuf a ! i) z es"
  shows "\<exists>b img. synclog w a i = Inr (w\<lparr>disk := (disk w)(z \<mapsto> img)\<rparr>, a\<lparr>logbuf := (logbuf a)[i := b]\<rparr>) \<and>
    tailblk b z es \<and> logp b = logp (logbuf a ! i) \<and> logsz b = logsz (logbuf a ! i) \<and> bref b = bref (logbuf a ! i) \<and>
    logimage img es (baddr (logp (logbuf a ! i))) \<and> unat (UNPACK16 (drop 2 img)) = nat (logsz (logbuf a ! i))"
proof -
  from finalize_log [OF assms(2)] obtain b where f: "finalize (logbuf a ! i) = Inr b" "logimage (bbuf b) es (baddr (logp (logbuf a ! i)))"
    "unat (UNPACK16 (drop 2 (bbuf b))) = nat (logsz (logbuf a ! i))" "tailblk b z es" "logp b = logp (logbuf a ! i)"
    "logsz b = logsz (logbuf a ! i)" "bref b = bref (logbuf a ! i)" "checkflag b Bfinal 0" by blast
  from syncblk_log [OF f(4) f(8), of w] obtain b' where
    "syncblk w b = Inr (w\<lparr>disk := (disk w)(z \<mapsto> bbuf b)\<rparr>, b')" "tailblk b' z es" "logp b' = logp b" "logsz b' = logsz b" "bref b' = bref b"
    by blast
  with f show ?thesis by (intro exI [of _ b'] exI [of _ "bbuf b"]) (simp add: synclog_def)
qed


section \<open>Loading\<close>

text \<open>An arena that is being loaded: the buffers are the static ones, with one reference each.\<close>

definition fresh :: "Arena \<Rightarrow> bool" where
  "fresh a \<longleftrightarrow> length (logbuf a) = 2 \<and> logtl a = None \<and>
     (\<forall>b \<in> set (logbuf a). checkflag b Bstatic Bcached \<and> bref b = 1 \<and> length (bbuf b) = Blksz)"

lemma prechain_upto_end: "upto q (es @ es') = (if upto q es = es then es @ upto q es' else upto q es)"
  by (induction es) auto

lemma freshD: "fresh a \<Longrightarrow> length (logbuf a) = 2 \<and> logtl a = None \<and> checkflag (logbuf a ! 0) Bstatic Bcached \<and>
    bref (logbuf a ! 0) = 1 \<and> bref (logbuf a ! 1) = 1 \<and> length (bbuf (logbuf a ! 1)) = Blksz"
  by (auto simp: fresh_def dest!: bspec intro: nth_mem)

text \<open>One block read and replayed.\<close>

lemma loadlog_block:
  assumes "fresh a" "disk w x = Some img" "logimage img es nx" "baddr bp = x"
    and "wffree (free a)" "run (upto (qgen w) es) (freespace (free a), used a) = Some (S, u)"
  obtains b t k where "readblk (devread w) (holdblk (logbuf a ! 0)) bp 0 = Inr b"
    "replay (nat (logsz b)) w (a\<lparr>nlog := nlog a + 1\<rparr>) b 0 =
       Inr (a\<lparr>nlog := nlog a + 1, free := t, used := u\<rparr>, if upto (qgen w) es = es then None else Some k)"
    "wffree t" "freespace t = S" "wfblk b" "btype b = Tlog" "baddr (bbp b) = x" "checkflag b Bstatic 0" "checkflag b Bstatic Bcached"
    "bref b = 2" "baddr (logp b) = nx" "bbuf b = img" "upto (qgen w) es \<noteq> es \<longrightarrow> k + 8 \<le> Logspc" "int k \<le> logsz b" "logsz b = uint (UNPACK16 (drop 2 img))"
    "logenc (upto (qgen w) es) (take k (drop 36 img))" "logenc es (take (nat (logsz b)) (drop 36 img))"
proof -
  note fr = freshD [OF assms(1)]
  from readblk_log [OF assms(2-4), of "holdblk (logbuf a ! 0)"] obtain b where
    b: "readblk (devread w) (holdblk (logbuf a ! 0)) bp 0 = Inr b" "btype b = 3" "bdata b = 36" "bbuf b = img"
    "logsz b = uint (UNPACK16 (drop 2 img))" "baddr (logp b) = nx" "baddr (bbp b) = x"
    "bref b = bref (holdblk (logbuf a ! 0))" "bflag b = bflag (holdblk (logbuf a ! 0))"
    "nval b = 0" "valsz b = 0" "nbuf b = 0" "bufsz b = 0" by blast
  let ?n = "nat (logsz b)" and ?bs = "take (nat (logsz b)) (drop 36 img)"
  from assms(3) b have img: "length img = 16384" "?n \<le> 16348" "logenc es ?bs" "0 \<le> logsz b"
    by (auto simp: logimage_def Let_def)
  from img(2) have lz: "logsz b \<le> 16348" by linarith
  let ?a = "a\<lparr>nlog := nlog a + 1\<rparr>"
  have d: "drop (36 + 0) (bbuf b) = ?bs @ drop ?n (drop 36 img)" using b(4) by (simp del: drop_drop)
  have l: "logsz b = int (0 + length ?bs)" "length ?bs \<le> ?n" using img by simp_all
  have a: "wffree (free ?a)" "run (upto (qgen w) es) (freespace (free ?a), used ?a) = Some (S, u)" using assms(5,6) by simp_all
  from replay_block [OF b(3) img(3) d l a] obtain t k where tk: "replay ?n w ?a b 0 =
      Inr (a\<lparr>nlog := nlog a + 1, free := t, used := u\<rparr>, if upto (qgen w) es = es then None else Some (0 + k))"
    "wffree t" "freespace t = S" "k \<le> length ?bs" "upto (qgen w) es \<noteq> es \<longrightarrow> k + 8 \<le> length ?bs" "logenc (upto (qgen w) es) (take k ?bs)"
    by blast
  have "wfblk b" using b img lz by (simp add: wfblk_def datastart_def)
  moreover from fr b(9) have cf: "checkflag b Bstatic Bcached" by (simp add: checkflag_def holdblk_def)
  moreover from cf have "checkflag b Bstatic 0" by (rule checkflag_weaken)
  moreover have "bref b = 2" using fr b(8) by (simp add: holdblk_def)
  moreover have "int k \<le> logsz b" "take k ?bs = take k (drop 36 img)" using tk(4) img by (auto simp: min_def)
  moreover have "upto (qgen w) es \<noteq> es \<longrightarrow> k + 8 \<le> 16348" using tk(5) img by auto
  ultimately show ?thesis using tk b img by (intro that [OF b(1) tk(1) [unfolded add_0]]) simp_all
qed


text \<open>The parts of an arena that loading and the log do not change.\<close>

definition samearena :: "Arena \<Rightarrow> Arena \<Rightarrow> bool" where
  "samearena a a' \<longleftrightarrow> arsize a' = arsize a \<and> reserve a' = reserve a \<and> h0 a' = h0 a \<and> loghd a' = loghd a \<and> lastlogsz a' = lastlogsz a"

lemma samearena_trans: "samearena a b \<Longrightarrow> samearena b c \<Longrightarrow> samearena a c"
  by (simp add: samearena_def)

text \<open>The replay ends at a barrier: the block is cut off there and written back.\<close>

lemma loadlog_stop:
  assumes "fresh a" "\<not> rdonly w" "wfblk b" "btype b = Tlog" "baddr (bbp b) = x" "checkflag b Bstatic 0" "bref b = 2"
    and "0 \<le> sint x" "k + 8 \<le> Logspc" "logenc es (take k (drop 36 (bbuf b)))"
  shows "\<exists>w' a'. synclog (w\<lparr>cached := cached w - {x}\<rparr>)
      (a\<lparr>logbuf := (logbuf a)[0 := setflag (b\<lparr>logp := Zb, logsz := int k\<rparr>) Bdirty 0], logtl := Some 0\<rparr>) 0 = Inr (w', a') \<and>
    tailok (disk w') a' x es es \<and> (\<forall>v. v \<noteq> x \<longrightarrow> disk w' v = disk w v) \<and> qgen w' = qgen w \<and> cached w' = cached w - {x} \<and>
    rdonly w' = rdonly w \<and> samearena a a' \<and> free a' = free a \<and> used a' = used a"
proof -
  let ?b = "setflag (b\<lparr>logp := Zb, logsz := int k\<rparr>) Bdirty 0"
  let ?a = "a\<lparr>logbuf := (logbuf a)[0 := ?b], logtl := Some 0\<rparr>" and ?w = "w\<lparr>cached := cached w - {x}\<rparr>"
  note fr = freshD [OF assms(1)]
  have "checkflag ?b Bstatic 0" using assms(6)
    by (simp add: checkflag_def setflag_def bit.conj_disj_distrib2)
  then have tb: "tailblk ?b x es" using assms by (simp add: tailblk_def wfblk_def setflag_def)
  from synclog_correct [of 0 ?a x es ?w] tb fr obtain c img where
    s: "synclog ?w ?a 0 = Inr (?w\<lparr>disk := (disk w)(x \<mapsto> img)\<rparr>, ?a\<lparr>logbuf := (logbuf ?a)[0 := c]\<rparr>)"
    and c: "tailblk c x es" "logp c = Zb" "bref c = 2" "logsz c = int k" "logimage img es (-1)" "unat (UNPACK16 (drop 2 img)) = k"
    using assms(7) by (auto simp: setflag_def Zb_def)
  have "tailok ((disk w)(x \<mapsto> img)) (?a\<lparr>logbuf := (logbuf ?a)[0 := c]\<rparr>) x es es"
    using fr c assms(9) by (auto simp: tailok_def tailimage_def Zb_def)
  with s show ?thesis by (auto simp: samearena_def)
qed


text \<open>
  What loading leaves: the entries before the barrier are the log, in memory and on the disk,
  and their effect is the free tree.
\<close>

definition loaded :: "Dev \<Rightarrow> Arena \<Rightarrow> u64 \<Rightarrow> u64 list \<Rightarrow> Logent list \<Rightarrow> int set \<Rightarrow> int \<Rightarrow> Dev \<times> Arena \<Rightarrow> bool" where
  "loaded w a x ys es S u wa \<longleftrightarrow> (case wa of (w', a') \<Rightarrow>
     \<exists>ys' e1 e2 z. prefix ys' ys \<and> z = last (x # ys') \<and> prechain (disk w) x ys' e1 z \<and> es = e1 @ e2 \<and>
       tailok (disk w') a' z e2 e2 \<and> (\<forall>v. v \<noteq> z \<longrightarrow> disk w' v = disk w v) \<and>
       qgen w' = qgen w \<and> rdonly w' = rdonly w \<and> cached w' \<subseteq> cached w \<and> samearena a a' \<and>
       wffree (free a') \<and> freespace (free a') = S \<and> used a' = u)"

lemma loadlog_barrier:
  assumes "fresh a" "\<not> rdonly w" "disk w x = Some img" "logimage img es nx" "baddr bp = x" "0 \<le> sint x"
    and "wffree (free a)" "run (upto (qgen w) es) (freespace (free a), used a) = Some (S, u)" "upto (qgen w) es \<noteq> es"
  shows "\<exists>wa. loadlog (Suc n) w a bp = Inr wa \<and> loaded w a x ys (upto (qgen w) es) S u wa"
proof -
  note fr = freshD [OF assms(1)]
  obtain b t k where b: "readblk (devread w) (holdblk (logbuf a ! 0)) bp 0 = Inr b"
    "replay (nat (logsz b)) w (a\<lparr>nlog := nlog a + 1\<rparr>) b 0 =
       Inr (a\<lparr>nlog := nlog a + 1, free := t, used := u\<rparr>, if upto (qgen w) es = es then None else Some k)"
    "wffree t" "freespace t = S" "wfblk b" "btype b = Tlog" "baddr (bbp b) = x" "checkflag b Bstatic 0" "checkflag b Bstatic Bcached"
    "bref b = 2" "baddr (logp b) = nx" "bbuf b = img" "upto (qgen w) es \<noteq> es \<longrightarrow> k + 8 \<le> Logspc" "int k \<le> logsz b" "logsz b = uint (UNPACK16 (drop 2 img))"
    "logenc (upto (qgen w) es) (take k (drop 36 img))" "logenc es (take (nat (logsz b)) (drop 36 img))"
    by (rule loadlog_block [OF assms(1,3-5,7,8)])
  let ?a = "a\<lparr>nlog := nlog a + 1, free := t, used := u\<rparr>"
  have "fresh ?a" using assms(1) by (simp add: fresh_def)
  from loadlog_stop [OF this assms(2) b(5-8,10) assms(6), of k] b(12,13,16) assms(9) obtain w' a' where
    w': "synclog (w\<lparr>cached := cached w - {x}\<rparr>)
      (?a\<lparr>logbuf := (logbuf ?a)[0 := setflag (b\<lparr>logp := Zb, logsz := int k\<rparr>) Bdirty 0], logtl := Some 0\<rparr>) 0 = Inr (w', a')"
    "tailok (disk w') a' x (upto (qgen w) es) (upto (qgen w) es)" "\<forall>v. v \<noteq> x \<longrightarrow> disk w' v = disk w v"
    "qgen w' = qgen w" "cached w' = cached w - {x}" "rdonly w' = rdonly w" "samearena ?a a'" "free a' = free ?a" "used a' = used ?a"
    by blast
  have "loadlog (Suc n) w a bp = Inr (w', a')"
    using fr b(1,2,7) w'(1) assms(2,9) by (simp add: Let_def)
  moreover have "loaded w a x ys (upto (qgen w) es) S u (w', a')"
    unfolding loaded_def using w' b(3,4)
    by (auto simp: samearena_def intro!: exI [of _ "[]"] exI [of _ "upto (qgen w) es"])
  ultimately show ?thesis by blast
qed

lemma loadlog_end:
  assumes "fresh a" "disk w x = Some img" "tailimage img es" "baddr bp = x" "0 \<le> sint x"
    and "wffree (free a)" "run es (freespace (free a), used a) = Some (S, u)" "upto (qgen w) es = es"
  shows "\<exists>wa. loadlog (Suc n) w a bp = Inr wa \<and> loaded w a x [] es S u wa"
proof -
  note fr = freshD [OF assms(1)]
  have li: "logimage img es (-1)" and small: "unat (UNPACK16 (drop 2 img)) \<le> 16340" using assms(3) by (simp_all add: tailimage_def)
  have run: "run (upto (qgen w) es) (freespace (free a), used a) = Some (S, u)" using assms(7,8) by simp
  obtain b t k where b: "readblk (devread w) (holdblk (logbuf a ! 0)) bp 0 = Inr b"
    "replay (nat (logsz b)) w (a\<lparr>nlog := nlog a + 1\<rparr>) b 0 =
       Inr (a\<lparr>nlog := nlog a + 1, free := t, used := u\<rparr>, if upto (qgen w) es = es then None else Some k)"
    "wffree t" "freespace t = S" "wfblk b" "btype b = Tlog" "baddr (bbp b) = x" "checkflag b Bstatic 0" "checkflag b Bstatic Bcached"
    "bref b = 2" "baddr (logp b) = -1" "bbuf b = img" "upto (qgen w) es \<noteq> es \<longrightarrow> k + 8 \<le> Logspc" "int k \<le> logsz b" "logsz b = uint (UNPACK16 (drop 2 img))"
    "logenc (upto (qgen w) es) (take k (drop 36 img))" "logenc es (take (nat (logsz b)) (drop 36 img))"
    by (rule loadlog_block [OF assms(1,2) li assms(4,6) run])
  let ?a = "a\<lparr>nlog := nlog a + 1, free := t, used := u, logbuf := (logbuf a)[0 := b], logtl := Some 0\<rparr>"
  have lz: "logsz b \<le> 16340" using small b(15) by (metis nat_le_iff nat_uint_eq of_nat_numeral)
  have "tailblk b x es" using b assms(5) by (simp add: tailblk_def)
  then have "tailok (disk w) ?a x es es" using fr b lz assms(2,3) by (auto simp: tailok_def)
  then have "loaded w a x [] es S u (w, ?a)"
    unfolding loaded_def using b(3,4) by (auto simp: samearena_def intro!: exI [of _ "[]"] exI [of _ es])
  moreover have "loadlog (Suc n) w a bp = Inr (w, ?a)"
    using fr b(1,2,11) assms(8) by (simp add: Let_def)
  ultimately show ?thesis by blast
qed

lemma loaded_Cons:
  assumes "disk w x = Some im" "logimage im e1 y" "y \<noteq> -1" "loaded w b y ys es S u wa" "samearena a b"
  shows "loaded w a x (y # ys) (e1 @ es) S u wa"
proof -
  obtain w' a' where wa: "wa = (w', a')" by (cases wa)
  from assms(4) obtain ys' f1 f2 where p: "prefix ys' ys" "prechain (disk w) y ys' f1 (last (y # ys'))"
    "es = f1 @ f2" and rest: "tailok (disk w') a' (last (y # ys')) f2 f2"
    "\<forall>v. v \<noteq> last (y # ys') \<longrightarrow> disk w' v = disk w v"
    "qgen w' = qgen w" "rdonly w' = rdonly w" "cached w' \<subseteq> cached w" "samearena b a'"
    "wffree (free a')" "freespace (free a') = S" "used a' = u"
    unfolding loaded_def wa by auto
  have "prechain (disk w) x (y # ys') (e1 @ f1) (last (y # ys'))" using assms(1-3) p(2) by auto
  moreover have "samearena a a'" using assms(5) rest(6) by (rule samearena_trans)
  ultimately show ?thesis unfolding loaded_def wa prod.case using p rest
    by (intro exI [of _ "y # ys'"] exI [of _ "e1 @ f1"] exI [of _ f2] exI [of _ "last (y # ys')"])
      (simp del: prechain.simps)
qed

lemma loadlog_chain:
  assumes "\<not> rdonly w"
  shows "fresh a \<Longrightarrow> prechain (disk w) x ys es1 z \<Longrightarrow> disk w z = Some img \<Longrightarrow> tailimage img es2 \<Longrightarrow> baddr bp = x \<Longrightarrow>
    \<forall>v \<in> set (x # ys). 0 \<le> sint v \<Longrightarrow> length ys < n \<Longrightarrow> wffree (free a) \<Longrightarrow>
    run (upto (qgen w) (es1 @ es2)) (freespace (free a), used a) = Some (S, u) \<Longrightarrow>
    \<exists>wa. loadlog n w a bp = Inr wa \<and> loaded w a x ys (upto (qgen w) (es1 @ es2)) S u wa"
proof (induction ys arbitrary: x es1 a bp n)
  case Nil
  then obtain m where n: "n = Suc m" by (cases n) auto
  from Nil.prems have z: "z = x" "es1 = []" by auto
  show ?case
  proof (cases "upto (qgen w) es2 = es2")
    case True
    with Nil.prems z show ?thesis by (simp only: append_Nil n) (rule loadlog_end, auto)
  next
    case False
    with Nil.prems z assms show ?thesis
      by (simp only: append_Nil n) (rule loadlog_barrier, auto simp: tailimage_def)
  qed
next
  case (Cons y ys)
  then obtain m where n: "n = Suc m" by (cases n) auto
  from Cons.prems(2) obtain im e1 e2 where y: "y \<noteq> -1" and im: "disk w x = Some im" "logimage im e1 y"
    and pc: "prechain (disk w) y ys e2 z" and es1: "es1 = e1 @ e2" by auto
  show ?case
  proof (cases "upto (qgen w) e1 = e1")
    case False
    then have "upto (qgen w) (es1 @ es2) = upto (qgen w) e1" by (simp add: es1 prechain_upto_end)
    with loadlog_barrier [OF Cons.prems(1) assms im Cons.prems(5) _ Cons.prems(8) _ False] Cons.prems(6,9) show ?thesis
      by (simp add: n)
  next
    case True
    then have up: "upto (qgen w) (es1 @ es2) = e1 @ upto (qgen w) (e2 @ es2)" by (simp add: es1 prechain_upto_end)
    with Cons.prems(9) obtain S1 u1 where run1: "run e1 (freespace (free a), used a) = Some (S1, u1)"
      and run2: "run (upto (qgen w) (e2 @ es2)) (S1, u1) = Some (S, u)" by (auto simp: run_append split: option.splits)
    from run1 True have r1: "run (upto (qgen w) e1) (freespace (free a), used a) = Some (S1, u1)" by simp
    obtain b t k where b: "readblk (devread w) (holdblk (logbuf a ! 0)) bp 0 = Inr b"
    "replay (nat (logsz b)) w (a\<lparr>nlog := nlog a + 1\<rparr>) b 0 =
       Inr (a\<lparr>nlog := nlog a + 1, free := t, used := u1\<rparr>, if upto (qgen w) e1 = e1 then None else Some k)"
    "wffree t" "freespace t = S1" "wfblk b" "btype b = Tlog" "baddr (bbp b) = x" "checkflag b Bstatic 0" "checkflag b Bstatic Bcached"
    "bref b = 2" "baddr (logp b) = y" "bbuf b = im" "upto (qgen w) e1 \<noteq> e1 \<longrightarrow> k + 8 \<le> Logspc" "int k \<le> logsz b" "logsz b = uint (UNPACK16 (drop 2 im))"
    "logenc (upto (qgen w) e1) (take k (drop 36 im))" "logenc e1 (take (nat (logsz b)) (drop 36 im))"
      by (rule loadlog_block [OF Cons.prems(1) im Cons.prems(5,8) r1])
    let ?a = "a\<lparr>nlog := nlog a + 1, free := t, used := u1, logbuf := (logbuf a)[0 := dropblk b]\<rparr>"
    note fr = freshD [OF Cons.prems(1)]
    have "fresh ?a" using Cons.prems(1) b(5,9,10)
      by (auto simp: fresh_def dropblk_def checkflag_def wfblk_def dest!: set_update_subset_insert [THEN subsetD])
    from Cons.IH [OF this pc Cons.prems(3,4) b(11), of m] Cons.prems(6,7) b(3,4) run2 obtain w' a' where
      wa: "loadlog m w ?a (logp b) = Inr (w', a')" "loaded w ?a y ys (upto (qgen w) (e2 @ es2)) S u (w', a')" by (auto simp: n)
    have "loadlog n w a bp = Inr (w', a')"
      using fr b(1,2,11) y wa(1) True by (simp add: n Let_def)
    moreover have "loaded w a x (y # ys) (e1 @ upto (qgen w) (e2 @ es2)) S u (w', a')"
      by (rule loaded_Cons [OF im y wa(2)]) (simp add: samearena_def)
    ultimately show ?thesis by (simp add: up)
  qed
qed


section \<open>Appending\<close>

lemma logput_append:
  "bindE (logput xs b) (logput ys) = logput (xs @ ys) b"
  by (auto simp: logput_def put_put nat_add_distrib)

lemma logput_ent:
  assumes "tailblk b z es" "entenc e bs" "wfent e" "logsz b + int (length bs) \<le> int Logspc"
  shows "\<exists>b'. logput bs b = Inr b' \<and> tailblk b' z (es @ [e]) \<and> logp b' = logp b \<and> bref b' = bref b \<and>
    logsz b' = logsz b + int (length bs)"
proof -
  from assms have wf: "length (bbuf b) = 16384" "bdata b = 36" "0 \<le> logsz b" "btype b = 3"
    and enc: "logenc es (take (nat (logsz b)) (drop 36 (bbuf b)))"
    by (auto simp: tailblk_def wfblk_def datastart_def)
  have fits: "36 + nat (logsz b) + length bs \<le> 16384" using assms(4) wf(3) by linarith
  let ?b = "b\<lparr>bbuf := put (36 + nat (logsz b)) bs (bbuf b), logsz := logsz b + int (length bs)\<rparr>"
  have "take (nat (logsz b) + length bs) (drop 36 (put (36 + nat (logsz b)) bs (bbuf b))) =
      take (nat (logsz b)) (drop 36 (bbuf b)) @ bs"
    using fits wf by (simp add: drop_put_inner take_put_end)
  moreover have "logenc (es @ [e]) (take (nat (logsz b)) (drop 36 (bbuf b)) @ bs)"
    using enc assms(2,3) by (intro logenc_append) auto
  ultimately have "tailblk ?b z (es @ [e])"
    using assms(1,4) wf fits by (simp add: tailblk_def wfblk_def nat_add_distrib checkflag_def)
  then show ?thesis using wf fits by (simp add: logput_def)
qed

lemma tailblk_setflag: "tailblk b z es \<Longrightarrow> tailblk (setflag b Bdirty Bfinal) z es"
  by (auto simp: tailblk_def wfblk_def setflag_def checkflag_def bit.conj_disj_distrib2 and.assoc)

lemma mklogblk_correct:
  assumes "t < 2" "logtl a = Some t" "length (logbuf a) = 2" "bref (logbuf a ! (1 - t)) = 1"
    and "length (bbuf (logbuf a ! (1 - t))) = Blksz" "of_int ob \<notin> cached w" "0 \<le> ob" "ob < 2 ^ 63"
  shows "\<exists>b. mklogblk w a ob = Inr (a\<lparr>logbuf := (logbuf a)[1 - t := b]\<rparr>, 1 - t) \<and>
    tailblk b (of_int ob) [] \<and> bref b = 2 \<and> baddr (logp b) = -1 \<and> logsz b = 0"
proof -
  have i: "(if logtl a = Some 0 then 1 else 0) = 1 - t" using assms(1,2) by auto
  let ?b = "(logbuf a ! (1 - t))\<lparr>btype := 3, bbp := \<lparr>baddr = of_int ob, bhash = -1, bgen = -1\<rparr>,
    logp := \<lparr>baddr = -1, bhash = -1, bgen = -1\<rparr>, bdata := 36, bflag := 65, nval := 0, valsz := 0, nbuf := 0, bufsz := 0, logsz := 0, bref := 2\<rparr>"
  have "mklogblk w a ob = Inr (a\<lparr>logbuf := (logbuf a)[1 - t := ?b]\<rparr>, 1 - t)"
    unfolding mklogblk_def i using assms by (simp add: initblk_def holdblk_def setflag_def Let_def)
  moreover have "tailblk ?b (of_int ob) []"
    using assms by (simp add: tailblk_def wfblk_def datastart_def checkflag_def sint_small)
  ultimately show ?thesis by (intro exI [of _ ?b]) simp
qed

text \<open>
  The state of the log of an arena: the chain from \<open>loghd\<close> has the blocks \<open>ys\<close> after its first one,
  the entries are \<open>es\<close>, and those the disk has, \<open>ds\<close>, are the first ones of them.
\<close>

definition logok :: "Dev \<Rightarrow> Arena \<Rightarrow> u64 list \<Rightarrow> Logent list \<Rightarrow> Logent list \<Rightarrow> bool" where
  "logok w a ys es ds \<longleftrightarrow>
     (let x = baddr (loghd a) in
      (\<exists>e1 e2 d2. prechain (disk w) x ys e1 (last (x # ys)) \<and> tailok (disk w) a (last (x # ys)) e2 d2 \<and>
         es = e1 @ e2 \<and> ds = e1 @ d2) \<and>
      distinct (x # ys) \<and> (\<forall>v \<in> set (x # ys). 0 \<le> sint v))"

text \<open>
  The free space is inside the arena, and neither the log nor the block cache has a block there.
\<close>

definition arenaok :: "Dev \<Rightarrow> Arena \<Rightarrow> u64 list \<Rightarrow> bool" where
  "arenaok w a ys \<longleftrightarrow> wffree (free a) \<and> 0 \<le> h0 a \<and> h0 a + arsize a + 2 * Blksz_int < 2 ^ 63 \<and>
     freespace (free a) \<subseteq> {h0 a ..< h0 a + arsize a + 2 * Blksz_int} \<and>
     (\<forall>v \<in> set (baddr (loghd a) # ys) \<union> cached w. sint v mod Blksz_int = 0 \<and> sint v \<notin> freespace (free a))"

lemma prechain_disk:
  "prechain d x ys es z \<Longrightarrow> \<forall>v \<in> set (butlast (x # ys)). d' v = d v \<Longrightarrow> prechain d' x ys es z"
proof (induction ys arbitrary: x es)
  case (Cons y ys)
  then obtain img e1 e2 where "y \<noteq> -1" "d x = Some img" "logimage img e1 y" "prechain d y ys e2 z" "es = e1 @ e2" by auto
  moreover from Cons.IH [OF this(4)] Cons.prems(2) have "prechain d' y ys e2 z" by (auto split: if_splits)
  ultimately show ?case using Cons.prems(2) by auto
qed simp

lemma prechain_snoc:
  "prechain d x ys es z \<Longrightarrow> d z = Some img \<Longrightarrow> logimage img es' y \<Longrightarrow> y \<noteq> -1 \<Longrightarrow> prechain d x (ys @ [y]) (es @ es') y"
proof (induction ys arbitrary: x es)
  case (Cons v ys)
  then obtain im e1 e2 where *: "v \<noteq> -1" "d x = Some im" "logimage im e1 v" "prechain d v ys e2 z" "es = e1 @ e2" by auto
  from Cons.IH [OF this(4) Cons.prems(2-4)] have "prechain d v (ys @ [y]) (e2 @ es') y" .
  with * show ?case by auto
qed simp

text \<open>A block from the allocator, for the log: neither in the log already nor in the cache.\<close>

lemma blkalloc_log:
  assumes "arenaok w a ys"
  shows "(blkalloc_lk priv a seq = Inr (a, -1) \<and> ((\<not> priv \<and> arsize a - used a \<le> reserve a) \<or> free a = Nil)) \<or>
    (\<exists>t ob. blkalloc_lk priv a seq = Inr (a\<lparr>free := t, used := used a + Blksz_int\<rparr>, ob) \<and> wffree t \<and>
      {ob ..< ob + Blksz_int} \<subseteq> freespace (free a) \<and> freespace t = freespace (free a) - {ob ..< ob + Blksz_int} \<and>
      0 \<le> ob \<and> wfent (LAlloc ob Blksz_int) \<and> h0 a \<le> ob \<and> ob + Blksz_int \<le> h0 a + arsize a + 2 * Blksz_int \<and>
      (of_int ob :: u64) \<notin> set (baddr (loghd a) # ys) \<union> cached w \<and> (of_int ob :: u64) \<noteq> -1 \<and> sint (of_int ob :: u64) = ob \<and>
      (if seq then \<forall>x \<in> freespace (free a). ob \<le> x else \<forall>x \<in> freespace (free a). x < ob + Blksz_int))"
proof -
  from assms have wf: "wffree (free a)" by (simp add: arenaok_def)
  show ?thesis
  proof (cases "(\<not> priv \<and> arsize a - used a \<le> reserve a) \<or> free a = Nil")
    case True
    with blkalloc_lk_correct [OF wf, of priv seq] show ?thesis by simp
  next
    case False
    with blkalloc_lk_correct [OF wf, of priv seq] obtain t ob where
      al: "blkalloc_lk priv a seq = Inr (a\<lparr>free := t, used := used a + Blksz_int\<rparr>, ob)" "wffree t" "ob mod Blksz_int = 0"
      "{ob ..< ob + Blksz_int} \<subseteq> freespace (free a)" "freespace t = freespace (free a) - {ob ..< ob + Blksz_int}"
      "if seq then \<forall>x \<in> freespace (free a). ob \<le> x else \<forall>x \<in> freespace (free a). x < ob + Blksz_int" by auto
    have in_free: "ob \<in> freespace (free a)" "ob + Blksz_int - 1 \<in> freespace (free a)" using al(4) by auto
    from assms have sub: "freespace (free a) \<subseteq> {h0 a ..< h0 a + arsize a + 2 * Blksz_int}" by (simp add: arenaok_def)
    from subsetD [OF sub in_free(1)] subsetD [OF sub in_free(2)] assms have b: "h0 a \<le> ob" "0 \<le> ob" "ob + Blksz_int \<le> h0 a + arsize a + 2 * Blksz_int" "ob + Blksz_int < 2 ^ 63"
      by (auto simp: arenaok_def)
    have so: "sint (of_int ob :: u64) = ob" using b by (intro sint_small) auto
    have "(of_int ob :: u64) \<noteq> -1" using so b(2) by (metis sint_n1 of_int_minus of_int_1 neg_0_le_iff_le not_one_le_zero)
    moreover have "(of_int ob :: u64) \<notin> set (baddr (loghd a) # ys) \<union> cached w"
      using assms so in_free(1) unfolding arenaok_def by metis
    ultimately show ?thesis using al b so by auto
  qed
qed


lemma other_neq: "(t :: nat) \<noteq> 1 - t"
  by (cases t) auto

definition nospace :: "bool \<Rightarrow> Arena \<Rightarrow> bool" where
  "nospace priv a \<longleftrightarrow> (\<not> priv \<and> arsize a - used a \<le> reserve a) \<or> free a = Nil"

lemma logroom_correct:
  assumes "arenaok w a ys" "length (logbuf a) = 2" "t < 2" "logtl a = Some t"
    and tb: "tailblk (logbuf a ! t) z es" and "logsz (logbuf a ! t) \<le> 16340" "bref (logbuf a ! (1 - t)) = 1" "length (bbuf (logbuf a ! (1 - t))) = Blksz"
  shows "(logroom priv w a t = Inl Efull \<and> nospace priv a) \<or>
    (\<exists>b. logroom priv w a t = Inr (a\<lparr>logbuf := (logbuf a)[t := b]\<rparr>, t) \<and> tailblk b z es \<and>
       logp b = logp (logbuf a ! t) \<and> bref b = bref (logbuf a ! t) \<and> logsz b < 16308) \<or>
    (\<exists>fr ob b c. logroom priv w a t =
         Inr (a\<lparr>free := fr, used := used a + Blksz_int, logbuf := (logbuf a)[t := b, 1 - t := c]\<rparr>, 1 - t) \<and>
       wffree fr \<and> {ob ..< ob + Blksz_int} \<subseteq> freespace (free a) \<and> freespace fr = freespace (free a) - {ob ..< ob + Blksz_int} \<and>
       (of_int ob :: u64) \<notin> set (baddr (loghd a) # ys) \<union> cached w \<and> (of_int ob :: u64) \<noteq> -1 \<and> 0 \<le> ob \<and> sint (of_int ob :: u64) = ob \<and> ob mod Blksz_int = 0 \<and>
       tailblk b z (es @ [LAlloc ob Blksz_int]) \<and> baddr (logp b) = of_int ob \<and> bref b = bref (logbuf a ! t) \<and>
       tailblk c (of_int ob) [] \<and> bref c = 2 \<and> baddr (logp c) = -1 \<and> logsz c = 0)"
proof -
  define b where "b = (if checkflag (logbuf a ! t) 0 Bdirty then setflag (logbuf a ! t) Bdirty Bfinal else logbuf a ! t)"
  have b: "tailblk b z es" "logp b = logp (logbuf a ! t)" "bref b = bref (logbuf a ! t)" "logsz b = logsz (logbuf a ! t)"
    using tb tailblk_setflag [OF tb] by (auto simp: b_def setflag_def)
  let ?a = "a\<lparr>logbuf := (logbuf a)[t := b]\<rparr>"
  show ?thesis
  proof (cases "logsz b < 16308")
    case True
    then have "logroom priv w a t = Inr (?a, t)" by (simp add: logroom_def Let_def flip: b_def)
    with b True show ?thesis by blast
  next
    case full: False
    have "arenaok w ?a ys" using assms(1) by (simp add: arenaok_def)
    from blkalloc_log [OF this, of priv False] consider
      (none) "blkalloc_lk priv ?a False = Inr (?a, -1)" "nospace priv a"
    | (some) fr ob where "blkalloc_lk priv ?a False = Inr (?a\<lparr>free := fr, used := used a + Blksz_int\<rparr>, ob)" "wffree fr"
      "{ob ..< ob + Blksz_int} \<subseteq> freespace (free a)" "freespace fr = freespace (free a) - {ob ..< ob + Blksz_int}"
      "0 \<le> ob" "wfent (LAlloc ob Blksz_int)" "(of_int ob :: u64) \<notin> set (baddr (loghd a) # ys) \<union> cached w" "(of_int ob :: u64) \<noteq> -1"
      "sint (of_int ob :: u64) = ob"
      by (auto simp: nospace_def)
    then show ?thesis
    proof cases
      case none
      with full show ?thesis by (simp add: logroom_def Let_def flip: b_def)
    next
      case some
      let ?bs = "PACK64 (of_int ob OR 1)" and ?e = "LAlloc ob Blksz_int"
      from logput_ent [OF b(1), of ?e ?bs] some(6) assms(6) b(4) obtain c where
        c: "logput ?bs b = Inr c" "tailblk c z (es @ [?e])" "logp c = logp b" "bref c = bref b" by auto
      let ?c = "c\<lparr>logp := \<lparr>baddr = of_int ob, bhash = -1, bgen = -1\<rparr>\<rparr>"
      let ?a2 = "a\<lparr>free := fr, used := used a + Blksz_int, logbuf := (logbuf a)[t := ?c]\<rparr>"
      have ne: "(logbuf a)[t := ?c] ! (1 - t) = logbuf a ! (1 - t)" by (intro nth_list_update_neq other_neq)
      have "of_int ob \<notin> cached w" "ob < 2 ^ 63" using some(6,7) by auto
      from mklogblk_correct [of t ?a2 ob w] assms(2-4,7,8) some(5) this ne obtain d where
        d: "mklogblk w ?a2 ob = Inr (?a2\<lparr>logbuf := (logbuf ?a2)[1 - t := d]\<rparr>, 1 - t)"
        "tailblk d (of_int ob) []" "bref d = 2" "baddr (logp d) = -1" "logsz d = 0" by auto
      have "tailblk ?c z (es @ [?e])" using c(2) by (simp add: tailblk_def wfblk_def checkflag_def)
      moreover have "ob \<noteq> -1" using some(5) by simp
      then have "logroom priv w a t = mklogblk w ?a2 ob"
        using some(1) c(1) full by (simp add: logroom_def Let_def flip: b_def)
      ultimately show ?thesis using some c b d
        by (intro disjI2 exI [of _ fr] exI [of _ ob] exI [of _ ?c] exI [of _ d]) simp
    qed
  qed
qed


text \<open>The entry that a call of \<open>logappend\<close> writes.\<close>

definition opent :: "nat \<Rightarrow> int \<Rightarrow> int \<Rightarrow> Logent \<Rightarrow> bool" where
  "opent op off len e \<longleftrightarrow> (op = LogAlloc \<and> e = LAlloc off len) \<or> (op = LogFree \<and> e = LFree off len) \<or>
     (op = LogSync \<and> (\<exists>gen. e = LSync gen \<and> off = gen * 256) \<and> len = 0)"

definition op1 :: "nat \<Rightarrow> int \<Rightarrow> nat" where
  "op1 op len = (if len = Blksz_int then (if op = LogAlloc then LogAlloc1 else if op = LogFree then LogFree1 else op) else op)"

lemma opent_bytes:
  assumes "opent op off len e"
  obtains bs where "entenc e bs" "length bs \<le> 16"
    "\<And>b. bindE (logput (PACK64 (of_int off OR of_nat (op1 op len))) b)
        (\<lambda>b. if op1 op len \<ge> Log2wide then logput (PACK64 (of_int len)) b else Inr b) = logput bs b"
proof -
  have 1: "bindE (logput x b) Inr = logput x b" for x b by (cases "logput x b") simp_all
  have 2: "bindE (logput x b) (\<lambda>b. logput y b) = logput (x @ y) b" for x y b by (rule logput_append)
  let ?o = "PACK64 (of_int off OR of_nat (op1 op len))"
  show ?thesis
  proof (cases "op1 op len \<ge> 4")
    case True
    with assms that [of "?o @ PACK64 (of_int len)"] show ?thesis by (auto simp: opent_def op1_def 2 split: if_splits)
  next
    case False
    with assms that [of ?o] show ?thesis by (auto simp: opent_def op1_def 1 split: if_splits)
  qed
qed

text \<open>
  \<open>logappend\<close> after its assertions, with the entry's bytes.
\<close>

lemma logappend_unfold:
  assumes "opent op off len e" "wfent e" "op \<noteq> LogSync \<longrightarrow> h0 a \<le> off \<and> off < h0 a + arsize a + 2 * Blksz_int"
    and "logtl a = Some t" "tailblk (logbuf a ! t) z es" "bref (logbuf a ! t) > 0"
  obtains bs where "entenc e bs" "length bs \<le> 16"
    "logappend priv w a off len op = bindE (logroom priv w a t) (\<lambda>(a, i).
       bindE (logput bs (logbuf a ! i)) (\<lambda>lb.
       let a = a\<lparr>logbuf := (logbuf a)[i := lb]\<rparr> in
       if i \<noteq> t then
         bindE (synclog w a i) (\<lambda>(w, a).
         bindE (synclog w a t) (\<lambda>(w, a).
         Inr (w, a\<lparr>logbuf := (logbuf a)[t := dropblk (logbuf a ! t)], logtl := Some i, nlog := nlog a + 1\<rparr>)))
       else Inr (w, a)))"
proof -
  from opent_bytes [OF assms(1)] obtain bs where bs: "entenc e bs" "length bs \<le> 16"
    "\<And>b. bindE (logput (PACK64 (of_int off OR of_nat (op1 op len))) b)
        (\<lambda>b. if op1 op len \<ge> Log2wide then logput (PACK64 (of_int len)) b else Inr b) = logput bs b" by blast
  have m: "off mod 256 = 0" using assms(1,2) by (auto simp: opent_def block_mod256)
  have assoc: "bindE (bindE m f) g = bindE m (\<lambda>x. bindE (f x) g)" for m :: "'x res" and f :: "'x \<Rightarrow> 'y res" and g :: "'y \<Rightarrow> 'z res"
    by (cases m) simp_all
  have ops: "op = 4 \<or> op = 5 \<or> op = 3" using assms(1) by (auto simp: opent_def)
  have tl: "0 < bref (logbuf a ! t) \<and> btype (logbuf a ! t) = 3 \<and> 0 \<le> logsz (logbuf a ! t)"
    using assms(5,6) by (auto simp: tailblk_def wfblk_def)
  show ?thesis
    apply (rule that [OF bs(1,2)])
    unfolding logappend_def bs(3) [symmetric] assoc Let_def op1_def [symmetric]
    using m ops assms(3,4) tl by simp
qed


text \<open>The outcome of an append: the entries \<open>new\<close>, for a block the log itself took, and \<open>e\<close>.\<close>

definition appended :: "Dev \<Rightarrow> Arena \<Rightarrow> u64 list \<Rightarrow> Logent list \<Rightarrow> Logent list \<Rightarrow> Logent \<Rightarrow> Dev \<times> Arena \<Rightarrow> bool" where
  "appended w a ys es ds e wa \<longleftrightarrow> (case wa of (w', a') \<Rightarrow>
     \<exists>ys' new ds'. logok w' a' ys' (es @ new @ [e]) ds' \<and> prefix ds ds' \<and> arenaok w' a' ys' \<and>
       set ys \<subseteq> set ys' \<and> (\<forall>v \<in> set ys'. v \<in> set ys \<or> sint v \<in> freespace (free a)) \<and>
       run new (freespace (free a), used a) = Some (freespace (free a'), used a') \<and>
       (\<forall>n \<in> set new. \<exists>ob. n = LAlloc ob Blksz_int) \<and>
       samearena a a' \<and> cached w' = cached w \<and> qgen w' = qgen w \<and> rdonly w' = rdonly w \<and>
       (\<forall>v. v \<notin> set (baddr (loghd a) # ys') \<longrightarrow> disk w' v = disk w v))"

lemma last_notin_butlast: "distinct xs \<Longrightarrow> xs \<noteq> [] \<Longrightarrow> last xs \<notin> set (butlast xs)"
  by (induction xs) (auto split: if_splits)

lemma appended_same:
  assumes "logok w a ys es ds" "arenaok w a ys" "logtl a = Some t" "entenc e bs" "wfent e" "length bs \<le> 16"
    and b: "tailblk b (last (baddr (loghd a) # ys)) e2" "logp b = logp (logbuf a ! t)" "bref b = bref (logbuf a ! t)" "logsz b < 16308"
    and pc: "prechain (disk w) (baddr (loghd a)) ys e1 (last (baddr (loghd a) # ys))"
      "tailok (disk w) a (last (baddr (loghd a) # ys)) e2 d2" "es = e1 @ e2" "ds = e1 @ d2"
  shows "\<exists>c. logput bs b = Inr c \<and> appended w a ys es ds e (w, a\<lparr>logbuf := (logbuf a)[t := c]\<rparr>)"
proof -
  let ?x = "baddr (loghd a)"
  from logput_ent [OF b(1) assms(4,5)] assms(6) b(4) obtain c where
    c: "logput bs b = Inr c" "tailblk c (last (?x # ys)) (e2 @ [e])" "logp c = logp b" "bref c = bref b" "logsz c = logsz b + int (length bs)"
    by auto
  let ?a = "a\<lparr>logbuf := (logbuf a)[t := c]\<rparr>"
  from pc(2) assms(3) have tl: "t < 2" "length (logbuf a) = 2" by (auto simp: tailok_def)
  have nth: "(logbuf a)[t := c] ! t = c" "(logbuf a)[t := c] ! (1 - t) = logbuf a ! (1 - t)"
    using tl other_neq [of t] by simp_all
  have "tailok (disk w) ?a (last (?x # ys)) (e2 @ [e]) d2"
    using pc(2) c b assms(3,6) nth by (auto simp: tailok_def)
  then have "logok w ?a ys (es @ [] @ [e]) ds"
    using assms(1) pc unfolding logok_def Let_def by (auto simp del: last.simps)
  then have "appended w a ys es ds e (w, ?a)"
    unfolding appended_def prod.case using assms(2)
    by (intro exI [of _ ys] exI [of _ "[]"] exI [of _ ds]) (simp add: samearena_def arenaok_def)
  with c(1) show ?thesis by blast
qed


text \<open>
  A new block: it is written before the old tail, whose link makes it part of the log.
\<close>

lemma append_new_writes:
  assumes "length (logbuf a) = 2" "t < 2" "logtl a = Some t" "entenc e bs" "wfent e" "length bs \<le> 16"
    and "tailblk b z e2" "baddr (logp b) = of_int ob" "bref b = 2"
    and "tailblk c (of_int ob) []" "bref c = 2" "baddr (logp c) = -1" "logsz c = 0"
  shows "\<exists>w' a' imgb imgc. (let a = a\<lparr>logbuf := (logbuf a)[t := b, 1 - t := c]\<rparr>; i = 1 - t in
      bindE (logput bs (logbuf a ! i)) (\<lambda>lb.
      let a = a\<lparr>logbuf := (logbuf a)[i := lb]\<rparr> in
      bindE (synclog w a i) (\<lambda>(w, a).
      bindE (synclog w a t) (\<lambda>(w, a).
      Inr (w, a\<lparr>logbuf := (logbuf a)[t := dropblk (logbuf a ! t)], logtl := Some i, nlog := nlog a + 1\<rparr>))))) = Inr (w', a') \<and>
    w' = w\<lparr>disk := (disk w)(of_int ob \<mapsto> imgc, z \<mapsto> imgb)\<rparr> \<and> logimage imgb e2 (of_int ob) \<and> tailimage imgc [e] \<and>
    (\<forall>d. d (of_int ob) = Some imgc \<longrightarrow> tailok d a' (of_int ob) [e] [e]) \<and>
    samearena a a' \<and> free a' = free a \<and> used a' = used a"
proof -
  have t: "1 - t < 2" "1 - t \<noteq> t" "t \<noteq> 1 - t" "1 - (1 - t) = t" using assms(2) other_neq [of t] by auto
  let ?L = "(logbuf a)[t := b, 1 - t := c]"
  from logput_ent [OF assms(10,4,5)] assms(6,13) obtain c2 where
    c2: "logput bs c = Inr c2" "tailblk c2 (of_int ob) [e]" "logp c2 = logp c" "bref c2 = bref c" "logsz c2 = int (length bs)"
    by auto
  let ?a2 = "a\<lparr>logbuf := ?L[1 - t := c2]\<rparr>"
  have n2: "logbuf ?a2 ! (1 - t) = c2" using assms(1) t by simp
  from synclog_correct [of "1 - t" ?a2 "of_int ob" "[e]" w] c2 n2 assms(1,12) t obtain c3 imgc where
    s1: "synclog w ?a2 (1 - t) = Inr (w\<lparr>disk := (disk w)(of_int ob \<mapsto> imgc)\<rparr>, ?a2\<lparr>logbuf := (logbuf ?a2)[1 - t := c3]\<rparr>)"
    and c3: "tailblk c3 (of_int ob) [e]" "logp c3 = logp c" "logsz c3 = int (length bs)" "bref c3 = 2"
      "logimage imgc [e] (-1)" "unat (UNPACK16 (drop 2 imgc)) = length bs" using assms(11) by auto
  let ?a3 = "?a2\<lparr>logbuf := (logbuf ?a2)[1 - t := c3]\<rparr>" and ?w1 = "w\<lparr>disk := (disk w)(of_int ob \<mapsto> imgc)\<rparr>"
  have n3: "logbuf ?a3 ! t = b" using assms(1,2) t by simp
  from synclog_correct [of t ?a3 z e2 ?w1] assms(1,2,7) n3 obtain b3 imgb where
    s2: "synclog ?w1 ?a3 t = Inr (?w1\<lparr>disk := (disk ?w1)(z \<mapsto> imgb)\<rparr>, ?a3\<lparr>logbuf := (logbuf ?a3)[t := b3]\<rparr>)"
    and b3: "tailblk b3 z e2" "bref b3 = 2" "logimage imgb e2 (of_int ob)" using assms(8,9) by auto
  let ?a4 = "?a3\<lparr>logbuf := (logbuf ?a3)[t := b3]\<rparr>"
  let ?a5 = "?a4\<lparr>logbuf := (logbuf ?a4)[t := dropblk b3], logtl := Some (1 - t), nlog := nlog a + 1\<rparr>"
  have n5: "logbuf ?a5 ! (1 - t) = c3" "logbuf ?a5 ! t = dropblk b3" "length (logbuf ?a5) = 2" using assms(1,2) t by simp_all
  have "tailok d ?a5 (of_int ob) [e] [e]" if "d (of_int ob) = Some imgc" for d
    using that n5 c3 b3 t assms(6,12)
    by (auto simp: tailok_def tailimage_def dropblk_def tailblk_def wfblk_def)
  note tok = this
  show ?thesis
    by (rule exI [of _ "?w1\<lparr>disk := (disk ?w1)(z \<mapsto> imgb)\<rparr>"], rule exI [of _ ?a5],
        rule exI [of _ imgb], rule exI [of _ imgc])
      (use tok c2(1) n2 n3 s1 s2 b3(3) c3(5,6) assms(1,2,6) t in \<open>simp add: samearena_def tailimage_def Let_def\<close>)
qed


lemma appended_new:
  assumes "logok w a ys es ds" "arenaok w a ys" "logtl a = Some t" "entenc e bs" "wfent e" "length bs \<le> 16"
    and fr: "wffree fr" "{ob ..< ob + Blksz_int} \<subseteq> freespace (free a)" "freespace fr = freespace (free a) - {ob ..< ob + Blksz_int}"
    and ob: "(of_int ob :: u64) \<notin> set (baddr (loghd a) # ys) \<union> cached w" "(of_int ob :: u64) \<noteq> -1" "0 \<le> ob" "sint (of_int ob :: u64) = ob" "ob mod Blksz_int = 0"
    and b: "tailblk b (last (baddr (loghd a) # ys)) (e2 @ [LAlloc ob Blksz_int])" "baddr (logp b) = of_int ob" "bref b = 2"
    and c: "tailblk c (of_int ob) []" "bref c = 2" "baddr (logp c) = -1" "logsz c = 0"
    and pc: "prechain (disk w) (baddr (loghd a)) ys e1 (last (baddr (loghd a) # ys))"
      "tailok (disk w) a (last (baddr (loghd a) # ys)) e2 d2" "es = e1 @ e2" "ds = e1 @ d2"
  shows "\<exists>wa. (let a = a\<lparr>free := fr, used := used a + Blksz_int, logbuf := (logbuf a)[t := b, 1 - t := c]\<rparr>; i = 1 - t in
      bindE (logput bs (logbuf a ! i)) (\<lambda>lb.
      let a = a\<lparr>logbuf := (logbuf a)[i := lb]\<rparr> in
      bindE (synclog w a i) (\<lambda>(w, a).
      bindE (synclog w a t) (\<lambda>(w, a).
      Inr (w, a\<lparr>logbuf := (logbuf a)[t := dropblk (logbuf a ! t)], logtl := Some i, nlog := nlog a + 1\<rparr>))))) = Inr wa \<and>
    appended w a ys es ds e wa"
proof -
  let ?x = "baddr (loghd a)" and ?z = "last (baddr (loghd a) # ys)" and ?o = "of_int ob :: u64" and ?n = "LAlloc ob Blksz_int"
  let ?a = "a\<lparr>free := fr, used := used a + Blksz_int\<rparr>"
  from pc(2) assms(3) have tl: "t < 2" "length (logbuf a) = 2" by (auto simp: tailok_def)
  from append_new_writes [of ?a t e bs b ?z "e2 @ [?n]" ob c w] tl assms(3-6) b c obtain w' a' imgb imgc where
    eq: "(let a = ?a\<lparr>logbuf := (logbuf ?a)[t := b, 1 - t := c]\<rparr>; i = 1 - t in
      bindE (logput bs (logbuf a ! i)) (\<lambda>lb.
      let a = a\<lparr>logbuf := (logbuf a)[i := lb]\<rparr> in
      bindE (synclog w a i) (\<lambda>(w, a).
      bindE (synclog w a t) (\<lambda>(w, a).
      Inr (w, a\<lparr>logbuf := (logbuf a)[t := dropblk (logbuf a ! t)], logtl := Some i, nlog := nlog a + 1\<rparr>))))) = Inr (w', a')"
    and w': "w' = w\<lparr>disk := (disk w)(?o \<mapsto> imgc, ?z \<mapsto> imgb)\<rparr>" "logimage imgb (e2 @ [?n]) ?o" "tailimage imgc [e]"
    and tok: "\<forall>d. d ?o = Some imgc \<longrightarrow> tailok d a' ?o [e] [e]"
    and a': "samearena ?a a'" "free a' = fr" "used a' = used a + Blksz_int" by auto
  have dis: "distinct (?x # ys)" and nn: "\<forall>v \<in> set (?x # ys). 0 \<le> sint v" using assms(1) by (auto simp: logok_def Let_def)
  have zin: "?z \<in> set (?x # ys)" by (rule last_in_set) simp
  have oz: "?o \<noteq> ?z" using ob(1) last_in_set [of "?x # ys"] by auto
  have "?z \<notin> set (butlast (?x # ys))" "?o \<notin> set (butlast (?x # ys))"
    using last_notin_butlast [OF dis] ob(1) by (auto dest: in_set_butlastD simp del: butlast.simps last.simps)
  then have "prechain (disk w') ?x ys e1 ?z"
    by (intro prechain_disk [OF pc(1)]) (auto simp: w' simp del: butlast.simps last.simps)
  from prechain_snoc [OF this _ w'(2) ob(2)] have pc': "prechain (disk w') ?x (ys @ [?o]) (e1 @ e2 @ [?n]) ?o"
    by (simp add: w'(1))
  have hd': "loghd a' = loghd a" using a'(1) by (simp add: samearena_def)
  have "tailok (disk w') a' ?o [e] [e]" using tok oz by (simp add: w'(1))
  with pc' dis nn ob have lok: "logok w' a' (ys @ [?o]) (es @ [?n] @ [e]) (es @ [?n] @ [e])"
    unfolding logok_def Let_def hd' by (auto simp: pc(3))
  have "prefix d2 e2" using pc(2) by (simp add: tailok_def)
  then have pf: "prefix ds (es @ [?n] @ [e])" by (auto simp: pc(3,4) prefix_def)
  have aok: "arenaok w' a' (ys @ [?o])"
    using assms(2) fr ob a' by (auto simp: arenaok_def samearena_def w'(1))
  have obf: "ob \<in> freespace (free a)" using fr(2) by auto
  have "appended w a ys es ds e (w', a')"
    unfolding appended_def prod.case
    by (intro exI [of _ "ys @ [?o]"], rule exI [of _ "[?n]"], rule exI [of _ "es @ [?n] @ [e]"])
      (use obf zin lok pf aok fr a' ob in \<open>auto simp: samearena_def w'(1) simp del: last.simps\<close>)
  with eq show ?thesis by auto
qed


lemma logappend_correct:
  assumes "logok w a ys es ds" "arenaok w a ys" "opent op off len e" "wfent e"
    and "op \<noteq> LogSync \<longrightarrow> h0 a \<le> off \<and> off < h0 a + arsize a + 2 * Blksz_int"
  shows "(logappend priv w a off len op = Inl Efull \<and> nospace priv a) \<or>
    (\<exists>wa. logappend priv w a off len op = Inr wa \<and> appended w a ys es ds e wa)"
proof -
  let ?x = "baddr (loghd a)" let ?z = "last (?x # ys)"
  from assms(1) obtain e1 e2 d2 where pc: "prechain (disk w) ?x ys e1 ?z" "tailok (disk w) a ?z e2 d2" "es = e1 @ e2" "ds = e1 @ d2"
    unfolding logok_def Let_def by blast
  from pc(2) obtain t where t: "logtl a = Some t" "t < 2" "length (logbuf a) = 2" "tailblk (logbuf a ! t) ?z e2"
    "logsz (logbuf a ! t) \<le> 16340" "bref (logbuf a ! t) = 2" "bref (logbuf a ! (1 - t)) = 1" "length (bbuf (logbuf a ! (1 - t))) = Blksz"
    unfolding tailok_def by blast
  have "bref (logbuf a ! t) > 0" using t(6) by simp
  from logappend_unfold [OF assms(3-5) t(1,4) this, of priv w] obtain bs where bs: "entenc e bs" "length bs \<le> 16" and
    eq: "logappend priv w a off len op = bindE (logroom priv w a t) (\<lambda>(a, i).
       bindE (logput bs (logbuf a ! i)) (\<lambda>lb.
       let a = a\<lparr>logbuf := (logbuf a)[i := lb]\<rparr> in
       if i \<noteq> t then
         bindE (synclog w a i) (\<lambda>(w, a).
         bindE (synclog w a t) (\<lambda>(w, a).
         Inr (w, a\<lparr>logbuf := (logbuf a)[t := dropblk (logbuf a ! t)], logtl := Some i, nlog := nlog a + 1\<rparr>)))
       else Inr (w, a)))" by blast
  from logroom_correct [OF assms(2) t(3,2,1,4,5,7,8), of priv] consider
    (full) "logroom priv w a t = Inl Efull" "nospace priv a"
  | (same) b where "logroom priv w a t = Inr (a\<lparr>logbuf := (logbuf a)[t := b]\<rparr>, t)" "tailblk b ?z e2"
       "logp b = logp (logbuf a ! t)" "bref b = bref (logbuf a ! t)" "logsz b < 16308"
  | (new) fr ob b c where "logroom priv w a t =
         Inr (a\<lparr>free := fr, used := used a + Blksz_int, logbuf := (logbuf a)[t := b, 1 - t := c]\<rparr>, 1 - t)"
       "wffree fr" "{ob ..< ob + Blksz_int} \<subseteq> freespace (free a)" "freespace fr = freespace (free a) - {ob ..< ob + Blksz_int}"
       "(of_int ob :: u64) \<notin> set (?x # ys) \<union> cached w" "(of_int ob :: u64) \<noteq> -1" "0 \<le> ob" "sint (of_int ob :: u64) = ob" "ob mod Blksz_int = 0"
       "tailblk b ?z (e2 @ [LAlloc ob Blksz_int])" "baddr (logp b) = of_int ob" "bref b = 2"
       "tailblk c (of_int ob) []" "bref c = 2" "baddr (logp c) = -1" "logsz c = 0"
    unfolding t(6) by (elim disjE exE conjE) assumption+
  then show ?thesis
  proof cases
    case full
    then show ?thesis by (simp add: eq)
  next
    case same
    from appended_same [OF assms(1,2) t(1) bs(1) assms(4) bs(2) same(2-5) pc] obtain c where
      "logput bs b = Inr c" "appended w a ys es ds e (w, a\<lparr>logbuf := (logbuf a)[t := c]\<rparr>)" by blast
    with same(1) t(2,3) show ?thesis by (simp add: eq)
  next
    case new
    from appended_new [OF assms(1,2) t(1) bs(1) assms(4) bs(2) new(2-16) pc] obtain wa where
      "(let a = a\<lparr>free := fr, used := used a + Blksz_int, logbuf := (logbuf a)[t := b, 1 - t := c]\<rparr>; i = 1 - t in
      bindE (logput bs (logbuf a ! i)) (\<lambda>lb.
      let a = a\<lparr>logbuf := (logbuf a)[i := lb]\<rparr> in
      bindE (synclog w a i) (\<lambda>(w, a).
      bindE (synclog w a t) (\<lambda>(w, a).
      Inr (w, a\<lparr>logbuf := (logbuf a)[t := dropblk (logbuf a ! t)], logtl := Some i, nlog := nlog a + 1\<rparr>))))) = Inr wa"
      "appended w a ys es ds e wa" by blast
    with new(1) other_neq [of t] show ?thesis by (auto simp: eq Let_def)
  qed
qed


section \<open>The log tells the free space\<close>

definition arenainv :: "Dev \<Rightarrow> Arena \<Rightarrow> u64 list \<Rightarrow> Logent list \<Rightarrow> Logent list \<Rightarrow> bool" where
  "arenainv w a ys es ds \<longleftrightarrow> logok w a ys es ds \<and> arenaok w a ys \<and> run es ({}, arsize a) = Some (freespace (free a), used a)"

text \<open>A block of the arena that is in use, and not by the log.\<close>

definition inuse :: "Arena \<Rightarrow> u64 list \<Rightarrow> int \<Rightarrow> bool" where
  "inuse a ys b \<longleftrightarrow> b mod Blksz_int = 0 \<and> h0 a \<le> b \<and> b + Blksz_int \<le> h0 a + arsize a + 2 * Blksz_int \<and>
     {b ..< b + Blksz_int} \<inter> freespace (free a) = {} \<and> of_int b \<notin> set (baddr (loghd a) # ys)"

lemma aligned_in_block: "x mod Blksz_int = 0 \<Longrightarrow> b mod Blksz_int = 0 \<Longrightarrow> x \<in> {b ..< b + Blksz_int} \<Longrightarrow> x = b"
  by (auto simp: mod_eq_0_iff_dvd elim!: dvdE)

lemma run_alloc: "\<forall>n \<in> set new. \<exists>ob. n = LAlloc ob Blksz_int \<Longrightarrow> run new (S, u) = Some (S', u') \<Longrightarrow> S' \<subseteq> S"
proof (induction new arbitrary: S u)
  case (Cons e new)
  then obtain ob where "e = LAlloc ob Blksz_int" by auto
  with Cons.prems(2) have "run new (S - {ob ..< ob + Blksz_int}, u + Blksz_int) = Some (S', u')" by (auto split: if_splits)
  with Cons.IH [OF _ this] Cons.prems(1) show ?case by auto
qed simp

lemma blkdealloc_correct:
  assumes "arenainv w a ys es ds" "inuse a ys b"
  shows "(blkdealloc_lk priv w a b = Inl Efull \<and> nospace priv a) \<or>
    (\<exists>w' a' ys' es' ds'. blkdealloc_lk priv w a b = Inr (w', a') \<and> arenainv w' a' ys' es' ds' \<and> prefix es es' \<and> prefix ds ds' \<and>
       {b ..< b + Blksz_int} \<subseteq> freespace (free a') \<and> freespace (free a') \<subseteq> freespace (free a) \<union> {b ..< b + Blksz_int} \<and>
       samearena a a' \<and> cached w' = cached w - {of_int b})"
proof -
  let ?w = "w\<lparr>cached := cached w - {of_int b}\<rparr>"
  from assms have lok: "logok ?w a ys es ds" and aok: "arenaok ?w a ys" and run: "run es ({}, arsize a) = Some (freespace (free a), used a)"
    by (auto simp: arenainv_def logok_def arenaok_def)
  from assms have b: "b mod Blksz_int = 0" "h0 a \<le> b" "b + Blksz_int \<le> h0 a + arsize a + 2 * Blksz_int" "0 \<le> h0 a"
      "h0 a + arsize a + 2 * Blksz_int < 2 ^ 63" by (auto simp: inuse_def arenainv_def arenaok_def)
  then have wfe: "wfent (LFree b Blksz_int)" by auto
  have ope: "opent 5 b Blksz_int (LFree b Blksz_int)" by (simp add: opent_def)
  have rng: "(5 :: nat) \<noteq> 3 \<longrightarrow> h0 a \<le> b \<and> b < h0 a + arsize a + 2 * Blksz_int" using b by simp
  from logappend_correct [OF lok aok ope wfe rng, of priv] show ?thesis
  proof (elim disjE exE conjE)
    assume "logappend priv ?w a b Blksz_int 5 = Inl (Err ''file system full'')" "nospace priv a"
    then show ?thesis by (simp add: blkdealloc_lk_def)
  next
    fix wa
    assume la: "logappend priv ?w a b Blksz_int 5 = Inr wa" and ap: "appended ?w a ys es ds (LFree b Blksz_int) wa"
    obtain w' a' where wa: "wa = (w', a')" by (cases wa)
    from ap obtain ys' new ds' where A: "logok w' a' ys' (es @ new @ [LFree b Blksz_int]) ds'" "prefix ds ds'" "arenaok w' a' ys'"
      "\<forall>v \<in> set ys'. v \<in> set ys \<or> sint v \<in> freespace (free a)"
      "run new (freespace (free a), used a) = Some (freespace (free a'), used a')" "\<forall>n \<in> set new. \<exists>ob. n = LAlloc ob Blksz_int"
      "samearena a a'" "cached w' = cached w - {of_int b}"
      unfolding appended_def wa by auto
    have sub: "freespace (free a') \<subseteq> freespace (free a)" using run_alloc [OF A(6,5)] .
    with assms(2) have dis: "{b ..< b + Blksz_int} \<inter> freespace (free a') = {}" by (auto simp: inuse_def)
    have wfr: "wfrange \<lparr>roff = b, rlen = Blksz_int\<rparr>" using b by (simp add: wfrange_def)
    have "wffree (free a')" using A(3) by (simp add: arenaok_def)
    from freerange_correct [OF this wfr dis] obtain t where
      t: "freerange (free a') b Blksz_int = Inr t" "wffree t" "freespace t = freespace (free a') \<union> {b ..< b + Blksz_int}" by auto
    let ?a = "a'\<lparr>free := t, used := used a' - Blksz_int\<rparr>"
    have de: "blkdealloc_lk priv w a b = Inr (w', ?a)" using la wa t(1) by (simp add: blkdealloc_lk_def)
    have "logok w' ?a ys' (es @ new @ [LFree b Blksz_int]) ds'" using A(1) by (simp add: logok_def tailok_def)
    moreover have "arenaok w' ?a ys'"
    proof -
      have nfree: "b \<notin> freespace (free a)" using assms(2) by (force simp: inuse_def disjoint_iff)
      have sa: "h0 a' = h0 a" "arsize a' = arsize a" "loghd a' = loghd a" using A(7) by (simp_all add: samearena_def)
      have v: "sint v mod Blksz_int = 0 \<and> sint v \<notin> freespace t" if "v \<in> set (baddr (loghd a') # ys') \<union> cached w'" for v
      proof -
        from A(3) that have al: "sint v mod Blksz_int = 0" "sint v \<notin> freespace (free a')" unfolding arenaok_def by blast+
        have "v \<noteq> of_int b"
          using that A(4,8) sa assms(2) b sint_small [of b] nfree by (auto simp: inuse_def)
        moreover have "v = of_int b" if "sint v \<in> {b ..< b + Blksz_int}"
          using aligned_in_block [OF al(1) b(1) that, symmetric] by simp
        ultimately show ?thesis using al t(3) by blast
      qed
      have "freespace t \<subseteq> {h0 a ..< h0 a + arsize a + 2 * Blksz_int}"
        using A(3) b t(3) sa by (auto simp: arenaok_def)
      with A(3) v t(2) b sa show ?thesis by (simp add: arenaok_def)
    qed
    moreover have "run (es @ new @ [LFree b Blksz_int]) ({}, arsize ?a) = Some (freespace (free ?a), used ?a)"
      using run A(5,7) dis t(3) by (simp add: run_append samearena_def)
    ultimately have "arenainv w' ?a ys' (es @ new @ [LFree b Blksz_int]) ds'" by (simp add: arenainv_def)
    then have "blkdealloc_lk priv w a b = Inr (w', ?a) \<and> arenainv w' ?a ys' (es @ new @ [LFree b Blksz_int]) ds' \<and>
        prefix es (es @ new @ [LFree b Blksz_int]) \<and> prefix ds ds' \<and>
        {b ..< b + Blksz_int} \<subseteq> freespace (free ?a) \<and> freespace (free ?a) \<subseteq> freespace (free a) \<union> {b ..< b + Blksz_int} \<and>
        samearena a ?a \<and> cached w' = cached w - {of_int b}"
      using de A(2,7,8) sub t(3) by (auto simp: samearena_def)
    then show ?thesis by (intro disjI2 exI) assumption
  qed
qed


text \<open>Taking a block before or after the log took its own comes to the same.\<close>

lemma run_swap:
  "\<forall>n \<in> set new. \<exists>ob. n = LAlloc ob Blksz_int \<Longrightarrow> run new (S - {b ..< b + Blksz_int}, u + Blksz_int) = Some (S', u') \<Longrightarrow>
   {b ..< b + Blksz_int} \<subseteq> S \<Longrightarrow> run (new @ [LAlloc b Blksz_int]) (S, u) = Some (S', u')"
proof (induction new arbitrary: S u)
  case (Cons e new)
  then obtain c where e: "e = LAlloc c Blksz_int" by auto
  with Cons.prems(2) have c: "{c ..< c + Blksz_int} \<subseteq> S - {b ..< b + Blksz_int}"
    and r: "run new (S - {b ..< b + Blksz_int} - {c ..< c + Blksz_int}, u + Blksz_int + Blksz_int) = Some (S', u')"
    by (auto simp del: atLeastLessThan_iff split: if_splits)
  have "S - {b ..< b + Blksz_int} - {c ..< c + Blksz_int} = S - {c ..< c + Blksz_int} - {b ..< b + Blksz_int}" by blast
  with Cons.IH [of "S - {c ..< c + Blksz_int}" "u + Blksz_int"] r c Cons.prems(1,3) e show ?case
    by (auto simp del: atLeastLessThan_iff)
qed auto

text \<open>A block is taken and then logged; the log may take a block of its own in between.\<close>

lemma arenaalloc_correct:
  assumes "arenainv w a ys es ds"
  shows "(arenaalloc priv ur w a ty seq = Inr (w, a, -1)) \<or>
    (arenaalloc priv ur w a ty seq = Inl Efull) \<or>
    (\<exists>w' a' ys' es' ds' b. arenaalloc priv ur w a ty seq = Inr (w', a', b) \<and> arenainv w' a' ys' es' ds' \<and> prefix es es' \<and> prefix ds ds' \<and>
       0 \<le> b \<and> b mod Blksz_int = 0 \<and> {b ..< b + Blksz_int} \<subseteq> freespace (free a) \<and>
       freespace (free a') \<subseteq> freespace (free a) - {b ..< b + Blksz_int} \<and> inuse a' ys' b \<and> of_int b \<notin> cached w \<and>
       samearena a a' \<and> cached w' = cached w \<and> (\<not> ur \<and> ty = Tdat \<longrightarrow> arsize a - used a > 2 * reserve a))"
proof (cases "(ty = Tdat \<and> \<not> ur \<and> arsize a - used a \<le> 2 * reserve a) \<or> arsize a - used a \<le> Logfloor * Blksz_int")
  case True
  then show ?thesis by (auto simp: arenaalloc_def)
next
  case room: False
  from assms have lok: "logok w a ys es ds" and aok: "arenaok w a ys" and run: "run es ({}, arsize a) = Some (freespace (free a), used a)"
    by (auto simp: arenainv_def)
  from blkalloc_log [OF aok, of priv seq] show ?thesis
  proof (elim disjE exE conjE)
    assume "blkalloc_lk priv a seq = Inr (a, -1)"
    with room show ?thesis by (auto simp: arenaalloc_def)
  next
    fix t ob
    assume al: "blkalloc_lk priv a seq = Inr (a\<lparr>free := t, used := used a + Blksz_int\<rparr>, ob)" "wffree t"
      "{ob ..< ob + Blksz_int} \<subseteq> freespace (free a)" "freespace t = freespace (free a) - {ob ..< ob + Blksz_int}"
      "0 \<le> ob" "wfent (LAlloc ob Blksz_int)" "h0 a \<le> ob" "ob + Blksz_int \<le> h0 a + arsize a + 2 * Blksz_int"
      "(of_int ob :: u64) \<notin> set (baddr (loghd a) # ys) \<union> cached w" "sint (of_int ob :: u64) = ob"
    let ?a = "a\<lparr>free := t, used := used a + Blksz_int\<rparr>" and ?e = "LAlloc ob Blksz_int"
    have lok1: "logok w ?a ys es ds" using lok by (simp add: logok_def tailok_def)
    have aok1: "arenaok w ?a ys" using aok al(2,4) by (auto simp: arenaok_def)
    have ope: "opent 4 ob Blksz_int ?e" by (simp add: opent_def)
    have rng: "(4 :: nat) \<noteq> 3 \<longrightarrow> h0 ?a \<le> ob \<and> ob < h0 ?a + arsize ?a + 2 * Blksz_int" using al(7,8) by simp
    from logappend_correct [OF lok1 aok1 ope al(6) rng, of priv] show ?thesis
    proof (elim disjE exE conjE)
      assume "logappend priv w ?a ob Blksz_int 4 = Inl (Err ''file system full'')"
      with room al show ?thesis by (auto simp: arenaalloc_def)
    next
      fix wa
      assume la: "logappend priv w ?a ob Blksz_int 4 = Inr wa" and ap: "appended w ?a ys es ds ?e wa"
      obtain w' a' where wa: "wa = (w', a')" by (cases wa)
      from ap obtain ys' new ds' where A: "logok w' a' ys' (es @ new @ [?e]) ds'" "prefix ds ds'" "arenaok w' a' ys'"
        "\<forall>v \<in> set ys'. v \<in> set ys \<or> sint v \<in> freespace t"
        "run new (freespace t, used a + Blksz_int) = Some (freespace (free a'), used a')" "\<forall>n \<in> set new. \<exists>ob. n = LAlloc ob Blksz_int"
        "samearena ?a a'" "cached w' = cached w"
        unfolding appended_def wa by auto
      have sub: "freespace (free a') \<subseteq> freespace t" using run_alloc [OF A(6,5)] .
      have "run (es @ new @ [?e]) ({}, arsize a) = Some (freespace (free a'), used a')"
        using run run_swap [OF A(6) A(5) [unfolded al(4)] al(3)] by (simp add: run_append)
      then have "arenainv w' a' ys' (es @ new @ [?e]) ds'" using A(1,3,7) by (simp add: arenainv_def samearena_def)
      moreover have "inuse a' ys' ob"
        using al A(4,7) sub by (auto simp: inuse_def samearena_def wfent.simps)
      moreover have "arenaalloc priv ur w a ty seq = Inr (w', a', ob)" using room al(1,5) la wa by (auto simp: arenaalloc_def)
      ultimately have "arenaalloc priv ur w a ty seq = Inr (w', a', ob) \<and> arenainv w' a' ys' (es @ new @ [?e]) ds' \<and>
          prefix es (es @ new @ [?e]) \<and> prefix ds ds' \<and> 0 \<le> ob \<and> ob mod Blksz_int = 0 \<and>
          {ob ..< ob + Blksz_int} \<subseteq> freespace (free a) \<and> freespace (free a') \<subseteq> freespace (free a) - {ob ..< ob + Blksz_int} \<and>
          inuse a' ys' ob \<and> of_int ob \<notin> cached w \<and> samearena a a' \<and> cached w' = cached w \<and>
          (\<not> ur \<and> ty = Tdat \<longrightarrow> arsize a - used a > 2 * reserve a)"
        using A(2,7,8) al sub room by (auto simp: samearena_def)
      then show ?thesis by (intro disjI2 exI) assumption
    qed
  qed (use room in \<open>auto simp: arenaalloc_def\<close>)
qed


subsection \<open>Barriers and flushing\<close>

lemma logbarrier_correct:
  assumes "arenainv w a ys es ds" "0 \<le> gen" "gen < 2 ^ 55"
  shows "(logbarrier priv w a gen = Inl Efull \<and> nospace priv a) \<or>
    (\<exists>w' a' ys' new ds'. logbarrier priv w a gen = Inr (w', a') \<and> arenainv w' a' ys' (es @ new @ [LSync gen]) ds' \<and>
       prefix ds ds' \<and> (\<forall>n \<in> set new. \<exists>ob. n = LAlloc ob Blksz_int) \<and> samearena a a' \<and> cached w' = cached w)"
proof -
  from assms have lok: "logok w a ys es ds" and aok: "arenaok w a ys" and run: "run es ({}, arsize a) = Some (freespace (free a), used a)"
    by (auto simp: arenainv_def)
  have ope: "opent 3 (gen * 256) 0 (LSync gen)" by (simp add: opent_def)
  have wfe: "wfent (LSync gen)" using assms(2,3) by simp
  have "(3 :: nat) \<noteq> 3 \<longrightarrow> h0 a \<le> gen * 256 \<and> gen * 256 < h0 a + arsize a + 2 * Blksz_int" by simp
  from logappend_correct [OF lok aok ope wfe this, of priv] show ?thesis
  proof (elim disjE exE conjE)
    fix wa
    assume la: "logappend priv w a (gen * 256) 0 3 = Inr wa" and ap: "appended w a ys es ds (LSync gen) wa"
    obtain w' a' where wa: "wa = (w', a')" by (cases wa)
    from ap obtain ys' new ds' where A: "logok w' a' ys' (es @ new @ [LSync gen]) ds'" "prefix ds ds'" "arenaok w' a' ys'"
      "run new (freespace (free a), used a) = Some (freespace (free a'), used a')" "\<forall>n \<in> set new. \<exists>ob. n = LAlloc ob Blksz_int"
      "samearena a a'" "cached w' = cached w"
      unfolding appended_def wa by auto
    then have "arenainv w' a' ys' (es @ new @ [LSync gen]) ds'"
      using run by (simp add: arenainv_def run_append samearena_def)
    with la wa A have "logbarrier priv w a gen = Inr (w', a') \<and> arenainv w' a' ys' (es @ new @ [LSync gen]) ds' \<and>
       prefix ds ds' \<and> (\<forall>n \<in> set new. \<exists>ob. n = LAlloc ob Blksz_int) \<and> samearena a a' \<and> cached w' = cached w"
      by (simp add: logbarrier_def)
    then show ?thesis by (intro disjI2 exI) assumption
  qed (simp_all add: logbarrier_def)
qed

lemma flushlog_correct:
  assumes "arenainv w a ys es ds"
  shows "\<exists>w' a'. flushlog w a = Inr (w', a') \<and> arenainv w' a' ys es es \<and> samearena a a' \<and> free a' = free a \<and> used a' = used a \<and>
    cached w' = cached w"
proof -
  let ?x = "baddr (loghd a)" let ?z = "last (?x # ys)"
  from assms have lok: "logok w a ys es ds" and aok: "arenaok w a ys" and run: "run es ({}, arsize a) = Some (freespace (free a), used a)"
    by (auto simp: arenainv_def)
  from lok obtain e1 e2 d2 where pc: "prechain (disk w) ?x ys e1 ?z" "tailok (disk w) a ?z e2 d2" "es = e1 @ e2" "ds = e1 @ d2"
    and dis: "distinct (?x # ys)" "\<forall>v \<in> set (?x # ys). 0 \<le> sint v"
    unfolding logok_def Let_def by blast
  from pc(2) obtain t where t: "logtl a = Some t" "t < 2" "length (logbuf a) = 2" "tailblk (logbuf a ! t) ?z e2"
    "logsz (logbuf a ! t) \<le> 16340" "bref (logbuf a ! t) = 2" "baddr (logp (logbuf a ! t)) = -1"
    "bref (logbuf a ! (1 - t)) = 1" "length (bbuf (logbuf a ! (1 - t))) = Blksz"
    unfolding tailok_def by blast
  have "\<not> checkflag (logbuf a ! t) 0 (Bdirty OR Bstatic)"
    using t(4) by (intro checkflag_static) (simp add: tailblk_def)
  then have fl: "flushlog w a = synclog w a t" by (simp add: flushlog_def t(1))
  from synclog_correct [of t a ?z e2 w] t obtain b img where
    s: "synclog w a t = Inr (w\<lparr>disk := (disk w)(?z \<mapsto> img)\<rparr>, a\<lparr>logbuf := (logbuf a)[t := b]\<rparr>)"
    and b: "tailblk b ?z e2" "baddr (logp b) = -1" "logsz b \<le> 16340" "bref b = 2" "logimage img e2 (-1)" "unat (UNPACK16 (drop 2 img)) \<le> 16340"
    by auto
  let ?a = "a\<lparr>logbuf := (logbuf a)[t := b]\<rparr>" and ?w = "w\<lparr>disk := (disk w)(?z \<mapsto> img)\<rparr>"
  have "tailok (disk ?w) ?a ?z e2 e2" using t b other_neq [of t] by (auto simp: tailok_def tailimage_def)
  moreover have "prechain (disk ?w) ?x ys e1 ?z"
    using last_notin_butlast [OF dis(1)] by (intro prechain_disk [OF pc(1)]) (auto simp del: butlast.simps last.simps)
  ultimately have "logok ?w ?a ys es es" using dis pc(3) unfolding logok_def Let_def by (auto simp del: last.simps)
  moreover have "arenaok ?w ?a ys" using aok by (simp add: arenaok_def)
  ultimately show ?thesis using run fl s by (auto simp: arenainv_def samearena_def)
qed

end
