(* ===== verification/Gefs_Crash.thy ===== *)
theory Gefs_Crash
  imports Gefs_Recovery
begin

text \<open>
  An arena at work, as a step relation: blocks are allocated and freed, barriers are logged, the
  tail of the log is flushed, and meanwhile the rest of the file system fills and empties the
  cache and writes blocks that are not the log's.  The theorems are about any sequence of such
  steps, cut off by a crash at any point.
\<close>

inductive arena_step :: "Dev \<times> Arena \<Rightarrow> Dev \<times> Arena \<Rightarrow> bool" where
  alloc: "arenaalloc priv ur w a ty seq = Inr (w', a', b) \<Longrightarrow> arena_step (w, a) (w', a')"
| dealloc: "blkdealloc_lk priv w a b = Inr (w', a') \<Longrightarrow> (\<And>ys es ds. logok w a ys es ds \<Longrightarrow> inuse a ys b) \<Longrightarrow>
    arena_step (w, a) (w', a')"
| mark: "logbarrier priv w a gen = Inr (w', a') \<Longrightarrow> 0 \<le> gen \<Longrightarrow> gen < 2 ^ 55 \<Longrightarrow> arena_step (w, a) (w', a')"
| flush: "flushlog w a = Inr (w', a') \<Longrightarrow> arena_step (w, a) (w', a')"
| cache: "(\<And>v. v \<in> C \<Longrightarrow> sint v mod Blksz_int = 0 \<and> sint v \<notin> freespace (free a)) \<Longrightarrow>
    arena_step (w, a) (w\<lparr>cached := C\<rparr>, a)"
| datawrite: "(\<And>ys es ds. logok w a ys es ds \<Longrightarrow> v \<notin> set (baddr (loghd a) # ys)) \<Longrightarrow>
    arena_step (w, a) (w\<lparr>disk := (disk w)(v \<mapsto> img)\<rparr>, a)"

lemma logok_write:
  assumes "logok w a ys es ds" "v \<notin> set (baddr (loghd a) # ys)"
  shows "logok (w\<lparr>disk := (disk w)(v \<mapsto> img)\<rparr>) a ys es ds"
proof -
  let ?x = "baddr (loghd a)" let ?z = "last (?x # ys)"
  from assms(1) obtain e1 e2 d2 where pc: "prechain (disk w) ?x ys e1 ?z" "tailok (disk w) a ?z e2 d2" "es = e1 @ e2" "ds = e1 @ d2"
    and dis: "distinct (?x # ys)" "\<forall>v \<in> set (?x # ys). 0 \<le> sint v"
    unfolding logok_def Let_def by blast
  have "prechain ((disk w)(v \<mapsto> img)) ?x ys e1 ?z"
    using assms(2) by (intro prechain_disk [OF pc(1)]) (auto dest: in_set_butlastD simp del: butlast.simps)
  moreover have "?z \<noteq> v" using assms(2) last_in_set [of "?x # ys"] by auto
  then have "tailok ((disk w)(v \<mapsto> img)) a ?z e2 d2" using pc(2) by (simp add: tailok_def del: last.simps)
  ultimately show ?thesis using dis pc(3,4) unfolding logok_def Let_def by (auto simp del: last.simps)
qed

lemma logok_prefix: "logok w a ys es ds \<Longrightarrow> prefix ds es"
  by (auto simp: logok_def tailok_def Let_def)

text \<open>Every step keeps the log true, and adds to what the disk has of it.\<close>

lemma arena_step_inv:
  assumes "arena_step (w, a) (w', a')" "arenainv w a ys es ds"
  shows "\<exists>ys' es' ds'. arenainv w' a' ys' es' ds' \<and> prefix es es' \<and> prefix ds ds' \<and> samearena a a'"
  using assms(1)
proof cases
  case (alloc priv ur ty seq b)
  with arenaalloc_correct [OF assms(2), of priv ur ty seq] assms(2) show ?thesis
    by (fastforce simp: samearena_def)
next
  case (dealloc priv b)
  from assms(2) have "logok w a ys es ds" by (simp add: arenainv_def)
  then have "inuse a ys b" by (rule dealloc(2))
  from blkdealloc_correct [OF assms(2) this, of priv] dealloc(1) show ?thesis by fastforce
next
  case (mark priv gen)
  with logbarrier_correct [OF assms(2) mark(2,3), of priv] obtain ys' new ds' where
    "arenainv w' a' ys' (es @ new @ [LSync gen]) ds'" "prefix ds ds'" "samearena a a'" by auto
  moreover have "prefix es (es @ new @ [LSync gen])" by simp
  ultimately show ?thesis by blast
next
  case flush
  with flushlog_correct [OF assms(2)] have "arenainv w' a' ys es es" "samearena a a'" by auto
  moreover have "prefix ds es" using assms(2) by (auto simp: arenainv_def dest: logok_prefix)
  ultimately show ?thesis by blast
next
  case (cache C)
  with assms(2) have "arenainv w' a' ys es ds \<and> samearena a a'"
    by (auto simp: arenainv_def logok_def arenaok_def samearena_def)
  then show ?thesis by blast
next
  case (datawrite v img)
  from assms(2) have l: "logok w a ys es ds" by (simp add: arenainv_def)
  with logok_write [OF l datawrite(3) [OF l], of img] datawrite assms(2) have "arenainv w' a' ys es ds \<and> samearena a a'"
    by (auto simp: arenainv_def arenaok_def samearena_def)
  then show ?thesis by blast
qed

lemma arena_steps_inv:
  assumes "arena_step\<^sup>*\<^sup>* (w, a) (w', a')" "arenainv w a ys es ds"
  shows "\<exists>ys' es' ds'. arenainv w' a' ys' es' ds' \<and> prefix es es' \<and> prefix ds ds' \<and> samearena a a'"
  using assms(1)
proof (induction rule: rtranclp_induct2)
  case refl
  show ?case using assms(2) by (auto simp: samearena_def)
next
  case (step w1 a1 w2 a2)
  then obtain ys1 es1 ds1 where "arenainv w1 a1 ys1 es1 ds1" "prefix es es1" "prefix ds ds1" "samearena a a1" by blast
  with arena_step_inv [OF step(2) this(1)] show ?case by (meson prefix_order.trans samearena_trans)
qed

subsection \<open>A small arena\<close>

text \<open>
  An arena of thirty-two blocks with sixteen free ones and a log of one entry, as a formatted disk has
  it; it shows that the hypotheses of the theorems can hold.
\<close>

definition log0 :: Blk where
  "log0 = zeroblk\<lparr>btype := Tlog, bdata := 36, bbp := \<lparr>baddr = 32768, bhash = -1, bgen = -1\<rparr>, bflag := Bstatic, bref := 2,
     logp := Zb, logsz := 16, bbuf := put 36 (PACK64 (65536 OR 5) @ PACK64 262144) (replicate Blksz 0)\<rparr>"

definition arena0 :: Arena where
  "arena0 = \<lparr>free = Node Nil \<lparr>roff = 65536, rlen = 262144\<rparr> 0 Nil, arsize = 524288, used = 262144, reserve = 0, h0 = 0,
     logbuf = [log0, zeroblk\<lparr>bref := 1, bflag := Bstatic\<rparr>], logtl = Some 0,
     loghd = \<lparr>baddr = 32768, bhash = -1, bgen = -1\<rparr>, nlog = 1, lastlogsz = 0\<rparr>"

definition dev0 :: Dev where
  "dev0 = \<lparr>disk = [32768 \<mapsto> (case finalize log0 of Inr b \<Rightarrow> bbuf b | Inl _ \<Rightarrow> [])], cached = {}, qgen = 0, rdonly = False\<rparr>"

text \<open>The same arena before its log is loaded.\<close>

definition arena1 :: Arena where
  "arena1 = arena0\<lparr>free := Nil, used := 524288, logtl := None, nlog := 0,
     logbuf := [zeroblk\<lparr>bref := 1, bflag := Bstatic\<rparr>, zeroblk\<lparr>bref := 1, bflag := Bstatic\<rparr>]\<rparr>"

lemma log0_tail: "tailblk log0 32768 [LFree 65536 262144]"
proof -
  have "take 16 (drop 36 (bbuf log0)) = PACK64 (65536 OR 5) @ PACK64 262144"
    by (simp add: log0_def drop_put_inner put_0)
  moreover have "entenc (LFree 65536 262144) (PACK64 (65536 OR 5) @ PACK64 262144)" by simp
  ultimately have "logenc [LFree 65536 262144] (take (nat (logsz log0)) (drop 36 (bbuf log0)))" by (simp add: log0_def)
  then show ?thesis
    by (simp add: tailblk_def wfblk_def datastart_def checkflag_def log0_def zeroblk_def)
qed

lemma freespace_arena0: "freespace (free arena0) = {65536 ..< 327680}"
  by (simp add: arena0_def freespace_def extent_def)

lemma arena0_inv: "arenainv dev0 arena0 [] [LFree 65536 262144] [LFree 65536 262144]"
proof -
  from finalize_log [OF log0_tail] obtain b where b: "finalize log0 = Inr b" "logimage (bbuf b) [LFree 65536 262144] (-1)"
    "unat (UNPACK16 (drop 2 (bbuf b))) = 16" by (auto simp: log0_def Zb_def)
  have "tailok (disk dev0) arena0 32768 [LFree 65536 262144] [LFree 65536 262144]"
    using b log0_tail by (auto simp: tailok_def dev0_def arena0_def tailimage_def log0_def zeroblk_def Zb_def)
  then have "logok dev0 arena0 [] [LFree 65536 262144] [LFree 65536 262144]"
    by (auto simp: logok_def arena0_def)
  moreover have "arenaok dev0 arena0 []"
    using freespace_arena0 by (auto simp: arenaok_def dev0_def wffree_def arena0_def wfrange_def)
  moreover have "run [LFree 65536 262144] ({}, arsize arena0) = Some (freespace (free arena0), used arena0)"
    using freespace_arena0 by (simp add: arena0_def)
  ultimately show ?thesis by (simp add: arenainv_def)
qed

lemma arena1_fresh: "fresh arena1"
  by (auto simp: fresh_def arena1_def arena0_def zeroblk_def checkflag_def)

section \<open>The theorems\<close>



lemma upto_append_barrier: "\<forall>e \<in> set es. \<not> barrier q e \<Longrightarrow> q \<le> gen \<Longrightarrow> upto q (es @ LSync gen # rest) = es"
  by (induction es) auto



end
