(* ===== verification/Gefs_Arenas.thy ===== *)
theory Gefs_Arenas
  imports Gefs_Crash "HOL-Library.Signed_Division"
begin

text \<open>
  \<open>sys/src/9/gefs/blk.c\<close>, several arenas: which arena a new block comes from (\<open>pickarena\<close>,
  \<open>blkalloc\<close>), which arena a block belongs to (\<open>getarena\<close>), and \<open>dataroom\<close>.

  \<open>Gefs\<close> has the arenas in the order of their addresses, the addresses of the two superblocks,
  the counter \<open>roundrobin\<close> and the device they share.
\<close>

record Gefs =
  arenas :: "Arena list"
  sb0 :: int
  sb1 :: int
  roundrobin :: u32
  dev :: Dev

abbreviation narena :: "Gefs \<Rightarrow> nat" where "narena fs \<equiv> length (arenas fs)"

section \<open>The arena of a block\<close>

text \<open>
  The binary search, with the division of C, which rounds to zero.  For an address below the
  first arena it would not end and for one above the last it reads past the array; \<open>n\<close> bounds
  the number of rounds.
\<close>

fun getarena_loop :: "nat \<Rightarrow> Arena list \<Rightarrow> int \<Rightarrow> int \<Rightarrow> int \<Rightarrow> nat res" where
  "getarena_loop 0 as b lo hi = Inl Wild"
| "getarena_loop (Suc n) as b lo hi =
     (let mid = (hi + lo) sdiv 2 in
      if 0 \<le> mid \<and> mid < int (length as) then
        let a = as ! nat mid; alo = h0 a; ahi = alo + arsize a + 2 * Blksz_int in
        if b < alo then getarena_loop n as b lo (mid - 1)
        else if b > ahi then getarena_loop n as b (mid + 1) hi
        else Inr (nat mid)
      else Inl Wild)"

definition getarena :: "Gefs \<Rightarrow> int \<Rightarrow> nat res" where
  "getarena fs b =
     (if b = sb0 fs then Inr 0
      else if b = sb1 fs then Inr (narena fs - 1)
      else getarena_loop (narena fs + 1) (arenas fs) b 0 (int (narena fs)))"

section \<open>Allocation over the arenas\<close>

text \<open>
  \<open>aincl\<close> returns the new value of the counter, a 32-bit \<open>long\<close>; the rest is unsigned.  A data
  block in a file system of one arena divides by zero.
\<close>

definition pickarena :: "Gefs \<Rightarrow> int \<Rightarrow> u32 \<Rightarrow> nat \<Rightarrow> (Gefs \<times> nat) res" where
  "pickarena fs ty hint tries =
     (let rr = roundrobin fs + 1;
          fs = fs\<lparr>roundrobin := rr\<rparr>;
          r = of_int (sint rr sdiv 2048) :: u32;
          na = of_nat (narena fs) :: u32 in
      assertE (ty = Tdat \<longrightarrow> na - 1 \<noteq> 0)
      (let n = (if ty = Tdat then hint mod (na - 1) + r + 1 else r) in
       assertE (na \<noteq> 0) (Inr (fs, unat ((n + of_nat tries) mod na)))))"

text \<open>
  \<open>blkalloc\<close> from \<open>tries = 2*narena - left\<close> on.  \<open>busy\<close> tells for which tries \<open>canqlock\<close>
  finds the arena locked by another process; a try that waits for the lock always gets it.
\<close>

fun blkalloc_again :: "nat \<Rightarrow> (nat \<Rightarrow> bool) \<Rightarrow> bool \<Rightarrow> bool \<Rightarrow> Gefs \<Rightarrow> int \<Rightarrow> u32 \<Rightarrow> bool \<Rightarrow> (Gefs \<times> int) res" where
  "blkalloc_again left busy priv ur fs ty hint seq =
     (let tries = 2 * narena fs - left in
      bindE (pickarena fs ty hint tries) (\<lambda>(fs, k).
      case left of 0 \<Rightarrow> Inl Efull
      | Suc left \<Rightarrow>
        if tries + 1 < narena fs \<and> busy tries then blkalloc_again left busy priv ur fs ty hint seq
        else
          bindE (arenaalloc priv ur (dev fs) (arenas fs ! k) ty seq) (\<lambda>(w, a, b).
          let fs = fs\<lparr>dev := w, arenas := (arenas fs)[k := a]\<rparr> in
          if b = -1 then blkalloc_again left busy priv ur fs ty hint seq
          else Inr (fs, b))))"

declare blkalloc_again.simps [simp del]

definition blkalloc :: "(nat \<Rightarrow> bool) \<Rightarrow> bool \<Rightarrow> bool \<Rightarrow> Gefs \<Rightarrow> int \<Rightarrow> u32 \<Rightarrow> bool \<Rightarrow> (Gefs \<times> int) res" where
  "blkalloc busy priv ur fs ty hint seq = blkalloc_again (2 * narena fs) busy priv ur fs ty hint seq"

definition dataroom :: "bool \<Rightarrow> Gefs \<Rightarrow> int \<Rightarrow> bool" where
  "dataroom ur fs n =
     (ur \<or> n < foldl (\<lambda>left a. if arsize a - used a > 2 * reserve a then left + (arsize a - used a - 2 * reserve a) else left)
                  0 (arenas fs))"

section \<open>Correctness\<close>

text \<open>The arenas follow each other on the disk, each with its two headers first.\<close>

definition wfarenas :: "Gefs \<Rightarrow> bool" where
  "wfarenas fs \<longleftrightarrow>
     (\<forall>k < narena fs. 0 \<le> arsize (arenas fs ! k)) \<and>
     (\<forall>k. Suc k < narena fs \<longrightarrow> h0 (arenas fs ! k) + arsize (arenas fs ! k) + 2 * Blksz_int \<le> h0 (arenas fs ! Suc k))"

definition inarena :: "Arena \<Rightarrow> int \<Rightarrow> bool" where
  "inarena a b \<longleftrightarrow> h0 a < b \<and> b < h0 a + arsize a + 2 * Blksz_int"

lemma wfarenas_less:
  assumes "wfarenas fs" "j < k" "k < narena fs"
  shows "h0 (arenas fs ! j) + arsize (arenas fs ! j) + 2 * Blksz_int \<le> h0 (arenas fs ! k)"
  using assms(2,3)
proof (induction k)
  case (Suc k)
  from assms(1) Suc.prems(2) have s: "h0 (arenas fs ! k) + arsize (arenas fs ! k) + 2 * Blksz_int \<le> h0 (arenas fs ! Suc k)"
    "0 \<le> arsize (arenas fs ! k)" by (auto simp: wfarenas_def)
  show ?case
  proof (cases "j = k")
    case False
    with Suc have "h0 (arenas fs ! j) + arsize (arenas fs ! j) + 2 * Blksz_int \<le> h0 (arenas fs ! k)" by simp
    with s show ?thesis by linarith
  qed (use s in simp)
qed simp

lemma getarena_loop_correct:
  assumes "wfarenas fs" "k < narena fs" "inarena (arenas fs ! k) b"
    and "0 \<le> lo" "lo \<le> int k" "int k \<le> hi" "hi \<le> int (narena fs)" "nat (hi - lo) < n"
  shows "getarena_loop n (arenas fs) b lo hi = Inr k"
  using assms(4-)
proof (induction n arbitrary: lo hi)
  case (Suc n)
  define mid where "mid = (hi + lo) sdiv 2"
  have mid: "mid = (hi + lo) div 2" using Suc.prems by (cases "hi + lo = 0") (auto simp: mid_def signed_divide_int_def sgn_if)
  then have m: "lo \<le> mid" "mid \<le> hi" "0 \<le> mid" "mid < int (narena fs)" using Suc.prems assms(2) by auto
  let ?a = "arenas fs ! nat mid"
  consider "nat mid < k" | "nat mid = k" | "k < nat mid" by linarith
  then show ?case
  proof cases
    case 1
    from wfarenas_less [OF assms(1) 1 assms(2)] assms(3) have "b > h0 ?a + arsize ?a + 2 * Blksz_int" by (simp add: inarena_def)
    moreover have "0 \<le> arsize ?a" using assms(1) m by (simp add: wfarenas_def nat_less_iff)
    ultimately have "b > h0 ?a + arsize ?a + 2 * Blksz_int" "\<not> b < h0 ?a" by linarith+
    moreover have "getarena_loop n (arenas fs) b (mid + 1) hi = Inr k"
      using 1 m Suc.prems by (intro Suc.IH) auto
    ultimately show ?thesis using m by (simp add: Let_def flip: mid_def)
  next
    case 2
    with assms(3) m show ?thesis by (simp add: Let_def inarena_def flip: mid_def)
  next
    case 3
    have "nat mid < narena fs" using m by (simp add: nat_less_iff)
    from wfarenas_less [OF assms(1) 3 this] assms(3) have "b < h0 ?a" by (simp add: inarena_def)
    moreover have "getarena_loop n (arenas fs) b lo (mid - 1) = Inr k"
      using 3 m Suc.prems by (intro Suc.IH) auto
    ultimately show ?thesis using m by (simp add: Let_def flip: mid_def)
  qed
qed simp

text \<open>
  A block's arena is found: when the arenas follow each other on the disk, the binary search of
  \<open>getarena\<close> ends and returns the arena that has the address, for every address after the first
  header of an arena.
\<close>

theorem getarena_finds:
  assumes "wfarenas fs" "k < narena fs" "inarena (arenas fs ! k) b" "b \<noteq> sb0 fs" "b \<noteq> sb1 fs"
  shows "getarena fs b = Inr k"
  using assms getarena_loop_correct [OF assms(1-3), of 0 "int (narena fs)" "narena fs + 1"] by (simp add: getarena_def)

definition arenaA :: "int \<Rightarrow> Arena" where
  "arenaA off = \<lparr>free = Node Nil \<lparr>roff = off + 65536, rlen = 131072\<rparr> 0 Nil, arsize = 262144, used = 131072, reserve = 0, h0 = off,
     logbuf = [], logtl = None, loghd = Zb, nlog = 0, lastlogsz = 0\<rparr>"

definition fsA :: Gefs where
  "fsA = \<lparr>arenas = [arenaA 16384, arenaA 311296, arenaA 606208], sb0 = 0, sb1 = 901120, roundrobin = 0,
     dev = \<lparr>disk = Map.empty, cached = {}, qgen = 0, rdonly = False\<rparr>\<rparr>"

lemma fsA_wf: "wfarenas fsA"
  by (auto simp: wfarenas_def fsA_def arenaA_def less_Suc_eq nth_Cons')

theorem getarena_finds_witness: "getarena fsA 622592 = Inr 2 \<and> getarena fsA 327680 = Inr 1 \<and> wfarenas fsA"
  using getarena_finds [OF fsA_wf, of 2 622592] getarena_finds [OF fsA_wf, of 1 327680] fsA_wf
  by (simp add: fsA_def arenaA_def inarena_def)

lemma pickarena_frame:
  assumes "pickarena fs ty hint tries = Inr (fs', k)" "narena fs < 2 ^ 32"
  shows "k < narena fs" "\<exists>rr. fs' = fs\<lparr>roundrobin := rr\<rparr>"
proof -
  from assms(1) obtain n where k: "k = unat ((n + of_nat tries) mod (of_nat (narena fs) :: u32))" "(of_nat (narena fs) :: u32) \<noteq> 0"
    by (auto simp: pickarena_def Let_def res_simps)
  then have "k < unat (of_nat (narena fs) :: u32)"
    by (simp add: unat_mod unat_gt_0)
  also have "\<dots> = narena fs" using assms(2) by (simp add: unat_of_nat take_bit_nat_eq_self)
  finally show "k < narena fs" .
  show "\<exists>rr. fs' = fs\<lparr>roundrobin := rr\<rparr>"
    using assms(1) by (auto simp: pickarena_def Let_def res_simps)
qed

lemma blkalloc_again_sound:
  assumes "blkalloc_again left busy priv ur fs ty hint seq = Inr (fs', b)" "narena fs < 2 ^ 32"
    and "\<forall>k < narena fs. arenainv (dev fs) (arenas fs ! k) (ys k) (es k) (ds k)"
  shows "\<exists>k < narena fs. \<exists>a' rr w' ys' es' ds'. fs' = fs\<lparr>roundrobin := rr, dev := w', arenas := (arenas fs)[k := a']\<rparr> \<and>
    {b ..< b + Blksz_int} \<subseteq> freespace (free (arenas fs ! k)) \<and> b mod Blksz_int = 0 \<and>
    freespace (free a') \<subseteq> freespace (free (arenas fs ! k)) - {b ..< b + Blksz_int} \<and>
    arenainv w' a' ys' es' ds' \<and> prefix (es k) es' \<and> inuse a' ys' b \<and> samearena (arenas fs ! k) a' \<and>
    (\<not> ur \<and> ty = Tdat \<longrightarrow> arsize (arenas fs ! k) - used (arenas fs ! k) > 2 * reserve (arenas fs ! k))"
  using assms
proof (induction left arbitrary: fs)
  case 0
  then show ?case by (auto simp: blkalloc_again.simps Let_def res_simps)
next
  case (Suc left)
  let ?tries = "2 * narena fs - Suc left"
  from Suc.prems(1) obtain fs1 k where pk: "pickarena fs ty hint ?tries = Inr (fs1, k)"
    by (auto simp: blkalloc_again.simps [of "Suc left"] Let_def res_simps)
  from pickarena_frame [OF pk Suc.prems(2)] obtain rr where k: "k < narena fs" and fs1: "fs1 = fs\<lparr>roundrobin := rr\<rparr>" by blast
  have again: ?case if "blkalloc_again left busy priv ur fs1 ty hint seq = Inr (fs', b)"
    using Suc.IH [OF that] Suc.prems(2,3) by (simp add: fs1)
  show ?case
  proof (cases "?tries + 1 < narena fs \<and> busy ?tries")
    case True
    with Suc.prems(1) pk fs1 again show ?thesis by (simp add: blkalloc_again.simps [of "Suc left"] Let_def)
  next
    case False
    have eq: "bindE (arenaalloc priv ur (dev fs) (arenas fs ! k) ty seq) (\<lambda>(w, a, b).
          let fs = fs1\<lparr>dev := w, arenas := (arenas fs)[k := a]\<rparr> in
          if b = -1 then blkalloc_again left busy priv ur fs ty hint seq else Inr (fs, b)) = Inr (fs', b)"
      using Suc.prems(1) pk False by (simp add: blkalloc_again.simps [of "Suc left"] Let_def fs1 cong: if_cong split: if_split_asm)
    from Suc.prems(3) k have inv: "arenainv (dev fs) (arenas fs ! k) (ys k) (es k) (ds k)" by blast
    from arenaalloc_correct [OF inv, of priv ur ty seq] show ?thesis
    proof (elim disjE exE conjE)
      assume al: "arenaalloc priv ur (dev fs) (arenas fs ! k) ty seq = Inr (dev fs, arenas fs ! k, -1)"
      have "fs1\<lparr>dev := dev fs, arenas := (arenas fs)[k := arenas fs ! k]\<rparr> = fs1" by (simp add: fs1)
      with eq al have "blkalloc_again left busy priv ur fs1 ty hint seq = Inr (fs', b)" by simp
      then show ?thesis by (rule again)
    next
      assume "arenaalloc priv ur (dev fs) (arenas fs ! k) ty seq = Inl Efull"
      with eq show ?thesis by simp
    next
      fix w' a' ys' es' ds' ob
      assume al: "arenaalloc priv ur (dev fs) (arenas fs ! k) ty seq = Inr (w', a', ob)" "arenainv w' a' ys' es' ds'"
        "prefix (es k) es'" "0 \<le> ob" "ob mod Blksz_int = 0" "{ob ..< ob + Blksz_int} \<subseteq> freespace (free (arenas fs ! k))"
        "freespace (free a') \<subseteq> freespace (free (arenas fs ! k)) - {ob ..< ob + Blksz_int}" "inuse a' ys' ob" "samearena (arenas fs ! k) a'"
        "\<not> ur \<and> ty = Tdat \<longrightarrow> arsize (arenas fs ! k) - used (arenas fs ! k) > 2 * reserve (arenas fs ! k)"
      then have "fs' = fs\<lparr>roundrobin := rr, dev := w', arenas := (arenas fs)[k := a']\<rparr>" "b = ob"
        using eq by (auto simp: fs1)
      with al k show ?thesis
        by (intro exI [of _ k] exI [of _ a'] exI [of _ rr] exI [of _ w'] exI [of _ ys'] exI [of _ es'] exI [of _ ds'] conjI) simp_all
    qed
  qed
qed

lemma foldl_room:
  "(0 :: int) \<le> l \<Longrightarrow> l \<le> foldl (\<lambda>left a. if f a > 0 then left + f a else left) l as \<and>
   (a \<in> set as \<and> f a > 0 \<longrightarrow> 0 < foldl (\<lambda>left a. if f a > 0 then left + f a else left) l as)"
proof (induction as arbitrary: l)
  case (Cons x as)
  from Cons.IH [of "if f x > 0 then l + f x else l"] Cons.prems show ?case by (auto split: if_splits)
qed simp

lemma dataroom_some:
  assumes "a \<in> set (arenas fs)" "arsize a - used a > 2 * reserve a"
  shows "dataroom ur fs 0"
proof -
  have *: "(\<lambda>left a. if arsize a - used a > 2 * reserve a then left + (arsize a - used a - 2 * reserve a) else left) =
    (\<lambda>left a. if arsize a - used a - 2 * reserve a > 0 then left + (arsize a - used a - 2 * reserve a) else left)"
    by (auto simp: fun_eq_iff)
  show ?thesis
    unfolding dataroom_def *
    using foldl_room [of 0 "\<lambda>a. arsize a - used a - 2 * reserve a" "arenas fs" a] assms by simp
qed

text \<open>
  C29. A block comes from the free space of one arena and \<open>getarena\<close> gives it back to that arena:
  when \<open>blkalloc\<close> succeeds, whichever arenas were locked, the block was free in an arena \<open>k\<close>,
  only that arena changes, the block is not free there any more, the arena's log still tells its
  free space, and the search by address finds \<open>k\<close>.  Data blocks are only given out while
  \<open>dataroom\<close> has room.
\<close>

theorem blkalloc_sound:
  assumes "blkalloc busy priv ur fs ty hint seq = Inr (fs', b)" "wfarenas fs" "narena fs < 2 ^ 32"
    and "\<forall>k < narena fs. arenainv (dev fs) (arenas fs ! k) (ys k) (es k) (ds k)"
    and "\<forall>k < narena fs. freespace (free (arenas fs ! k)) \<subseteq> {h0 (arenas fs ! k) <..} - {sb0 fs, sb1 fs}"
  shows "\<exists>k < narena fs. {b ..< b + Blksz_int} \<subseteq> freespace (free (arenas fs ! k)) \<and>
    (\<forall>j < narena fs. j \<noteq> k \<longrightarrow> arenas fs' ! j = arenas fs ! j) \<and>
    {b ..< b + Blksz_int} \<inter> freespace (free (arenas fs' ! k)) = {} \<and>
    (\<exists>ys' es' ds'. arenainv (dev fs') (arenas fs' ! k) ys' es' ds' \<and> inuse (arenas fs' ! k) ys' b) \<and>
    getarena fs' b = Inr k \<and> (ty = Tdat \<longrightarrow> dataroom ur fs 0)"
proof -
  from blkalloc_again_sound [OF assms(1) [unfolded blkalloc_def] assms(3,4)] obtain k a' rr w' ys' es' ds' where
    k: "k < narena fs" and fs': "fs' = fs\<lparr>roundrobin := rr, dev := w', arenas := (arenas fs)[k := a']\<rparr>" and
    b: "{b ..< b + Blksz_int} \<subseteq> freespace (free (arenas fs ! k))" and
    f: "freespace (free a') \<subseteq> freespace (free (arenas fs ! k)) - {b ..< b + Blksz_int}" and
    inv: "arenainv w' a' ys' es' ds'" "inuse a' ys' b" and same: "samearena (arenas fs ! k) a'" and
    room: "\<not> ur \<and> ty = Tdat \<longrightarrow> arsize (arenas fs ! k) - used (arenas fs ! k) > 2 * reserve (arenas fs ! k)"
    by blast
  have bf: "b \<in> freespace (free (arenas fs ! k))" using b by auto
  with assms(5) k have "h0 (arenas fs ! k) < b" and sb: "b \<noteq> sb0 fs" "b \<noteq> sb1 fs" by (blast, auto)
  moreover have "b < h0 (arenas fs ! k) + arsize (arenas fs ! k) + 2 * Blksz_int"
    using assms(4) k bf unfolding arenainv_def arenaok_def by fastforce
  ultimately have "inarena (arenas fs ! k) b" by (simp add: inarena_def)
  then have "inarena (arenas fs' ! k) b" using same k by (simp add: fs' inarena_def samearena_def)
  moreover have "h0 (arenas fs' ! j) = h0 (arenas fs ! j) \<and> arsize (arenas fs' ! j) = arsize (arenas fs ! j)" for j
    using same k by (simp add: fs' samearena_def nth_list_update)
  then have "wfarenas fs'" using assms(2) by (simp add: wfarenas_def) (simp add: fs')
  ultimately have "getarena fs' b = Inr k"
    using getarena_loop_correct [of fs' k b 0 "int (narena fs')" "narena fs' + 1"] k sb by (simp add: getarena_def fs')
  moreover have "ty = Tdat \<longrightarrow> dataroom ur fs 0"
    using room dataroom_some [of "arenas fs ! k" fs ur] k by (cases ur) (auto simp: dataroom_def)
  ultimately show ?thesis using k b f inv by (intro exI [of _ k]) (auto simp: fs')
qed

definition fsB :: Gefs where
  "fsB = \<lparr>arenas = [arena0], sb0 = -16384, sb1 = 557056, roundrobin = 0, dev = dev0\<rparr>"

lemma fsB_alloc: "\<exists>fs'. blkalloc (\<lambda>_. False) True False fsB Tleaf 0 True = Inr (fs', 65536)"
proof -
  have "\<exists>w a. arenaalloc True False dev0 arena0 Tleaf True = Inr (w, a, 65536)"
    by (simp add: arenaalloc_def arena0_def blkalloc_lk_def logappend_def logroom_def logput_def log0_def zeroblk_def
        checkflag_def setflag_def avlnode_def rangecmp_def)
  then show ?thesis
    by (auto simp: blkalloc_def fsB_def blkalloc_again.simps pickarena_def)
qed

theorem blkalloc_sound_witness:
  "\<exists>fs'. blkalloc (\<lambda>_. False) True False fsB Tleaf 0 True = Inr (fs', 65536) \<and> getarena fs' 65536 = Inr 0 \<and>
    {65536 ..< 65536 + Blksz_int} \<inter> freespace (free (arenas fs' ! 0)) = {}"
proof -
  from fsB_alloc obtain fs' where "blkalloc (\<lambda>_. False) True False fsB Tleaf 0 True = Inr (fs', 65536)" ..
  moreover have "wfarenas fsB" "narena fsB < 2 ^ 32" by (auto simp: fsB_def wfarenas_def arena0_def)
  moreover have "\<forall>k < narena fsB. arenainv (dev fsB) (arenas fsB ! k) [] [LFree 65536 262144] [LFree 65536 262144]"
    using arena0_inv by (simp add: fsB_def)
  moreover have "\<forall>k < narena fsB. freespace (free (arenas fsB ! k)) \<subseteq> {h0 (arenas fsB ! k) <..} - {sb0 fsB, sb1 fsB}"
    using freespace_arena0 by (auto simp: fsB_def) (simp add: arena0_def)
  ultimately show ?thesis
    using blkalloc_sound [of "\<lambda>_. False" True False fsB Tleaf 0 True fs' 65536 "\<lambda>_. []" "\<lambda>_. [LFree 65536 262144]" "\<lambda>_. [LFree 65536 262144]"]
    by (auto simp: fsB_def)
qed

end
