(* ===== verification/Array_Heap.thy ===== *)
theory Array_Heap
  imports Prelude "HOL-Library.Multiset"
begin

text \<open>
  A binary heap in an array, as the write-back queues of \<open>sys/src/9/gefs/blk.c\<close> keep it: the
  loop of \<open>qput\<close> that moves an entry up and the loop of \<open>qpop\<close> that moves one down, over an
  arbitrary comparison.  The locale \<open>heap_order\<close> states what they need of the comparison and
  proves that they implement a priority queue.
\<close>

section \<open>The loops\<close>

text \<open>The loop of \<open>qput\<close>: the hole at \<open>i\<close> moves up until its parent is not above \<open>x\<close>.\<close>

function siftup :: "('a \<Rightarrow> 'a \<Rightarrow> int) \<Rightarrow> 'a \<Rightarrow> 'a list \<Rightarrow> nat \<Rightarrow> 'a list" where
  "siftup cmp x h i =
     (if i > 0 \<and> cmp x (h ! ((i - 1) div 2)) \<noteq> 1
      then siftup cmp x (h[i := h ! ((i - 1) div 2)]) ((i - 1) div 2)
      else h[i := x])"
  by pat_completeness auto
termination
  by (relation "measure (\<lambda>(cmp, x, h, i). i)") auto

text \<open>The loop of \<open>qpop\<close>: the entry at \<open>i\<close> is exchanged with its least child.\<close>

definition least3 :: "('a \<Rightarrow> 'a \<Rightarrow> int) \<Rightarrow> nat \<Rightarrow> 'a list \<Rightarrow> nat \<Rightarrow> nat" where
  "least3 cmp n h i =
     (let l = 2 * i + 1; r = 2 * i + 2;
          m = (if l < n \<and> cmp (h ! i) (h ! l) = 1 then l else i)
      in if r < n \<and> cmp (h ! m) (h ! r) = 1 then r else m)"

lemma least3_cases:
  "least3 cmp n h i = i \<or> least3 cmp n h i = 2 * i + 1 \<and> 2 * i + 1 < n \<or> least3 cmp n h i = 2 * i + 2 \<and> 2 * i + 2 < n"
  by (simp add: least3_def Let_def)

function siftdown :: "('a \<Rightarrow> 'a \<Rightarrow> int) \<Rightarrow> nat \<Rightarrow> 'a list \<Rightarrow> nat \<Rightarrow> 'a list" where
  "siftdown cmp n h i =
     (let m = least3 cmp n h i in
      if m = i then h else siftdown cmp n (h[m := h ! i, i := h ! m]) m)"
  by pat_completeness auto
termination
proof (relation "measure (\<lambda>(cmp, n, h, i). n - i)", simp)
  fix cmp :: "'a \<Rightarrow> 'a \<Rightarrow> int" and n :: nat and h :: "'a list" and i m :: nat
  assume "m = least3 cmp n h i" "m \<noteq> i"
  with least3_cases [of cmp n h i] show "((cmp, n, h[m := h ! i, i := h ! m], m), cmp, n, h, i) \<in> measure (\<lambda>(cmp, n, h, i). n - i)"
    by auto
qed

declare siftup.simps [simp del] siftdown.simps [simp del]

locale heap_order =
  fixes cmp :: "'a \<Rightarrow> 'a \<Rightarrow> int" and hkey :: "'a \<Rightarrow> 'k :: linorder"
  assumes cmp_above: "cmp a b = 1 \<longleftrightarrow> hkey b < hkey a"
begin

text \<open>No entry is below its parent, with the exception of the pairs of \<open>p\<close>.\<close>

definition heap :: "nat \<Rightarrow> 'a list \<Rightarrow> bool" where
  "heap n h \<longleftrightarrow> n \<le> length h \<and> (\<forall>i. 0 < i \<and> i < n \<longrightarrow> hkey (h ! ((i - 1) div 2)) \<le> hkey (h ! i))"

lemma heap_root: "heap n h \<Longrightarrow> i < n \<Longrightarrow> hkey (h ! 0) \<le> hkey (h ! i)"
proof (induction i rule: less_induct)
  case (less i)
  show ?case
  proof (cases "i = 0")
    case False
    then have "hkey (h ! ((i - 1) div 2)) \<le> hkey (h ! i)" using less.prems by (simp add: heap_def)
    moreover have "hkey (h ! 0) \<le> hkey (h ! ((i - 1) div 2))" using less False by simp
    ultimately show ?thesis by order
  qed simp
qed

text \<open>The invariants of the two loops: the order holds but for the entry at \<open>i\<close>.\<close>

definition upheap :: "'a \<Rightarrow> nat \<Rightarrow> 'a list \<Rightarrow> nat \<Rightarrow> bool" where
  "upheap x n h i \<longleftrightarrow> i < n \<and> n \<le> length h \<and>
     (\<forall>j. 0 < j \<and> j < n \<and> j \<noteq> i \<longrightarrow>
        (if (j - 1) div 2 = i
         then hkey x \<le> hkey (h ! j) \<and> (0 < i \<longrightarrow> hkey (h ! ((i - 1) div 2)) \<le> hkey (h ! j))
         else hkey (h ! ((j - 1) div 2)) \<le> hkey (h ! j)))"

definition downheap :: "nat \<Rightarrow> 'a list \<Rightarrow> nat \<Rightarrow> bool" where
  "downheap n h i \<longleftrightarrow> i < n \<and> n \<le> length h \<and>
     (\<forall>j. 0 < j \<and> j < n \<longrightarrow>
        (if (j - 1) div 2 = i
         then 0 < i \<longrightarrow> hkey (h ! ((i - 1) div 2)) \<le> hkey (h ! j)
         else hkey (h ! ((j - 1) div 2)) \<le> hkey (h ! j)))"

lemma upheap_step:
  assumes "upheap x n h i" "0 < i" "\<not> hkey (h ! ((i - 1) div 2)) < hkey x"
  shows "upheap x n (h[i := h ! ((i - 1) div 2)]) ((i - 1) div 2)"
proof -
  let ?p = "(i - 1) div 2"
  have p: "?p < i" "?p < n" "i < length h" using assms by (auto simp: upheap_def)
  have ok: "if (j - 1) div 2 = i
         then hkey x \<le> hkey (h ! j) \<and> (0 < i \<longrightarrow> hkey (h ! ((i - 1) div 2)) \<le> hkey (h ! j))
         else hkey (h ! ((j - 1) div 2)) \<le> hkey (h ! j)" if "0 < j" "j < n" "j \<noteq> i" for j
    using assms(1) that unfolding upheap_def by blast
  have pp: "hkey (h ! ((?p - 1) div 2)) \<le> hkey (h ! ?p)" if "0 < ?p"
    using ok [OF that p(2)] p that by (auto split: if_splits)
  show ?thesis
    unfolding upheap_def
  proof (intro conjI allI impI)
    fix j assume j: "0 < j \<and> j < n \<and> j \<noteq> ?p"
    show "if (j - 1) div 2 = ?p
      then hkey x \<le> hkey (h[i := h ! ?p] ! j) \<and> (0 < ?p \<longrightarrow> hkey (h[i := h ! ?p] ! ((?p - 1) div 2)) \<le> hkey (h[i := h ! ?p] ! j))
      else hkey (h[i := h ! ?p] ! ((j - 1) div 2)) \<le> hkey (h[i := h ! ?p] ! j)"
    proof (cases "j = i")
      case True
      with p pp assms(3) show ?thesis by (auto simp: nth_list_update)
    next
      case False
      with ok [of j] j have k: "if (j - 1) div 2 = i
         then hkey x \<le> hkey (h ! j) \<and> (0 < i \<longrightarrow> hkey (h ! ?p) \<le> hkey (h ! j))
         else hkey (h ! ((j - 1) div 2)) \<le> hkey (h ! j)" by blast
      consider "(j - 1) div 2 = i" | "(j - 1) div 2 = ?p" | "(j - 1) div 2 \<noteq> i" "(j - 1) div 2 \<noteq> ?p" by blast
      then show ?thesis
      proof cases
        case 1
        with k p False assms(2) show ?thesis by (auto simp: nth_list_update)
      next
        case 2
        with k p have "hkey (h ! ?p) \<le> hkey (h ! j)" by auto
        with 2 p False pp assms(3) show ?thesis by (auto simp: nth_list_update not_less)
      next
        case 3
        with k False show ?thesis by (simp add: nth_list_update)
      qed
    qed
  qed (use p assms in \<open>auto simp: upheap_def\<close>)
qed

lemma upheap_done:
  assumes "upheap x n h i" "i = 0 \<or> hkey (h ! ((i - 1) div 2)) < hkey x"
  shows "heap n (h[i := x])"
  unfolding heap_def
proof (intro conjI allI impI)
  fix j assume j: "0 < j \<and> j < n"
  have l: "i < length h" using assms(1) by (simp add: upheap_def)
  show "hkey (h[i := x] ! ((j - 1) div 2)) \<le> hkey (h[i := x] ! j)"
  proof (cases "j = i")
    case True
    with j assms(2) l show ?thesis by (auto simp: nth_list_update)
  next
    case False
    with j assms(1) have "if (j - 1) div 2 = i
         then hkey x \<le> hkey (h ! j) \<and> (0 < i \<longrightarrow> hkey (h ! ((i - 1) div 2)) \<le> hkey (h ! j))
         else hkey (h ! ((j - 1) div 2)) \<le> hkey (h ! j)"
      unfolding upheap_def by blast
    with False l show ?thesis by (cases "(j - 1) div 2 = i") simp_all
  qed
qed (use assms(1) in \<open>simp add: upheap_def\<close>)

lemma mset_take_swap:
  "i < n \<Longrightarrow> j < n \<Longrightarrow> n \<le> length h \<Longrightarrow> mset (take n (h[i := h ! j, j := h ! i])) = mset (take n h)"
  using mset_swap [of j "take n h" i] by (simp add: take_update_swap)

lemma siftup_correct:
  assumes "upheap x n h i"
  shows "heap n (siftup cmp x h i) \<and> length (siftup cmp x h i) = length h \<and>
    mset (take n (siftup cmp x h i)) = mset (take n (h[i := x]))"
  using assms
proof (induction i arbitrary: h rule: less_induct)
  case (less i)
  let ?p = "(i - 1) div 2" and ?h = "h[i := h ! ((i - 1) div 2)]"
  show ?case
  proof (cases "i > 0 \<and> cmp x (h ! ?p) \<noteq> 1")
    case True
    then have up: "upheap x n ?h ?p" using upheap_step [OF less.prems] by (simp add: cmp_above)
    have p: "?p < i" "i < n" "n \<le> length h" "?p < n" using True less.prems by (auto simp: upheap_def)
    have "h[i := x, i := h[i := x] ! ?p, ?p := h[i := x] ! i] = ?h[?p := x]" using p by simp
    with mset_take_swap [of i n ?p "h[i := x]"] p have "mset (take n (?h[?p := x])) = mset (take n (h[i := x]))" by simp
    with less.IH [OF p(1) up] True show ?thesis by (simp add: siftup.simps [of cmp x h i])
  next
    case False
    with upheap_done [OF less.prems] show ?thesis by (auto simp: siftup.simps [of cmp x h i] cmp_above)
  qed
qed

lemma downheap_step:
  assumes "downheap n h i" "m = least3 cmp n h i" "m \<noteq> i"
  shows "downheap n (h[m := h ! i, i := h ! m]) m"
proof -
  have m: "0 < m" "m < n" "(m - 1) div 2 = i" "i < m" "i < length h" "m < length h"
    using assms least3_cases [of cmp n h i] by (auto simp: downheap_def)
  have least: "hkey (h ! m) \<le> hkey (h ! j)" if "j < n" "j = i \<or> 0 < j \<and> (j - 1) div 2 = i" for j
  proof -
    have "j = i \<or> j = 2 * i + 1 \<or> j = 2 * i + 2" using that by auto
    with that(1) show ?thesis unfolding assms(2) least3_def Let_def by (auto simp: cmp_above)
  qed
  have ok: "if (j - 1) div 2 = i
         then 0 < i \<longrightarrow> hkey (h ! ((i - 1) div 2)) \<le> hkey (h ! j)
         else hkey (h ! ((j - 1) div 2)) \<le> hkey (h ! j)" if "0 < j" "j < n" for j
    using assms(1) that unfolding downheap_def by blast
  show ?thesis
    unfolding downheap_def
  proof (intro conjI allI impI)
    let ?h = "h[m := h ! i, i := h ! m]"
    fix j assume j: "0 < j \<and> j < n"
    consider "j = m" | "j = i" | "j \<noteq> m" "j \<noteq> i" by blast
    then show "if (j - 1) div 2 = m then 0 < m \<longrightarrow> hkey (?h ! ((m - 1) div 2)) \<le> hkey (?h ! j)
      else hkey (?h ! ((j - 1) div 2)) \<le> hkey (?h ! j)"
    proof cases
      case 1
      with m least [of i] show ?thesis by (auto simp: nth_list_update)
    next
      case 2
      then have "(j - 1) div 2 < i" using j div_le_dividend [of "i - 1" 2] by linarith
      then have "(j - 1) div 2 \<noteq> m" "(j - 1) div 2 \<noteq> i" using m(4) by linarith+
      moreover have "hkey (h ! ((i - 1) div 2)) \<le> hkey (h ! m)" using ok [of m] m 2 j by simp
      ultimately show ?thesis using m 2 by simp
    next
      case 3
      with ok [of j] least [of j] m j show ?thesis by (auto simp: nth_list_update split: if_splits)
    qed
  qed (use m assms in \<open>auto simp: downheap_def\<close>)
qed

lemma siftdown_correct:
  assumes "downheap n h i"
  shows "heap n (siftdown cmp n h i) \<and> length (siftdown cmp n h i) = length h \<and>
    mset (take n (siftdown cmp n h i)) = mset (take n h)"
  using assms
proof (induction "n - i" arbitrary: h i rule: less_induct)
  case less
  let ?m = "least3 cmp n h i" and ?h = "h[least3 cmp n h i := h ! i, i := h ! least3 cmp n h i]"
  show ?case
  proof (cases "?m = i")
    case True
    have "hkey (h ! i) \<le> hkey (h ! j)" if "j < n" "j = 2 * i + 1 \<or> j = 2 * i + 2" for j
      using True that unfolding least3_def Let_def by (auto simp: cmp_above split: if_splits)
    moreover have "j = 2 * i + 1 \<or> j = 2 * i + 2" if "0 < j" "(j - 1) div 2 = i" for j
      using that by auto
    ultimately have "heap n h" using less.prems unfolding heap_def downheap_def by metis
    then show ?thesis using True by (simp add: siftdown.simps [of cmp n h i])
  next
    case False
    then have down: "downheap n ?h ?m" using downheap_step [OF less.prems] by simp
    have m: "?m < n" "i < ?m" "n \<le> length h" using False less.prems least3_cases [of cmp n h i] by (auto simp: downheap_def)
    with mset_take_swap [of ?m n i h] have "mset (take n ?h) = mset (take n h)" by simp
    with less.hyps [OF _ down] m False show ?thesis by (simp add: siftdown.simps [of cmp n h i] Let_def)
  qed
qed

section \<open>Insertion and removal of the least entry\<close>

lemma siftup_insert:
  assumes "heap n h" "n < length h"
  shows "heap (Suc n) (siftup cmp x h n) \<and> length (siftup cmp x h n) = length h \<and>
    mset (take (Suc n) (siftup cmp x h n)) = add_mset x (mset (take n h))"
proof -
  have "(j - 1) div 2 \<noteq> n" if "0 < j" "j < Suc n" for j
    using that div_le_dividend [of "j - 1" 2] by linarith
  then have "upheap x (Suc n) h n" using assms by (auto simp: upheap_def heap_def)
  moreover have "take (Suc n) (h[n := x]) = take n h @ [x]" using assms(2) by (simp add: take_Suc_conv_app_nth)
  ultimately show ?thesis using siftup_correct [of x "Suc n" h n] by simp
qed

lemma siftdown_remove:
  assumes "heap (Suc n) h" "0 < n"
  shows "heap n (siftdown cmp n (h[0 := h ! n]) 0) \<and> length (siftdown cmp n (h[0 := h ! n]) 0) = length h \<and>
    add_mset (h ! 0) (mset (take n (siftdown cmp n (h[0 := h ! n]) 0))) = mset (take (Suc n) h)"
proof -
  have l: "n < length h" using assms by (simp add: heap_def)
  have "downheap n (h[0 := h ! n]) 0"
    unfolding downheap_def
  proof (intro conjI allI impI)
    fix j assume j: "0 < j \<and> j < n"
    with assms(1) have "hkey (h ! ((j - 1) div 2)) \<le> hkey (h ! j)" by (auto simp: heap_def)
    with j l show "if (j - 1) div 2 = 0 then 0 < (0::nat) \<longrightarrow> hkey (h[0 := h ! n] ! ((0 - 1) div 2)) \<le> hkey (h[0 := h ! n] ! j)
      else hkey (h[0 := h ! n] ! ((j - 1) div 2)) \<le> hkey (h[0 := h ! n] ! j)" by simp
  qed (use assms(2) l in auto)
  from siftdown_correct [OF this] have
    "heap n (siftdown cmp n (h[0 := h ! n]) 0) \<and> length (siftdown cmp n (h[0 := h ! n]) 0) = length h \<and>
     mset (take n (siftdown cmp n (h[0 := h ! n]) 0)) = mset (take n (h[0 := h ! n]))" by simp
  moreover obtain y ys where h: "h = y # ys" using l by (cases h) auto
  then have "add_mset y (mset (take n (h[0 := h ! n]))) = mset (take (Suc n) h)"
    using assms(2) l by (cases n) (simp_all add: take_Suc_conv_app_nth)
  ultimately show ?thesis using h by simp
qed

end

section \<open>Priority queues\<close>

text \<open>
  The interface the write-back relies on: \<open>q_put\<close> adds an entry when there is room and \<open>q_pop\<close>
  takes a least one.  Clients see a queue as the multiset of its entries.
\<close>

locale prio_queue =
  fixes q_inv :: "'q \<Rightarrow> bool"
    and q_mset :: "'q \<Rightarrow> 'a multiset"
    and q_full :: "'q \<Rightarrow> bool"
    and q_put :: "'a \<Rightarrow> 'q \<Rightarrow> 'q"
    and q_pop :: "'q \<Rightarrow> 'a \<times> 'q"
    and q_key :: "'a \<Rightarrow> 'k :: linorder"
  assumes put_inv: "q_inv q \<Longrightarrow> \<not> q_full q \<Longrightarrow> q_inv (q_put x q)"
    and put_mset: "q_inv q \<Longrightarrow> \<not> q_full q \<Longrightarrow> q_mset (q_put x q) = add_mset x (q_mset q)"
    and pop_inv: "q_inv q \<Longrightarrow> q_mset q \<noteq> {#} \<Longrightarrow> q_inv (snd (q_pop q))"
    and pop_mset: "q_inv q \<Longrightarrow> q_mset q \<noteq> {#} \<Longrightarrow> q_mset q = add_mset (fst (q_pop q)) (q_mset (snd (q_pop q)))"
    and pop_least: "q_inv q \<Longrightarrow> e \<in># q_mset q \<Longrightarrow> q_key (fst (q_pop q)) \<le> q_key e"
begin

text \<open>Popping until the queue is empty.\<close>

fun drain :: "nat \<Rightarrow> 'q \<Rightarrow> 'a list" where
  "drain 0 q = []"
| "drain (Suc n) q = fst (q_pop q) # drain n (snd (q_pop q))"

lemma drain_sorted:
  "q_inv q \<Longrightarrow> size (q_mset q) = n \<Longrightarrow> mset (drain n q) = q_mset q \<and> sorted_wrt (\<lambda>a b. q_key a \<le> q_key b) (drain n q)"
proof (induction n arbitrary: q)
  case (Suc n)
  then have ne: "q_mset q \<noteq> {#}" by auto
  let ?e = "fst (q_pop q)" and ?q = "snd (q_pop q)"
  have m: "q_mset q = add_mset ?e (q_mset ?q)" using pop_mset Suc.prems(1) ne by blast
  then have "size (q_mset ?q) = n" using Suc.prems(2) by simp
  from Suc.IH [OF pop_inv [OF Suc.prems(1) ne] this] have
    IH: "mset (drain n ?q) = q_mset ?q" "sorted_wrt (\<lambda>a b. q_key a \<le> q_key b) (drain n ?q)" by auto
  have "q_key ?e \<le> q_key e" if "e \<in> set (drain n ?q)" for e
  proof -
    have "e \<in># q_mset q" using that by (simp add: m flip: IH(1))
    then show ?thesis by (rule pop_least [OF Suc.prems(1)])
  qed
  with IH m show ?case by simp
qed simp

end

end
