(* ===== verification/Gefs_Syncq.thy ===== *)
theory Gefs_Syncq
  imports Gefs_Arenas Array_Heap "HOL-Library.Product_Lexorder"
begin

text \<open>
  \<open>sys/src/9/gefs/blk.c\<close>, the write-back queues: \<open>enqueue\<close>, \<open>qinit\<close>, \<open>qcmp\<close>, \<open>qput\<close>, \<open>qpop\<close>
  and one round of \<open>runsync\<close>.

  Blocks to write, blocks to free and fences wait in a queue, ordered by the generation in which
  they were queued, then fences before writes before frees, then by address.  \<open>Wbk\<close> is what a
  syncing process works on: its queue, the file system, the blocks in memory by number, and the
  count of queues a sync still waits for.  A process that would sleep (on a full or an empty queue)
  is \<open>None\<close>.
\<close>

abbreviation (input) Qfence :: int where "Qfence \<equiv> 1"
abbreviation (input) Qwrite :: int where "Qwrite \<equiv> 2"
abbreviation (input) Qfree :: int where "Qfree \<equiv> 3"

record Qent =
  qqgen :: int
  qbp :: Bptr
  qb :: "nat option"
  qop :: int

record Syncq =
  qheap :: "Qent list"
  nheap :: nat
  heapsz :: nat

record Wbk =
  wfs :: Gefs
  wblks :: "nat \<Rightarrow> Blk"
  wq :: Syncq
  syncing :: int

definition zeroqent :: Qent where
  "zeroqent = \<lparr>qqgen = 0, qbp = \<lparr>baddr = 0, bhash = 0, bgen = 0\<rparr>, qb = None, qop = 0\<rparr>"

definition qinit :: "nat \<Rightarrow> Syncq" where
  "qinit cmax = \<lparr>qheap = replicate cmax zeroqent, nheap = 0, heapsz = cmax\<rparr>"

definition qcmp :: "Qent \<Rightarrow> Qent \<Rightarrow> int" where
  "qcmp a b =
     (if qqgen a \<noteq> qqgen b then (if qqgen a < qqgen b then -1 else 1)
      else if qop a \<noteq> qop b then (if qop a < qop b then -1 else 1)
      else if sint (baddr (qbp a)) \<noteq> sint (baddr (qbp b))
      then (if sint (baddr (qbp a)) < sint (baddr (qbp b)) then -1 else 1)
      else 0)"

text \<open>The part of \<open>qput\<close> under the lock, when the queue has room.\<close>

definition qinsert :: "Qent \<Rightarrow> Syncq \<Rightarrow> Syncq" where
  "qinsert qe q = q\<lparr>qheap := siftup qcmp qe (qheap q) (nheap q), nheap := nheap q + 1\<rparr>"

definition qput :: "Wbk \<Rightarrow> Qent \<Rightarrow> Wbk option res" where
  "qput s qe =
     assertE (if qop qe = Qfree \<or> qop qe = Qwrite then baddr (qbp qe) AND 16383 = 0
              else qop qe = Qfence \<and> syncing s > 0)
     (assertE (case qb qe of None \<Rightarrow> True | Some i \<Rightarrow> bref (wblks s i) > 0)
      (let qe = qe\<lparr>qqgen := qgen (dev (wfs s))\<rparr>; q = wq s in
       if nheap q = heapsz q then Inr None
       else Inr (Some (s\<lparr>wq := qinsert qe q\<rparr>))))"

text \<open>The part of \<open>qpop\<close> under the lock, when the queue has an entry.\<close>

definition qremove :: "Syncq \<Rightarrow> Qent \<times> Syncq" where
  "qremove q =
     (let e = qheap q ! 0; n = nheap q - 1 in
      if n = 0 then (e, q\<lparr>nheap := n\<rparr>)
      else (e, q\<lparr>qheap := siftdown qcmp n ((qheap q)[0 := qheap q ! n]) 0, nheap := n\<rparr>))"

definition qpop :: "Wbk \<Rightarrow> (Wbk \<times> Qent) option" where
  "qpop s =
     (if nheap (wq s) = 0 then None
      else let (e, q) = qremove (wq s); s = s\<lparr>wq := q\<rparr> in
        Some (case qb e of None \<Rightarrow> (s, e)
              | Some i \<Rightarrow> (s\<lparr>wblks := (wblks s)(i := setflag (wblks s i) 0 Bqueued)\<rparr>, e)))"

text \<open>
  One round of \<open>runsync\<close>.  An error leaves the loop and makes the file system read-only; it is the
  error of the round here.
\<close>

definition runsync :: "bool \<Rightarrow> Wbk \<Rightarrow> (Wbk \<times> Qent) option res" where
  "runsync priv s =
     (case qpop s of None \<Rightarrow> Inr None
      | Some (s, e) \<Rightarrow>
        if qop e = Qfree then
          assertE (qb e = None)
          (bindE (getarena (wfs s) (sint (baddr (qbp e)))) (\<lambda>k.
           bindE (blkdealloc_lk priv (dev (wfs s)) (arenas (wfs s) ! k) (sint (baddr (qbp e)))) (\<lambda>(w, a).
           Inr (Some (s\<lparr>wfs := (wfs s)\<lparr>dev := w, arenas := (arenas (wfs s))[k := a]\<rparr>\<rparr>, e)))))
        else if qop e = Qfence then Inr (Some (s\<lparr>syncing := syncing s - 1\<rparr>, e))
        else if qop e = Qwrite then
          (case qb e of None \<Rightarrow> Inl Wild
           | Some i \<Rightarrow>
             bindE (if checkflag (wblks s i) Bfreed Bstatic then Inr (dev (wfs s), wblks s i)
                    else syncblk (dev (wfs s)) (wblks s i)) (\<lambda>(w, b).
             Inr (Some (s\<lparr>wfs := (wfs s)\<lparr>dev := w\<rparr>, wblks := (wblks s)(i := dropblk b)\<rparr>, e))))
        else Inl Panic)"

section \<open>The queue is a priority queue\<close>

definition qkey :: "Qent \<Rightarrow> int \<times> int \<times> int" where
  "qkey e = (qqgen e, qop e, sint (baddr (qbp e)))"

interpretation qh: heap_order qcmp qkey
  by unfold_locales (auto simp: qcmp_def qkey_def)

definition wfq :: "Syncq \<Rightarrow> bool" where
  "wfq q \<longleftrightarrow> length (qheap q) = heapsz q \<and> qh.heap (nheap q) (qheap q)"

definition qmset :: "Syncq \<Rightarrow> Qent multiset" where
  "qmset q = mset (take (nheap q) (qheap q))"

lemma wfq_nheap: "wfq q \<Longrightarrow> nheap q \<le> heapsz q"
  by (auto simp: wfq_def qh.heap_def)

lemma size_qmset: "wfq q \<Longrightarrow> size (qmset q) = nheap q"
  using wfq_nheap by (simp add: qmset_def wfq_def)

lemma qremove_root:
  assumes "wfq q" "e \<in># qmset q"
  shows "qkey (fst (qremove q)) \<le> qkey e"
proof -
  from assms(2) obtain i where "i < nheap q" "e = qheap q ! i"
    by (auto simp: qmset_def in_set_conv_nth)
  with assms(1) qh.heap_root [of "nheap q" "qheap q" i] show ?thesis
    by (simp add: qremove_def Let_def wfq_def)
qed

lemma qremove_rest:
  assumes "wfq q" "qmset q \<noteq> {#}"
  shows "wfq (snd (qremove q)) \<and> qmset q = add_mset (fst (qremove q)) (qmset (snd (qremove q)))"
proof -
  from assms obtain n where n: "nheap q = Suc n" "length (qheap q) \<noteq> 0" by (cases "nheap q") (auto simp: qmset_def)
  show ?thesis
  proof (cases "n = 0")
    case True
    with n assms(1) show ?thesis
      by (cases "qheap q") (auto simp: qremove_def qmset_def wfq_def qh.heap_def)
  next
    case False
    with n assms(1) qh.siftdown_remove [of n "qheap q"] show ?thesis
      by (simp add: qremove_def wfq_def qmset_def Let_def)
  qed
qed

interpretation syncq: prio_queue wfq qmset "\<lambda>q. nheap q = heapsz q" qinsert qremove qkey
proof unfold_locales
  fix q x assume q: "wfq q" "\<not> nheap q = heapsz q"
  then have "nheap q < length (qheap q)" using wfq_nheap [OF q(1)] by (simp add: wfq_def)
  with q(1) qh.siftup_insert [of "nheap q" "qheap q" x] show "wfq (qinsert x q)" "qmset (qinsert x q) = add_mset x (qmset q)"
    by (auto simp: wfq_def qmset_def qinsert_def)
qed (use qremove_rest qremove_root in auto)

text \<open>Popping \<open>n\<close> entries.\<close>

fun qpops :: "nat \<Rightarrow> Syncq \<Rightarrow> Qent list" where
  "qpops 0 q = []"
| "qpops (Suc n) q = fst (qremove q) # qpops n (snd (qremove q))"

lemma qpops_drain: "qpops n q = syncq.drain n q"
  by (induction n arbitrary: q) simp_all

lemma qinit_wf: "wfq (qinit n)" "qmset (qinit n) = {#}"
  by (auto simp: wfq_def qinit_def qmset_def qh.heap_def)

lemma fold_qinsert:
  "wfq q \<Longrightarrow> nheap q + length es \<le> heapsz q \<Longrightarrow>
   wfq (fold qinsert es q) \<and> qmset (fold qinsert es q) = mset es + qmset q"
proof (induction es arbitrary: q)
  case (Cons e es)
  then have room: "\<not> nheap q = heapsz q" by simp
  have "nheap (qinsert e q) = nheap q + 1" "heapsz (qinsert e q) = heapsz q" by (simp_all add: qinsert_def)
  with Cons.IH [OF syncq.put_inv [OF Cons.prems(1) room, of e]] syncq.put_mset [OF Cons.prems(1) room, of e] Cons.prems(2)
  show ?case by simp
qed simp

text \<open>
  C30. The array heap of a write-back queue is a priority queue: entries put into an empty queue,
  as many as it has room for, come out by \<open>qpop\<close> as the same entries in the order of generation,
  then kind (fence, write, free), then address.
\<close>

theorem syncq_order:
  assumes "length es \<le> cmax"
  shows "mset (qpops (length es) (fold qinsert es (qinit cmax))) = mset es \<and>
    sorted_wrt (\<lambda>a b. (qqgen a, qop a, sint (baddr (qbp a))) \<le> (qqgen b, qop b, sint (baddr (qbp b))))
      (qpops (length es) (fold qinsert es (qinit cmax)))"
proof -
  have "nheap (qinit cmax) + length es \<le> heapsz (qinit cmax)" using assms by (simp add: qinit_def)
  from fold_qinsert [OF qinit_wf(1) this] have
    "wfq (fold qinsert es (qinit cmax))" "qmset (fold qinsert es (qinit cmax)) = mset es" by (simp_all add: qinit_wf)
  with syncq.drain_sorted [OF this(1), of "length es"] show ?thesis by (simp add: qpops_drain qkey_def)
qed

theorem syncq_order_witness:
  "mset (qpops 2 (fold qinsert [zeroqent\<lparr>qop := Qfree\<rparr>, zeroqent\<lparr>qop := Qwrite\<rparr>] (qinit 2))) =
    {#zeroqent\<lparr>qop := Qwrite\<rparr>, zeroqent\<lparr>qop := Qfree\<rparr>#}"
  using syncq_order [of "[zeroqent\<lparr>qop := Qfree\<rparr>, zeroqent\<lparr>qop := Qwrite\<rparr>]" 2] by (simp add: numeral_2_eq_2)

section \<open>Order over the generations\<close>

text \<open>
  The queue at work, with the entries put so far and those handled so far: entries are put,
  \<open>runsync\<close> handles one, and meanwhile the rest of the system changes blocks and arenas; the
  generation never decreases.
\<close>

inductive wb_step :: "Wbk \<times> Qent list \<times> Qent list \<Rightarrow> Wbk \<times> Qent list \<times> Qent list \<Rightarrow> bool" where
  put: "qput s qe = Inr (Some s') \<Longrightarrow> wb_step (s, ps, hs) (s', ps @ [qe\<lparr>qqgen := qgen (dev (wfs s))\<rparr>], hs)"
| handle: "runsync priv s = Inr (Some (s', e)) \<Longrightarrow> wb_step (s, ps, hs) (s', ps, hs @ [e])"
| other: "wq s' = wq s \<Longrightarrow> qgen (dev (wfs s)) \<le> qgen (dev (wfs s')) \<Longrightarrow> wb_step (s, ps, hs) (s', ps, hs)"

definition wb_inv :: "Wbk \<Rightarrow> Qent list \<Rightarrow> Qent list \<Rightarrow> bool" where
  "wb_inv s ps hs \<longleftrightarrow> wfq (wq s) \<and> mset ps = mset hs + qmset (wq s) \<and>
     sorted (map qqgen hs) \<and> (\<forall>h \<in> set hs. \<forall>e \<in># qmset (wq s). qqgen h \<le> qqgen e) \<and>
     (\<forall>e \<in> set ps. qqgen e \<le> qgen (dev (wfs s)))"

lemma synclog_qgen: "synclog w a i = Inr (w', a') \<Longrightarrow> qgen w' = qgen w"
  by (auto simp: synclog_def syncblk_def res_simps)

lemma logappend_qgen: "logappend priv w a off len op = Inr (w', a') \<Longrightarrow> qgen w' = qgen w"
  by (auto simp: logappend_def res_simps Let_def dest!: synclog_qgen split: option.splits prod.splits if_splits)

lemma blkdealloc_qgen: "blkdealloc_lk priv w a b = Inr (w', a') \<Longrightarrow> qgen w' = qgen w"
  by (auto simp: blkdealloc_lk_def res_simps dest!: logappend_qgen)

lemma qpop_cases:
  assumes "qpop s = Some (s', e)" "wfq (wq s)"
  shows "e = fst (qremove (wq s))" "wq s' = snd (qremove (wq s))" "wfs s' = wfs s" "qmset (wq s) \<noteq> {#}"
  using assms size_qmset [OF assms(2)]
  by (auto simp: qpop_def Let_def split: if_splits prod.splits option.splits)

lemma runsync_cases:
  assumes "runsync priv s = Inr (Some (s', e))" "wfq (wq s)"
  shows "e = fst (qremove (wq s)) \<and> wq s' = snd (qremove (wq s)) \<and> qmset (wq s) \<noteq> {#} \<and>
    qgen (dev (wfs s')) = qgen (dev (wfs s))"
proof -
  from assms(1) obtain s1 where s1: "qpop s = Some (s1, e)"
    by (auto simp: runsync_def res_simps split: option.splits if_splits prod.splits)
  from qpop_cases [OF s1 assms(2)] have
    1: "e = fst (qremove (wq s))" "wq s1 = snd (qremove (wq s))" "wfs s1 = wfs s" "qmset (wq s) \<noteq> {#}" by auto
  from assms(1) s1 have "wq s' = wq s1 \<and> qgen (dev (wfs s')) = qgen (dev (wfs s1))"
    by (auto simp: runsync_def res_simps syncblk_def dest!: blkdealloc_qgen split: option.splits if_splits prod.splits)
  with 1 show ?thesis by simp
qed

lemma wb_step_inv:
  assumes "wb_step (s, ps, hs) (s', ps', hs')" "wb_inv s ps hs"
  shows "wb_inv s' ps' hs'"
  using assms(1)
proof cases
  case (put qe)
  let ?e = "qe\<lparr>qqgen := qgen (dev (wfs s))\<rparr>"
  from put have room: "\<not> nheap (wq s) = heapsz (wq s)" and s': "s' = s\<lparr>wq := qinsert ?e (wq s)\<rparr>"
    by (auto simp: qput_def res_simps Let_def split: if_splits)
  from assms(2) have wf: "wfq (wq s)" by (simp add: wb_inv_def)
  from assms(2) have "qqgen h \<le> qgen (dev (wfs s))" if "h \<in> set hs" for h
    using that unfolding wb_inv_def by (metis mset_subset_eq_add_left set_mset_mset set_mset_mono subsetD)
  with assms(2) syncq.put_inv [OF wf room, of ?e] syncq.put_mset [OF wf room, of ?e] show ?thesis
    by (auto simp: wb_inv_def put s')
next
  case (handle priv e)
  from assms(2) have wf: "wfq (wq s)" by (simp add: wb_inv_def)
  from runsync_cases [OF handle(3) wf] have e: "e = fst (qremove (wq s))" "wq s' = snd (qremove (wq s))"
    "qmset (wq s) \<noteq> {#}" "qgen (dev (wfs s')) = qgen (dev (wfs s))" by auto
  have m: "qmset (wq s) = add_mset e (qmset (wq s'))" "wfq (wq s')"
    using syncq.pop_mset [OF wf e(3)] syncq.pop_inv [OF wf e(3)] by (simp_all add: e)
  have "qqgen e \<le> qqgen x" if "x \<in># qmset (wq s')" for x
    using syncq.pop_least [OF wf, of x] that m(1) by (auto simp: e(1) qkey_def)
  moreover have "qqgen h \<le> qqgen e" if "h \<in> set hs" for h
    using assms(2) that m(1) by (auto simp: wb_inv_def)
  ultimately show ?thesis using assms(2) m e(4)
    by (auto simp: wb_inv_def handle sorted_append)
next
  case other
  with assms(2) show ?thesis by (fastforce simp: wb_inv_def)
qed

lemma wb_steps_inv:
  assumes "wb_step\<^sup>*\<^sup>* (s, ps, hs) (s', ps', hs')" "wb_inv s ps hs"
  shows "wb_inv s' ps' hs'"
  using assms
proof (induction "(s', ps', hs')" arbitrary: s' ps' hs' rule: rtranclp_induct)
  case (step y)
  then show ?case by (cases y) (auto dest: wb_step_inv)
qed simp

lemma checkflag_queued: "checkflag (setflag b 0 Bqueued) Bfreed Bstatic = checkflag b Bfreed Bstatic"
proof -
  have "(bflag b AND NOT 16) AND 68 = bflag b AND (NOT 16 AND 68)" by (simp only: and.assoc)
  also have "(NOT 16 AND 68 :: u32) = 68" by simp
  finally show ?thesis by (simp add: checkflag_def setflag_def)
qed

lemma runsync_write:
  assumes "runsync priv s = Inr (Some (s', e))" "qop e = Qwrite" "qb e = Some i"
    and "\<not> checkflag (wblks s i) Bfreed Bstatic"
  shows "disk (dev (wfs s')) (baddr (bbp (wblks s i))) = Some (bbuf (wblks s i))"
proof -
  from assms(1) obtain s1 where s1: "qpop s = Some (s1, e)"
    by (auto simp: runsync_def res_simps split: option.splits if_splits prod.splits)
  then have "wblks s1 i = setflag (wblks s i) 0 Bqueued"
    using assms(3) by (auto simp: qpop_def Let_def split: if_splits prod.splits option.splits)
  moreover from this assms(4) have "\<not> checkflag (wblks s1 i) Bfreed Bstatic" by (simp add: checkflag_queued)
  ultimately show ?thesis
    using assms(1-3) s1 by (auto simp: runsync_def res_simps syncblk_def setflag_def)
qed


text \<open>A queue of two entries, with a write that was queued before the generation went up.\<close>

definition wbk0 :: Wbk where
  "wbk0 = \<lparr>wfs = fsA, wblks = (\<lambda>_. zeroblk\<lparr>bref := 1, bflag := Bdirty OR Bfinal\<rparr>), wq = qinit 2, syncing = 1\<rparr>"

definition qent0 :: Qent where
  "qent0 = \<lparr>qqgen = 0, qbp = \<lparr>baddr = 0, bhash = 0, bgen = 0\<rparr>, qb = Some 0, qop = Qwrite\<rparr>"

definition wbk1 :: Wbk where
  "wbk1 = wbk0\<lparr>wq := qinsert qent0 (qinit 2)\<rparr>"

lemma wbk1_put: "qput wbk0 qent0 = Inr (Some wbk1)"
  by (simp add: qput_def wbk0_def qent0_def qinit_def fsA_def wbk1_def)

lemma wbk1_run: "\<exists>s'. runsync True wbk1 = Inr (Some (s', qent0))"
  by (simp add: runsync_def qpop_def wbk1_def wbk0_def qremove_def qinsert_def qinit_def siftup.simps qent0_def
      numeral_2_eq_2 syncblk_def checkflag_def setflag_def zeroblk_def)


end
