(* ===== verification/Gefs_Msg.thy ===== *)
theory Gefs_Msg
  imports Gefs_Pack "HOL-Library.List_Lexorder" "HOL-Library.Multiset"
begin

text \<open>
  \<open>sys/src/9/gefs/tree.c\<close>, keys and messages: the comparison of keys, the stable sort of a batch
  of messages, and what a message does to an entry of a leaf (\<open>statupdate\<close>, \<open>apply\<close>).

  A message is a key and a value with an operation.  \<open>fatal\<close> is a panic, \<open>broke\<close> makes the file
  system read-only and is an error.
\<close>

abbreviation (input) Keymax :: nat where "Keymax \<equiv> 256"
abbreviation (input) Inlmax :: nat where "Inlmax \<equiv> 512"
abbreviation (input) Msgmax :: nat where "Msgmax \<equiv> 769"

abbreviation (input) Oinsert :: byte where "Oinsert \<equiv> 1"
abbreviation (input) Odelete :: byte where "Odelete \<equiv> 2"
abbreviation (input) Oclearb :: byte where "Oclearb \<equiv> 3"
abbreviation (input) Oclobber :: byte where "Oclobber \<equiv> 4"
abbreviation (input) Owstat :: byte where "Owstat \<equiv> 5"
abbreviation (input) Orelink :: byte where "Orelink \<equiv> 6"
abbreviation (input) Oreprev :: byte where "Oreprev \<equiv> 7"
abbreviation (input) Oincref :: byte where "Oincref \<equiv> 8"

abbreviation (input) Owsize :: byte where "Owsize \<equiv> 1"
abbreviation (input) Owmode :: byte where "Owmode \<equiv> 2"
abbreviation (input) Owmtime :: byte where "Owmtime \<equiv> 4"
abbreviation (input) Owatime :: byte where "Owatime \<equiv> 8"
abbreviation (input) Owuid :: byte where "Owuid \<equiv> 16"
abbreviation (input) Owgid :: byte where "Owgid \<equiv> 32"
abbreviation (input) Owmuid :: byte where "Owmuid \<equiv> 64"

abbreviation (input) Ebroke :: fault where "Ebroke \<equiv> Err ''broken entry''"

record Msg = Kvp +
  mop :: byte

definition kvpof :: "Msg \<Rightarrow> Kvp" where
  "kvpof m = \<lparr>kk = kk m, kv = kv m\<rparr>"

lemma kvpof_sel [simp]: "kk (kvpof m) = kk m" "kv (kvpof m) = kv m"
  by (simp_all add: kvpof_def)

section \<open>Keys\<close>

text \<open>The bytes are compared as unsigned ones, over the shorter length.\<close>

fun memcmp :: "bytes \<Rightarrow> bytes \<Rightarrow> int" where
  "memcmp (x # xs) (y # ys) = (if x < y then -1 else if y < x then 1 else memcmp xs ys)"
| "memcmp _ _ = 0"

definition keycmp :: "bytes \<Rightarrow> bytes \<Rightarrow> int" where
  "keycmp a b =
     (let n = min (length a) (length b); c = memcmp (take n a) (take n b) in
      if c \<noteq> 0 then (if c < 0 then -1 else 1)
      else if length a < length b then -1
      else if length b < length a then 1
      else 0)"

text \<open>The order is the lexicographic order of byte strings.\<close>

lemma keycmp_Cons: "keycmp (x # xs) (y # ys) = (if x < y then -1 else if y < x then 1 else keycmp xs ys)"
  by (simp add: keycmp_def Let_def)

lemma keycmp_order: "keycmp a b = (if a < b then -1 else if a = b then 0 else 1)"
proof (induction a b rule: memcmp.induct, goal_cases)
  case (1 x xs y ys)
  then show ?case by (cases x y rule: linorder_cases) (auto simp: keycmp_Cons)
next
  case (2 ys)
  then show ?case by (cases ys) (simp_all add: keycmp_def)
next
  case (3 xs)
  then show ?case by (cases xs) (simp_all add: keycmp_def)
qed

lemma keycmp_iffs [simp]:
  "keycmp a b \<le> 0 \<longleftrightarrow> a \<le> b" "0 < keycmp a b \<longleftrightarrow> b < a" "keycmp a b < 0 \<longleftrightarrow> a < b" "0 \<le> keycmp a b \<longleftrightarrow> b \<le> a"
  "keycmp a b = 0 \<longleftrightarrow> a = b" "keycmp a b = -1 \<longleftrightarrow> a < b" "keycmp a b = 1 \<longleftrightarrow> b < a"
  by (auto simp: keycmp_order not_less)

section \<open>Sizes\<close>

text \<open>The room a message takes in a buffer and an entry takes in a node, with its offset.\<close>

definition msgsz :: "Msg \<Rightarrow> int" where
  "msgsz m = 2 + 1 + 2 + int (length (kk m)) + 2 + int (length (kv m))"

definition valsz_kv :: "('a) Kvp_scheme \<Rightarrow> int" where
  "valsz_kv e = 2 + 2 + int (length (kk e)) + 2 + int (length (kv e))"

lemma msgsz_valsz: "msgsz m = valsz_kv m + 1"
  by (simp add: msgsz_def valsz_kv_def)

lemma msgsz_pos [simp]: "0 < msgsz m" "0 < valsz_kv e"
  by (simp_all add: msgsz_def valsz_kv_def)

text \<open>A copy into a buffer of \<open>nbuf\<close> bytes.\<close>

definition cpkvp :: "('a) Kvp_scheme \<Rightarrow> nat \<Rightarrow> Kvp res" where
  "cpkvp e nbuf = assertE (length (kk e) + length (kv e) \<le> nbuf) (Inr \<lparr>kk = kk e, kv = kv e\<rparr>)"

section \<open>The stable sort\<close>

fun sift :: "Msg list \<Rightarrow> nat \<Rightarrow> Msg list" where
  "sift m 0 = m"
| "sift m (Suc j) =
     (if keycmp (kk (m ! j)) (kk (m ! Suc j)) \<le> 0 then m
      else sift (m[j := m ! Suc j, Suc j := m ! j]) j)"

definition stablesort :: "Msg list \<Rightarrow> Msg list" where
  "stablesort m = fold (\<lambda>i m. sift m i) [1 ..< length m] m"

lemma sift_length [simp]: "length (sift m i) = length m"
  by (induction m i rule: sift.induct) auto

lemma sift_mset: "i < length m \<Longrightarrow> mset (sift m i) = mset m"
proof (induction m i rule: sift.induct)
  case (2 m j)
  then show ?case using mset_swap [of "Suc j" m j] by simp
qed simp

lemma sift_after: "j \<le> k \<Longrightarrow> sift m j ! Suc k = m ! Suc k"
  by (induction m j rule: sift.induct) auto

text \<open>One round puts the entry at \<open>i\<close> in its place among the sorted ones before it.\<close>

lemma sift_sorted:
  "i < length m \<Longrightarrow> sorted (map kk (take i m)) \<Longrightarrow>
   sorted (map kk (take (Suc i) (sift m i))) \<and> (\<forall>a \<in> set (take (Suc i) (sift m i)). a \<in> set (take (Suc i) m))"
proof (induction m i rule: sift.induct)
  case (1 m)
  then show ?case by (cases m) auto
next
  case (2 m j)
  then have tk: "take (Suc j) m = take j m @ [m ! j]" by (simp add: take_Suc_conv_app_nth)
  show ?case
  proof (cases "kk (m ! j) \<le> kk (m ! Suc j)")
    case True
    have "take (Suc (Suc j)) m = take (Suc j) m @ [m ! Suc j]" using 2(2) by (simp add: take_Suc_conv_app_nth)
    moreover have "\<forall>x \<in> set (take (Suc j) m). kk x \<le> kk (m ! Suc j)"
      using True 2(3) unfolding tk by (fastforce simp: sorted_append)
    ultimately show ?thesis using True 2(3) by (auto simp: sorted_append)
  next
    case False
    let ?m = "m[j := m ! Suc j, Suc j := m ! j]"
    have "take j ?m = take j m" by simp
    moreover have "sorted (map kk (take j m))" using 2(3) unfolding tk by (simp add: sorted_append)
    ultimately have IH: "sorted (map kk (take (Suc j) (sift ?m j)))"
      "\<forall>a \<in> set (take (Suc j) (sift ?m j)). a \<in> set (take (Suc j) ?m)"
      using 2 False by auto
    have l: "Suc j < length m" using 2(2) .
    have nth: "sift ?m j ! Suc j = m ! j" using sift_after [of j j ?m] l by simp
    have tk2: "take (Suc (Suc j)) (sift ?m j) = take (Suc j) (sift ?m j) @ [m ! j]"
      using l nth by (simp add: take_Suc_conv_app_nth)
    have tk3: "set (take (Suc j) ?m) = insert (m ! Suc j) (set (take j m))"
      using l by (simp add: take_Suc_conv_app_nth)
    have "kk a \<le> kk (m ! j)" if "a \<in> set (take (Suc j) (sift ?m j))" for a
      using that IH(2) tk3 False 2(3) unfolding tk by (fastforce simp: sorted_append)
    moreover have "set (take (Suc (Suc j)) m) = set (take j m) \<union> {m ! j, m ! Suc j}"
      using l by (auto simp: take_Suc_conv_app_nth)
    ultimately show ?thesis using IH False tk3 by (auto simp: tk2 sorted_append)
  qed
qed

lemma filter_swap:
  assumes "Suc j < length m" "\<not> (P (m ! j) \<and> P (m ! Suc j))"
  shows "filter P (m[j := m ! Suc j, Suc j := m ! j]) = filter P m"
proof -
  have "m = take j m @ m ! j # m ! Suc j # drop (Suc (Suc j)) m"
    using assms(1) by (simp add: Cons_nth_drop_Suc Suc_lessD)
  then obtain xs a b ys where m: "m = xs @ a # b # ys" "length xs = j" using assms(1) by (metis length_take min.absorb2 Suc_lessD less_imp_le_nat)
  then have "m[j := m ! Suc j, Suc j := m ! j] = xs @ b # a # ys" by (simp add: nth_append list_update_append)
  with m assms(2) show ?thesis by (auto simp: nth_append)
qed

lemma sift_stable: "i < length m \<Longrightarrow> filter (\<lambda>x. k = kk x) (sift m i) = filter (\<lambda>x. k = kk x) m"
proof (induction m i rule: sift.induct)
  case (2 m j)
  have "\<not> (k = kk (m ! j) \<and> k = kk (m ! Suc j))" if "\<not> kk (m ! j) \<le> kk (m ! Suc j)" using that by auto
  with 2 filter_swap [of j m "\<lambda>x. k = kk x"] show ?case by auto
qed simp

lemma stablesort_upto:
  "n \<le> length m \<Longrightarrow> 1 \<le> n \<Longrightarrow>
   (let r = fold (\<lambda>i m. sift m i) [1 ..< n] m in
    length r = length m \<and> mset r = mset m \<and> sorted (map kk (take n r)) \<and>
    (\<forall>k. filter (\<lambda>x. k = kk x) r = filter (\<lambda>x. k = kk x) m))"
proof (induction n)
  case (Suc n)
  show ?case
  proof (cases "n = 0")
    case True
    with Suc.prems show ?thesis by (cases m) auto
  next
    case False
    let ?r = "fold (\<lambda>i m. sift m i) [1 ..< n] m"
    have IH: "length ?r = length m" "mset ?r = mset m" "sorted (map kk (take n ?r))"
      "\<forall>k. filter (\<lambda>x. k = kk x) ?r = filter (\<lambda>x. k = kk x) m"
      using Suc False by (auto simp: Let_def)
    have "fold (\<lambda>i m. sift m i) [1 ..< Suc n] m = sift ?r n" using False by simp
    with IH sift_sorted [of n ?r] sift_mset [of n ?r] sift_stable [of n ?r] Suc.prems show ?thesis
      by (simp add: Let_def)
  qed
qed simp

text \<open>
  C32. The messages of a batch are sorted by key and those of one key keep their order: \<open>stablesort\<close>
  is the library's stable sort by key.
\<close>

theorem stablesort_is_sort_key: "stablesort m = sort_key kk m"
proof (cases "m = []")
  case False
  then have "1 \<le> length m" by (cases m) auto
  from stablesort_upto [OF order_refl this] have
    "mset (stablesort m) = mset m" "sorted (map kk (stablesort m))" "length (stablesort m) = length m"
    "\<forall>k. filter (\<lambda>x. k = kk x) (stablesort m) = filter (\<lambda>x. k = kk x) m"
    unfolding stablesort_def Let_def by (auto simp flip: One_nat_def)
  then show ?thesis by (intro properties_for_sort_key [symmetric]) auto
qed (simp add: stablesort_def)

section \<open>What a message does\<close>

text \<open>A field of a wstat message: \<open>n\<close> bytes at \<open>p\<close> when its bit is set.\<close>

definition wfield :: "bool \<Rightarrow> nat \<Rightarrow> (Xdir \<Rightarrow> bytes \<Rightarrow> Xdir) \<Rightarrow> Xdir \<times> bytes \<Rightarrow> (Xdir \<times> bytes) res" where
  "wfield c n f = (\<lambda>(d, p). if c then needE n p (Inr (f d p, drop n p)) else Inr (d, p))"

definition statupdate :: "Kvp \<Rightarrow> Msg \<Rightarrow> Kvp res" where
  "statupdate e m = assertE (1 \<le> length (kv m))
     (let op = kv m ! 0; p = drop 1 (kv m) in
      bindE (kv2dir e) (\<lambda>d.
      let d = d\<lparr>dqid := (dqid d)\<lparr>qvers := qvers (dqid d) + 1\<rparr>\<rparr> in
      bindE (wfield (op AND Owsize \<noteq> 0) 8 (\<lambda>d p. d\<lparr>dlength := UNPACK64 p\<rparr>) (d, p)) (\<lambda>s.
      bindE (wfield (op AND Owmode \<noteq> 0) 4
        (\<lambda>d p. d\<lparr>dmode := UNPACK32 p, dqid := (dqid d)\<lparr>qtype := ucast (drop_bit 24 (UNPACK32 p))\<rparr>\<rparr>) s) (\<lambda>s.
      bindE (wfield (op AND Owmtime \<noteq> 0) 8 (\<lambda>d p. d\<lparr>dmtime := UNPACK64 p\<rparr>) s) (\<lambda>s.
      bindE (wfield (op AND Owatime \<noteq> 0) 8 (\<lambda>d p. d\<lparr>datime := UNPACK64 p\<rparr>) s) (\<lambda>s.
      bindE (wfield (op AND Owuid \<noteq> 0) 4 (\<lambda>d p. d\<lparr>duid := UNPACK32 p\<rparr>) s) (\<lambda>s.
      bindE (wfield (op AND Owgid \<noteq> 0) 4 (\<lambda>d p. d\<lparr>dgid := UNPACK32 p\<rparr>) s) (\<lambda>s.
      bindE (wfield (op AND Owmuid \<noteq> 0) 4 (\<lambda>d p. d\<lparr>dmuid := UNPACK32 p\<rparr>) s) (\<lambda>(d, p).
      if p \<noteq> [] then Inl Panic
      else bindE (packdval (length (kv e)) d) (\<lambda>v.
        if length v \<noteq> length (kv e) then Inl Panic else Inr (e\<lparr>kv := v\<rparr>)))))))))))"

text \<open>
  The entry after a message, and whether it is there.  \<open>nlbl\<close> and \<open>nref\<close> are changed by signed
  characters; \<open>packtree\<close> writes over the start of the value.
\<close>

definition apply_msg :: "Kvp \<Rightarrow> Msg \<Rightarrow> nat \<Rightarrow> (bool \<times> Kvp) res" where
  "apply_msg e m nbuf =
     (if mop m = Odelete then assertE (keycmp (kk e) (kk m) = 0) (Inr (False, e))
      else if mop m = Oclearb \<or> mop m = Oclobber then Inr (False, e)
      else if mop m = Oinsert then bindE (cpkvp m nbuf) (\<lambda>e. Inr (True, e))
      else if mop m = Owstat then
        assertE (keycmp (kk e) (kk m) = 0) (bindE (statupdate e m) (\<lambda>e. Inr (True, e)))
      else if mop m = Orelink \<or> mop m = Oreprev \<or> mop m = Oincref then
        bindE (unpacktree (kv e)) (\<lambda>t.
        needE 10 (kv m)
        (let t = (if mop m = Orelink then t\<lparr>tsucc := UNPACK64 (kv m)\<rparr>
                  else if mop m = Oreprev then t\<lparr>tpred := UNPACK64 (kv m)\<rparr> else t);
             t = t\<lparr>tnlbl := tnlbl t + scast (kv m ! 8), tnref := tnref t + scast (kv m ! 9)\<rparr> in
         assertE (0 \<le> sint (tnlbl t) \<and> 0 \<le> sint (tnref t))
         (assertE (length (kv m) = 10)
          (bindE (packtree (length (kv e)) t) (\<lambda>p.
           Inr (True, e\<lparr>kv := p @ drop (length p) (kv e)\<rparr>))))))
      else Inl Panic)"

subsection \<open>Wstat messages\<close>

text \<open>A wstat message for a choice of fields, as the mutating requests of \<open>fs.c\<close> build it.\<close>

record Wstat =
  wsize :: "u64 option"
  wmode :: "u32 option"
  wmtime :: "u64 option"
  watime :: "u64 option"
  wuid :: "u32 option"
  wgid :: "u32 option"
  wmuid :: "u32 option"

definition wbit :: "'a option \<Rightarrow> byte \<Rightarrow> byte" where
  "wbit f b = (if f = None then 0 else b)"

definition wbytes :: "('a \<Rightarrow> bytes) \<Rightarrow> 'a option \<Rightarrow> bytes" where
  "wbytes pack f = (case f of None \<Rightarrow> [] | Some x \<Rightarrow> pack x)"

definition wstat_val :: "Wstat \<Rightarrow> bytes" where
  "wstat_val w =
     (wbit (wsize w) Owsize OR wbit (wmode w) Owmode OR wbit (wmtime w) Owmtime OR wbit (watime w) Owatime OR
      wbit (wuid w) Owuid OR wbit (wgid w) Owgid OR wbit (wmuid w) Owmuid) #
     wbytes PACK64 (wsize w) @ wbytes PACK32 (wmode w) @ wbytes PACK64 (wmtime w) @ wbytes PACK64 (watime w) @
     wbytes PACK32 (wuid w) @ wbytes PACK32 (wgid w) @ wbytes PACK32 (wmuid w)"

definition wset :: "'a \<Rightarrow> 'a option \<Rightarrow> 'a" where
  "wset x f = (case f of None \<Rightarrow> x | Some y \<Rightarrow> y)"

definition wstat_dir :: "Wstat \<Rightarrow> Xdir \<Rightarrow> Xdir" where
  "wstat_dir w d = d\<lparr>dlength := wset (dlength d) (wsize w), dmode := wset (dmode d) (wmode w),
     dmtime := wset (dmtime d) (wmtime w), datime := wset (datime d) (watime w), duid := wset (duid d) (wuid w),
     dgid := wset (dgid d) (wgid w), dmuid := wset (dmuid d) (wmuid w),
     dqid := (dqid d)\<lparr>qvers := qvers (dqid d) + 1,
       qtype := (case wmode w of None \<Rightarrow> qtype (dqid d) | Some m \<Rightarrow> ucast (drop_bit 24 m))\<rparr>\<rparr>"

lemma wfield_opt:
  assumes "c = (x \<noteq> None)" "\<And>y. length (pack y) = n" "\<And>y q. f d (pack y @ q) = g y"
  shows "wfield c n f (d, wbytes pack x @ p) = Inr (case x of None \<Rightarrow> d | Some y \<Rightarrow> g y, p)"
  using assms by (cases x) (simp_all add: wfield_def needE_def wbytes_def)

lemma wflag:
  "(wbit f0 1 OR wbit f1 2 OR wbit f2 4 OR wbit f3 8 OR wbit f4 16 OR wbit f5 32 OR wbit f6 64) AND 1 \<noteq> 0 \<longleftrightarrow> f0 \<noteq> None"
  "(wbit f0 1 OR wbit f1 2 OR wbit f2 4 OR wbit f3 8 OR wbit f4 16 OR wbit f5 32 OR wbit f6 64) AND 2 \<noteq> 0 \<longleftrightarrow> f1 \<noteq> None"
  "(wbit f0 1 OR wbit f1 2 OR wbit f2 4 OR wbit f3 8 OR wbit f4 16 OR wbit f5 32 OR wbit f6 64) AND 4 \<noteq> 0 \<longleftrightarrow> f2 \<noteq> None"
  "(wbit f0 1 OR wbit f1 2 OR wbit f2 4 OR wbit f3 8 OR wbit f4 16 OR wbit f5 32 OR wbit f6 64) AND 8 \<noteq> 0 \<longleftrightarrow> f3 \<noteq> None"
  "(wbit f0 1 OR wbit f1 2 OR wbit f2 4 OR wbit f3 8 OR wbit f4 16 OR wbit f5 32 OR wbit f6 64) AND 16 \<noteq> 0 \<longleftrightarrow> f4 \<noteq> None"
  "(wbit f0 1 OR wbit f1 2 OR wbit f2 4 OR wbit f3 8 OR wbit f4 16 OR wbit f5 32 OR wbit f6 64) AND 32 \<noteq> 0 \<longleftrightarrow> f5 \<noteq> None"
  "(wbit f0 1 OR wbit f1 2 OR wbit f2 4 OR wbit f3 8 OR wbit f4 16 OR wbit f5 32 OR wbit f6 64) AND 64 \<noteq> 0 \<longleftrightarrow> f6 \<noteq> None"
  by (simp_all only: and.commute [of _ "1 :: byte"] and.commute [of _ "2 :: byte"] and.commute [of _ "4 :: byte"]
      and.commute [of _ "8 :: byte"] and.commute [of _ "16 :: byte"] and.commute [of _ "32 :: byte"]
      and.commute [of _ "64 :: byte"] bit.conj_disj_distrib) (simp_all add: wbit_def)

lemma wfields:
  "wfield (x8 \<noteq> None) 8 (\<lambda>d p. d\<lparr>dlength := UNPACK64 p\<rparr>) (d, wbytes PACK64 x8 @ p) = Inr (d\<lparr>dlength := wset (dlength d) x8\<rparr>, p)"
  "wfield (x4 \<noteq> None) 4 (\<lambda>d p. d\<lparr>dmode := UNPACK32 p, dqid := (dqid d)\<lparr>qtype := ucast (drop_bit 24 (UNPACK32 p))\<rparr>\<rparr>) (d, wbytes PACK32 x4 @ p) =
     Inr (d\<lparr>dmode := wset (dmode d) x4, dqid := (dqid d)\<lparr>qtype := (case x4 of None \<Rightarrow> qtype (dqid d) | Some m \<Rightarrow> ucast (drop_bit 24 m))\<rparr>\<rparr>, p)"
  "wfield (x8 \<noteq> None) 8 (\<lambda>d p. d\<lparr>dmtime := UNPACK64 p\<rparr>) (d, wbytes PACK64 x8 @ p) = Inr (d\<lparr>dmtime := wset (dmtime d) x8\<rparr>, p)"
  "wfield (x8 \<noteq> None) 8 (\<lambda>d p. d\<lparr>datime := UNPACK64 p\<rparr>) (d, wbytes PACK64 x8 @ p) = Inr (d\<lparr>datime := wset (datime d) x8\<rparr>, p)"
  "wfield (x4 \<noteq> None) 4 (\<lambda>d p. d\<lparr>duid := UNPACK32 p\<rparr>) (d, wbytes PACK32 x4 @ p) = Inr (d\<lparr>duid := wset (duid d) x4\<rparr>, p)"
  "wfield (x4 \<noteq> None) 4 (\<lambda>d p. d\<lparr>dgid := UNPACK32 p\<rparr>) (d, wbytes PACK32 x4 @ p) = Inr (d\<lparr>dgid := wset (dgid d) x4\<rparr>, p)"
  "wfield (x4 \<noteq> None) 4 (\<lambda>d p. d\<lparr>dmuid := UNPACK32 p\<rparr>) (d, wbytes PACK32 x4) = Inr (d\<lparr>dmuid := wset (dmuid d) x4\<rparr>, [])"
  by (simp_all add: wfield_def wbytes_def wset_def split: option.splits)

text \<open>
  C33. A wstat message changes the fields it names and no others: applied to a directory entry, the
  message packed from a choice of fields gives the entry with those fields set, the file type from
  the new mode if there is one, and the version one higher; the key and the size of the value stay.
\<close>

theorem wstat_applies:
  assumes "kv2dir e = Inr d" "kv m = wstat_val w" "mop m = Owstat" "kk m = kk e"
  shows "\<exists>v. apply_msg e m nbuf = Inr (True, e\<lparr>kv := v\<rparr>) \<and> kv2dir (e\<lparr>kv := v\<rparr>) = Inr (wstat_dir w d) \<and> length v = length (kv e)"
proof -
  let ?d = "wstat_dir w d"
  let ?v = "PACK64 (dflag ?d) @ PACK64 (qpath (dqid ?d)) @ PACK32 (qvers (dqid ?d)) @
        PACK8 (qtype (dqid ?d)) @ PACK32 (dmode ?d) @ PACK64 (datime ?d) @ PACK64 (dmtime ?d) @
        PACK64 (dlength ?d) @ PACK32 (duid ?d) @ PACK32 (dgid ?d) @ PACK32 (dmuid ?d)"
  have len: "length (kv e) = Xdirsz" using assms(1) by (auto simp: kv2dir_def split: if_splits)
  have "1 \<le> length (kv m)" "kv m ! 0 = hd (wstat_val w)" "drop 1 (kv m) = tl (wstat_val w)" by (simp_all add: assms(2) wstat_val_def)
  then have "statupdate e m = Inr (e\<lparr>kv := ?v\<rparr>)"
    unfolding statupdate_def by (simp only: assms(1) wstat_val_def list.sel Let_def bindE_simps wflag wfields assertE_simps)
      (simp add: packdval_def len wstat_dir_def cong: option.case_cong)
  then have "apply_msg e m nbuf = Inr (True, e\<lparr>kv := ?v\<rparr>)" by (simp add: apply_msg_def assms(3,4))
  moreover have "kv2dir (e\<lparr>kv := ?v\<rparr>) = Inr ?d"
    using assms(1) by (auto simp: kv2dir_def res_simps wstat_dir_def Let_def split: if_splits)
  ultimately show ?thesis using len by (intro exI [of _ ?v]) simp
qed

theorem wstat_applies_witness:
  "let d = fillxdir 7 (str ''a'') 0 420 3;
       e = \<lparr>kk = Kent # PACK64 1 @ PACK16 1 @ str ''a'' @ [0], kv = PACK64 0 @ PACK64 7 @ PACK32 0 @ PACK8 0 @ PACK32 420 @
             PACK64 0 @ PACK64 0 @ PACK64 3 @ PACK32 (-1) @ PACK32 (-1) @ PACK32 0\<rparr> in
   \<exists>v. apply_msg e \<lparr>kk = kk e, kv = wstat_val \<lparr>wsize = Some 9, wmode = None, wmtime = None, watime = None, wuid = Some 5, wgid = None,
       wmuid = None\<rparr>, mop = Owstat\<rparr> 769 = Inr (True, e\<lparr>kv := v\<rparr>) \<and>
     kv2dir (e\<lparr>kv := v\<rparr>) = Inr (d\<lparr>dlength := 9, duid := 5, dqid := \<lparr>qpath = 7, qvers = 1, qtype = 0\<rparr>\<rparr>)"
proof -
  let ?d = "fillxdir 7 (str ''a'') 0 420 3"
  let ?e = "\<lparr>kk = Kent # PACK64 1 @ PACK16 1 @ str ''a'' @ [0], kv = PACK64 0 @ PACK64 7 @ PACK32 0 @ PACK8 0 @ PACK32 420 @
             PACK64 0 @ PACK64 0 @ PACK64 3 @ PACK32 (-1) @ PACK32 (-1) @ PACK32 0\<rparr>"
  let ?w = "\<lparr>wsize = Some 9, wmode = None, wmtime = None, watime = None, wuid = Some 5, wgid = None, wmuid = None\<rparr>"
  have "kv2dir ?e = Inr ?d" by (simp add: kv2dir_def fillxdir_def unpackstr_def str_def cstr_def nth_append)
  from wstat_applies [OF this, of "\<lparr>kk = kk ?e, kv = wstat_val ?w, mop = Owstat\<rparr>" ?w 769] show ?thesis
    by (auto simp: Let_def wstat_dir_def wset_def fillxdir_def)
qed

end
