(* ===== verification/Gefs_Node.thy ===== *)
theory Gefs_Node
  imports Gefs_Blk Gefs_Msg
begin

text \<open>
  \<open>sys/src/9/gefs/tree.c\<close>, the nodes of the tree as blocks: entries (\<open>getval\<close>, \<open>setval\<close>,
  \<open>getptr\<close>, \<open>setptr\<close>), buffered messages (\<open>getmsg\<close>, \<open>setmsg\<close>), the binary searches
  (\<open>blksearch\<close>, \<open>bufsearch\<close>) and the measures of how full a node is.

  A node keeps its entries in a slotted page: a table of 16-bit offsets grows up from the start,
  and the entries grow down from the end.  A pivot has a second page of that form for its
  buffer.  \<open>wfnode b vs ms\<close> says that the block represents a list of entries and a list of
  messages; the operations are proved to act on these lists.
\<close>

abbreviation (input) Leafspc :: nat where "Leafspc \<equiv> 16378"
abbreviation (input) Pivspc :: nat where "Pivspc \<equiv> 8187"

section \<open>Operations\<close>

text \<open>A store at \<open>b->data + o\<close>, which must be inside the block, and a 16-bit signed field.\<close>

definition wput :: "Blk \<Rightarrow> int \<Rightarrow> bytes \<Rightarrow> Blk res" where
  "wput b i bs = (if 0 \<le> i \<and> bdata b + nat i + length bs \<le> length (bbuf b)
     then Inr (putblk (bdata b + nat i) bs b) else Inl Wild)"

definition toshort :: "int \<Rightarrow> int" where
  "toshort x = sint (of_int x :: u16)"

text \<open>A key and a value with their lengths, as \<open>getval\<close> and \<open>getmsg\<close> find them at \<open>p\<close>.\<close>

definition getkv :: "bytes \<Rightarrow> Kvp res" where
  "getkv p =
     needE 2 p (let nk = unat (UNPACK16 p); p = drop 2 p in
     needE (nk + 2) p (let k = take nk p; p = drop nk p; nv = unat (UNPACK16 p); p = drop 2 p in
     needE nv p (Inr \<lparr>kk = k, kv = take nv p\<rparr>)))"

definition getval :: "Blk \<Rightarrow> int \<Rightarrow> Kvp res" where
  "getval b i = assertE (0 \<le> i \<and> i < nval b)
     (let p = drop (bdata b + 2 * nat i) (bbuf b) in
      needE 2 p (getkv (drop (bdata b + unat (UNPACK16 p)) (bbuf b))))"

definition getptr :: "Kvp \<Rightarrow> (Bptr \<times> nat) res" where
  "getptr e = assertE (length (kv e) = Ptrsz + 2)
     (bindE (unpackbp (kv e)) (\<lambda>bp. Inr (bp, unat (UNPACK16 (drop Ptrsz (kv e))))))"

definition setval :: "Blk \<Rightarrow> ('a) Kvp_scheme \<Rightarrow> Blk res" where
  "setval b e =
     (let spc = (if btype b = Tleaf then int Leafspc else int Pivspc);
          nk = int (length (kk e)); nv = int (length (kv e));
          b = b\<lparr>valsz := toshort (valsz b + (2 + nk + 2 + nv))\<rparr>;
          off = spc - valsz b in
      if kk e = [] then Inl Wild
      else assertE (hd (kk e) = Kent \<longrightarrow> kv e \<noteq> [])
        (assertE (2 * (nval b + 1) + valsz b \<le> spc)
        (assertE (2 * (nval b + 1) \<le> off)
        (bindE (wput b (2 * nval b) (PACK16 (of_int off))) (\<lambda>b.
         bindE (wput b off (PACK16 (of_int nk) @ kk e @ PACK16 (of_int nv) @ kv e)) (\<lambda>b.
         Inr (b\<lparr>nval := toshort (nval b + 1)\<rparr>)))))))"

definition setptr :: "Blk \<Rightarrow> bytes \<Rightarrow> Bptr \<Rightarrow> int \<Rightarrow> Blk res" where
  "setptr b k bp fill =
     bindE (packbp (Ptrsz + 2) bp) (\<lambda>p. setval b \<lparr>kk = k, kv = p @ PACK16 (of_int fill)\<rparr>)"

definition setmsg :: "Blk \<Rightarrow> Msg \<Rightarrow> Blk res" where
  "setmsg b m = assertE (btype b = Tpivot)
     (let b = b\<lparr>bufsz := toshort (bufsz b + (msgsz m - 2))\<rparr>;
          off = int Bufspc - bufsz b in
      assertE (2 * (nbuf b + 1) + bufsz b \<le> int Bufspc)
      (bindE (wput b (int Pivspc + 2 * nbuf b) (PACK16 (of_int off))) (\<lambda>b.
       bindE (wput b (int Pivspc + off)
         (PACK8 (mop m) @ PACK16 (of_nat (length (kk m))) @ kk m @ PACK16 (of_nat (length (kv m))) @ kv m)) (\<lambda>b.
       Inr (b\<lparr>nbuf := toshort (nbuf b + 1)\<rparr>)))))"

definition getmsg :: "Blk \<Rightarrow> int \<Rightarrow> Msg res" where
  "getmsg b i = assertE (btype b = Tpivot) (assertE (0 \<le> i \<and> i < nbuf b)
     (let p = drop (bdata b + Pivspc + 2 * nat i) (bbuf b) in
      needE 2 p
      (let p = drop (bdata b + Pivspc + unat (UNPACK16 p)) (bbuf b) in
       needE 1 p (bindE (getkv (drop 1 p)) (\<lambda>e. Inr \<lparr>kk = kk e, kv = kv e, mop = UNPACK8 p\<rparr>)))))"

text \<open>
  The loop of \<open>blksearch\<close> and \<open>bufsearch\<close>: the first of the entries with the key, or the last
  one before it (which is -1 when there is none).
\<close>

function searchloop :: "(int \<Rightarrow> bytes res) \<Rightarrow> bytes \<Rightarrow> int \<Rightarrow> int \<Rightarrow> int \<Rightarrow> (int \<times> int) res" where
  "searchloop get k ri lo hi =
     (if lo \<le> hi then
        let mid = (hi + lo) div 2 in
        bindE (get mid) (\<lambda>c.
        let r = keycmp k c in
        if r = -1 then searchloop get k ri lo (mid - 1)
        else if r = 0 then searchloop get k mid lo (mid - 1)
        else searchloop get k ri (mid + 1) hi)
      else Inr (ri, lo))"
  by pat_completeness auto
termination
  by (relation "measure (\<lambda>(get, k, ri, lo, hi). nat (hi - lo + 1))") auto

declare searchloop.simps [simp del]

definition search :: "(int \<Rightarrow> bytes res) \<Rightarrow> int \<Rightarrow> bytes \<Rightarrow> (int \<times> bool) res" where
  "search get n k = bindE (searchloop get k (-1) 0 (n - 1)) (\<lambda>(ri, lo).
     Inr (if ri = -1 then (lo - 1, False) else (ri, True)))"

definition blksearch :: "Blk \<Rightarrow> bytes \<Rightarrow> (int \<times> bool \<times> Kvp option) res" where
  "blksearch b k =
     bindE (search (\<lambda>i. bindE (getval b i) (\<lambda>e. Inr (kk e))) (nval b) k) (\<lambda>(ri, same).
     if ri \<ge> 0 then bindE (getval b ri) (\<lambda>e. Inr (ri, same, Some e)) else Inr (ri, same, None))"

definition bufsearch :: "Blk \<Rightarrow> bytes \<Rightarrow> (int \<times> bool \<times> Msg option) res" where
  "bufsearch b k =
     bindE (search (\<lambda>i. bindE (getmsg b i) (\<lambda>m. Inr (kk m))) (nbuf b) k) (\<lambda>(ri, same).
     if ri \<ge> 0 then bindE (getmsg b ri) (\<lambda>m. Inr (ri, same, Some m)) else Inr (ri, same, None))"

definition buffill :: "Blk \<Rightarrow> int res" where
  "buffill b = assertE (btype b = Tpivot) (Inr (2 * nbuf b + bufsz b))"

definition filledbuf :: "Blk \<Rightarrow> int \<Rightarrow> int \<Rightarrow> bool res" where
  "filledbuf b nmsg needed = assertE (btype b = Tpivot) (Inr (2 * (nbuf b + nmsg) + bufsz b + needed > int Bufspc))"

definition filledleaf :: "Blk \<Rightarrow> int \<Rightarrow> bool res" where
  "filledleaf b needed = assertE (btype b = Tleaf) (Inr (2 * (nval b + 1) + valsz b + needed > int Leafspc))"

definition filledpiv :: "Blk \<Rightarrow> int \<Rightarrow> bool res" where
  "filledpiv b rsv = assertE (btype b = Tpivot)
     (Inr (2 * (nval b + 1) + valsz b + rsv * (8 + int Keymax + int Ptrsz) > int Pivspc))"

section \<open>Slotted pages\<close>

definition used_by :: "bytes list \<Rightarrow> nat" where
  "used_by es = sum_list (map length es)"

definition slot :: "bytes \<Rightarrow> nat \<Rightarrow> nat \<Rightarrow> nat \<Rightarrow> nat \<Rightarrow> bytes \<Rightarrow> bool" where
  "slot buf base spc u i e \<longleftrightarrow>
     (\<exists>off. take 2 (drop (base + 2 * i) buf) = PACK16 (of_nat off) \<and> off < 65536 \<and> spc - u \<le> off \<and> off + length e \<le> spc \<and>
       take (length e) (drop (base + off) buf) = e)"

definition slots :: "bytes \<Rightarrow> nat \<Rightarrow> nat \<Rightarrow> bytes list \<Rightarrow> bool" where
  "slots buf base spc es \<longleftrightarrow> 2 * length es + used_by es \<le> spc \<and> spc < 65536 \<and> base + spc \<le> length buf \<and>
     (\<forall>i < length es. slot buf base spc (used_by es) i (es ! i))"

lemma take_drop_put_before: "j + n \<le> i \<Longrightarrow> i + length bs \<le> length xs \<Longrightarrow> take n (drop j (put i bs xs)) = take n (drop j xs)"
  using take_put [of "n + j" i xs bs] by (simp add: take_drop)

lemma take_drop_put_after: "i + length bs \<le> j \<Longrightarrow> i + length bs \<le> length xs \<Longrightarrow> take n (drop j (put i bs xs)) = take n (drop j xs)"
  by (simp add: drop_put)

lemma take_drop_put_same: "i + length bs \<le> length xs \<Longrightarrow> take (length bs) (drop i (put i bs xs)) = bs"
  by (simp add: put_def)

lemma slots_outside:
  assumes "slots buf base spc es" "i + length bs \<le> base \<or> base + spc \<le> i" "i + length bs \<le> length buf"
  shows "slots (put i bs buf) base spc es"
proof -
  have keep: "take n (drop j (put i bs buf)) = take n (drop j buf)" if "base \<le> j" "j + n \<le> base + spc" for j n
    using assms(2)
  proof
    assume "i + length bs \<le> base"
    with that assms(3) show ?thesis by (intro take_drop_put_after) auto
  next
    assume "base + spc \<le> i"
    with that assms(3) show ?thesis by (intro take_drop_put_before) auto
  qed
  have "slot (put i bs buf) base spc (used_by es) k (es ! k)" if "k < length es" for k
  proof -
    from assms(1) that obtain off where off: "take 2 (drop (base + 2 * k) buf) = PACK16 (of_nat off)" "off < 65536"
      "spc - used_by es \<le> off" "off + length (es ! k) \<le> spc" "take (length (es ! k)) (drop (base + off) buf) = es ! k"
      by (auto simp: slots_def slot_def)
    have "2 * k + 2 \<le> spc" using assms(1) that by (auto simp: slots_def)
    with off keep [of "base + 2 * k" 2] keep [of "base + off" "length (es ! k)"] show ?thesis by (auto simp: slot_def)
  qed
  with assms show ?thesis by (auto simp: slots_def)
qed

lemma slot_mono: "slot buf base spc u i e \<Longrightarrow> u \<le> u' \<Longrightarrow> slot buf base spc u' i e"
  by (force simp: slot_def)

lemma slots_append:
  assumes "slots buf base spc es" "2 * (length es + 1) + used_by es + length e \<le> spc"
    and "off = spc - (used_by es + length e)"
  shows "slots (put (base + off) e (put (base + 2 * length es) (PACK16 (of_nat off)) buf)) base spc (es @ [e])"
proof -
  let ?n = "length es" let ?u = "used_by es"
  let ?b1 = "put (base + 2 * ?n) (PACK16 (of_nat off)) buf"
  let ?b2 = "put (base + off) e ?b1"
  have off: "2 * ?n + 2 \<le> off" "off + length e = spc - ?u" "off < 65536" "spc < 65536" "base + spc \<le> length buf" "?u \<le> spc"
    using assms by (auto simp: slots_def)
  then have l1: "length ?b1 = length buf" by simp
  then have l2: "length ?b2 = length buf" using off by simp
  have tab: "take 2 (drop (base + 2 * i) ?b2) = take 2 (drop (base + 2 * i) ?b1)" if "i \<le> ?n" for i
    using that off l1 by (intro take_drop_put_before) auto
  have old: "slot ?b2 base spc (?u + length e) i (es ! i)" if i: "i < ?n" for i
  proof -
    from assms(1) i obtain fo where fo: "take 2 (drop (base + 2 * i) buf) = PACK16 (of_nat fo)" "fo < 65536"
      "spc - ?u \<le> fo" "fo + length (es ! i) \<le> spc" "take (length (es ! i)) (drop (base + fo) buf) = es ! i"
      by (auto simp: slots_def slot_def)
    have "take 2 (drop (base + 2 * i) ?b1) = take 2 (drop (base + 2 * i) buf)"
      using i off by (intro take_drop_put_before) auto
    moreover have "take (length (es ! i)) (drop (base + fo) ?b2) = take (length (es ! i)) (drop (base + fo) ?b1)"
      using fo off l1 by (intro take_drop_put_after) auto
    moreover have "take (length (es ! i)) (drop (base + fo) ?b1) = take (length (es ! i)) (drop (base + fo) buf)"
      using fo off by (intro take_drop_put_after) auto
    ultimately show ?thesis using fo tab [of i] i by (auto simp: slot_def)
  qed
  have "take 2 (drop (base + 2 * ?n) ?b1) = PACK16 (of_nat off)"
    using take_drop_put_same [of "base + 2 * ?n" "PACK16 (of_nat off)" buf] off by simp
  moreover have "take (length e) (drop (base + off) ?b2) = e"
    using off l1 by (intro take_drop_put_same) auto
  ultimately have new: "slot ?b2 base spc (?u + length e) ?n e"
    using off tab [of ?n] by (auto simp: slot_def)
  have u: "used_by (es @ [e]) = ?u + length e" by (simp add: used_by_def)
  have "slot ?b2 base spc (used_by (es @ [e])) i ((es @ [e]) ! i)" if "i < length (es @ [e])" for i
    unfolding u using old [of i] new that by (cases "i = ?n") (auto simp: nth_append)
  then show ?thesis unfolding slots_def using off l2 assms(2) u by auto
qed

section \<open>Nodes\<close>

definition kvenc :: "('a) Kvp_scheme \<Rightarrow> bytes" where
  "kvenc e = PACK16 (of_nat (length (kk e))) @ kk e @ PACK16 (of_nat (length (kv e))) @ kv e"

definition msgenc :: "Msg \<Rightarrow> bytes" where
  "msgenc m = PACK8 (mop m) @ kvenc m"

lemma length_kvenc: "int (length (kvenc e)) = valsz_kv e - 2" "int (length (msgenc m)) = msgsz m - 2"
  by (simp_all add: kvenc_def msgenc_def valsz_kv_def msgsz_def)

definition shortkv :: "('a) Kvp_scheme \<Rightarrow> bool" where
  "shortkv e \<longleftrightarrow> length (kk e) + length (kv e) < 16000"

lemma getkv_kvenc: "shortkv e \<Longrightarrow> getkv (kvenc e @ r) = Inr \<lparr>kk = kk e, kv = kv e\<rparr>"
  by (simp add: getkv_def kvenc_def shortkv_def needE_def unat_of_nat take_bit_nat_eq_self)

definition valspc :: "int \<Rightarrow> nat" where
  "valspc ty = (if ty = Tleaf then Leafspc else Pivspc)"

definition wfnode :: "Blk \<Rightarrow> Kvp list \<Rightarrow> Msg list \<Rightarrow> bool" where
  "wfnode b vs ms \<longleftrightarrow> (btype b = Tleaf \<or> btype b = Tpivot) \<and> length (bbuf b) = Blksz \<and> bdata b = datastart (btype b) \<and>
     nval b = int (length vs) \<and> valsz b = int (used_by (map kvenc vs)) \<and>
     nbuf b = int (length ms) \<and> bufsz b = int (used_by (map msgenc ms)) \<and>
     (\<forall>e \<in> set vs. shortkv e) \<and> (\<forall>m \<in> set ms. shortkv m) \<and>
     slots (bbuf b) (bdata b) (valspc (btype b)) (map kvenc vs) \<and>
     (if btype b = Tpivot then slots (bbuf b) (bdata b + Pivspc) Bufspc (map msgenc ms) else ms = [])"

lemma toshort_small: "0 \<le> x \<Longrightarrow> x < 2 ^ 15 \<Longrightarrow> toshort x = x"
  using short_of_int [of x] by (simp add: toshort_def short_def)

lemma slot_read:
  assumes "slot buf base spc u i e" "2 \<le> length e"
  obtains off r where "drop (base + 2 * i) buf = PACK16 (of_nat off) @ r" "off < 65536"
    "drop (base + off) buf = e @ drop (length e) (drop (base + off) buf)"
proof -
  from assms(1) obtain off where off: "take 2 (drop (base + 2 * i) buf) = PACK16 (of_nat off)" "off < 65536"
    "take (length e) (drop (base + off) buf) = e" by (auto simp: slot_def)
  have "drop (base + 2 * i) buf = PACK16 (of_nat off) @ drop 2 (drop (base + 2 * i) buf)"
    using append_take_drop_id [of 2 "drop (base + 2 * i) buf"] off(1) by simp
  moreover have "drop (base + off) buf = e @ drop (length e) (drop (base + off) buf)"
    using append_take_drop_id [of "length e" "drop (base + off) buf"] off(3) by simp
  ultimately show thesis using that off(2) by blast
qed

lemma unat_of_nat16: "n < 65536 \<Longrightarrow> unat (of_nat n :: u16) = n"
  by (simp add: unat_of_nat take_bit_nat_eq_self)

lemma getval_node:
  assumes "wfnode b vs ms" "i < length vs"
  shows "getval b (int i) = Inr (vs ! i)"
proof -
  have "slot (bbuf b) (bdata b) (valspc (btype b)) (used_by (map kvenc vs)) i (kvenc (vs ! i))"
    using assms by (auto simp: wfnode_def slots_def)
  moreover have "2 \<le> length (kvenc (vs ! i))" by (simp add: kvenc_def)
  ultimately obtain off r where o: "drop (bdata b + 2 * i) (bbuf b) = PACK16 (of_nat off) @ r" "off < 65536"
    "drop (bdata b + off) (bbuf b) = kvenc (vs ! i) @ drop (length (kvenc (vs ! i))) (drop (bdata b + off) (bbuf b))"
    by (rule slot_read)
  have "shortkv (vs ! i)" using assms by (auto simp: wfnode_def)
  then have "getkv (drop (bdata b + off) (bbuf b)) = Inr (vs ! i)"
    by (subst o(3)) (simp add: getkv_kvenc)
  then show ?thesis using assms o(1,2) by (simp add: getval_def wfnode_def needE_def unat_of_nat16)
qed

lemma getmsg_node:
  assumes "wfnode b vs ms" "i < length ms"
  shows "getmsg b (int i) = Inr (ms ! i)"
proof -
  have p: "btype b = Tpivot" using assms by (auto simp: wfnode_def split: if_splits)
  then have "slot (bbuf b) (bdata b + Pivspc) Bufspc (used_by (map msgenc ms)) i (msgenc (ms ! i))"
    using assms by (auto simp: wfnode_def slots_def)
  moreover have "2 \<le> length (msgenc (ms ! i))" by (simp add: msgenc_def kvenc_def)
  ultimately obtain off r where o: "drop (bdata b + Pivspc + 2 * i) (bbuf b) = PACK16 (of_nat off) @ r" "off < 65536"
    "drop (bdata b + Pivspc + off) (bbuf b) = msgenc (ms ! i) @ drop (length (msgenc (ms ! i))) (drop (bdata b + Pivspc + off) (bbuf b))"
    by (rule slot_read)
  have "shortkv (ms ! i)" using assms by (auto simp: wfnode_def)
  have n: "nbuf b = int (length ms)" using assms(1) by (simp add: wfnode_def)
  define q where "q = drop (length (msgenc (ms ! i))) (drop (bdata b + Pivspc + off) (bbuf b))"
  have d: "drop (bdata b + Pivspc + off) (bbuf b) = PACK8 (mop (ms ! i)) @ kvenc (ms ! i) @ q"
    using o(3) unfolding q_def by (simp add: msgenc_def)
  have "drop 1 (PACK8 (mop (ms ! i)) @ kvenc (ms ! i) @ q) = kvenc (ms ! i) @ q" by simp
  then have "getmsg b (int i) = Inr \<lparr>kk = kk (ms ! i), kv = kv (ms ! i), mop = mop (ms ! i)\<rparr>"
    using n assms(2) o(1,2) p \<open>shortkv (ms ! i)\<close> unfolding getmsg_def Let_def
    by (simp add: needE_def unat_of_nat16 d getkv_kvenc del: drop_append drop_drop)
  then show ?thesis by simp
qed

lemma valspc_bounds: "valspc ty \<le> Leafspc" "0 < valspc ty"
  by (auto simp: valspc_def)

lemma wput_Inr: "0 \<le> i \<Longrightarrow> bdata b + nat i + length bs \<le> length (bbuf b) \<Longrightarrow> wput b i bs = Inr (putblk (bdata b + nat i) bs b)"
  by (simp add: wput_def)

lemma setval_node:
  assumes "wfnode b vs ms" "shortkv e" "kk e \<noteq> []" "hd (kk e) = Kent \<longrightarrow> kv e \<noteq> []"
  shows "if 2 * (length vs + 1) + used_by (map kvenc vs) + length (kvenc e) \<le> valspc (btype b)
    then \<exists>b'. setval b e = Inr b' \<and> wfnode b' (vs @ [\<lparr>kk = kk e, kv = kv e\<rparr>]) ms \<and> btype b' = btype b \<and> bbp b' = bbp b \<and>
      bref b' = bref b \<and> bflag b' = bflag b \<and> logsz b' = logsz b
    else setval b e = Inl Panic"
proof -
  define u where "u = used_by (map kvenc vs)"
  define l where "l = length (kvenc e)"
  define spc where "spc = valspc (btype b)"
  define b1 where "b1 = b\<lparr>valsz := int (u + l)\<rparr>"
  have b: "nval b = int (length vs)" "valsz b = int u" "length (bbuf b) = 16384" "2 * length vs + u \<le> spc" "spc \<le> 16378"
    "bdata b + spc \<le> 16384" "btype b = Tleaf \<or> btype b = Tpivot" "bdata b = datastart (btype b)"
    using assms(1) by (auto simp: wfnode_def slots_def u_def spc_def valspc_def)
  have l: "l = 4 + length (kk e) + length (kv e)" "l < 16004" using assms(2) by (simp_all add: l_def kvenc_def shortkv_def)
  have ts: "toshort (valsz b + (2 + int (length (kk e)) + 2 + int (length (kv e)))) = int (u + l)"
    using b l by (subst toshort_small) auto
  have sp: "(if btype b = Tleaf then int Leafspc else int Pivspc) = int spc" by (simp add: spc_def valspc_def)
  have sv: "setval b e = assertE (2 * (nval b + 1) + int (u + l) \<le> int spc)
        (assertE (2 * (nval b + 1) \<le> int spc - int (u + l))
        (bindE (wput b1 (2 * nval b) (PACK16 (of_int (int spc - int (u + l))))) (\<lambda>b.
         bindE (wput b (int spc - int (u + l)) (kvenc e)) (\<lambda>b. Inr (b\<lparr>nval := toshort (nval b + 1)\<rparr>)))))"
    unfolding setval_def Let_def ts sp using assms(3,4) by (simp add: b1_def kvenc_def assertE_def)
  show ?thesis
  proof (cases "2 * (length vs + 1) + u + l \<le> spc")
    case False
    then have "setval b e = Inl Panic" unfolding sv using b by (simp add: assertE_def)
    with False show ?thesis by (simp add: u_def l_def spc_def)
  next
    case True
    define off where "off = spc - (u + l)"
    have off: "int spc - int (u + l) = int off" "2 * length vs + 2 \<le> off" "off + l + u = spc" using True by (auto simp: off_def)
    define i1 where "i1 = bdata b + 2 * length vs"
    define b2 where "b2 = put (bdata b + off) (kvenc e) (put i1 (PACK16 (of_nat off)) (bbuf b))"
    have w1: "wput b1 (2 * nval b) (PACK16 (of_int (int off))) = Inr (putblk i1 (PACK16 (of_nat off)) b1)"
      using b off True by (subst wput_Inr) (simp_all add: b1_def i1_def nat_mult_distrib)
    have w2: "wput (putblk i1 (PACK16 (of_nat off)) b1) (int off) (kvenc e) =
        Inr (b1\<lparr>bbuf := b2\<rparr>)"
      using b off by (subst wput_Inr) (simp_all add: b1_def b2_def putblk_def i1_def flip: l_def)
    have sv2: "setval b e = Inr (b1\<lparr>bbuf := b2, nval := int (length vs) + 1\<rparr>)"
      unfolding sv off using True b off(2) w1 w2 by (simp add: b1_def toshort_small)
    have sl: "slots b2 (bdata b) spc (map kvenc vs @ [kvenc e])"
    proof -
      have s0: "slots (bbuf b) (bdata b) spc (map kvenc vs)" using assms(1) unfolding wfnode_def spc_def by blast
      have "2 * (length (map kvenc vs) + 1) + used_by (map kvenc vs) + length (kvenc e) \<le> spc"
        "off = spc - (used_by (map kvenc vs) + length (kvenc e))" using True by (simp_all add: u_def l_def off_def)
      from slots_append [OF s0 this] show ?thesis by (simp add: b2_def i1_def)
    qed
    have l1: "length (put i1 (PACK16 (of_nat off)) (bbuf b)) = 16384" using b off by (simp add: i1_def)
    then have l2: "length b2 = 16384" unfolding b2_def using b off by (subst length_put) (simp_all flip: l_def)
    have kv: "kvenc \<lparr>kk = kk e, kv = kv e\<rparr> = kvenc e" by (simp add: kvenc_def)
    have ms: "if btype b = Tpivot then slots b2 (bdata b + Pivspc) Bufspc (map msgenc ms) else ms = []"
    proof (cases "btype b = Tpivot")
      case True
      then have sm: "slots (bbuf b) (bdata b + Pivspc) Bufspc (map msgenc ms)" and s8: "spc = Pivspc" using assms(1) by (auto simp: wfnode_def spc_def valspc_def)
      have "slots (put i1 (PACK16 (of_nat off)) (bbuf b)) (bdata b + Pivspc) Bufspc (map msgenc ms)"
        by (rule slots_outside [OF sm]) (use b off s8 in \<open>auto simp: i1_def\<close>)
      then have "slots b2 (bdata b + Pivspc) Bufspc (map msgenc ms)"
        unfolding b2_def by (rule slots_outside) (use b off s8 l1 in \<open>auto simp flip: l_def\<close>)
      with True show ?thesis by simp
    qed (use assms(1) in \<open>auto simp: wfnode_def\<close>)
    have "used_by (map kvenc (vs @ [\<lparr>kk = kk e, kv = kv e\<rparr>])) = u + l" by (simp add: used_by_def u_def l_def kv)
    then have "wfnode (b1\<lparr>bbuf := b2, nval := int (length vs) + 1\<rparr>) (vs @ [\<lparr>kk = kk e, kv = kv e\<rparr>]) ms"
      using assms(1,2) sl ms l2 unfolding wfnode_def by (auto simp: b1_def kv shortkv_def split: if_splits simp flip: spc_def)
    with sv2 True show ?thesis by (simp add: u_def l_def spc_def b1_def)
  qed
qed

lemma setmsg_node:
  assumes "wfnode b vs ms" "shortkv m" "btype b = Tpivot"
  shows "if 2 * (length ms + 1) + used_by (map msgenc ms) + length (msgenc m) \<le> Bufspc
    then \<exists>b'. setmsg b m = Inr b' \<and> wfnode b' vs (ms @ [m]) \<and> btype b' = btype b \<and> bbp b' = bbp b \<and>
      bref b' = bref b \<and> bflag b' = bflag b \<and> logsz b' = logsz b
    else setmsg b m = Inl Panic"
proof -
  define u where "u = used_by (map msgenc ms)"
  define l where "l = length (msgenc m)"
  define b1 where "b1 = b\<lparr>bufsz := int (u + l)\<rparr>"
  have b: "nbuf b = int (length ms)" "bufsz b = int u" "length (bbuf b) = 16384" "2 * length ms + u \<le> Bufspc"
    "bdata b = 10"
    using assms(1,3) by (auto simp: wfnode_def slots_def u_def datastart_def)
  have l: "int l = msgsz m - 2" "l < 16005" using assms(2) by (simp_all add: l_def length_kvenc) (simp add: msgenc_def kvenc_def shortkv_def)
  have ts: "toshort (bufsz b + (msgsz m - 2)) = int (u + l)"
    using b l by (subst toshort_small) auto
  have sv: "setmsg b m = assertE (2 * (nbuf b + 1) + int (u + l) \<le> int Bufspc)
        (bindE (wput b1 (int Pivspc + 2 * nbuf b) (PACK16 (of_int (int Bufspc - int (u + l))))) (\<lambda>b.
         bindE (wput b (int Pivspc + (int Bufspc - int (u + l))) (msgenc m)) (\<lambda>b. Inr (b\<lparr>nbuf := toshort (nbuf b + 1)\<rparr>))))"
    unfolding setmsg_def Let_def ts using assms(3) by (simp add: b1_def msgenc_def kvenc_def assertE_def)
  show ?thesis
  proof (cases "2 * (length ms + 1) + u + l \<le> Bufspc")
    case False
    then have "setmsg b m = Inl Panic" unfolding sv using b by (simp add: assertE_def)
    with False show ?thesis by (simp add: u_def l_def)
  next
    case True
    define off where "off = Bufspc - (u + l)"
    have off: "int Bufspc - int (u + l) = int off" "2 * length ms + 2 \<le> off" "off + l + u = Bufspc" using True by (auto simp: off_def)
    define i1 where "i1 = bdata b + Pivspc + 2 * length ms"
    define b2 where "b2 = put (bdata b + Pivspc + off) (msgenc m) (put i1 (PACK16 (of_nat off)) (bbuf b))"
    have w1: "wput b1 (int Pivspc + 2 * nbuf b) (PACK16 (of_int (int off))) = Inr (putblk i1 (PACK16 (of_nat off)) b1)"
      using b off True by (subst wput_Inr) (simp_all add: b1_def i1_def nat_add_distrib nat_mult_distrib)
    have w2: "wput (putblk i1 (PACK16 (of_nat off)) b1) (int Pivspc + int off) (msgenc m) = Inr (b1\<lparr>bbuf := b2\<rparr>)"
      using b off by (subst wput_Inr) (simp_all add: b1_def b2_def putblk_def i1_def nat_add_distrib flip: l_def)
    have sv2: "setmsg b m = Inr (b1\<lparr>bbuf := b2, nbuf := int (length ms) + 1\<rparr>)"
      unfolding sv off using True b off(2) w1 w2 by (simp add: b1_def toshort_small)
    have sl: "slots b2 (bdata b + Pivspc) Bufspc (map msgenc ms @ [msgenc m])"
    proof -
      have s0: "slots (bbuf b) (bdata b + Pivspc) Bufspc (map msgenc ms)" using assms(1,3) by (auto simp: wfnode_def)
      have "2 * (length (map msgenc ms) + 1) + used_by (map msgenc ms) + length (msgenc m) \<le> Bufspc"
        "off = Bufspc - (used_by (map msgenc ms) + length (msgenc m))" using True by (simp_all add: u_def l_def off_def)
      from slots_append [OF s0 this] show ?thesis by (simp add: b2_def i1_def)
    qed
    have l1: "length (put i1 (PACK16 (of_nat off)) (bbuf b)) = 16384" using b off by (simp add: i1_def)
    then have l2: "length b2 = 16384" unfolding b2_def using b off by (subst length_put) (simp_all flip: l_def)
    have vs: "slots b2 (bdata b) (valspc (btype b)) (map kvenc vs)"
    proof -
      have s0: "slots (bbuf b) (bdata b) (valspc (btype b)) (map kvenc vs)" using assms(1) unfolding wfnode_def by blast
      have "slots (put i1 (PACK16 (of_nat off)) (bbuf b)) (bdata b) (valspc (btype b)) (map kvenc vs)"
        by (rule slots_outside [OF s0]) (use b off assms(3) in \<open>auto simp: i1_def valspc_def\<close>)
      then show ?thesis unfolding b2_def by (rule slots_outside) (use b off assms(3) l1 in \<open>auto simp: valspc_def simp flip: l_def\<close>)
    qed
    have "used_by (map msgenc (ms @ [m])) = u + l" by (simp add: used_by_def u_def l_def)
    then have "wfnode (b1\<lparr>bbuf := b2, nbuf := int (length ms) + 1\<rparr>) vs (ms @ [m])"
      using assms sl vs l2 unfolding wfnode_def by (simp add: b1_def)
    with sv2 True show ?thesis by (simp add: u_def l_def b1_def)
  qed
qed

lemma slots_Nil: "spc < 65536 \<Longrightarrow> base + spc \<le> length buf \<Longrightarrow> slots buf base spc []"
  by (simp add: slots_def used_by_def)

lemma initblk_node:
  assumes "length (bbuf b) = Blksz" "ty = Tleaf \<or> ty = Tpivot" "\<not> cached bp"
  shows "\<exists>b'. initblk cached b bp gen ty = Inr b' \<and> wfnode b' [] [] \<and> btype b' = ty \<and> bbp b' = \<lparr>baddr = bp, bhash = -1, bgen = gen\<rparr> \<and>
    bref b' = bref b \<and> logsz b' = 0"
  using assms by (auto simp: initblk_def wfnode_def datastart_def used_by_def valspc_def setflag_def intro!: slots_Nil)

section \<open>Searches\<close>

text \<open>The number of keys before \<open>k\<close>.\<close>

definition rankof :: "bytes list \<Rightarrow> bytes \<Rightarrow> nat" where
  "rankof ks k = length (takeWhile (\<lambda>x. x < k) ks)"

lemma rankof_le: "rankof ks k \<le> length ks"
  by (simp add: rankof_def length_takeWhile_le)

lemma rankof_nth:
  assumes "sorted ks" "i < length ks"
  shows "ks ! i < k \<longleftrightarrow> i < rankof ks k"
proof
  assume "i < rankof ks k"
  then have "takeWhile (\<lambda>x. x < k) ks ! i \<in> set (takeWhile (\<lambda>x. x < k) ks)" by (simp add: rankof_def)
  then show "ks ! i < k" using \<open>i < rankof ks k\<close> by (auto simp: rankof_def takeWhile_nth dest: set_takeWhileD)
next
  assume "ks ! i < k"
  show "i < rankof ks k"
  proof (rule ccontr)
    assume "\<not> i < rankof ks k"
    then have "rankof ks k \<le> i" by simp
    with assms have "rankof ks k < length ks" "ks ! rankof ks k \<le> ks ! i" by (auto intro: sorted_nth_mono)
    with nth_length_takeWhile [of "\<lambda>x. x < k" ks] have "\<not> ks ! rankof ks k < k" by (simp add: rankof_def)
    with \<open>ks ! i < k\<close> \<open>ks ! rankof ks k \<le> ks ! i\<close> show False by order
  qed
qed

definition foundat :: "bytes list \<Rightarrow> bytes \<Rightarrow> int \<Rightarrow> int \<Rightarrow> bool" where
  "foundat ks k ri hi \<longleftrightarrow> (if ri = -1 then \<forall>j. hi < int j \<and> j < length ks \<longrightarrow> k < ks ! j
     else ri = hi + 1 \<and> nat ri < length ks \<and> ks ! nat ri = k)"

lemma searchloop_correct:
  assumes "sorted ks" "\<And>i. 0 \<le> i \<Longrightarrow> i < int (length ks) \<Longrightarrow> get i = Inr (ks ! nat i)"
    and "0 \<le> lo" "lo \<le> int (rankof ks k)" "int (rankof ks k) \<le> hi + 1" "hi < int (length ks)" "foundat ks k ri hi"
  shows "\<exists>ri'. searchloop get k ri lo hi = Inr (ri', int (rankof ks k)) \<and> foundat ks k ri' (int (rankof ks k) - 1)"
  using assms(3-)
proof (induction "nat (hi - lo + 1)" arbitrary: ri lo hi rule: less_induct)
  case less
  show ?case
  proof (cases "lo \<le> hi")
    case False
    with less.prems have "lo = int (rankof ks k)" "hi = lo - 1" by auto
    moreover have "searchloop get k ri lo hi = Inr (ri, lo)" using False by (simp add: searchloop.simps [of get k ri lo hi])
    ultimately show ?thesis using less.prems(5) by simp
  next
    case True
    define mid where "mid = (hi + lo) div 2"
    have m: "lo \<le> mid" "mid \<le> hi" using True by (auto simp: mid_def)
    define x where "x = ks ! nat mid"
    have g: "get mid = Inr x" using assms(2) [of mid] m less.prems by (simp add: x_def)
    have nm: "nat mid < length ks" "int (nat mid) = mid" using m less.prems by auto
    have rank: "x < k \<longleftrightarrow> nat mid < rankof ks k" using rankof_nth [OF assms(1) nm(1)] by (simp add: x_def)
    have up: "x \<le> ks ! j" if "mid \<le> int j" "j < length ks" for j
      using sorted_nth_mono [OF assms(1), of "nat mid" j] that nm by (simp add: x_def)
    have step: "searchloop get k ri lo hi = (if k < x then searchloop get k ri lo (mid - 1)
        else if k = x then searchloop get k mid lo (mid - 1) else searchloop get k ri (mid + 1) hi)"
      using True g by (subst searchloop.simps) (auto simp: keycmp_order simp flip: mid_def)
    consider "k < x" | "k = x" | "x < k" by fastforce
    then show ?thesis
    proof cases
      case 1
      have "ri = -1"
      proof (rule ccontr)
        assume "ri \<noteq> -1"
        with less.prems have "ri = hi + 1" "nat ri < length ks" "ks ! nat ri = k" by (auto simp: foundat_def)
        with up [of "nat ri"] m less.prems 1 show False by (auto simp: not_less)
      qed
      moreover have "k < ks ! j" if "mid - 1 < int j" "j < length ks" for j
        using up [of j] that 1 by (auto intro: less_le_trans)
      ultimately have "foundat ks k ri (mid - 1)" by (simp add: foundat_def)
      moreover have "rankof ks k \<le> nat mid" using rank 1 by auto
      ultimately show ?thesis using step 1 less.hyps [of "mid - 1" lo ri] m less.prems nm by auto
    next
      case 2
      have "foundat ks k mid (mid - 1)" using 2 nm m less.prems by (auto simp: foundat_def x_def)
      moreover have "rankof ks k \<le> nat mid" using rank 2 by auto
      ultimately show ?thesis using step 2 less.hyps [of "mid - 1" lo mid] m less.prems nm by auto
    next
      case 3
      then have "mid + 1 \<le> int (rankof ks k)" using rank nm by auto
      then show ?thesis using step 3 less.hyps [of hi "mid + 1" ri] m less.prems by auto
    qed
  qed
qed

definition found :: "bytes list \<Rightarrow> bytes \<Rightarrow> int \<times> bool" where
  "found ks k = (if k \<in> set ks then (int (rankof ks k), True) else (int (rankof ks k) - 1, False))"

lemma search_correct:
  assumes "sorted ks" "\<And>i. 0 \<le> i \<Longrightarrow> i < int (length ks) \<Longrightarrow> get i = Inr (ks ! nat i)"
  shows "search get (int (length ks)) k = Inr (found ks k)"
proof -
  have "foundat ks k (-1) (int (length ks) - 1)" by (auto simp: foundat_def)
  from searchloop_correct [OF assms, of 0 k "int (length ks) - 1" "-1"] this rankof_le [of ks k] obtain ri where
    ri: "searchloop get k (-1) 0 (int (length ks) - 1) = Inr (ri, int (rankof ks k))" "foundat ks k ri (int (rankof ks k) - 1)"
    by auto
  show ?thesis
  proof (cases "ri = -1")
    case True
    have "k \<notin> set ks"
    proof
      assume "k \<in> set ks"
      then obtain j where j: "j < length ks" "ks ! j = k" by (auto simp: in_set_conv_nth)
      with rankof_nth [OF assms(1) j(1), of k] have "rankof ks k \<le> j" by auto
      then have "int (rankof ks k) - 1 < int j" by simp
      with ri(2) True j(1) have "k < ks ! j" by (simp add: foundat_def)
      with j(2) show False by simp
    qed
    with True ri(1) show ?thesis by (simp add: search_def found_def)
  next
    case False
    with ri(2) have "ri = int (rankof ks k)" "rankof ks k < length ks" "ks ! rankof ks k = k" by (auto simp: foundat_def)
    then have "k \<in> set ks" using nth_mem by metis
    with False ri(1) \<open>ri = int (rankof ks k)\<close> show ?thesis by (simp add: search_def found_def)
  qed
qed

lemma found_range: "fst (found ks k) < int (length ks)" "-1 \<le> fst (found ks k)"
proof -
  have "rankof ks k < length ks" if "k \<in> set ks"
  proof -
    have "takeWhile (\<lambda>x. x < k) ks \<noteq> ks"
    proof
      assume "takeWhile (\<lambda>x. x < k) ks = ks"
      then have "\<forall>x \<in> set ks. x < k" by (metis set_takeWhileD)
      with that show False by auto
    qed
    then show ?thesis unfolding rankof_def by (metis length_takeWhile_le le_neq_implies_less takeWhile_eq_take take_all_iff order_refl)
  qed
  with rankof_le [of ks k] show "fst (found ks k) < int (length ks)" "-1 \<le> fst (found ks k)" by (auto simp: found_def)
qed

section \<open>Properties\<close>

text \<open>
  A node holds what was put into it: a block that represents a list of entries and a list of
  messages gives each of them back by index; \<open>setval\<close> and \<open>setmsg\<close> append to the lists while there
  is room for the entry and its offset, without touching the other page, and panic when there is none.
\<close>

theorem node_append:
  assumes "wfnode b vs ms" "shortkv e" "kk e \<noteq> []" "hd (kk e) = Kent \<longrightarrow> kv e \<noteq> []" "shortkv m"
  shows "(\<forall>i < length vs. getval b (int i) = Inr (vs ! i)) \<and> (\<forall>i < length ms. getmsg b (int i) = Inr (ms ! i)) \<and>
    (if 2 * (nval b + 1) + valsz b + (valsz_kv e - 2) \<le> (if btype b = Tleaf then int Leafspc else int Pivspc)
     then \<exists>b'. setval b e = Inr b' \<and> wfnode b' (vs @ [e]) ms
     else setval b e = Inl Panic) \<and>
    (if btype b = Tpivot \<and> 2 * (nbuf b + 1) + bufsz b + (msgsz m - 2) \<le> int Bufspc
     then \<exists>b'. setmsg b m = Inr b' \<and> wfnode b' vs (ms @ [m])
     else setmsg b m = Inl Panic)"
proof -
  have n: "nval b = int (length vs)" "valsz b = int (used_by (map kvenc vs))" "nbuf b = int (length ms)" "bufsz b = int (used_by (map msgenc ms))"
    using assms(1) by (auto simp: wfnode_def)
  have e: "\<lparr>kk = kk e, kv = kv e\<rparr> = e" by simp
  from setval_node [OF assms(1-4), unfolded e] have "if 2 * (nval b + 1) + valsz b + (valsz_kv e - 2) \<le> (if btype b = Tleaf then int Leafspc else int Pivspc)
     then \<exists>b'. setval b e = Inr b' \<and> wfnode b' (vs @ [e]) ms else setval b e = Inl Panic"
    unfolding n length_kvenc(1) [of e, symmetric] by (auto simp: valspc_def split: if_splits)
  moreover have "if btype b = Tpivot \<and> 2 * (nbuf b + 1) + bufsz b + (msgsz m - 2) \<le> int Bufspc
     then \<exists>b'. setmsg b m = Inr b' \<and> wfnode b' vs (ms @ [m]) else setmsg b m = Inl Panic"
  proof (cases "btype b = Tpivot")
    case True
    from setmsg_node [OF assms(1,5) True] True show ?thesis
      unfolding n length_kvenc(2) [of m, symmetric] by (auto split: if_splits)
  qed (simp add: setmsg_def)
  ultimately show ?thesis using getval_node [OF assms(1)] getmsg_node [OF assms(1)] by simp
qed

definition node0 :: Blk where
  "node0 = zeroblk\<lparr>btype := Tpivot, bdata := 10, bbp := \<lparr>baddr = 32768, bhash = -1, bgen = 7\<rparr>\<rparr>"

lemma node0_wf: "wfnode node0 [] []"
  by (auto simp: wfnode_def node0_def zeroblk_def datastart_def used_by_def valspc_def intro!: slots_Nil)

theorem node_append_witness:
  "\<exists>b'. setval node0 \<lparr>kk = [1, 2], kv = [3]\<rparr> = Inr b' \<and> wfnode b' [\<lparr>kk = [1, 2], kv = [3]\<rparr>] []"
  using node_append [OF node0_wf, of "\<lparr>kk = [1, 2], kv = [3]\<rparr>" "\<lparr>kk = [1, 2], kv = [3], mop = 1\<rparr>"]
  by (simp add: shortkv_def valsz_kv_def) (simp add: node0_def zeroblk_def)

text \<open>
  C36. The binary searches find the place of a key: in a node whose keys are in order, \<open>blksearch\<close> and
  \<open>bufsearch\<close> return the first entry or message with the key when there is one, and otherwise the last
  one before it, or -1 when the key is before all.
\<close>

theorem node_search:
  assumes "wfnode b vs ms" "sorted (map kk vs)" "sorted (map kk ms)"
  shows "blksearch b k = Inr (let (ri, same) = found (map kk vs) k in (ri, same, if ri \<ge> 0 then Some (vs ! nat ri) else None)) \<and>
    (btype b = Tpivot \<longrightarrow>
     bufsearch b k = Inr (let (ri, same) = found (map kk ms) k in (ri, same, if ri \<ge> 0 then Some (ms ! nat ri) else None)))"
proof -
  have n: "nval b = int (length (map kk vs))" "nbuf b = int (length (map kk ms))" using assms(1) by (auto simp: wfnode_def)
  have gv: "bindE (getval b i) (\<lambda>e. Inr (kk e)) = Inr (map kk vs ! nat i)" if "0 \<le> i" "i < int (length (map kk vs))" for i
    using getval_node [OF assms(1), of "nat i"] that by simp
  have gm: "bindE (getmsg b i) (\<lambda>e. Inr (kk e)) = Inr (map kk ms ! nat i)" if "0 \<le> i" "i < int (length (map kk ms))" for i
    using getmsg_node [OF assms(1), of "nat i"] that by simp
  obtain r s where f: "found (map kk vs) k = (r, s)" by fastforce
  obtain r' s' where f': "found (map kk ms) k = (r', s')" by fastforce
  have "getval b r = Inr (vs ! nat r)" if "r \<ge> 0"
    using getval_node [OF assms(1), of "nat r"] that found_range(1) [of "map kk vs" k] f by simp
  moreover have "getmsg b r' = Inr (ms ! nat r')" if "r' \<ge> 0"
    using getmsg_node [OF assms(1), of "nat r'"] that found_range(1) [of "map kk ms" k] f' by simp
  ultimately show ?thesis
    using search_correct [OF assms(2) gv, of k] search_correct [OF assms(3) gm, of k] f f'
    by (simp add: blksearch_def bufsearch_def n del: length_map)
qed

theorem node_search_witness: "blksearch node0 [7] = Inr (-1, False, None) \<and> bufsearch node0 [7] = Inr (-1, False, None)"
  using node_search [OF node0_wf, of "[7]"] by (simp add: found_def rankof_def node0_def zeroblk_def)

lemma readhdr_leaf: "readhdr b = Inr c \<Longrightarrow> btype c = Tleaf \<Longrightarrow> nbuf c = nbuf b \<and> bufsz c = bufsz b"
  using readhdr_Inr [of b c] by (auto simp: readhdr_def)

lemma readblk_leaf:
  assumes "readblk pread b bp flg = Inr r" "btype r = Tleaf"
  shows "nbuf r = 0 \<and> bufsz r = 0"
proof -
  from assms(1) obtain buf where buf: "readbuf pread (unat (baddr bp)) Blksz = Inr buf"
    by (cases "readbuf pread (unat (baddr bp)) Blksz") (simp_all add: readblk_def)
  let ?b = "b\<lparr>bbuf := buf, bbp := \<lparr>baddr = baddr bp, bhash = -1, bgen = -1\<rparr>,
               nval := 0, valsz := 0, nbuf := 0, bufsz := 0, logsz := 0,
               btype := (if flg AND GBraw \<noteq> 0 then Tdat else short (UNPACK16 buf))\<rparr>"
  from assms(1) buf obtain c where c: "readhdr ?b = Inr c"
    by (cases "readhdr ?b") (simp_all add: readblk_def)
  have "r = c"
  proof (cases "btype c = Tlog \<or> btype c = Tdlist")
    case True
    with assms(1) buf c show ?thesis by (cases "databytes c (logsz c)") (auto simp: readblk_def split: if_splits)
  next
    case False
    with assms(1) buf c show ?thesis by (auto simp: readblk_def split: if_splits)
  qed
  with readhdr_leaf [OF c] assms(2) show ?thesis by simp
qed

lemma wfnode_wfblk:
  assumes "wfnode b vs ms" "logsz b = 0"
  shows "wfblk b"
proof -
  have "2 * length vs + used_by (map kvenc vs) \<le> 16378"
    using assms(1) valspc_bounds [of "btype b"] by (simp add: wfnode_def slots_def)
  moreover have "2 * length ms + used_by (map msgenc ms) \<le> 16378"
    using assms(1) by (cases "btype b = Tpivot") (simp_all add: wfnode_def slots_def used_by_def)
  ultimately have "\<forall>n \<in> {nval b, valsz b, nbuf b, bufsz b}. 0 \<le> n \<and> n < 2 ^ 15" using assms(1) by (simp add: wfnode_def)
  with assms show ?thesis unfolding wfblk_def wfnode_def by auto
qed

lemma wfnode_image:
  assumes "wfnode b vs ms" "bbuf c = put 0 bs (bbuf b)" "length bs \<le> bdata b" "btype c = btype b" "nval c = nval b" "valsz c = valsz b"
    "nbuf c = nbuf b" "bufsz c = bufsz b" "bdata c = bdata b"
  shows "wfnode c vs ms"
proof -
  have len: "length (bbuf b) = 16384" "bdata b \<le> 10" using assms(1) by (auto simp: wfnode_def datastart_def)
  have out: "slots (put 0 bs (bbuf b)) base spc es" if "slots (bbuf b) base spc es" "bdata b \<le> base" for base spc es
    by (rule slots_outside [OF that(1)]) (use that len assms(3) in auto)
  have 1: "slots (put 0 bs (bbuf b)) (bdata b) (valspc (btype b)) (map kvenc vs)"
    by (rule out) (use assms(1) in \<open>auto simp: wfnode_def\<close>)
  have 2: "slots (put 0 bs (bbuf b)) (bdata b + Pivspc) Bufspc (map msgenc ms)" if "btype b = Tpivot"
    by (rule out) (use assms(1) that in \<open>auto simp: wfnode_def\<close>)
  have "length (bbuf c) = 16384" unfolding assms(2) using len assms(3) by (subst length_put) auto
  with assms(1) 1 2 show ?thesis unfolding wfnode_def assms(2,4-9) by (cases "btype b = Tpivot") auto
qed

text \<open>
  A node written is the node read: \<open>finalize\<close> leaves the entries and messages as they are, and
  \<open>readblk\<close> of the image, in whatever pieces the device returns it, gives a block with the same ones.
\<close>

theorem node_on_disk:
  assumes "wfnode b vs ms" "logsz b = 0"
  shows "\<exists>b'. finalize b = Inr b' \<and> wfnode b' vs ms \<and>
    (\<forall>pread b0. serves pread (unat (baddr (bbp b))) (bbuf b') \<longrightarrow> (\<exists>r. readblk pread b0 (bbp b') 0 = Inr r \<and> wfnode r vs ms))"
proof -
  have ty: "btype b = Tleaf \<or> btype b = Tpivot" using assms(1) by (auto simp: wfnode_def)
  have wf: "wfblk b" by (rule wfnode_wfblk [OF assms])
  from finalize_buf [OF wf] obtain b' where f: "finalize b = Inr b'" and buf: "bbuf b' = put 0 (blkhdr b) (bbuf b)"
    and same: "btype b' = btype b" "nval b' = nval b" "valsz b' = valsz b" "nbuf b' = nbuf b" "bufsz b' = bufsz b" "bdata b' = bdata b"
    and bp: "bbp b' = (bbp b)\<lparr>bhash := blkhash b'\<rparr>" by blast
  have hl: "length (blkhdr b) \<le> bdata b" using ty wf by (auto simp: blkhdr_def datastart_def wfblk_def)
  have lenb': "length (bbuf b') = 16384" unfolding buf using wf hl ty by (subst length_put) (auto simp: datastart_def wfblk_def)
  note key = wfnode_image [OF assms(1) _ hl]
  have wb': "wfnode b' vs ms" by (rule key) (simp_all add: buf same)
  have "\<exists>r. readblk pread b0 (bbp b') 0 = Inr r \<and> wfnode r vs ms" if sv: "serves pread (unat (baddr (bbp b))) (bbuf b')" for pread b0
  proof -
    have rb: "readbuf pread (unat (baddr (bbp b'))) Blksz = Inr (bbuf b')"
      using readbuf_serves [OF sv, of 0 16384] lenb' by (simp add: bp)
    have "btype b = Tlog \<or> btype b = Tdlist \<or> bhash (bbp b') = metrohash64_1 (bbuf b') 0x6765" by (simp add: bp blkhash_def)
    from readblk_image [OF wf buf rb this, of 0 b0] ty obtain r where
      r: "readblk pread b0 (bbp b') 0 = Inr r" "btype r = btype b" "bdata r = bdata b" "bbuf r = bbuf b'"
      "btype b = Tpivot \<longrightarrow> nval r = nval b \<and> valsz r = valsz b \<and> nbuf r = nbuf b \<and> bufsz r = bufsz b"
      "btype b = Tleaf \<longrightarrow> nval r = nval b \<and> valsz r = valsz b" by auto
    have "nbuf r = 0 \<and> bufsz r = 0" if "btype b = Tleaf"
      using readblk_leaf [OF r(1)] r(2) that by simp
    moreover have "nbuf b = 0 \<and> bufsz b = 0" if "btype b = Tleaf"
      using assms(1) that by (simp add: wfnode_def used_by_def)
    ultimately have "nval r = nval b" "valsz r = valsz b" "nbuf r = nbuf b" "bufsz r = bufsz b" using r(5,6) ty by auto
    then have "wfnode r vs ms" by (intro key) (simp_all add: r(2-4) buf)
    with r(1) show ?thesis by blast
  qed
  with f wb' show ?thesis by blast
qed

theorem node_on_disk_witness:
  "\<exists>b' r. finalize node0 = Inr b' \<and> readblk (\<lambda>off n. take (min n 512) (drop (off - 32768) (bbuf b'))) zeroblk (bbp b') 0 = Inr r \<and>
    wfnode r [] []"
proof -
  have "logsz node0 = 0" by (simp add: node0_def zeroblk_def)
  from node_on_disk [OF node0_wf this] obtain b' where f: "finalize node0 = Inr b'"
    and r: "\<forall>pread b0. serves pread (unat (baddr (bbp node0))) (bbuf b') \<longrightarrow> (\<exists>r. readblk pread b0 (bbp b') 0 = Inr r \<and> wfnode r [] [])" by blast
  have "serves (\<lambda>off n. take (min n 512) (drop (off - 32768) (bbuf b'))) (unat (baddr (bbp node0))) (bbuf b')"
    by (auto simp: serves_def node0_def intro!: exI [of _ "min n 512" for n])
  with f r show ?thesis by blast
qed

end
