(* ===== verification/Gefs_Leaf.thy ===== *)
theory Gefs_Leaf
  imports Gefs_Node
begin

text \<open>
  \<open>sys/src/9/gefs/tree.c\<close>, the leaves: \<open>updateleaf\<close> and what it shares with \<open>splitleaf\<close>.

  From here on a node is its type and its lists of entries and messages; \<open>n_setval\<close> and \<open>n_setmsg\<close>
  have the assertions of \<open>setval\<close> and \<open>setmsg\<close>, and the blocks of \<open>Gefs_Node\<close> implement them.
  The loops over the indices \<open>i\<close> and \<open>j\<close> are recursions over the entries and messages that are left.
\<close>

section \<open>Nodes as lists\<close>

record Nd =
  ndbp :: Bptr
  ndtype :: int
  ndvals :: "Kvp list"
  ndmsgs :: "Msg list"

definition newnd :: "Bptr \<Rightarrow> int \<Rightarrow> Nd" where
  "newnd bp ty = \<lparr>ndbp = bp, ndtype = ty, ndvals = [], ndmsgs = []\<rparr>"

text \<open>The room entries and messages take, with their offsets.\<close>

definition valspace :: "Kvp list \<Rightarrow> int" where
  "valspace vs = sum_list (map valsz_kv vs)"

definition msgspace :: "Msg list \<Rightarrow> int" where
  "msgspace ms = sum_list (map msgsz ms)"

lemma ndspace_simps [simp]:
  "valspace [] = 0" "valspace (v # vs) = valsz_kv v + valspace vs" "valspace (vs @ vs') = valspace vs + valspace vs'"
  "msgspace [] = 0" "msgspace (m # ms) = msgsz m + msgspace ms" "msgspace (ms @ ms') = msgspace ms + msgspace ms'"
  by (simp_all add: valspace_def msgspace_def)

lemma ndspace_nonneg [simp]: "0 \<le> valspace vs" "0 \<le> msgspace ms"
  by (induction vs) (simp_all add: less_imp_le, induction ms, simp_all add: less_imp_le)

definition n_setval :: "Nd \<Rightarrow> Kvp \<Rightarrow> Nd res" where
  "n_setval n e =
     (if kk e = [] then Inl Wild
      else assertE (hd (kk e) = Kent \<longrightarrow> kv e \<noteq> [])
        (assertE (valspace (ndvals n) + valsz_kv e \<le> int (valspc (ndtype n)))
          (Inr (n\<lparr>ndvals := ndvals n @ [e]\<rparr>))))"

definition n_setmsg :: "Nd \<Rightarrow> Msg \<Rightarrow> Nd res" where
  "n_setmsg n m = assertE (ndtype n = Tpivot)
     (assertE (msgspace (ndmsgs n) + msgsz m \<le> int Bufspc) (Inr (n\<lparr>ndmsgs := ndmsgs n @ [m]\<rparr>)))"

definition n_blkfill :: "Nd \<Rightarrow> int" where
  "n_blkfill n = msgspace (ndmsgs n) + valspace (ndvals n)"

text \<open>A block that implements a node.\<close>

definition implements :: "Blk \<Rightarrow> Nd \<Rightarrow> bool" where
  "implements b n \<longleftrightarrow> wfnode b (ndvals n) (ndmsgs n) \<and> btype b = ndtype n"

lemma used_by_space:
  "int (2 * length vs + used_by (map kvenc vs)) = valspace vs"
  "int (2 * length ms + used_by (map msgenc ms)) = msgspace ms"
  by (induction vs) (simp_all add: used_by_def length_kvenc, induction ms, simp_all add: used_by_def length_kvenc)

text \<open>
  C35. The blocks implement the nodes: when a block implements a node, \<open>setval\<close> and \<open>setmsg\<close> on the
  block end as they do on the lists, in a block that implements the new node or in the same fault,
  and \<open>blkfill\<close>, \<open>filledleaf\<close>, \<open>filledbuf\<close> and \<open>filledpiv\<close> are the sizes of the lists.
\<close>

theorem node_refines:
  assumes "implements b n" "shortkv e" "shortkv m"
  shows "(case n_setval n e of Inl f \<Rightarrow> setval b e = Inl f | Inr n' \<Rightarrow> \<exists>b'. setval b e = Inr b' \<and> implements b' n') \<and>
    (case n_setmsg n m of Inl f \<Rightarrow> setmsg b m = Inl f | Inr n' \<Rightarrow> \<exists>b'. setmsg b m = Inr b' \<and> implements b' n') \<and>
    blkfill b = Inr (n_blkfill n) \<and>
    (ndtype n = Tleaf \<longrightarrow> filledleaf b x = Inr (valspace (ndvals n) + 2 + x > int Leafspc)) \<and>
    (ndtype n = Tpivot \<longrightarrow> filledbuf b y x = Inr (msgspace (ndmsgs n) + 2 * y + x > int Bufspc) \<and>
       filledpiv b r = Inr (valspace (ndvals n) + 2 + r * 288 > int Pivspc))"
proof -
  have wf: "wfnode b (ndvals n) (ndmsgs n)" and ty: "btype b = ndtype n" using assms(1) by (auto simp: implements_def)
  have n: "nval b = int (length (ndvals n))" "valsz b = int (used_by (map kvenc (ndvals n)))" "nbuf b = int (length (ndmsgs n))"
    "bufsz b = int (used_by (map msgenc (ndmsgs n)))" using wf by (auto simp: wfnode_def)
  have sz: "2 * nval b + valsz b = valspace (ndvals n)" "2 * nbuf b + bufsz b = msgspace (ndmsgs n)"
    using used_by_space(1) [of "ndvals n"] used_by_space(2) [of "ndmsgs n"] by (simp_all add: n)
  have e: "\<lparr>kk = kk e, kv = kv e\<rparr> = e" by simp
  have vs: "int (2 * (length (ndvals n) + 1) + used_by (map kvenc (ndvals n)) + length (kvenc e)) = valspace (ndvals n) + valsz_kv e"
    using used_by_space(1) [of "ndvals n"] length_kvenc(1) [of e] by simp
  have ms: "int (2 * (length (ndmsgs n) + 1) + used_by (map msgenc (ndmsgs n)) + length (msgenc m)) = msgspace (ndmsgs n) + msgsz m"
    using used_by_space(2) [of "ndmsgs n"] length_kvenc(2) [of m] by simp
  have sv: "case n_setval n e of Inl f \<Rightarrow> setval b e = Inl f | Inr n' \<Rightarrow> \<exists>b'. setval b e = Inr b' \<and> implements b' n'"
  proof (cases "kk e \<noteq> [] \<and> (hd (kk e) = Kent \<longrightarrow> kv e \<noteq> [])")
    case True
    then have c: "kk e \<noteq> []" "hd (kk e) = Kent \<longrightarrow> kv e \<noteq> []" by auto
    show ?thesis
    proof (cases "valspace (ndvals n) + valsz_kv e \<le> int (valspc (ndtype n))")
      case room: True
      then have "2 * (length (ndvals n) + 1) + used_by (map kvenc (ndvals n)) + length (kvenc e) \<le> valspc (btype b)" unfolding ty using vs by linarith
      with setval_node [OF wf assms(2) c, unfolded e] ty obtain b' where
        "setval b e = Inr b'" "wfnode b' (ndvals n @ [e]) (ndmsgs n)" "btype b' = ndtype n" by auto
      then show ?thesis using c room by (simp add: n_setval_def implements_def)
    next
      case False
      then have "\<not> 2 * (length (ndvals n) + 1) + used_by (map kvenc (ndvals n)) + length (kvenc e) \<le> valspc (btype b)" unfolding ty using vs by linarith
      with setval_node [OF wf assms(2) c, unfolded e] False c show ?thesis by (simp add: n_setval_def)
    qed
  qed (auto simp: n_setval_def setval_def Let_def)
  have sm: "case n_setmsg n m of Inl f \<Rightarrow> setmsg b m = Inl f | Inr n' \<Rightarrow> \<exists>b'. setmsg b m = Inr b' \<and> implements b' n'"
  proof (cases "ndtype n = Tpivot")
    case p: True
    then have p': "btype b = Tpivot" using ty by simp
    show ?thesis
    proof (cases "msgspace (ndmsgs n) + msgsz m \<le> int Bufspc")
      case room: True
      then have "2 * (length (ndmsgs n) + 1) + used_by (map msgenc (ndmsgs n)) + length (msgenc m) \<le> Bufspc" using ms by linarith
      with setmsg_node [OF wf assms(3) p'] p' obtain b' where
        "setmsg b m = Inr b'" "wfnode b' (ndvals n) (ndmsgs n @ [m])" "btype b' = Tpivot" by auto
      then show ?thesis using p room by (simp add: n_setmsg_def implements_def)
    next
      case False
      then have "\<not> 2 * (length (ndmsgs n) + 1) + used_by (map msgenc (ndmsgs n)) + length (msgenc m) \<le> Bufspc" using ms by linarith
      with setmsg_node [OF wf assms(3) p'] False p show ?thesis by (simp add: n_setmsg_def)
    qed
  qed (simp add: n_setmsg_def setmsg_def ty)
  have "blkfill b = Inr (n_blkfill n)"
  proof -
    have "valspace (ndvals n) \<le> 16378" "msgspace (ndmsgs n) \<le> 8187" "ndtype n = Tleaf \<longrightarrow> ndmsgs n = []"
      "ndtype n = Tpivot \<longrightarrow> valspace (ndvals n) \<le> 8187" "ndtype n = Tleaf \<or> ndtype n = Tpivot"
      using wf used_by_space(1) [of "ndvals n"] used_by_space(2) [of "ndmsgs n"] valspc_bounds [of "btype b"] ty
      by (auto simp: wfnode_def slots_def valspc_def split: if_splits)
    note small = this
    have s1: "2 * nbuf b + bufsz b + 2 * nval b + valsz b = n_blkfill n" using sz by (simp add: n_blkfill_def)
    have s2: "ndtype n = Tleaf \<Longrightarrow> 2 * nval b + valsz b = n_blkfill n" using sz small(3) by (simp add: n_blkfill_def)
    have "0 \<le> n_blkfill n" "n_blkfill n < 2 ^ 16" using small by (simp_all add: n_blkfill_def)
    then have "(2 * nbuf b + bufsz b + 2 * nval b + valsz b) mod 2 ^ 16 = n_blkfill n"
      "ndtype n = Tleaf \<Longrightarrow> (2 * nval b + valsz b) mod 2 ^ 16 = n_blkfill n" "ndtype n = Tleaf \<or> ndtype n = Tpivot"
      using s2 small unfolding s1 by simp_all
    then show ?thesis using ty by (auto simp: blkfill_def)
  qed
  with sv sm sz show ?thesis by (auto simp: filledleaf_def filledbuf_def filledpiv_def ty)
qed

theorem node_refines_witness:
  "\<exists>b'. setval node0 \<lparr>kk = [1, 2], kv = [3]\<rparr> = Inr b' \<and> implements b' \<lparr>ndbp = bbp node0, ndtype = Tpivot, ndvals = [\<lparr>kk = [1, 2], kv = [3]\<rparr>], ndmsgs = []\<rparr>"
proof -
  have "implements node0 (newnd (bbp node0) Tpivot)" using node0_wf by (simp add: implements_def newnd_def node0_def)
  from node_refines [OF this, of "\<lparr>kk = [1, 2], kv = [3]\<rparr>" "\<lparr>kk = [], kv = [], mop = 1\<rparr>"] show ?thesis
    by (simp add: shortkv_def n_setval_def newnd_def valsz_kv_def valspc_def)
qed

section \<open>Updating a leaf\<close>

text \<open>The data block that a message takes away from an entry, which is freed.\<close>

definition dropptr :: "Kvp \<Rightarrow> Msg \<Rightarrow> Bptr list res" where
  "dropptr v m =
     (if kk v \<noteq> [] \<and> hd (kk v) = Kdat \<and> (mop m = Oclearb \<or> mop m = Oinsert \<or> mop m = Odelete)
      then bindE (unpackbp (kv v)) (\<lambda>bp. Inr [bp]) else Inr [])"

text \<open>
  The loop at \<open>Copyloop\<close>, with \<open>pullmsg\<close> in it: the messages for the key of \<open>v\<close> are applied to it.
  The result is the messages left, the entry, whether it is there, the last message that was
  looked at, whether the node is full, the size of what was pulled, and the blocks to free.
\<close>

fun copyloop :: "Msg list \<Rightarrow> Kvp \<Rightarrow> bool \<Rightarrow> Msg option \<Rightarrow> bool \<Rightarrow> int \<Rightarrow> int \<Rightarrow> Bptr list \<Rightarrow>
    (Msg list \<times> Kvp \<times> bool \<times> Msg option \<times> bool \<times> int \<times> Bptr list) res" where
  "copyloop [] v ok m full spc pull fr = Inr ([], v, ok, m, full, pull, fr)"
| "copyloop (x # ms) v ok m full spc pull fr =
     (if full then Inr (x # ms, v, ok, m, full, pull, fr)
      else if msgsz x \<le> spc then
        if keycmp (kk v) (kk x) = 0 then
          bindE (if ok then dropptr v x else Inr []) (\<lambda>f.
          bindE (apply_msg v x Msgmax) (\<lambda>(ok, v).
          copyloop ms v ok (Some x) full spc (pull + msgsz x) (fr @ f)))
        else Inr (x # ms, v, ok, Some x, full, pull, fr)
      else Inr (x # ms, v, ok, Some x, True, pull, fr))"

lemma copyloop_length:
  "copyloop ms v ok m full spc pull fr = Inr (ms', r) \<Longrightarrow> length ms' \<le> length ms"
  by (induction ms arbitrary: v ok m full pull fr) (auto simp: res_simps le_SucI split: if_splits prod.splits)

text \<open>
  The entry that a message starts when the leaf has none with its key, whether it is there,
  and the room left.
\<close>

definition newentry :: "Msg \<Rightarrow> int \<Rightarrow> int \<Rightarrow> (Kvp \<times> bool \<times> int \<times> int) res" where
  "newentry m spc pull =
     bindE (cpkvp m Msgmax) (\<lambda>v.
     if mop m \<noteq> Oclearb \<and> mop m \<noteq> Oclobber then
       if mop m \<noteq> Oinsert then Inl Ebroke
       else Inr (v, True, spc - valsz_kv m, pull + msgsz m)
     else Inr (v, False, spc, pull))"

text \<open>
  The loop of \<open>updateleaf\<close>.  When no entry is left, the message that is inserted is the one
  looked at last, \<open>m\<close>.
\<close>

function updleaf :: "Kvp list \<Rightarrow> Msg list \<Rightarrow> Msg option \<Rightarrow> bool \<Rightarrow> int \<Rightarrow> Nd \<Rightarrow> int \<Rightarrow> Bptr list \<Rightarrow> (Nd \<times> int \<times> Bptr list) res" where
  "updleaf vs ms m full spc n pull fr =
     (if vs = [] \<and> ms = [] then Inr (n, pull, fr)
      else
        let look = (vs \<noteq> [] \<and> ms \<noteq> []);
            m = (if look then Some (hd ms) else m);
            fits = (look \<and> msgsz (hd ms) \<le> spc);
            full = (full \<or> look \<and> \<not> fits);
            c = (if vs = [] then 1 else if fits then keycmp (kk (hd vs)) (kk (hd ms)) else -1)
        in if c = -1 then bindE (n_setval n (hd vs)) (\<lambda>n. updleaf (tl vs) ms m full spc n pull fr)
           else if c = 0 then
             bindE (cpkvp (hd vs) Msgmax) (\<lambda>v.
             bindE (dropptr v (hd ms)) (\<lambda>f.
             bindE (apply_msg v (hd ms) Msgmax) (\<lambda>(ok, v).
             bindE (copyloop (tl ms) v ok m full spc pull (fr @ f)) (\<lambda>(ms', v, ok, m, full, pull, fr).
             bindE (if ok then n_setval n v else Inr n) (\<lambda>n.
             updleaf (tl vs) ms' m full spc n pull fr)))))
           else
             case m of None \<Rightarrow> Inl Wild | Some m \<Rightarrow>
             bindE (newentry m spc pull) (\<lambda>(v, ok, spc, pull).
             bindE (copyloop (tl ms) v ok (Some m) full spc pull fr) (\<lambda>(ms', v, ok, m, full, pull, fr).
             bindE (if ok then n_setval n v else Inr n) (\<lambda>n.
             updleaf vs ms' m full spc n pull fr))))"
  by pat_completeness auto
termination
proof (relation "measure (\<lambda>(vs, ms, _). length vs + length ms)", goal_cases)
  case (2 vs ms m full spc n pull fr) then show ?case by (cases vs) (auto split: if_splits)
next
  case (3 vs ms)
  then show ?case by (cases vs; cases ms) (auto dest!: copyloop_length split: if_splits)
next
  case (4 vs ms)
  then show ?case by (cases ms; cases vs) (auto dest!: copyloop_length split: if_splits)
qed auto

declare updleaf.simps [simp del]

section \<open>What an update means\<close>

text \<open>
  The value under a key after a message, and the blocks freed: a key that is not there can
  only be inserted or cleared.
\<close>

definition mstep :: "bytes \<Rightarrow> Msg \<Rightarrow> bytes option \<Rightarrow> (bytes option \<times> Bptr list) res" where
  "mstep k m s =
     (case s of
        None \<Rightarrow> if mop m = Oinsert then Inr (Some (kv m), [])
          else if mop m = Oclearb \<or> mop m = Oclobber then Inr (None, []) else Inl Ebroke
      | Some v \<Rightarrow>
          bindE (dropptr \<lparr>kk = k, kv = v\<rparr> m) (\<lambda>f.
          bindE (apply_msg \<lparr>kk = k, kv = v\<rparr> m Msgmax) (\<lambda>(ok, e). Inr (if ok then Some (kv e) else None, f))))"

fun mrun :: "bytes \<Rightarrow> Msg list \<Rightarrow> bytes option \<Rightarrow> (bytes option \<times> Bptr list) res" where
  "mrun k [] s = Inr (s, [])"
| "mrun k (m # ms) s = bindE (mstep k m s) (\<lambda>(s, f). bindE (mrun k ms s) (\<lambda>(s, g). Inr (s, f @ g)))"

definition lk :: "Kvp list \<Rightarrow> bytes \<Rightarrow> bytes option" where
  "lk vs k = map_of (map (\<lambda>e. (kk e, kv e)) vs) k"

lemma lk_simps [simp]: "lk [] k = None" "lk (v # vs) k = (if kk v = k then Some (kv v) else lk vs k)"
  by (auto simp: lk_def)

lemma lk_notin: "k \<notin> kk ` set vs \<Longrightarrow> lk vs k = None"
  by (induction vs) auto

text \<open>The messages of a key, run over its entry.\<close>

definition runkey :: "Kvp list \<Rightarrow> Msg list \<Rightarrow> bytes \<Rightarrow> (bytes option \<times> Bptr list) res" where
  "runkey vs ms k = mrun k (filter (\<lambda>m. kk m = k) ms) (lk vs k)"

definition keysof :: "Kvp list \<Rightarrow> Msg list \<Rightarrow> bytes list" where
  "keysof vs ms = sorted_list_of_set (kk ` set vs \<union> kk ` set ms)"

fun entry :: "bytes \<Rightarrow> bytes option \<Rightarrow> Kvp list" where
  "entry k None = []"
| "entry k (Some v) = [\<lparr>kk = k, kv = v\<rparr>]"

definition runvals :: "Kvp list \<Rightarrow> Msg list \<Rightarrow> Kvp list" where
  "runvals vs ms = concat (map (\<lambda>k. entry k (fst (projr (runkey vs ms k)))) (keysof vs ms))"

definition runfrees :: "Kvp list \<Rightarrow> Msg list \<Rightarrow> Bptr list" where
  "runfrees vs ms = concat (map (\<lambda>k. snd (projr (runkey vs ms k))) (keysof vs ms))"

definition runok :: "Kvp list \<Rightarrow> Msg list \<Rightarrow> bool" where
  "runok vs ms \<longleftrightarrow> (\<forall>k \<in> set (keysof vs ms). \<exists>r. runkey vs ms k = Inr r)"

text \<open>Entries and messages within their limits; what an \<open>Oinsert\<close> brings must be fit to be an entry.\<close>

definition okkv :: "('a) Kvp_scheme \<Rightarrow> bool" where
  "okkv e \<longleftrightarrow> kk e \<noteq> [] \<and> length (kk e) \<le> Keymax \<and> length (kv e) \<le> Inlmax \<and>
     (hd (kk e) = Kent \<longrightarrow> kv e \<noteq> []) \<and> (hd (kk e) = Kdat \<longrightarrow> Ptrsz \<le> length (kv e))"

definition okmsg :: "Msg \<Rightarrow> bool" where
  "okmsg m \<longleftrightarrow> kk m \<noteq> [] \<and> length (kk m) \<le> Keymax \<and> length (kv m) \<le> Inlmax \<and> (mop m = Oinsert \<longrightarrow> okkv m)"

text \<open>Whatever a computation returns has a property; the rules follow the shape of the computation.\<close>

definition yields :: "'a res \<Rightarrow> ('a \<Rightarrow> bool) \<Rightarrow> bool" where
  "yields r Q \<longleftrightarrow> (\<forall>y. r = Inr y \<longrightarrow> Q y)"

lemma yieldsD: "yields r Q \<Longrightarrow> r = Inr y \<Longrightarrow> Q y"
  by (simp add: yields_def)

lemma yields_rules:
  "(\<And>x. r = Inr x \<Longrightarrow> yields (f x) Q) \<Longrightarrow> yields (bindE r f) Q"
  "(c \<Longrightarrow> yields k Q) \<Longrightarrow> yields (assertE c k) Q"
  "(n \<le> length p \<Longrightarrow> yields k Q) \<Longrightarrow> yields (needE n p k) Q"
  "(\<And>a b. t = (a, b) \<Longrightarrow> yields (g a b) Q) \<Longrightarrow> yields (case t of (a, b) \<Rightarrow> g a b) Q"
  "(c \<Longrightarrow> yields k Q) \<Longrightarrow> (\<not> c \<Longrightarrow> yields l Q) \<Longrightarrow> yields (if c then k else l) Q"
  "yields (Inl e) Q"
  "Q y \<Longrightarrow> yields (Inr y) Q"
  by (auto simp: yields_def bindE_def assertE_def needE_def split: sum.splits prod.splits if_splits)

lemma statupdate_key:
  assumes "statupdate e m = Inr e'"
  shows "kk e' = kk e \<and> length (kv e') = length (kv e)"
proof -
  have "yields (statupdate e m) (\<lambda>e'. kk e' = kk e \<and> length (kv e') = length (kv e))"
    unfolding statupdate_def Let_def by (intro yields_rules) simp_all
  from yieldsD [OF this assms] show ?thesis .
qed

lemma packtree_length: "packtree n t = Inr p \<Longrightarrow> length p = Treesz \<and> Treesz \<le> n"
  by (auto simp: packtree_def assertE_def split: if_splits)

lemma apply_msg_entry:
  assumes "okkv e" "okmsg m" "kk m = kk e" "apply_msg e m Msgmax = Inr (ok, e')"
  shows "kk e' = kk e \<and> okkv e' \<and> (length (kv e') = length (kv e) \<or> length (kv e') = length (kv m))"
proof -
  let ?Q = "\<lambda>r. kk (snd r) = kk e \<and> (length (kv (snd r)) = length (kv e) \<or> mop m = Oinsert \<and> kv (snd r) = kv m)"
  have "yields (apply_msg e m Msgmax) ?Q"
    unfolding apply_msg_def Let_def
    by (intro yields_rules) (auto simp: cpkvp_def assms(3) dest: statupdate_key packtree_length)
  from yieldsD [OF this assms(4)] assms(1-3) show ?thesis by (auto simp: okkv_def okmsg_def)
qed

definition okst :: "bytes \<Rightarrow> bytes option \<Rightarrow> bool" where
  "okst k s \<longleftrightarrow> (case s of None \<Rightarrow> True | Some v \<Rightarrow> okkv \<lparr>kk = k, kv = v\<rparr>)"

definition stsz :: "bytes \<Rightarrow> bytes option \<Rightarrow> int" where
  "stsz k s = valspace (entry k s)"

lemma mstep_ok:
  assumes "okst k s" "okmsg m" "kk m = k" "mstep k m s = Inr (s', f)"
  shows "okst k s' \<and> stsz k s' \<le> stsz k s + msgsz m"
proof (cases s)
  case None
  with assms show ?thesis
    by (auto simp: mstep_def okst_def stsz_def okmsg_def okkv_def valsz_kv_def msgsz_def split: if_splits)
next
  case (Some v)
  with assms(4) obtain ok e where e: "apply_msg \<lparr>kk = k, kv = v\<rparr> m Msgmax = Inr (ok, e)" "s' = (if ok then Some (kv e) else None)"
    by (auto simp: mstep_def res_simps)
  have o: "okkv \<lparr>kk = k, kv = v\<rparr>" using assms(1) Some by (simp add: okst_def)
  from apply_msg_entry [OF o assms(2) _ e(1)] assms(3) have
    "kk e = k" "okkv e" "length (kv e) = length v \<or> length (kv e) = length (kv m)" by auto
  then show ?thesis using Some e(2) assms(3)
    by (cases ok) (auto simp: okst_def stsz_def okkv_def valsz_kv_def msgsz_def)
qed

lemma mrun_ok:
  "okst k s \<Longrightarrow> \<forall>m \<in> set ms. okmsg m \<and> kk m = k \<Longrightarrow> mrun k ms s = Inr (s', f) \<Longrightarrow>
   okst k s' \<and> stsz k s' \<le> stsz k s + msgspace ms"
proof (induction ms arbitrary: s f)
  case (Cons m ms)
  from Cons.prems(3) obtain s1 f1 f2 where 1: "mstep k m s = Inr (s1, f1)" "mrun k ms s1 = Inr (s', f2)"
    by (auto simp: res_simps)
  from mstep_ok [OF Cons.prems(1) _ _ 1(1)] Cons.prems(2) have s1: "okst k s1" "stsz k s1 \<le> stsz k s + msgsz m" by auto
  from Cons.IH [OF s1(1) _ 1(2)] Cons.prems(2) s1(2) show ?case by simp
qed simp

lemma msgspace_hd: "ms \<noteq> [] \<Longrightarrow> msgspace ms \<le> spc \<Longrightarrow> msgsz (hd ms) \<le> spc"
proof -
  assume "ms \<noteq> []" "msgspace ms \<le> spc"
  then have "msgspace ms = msgsz (hd ms) + msgspace (tl ms)" by (cases ms) auto
  with \<open>msgspace ms \<le> spc\<close> ndspace_nonneg(2) [of "tl ms"] show ?thesis by linarith
qed

text \<open>A message at \<open>Copyloop\<close> does what \<open>mstep\<close> says, when that is no error.\<close>

lemma copy_step:
  assumes "mstep (kk v) x (if ok then Some (kv v) else None) = Inr (s1, f1)" "okmsg x" "kk x = kk v" "ok \<longrightarrow> okkv v"
  shows "\<exists>v1. (if ok then dropptr v x else Inr []) = Inr f1 \<and> apply_msg v x Msgmax = Inr (s1 \<noteq> None, v1) \<and>
    (if s1 \<noteq> None then Some (kv v1) else None) = s1 \<and> kk v1 = kk v \<and> (s1 \<noteq> None \<longrightarrow> okkv v1)"
proof (cases ok)
  case True
  have v: "\<lparr>kk = kk v, kv = kv v\<rparr> = v" by simp
  from True assms(1) obtain ok1 v1 where "dropptr v x = Inr f1" "apply_msg v x Msgmax = Inr (ok1, v1)" "s1 = (if ok1 then Some (kv v1) else None)"
    by (auto simp: mstep_def res_simps v)
  moreover from this apply_msg_entry [OF _ assms(2,3)] assms(4) True have "kk v1 = kk v" "okkv v1" by auto
  ultimately show ?thesis using True by (cases ok1) auto
next
  case False
  with assms show ?thesis
    by (auto simp: mstep_def apply_msg_def cpkvp_def okmsg_def okkv_def split: if_splits)
qed

text \<open>The loop at \<open>Copyloop\<close> runs the messages of the key, when all of them fit.\<close>

lemma copyloop_run:
  assumes "mrun (kk v) grp (if ok then Some (kv v) else None) = Inr (s', f)" "\<forall>x \<in> set grp. okmsg x \<and> kk x = kk v"
    and "ok \<longrightarrow> okkv v" "rest = [] \<or> kk (hd rest) \<noteq> kk v" "msgspace (grp @ rest) \<le> spc"
  shows "\<exists>v' m'. copyloop (grp @ rest) v ok m False spc pull fr = Inr (rest, v', s' \<noteq> None, m', False, pull + msgspace grp, fr @ f) \<and>
    kk v' = kk v \<and> (\<forall>x. s' = Some x \<longrightarrow> kv v' = x) \<and> (rest \<noteq> [] \<longrightarrow> m' = Some (hd rest))"
  using assms
proof (induction grp arbitrary: v ok m pull fr f)
  case Nil
  then show ?case using msgspace_hd [of rest spc] by (cases rest) (auto split: if_splits)
next
  case (Cons x grp)
  have x: "okmsg x" "kk x = kk v" "msgsz x \<le> spc" using Cons.prems(2,5) msgspace_hd [of "x # grp @ rest" spc] by auto
  from Cons.prems(1) obtain s1 f1 f2 where 1: "mstep (kk v) x (if ok then Some (kv v) else None) = Inr (s1, f1)"
    "mrun (kk v) grp s1 = Inr (s', f2)" "f = f1 @ f2" by (auto simp: res_simps)
  from copy_step [OF 1(1) x(1,2) Cons.prems(3)] obtain v1 where
    v1: "(if ok then dropptr v x else Inr []) = Inr f1" "apply_msg v x Msgmax = Inr (s1 \<noteq> None, v1)"
    and s1: "(if s1 \<noteq> None then Some (kv v1) else None) = s1" and k1: "kk v1 = kk v" "s1 \<noteq> None \<longrightarrow> okkv v1" by blast
  have sp: "msgspace (grp @ rest) \<le> spc"
    using Cons.prems(5) msgsz_pos(1) [of x] unfolding append_Cons ndspace_simps by linarith
  from Cons.IH [of v1 "s1 \<noteq> None" f2 "Some x" "pull + msgsz x" "fr @ f1"] 1(2) k1 Cons.prems(2,4) sp s1 show ?case
    using x v1(1,2) 1(3) by (auto simp: add.assoc)
qed

section \<open>Rounds\<close>

text \<open>
  The least key of what is left, its messages, and the rest.  Each round of the loop is about
  one key.
\<close>

lemma keysof_round:
  assumes "k \<notin> kk ` set vs'" "k \<notin> kk ` set rest" "\<forall>x \<in> kk ` set vs' \<union> kk ` set rest. k < x"
    and "kk ` set vs \<union> kk ` set ms = insert k (kk ` set vs' \<union> kk ` set rest)"
  shows "keysof vs ms = k # keysof vs' rest"
proof -
  let ?A = "kk ` set vs' \<union> kk ` set rest"
  have "sorted_list_of_set (insert k ?A) = k # sorted_list_of_set ?A"
  proof -
    have "finite (insert k ?A)" by simp
    moreover have "sorted_wrt (<) (k # sorted_list_of_set ?A) \<and> set (k # sorted_list_of_set ?A) = insert k ?A \<and>
      length (k # sorted_list_of_set ?A) = card (insert k ?A)"
      using assms(1-3) by simp
    ultimately show ?thesis using sorted_list_of_set_unique [of "insert k ?A" "k # sorted_list_of_set ?A"] by blast
  qed
  then show ?thesis by (simp add: keysof_def assms(4))
qed

lemma runkey_round:
  assumes "k' \<noteq> k" "\<forall>x \<in> set grp. kk x = k" "lk vs k' = lk vs' k'"
  shows "runkey vs (grp @ rest) k' = runkey vs' rest k'"
proof -
  have "filter (\<lambda>m. kk m = k') grp = []" using assms(1,2) by (auto simp: filter_empty_conv)
  then show ?thesis by (simp add: runkey_def assms(3))
qed

lemma run_round:
  assumes ms: "ms = grp @ rest" "\<forall>x \<in> set grp. kk x = k"
    and lk: "\<And>k'. k' \<noteq> k \<Longrightarrow> lk vs k' = lk vs' k'" "lk vs k = s"
    and keys: "\<forall>x \<in> kk ` set vs' \<union> kk ` set rest. k < x" "kk ` set vs \<union> kk ` set ms = insert k (kk ` set vs' \<union> kk ` set rest)"
    and run: "runok vs ms"
  shows "\<exists>s' f. mrun k grp s = Inr (s', f) \<and> runvals vs ms = entry k s' @ runvals vs' rest \<and>
    runfrees vs ms = f @ runfrees vs' rest \<and> runok vs' rest"
proof -
  have nin: "k \<notin> kk ` set vs'" "k \<notin> kk ` set rest" using keys(1) by auto
  have ko: "keysof vs ms = k # keysof vs' rest" by (rule keysof_round [OF nin keys])
  have "filter (\<lambda>m. kk m = k) ms = grp"
    using ms nin(2) by (auto simp: filter_id_conv filter_empty_conv)
  then have rk: "runkey vs ms k = mrun k grp s" by (simp add: runkey_def lk(2))
  have fin: "set (keysof vs' rest) = kk ` set vs' \<union> kk ` set rest" by (simp add: keysof_def)
  have other: "runkey vs ms k' = runkey vs' rest k'" if "k' \<in> set (keysof vs' rest)" for k'
  proof -
    have "k' \<noteq> k" using that nin unfolding fin by blast
    then show ?thesis unfolding ms(1) by (rule runkey_round [OF _ ms(2) lk(1)]) fact
  qed
  from run ko rk obtain s' f where "mrun k grp s = Inr (s', f)" by (fastforce simp: runok_def)
  moreover have "runvals vs ms = entry k s' @ runvals vs' rest" "runfrees vs ms = f @ runfrees vs' rest"
    using calculation other by (simp_all add: runvals_def runfrees_def ko rk cong: map_cong)
  moreover have "runok vs' rest" using run ko other by (simp add: runok_def)
  ultimately show ?thesis by blast
qed

lemma takeWhile_key:
  assumes "sorted (map kk ms)"
  shows "\<forall>x \<in> set (takeWhile (\<lambda>m. kk m = k) ms). kk x = k" "\<forall>x \<in> set ms. k \<le> kk x \<Longrightarrow> \<forall>x \<in> set (dropWhile (\<lambda>m. kk m = k) ms). k < kk x"
proof -
  show "\<forall>x \<in> set (takeWhile (\<lambda>m. kk m = k) ms). kk x = k" by (auto dest: set_takeWhileD)
  show "\<forall>x \<in> set ms. k \<le> kk x \<Longrightarrow> \<forall>x \<in> set (dropWhile (\<lambda>m. kk m = k) ms). k < kk x"
    using assms
  proof (induction ms)
    case (Cons m ms)
    show ?case
    proof (cases "kk m = k")
      case False
      with Cons.prems have "k < kk m" by auto
      with False Cons.prems show ?thesis by (auto intro: less_le_trans)
    qed (use Cons in auto)
  qed simp
qed

lemma n_setval_entry:
  assumes "kk v = k" "\<forall>x. s = Some x \<longrightarrow> kv v = x" "okst k s" "ndtype n = Tleaf" "valspace (ndvals n) + stsz k s \<le> int Leafspc"
  shows "(if s \<noteq> None then n_setval n v else Inr n) = Inr (n\<lparr>ndvals := ndvals n @ entry k s\<rparr>)"
proof (cases s)
  case (Some x)
  then have "v = \<lparr>kk = k, kv = x\<rparr>" using assms(1,2) by simp
  with Some assms(3-5) show ?thesis by (auto simp: n_setval_def okst_def okkv_def stsz_def valspc_def)
qed simp

definition leafargs :: "Kvp list \<Rightarrow> Msg list \<Rightarrow> bool" where
  "leafargs vs ms \<longleftrightarrow> sorted_wrt (<) (map kk vs) \<and> sorted (map kk ms) \<and> (\<forall>v \<in> set vs. okkv v) \<and> (\<forall>m \<in> set ms. okmsg m)"

lemma kvp_eta: "\<lparr>kk = kk v, kv = kv v\<rparr> = v"
  by simp

lemma entry_self [simp]: "entry (kk v) (Some (kv v)) = [v]"
  by (simp add: kvp_eta)

lemma bindE_Inr [simp]: "bindE r Inr = r"
  by (simp add: bindE_def split: sum.split)

lemma updleaf_run:
  assumes "leafargs vs ms" "runok vs ms" "msgspace ms \<le> spc" "valspace (ndvals n) + valspace vs + msgspace ms \<le> int Leafspc"
    and "ndtype n = Tleaf" "vs = [] \<Longrightarrow> ms \<noteq> [] \<Longrightarrow> m = Some (hd ms)"
  shows "\<exists>pull'. updleaf vs ms m False spc n pull fr = Inr (n\<lparr>ndvals := ndvals n @ runvals vs ms\<rparr>, pull', fr @ runfrees vs ms) \<and>
    pull' \<le> pull + msgspace ms"
  using assms
proof (induction "length vs + length ms" arbitrary: vs ms m spc n pull fr rule: less_induct)
  case less
  note IH = less.hyps
  from less.prems(1) have so: "sorted_wrt (<) (map kk vs)" "sorted (map kk ms)" and ok: "\<forall>v \<in> set vs. okkv v" "\<forall>m \<in> set ms. okmsg m"
    by (auto simp: leafargs_def)
  consider (none) "vs = []" "ms = []"
    | (val) v vs' where "vs = v # vs'" "ms = [] \<or> kk v < kk (hd ms)"
    | (both) v vs' x ms' where "vs = v # vs'" "ms = x # ms'" "kk v = kk x"
    | (new) x ms' where "ms = x # ms'" "vs = [] \<or> kk x < kk (hd vs)"
    by (cases vs; cases ms) (auto, metis linorder_less_linear)
  then show ?case
  proof cases
    case none
    then show ?thesis by (simp add: updleaf.simps runvals_def runfrees_def keysof_def)
  next
    case val
    have gt: "\<forall>x \<in> kk ` set vs' \<union> kk ` set ms. kk v < x"
      using so val by (cases ms) (auto intro: less_le_trans)
    from run_round [of ms "[]" ms "kk v" vs vs' "Some (kv v)"] val gt less.prems(2) have
      rv: "runvals vs ms = [v] @ runvals vs' ms" "runfrees vs ms = runfrees vs' ms" "runok vs' ms"
      by (auto simp: val(1))
    have sz: "valspace (ndvals n) + valsz_kv v \<le> int Leafspc"
      using less.prems(4) ndspace_nonneg(1) [of vs'] ndspace_nonneg(2) [of ms] unfolding val(1) ndspace_simps by linarith
    have okv: "okkv v" using ok val by simp
    have sv: "n_setval n v = Inr (n\<lparr>ndvals := ndvals n @ [v]\<rparr>)"
      using okv sz less.prems(5) by (auto simp: n_setval_def okkv_def valspc_def)
    define m' where "m' = (if ms \<noteq> [] then Some (hd ms) else m)"
    have fit: "ms \<noteq> [] \<Longrightarrow> msgsz (hd ms) \<le> spc" using msgspace_hd less.prems(3) by blast
    have step: "updleaf vs ms m False spc n pull fr = updleaf vs' ms m' False spc (n\<lparr>ndvals := ndvals n @ [v]\<rparr>) pull fr"
      using val fit sv by (subst updleaf.simps) (auto simp: m'_def Let_def)
    from IH [of vs' ms spc "n\<lparr>ndvals := ndvals n @ [v]\<rparr>" m' pull fr] less.prems rv(3) val show ?thesis
      unfolding step rv by (auto simp: leafargs_def m'_def add.assoc)
  next
    case both
    define k where "k = kk v"
    define g where "g = takeWhile (\<lambda>m. kk m = k) ms'"
    define rest where "rest = dropWhile (\<lambda>m. kk m = k) ms'"
    have ms': "ms' = g @ rest" by (simp add: g_def rest_def)
    have so': "sorted (map kk ms')" "\<forall>x \<in> set ms'. k \<le> kk x" using so(2) both by (auto simp: k_def)
    have g: "\<forall>x \<in> set g. kk x = k" "\<forall>x \<in> set rest. k < kk x"
      using takeWhile_key [OF so'(1), of k] so'(2) by (auto simp: g_def rest_def)
    have gt: "\<forall>y \<in> kk ` set vs' \<union> kk ` set rest. k < y" using g(2) so(1) both by (auto simp: k_def)
    from run_round [of ms "x # g" rest k vs vs' "Some (kv v)"] both gt g(1) less.prems(2) obtain s' f where
      run: "mrun k (x # g) (Some (kv v)) = Inr (s', f)" and
      rv: "runvals vs ms = entry k s' @ runvals vs' rest" "runfrees vs ms = f @ runfrees vs' rest" "runok vs' rest"
      by (auto simp: k_def ms' image_Un)
    have okv: "okkv v" "okmsg x" "\<forall>y \<in> set (x # g). okmsg y \<and> kk y = k" using ok both g(1) by (auto simp: ms' k_def)
    have v: "\<lparr>kk = kk v, kv = kv v\<rparr> = v" by simp
    from run obtain ok1 v1 f1 f2 where 1: "dropptr v x = Inr f1" "apply_msg v x Msgmax = Inr (ok1, v1)"
      "mrun k g (if ok1 then Some (kv v1) else None) = Inr (s', f2)" "f = f1 @ f2"
      by (auto simp: mstep_def res_simps k_def v)
    have v1: "kk v1 = k" "okkv v1" using apply_msg_entry [OF okv(1,2) _ 1(2)] both(3) by (auto simp: k_def)
    have sp: "msgspace (g @ rest) \<le> spc" "msgspace rest \<le> spc" "msgsz x \<le> spc"
      using less.prems(3) msgsz_pos(1) [of x] ndspace_nonneg(2) [of g] ndspace_nonneg(2) [of rest]
      unfolding both(2) ms' ndspace_simps by linarith+
    have hr: "rest = [] \<or> kk (hd rest) \<noteq> k" using g(2) by (cases rest) auto
    from copyloop_run [of v1 g ok1 s' f2 rest spc "Some x" pull "fr @ f1"] 1(3) v1 okv(3) hr sp(1) obtain v' m' where
      cl: "copyloop (g @ rest) v1 ok1 (Some x) False spc pull (fr @ f1) = Inr (rest, v', s' \<noteq> None, m', False, pull + msgspace g, (fr @ f1) @ f2)"
      "kk v' = k" "\<forall>x. s' = Some x \<longrightarrow> kv v' = x" "rest \<noteq> [] \<longrightarrow> m' = Some (hd rest)" by auto
    have st: "okst k s'" "stsz k s' \<le> valsz_kv v + msgsz x + msgspace g"
      using mrun_ok [OF _ okv(3) run] okv(1) by (simp_all add: okst_def stsz_def k_def kvp_eta add.assoc)
    have sz: "valspace (ndvals n) + stsz k s' + valspace vs' + msgspace rest \<le> int Leafspc"
      using less.prems(4) st(2) unfolding both(1,2) ms' ndspace_simps by linarith
    let ?n = "n\<lparr>ndvals := ndvals n @ entry k s'\<rparr>"
    have sv: "(if s' \<noteq> None then n_setval n v' else Inr n) = Inr ?n"
      using sz ndspace_nonneg(1) [of vs'] ndspace_nonneg(2) [of rest] by (intro n_setval_entry cl st less.prems) linarith
    have cp: "cpkvp v Msgmax = Inr v" using okv(1) by (auto simp: cpkvp_def okkv_def)
    have step: "updleaf vs ms m False spc n pull fr = updleaf vs' rest m' False spc ?n (pull + msgspace g) (fr @ f)"
      using both sp(3) cp 1 cl(1) sv by (subst updleaf.simps) (simp add: Let_def ms')
    have "\<exists>pull'. updleaf vs' rest m' False spc ?n (pull + msgspace g) (fr @ f) =
        Inr (?n\<lparr>ndvals := ndvals ?n @ runvals vs' rest\<rparr>, pull', (fr @ f) @ runfrees vs' rest) \<and> pull' \<le> pull + msgspace g + msgspace rest"
      by (rule IH) (use less.prems rv(3) both ms' sz sp cl(4) in \<open>auto simp: leafargs_def sorted_append stsz_def\<close>)
    then obtain pull' where p: "updleaf vs' rest m' False spc ?n (pull + msgspace g) (fr @ f) =
        Inr (?n\<lparr>ndvals := ndvals ?n @ runvals vs' rest\<rparr>, pull', (fr @ f) @ runfrees vs' rest)" "pull' \<le> pull + msgspace g + msgspace rest" by blast
    have "pull' \<le> pull + msgspace ms" using p(2) msgsz_pos(1) [of x] unfolding both ms' ndspace_simps by linarith
    then show ?thesis unfolding step rv p(1) by simp
  next
    case new
    define k where "k = kk x"
    define g where "g = takeWhile (\<lambda>m. kk m = k) ms'"
    define rest where "rest = dropWhile (\<lambda>m. kk m = k) ms'"
    have ms': "ms' = g @ rest" by (simp add: g_def rest_def)
    have so': "sorted (map kk ms')" "\<forall>x \<in> set ms'. k \<le> kk x" using so(2) new by (auto simp: k_def)
    have g: "\<forall>x \<in> set g. kk x = k" "\<forall>x \<in> set rest. k < kk x"
      using takeWhile_key [OF so'(1), of k] so'(2) by (auto simp: g_def rest_def)
    have gtv: "\<forall>y \<in> kk ` set vs. k < y" using so(1) new by (cases vs) (auto simp: k_def intro: less_trans)
    then have gt: "\<forall>y \<in> kk ` set vs \<union> kk ` set rest. k < y" using g(2) by auto
    have nk: "lk vs k = None" using gtv by (intro lk_notin) auto
    from run_round [of ms "x # g" rest k vs vs None] new gt g(1) nk less.prems(2) obtain s' f where
      run: "mrun k (x # g) None = Inr (s', f)" and
      rv: "runvals vs ms = entry k s' @ runvals vs rest" "runfrees vs ms = f @ runfrees vs rest" "runok vs rest"
      by (auto simp: k_def ms' image_Un)
    have okx: "okmsg x" "\<forall>y \<in> set (x # g). okmsg y \<and> kk y = k" using ok new g(1) by (auto simp: ms' k_def)
    have sp: "msgspace (g @ rest) \<le> spc - valsz_kv x" "msgspace (g @ rest) \<le> spc" "msgsz x \<le> spc"
      using less.prems(3) msgsz_pos(1) [of x] ndspace_nonneg(2) [of g] ndspace_nonneg(2) [of rest] msgsz_valsz [of x]
      unfolding new(1) ms' ndspace_simps by linarith+
    have cp: "cpkvp x Msgmax = Inr (kvpof x)" using okx(1) by (auto simp: cpkvp_def okmsg_def kvpof_def)
    define ok1 where "ok1 = (mop x = Oinsert)"
    define spc1 where "spc1 = (if ok1 then spc - valsz_kv x else spc)"
    define pull1 where "pull1 = (if ok1 then pull + msgsz x else pull)"
    have ne: "newentry x spc pull = Inr (kvpof x, ok1, spc1, pull1)" and
      1: "mrun k g (if ok1 then Some (kv (kvpof x)) else None) = Inr (s', f)"
      using run cp by (auto simp: mstep_def newentry_def ok1_def spc1_def pull1_def split: if_splits)
    have v1: "kk (kvpof x) = k" "ok1 \<longrightarrow> okkv (kvpof x)" using okx(1) by (auto simp: k_def ok1_def okmsg_def okkv_def)
    have sp1: "msgspace (g @ rest) \<le> spc1" "msgspace rest \<le> spc1" using sp ndspace_nonneg(2) [of g] unfolding spc1_def ndspace_simps by (cases ok1, simp_all del: ndspace_nonneg)+
    have hr: "rest = [] \<or> kk (hd rest) \<noteq> k" using g(2) by (cases rest) auto
    from copyloop_run [of "kvpof x" g ok1 s' f rest spc1 "Some x" pull1 fr] 1 v1 okx(2) hr sp1(1) obtain v' m' where
      cl: "copyloop (g @ rest) (kvpof x) ok1 (Some x) False spc1 pull1 fr = Inr (rest, v', s' \<noteq> None, m', False, pull1 + msgspace g, fr @ f)"
      "kk v' = k" "\<forall>x. s' = Some x \<longrightarrow> kv v' = x" "rest \<noteq> [] \<longrightarrow> m' = Some (hd rest)" by auto
    have st: "okst k s'" "stsz k s' \<le> msgsz x + msgspace g"
      using mrun_ok [OF _ okx(2) run] by (auto simp: okst_def stsz_def)
    have sz: "valspace (ndvals n) + stsz k s' + valspace vs + msgspace rest \<le> int Leafspc"
      using less.prems(4) st(2) unfolding new(1) ms' ndspace_simps by linarith
    let ?n = "n\<lparr>ndvals := ndvals n @ entry k s'\<rparr>"
    have sv: "(if s' \<noteq> None then n_setval n v' else Inr n) = Inr ?n"
      using sz ndspace_nonneg(1) [of vs] ndspace_nonneg(2) [of rest] by (intro n_setval_entry cl st less.prems) linarith
    have "updleaf vs ms m False spc n pull fr = bindE (newentry x spc pull) (\<lambda>(v, ok, spc, pull).
             bindE (copyloop (tl ms) v ok (Some x) False spc pull fr) (\<lambda>(ms', v, ok, m, full, pull, fr).
             bindE (if ok then n_setval n v else Inr n) (\<lambda>n. updleaf vs ms' m full spc n pull fr)))"
    proof (cases vs)
      case Nil
      with new less.prems(6) show ?thesis by (subst updleaf.simps) simp
    next
      case (Cons v vs')
      with new have "kk x < kk v" by simp
      then have "kk v \<noteq> kk x" "\<not> kk v < kk x" by auto
      with Cons new sp(3) show ?thesis by (subst updleaf.simps) (simp add: Let_def)
    qed
    then have step: "updleaf vs ms m False spc n pull fr = updleaf vs rest m' False spc1 ?n (pull1 + msgspace g) (fr @ f)"
      using ne cl(1) sv new(1) ms' by simp
    have "\<exists>pull'. updleaf vs rest m' False spc1 ?n (pull1 + msgspace g) (fr @ f) =
        Inr (?n\<lparr>ndvals := ndvals ?n @ runvals vs rest\<rparr>, pull', (fr @ f) @ runfrees vs rest) \<and> pull' \<le> pull1 + msgspace g + msgspace rest"
      by (rule IH) (use less.prems rv(3) new ms' sz sp1 cl(4) in \<open>auto simp: leafargs_def sorted_append stsz_def\<close>)
    then obtain pull' where p: "updleaf vs rest m' False spc1 ?n (pull1 + msgspace g) (fr @ f) =
        Inr (?n\<lparr>ndvals := ndvals ?n @ runvals vs rest\<rparr>, pull', (fr @ f) @ runfrees vs rest)" "pull' \<le> pull1 + msgspace g + msgspace rest" by blast
    have "pull1 \<le> pull + msgsz x" using msgsz_pos(1) [of x] by (auto simp: pull1_def less_imp_le)
    then have "pull' \<le> pull + msgspace ms" using p(2) unfolding new(1) ms' ndspace_simps by linarith
    then show ?thesis unfolding step rv p(1) by simp
  qed
qed

lemma concat_entries_keys: "kk ` set (concat (map (\<lambda>k. entry k (g k)) ks)) \<subseteq> set ks"
proof (induction ks)
  case (Cons a ks)
  then show ?case by (cases "g a") auto
qed simp

lemma lk_concat: "sorted_wrt (<) ks \<Longrightarrow> lk (concat (map (\<lambda>k. entry k (g k)) ks)) k = (if k \<in> set ks then g k else None)"
proof (induction ks)
  case (Cons a ks)
  then show ?case using concat_entries_keys [of g ks] by (cases "g a") (auto simp: lk_notin)
qed simp

lemma sorted_concat: "sorted_wrt (<) ks \<Longrightarrow> sorted_wrt (<) (map kk (concat (map (\<lambda>k. entry k (g k)) ks)))"
proof (induction ks)
  case (Cons a ks)
  then show ?case using concat_entries_keys [of g ks] by (cases "g a") auto
qed simp

end
