(* ===== verification/Gefs_Path.thy ===== *)
theory Gefs_Path
  imports Gefs_Leaf Gefs_Arenas
begin

text \<open>
  \<open>sys/src/9/gefs/tree.c\<close>, the path: how the nodes from a leaf up to the root are copied when
  messages move down, and what the code calls for that in \<open>blk.c\<close>.

  \<open>Bs\<close> is what the tree sees of the blocks.  \<open>bstore\<close> has the node under each address, in the cache,
  in the write-back queue or on the disk; a node is never changed once it is there.  \<open>bsum\<close> is
  the checksum \<open>finalize\<close> takes over the buffer of a node, which depends on the bytes it has not
  used as well.  \<open>bbusy\<close> says which arenas are locked by others, by the count of
  allocations.  \<open>blimbo\<close> and \<open>bdead\<close> are the blocks freed: those of this generation wait for the
  epoch to end, the older ones go to a deadlist.
\<close>

datatype Limbo = DFblk Bptr | DFbp Bptr

record Bs =
  bfs :: Gefs
  bstore :: "u64 \<Rightarrow> Nd option"
  bsum :: "Nd \<Rightarrow> u64"
  bbusy :: "u32 \<Rightarrow> nat \<Rightarrow> bool"
  bpriv :: bool
  breserve :: bool
  bissnap :: bool
  blimbo :: "Limbo list"
  bdead :: "Bptr list"

definition newblk :: "Bs \<Rightarrow> Tree \<Rightarrow> int \<Rightarrow> (Bs \<times> Nd) res" where
  "newblk st t ty =
     bindE (blkalloc (bbusy st (roundrobin (bfs st))) (bpriv st) (breserve st) (bfs st) ty 0 False) (\<lambda>(fs, a).
     let bp = \<lparr>baddr = of_int a, bhash = -1, bgen = tmemgen t\<rparr> in
     if bstore st (baddr bp) \<noteq> None then Inl Panic
     else Inr (st\<lparr>bfs := fs\<rparr>, newnd bp ty))"

definition enqueue :: "Bs \<Rightarrow> Nd \<Rightarrow> (Bs \<times> Nd) res" where
  "enqueue st n =
     assertE (0 \<le> sint (baddr (ndbp n)))
     (let n = n\<lparr>ndbp := (ndbp n)\<lparr>bhash := bsum st n\<rparr>\<rparr> in
      if bstore st (baddr (ndbp n)) \<noteq> None then Inl Panic
      else bindE (getarena (bfs st) (sint (baddr (ndbp n)))) (\<lambda>_.
        Inr (st\<lparr>bstore := (bstore st)(baddr (ndbp n) := Some n)\<rparr>, n)))"

definition getblk :: "Bs \<Rightarrow> Bptr \<Rightarrow> Nd res" where
  "getblk st bp =
     (case bstore st (baddr bp) of
        None \<Rightarrow> Inl (Err ''i/o error'')
      | Some n \<Rightarrow> assertE (bgen (ndbp n) = bgen bp) (Inr n))"

definition killed :: "Bs \<Rightarrow> Tree \<Rightarrow> Bptr \<Rightarrow> bool" where
  "killed st t bp \<longleftrightarrow> bissnap st \<or> sint (bgen bp) < sint (tmemgen t)"

definition freeblk :: "Bs \<Rightarrow> Tree \<Rightarrow> Nd \<Rightarrow> Bs" where
  "freeblk st t b =
     (if killed st t (ndbp b) then st\<lparr>bdead := bdead st @ [ndbp b]\<rparr>
      else st\<lparr>blimbo := DFblk (ndbp b) # blimbo st\<rparr>)"

definition freebp :: "Bs \<Rightarrow> Tree \<Rightarrow> Bptr \<Rightarrow> Bs" where
  "freebp st t bp =
     (if killed st t bp then st\<lparr>bdead := bdead st @ [bp]\<rparr>
      else st\<lparr>blimbo := DFbp bp # blimbo st\<rparr>)"

section \<open>The path\<close>

abbreviation (input) POmod :: int where "POmod \<equiv> 0"
abbreviation (input) POrot :: int where "POrot \<equiv> 1"
abbreviation (input) POsplit :: int where "POsplit \<equiv> 2"
abbreviation (input) POmerge :: int where "POmerge \<equiv> 3"

record Path =
  ins :: "Msg list option"
  pb :: "Nd option"
  ps :: "Nd option"
  pidx :: int
  plo :: int
  phi :: int
  psz :: int
  pop :: int
  pnl :: "Nd option"
  pnr :: "Nd option"
  pmidx :: int
  npull :: int
  pullsz :: int

text \<open>An element of the array that \<open>calloc\<close> returns.\<close>

definition path0 :: Path where
  "path0 = \<lparr>ins = None, pb = None, ps = None, pidx = 0, plo = 0, phi = 0, psz = 0, pop = POmod,
     pnl = None, pnr = None, pmidx = 0, npull = 0, pullsz = 0\<rparr>"

text \<open>The messages \<open>lo .. hi\<close> of a path element, for the element below.\<close>

definition pmsgs :: "Path \<Rightarrow> Msg list" where
  "pmsgs p = (case ins p of Some ms \<Rightarrow> ms | None \<Rightarrow> (case pb p of Some b \<Rightarrow> ndmsgs b | None \<Rightarrow> []))"

definition pending :: "Path \<Rightarrow> Msg list res" where
  "pending p = (if 0 \<le> plo p \<and> phi p \<le> int (length (pmsgs p))
     then Inr (drop (nat (plo p)) (take (nat (phi p)) (pmsgs p))) else Inl Wild)"

text \<open>
  \<open>pullmsg\<close> of the message at \<open>j\<close>, \<open>ms\<close> being the messages from \<open>j\<close> on: how it compares, and
  whether the node is full.
\<close>

definition pullmsg :: "Msg list \<Rightarrow> bytes option \<Rightarrow> bool \<Rightarrow> int \<Rightarrow> int \<times> bool" where
  "pullmsg ms v full spc =
     (if ms = [] \<or> full then (-1, full)
      else if msgsz (hd ms) \<le> spc then (case v of None \<Rightarrow> 0 | Some k \<Rightarrow> keycmp k (kk (hd ms)), full)
      else (-1, True))"

definition setb :: "Bs \<Rightarrow> Tree \<Rightarrow> Nd option \<Rightarrow> Nd \<Rightarrow> (Bs \<times> Nd option) res" where
  "setb st t dst b =
     (let st = (case dst of None \<Rightarrow> st | Some d \<Rightarrow> freeblk st t d) in
      if ndvals b = [] then Inr (freeblk st t b, None)
      else bindE (enqueue st b) (\<lambda>(st, b). Inr (st, Some b)))"

text \<open>The separator of a new child, its least key, and the pointer to it.\<close>

definition n_setptr :: "Nd \<Rightarrow> bytes \<Rightarrow> Bptr \<Rightarrow> int \<Rightarrow> Nd res" where
  "n_setptr n k bp fill = bindE (packbp (Ptrsz + 2) bp) (\<lambda>p. n_setval n \<lparr>kk = k, kv = p @ PACK16 (of_int fill)\<rparr>)"

definition upkey :: "Nd \<Rightarrow> bytes" where
  "upkey c = (let k = kk (hd (ndvals c)) in
     if ndmsgs c \<noteq> [] \<and> keycmp k (kk (hd (ndmsgs c))) > 0 then kk (hd (ndmsgs c)) else k)"

definition copyup1 :: "Nd \<Rightarrow> Nd option \<Rightarrow> int \<Rightarrow> (Nd \<times> int) res" where
  "copyup1 n c nbytes =
     (case c of None \<Rightarrow> Inr (n, nbytes)
      | Some c \<Rightarrow> assertE (ndvals c \<noteq> [])
          (bindE (n_setptr n (upkey c) (ndbp c) (n_blkfill c)) (\<lambda>n.
           Inr (n, nbytes + valsz_kv \<lparr>kk = upkey c, kv = kv (hd (ndvals c))\<rparr>))))"

definition copyup :: "Nd \<Rightarrow> Path \<Rightarrow> int \<Rightarrow> (Nd \<times> int) res" where
  "copyup n pp nbytes = bindE (copyup1 n (pnl pp) nbytes) (\<lambda>(n, nbytes). copyup1 n (pnr pp) nbytes)"

section \<open>Rebuilding one node\<close>

text \<open>\<open>updateleaf\<close>: the leaf with all the messages, and the data blocks they unlink freed.\<close>

definition updateleaf :: "Bs \<Rightarrow> Tree \<Rightarrow> Path \<Rightarrow> Path \<Rightarrow> (Bs \<times> Path) res" where
  "updateleaf st t pup p =
     (case pb p of None \<Rightarrow> Inl Wild | Some b \<Rightarrow>
      bindE (pending pup) (\<lambda>ms.
      bindE (newblk st t (ndtype b)) (\<lambda>(st, n).
      bindE (updleaf (ndvals b) ms None False (int Leafspc - n_blkfill b) n (pullsz p) []) (\<lambda>(n, pull, fr).
      let st = foldl (\<lambda>st bp. freebp st t bp) st fr in
      bindE (setb st t (pnl p) n) (\<lambda>(st, nl).
      Inr (st, p\<lparr>pullsz := pull, npull := int (length ms), pop := POmod, pnl := nl\<rparr>))))))"

text \<open>
  \<open>updatepiv\<close>: the entries, with those of the child below copied up in place of the entry
  \<open>midx\<close> (and of the one after it when the child was merged or rotated with its sibling).
\<close>

fun pivvals :: "Kvp list \<Rightarrow> int \<Rightarrow> int \<Rightarrow> Path option \<Rightarrow> Nd \<Rightarrow> Nd res" where
  "pivvals [] i midx pp n = Inr n"
| "pivvals (v # vs) i midx pp n =
     (case pp of
        Some q \<Rightarrow>
          if i = midx then
            bindE (copyup n q 0) (\<lambda>(n, _).
            if pop q = POrot \<or> pop q = POmerge then pivvals (drop 1 vs) (i + 2) midx pp n
            else pivvals vs (i + 1) midx pp n)
          else bindE (n_setval n v) (pivvals vs (i + 1) midx pp)
      | None \<Rightarrow> bindE (n_setval n v) (pivvals vs (i + 1) midx pp))"

text \<open>The messages of the node without those its child pulled.\<close>

definition leftmsgs :: "Msg list \<Rightarrow> Path \<Rightarrow> Path option \<Rightarrow> Msg list res" where
  "leftmsgs ms p pp =
     (if 0 \<le> plo p \<and> plo p < int (length ms) then
        case pp of None \<Rightarrow> Inl Wild
        | Some q \<Rightarrow> assertE (plo p + npull q \<le> int (length ms))
            (Inr (take (nat (plo p)) ms @ drop (nat (plo p + npull q)) ms))
      else Inr ms)"

text \<open>
  The inner loop of \<open>updatepiv\<close> pulls the messages with the key \<open>k\<close>; \<open>u\<close> is the message
  pulled last, whose size the outer loop keeps in reserve.
\<close>

fun dragmsgs :: "Msg list \<Rightarrow> bytes \<Rightarrow> bool \<Rightarrow> int \<Rightarrow> Nd \<Rightarrow> int \<Rightarrow> Msg option \<Rightarrow> (Msg list \<times> bool \<times> int \<times> Nd \<times> int \<times> Msg option) res" where
  "dragmsgs [] k full spc n pull u = Inr ([], full, spc, n, pull, u)"
| "dragmsgs (m # ms) k full spc n pull u =
     (let (r, full) = pullmsg (m # ms) (Some k) full spc in
      if r = 0 then bindE (n_setmsg n m) (\<lambda>n. dragmsgs ms k full (spc - msgsz m) n (pull + msgsz m) (Some m))
      else Inr (m # ms, full, spc, n, pull, u))"

lemma dragmsgs_length: "dragmsgs ms k full spc n pull u = Inr (ms', r) \<Longrightarrow> length ms' \<le> length ms"
  by (induction ms arbitrary: full spc n pull u) (auto simp: res_simps le_SucI split: if_splits prod.splits)

definition lastsz :: "Msg option \<Rightarrow> int" where
  "lastsz u = (case u of None \<Rightarrow> 0 | Some m \<Rightarrow> msgsz m)"

lemma lastsz_nonneg: "0 \<le> lastsz u"
  by (auto simp: lastsz_def less_imp_le split: option.split)

text \<open>
  The loop over the messages \<open>own\<close> of the node: those of the parent with a smaller key are pulled
  before each of them.
\<close>

function pivmsgs :: "Msg list \<Rightarrow> Msg list \<Rightarrow> bool \<Rightarrow> int \<Rightarrow> Nd \<Rightarrow> int \<Rightarrow> Msg option \<Rightarrow> (Msg list \<times> bool \<times> int \<times> Nd \<times> int) res" where
  "pivmsgs [] ms full spc n pull u = Inr (ms, full, spc, n, pull)"
| "pivmsgs (m # own) ms full spc n pull u =
     (let (r, full) = pullmsg ms (Some (kk m)) full (spc - lastsz u) in
      if r = 1 then
        bindE (cpkvp (hd ms) Msgmax) (\<lambda>e.
        bindE (dragmsgs ms (kk e) full spc n pull u) (\<lambda>(ms, full, spc, n, pull, u).
        pivmsgs (m # own) ms full spc n pull u))
      else bindE (n_setmsg n m) (\<lambda>n. pivmsgs own ms full spc n pull u))"
  by pat_completeness auto
termination
proof (relation "measure (\<lambda>(own, ms, _). length own + length ms)", goal_cases)
  case (2 m own ms full spc n pull u)
  then have "ms \<noteq> []" "\<not> full" "msgsz (hd ms) \<le> spc" using lastsz_nonneg [of u]
    by (auto simp: pullmsg_def split: if_splits)
  with 2 show ?case by (cases ms) (auto simp: res_simps cpkvp_def pullmsg_def dest!: dragmsgs_length split: if_splits)
qed auto

text \<open>The last loop of \<open>updatepiv\<close>: what is left of the parent's messages, while there is room.\<close>

fun restmsgs :: "Msg list \<Rightarrow> bool \<Rightarrow> int \<Rightarrow> Nd \<Rightarrow> int \<Rightarrow> (Msg list \<times> Nd \<times> int) res" where
  "restmsgs [] full spc n pull = Inr ([], n, pull)"
| "restmsgs (m # ms) full spc n pull =
     (let (_, full) = pullmsg (m # ms) None full spc in
      if full then Inr (m # ms, n, pull)
      else bindE (n_setmsg n m) (\<lambda>n. restmsgs ms full (spc - msgsz m) n (pull + msgsz m)))"

definition updatepiv :: "Bs \<Rightarrow> Tree \<Rightarrow> Path \<Rightarrow> Path \<Rightarrow> Path option \<Rightarrow> (Bs \<times> Path) res" where
  "updatepiv st t pup p pp =
     (case pb p of None \<Rightarrow> Inl Wild | Some b \<Rightarrow>
      bindE (newblk st t (ndtype b)) (\<lambda>(st, n).
      bindE (pivvals (ndvals b) 0 (pmidx p) pp n) (\<lambda>n.
      bindE (pending pup) (\<lambda>ms.
      assertE (ndtype b = Tpivot)
      (let spc = int Bufspc - msgspace (ndmsgs b) + (case pp of None \<Rightarrow> 0 | Some q \<Rightarrow> pullsz q) in
      bindE (leftmsgs (ndmsgs b) p pp) (\<lambda>own.
      bindE (pivmsgs own ms False spc n (pullsz p) None) (\<lambda>(ms', full, spc, n, pull).
      bindE (restmsgs ms' full spc n pull) (\<lambda>(ms', n, pull).
      bindE (setb st t (pnl p) n) (\<lambda>(st, nl).
      Inr (st, p\<lparr>pullsz := pull, npull := int (length ms) - int (length ms'), pop := POmod, pnl := nl\<rparr>))))))))))"

section \<open>Splitting\<close>

text \<open>
  The loop of \<open>splitleaf\<close> over the entries from \<open>i\<close> on.  \<open>onr\<close> says that \<open>d\<close> is the right
  half; \<open>spc0\<close> is the room a half starts with.
\<close>

definition halfval :: "bool \<Rightarrow> Nd \<times> Nd \<Rightarrow> Kvp \<Rightarrow> (Nd \<times> Nd) res" where
  "halfval onr d v = (case d of (l, r) \<Rightarrow>
     if onr then bindE (n_setval r v) (\<lambda>r. Inr (l, r)) else bindE (n_setval l v) (\<lambda>l. Inr (l, r)))"

function splleaf :: "Kvp list \<Rightarrow> Msg list \<Rightarrow> int \<Rightarrow> int \<Rightarrow> int \<Rightarrow> bool \<Rightarrow> int \<Rightarrow> int \<Rightarrow> bool \<Rightarrow> Nd \<times> Nd \<Rightarrow> int \<Rightarrow> Bptr list \<Rightarrow>
    (Nd \<times> Nd \<times> Msg list \<times> int \<times> Bptr list) res" where
  "splleaf [] ms i nv halfsz onr copied spc full d pull fr = Inr (fst d, snd d, ms, pull, fr)"
| "splleaf (v # vs) ms i nv halfsz onr copied spc full d pull fr =
     (let turn = (\<not> onr \<and> (i = nv - 2 \<or> i \<ge> 2 \<and> copied \<ge> halfsz));
          onr = (onr \<or> turn);
          spc = (if turn then int Leafspc - (halfsz + int Msgmax) else spc);
          (c, full) = pullmsg ms (Some (kk v)) full spc in
      if c = -1 then
        bindE (halfval onr d v) (\<lambda>d. splleaf vs ms (i + 1) nv halfsz onr (copied + valsz_kv v) spc full d pull fr)
      else if c = 0 then
        bindE (cpkvp v Msgmax) (\<lambda>e.
        bindE (dropptr e (hd ms)) (\<lambda>f.
        bindE (apply_msg e (hd ms) Msgmax) (\<lambda>(ok, e').
        bindE (copyloop (tl ms) e' ok None full spc pull (fr @ f)) (\<lambda>(ms', e', ok, _, full, pull, fr).
        bindE (if ok then halfval onr d e' else Inr d) (\<lambda>d.
        splleaf vs ms' (i + 1) nv halfsz onr (copied + valsz_kv e) spc full d pull fr)))))
      else
        bindE (newentry (hd ms) spc pull) (\<lambda>(e, ok, spc, pull).
        bindE (copyloop (tl ms) e ok None full spc pull fr) (\<lambda>(ms', e', ok, _, full, pull, fr).
        bindE (if ok then halfval onr d e' else Inr d) (\<lambda>d.
        splleaf (v # vs) ms' i nv halfsz onr (copied + valsz_kv e) spc full d pull fr))))"
  by pat_completeness auto
termination
proof (relation "measure (\<lambda>(vs, ms, _). length vs + length ms)", goal_cases)
  case (3 v vs ms) then show ?case by (cases ms) (auto simp: pullmsg_def dest!: copyloop_length split: if_splits)
next
  case (4 v vs ms) then show ?case by (cases ms) (auto simp: pullmsg_def dest!: copyloop_length split: if_splits)
qed auto

declare splleaf.simps(2) [simp del]

definition splitleaf :: "Bs \<Rightarrow> Tree \<Rightarrow> Path \<Rightarrow> Path \<Rightarrow> (Bs \<times> Path) res" where
  "splitleaf st t pup p =
     (case pb p of None \<Rightarrow> Inl Wild | Some b \<Rightarrow>
      bindE (newblk st t (ndtype b)) (\<lambda>(st, l).
      bindE (newblk st t (ndtype b)) (\<lambda>(st, r).
      let nv = int (length (ndvals b));
          halfsz = (valspace (ndvals b) + psz pup) sdiv 2;
          halfsz = (if halfsz > int Leafspc div 2 then int Leafspc div 2 else halfsz) in
      assertE (nv \<ge> 4)
      (bindE (pending pup) (\<lambda>ms.
       bindE (splleaf (ndvals b) ms 0 nv halfsz False 0 (int Leafspc - (halfsz + int Msgmax)) False (l, r) (pullsz p) [])
        (\<lambda>(l, r, ms', pull, fr).
       let st = foldl (\<lambda>st bp. freebp st t bp) st fr in
       bindE (setb st t (pnl p) l) (\<lambda>(st, nl).
       bindE (setb st t (pnr p) r) (\<lambda>(st, nr).
       Inr (st, p\<lparr>pullsz := pull, npull := int (length ms) - int (length ms'), pop := POsplit, pnl := nl, pnr := nr\<rparr>)))))))))"

text \<open>\<open>splitpiv\<close>: the entries, with those of the child copied up in place of the entry \<open>idx\<close>.\<close>

fun splvals :: "Kvp list \<Rightarrow> int \<Rightarrow> int \<Rightarrow> int \<Rightarrow> int \<Rightarrow> Path option \<Rightarrow> bool \<Rightarrow> int \<Rightarrow> Nd \<times> Nd \<Rightarrow> (Nd \<times> Nd) res" where
  "splvals [] i nv halfsz idx pp onr copied d = Inr d"
| "splvals (v # vs) i nv halfsz idx pp onr copied d =
     (let onr = (onr \<or> i = nv - 2 \<or> i \<ge> 2 \<and> copied \<ge> halfsz) in
      if i = idx then
        case pp of None \<Rightarrow> Inl Wild | Some q \<Rightarrow>
        bindE (copyup (if onr then snd d else fst d) q copied) (\<lambda>(n, copied).
        splvals vs (i + 1) nv halfsz idx pp onr copied (if onr then (fst d, n) else (n, snd d)))
      else bindE (halfval onr d v) (splvals vs (i + 1) nv halfsz idx pp onr (copied + valsz_kv v)))"

fun splmsgs :: "Msg list \<Rightarrow> bytes \<Rightarrow> bool \<Rightarrow> Nd \<times> Nd \<Rightarrow> (Nd \<times> Nd) res" where
  "splmsgs [] mid onr d = Inr d"
| "splmsgs (m # ms) mid onr d =
     (let onr = (onr \<or> keycmp (kk m) mid \<ge> 0) in
      if onr then bindE (n_setmsg (snd d) m) (\<lambda>r. splmsgs ms mid onr (fst d, r))
      else bindE (n_setmsg (fst d) m) (\<lambda>l. splmsgs ms mid onr (l, snd d)))"

definition splitpiv :: "Bs \<Rightarrow> Tree \<Rightarrow> Path \<Rightarrow> Path option \<Rightarrow> (Bs \<times> Path) res" where
  "splitpiv st t p pp =
     (case pb p of None \<Rightarrow> Inl Wild | Some b \<Rightarrow>
      bindE (newblk st t (ndtype b)) (\<lambda>(st, l).
      bindE (newblk st t (ndtype b)) (\<lambda>(st, r).
      let nv = int (length (ndvals b)); halfsz = valspace (ndvals b) div 2 in
      assertE (nv \<ge> 4)
      (bindE (splvals (ndvals b) 0 nv halfsz (pidx p) pp False 0 (l, r)) (\<lambda>(l, r).
       assertE (ndvals r \<noteq> [])
       (bindE (leftmsgs (ndmsgs b) p pp) (\<lambda>own.
        bindE (splmsgs own (kk (hd (ndvals r))) False (l, r)) (\<lambda>(l, r).
        bindE (setb st t (pnl p) l) (\<lambda>(st, nl).
        bindE (setb st t (pnr p) r) (\<lambda>(st, nr).
        Inr (st, p\<lparr>pop := POsplit, pnl := nl, pnr := nr\<rparr>)))))))))))"

section \<open>Balancing with a sibling\<close>

fun setvals :: "Kvp list \<Rightarrow> Nd \<Rightarrow> Nd res" where
  "setvals [] n = Inr n"
| "setvals (v # vs) n = bindE (n_setval n v) (setvals vs)"

fun setmsgs :: "Msg list \<Rightarrow> Nd \<Rightarrow> Nd res" where
  "setmsgs [] n = Inr n"
| "setmsgs (m # ms) n = bindE (n_setmsg n m) (setmsgs ms)"

definition merge :: "Bs \<Rightarrow> Tree \<Rightarrow> Path \<Rightarrow> Path \<Rightarrow> int \<Rightarrow> Nd \<Rightarrow> Nd \<Rightarrow> (Bs \<times> Path \<times> Path) res" where
  "merge st t p pp idx a b =
     bindE (newblk st t (ndtype a)) (\<lambda>(st, d).
     bindE (setvals (ndvals a) d) (\<lambda>d.
     bindE (setvals (ndvals b) d) (\<lambda>d.
     bindE (if ndtype a = Tpivot then bindE (setmsgs (ndmsgs a) d) (setmsgs (ndmsgs b)) else Inr d) (\<lambda>d.
     bindE (setb st t (pnl pp) d) (\<lambda>(st, nl).
     Inr (st, p\<lparr>pmidx := idx\<rparr>, pp\<lparr>pop := POmerge, pnl := nl\<rparr>))))))"

text \<open>The first of the messages from \<open>i\<close> on whose key is not below \<open>k\<close>.\<close>

fun splitidx_loop :: "Msg list \<Rightarrow> bytes \<Rightarrow> nat \<Rightarrow> nat" where
  "splitidx_loop [] k i = i"
| "splitidx_loop (m # ms) k i = (if keycmp k (kk m) \<le> 0 then i else splitidx_loop ms k (i + 1))"

definition splitidx :: "Nd \<Rightarrow> Nd \<Rightarrow> bytes \<Rightarrow> nat \<Rightarrow> nat" where
  "splitidx l r k i = (if ndtype l = Tleaf then i else splitidx_loop (drop i (ndmsgs l @ ndmsgs r)) k i)"

fun rotvals :: "Nd \<Rightarrow> Nd \<Rightarrow> Kvp list \<Rightarrow> int \<Rightarrow> bool \<Rightarrow> int \<Rightarrow> nat \<Rightarrow> Nd \<times> Nd \<Rightarrow> (Nd \<times> Nd \<times> nat \<times> bool \<times> int) res" where
  "rotvals a b [] halfpiv onr sz sp d = Inr (fst d, snd d, sp, onr, sz)"
| "rotvals a b (v # vs) halfpiv onr sz sp d =
     (let sp = (if onr then sp else splitidx a b (kk v) sp);
          onr = (onr \<or> sz \<ge> halfpiv) in
      bindE (halfval onr d v) (rotvals a b vs halfpiv onr (sz + valsz_kv v) sp))"

text \<open>The counter \<open>o\<close> starts again when the right half is reached.\<close>

fun rotmsgs :: "Msg list \<Rightarrow> nat \<Rightarrow> bool \<Rightarrow> nat \<Rightarrow> Nd \<times> Nd \<Rightarrow> (Nd \<times> Nd) res" where
  "rotmsgs [] sp onr i d = Inr d"
| "rotmsgs (m # ms) sp onr i d =
     (let onr' = (onr \<or> i = sp); i = (if i = sp then 0 else i) in
      if onr' then bindE (n_setmsg (snd d) m) (\<lambda>r. rotmsgs ms sp onr' (i + 1) (fst d, r))
      else bindE (n_setmsg (fst d) m) (\<lambda>l. rotmsgs ms sp onr' (i + 1) (l, snd d)))"

definition rotate_nd :: "Bs \<Rightarrow> Tree \<Rightarrow> Path \<Rightarrow> Path \<Rightarrow> int \<Rightarrow> Nd \<Rightarrow> Nd \<Rightarrow> int \<Rightarrow> (Bs \<times> Path \<times> Path) res" where
  "rotate_nd st t p pp idx a b halfpiv =
     bindE (newblk st t (ndtype a)) (\<lambda>(st, l).
     bindE (newblk st t (ndtype a)) (\<lambda>(st, r).
     bindE (rotvals a b (ndvals a) halfpiv False 0 0 (l, r)) (\<lambda>(l, r, sp, onr, sz).
     bindE (rotvals a b (ndvals b) halfpiv onr sz sp (l, r)) (\<lambda>(l, r, sp, _, _).
     bindE (if ndtype a = Tpivot then rotmsgs (ndmsgs a @ ndmsgs b) sp False 0 (l, r) else Inr (l, r)) (\<lambda>(l, r).
     bindE (setb st t (pnl pp) l) (\<lambda>(st, nl).
     bindE (setb st t (pnr pp) r) (\<lambda>(st, nr).
     Inr (st, p\<lparr>pmidx := idx\<rparr>, pp\<lparr>pop := POrot, pnl := nl, pnr := nr\<rparr>))))))))"

definition rotmerge :: "Bs \<Rightarrow> Tree \<Rightarrow> Path \<Rightarrow> Path \<Rightarrow> int \<Rightarrow> Nd \<Rightarrow> Nd \<Rightarrow> (bool \<times> Bs \<times> Path \<times> Path) res" where
  "rotmerge st t p pp idx a b =
     assertE (ndtype a = ndtype b)
     (let na = valspace (ndvals a); nb = valspace (ndvals b);
          ma = (if ndtype a = Tleaf then 0 else msgspace (ndmsgs a));
          mb = (if ndtype a = Tleaf then 0 else msgspace (ndmsgs b)) in
      if na + nb < int Pivspc - 4 * int Msgmax \<and> ma + mb < int Bufspc then
        bindE (merge st t p pp idx a b) (\<lambda>r. Inr (True, r))
      else if \<bar>na - nb\<bar> > 4 * int Msgmax then
        bindE (rotate_nd st t p pp idx a b ((na + nb) div 2)) (\<lambda>r. Inr (True, r))
      else Inr (False, st, p, pp))"

text \<open>
  \<open>trybalance\<close> with the left sibling or else the right one; \<open>ps\<close> is the sibling that is replaced.
\<close>

definition trysibling :: "Bs \<Rightarrow> Tree \<Rightarrow> Path \<Rightarrow> Path \<Rightarrow> int \<Rightarrow> Nd \<Rightarrow> Nd \<Rightarrow> Nd \<Rightarrow> (Bs \<times> Path \<times> Path) res" where
  "trysibling st t p pp idx a b s =
     bindE (rotmerge st t p pp idx a b) (\<lambda>(did, st, p, pp).
     Inr (st, if did then p\<lparr>ps := Some s\<rparr> else p, pp))"

definition childptr :: "Nd \<Rightarrow> int \<Rightarrow> (Bptr \<times> nat) res" where
  "childptr b i = assertE (0 \<le> i \<and> i < int (length (ndvals b))) (getptr (ndvals b ! nat i))"

definition tryright :: "Bs \<Rightarrow> Tree \<Rightarrow> Path \<Rightarrow> Path \<Rightarrow> Nd \<Rightarrow> Nd \<Rightarrow> int \<Rightarrow> int \<Rightarrow> (Bs \<times> Path \<times> Path) res" where
  "tryright st t p pp b m idx spc =
     (if idx + 1 < int (length (ndvals b)) then
        bindE (childptr b (idx + 1)) (\<lambda>(bp, fill).
        if int fill + n_blkfill m < spc then bindE (getblk st bp) (\<lambda>r. trysibling st t p pp idx m r r)
        else Inr (st, p, pp))
      else Inr (st, p, pp))"

definition tryleft :: "Bs \<Rightarrow> Tree \<Rightarrow> Path \<Rightarrow> Path \<Rightarrow> Nd \<Rightarrow> Nd \<Rightarrow> int \<Rightarrow> int \<Rightarrow> (Bs \<times> Path \<times> Path) res" where
  "tryleft st t p pp b m idx spc =
     (if idx - 1 \<ge> 0 then
        bindE (childptr b (idx - 1)) (\<lambda>(bp, fill).
        if int fill + n_blkfill m < spc then bindE (getblk st bp) (\<lambda>l. trysibling st t p pp (idx - 1) l m l)
        else tryright st t p pp b m idx spc)
      else tryright st t p pp b m idx spc)"

definition trybalance :: "Bs \<Rightarrow> Tree \<Rightarrow> Path \<Rightarrow> Path option \<Rightarrow> int \<Rightarrow> (Bs \<times> Path \<times> Path option) res" where
  "trybalance st t p pp idx =
     (case pp of None \<Rightarrow> Inr (st, p, pp) | Some q \<Rightarrow>
      case pnl q of None \<Rightarrow> Inr (st, p, pp) | Some m \<Rightarrow>
      if pidx p = -1 \<or> pop q \<noteq> POmod \<and> pop q \<noteq> POmerge then Inr (st, p, pp)
      else case pb p of None \<Rightarrow> Inl Wild | Some b \<Rightarrow>
        bindE (tryleft st t p q b m idx (if ndtype m = Tleaf then int Leafspc else int Pivspc)) (\<lambda>(st, p, q).
        Inr (st, p, Some q)))"

section \<open>Up the path\<close>

text \<open>
  The loop of \<open>flush\<close>.  The path is given from the element \<open>p\<close> up to \<open>path[0]\<close>; \<open>pp\<close> is the
  element below and \<open>done\<close> the ones below that.  The result has the whole path, from the top,
  and the index of \<open>rp\<close>.
\<close>

definition droproot :: "Path \<Rightarrow> Path option \<Rightarrow> bool" where
  "droproot p pp =
     (case (pb p, pp) of
        (Some b, Some q) \<Rightarrow> pnl q \<noteq> None \<and> pnr q = None \<and> npull q = int (length (ndmsgs b)) \<and>
          (pop q = POmerge \<and> length (ndvals b) = 2 \<or> pop q = POmod \<and> length (ndvals b) = 1)
      | _ \<Rightarrow> False)"

definition pathtail :: "Path option \<Rightarrow> Path list \<Rightarrow> Path list" where
  "pathtail pp ds = (case pp of None \<Rightarrow> ds | Some q \<Rightarrow> q # ds)"

definition n_filledpiv :: "Nd \<Rightarrow> int \<Rightarrow> bool res" where
  "n_filledpiv b rsv = assertE (ndtype b = Tpivot) (Inr (valspace (ndvals b) + 2 + rsv * 288 > int Pivspc))"

definition n_filledleaf :: "Nd \<Rightarrow> int \<Rightarrow> bool res" where
  "n_filledleaf b needed = assertE (ndtype b = Tleaf) (Inr (valspace (ndvals b) + 2 + needed > int Leafspc))"

definition n_filledbuf :: "Nd \<Rightarrow> int \<Rightarrow> int \<Rightarrow> bool res" where
  "n_filledbuf b nmsg needed = assertE (ndtype b = Tpivot) (Inr (msgspace (ndmsgs b) + 2 * nmsg + needed > int Bufspc))"

definition newroot :: "Bs \<Rightarrow> Tree \<Rightarrow> Path \<Rightarrow> Path \<Rightarrow> (Bs \<times> Path) res" where
  "newroot st t p0 pp =
     bindE (newblk st t Tpivot) (\<lambda>(st, n).
     bindE (copyup n pp 0) (\<lambda>(n, _).
     bindE (enqueue st n) (\<lambda>(st, n).
     Inr (st, p0\<lparr>pnl := Some n, npull := npull pp, pullsz := pullsz pp\<rparr>))))"

fun flushloop :: "Bs \<Rightarrow> Tree \<Rightarrow> Path list \<Rightarrow> Path option \<Rightarrow> Path list \<Rightarrow> nat option \<Rightarrow> (Bs \<times> Path list \<times> nat option) res" where
  "flushloop st t [] pp ds rp = Inl Wild"
| "flushloop st t [p0] pp ds rp =
     (case pp of None \<Rightarrow> Inl Wild
      | Some q \<Rightarrow>
        if pnl q \<noteq> None \<and> pnr q \<noteq> None then
          bindE (newroot st t p0 q) (\<lambda>(st, p0). Inr (st, p0 # q # ds, Some 0))
        else Inr (st, p0 # q # ds, rp))"
| "flushloop st t (p # pup # up) pp ds rp =
     (case pb p of None \<Rightarrow> Inl Wild | Some b \<Rightarrow>
      bindE (n_filledpiv b 2) (\<lambda>filled.
      if \<not> filled then
        bindE (trybalance st t p pp (pidx p)) (\<lambda>(st, p, pp).
        if up = [] \<and> droproot p pp then
          (case pp of None \<Rightarrow> Inl Wild
           | Some q \<Rightarrow> Inr (st, pup # p # q\<lparr>npull := npull p\<rparr> # ds, Some 2))
        else
          bindE (updatepiv st t pup p pp) (\<lambda>(st, p).
          flushloop st t (pup # up) (Some p) (pathtail pp ds) (Some (length (pup # up)))))
      else
        bindE (splitpiv st t p pp) (\<lambda>(st, p).
        flushloop st t (pup # up) (Some p) (pathtail pp ds) rp)))"

text \<open>\<open>flush\<close> of the path, given from its last element up to \<open>path[0]\<close>.\<close>

definition flush :: "Bs \<Rightarrow> Tree \<Rightarrow> Path list \<Rightarrow> (Bs \<times> Path list \<times> nat option) res" where
  "flush st t path =
     (case path of
        p # pup # up \<Rightarrow>
          (case pb p of None \<Rightarrow> Inl Wild | Some b \<Rightarrow>
           if ndtype b = Tleaf then
             bindE (n_filledleaf b (psz pup)) (\<lambda>filled.
             if \<not> filled then
               bindE (updateleaf st t pup p) (\<lambda>(st, p).
               flushloop st t (pup # up) (Some (p\<lparr>pmidx := -1\<rparr>)) [] (Some (length (pup # up))))
             else
               bindE (splitleaf st t pup p) (\<lambda>(st, p).
               flushloop st t (pup # up) (Some (p\<lparr>pmidx := -1\<rparr>)) [] None))
           else flushloop st t path None [] None)
      | _ \<Rightarrow> Inl Panic)"

definition freepath :: "Bs \<Rightarrow> Tree \<Rightarrow> Path list \<Rightarrow> Bs" where
  "freepath st t path =
     foldl (\<lambda>st p.
       let st = (case pb p of None \<Rightarrow> st | Some b \<Rightarrow> freeblk st t b) in
       (case ps p of None \<Rightarrow> st | Some s \<Rightarrow> freeblk st t s)) st path"

section \<open>Down the path\<close>

text \<open>
  \<open>victim\<close>: the messages \<open>ms\<close> of a node from \<open>j\<close> on that are below the separator \<open>k\<close>, and their
  size; then the child with the most.  \<open>seps\<close> are the separators after the entry \<open>i\<close>.
\<close>

fun segment :: "Msg list \<Rightarrow> bytes option \<Rightarrow> nat \<Rightarrow> int \<Rightarrow> nat \<times> int \<times> Msg list" where
  "segment [] k j sz = (j, sz, [])"
| "segment (m # ms) k j sz =
     (case k of Some k' \<Rightarrow> if keycmp (kk m) k' \<ge> 0 then (j, sz, m # ms) else segment ms k (j + 1) (sz + msgsz m)
      | None \<Rightarrow> segment ms k (j + 1) (sz + msgsz m))"

fun victims :: "bytes list \<Rightarrow> nat \<Rightarrow> nat \<Rightarrow> Msg list \<Rightarrow> int \<Rightarrow> Path \<Rightarrow> Path" where
  "victims seps i lo ms maxsz p =
     (let (hi, cursz, ms') = segment ms (case seps of [] \<Rightarrow> None | k # _ \<Rightarrow> Some k) lo 0;
          better = cursz > maxsz;
          p = (if better then p\<lparr>pop := POmod, plo := int lo, phi := int hi, psz := cursz, pidx := int i, pmidx := int i,
                 npull := 0, pullsz := 0\<rparr> else p);
          maxsz = (if better then cursz else maxsz) in
      case seps of [] \<Rightarrow> p | k # ks \<Rightarrow> victims ks (i + 1) hi ms' maxsz p)"

definition victim :: "Nd \<Rightarrow> Path \<Rightarrow> Path" where
  "victim b p =
     (let p = p\<lparr>pb := Some b\<rparr> in
      if ndvals b = [] then p else victims (map kk (tl (ndvals b))) 0 0 (ndmsgs b) 0 p)"

text \<open>The search in the entries and in the messages of a node.\<close>

definition nthE :: "'a list \<Rightarrow> int \<Rightarrow> 'a res" where
  "nthE xs i = assertE (0 \<le> i \<and> i < int (length xs)) (Inr (xs ! nat i))"

definition n_blksearch :: "Nd \<Rightarrow> bytes \<Rightarrow> (int \<times> bool) res" where
  "n_blksearch b k = search (\<lambda>i. bindE (nthE (ndvals b) i) (\<lambda>e. Inr (kk e))) (int (length (ndvals b))) k"

definition n_bufsearch :: "Nd \<Rightarrow> bytes \<Rightarrow> (int \<times> bool) res" where
  "n_bufsearch b k = search (\<lambda>i. bindE (nthE (ndmsgs b) i) (\<lambda>m. Inr (kk m))) (int (length (ndmsgs b))) k"

text \<open>
  \<open>keyvictim\<close>: the child that holds \<open>k\<close> and its messages.  \<open>next\<close> is the separator after it.
\<close>

definition keyvictim :: "Nd \<Rightarrow> Path \<Rightarrow> bytes \<Rightarrow> nat \<Rightarrow> (Path \<times> Kvp option) res" where
  "keyvictim b p k nnbuf =
     bindE (n_blksearch b k) (\<lambda>(i, same).
     let i = (if i = -1 then 0 else i);
         hk = (if i + 1 < int (length (ndvals b)) then Some (ndvals b ! nat (i + 1)) else None) in
     bindE (case hk of None \<Rightarrow> Inr None | Some e \<Rightarrow> bindE (cpkvp e nnbuf) (\<lambda>e. Inr (Some e))) (\<lambda>next.
     let lo = (if i > 0 then length (takeWhile (\<lambda>m. keycmp (kk m) (kk (ndvals b ! nat i)) < 0) (ndmsgs b)) else 0);
         (hi, sz, _) = segment (drop lo (ndmsgs b)) (map_option kk hk) lo 0 in
     Inr (p\<lparr>pb := Some b, pop := POmod, plo := int lo, phi := int hi, psz := sz, pidx := i, pmidx := i,
            npull := 0, pullsz := 0\<rparr>, next)))"

text \<open>
  \<open>fastupsert\<close>: the messages are appended, then the offset of each is moved to its place, found
  by a binary search that goes to the end of the messages with the same key.
\<close>

function fastsearch :: "Msg list \<Rightarrow> bytes \<Rightarrow> int \<Rightarrow> int \<Rightarrow> int \<Rightarrow> int res" where
  "fastsearch ms k ri lo hi =
     (if lo \<le> hi then
        let mid = (hi + lo) div 2 in
        bindE (nthE ms mid) (\<lambda>c.
        let r = keycmp k (kk c) in
        if r = -1 then fastsearch ms k ri lo (mid - 1)
        else if r = 0 then fastsearch ms k (mid + 1) (mid + 1) hi
        else fastsearch ms k ri (mid + 1) hi)
      else Inr (if ri = -1 then hi + 1 else ri))"
  by pat_completeness auto
termination
  by (relation "measure (\<lambda>(ms, k, ri, lo, hi). nat (hi - lo + 1))") auto

declare fastsearch.simps [simp del]

text \<open>The message at \<open>j\<close> moved up to \<open>i\<close>.\<close>

definition moveto :: "Msg list \<Rightarrow> nat \<Rightarrow> nat \<Rightarrow> Msg list" where
  "moveto ms i j = take i ms @ [ms ! j] @ drop i (take j ms) @ drop (Suc j) ms"

fun placemsgs :: "Msg list \<Rightarrow> nat \<Rightarrow> Msg list \<Rightarrow> Msg list res" where
  "placemsgs [] j ms = Inr ms"
| "placemsgs (m # msg) j ms =
     bindE (fastsearch ms (kk m) (-1) 0 (int j - 1)) (\<lambda>ri. placemsgs msg (j + 1) (moveto ms (nat ri) j))"

definition dupblk :: "Bs \<Rightarrow> Tree \<Rightarrow> Nd \<Rightarrow> (Bs \<times> Nd) res" where
  "dupblk st t b = bindE (newblk st t (ndtype b)) (\<lambda>(st, r). Inr (st, r\<lparr>ndvals := ndvals b, ndmsgs := ndmsgs b\<rparr>))"

definition fastupsert :: "Bs \<Rightarrow> Tree \<Rightarrow> Nd \<Rightarrow> Msg list \<Rightarrow> (Bs \<times> Tree) res" where
  "fastupsert st t b msg =
     bindE (dupblk st t b) (\<lambda>(st, r).
     bindE (setmsgs msg r) (\<lambda>r.
     bindE (placemsgs msg (length (ndmsgs b)) (ndmsgs r)) (\<lambda>ms.
     bindE (enqueue st (r\<lparr>ndmsgs := ms\<rparr>)) (\<lambda>(st, r).
     Inr (freeblk st t b, t\<lparr>tbp := ndbp r, tdirty := True\<rparr>)))))"

section \<open>Upserts\<close>

text \<open>
  The way down in \<open>btupsert1\<close>.  \<open>left\<close> is what the assertion \<open>npath < height+2\<close> still allows.
  The path is built from its end.
\<close>

fun descend_path :: "nat \<Rightarrow> Bs \<Rightarrow> bytes option \<Rightarrow> nat \<Rightarrow> int \<Rightarrow> Nd \<Rightarrow> Path list \<Rightarrow> Kvp option \<Rightarrow> (Nd \<times> Path list \<times> Kvp option) res" where
  "descend_path left st deep nnbuf nmsg b path next =
     (if ndtype b \<noteq> Tpivot then Inr (b, path, next)
      else
        bindE (n_filledbuf b nmsg (psz (hd path))) (\<lambda>filled.
        if deep = None \<and> length (ndvals b) > 1 \<and> \<not> filled then Inr (b, path, next)
        else
          bindE (case deep of None \<Rightarrow> Inr (victim b path0, next)
                 | Some k \<Rightarrow> bindE (keyvictim b path0 k nnbuf) (\<lambda>(p, nx). Inr (p, if nx = None then next else nx))) (\<lambda>(p, next).
          bindE (nthE (ndvals b) (pidx p)) (\<lambda>sep.
          bindE (unpackbp (kv sep)) (\<lambda>bp.
          bindE (getblk st bp) (\<lambda>b.
          case left of 0 \<Rightarrow> Inl Panic
          | Suc left \<Rightarrow> descend_path left st deep nnbuf nmsg b (p # path) next))))))"

declare descend_path.simps [simp del]

text \<open>
  One turn of \<open>btupsert1\<close> from \<open>Again\<close> on, with \<open>msg\<close> sorted and \<open>sz\<close> their size.  \<open>Some n\<close> means
  to go round again, with \<open>n\<close> messages pulled.
\<close>

definition upround :: "Bs \<Rightarrow> Tree \<Rightarrow> Msg list \<Rightarrow> int \<Rightarrow> int \<Rightarrow> bytes option \<Rightarrow> nat \<Rightarrow> Kvp option \<Rightarrow>
    (Bs \<times> Tree \<times> int option \<times> Kvp option) res" where
  "upround st t msg sz np deep nnbuf next =
     bindE (getblk st (tbp t)) (\<lambda>b.
     if deep \<noteq> None \<and> ndtype b = Tleaf then Inr (st, t, None, None)
     else if deep = None \<and> np = 0 \<and> ndtype b = Tpivot \<and> length (ndvals b) > 1 \<and>
             n_filledbuf b (int (length msg)) sz = Inr False then
       bindE (fastupsert st t b msg) (\<lambda>(st, t). Inr (st, t, None, None))
     else
       let p0 = path0\<lparr>pidx := -1, pmidx := -1, psz := sz, ins := Some msg, plo := np, phi := int (length msg)\<rparr> in
       bindE (descend_path (unat (tht t)) st deep nnbuf (int (length msg)) b [p0] next) (\<lambda>(b, path, next).
       let pl = path0\<lparr>pb := Some b, pidx := -1, pmidx := -1, plo := -1, phi := -1\<rparr> in
       bindE (flush st t (pl # path)) (\<lambda>(st, path, rp).
       case rp of None \<Rightarrow> Inl Wild | Some i \<Rightarrow>
       case pnl (path ! i) of None \<Rightarrow> Inl Wild | Some rb \<Rightarrow>
       bindE (if pnl (path ! 0) \<noteq> None then Inr 1
              else if pnl (path ! 1) \<noteq> None then Inr 0
              else if length path > 2 \<and> pnl (path ! 2) \<noteq> None then Inr (-1)
              else Inl Panic) (\<lambda>dh.
       assertE (baddr (ndbp rb) \<noteq> 0)
       (let degen = (ndtype rb = Tpivot \<and> length (ndvals rb) = 1);
            t' = t\<lparr>tht := tht t + dh, tbp := ndbp rb, tdirty := True\<rparr>;
            np = np + npull (path ! i) in
        Inr (freepath st t path, t', if np \<noteq> int (length msg) \<or> degen then Some np else None, next))))))"

partial_function (option) upsertloop :: "Bs \<Rightarrow> Tree \<Rightarrow> Msg list \<Rightarrow> int \<Rightarrow> int \<Rightarrow> bytes option \<Rightarrow> nat \<Rightarrow> Kvp option \<Rightarrow>
    (Bs \<times> Tree \<times> Kvp option) res option" where
  "upsertloop st t msg sz np deep nnbuf next =
     (case upround st t msg sz np deep nnbuf next of
        Inl e \<Rightarrow> Some (Inl e)
      | Inr (st, t, again, next) \<Rightarrow>
          (case again of None \<Rightarrow> Some (Inr (st, t, next)) | Some np \<Rightarrow> upsertloop st t msg sz np deep nnbuf next))"

definition btupsert1 :: "Bs \<Rightarrow> Tree \<Rightarrow> Msg list \<Rightarrow> bytes option \<Rightarrow> nat \<Rightarrow> (Bs \<times> Tree \<times> Kvp option) res option" where
  "btupsert1 st t msg deep nnbuf =
     (let msg = stablesort msg in
      if \<forall>m \<in> set msg. length (kk m) \<le> Keymax \<and> length (kv m) \<le> Inlmax
      then upsertloop st t msg (msgspace msg) 0 deep nnbuf None
      else Some (Inl Panic))"

definition btupsert :: "Bs \<Rightarrow> Tree \<Rightarrow> Msg list \<Rightarrow> (Bs \<times> Tree \<times> Kvp option) res option" where
  "btupsert st t msg = btupsert1 st t msg None 0"

text \<open>\<open>btdrain\<close>: \<open>Some\<close> entry is the return value 1, with the entry in \<open>next\<close>.\<close>

definition btdrain :: "Bs \<Rightarrow> Tree \<Rightarrow> bytes \<Rightarrow> nat \<Rightarrow> (Bs \<times> Tree \<times> Kvp option) res option" where
  "btdrain st t k nnbuf = btupsert1 st t [] (Some k) nnbuf"

section \<open>Lookup\<close>

text \<open>
  The nodes on the way to \<open>k\<close>, at most \<open>n\<close>, with the entry \<open>r\<close> that the searches leave.
\<close>

fun lookpath :: "nat \<Rightarrow> Bs \<Rightarrow> bytes \<Rightarrow> Nd \<Rightarrow> Kvp \<Rightarrow> (Nd list \<times> Kvp) res" where
  "lookpath 0 st k b r = Inr ([b], r)"
| "lookpath (Suc n) st k b r =
     bindE (n_blksearch b k) (\<lambda>(i, _).
     if i = -1 then Inr ([b], r)
     else
       bindE (nthE (ndvals b) i) (\<lambda>r.
       bindE (unpackbp (kv r)) (\<lambda>bp.
       bindE (getblk st bp) (\<lambda>c.
       bindE (lookpath n st k c r) (\<lambda>(p, r). Inr (b # p, r))))))"

text \<open>The messages of one node for \<open>k\<close>.\<close>

fun applywhile :: "Msg list \<Rightarrow> bytes \<Rightarrow> bool \<Rightarrow> Kvp \<Rightarrow> nat \<Rightarrow> (bool \<times> Kvp) res" where
  "applywhile [] k ok r nnbuf = Inr (ok, r)"
| "applywhile (m # ms) k ok r nnbuf =
     (if keycmp k (kk m) \<noteq> 0 then Inr (ok, r)
      else bindE (apply_msg r m nnbuf) (\<lambda>(ok, r). applywhile ms k ok r nnbuf))"

definition lookmsgs :: "Nd \<Rightarrow> bytes \<Rightarrow> bool \<Rightarrow> Kvp \<Rightarrow> nat \<Rightarrow> (bool \<times> Kvp) res" where
  "lookmsgs b k ok r nnbuf =
     bindE (n_bufsearch b k) (\<lambda>(j, same).
     if j < 0 \<or> \<not> same then Inr (ok, r)
     else
       bindE (nthE (ndmsgs b) j) (\<lambda>m.
       bindE (if ok \<or> mop m = Oinsert then apply_msg r m nnbuf
              else if mop m \<noteq> Oclearb \<and> mop m \<noteq> Oclobber then Inl Panic else Inr (ok, r)) (\<lambda>(ok, r).
       applywhile (drop (nat j + 1) (ndmsgs b)) k ok r nnbuf)))"

fun lookup_up :: "Nd list \<Rightarrow> bytes \<Rightarrow> bool \<Rightarrow> Kvp \<Rightarrow> nat \<Rightarrow> (bool \<times> Kvp) res" where
  "lookup_up [] k ok r nnbuf = Inr (ok, r)"
| "lookup_up (b # bs) k ok r nnbuf =
     bindE (lookup_up bs k ok r nnbuf) (\<lambda>(ok, r). lookmsgs b k ok r nnbuf)"

definition btlookup :: "Bs \<Rightarrow> Tree \<Rightarrow> bytes \<Rightarrow> Kvp \<Rightarrow> nat \<Rightarrow> (bool \<times> Kvp) res" where
  "btlookup st t k r nnbuf =
     (let h = unat (tht t) in
      bindE (getblk st (tbp t)) (\<lambda>b.
      if h = 0 then Inl Wild
      else
        bindE (lookpath (h - 1) st k b r) (\<lambda>(p, r).
        bindE (if length p = h then
                 bindE (n_blksearch (last p) k) (\<lambda>(i, ok).
                 if i < 0 then Inr (ok, r) else bindE (nthE (ndvals (last p)) i) (\<lambda>r. Inr (ok, r)))
               else Inr (False, r)) (\<lambda>(ok, r).
        bindE (if ok then cpkvp r nnbuf else Inr r) (\<lambda>r.
        lookup_up (take (h - 1) p) k ok r nnbuf)))))"

end
