(* ===== verification/Gefs_Tree.thy ===== *)
theory Gefs_Tree
  imports Gefs_Path
begin

text \<open>
  What a tree holds.  The tree under a node, of a given height over the leaves, is flattened into
  the list of its leaf entries and the list of the messages in its pivots, those of a child
  before those of its parent.  The meaning of a key is what its messages, in that order, make
  of its entry.  \<open>wft\<close> is the search-tree invariant.
\<close>

section \<open>Messages for a key\<close>

definition mval :: "bytes \<Rightarrow> Msg list \<Rightarrow> bytes option \<Rightarrow> bytes option res" where
  "mval k ms s = bindE (mrun k ms s) (\<lambda>(s, _). Inr s)"

definition msgsof :: "bytes \<Rightarrow> Msg list \<Rightarrow> Msg list" where
  "msgsof k ms = filter (\<lambda>m. kk m = k) ms"

lemma msgsof_simps [simp]:
  "msgsof k [] = []" "msgsof k (ms @ ms') = msgsof k ms @ msgsof k ms'"
  "msgsof k (m # ms) = (if kk m = k then m # msgsof k ms else msgsof k ms)"
  by (simp_all add: msgsof_def)

lemma msgsof_notin: "k \<notin> kk ` set ms \<Longrightarrow> msgsof k ms = []"
  by (auto simp: msgsof_def filter_empty_conv)

lemma mrun_append: "mrun k (a @ b) s = bindE (mrun k a s) (\<lambda>(s, f). bindE (mrun k b s) (\<lambda>(s, g). Inr (s, f @ g)))"
proof (induction a arbitrary: s)
  case (Cons m a)
  then show ?case by (auto simp: bindE_def split: sum.splits)
qed (simp add: case_prod_beta)

lemma mval_Nil [simp]: "mval k [] s = Inr s"
  by (simp add: mval_def)

lemma mval_Nil_fun [simp]: "mval k [] = Inr"
  by (simp add: fun_eq_iff)

lemma mval_append: "mval k (a @ b) s = bindE (mval k a s) (mval k b)"
  by (auto simp: mval_def mrun_append bindE_def split: sum.splits)

lemma mval_append_fun: "mval k (a @ b) = (\<lambda>s. bindE (mval k a s) (mval k b))"
  by (simp add: mval_append fun_eq_iff)

lemma bindE_assoc: "bindE (bindE r f) g = bindE r (\<lambda>x. bindE (f x) g)"
  by (simp add: bindE_def split: sum.split)

text \<open>The meaning of a key over entries \<open>es\<close> and messages \<open>ms\<close>.\<close>

definition mean :: "Kvp list \<Rightarrow> Msg list \<Rightarrow> bytes \<Rightarrow> bytes option res" where
  "mean es ms k = mval k (msgsof k ms) (lk es k)"

lemma lk_append: "lk (a @ b) k = (case lk a k of None \<Rightarrow> lk b k | Some v \<Rightarrow> Some v)"
  by (induction a) auto

section \<open>Trees in the store\<close>

definition kid :: "(u64 \<Rightarrow> Nd option) \<Rightarrow> Kvp \<Rightarrow> Nd option" where
  "kid \<sigma> e =
     (case getptr e of
        Inl _ \<Rightarrow> None
      | Inr (bp, _) \<Rightarrow> (case \<sigma> (baddr bp) of Some c \<Rightarrow> if bgen (ndbp c) = bgen bp then Some c else None | None \<Rightarrow> None))"

definition kids :: "(u64 \<Rightarrow> Nd option) \<Rightarrow> Kvp list \<Rightarrow> Nd list" where
  "kids \<sigma> es = concat (map (\<lambda>e. case kid \<sigma> e of None \<Rightarrow> [] | Some c \<Rightarrow> [c]) es)"

lemma kids_simps [simp]:
  "kids \<sigma> [] = []" "kids \<sigma> (e # es) = (case kid \<sigma> e of None \<Rightarrow> [] | Some c \<Rightarrow> [c]) @ kids \<sigma> es" "kids \<sigma> (es @ es') = kids \<sigma> es @ kids \<sigma> es'"
  by (simp_all add: kids_def)

fun ents :: "(u64 \<Rightarrow> Nd option) \<Rightarrow> nat \<Rightarrow> Nd \<Rightarrow> Kvp list" where
  "ents \<sigma> 0 n = ndvals n"
| "ents \<sigma> (Suc h) n = concat (map (ents \<sigma> h) (kids \<sigma> (ndvals n)))"

fun allm :: "(u64 \<Rightarrow> Nd option) \<Rightarrow> nat \<Rightarrow> Nd \<Rightarrow> Msg list" where
  "allm \<sigma> 0 n = []"
| "allm \<sigma> (Suc h) n = concat (map (allm \<sigma> h) (kids \<sigma> (ndvals n))) @ ndmsgs n"

fun nkeys :: "(u64 \<Rightarrow> Nd option) \<Rightarrow> nat \<Rightarrow> Nd \<Rightarrow> bytes set" where
  "nkeys \<sigma> 0 n = kk ` set (ndvals n)"
| "nkeys \<sigma> (Suc h) n = kk ` set (ndvals n) \<union> kk ` set (ndmsgs n) \<union> (\<Union>c \<in> set (kids \<sigma> (ndvals n)). nkeys \<sigma> h c)"

definition before :: "bytes set \<Rightarrow> bytes set \<Rightarrow> bool" where
  "before A B \<longleftrightarrow> (\<forall>x \<in> A. \<forall>y \<in> B. x < y)"

text \<open>The keys under an entry of a pivot, the separator among them.\<close>

definition ekeys :: "(u64 \<Rightarrow> Nd option) \<Rightarrow> nat \<Rightarrow> Kvp \<Rightarrow> bytes set" where
  "ekeys \<sigma> h e = insert (kk e) (\<Union>c \<in> set (kids \<sigma> [e]). nkeys \<sigma> h c)"

fun wft :: "(u64 \<Rightarrow> Nd option) \<Rightarrow> nat \<Rightarrow> Nd \<Rightarrow> bool" where
  "wft \<sigma> 0 n \<longleftrightarrow> ndtype n = Tleaf \<and> ndmsgs n = [] \<and> ndvals n \<noteq> [] \<and> sorted_wrt (<) (map kk (ndvals n)) \<and> (\<forall>v \<in> set (ndvals n). okkv v)"
| "wft \<sigma> (Suc h) n \<longleftrightarrow> ndtype n = Tpivot \<and> ndvals n \<noteq> [] \<and> sorted (map kk (ndmsgs n)) \<and> (\<forall>m \<in> set (ndmsgs n). okmsg m) \<and>
     sorted_wrt (\<lambda>e e'. before (ekeys \<sigma> h e) (ekeys \<sigma> h e')) (ndvals n) \<and>
     (\<forall>e \<in> set (ndvals n). length (kk e) \<le> Keymax \<and> (\<exists>c. kid \<sigma> e = Some c \<and> wft \<sigma> h c \<and> (\<forall>x \<in> nkeys \<sigma> h c. kk e \<le> x)))"

text \<open>The part of \<open>wft\<close> that is about the entries of a pivot.\<close>

definition wfkids :: "(u64 \<Rightarrow> Nd option) \<Rightarrow> nat \<Rightarrow> Kvp list \<Rightarrow> bool" where
  "wfkids \<sigma> h es \<longleftrightarrow> sorted_wrt (\<lambda>e e'. before (ekeys \<sigma> h e) (ekeys \<sigma> h e')) es \<and>
     (\<forall>e \<in> set es. length (kk e) \<le> Keymax \<and> (\<exists>c. kid \<sigma> e = Some c \<and> wft \<sigma> h c \<and> (\<forall>x \<in> nkeys \<sigma> h c. kk e \<le> x)))"

lemma wft_Suc: "wft \<sigma> (Suc h) n \<longleftrightarrow> ndtype n = Tpivot \<and> ndvals n \<noteq> [] \<and> sorted (map kk (ndmsgs n)) \<and>
    (\<forall>m \<in> set (ndmsgs n). okmsg m) \<and> wfkids \<sigma> h (ndvals n)"
  by (auto simp: wfkids_def)

declare wft.simps(2) [simp del]

lemma wfkids_Nil [simp]: "wfkids \<sigma> h []"
  by (simp add: wfkids_def)

definition fkeys :: "(u64 \<Rightarrow> Nd option) \<Rightarrow> nat \<Rightarrow> Kvp list \<Rightarrow> bytes set" where
  "fkeys \<sigma> h es = (\<Union>e \<in> set es. ekeys \<sigma> h e)"

lemma fkeys_simps [simp]: "fkeys \<sigma> h [] = {}" "fkeys \<sigma> h (e # es) = ekeys \<sigma> h e \<union> fkeys \<sigma> h es"
  "fkeys \<sigma> h (es @ es') = fkeys \<sigma> h es \<union> fkeys \<sigma> h es'"
  by (auto simp: fkeys_def)

lemma nkeys_Suc: "nkeys \<sigma> (Suc h) n = fkeys \<sigma> h (ndvals n) \<union> kk ` set (ndmsgs n)"
proof -
  have "(\<Union>c \<in> set (kids \<sigma> es). nkeys \<sigma> h c) \<union> kk ` set es = fkeys \<sigma> h es" for es
    by (induction es) (auto simp: ekeys_def)
  from this [of "ndvals n"] show ?thesis by auto
qed

lemma before_simps [simp]:
  "before {} B" "before A {}" "before (A \<union> A') B \<longleftrightarrow> before A B \<and> before A' B" "before A (B \<union> B') \<longleftrightarrow> before A B \<and> before A B'"
  by (auto simp: before_def)

lemma before_sub: "before A B \<Longrightarrow> A' \<subseteq> A \<Longrightarrow> B' \<subseteq> B \<Longrightarrow> before A' B'"
  by (auto simp: before_def)

lemma wfkids_append [simp]:
  "wfkids \<sigma> h (es @ es') \<longleftrightarrow> wfkids \<sigma> h es \<and> wfkids \<sigma> h es' \<and> before (fkeys \<sigma> h es) (fkeys \<sigma> h es')"
  by (auto simp: wfkids_def sorted_wrt_append fkeys_def before_def)

lemma wfkids_Cons:
  "wfkids \<sigma> h (e # es) \<longleftrightarrow> wfkids \<sigma> h [e] \<and> wfkids \<sigma> h es \<and> before (ekeys \<sigma> h e) (fkeys \<sigma> h es)"
  using wfkids_append [of \<sigma> h "[e]" es] by simp

text \<open>A list of nodes, as the children a path element leaves.\<close>

definition nents :: "(u64 \<Rightarrow> Nd option) \<Rightarrow> nat \<Rightarrow> Nd list \<Rightarrow> Kvp list" where
  "nents \<sigma> h cs = concat (map (ents \<sigma> h) cs)"

definition nallm :: "(u64 \<Rightarrow> Nd option) \<Rightarrow> nat \<Rightarrow> Nd list \<Rightarrow> Msg list" where
  "nallm \<sigma> h cs = concat (map (allm \<sigma> h) cs)"

definition ckeys :: "(u64 \<Rightarrow> Nd option) \<Rightarrow> nat \<Rightarrow> Nd list \<Rightarrow> bytes set" where
  "ckeys \<sigma> h cs = (\<Union>c \<in> set cs. nkeys \<sigma> h c)"

lemma nlist_simps [simp]:
  "nents \<sigma> h [] = []" "nents \<sigma> h (c # cs) = ents \<sigma> h c @ nents \<sigma> h cs" "nents \<sigma> h (cs @ cs') = nents \<sigma> h cs @ nents \<sigma> h cs'"
  "nallm \<sigma> h [] = []" "nallm \<sigma> h (c # cs) = allm \<sigma> h c @ nallm \<sigma> h cs" "nallm \<sigma> h (cs @ cs') = nallm \<sigma> h cs @ nallm \<sigma> h cs'"
  "ckeys \<sigma> h [] = {}" "ckeys \<sigma> h (c # cs) = nkeys \<sigma> h c \<union> ckeys \<sigma> h cs" "ckeys \<sigma> h (cs @ cs') = ckeys \<sigma> h cs \<union> ckeys \<sigma> h cs'"
  by (auto simp: nents_def nallm_def ckeys_def)

lemma ents_Suc: "ents \<sigma> (Suc h) n = nents \<sigma> h (kids \<sigma> (ndvals n))"
  and allm_Suc: "allm \<sigma> (Suc h) n = nallm \<sigma> h (kids \<sigma> (ndvals n)) @ ndmsgs n"
  by (simp_all add: nents_def nallm_def)

declare ents.simps(2) [simp del] allm.simps(2) [simp del] nkeys.simps(2) [simp del]

lemma ckeys_kids: "ckeys \<sigma> h (kids \<sigma> es) \<subseteq> fkeys \<sigma> h es"
  by (induction es) (auto simp: ekeys_def split: option.splits)

text \<open>Every entry and message is under one of the keys.\<close>

lemma nlist_keys_of:
  assumes "\<And>c. kk ` set (ents \<sigma> h c) \<subseteq> nkeys \<sigma> h c \<and> kk ` set (allm \<sigma> h c) \<subseteq> nkeys \<sigma> h c"
  shows "kk ` set (nents \<sigma> h cs) \<subseteq> ckeys \<sigma> h cs \<and> kk ` set (nallm \<sigma> h cs) \<subseteq> ckeys \<sigma> h cs"
proof (induction cs)
  case (Cons c cs)
  note c = assms [of c]
  show ?case
    unfolding nlist_simps set_append image_Un
    by (intro conjI Un_mono conjunct1 [OF c] conjunct2 [OF c] conjunct1 [OF Cons.IH] conjunct2 [OF Cons.IH])
qed simp

lemma tree_keys: "kk ` set (ents \<sigma> h n) \<subseteq> nkeys \<sigma> h n \<and> kk ` set (allm \<sigma> h n) \<subseteq> nkeys \<sigma> h n"
proof (induction h arbitrary: n)
  case (Suc h)
  note c = nlist_keys_of [OF Suc.IH, of "kids \<sigma> (ndvals n)"] and s = ckeys_kids [of \<sigma> h "ndvals n"]
  show ?case
    unfolding ents_Suc allm_Suc nkeys_Suc set_append image_Un
    by (intro conjI Un_mono order_refl le_supI1 order_trans [OF conjunct1 [OF c] s] order_trans [OF conjunct2 [OF c] s])
qed simp

lemma nlist_keys: "kk ` set (nents \<sigma> h cs) \<subseteq> ckeys \<sigma> h cs" "kk ` set (nallm \<sigma> h cs) \<subseteq> ckeys \<sigma> h cs"
  using nlist_keys_of [OF tree_keys] by blast+

lemma nlist_none:
  assumes "k \<notin> ckeys \<sigma> h cs"
  shows "lk (nents \<sigma> h cs) k = None" "msgsof k (nallm \<sigma> h cs) = []"
  using assms nlist_keys [of \<sigma> h cs] by (auto intro!: lk_notin msgsof_notin)

section \<open>The store only grows\<close>

lemma kid_mono: "kid \<sigma> e = Some c \<Longrightarrow> \<sigma> \<subseteq>\<^sub>m \<sigma>' \<Longrightarrow> kid \<sigma>' e = Some c"
  by (force simp: kid_def map_le_def dom_def split: sum.splits prod.splits option.splits if_splits)

lemma tree_mono:
  assumes "\<sigma> \<subseteq>\<^sub>m \<sigma>'"
  shows "wft \<sigma> h n \<Longrightarrow> wft \<sigma>' h n \<and> ents \<sigma>' h n = ents \<sigma> h n \<and> allm \<sigma>' h n = allm \<sigma> h n \<and> nkeys \<sigma>' h n = nkeys \<sigma> h n"
proof (induction h arbitrary: n)
  case (Suc h)
  have *: "\<forall>e \<in> set es. \<exists>c. kid \<sigma> e = Some c \<and> wft \<sigma> h c \<Longrightarrow>
      kids \<sigma>' es = kids \<sigma> es \<and> (\<forall>c \<in> set (kids \<sigma> es). wft \<sigma> h c) \<and> (\<forall>e \<in> set es. ekeys \<sigma>' h e = ekeys \<sigma> h e)" for es
  proof (induction es)
    case (Cons e es)
    then obtain c where c: "kid \<sigma> e = Some c" "wft \<sigma> h c" by auto
    with kid_mono [OF c(1) assms] Suc.IH [OF c(2)] Cons show ?case by (simp add: ekeys_def)
  qed simp
  from Suc.prems have e: "\<forall>e \<in> set (ndvals n). \<exists>c. kid \<sigma> e = Some c \<and> wft \<sigma> h c" by (auto simp: wft_Suc wfkids_def)
  note k = * [OF e]
  have cs: "nents \<sigma>' h (kids \<sigma> (ndvals n)) = nents \<sigma> h (kids \<sigma> (ndvals n))" "nallm \<sigma>' h (kids \<sigma> (ndvals n)) = nallm \<sigma> h (kids \<sigma> (ndvals n))"
    using k Suc.IH by (auto simp: nents_def nallm_def intro!: arg_cong [where f = concat])
  have "wfkids \<sigma>' h (ndvals n)"
    unfolding wfkids_def
  proof
    show "sorted_wrt (\<lambda>e e'. before (ekeys \<sigma>' h e) (ekeys \<sigma>' h e')) (ndvals n)"
      using Suc.prems k by (auto simp: wft_Suc wfkids_def intro: sorted_wrt_mono_rel [rotated])
    show "\<forall>e \<in> set (ndvals n). length (kk e) \<le> Keymax \<and> (\<exists>c. kid \<sigma>' e = Some c \<and> wft \<sigma>' h c \<and> (\<forall>x \<in> nkeys \<sigma>' h c. kk e \<le> x))"
      using Suc.prems Suc.IH kid_mono [OF _ assms] unfolding wft_Suc wfkids_def by metis
  qed
  moreover have "fkeys \<sigma>' h (ndvals n) = fkeys \<sigma> h (ndvals n)" using k by (simp add: fkeys_def)
  ultimately show ?case using Suc.prems k cs by (simp add: wft_Suc ents_Suc allm_Suc nkeys_Suc)
qed simp

section \<open>New children in their parent\<close>

definition ptr :: "Nd \<Rightarrow> Kvp" where
  "ptr c = \<lparr>kk = upkey c, kv = projr (packbp (Ptrsz + 2) (ndbp c)) @ PACK16 (of_int (n_blkfill c))\<rparr>"

definition instore :: "(u64 \<Rightarrow> Nd option) \<Rightarrow> Nd \<Rightarrow> bool" where
  "instore \<sigma> c \<longleftrightarrow> \<sigma> (baddr (ndbp c)) = Some c"

definition wfnodes :: "(u64 \<Rightarrow> Nd option) \<Rightarrow> nat \<Rightarrow> Nd list \<Rightarrow> bool" where
  "wfnodes \<sigma> h cs \<longleftrightarrow> (\<forall>c \<in> set cs. wft \<sigma> h c \<and> instore \<sigma> c) \<and> sorted_wrt (\<lambda>a b. before (nkeys \<sigma> h a) (nkeys \<sigma> h b)) cs"

lemma getptr_ptr: "\<exists>fill. getptr (ptr c) = Inr (ndbp c, fill)"
  by (cases "ndbp c") (auto simp: getptr_def ptr_def packbp_def unpackbp_def)

lemma kid_ptr: "instore \<sigma> c \<Longrightarrow> kid \<sigma> (ptr c) = Some c"
  using getptr_ptr [of c] by (auto simp: kid_def instore_def)

lemma wft_least:
  assumes "wft \<sigma> h c"
  shows "upkey c \<in> nkeys \<sigma> h c" "\<forall>x \<in> nkeys \<sigma> h c. upkey c \<le> x"
proof -
  have ne: "ndvals c \<noteq> []" using assms by (cases h) (auto simp: wft_Suc)
  then obtain v vs where v: "ndvals c = v # vs" by (cases "ndvals c") auto
  show "upkey c \<in> nkeys \<sigma> h c"
  proof (cases h)
    case 0
    with assms v show ?thesis by (simp add: upkey_def)
  next
    case (Suc h')
    then show ?thesis using v by (cases "ndmsgs c") (auto simp: upkey_def Let_def nkeys_Suc ekeys_def)
  qed
  show "\<forall>x \<in> nkeys \<sigma> h c. upkey c \<le> x"
  proof (cases h)
    case 0
    with assms v show ?thesis by (auto simp: upkey_def)
  next
    case (Suc h')
    have u: "upkey c \<le> kk v" "ndmsgs c \<noteq> [] \<Longrightarrow> upkey c \<le> kk (hd (ndmsgs c))" using v by (auto simp: upkey_def Let_def)
    have w: "sorted (map kk (ndmsgs c))" "wfkids \<sigma> h' (v # vs)" using assms Suc v by (auto simp: wft_Suc)
    have "\<forall>x \<in> ekeys \<sigma> h' v. kk v \<le> x" using w(2) by (fastforce simp: wfkids_def ekeys_def)
    moreover have "\<forall>x \<in> fkeys \<sigma> h' vs. kk v < x" using w(2) wfkids_Cons [of \<sigma> h' v vs] by (auto simp: before_def ekeys_def)
    moreover have "\<forall>m \<in> set (ndmsgs c). upkey c \<le> kk m" using w(1) u(2) by (cases "ndmsgs c") auto
    ultimately show ?thesis using u(1) by (fastforce simp: Suc nkeys_Suc v)
  qed
qed

lemma wft_upkey_length:
  assumes "wft \<sigma> h c"
  shows "length (upkey c) \<le> Keymax"
proof (cases h)
  case 0
  with assms have "ndvals c \<noteq> []" "okkv (hd (ndvals c))" "ndmsgs c = []" by auto
  then show ?thesis by (simp add: upkey_def okkv_def)
next
  case (Suc h')
  with assms have "ndvals c \<noteq> []" "length (kk (hd (ndvals c))) \<le> Keymax" "ndmsgs c \<noteq> [] \<longrightarrow> okmsg (hd (ndmsgs c))"
    by (auto simp: wft_Suc wfkids_def)
  then show ?thesis by (auto simp: upkey_def Let_def okmsg_def)
qed

lemma ekeys_ptr: "wft \<sigma> h c \<Longrightarrow> instore \<sigma> c \<Longrightarrow> ekeys \<sigma> h (ptr c) = nkeys \<sigma> h c"
  using wft_least(1) [of \<sigma> h c] by (auto simp: ekeys_def kid_ptr) (auto simp: ptr_def)

lemma wfnodes_simps [simp]:
  "wfnodes \<sigma> h []"
  "wfnodes \<sigma> h (c # cs) \<longleftrightarrow> wft \<sigma> h c \<and> instore \<sigma> c \<and> wfnodes \<sigma> h cs \<and> before (nkeys \<sigma> h c) (ckeys \<sigma> h cs)"
  by (auto simp: wfnodes_def before_def ckeys_def)

lemma wfkids_ptrs:
  "wfnodes \<sigma> h cs \<Longrightarrow> wfkids \<sigma> h (map ptr cs) \<and> kids \<sigma> (map ptr cs) = cs \<and> fkeys \<sigma> h (map ptr cs) = ckeys \<sigma> h cs"
proof (induction cs)
  case (Cons c cs)
  then have c: "wft \<sigma> h c" "instore \<sigma> c" and b: "before (nkeys \<sigma> h c) (ckeys \<sigma> h cs)" by auto
  have "wfkids \<sigma> h [ptr c]" using c wft_least [OF c(1)] wft_upkey_length [OF c(1)] by (auto simp: wfkids_def kid_ptr) (auto simp: ptr_def)
  with Cons c b show ?case by (simp add: wfkids_Cons [of _ _ "ptr c" "map ptr cs"] ekeys_ptr kid_ptr)
qed simp

lemma wfkids_nodes: "wfkids \<sigma> h es \<Longrightarrow> ckeys \<sigma> h (kids \<sigma> es) \<subseteq> fkeys \<sigma> h es"
  by (rule ckeys_kids)

text \<open>Only the children that can hold a key matter for it.\<close>

lemma mean_mid:
  assumes "k \<notin> fkeys \<sigma> h V1" "k \<notin> fkeys \<sigma> h V2"
  shows "mean (nents \<sigma> h (kids \<sigma> (V1 @ W @ V2))) (nallm \<sigma> h (kids \<sigma> (V1 @ W @ V2)) @ X) k =
    bindE (mean (nents \<sigma> h (kids \<sigma> W)) (nallm \<sigma> h (kids \<sigma> W)) k) (mval k (msgsof k X))"
proof -
  have "k \<notin> ckeys \<sigma> h (kids \<sigma> V1)" "k \<notin> ckeys \<sigma> h (kids \<sigma> V2)" using assms ckeys_kids by blast+
  note n = this [THEN nlist_none(1)] this [THEN nlist_none(2)]
  show ?thesis by (simp add: mean_def n lk_append mval_append option.case_eq_if)
qed

lemma mean_none:
  assumes "k \<notin> ckeys \<sigma> h cs"
  shows "mean (nents \<sigma> h cs) (nallm \<sigma> h cs) k = Inr None"
  using nlist_none [OF assms] by (simp add: mean_def)

text \<open>
  Children \<open>cs\<close> that stand for what was under the entries \<open>W\<close>, with the messages \<open>P\<close> of the
  parent's buffer added, take their place, and the messages leave the buffer.
\<close>

lemma swap_kids:
  assumes wf: "wfkids \<sigma> h (V1 @ W @ V2)" and cs: "wfnodes \<sigma> h cs" "ckeys \<sigma> h cs \<subseteq> fkeys \<sigma> h W \<union> kk ` set P"
    and mean: "\<forall>k. mean (nents \<sigma> h cs) (nallm \<sigma> h cs) k = bindE (mean (nents \<sigma> h (kids \<sigma> W)) (nallm \<sigma> h (kids \<sigma> W)) k) (mval k (msgsof k P))"
    and P: "before (fkeys \<sigma> h V1) (kk ` set P)" "before (kk ` set P) (fkeys \<sigma> h V2)" "kk ` set A \<inter> kk ` set P = {}"
  shows "wfkids \<sigma> h (V1 @ map ptr cs @ V2)"
    and "fkeys \<sigma> h (V1 @ map ptr cs @ V2) \<subseteq> fkeys \<sigma> h (V1 @ W @ V2) \<union> kk ` set P"
    and "mean (nents \<sigma> h (kids \<sigma> (V1 @ map ptr cs @ V2))) (nallm \<sigma> h (kids \<sigma> (V1 @ map ptr cs @ V2)) @ A @ R) k =
      mean (nents \<sigma> h (kids \<sigma> (V1 @ W @ V2))) (nallm \<sigma> h (kids \<sigma> (V1 @ W @ V2)) @ A @ P @ R) k"
proof -
  note p = wfkids_ptrs [OF cs(1)]
  have b: "before (fkeys \<sigma> h V1) (fkeys \<sigma> h W)" "before (fkeys \<sigma> h V1) (fkeys \<sigma> h V2)" "before (fkeys \<sigma> h W) (fkeys \<sigma> h V2)"
    using wf by auto
  have "before (fkeys \<sigma> h V1) (ckeys \<sigma> h cs)" using b(1) P(1) cs(2) by (auto simp: before_def)
  moreover have "before (ckeys \<sigma> h cs) (fkeys \<sigma> h V2)" using b(3) P(2) cs(2) by (auto simp: before_def)
  ultimately show "wfkids \<sigma> h (V1 @ map ptr cs @ V2)" using wf p b by simp
  show "fkeys \<sigma> h (V1 @ map ptr cs @ V2) \<subseteq> fkeys \<sigma> h (V1 @ W @ V2) \<union> kk ` set P" using p cs(2) by auto
  show "mean (nents \<sigma> h (kids \<sigma> (V1 @ map ptr cs @ V2))) (nallm \<sigma> h (kids \<sigma> (V1 @ map ptr cs @ V2)) @ A @ R) k =
      mean (nents \<sigma> h (kids \<sigma> (V1 @ W @ V2))) (nallm \<sigma> h (kids \<sigma> (V1 @ W @ V2)) @ A @ P @ R) k"
  proof (cases "k \<in> fkeys \<sigma> h W \<union> kk ` set P")
    case True
    have "k \<notin> fkeys \<sigma> h V1" "k \<notin> fkeys \<sigma> h V2" using True b P by (auto simp: before_def)
    note mm = mean_mid [OF this]
    have "msgsof k A = [] \<or> msgsof k P = []" using P(3) msgsof_notin [of k A] msgsof_notin [of k P] by blast
    then have "msgsof k (A @ P @ R) = msgsof k P @ msgsof k (A @ R)" by auto
    then show ?thesis unfolding mm using p mean by (simp only: mval_append_fun bindE_assoc)
  next
    case False
    then have none: "k \<notin> ckeys \<sigma> h cs" "k \<notin> ckeys \<sigma> h (kids \<sigma> W)" "msgsof k P = []"
      using cs(2) ckeys_kids [of \<sigma> h W] by (auto intro: msgsof_notin)
    then show ?thesis using p nlist_none [OF none(1)] nlist_none [OF none(2)]
      by (simp add: mean_def lk_append option.case_eq_if)
  qed
qed

end
