(* ===== verification/Gefs_Flush.thy ===== *)
theory Gefs_Flush
  imports Gefs_Tree
begin

text \<open>
  What \<open>tree.c\<close> does to one node on the path, over the meaning of trees: each of \<open>updateleaf\<close>,
  \<open>splitleaf\<close>, \<open>updatepiv\<close>, \<open>splitpiv\<close>, \<open>merge\<close> and \<open>rotate\<close> leaves nodes that stand for the old
  one with the messages pulled.
\<close>

section \<open>Blocks\<close>

lemma enqueue_Inr:
  assumes "enqueue st n = Inr (st', n')"
  shows "bstore st \<subseteq>\<^sub>m bstore st'" "instore (bstore st') n'" "ndtype n' = ndtype n" "ndvals n' = ndvals n" "ndmsgs n' = ndmsgs n"
  using assms by (auto simp: enqueue_def Let_def res_simps instore_def map_le_def dom_def split: if_splits)

lemma newblk_Inr:
  assumes "newblk st t ty = Inr (st', n)"
  shows "bstore st' = bstore st" "ndtype n = ty" "ndvals n = []" "ndmsgs n = []"
  using assms by (auto simp: newblk_def Let_def res_simps newnd_def split: if_splits)

lemma free_store [simp]:
  "bstore (freeblk st t b) = bstore st" "bstore (freebp st t bp) = bstore st" "bstore (foldl (\<lambda>st bp. freebp st t bp) st fr) = bstore st"
proof -
  show b: "bstore (freebp st t bp) = bstore st" for st bp by (simp add: freebp_def)
  show "bstore (freeblk st t b) = bstore st" by (simp add: freeblk_def)
  show "bstore (foldl (\<lambda>st bp. freebp st t bp) st fr) = bstore st" by (induction fr arbitrary: st) (simp_all add: b)
qed

definition news :: "Nd option \<Rightarrow> Nd option \<Rightarrow> Nd list" where
  "news l r = (case l of None \<Rightarrow> [] | Some c \<Rightarrow> [c]) @ (case r of None \<Rightarrow> [] | Some c \<Rightarrow> [c])"

lemma news_simps [simp]: "news None None = []" "news (Some c) None = [c]" "news None (Some c) = [c]" "news (Some c) (Some d) = [c, d]"
  by (simp_all add: news_def)

text \<open>\<open>setb\<close>: the node goes into the store, or is dropped when it has no entries.\<close>

lemma setb_Inr:
  assumes "setb st t dst b = Inr (st', r)"
  shows "bstore st \<subseteq>\<^sub>m bstore st'"
    and "(if ndvals b = [] then r = None else \<exists>n. r = Some n \<and> instore (bstore st') n \<and> ndtype n = ndtype b \<and> ndvals n = ndvals b \<and> ndmsgs n = ndmsgs b)"
  using assms by (auto simp: setb_def Let_def res_simps dest: enqueue_Inr split: if_splits option.splits)

section \<open>Entries and messages put into a node\<close>

lemma n_setval_Inr: "n_setval n v = Inr n' \<Longrightarrow> n' = n\<lparr>ndvals := ndvals n @ [v]\<rparr>"
  by (auto simp: n_setval_def res_simps split: if_splits)

lemma n_setmsg_Inr: "n_setmsg n m = Inr n' \<Longrightarrow> n' = n\<lparr>ndmsgs := ndmsgs n @ [m]\<rparr>"
  by (auto simp: n_setmsg_def res_simps)

lemma setvals_Inr: "setvals vs n = Inr n' \<Longrightarrow> n' = n\<lparr>ndvals := ndvals n @ vs\<rparr>"
proof (induction vs arbitrary: n)
  case (Cons v vs)
  from Cons.prems obtain n1 where 1: "n_setval n v = Inr n1" "setvals vs n1 = Inr n'" by (auto simp: res_simps)
  from Cons.IH [OF 1(2)] n_setval_Inr [OF 1(1)] show ?case by simp
qed simp

lemma setmsgs_Inr: "setmsgs ms n = Inr n' \<Longrightarrow> n' = n\<lparr>ndmsgs := ndmsgs n @ ms\<rparr>"
proof (induction ms arbitrary: n)
  case (Cons m ms)
  from Cons.prems obtain n1 where 1: "n_setmsg n m = Inr n1" "setmsgs ms n1 = Inr n'" by (auto simp: res_simps)
  from Cons.IH [OF 1(2)] n_setmsg_Inr [OF 1(1)] show ?case by simp
qed simp

lemma copyup1_Inr: "copyup1 n c nb = Inr (n', nb') \<Longrightarrow> n' = n\<lparr>ndvals := ndvals n @ map ptr (news c None)\<rparr>"
  by (auto simp: copyup1_def n_setptr_def res_simps ptr_def dest!: n_setval_Inr split: option.splits)

lemma copyup_Inr:
  assumes "copyup n q nb = Inr (n', nb')"
  shows "n' = n\<lparr>ndvals := ndvals n @ map ptr (news (pnl q) (pnr q))\<rparr>"
  using assms by (auto simp: copyup_def res_simps news_def dest!: copyup1_Inr split: option.splits)

text \<open>The entries \<open>pivvals\<close> leaves: the new children in place of one or two entries.\<close>

definition width :: "Path \<Rightarrow> nat" where
  "width q = (if pop q = POrot \<or> pop q = POmerge then 2 else 1)"

lemma pivvals_copy:
  assumes "pivvals vs i midx pp n = Inr n'" "pp = None \<or> midx < i"
  shows "n' = n\<lparr>ndvals := ndvals n @ vs\<rparr>"
  using assms
proof (induction vs arbitrary: i n)
  case (Cons v vs)
  then obtain n1 where 1: "n_setval n v = Inr n1" "pivvals vs (i + 1) midx pp n1 = Inr n'"
    by (cases pp) (auto simp: res_simps)
  from Cons.IH [OF 1(2)] Cons.prems(2) n_setval_Inr [OF 1(1)] show ?case by auto
qed simp

lemma pivvals_Some:
  assumes "pivvals vs i (i + int j) (Some q) n = Inr n'" "j < length vs"
  shows "n' = n\<lparr>ndvals := ndvals n @ take j vs @ map ptr (news (pnl q) (pnr q)) @ drop (j + width q) vs\<rparr>"
  using assms
proof (induction j arbitrary: vs i n)
  case 0
  then obtain v vs' where "vs = v # vs'" by (cases vs) auto
  with 0 obtain n1 nb where 1: "copyup n q 0 = Inr (n1, nb)"
    "pivvals (drop (width q - 1) vs') (i + int (width q)) i (Some q) n1 = Inr n'"
    by (auto simp: res_simps width_def split: if_splits)
  from pivvals_copy [OF 1(2)] copyup_Inr [OF 1(1)] \<open>vs = v # vs'\<close> show ?case by (auto simp: width_def)
next
  case (Suc j)
  then obtain v vs' where vs: "vs = v # vs'" by (cases vs) auto
  from Suc.prems vs obtain n1 where n1: "n_setval n v = Inr n1" "pivvals vs' (i + 1) ((i + 1) + int j) (Some q) n1 = Inr n'"
    by (auto simp: res_simps add.assoc)
  from Suc.IH [OF n1(2)] Suc.prems(2) n_setval_Inr [OF n1(1)] show ?case by (simp add: vs)
qed

section \<open>Messages of the node and of its parent\<close>

text \<open>
  Messages \<open>new\<close> that join \<open>own\<close>, which come first under each key; \<open>before\<close> is the order of keys.
\<close>

definition joins :: "Msg list \<Rightarrow> Msg list \<Rightarrow> Msg list \<Rightarrow> bool" where
  "joins own new ms \<longleftrightarrow> sorted (map kk ms) \<and> (\<forall>k. msgsof k ms = msgsof k own @ msgsof k new) \<and> set ms = set own \<union> set new"

lemma dragmsgs_Inr:
  assumes "dragmsgs ms k full spc n pull u = Inr (ms', full', spc', n', pull', u')"
  shows "\<exists>g. ms = g @ ms' \<and> (\<forall>m \<in> set g. kk m = k) \<and> n' = n\<lparr>ndmsgs := ndmsgs n @ g\<rparr>"
  using assms
proof (induction ms arbitrary: full spc n pull u)
  case (Cons m ms)
  show ?case
  proof (cases "fst (pullmsg (m # ms) (Some k) full spc) = 0")
    case True
    then have k: "kk m = k" by (auto simp: pullmsg_def split: if_splits)
    from True Cons.prems obtain n1 full1 where n1: "n_setmsg n m = Inr n1"
      "dragmsgs ms k full1 (spc - msgsz m) n1 (pull + msgsz m) (Some m) = Inr (ms', full', spc', n', pull', u')"
      by (auto simp: res_simps split: prod.splits)
    from Cons.IH [OF n1(2)] obtain g where "ms = g @ ms'" "\<forall>m \<in> set g. kk m = k" "n' = n1\<lparr>ndmsgs := ndmsgs n1 @ g\<rparr>" by blast
    with k n_setmsg_Inr [OF n1(1)] show ?thesis by (intro exI [of _ "m # g"]) simp
  next
    case False
    with Cons.prems show ?thesis by (intro exI [of _ "[]"]) (auto split: prod.splits)
  qed
qed simp

lemma restmsgs_Inr:
  assumes "restmsgs ms full spc n pull = Inr (ms', n', pull')"
  shows "\<exists>g. ms = g @ ms' \<and> n' = n\<lparr>ndmsgs := ndmsgs n @ g\<rparr> \<and> (full \<longrightarrow> g = [])"
  using assms
proof (induction ms arbitrary: full spc n pull)
  case (Cons m ms)
  show ?case
  proof (cases "snd (pullmsg (m # ms) None full spc)")
    case False
    with Cons.prems obtain n1 where n1: "n_setmsg n m = Inr n1" "restmsgs ms False (spc - msgsz m) n1 (pull + msgsz m) = Inr (ms', n', pull')"
      by (auto simp: res_simps split: prod.splits)
    from Cons.IH [OF n1(2)] obtain g where "ms = g @ ms'" "n' = n1\<lparr>ndmsgs := ndmsgs n1 @ g\<rparr>" by blast
    moreover have "\<not> full" using False by (auto simp: pullmsg_def)
    ultimately show ?thesis using n_setmsg_Inr [OF n1(1)] by (intro exI [of _ "m # g"]) simp
  next
    case True
    with Cons.prems show ?thesis by (intro exI [of _ "[]"]) (auto split: prod.splits)
  qed
qed simp

lemma joins_group:
  assumes "joins own new ms" "\<forall>m \<in> set g. kk m = k" "\<forall>m \<in> set own. k < kk m" "\<forall>m \<in> set new. k \<le> kk m"
  shows "joins own (g @ new) (g @ ms)"
proof -
  have "msgsof k own = []" using assms(3) by (intro msgsof_notin) auto
  moreover have "msgsof k' g = []" if "k' \<noteq> k" for k' using assms(2) that by (intro msgsof_notin) auto
  ultimately have "msgsof k' g @ msgsof k' own = msgsof k' own @ msgsof k' g" for k' by (cases "k' = k") auto
  moreover have "sorted (map kk g)" using assms(2) by (induction g) auto
  ultimately show ?thesis using assms by (auto simp: joins_def sorted_append less_imp_le)
qed

lemma joins_Cons:
  assumes "joins own new ms" "\<forall>x \<in> set own \<union> set new. kk m \<le> kk x"
  shows "joins (m # own) new (m # ms)"
  using assms by (auto simp: joins_def)

lemma joins_append:
  assumes "joins own new ms" "sorted (map kk (new @ g))" "\<forall>m \<in> set own. \<forall>y \<in> set g. kk m \<le> kk y"
  shows "joins own (new @ g) (ms @ g)"
  using assms by (auto simp: joins_def sorted_append)

lemma pivmsgs_Inr:
  assumes "pivmsgs own ms full spc n pull u = Inr (ms', full', spc', n', pull')" "sorted (map kk own)" "sorted (map kk ms)"
  shows "\<exists>g x. ms = g @ ms' \<and> n' = n\<lparr>ndmsgs := ndmsgs n @ x\<rparr> \<and> joins own g x \<and> (full \<longrightarrow> g = [] \<and> full') \<and>
    (\<not> full' \<longrightarrow> (\<forall>m \<in> set own. \<forall>y \<in> set ms'. kk m \<le> kk y))"
  using assms
proof (induction own ms full spc n pull u rule: pivmsgs.induct)
  case (1 ms full spc n pull u)
  then show ?case by (intro exI [of _ "[]"]) (auto simp: joins_def)
next
  case (2 m own ms full spc n pull u)
  obtain r full1 where r: "pullmsg ms (Some (kk m)) full (spc - lastsz u) = (r, full1)" by fastforce
  show ?case
  proof (cases "r = 1")
    case True
    then have hd: "ms \<noteq> []" "\<not> full" "\<not> full1" "kk (hd ms) < kk m" using r by (auto simp: pullmsg_def split: if_splits)
    from 2(3) r True obtain e where e: "cpkvp (hd ms) Msgmax = Inr e"
      and d: "bindE (dragmsgs ms (kk e) full1 spc n pull u) (\<lambda>(ms, full, spc, n, pull, u). pivmsgs (m # own) ms full spc n pull u) = Inr (ms', full', spc', n', pull')"
      by (auto simp: res_simps)
    have ke: "kk e = kk (hd ms)" using e by (auto simp: cpkvp_def)
    from d obtain ms1 full2 spc1 n1 pull1 u1 where dr: "dragmsgs ms (kk e) full1 spc n pull u = Inr (ms1, full2, spc1, n1, pull1, u1)"
      "pivmsgs (m # own) ms1 full2 spc1 n1 pull1 u1 = Inr (ms', full', spc', n', pull')"
      by (auto simp: res_simps)
    from dragmsgs_Inr [OF dr(1)] obtain g1 where g1: "ms = g1 @ ms1" "\<forall>m \<in> set g1. kk m = kk e" "n1 = n\<lparr>ndmsgs := ndmsgs n @ g1\<rparr>" by blast
    have so: "sorted (map kk ms1)" using 2(5) g1(1) by (simp add: sorted_append)
    from 2(1) [OF r [symmetric] refl True e dr(1) refl refl refl refl refl] dr(2) 2(4) so obtain g x where
      g: "ms1 = g @ ms'" "n' = n1\<lparr>ndmsgs := ndmsgs n1 @ x\<rparr>" "joins (m # own) g x" "\<not> full' \<longrightarrow> (\<forall>m \<in> set (m # own). \<forall>y \<in> set ms'. kk m \<le> kk y)" by blast
    have "\<forall>y \<in> set ms. kk e \<le> kk y" using 2(5) hd(1) unfolding ke by (cases ms) auto
    then have "joins (m # own) (g1 @ g) (g1 @ x)"
      using 2(4) hd(4) g1 g(1) unfolding ke [symmetric] by (intro joins_group [OF g(3)]) auto
    then show ?thesis using g g1 hd by (intro exI [of _ "g1 @ g"] exI [of _ "g1 @ x"]) auto
  next
    case False
    from 2(3) r False obtain n1 where n1: "n_setmsg n m = Inr n1" "pivmsgs own ms full1 spc n1 pull u = Inr (ms', full', spc', n', pull')"
      by (auto simp: res_simps)
    have so: "sorted (map kk own)" using 2(4) by simp
    from 2(2) [OF r [symmetric] refl False n1 so 2(5)] obtain g x where
      g: "ms = g @ ms'" "n' = n1\<lparr>ndmsgs := ndmsgs n1 @ x\<rparr>" "joins own g x" "full1 \<longrightarrow> g = [] \<and> full'"
        "\<not> full' \<longrightarrow> (\<forall>m \<in> set own. \<forall>y \<in> set ms'. kk m \<le> kk y)" by blast
    have le: "\<not> full1 \<longrightarrow> (\<forall>y \<in> set ms. kk m \<le> kk y)"
    proof (cases ms)
      case (Cons y ys)
      with r False 2(5) show ?thesis by (auto simp: pullmsg_def not_less split: if_splits)
    qed simp
    then have "joins (m # own) g (m # x)" using 2(4) g by (intro joins_Cons) auto
    moreover have "full \<longrightarrow> full1" using r by (auto simp: pullmsg_def split: if_splits)
    ultimately show ?thesis using g le n_setmsg_Inr [OF n1(1)] by (intro exI [of _ g] exI [of _ "m # x"]) auto
  qed
qed

section \<open>Splitting a leaf\<close>

lemma runok_prefix: "runok vs (P @ Q) \<Longrightarrow> runok vs P"
proof -
  assume r: "runok vs (P @ Q)"
  have "\<exists>r. runkey vs P k = Inr r" if "k \<in> set (keysof vs P)" for k
  proof -
    have "k \<in> set (keysof vs (P @ Q))" using that by (auto simp: keysof_def)
    with r obtain x where "runkey vs (P @ Q) k = Inr x" unfolding runok_def by blast
    then show ?thesis by (auto simp: runkey_def mrun_append res_simps)
  qed
  then show ?thesis by (simp add: runok_def)
qed

text \<open>The loop at \<open>Copyloop\<close>, which may stop because the node is full.\<close>

lemma copyloop_Inr:
  assumes "copyloop ms v ok m False spc pull fr = Inr (ms', v', ok', m', full', pull', fr')" "\<forall>x \<in> set ms. okmsg x" "ok \<longrightarrow> okkv v"
    and "ms = grp @ rest" "\<forall>x \<in> set grp. kk x = kk v" "rest = [] \<or> kk (hd rest) \<noteq> kk v"
    and "mrun (kk v) grp (if ok then Some (kv v) else None) = Inr (s, f)"
  shows "\<exists>g g' f'. ms = g @ ms' \<and> grp = g @ g' \<and> mrun (kk v) g (if ok then Some (kv v) else None) = Inr (if ok' then Some (kv v') else None, f') \<and>
    kk v' = kk v \<and> (ok' \<longrightarrow> okkv v') \<and> (\<not> full' \<longrightarrow> g' = [])"
  using assms
proof (induction grp arbitrary: ms v ok m pull fr f)
  case Nil
  then show ?case by (cases ms) (auto split: if_splits)
next
  case (Cons x grp)
  then have ms: "ms = x # (grp @ rest)" by simp
  show ?case
  proof (cases "msgsz x \<le> spc")
    case False
    with Cons.prems ms show ?thesis by auto
  next
    case True
    have x: "okmsg x" "kk x = kk v" using Cons.prems ms by auto
    from Cons.prems(7) obtain s1 f1 f2 where 1: "mstep (kk v) x (if ok then Some (kv v) else None) = Inr (s1, f1)" "mrun (kk v) grp s1 = Inr (s, f2)"
      by (auto simp: res_simps)
    from copy_step [OF 1(1) x Cons.prems(3)] obtain v1 where v1: "(if ok then dropptr v x else Inr []) = Inr f1"
      "apply_msg v x Msgmax = Inr (s1 \<noteq> None, v1)" "(if s1 \<noteq> None then Some (kv v1) else None) = s1" "kk v1 = kk v" "s1 \<noteq> None \<longrightarrow> okkv v1" by blast
    have cl: "copyloop (grp @ rest) v1 (s1 \<noteq> None) (Some x) False spc (pull + msgsz x) (fr @ f1) = Inr (ms', v', ok', m', full', pull', fr')"
      using Cons.prems(1) ms True x(2) v1(1,2) by simp
    have pre: "\<forall>x \<in> set (grp @ rest). okmsg x" "\<forall>x \<in> set grp. kk x = kk v1" "rest = [] \<or> kk (hd rest) \<noteq> kk v1"
      "mrun (kk v1) grp (if s1 \<noteq> None then Some (kv v1) else None) = Inr (s, f2)"
      using Cons.prems ms v1(3,4) 1(2) by simp_all
    from Cons.IH [OF cl pre(1) v1(5) refl pre(2-4)] obtain g g' f' where
      "grp @ rest = g @ ms'" "grp = g @ g'" "mrun (kk v) g s1 = Inr (if ok' then Some (kv v') else None, f')" "kk v' = kk v" "ok' \<longrightarrow> okkv v'" "\<not> full' \<longrightarrow> g' = []"
      unfolding v1(3,4) by blast
    with 1(1) ms show ?thesis by (intro exI [of _ "x # g"] exI [of _ g'] exI [of _ "f1 @ f'"]) auto
  qed
qed

definition halves :: "Nd \<times> Nd \<Rightarrow> Kvp list" where
  "halves d = ndvals (fst d) @ ndvals (snd d)"

text \<open>The two halves keep their shape but for the entries.\<close>

definition sameshape :: "Nd \<times> Nd \<Rightarrow> Nd \<times> Nd \<Rightarrow> bool" where
  "sameshape d d' \<longleftrightarrow> ndtype (fst d') = ndtype (fst d) \<and> ndtype (snd d') = ndtype (snd d) \<and>
     ndmsgs (fst d') = ndmsgs (fst d) \<and> ndmsgs (snd d') = ndmsgs (snd d)"

lemma sameshape_refl [simp]: "sameshape d d"
  by (simp add: sameshape_def)

lemma sameshape_trans: "sameshape a b \<Longrightarrow> sameshape b c \<Longrightarrow> sameshape a c"
  by (simp add: sameshape_def)

lemma halfval_Inr:
  assumes "halfval onr d v = Inr d'" "\<not> onr \<longrightarrow> ndvals (snd d) = []"
  shows "halves d' = halves d @ [v] \<and> sameshape d d' \<and> (\<not> onr \<longrightarrow> ndvals (snd d') = [])"
  using assms by (cases d; cases onr)
    (auto simp: halfval_def halves_def sameshape_def res_simps dest!: n_setval_Inr)

lemma splleaf_full:
  assumes "splleaf vs ms i nv hs onr cp spc True d pull fr = Inr (l, r, ms', pull', fr')" "\<not> onr \<longrightarrow> ndvals (snd d) = []"
  shows "ms' = ms \<and> halves (l, r) = halves d @ vs \<and> sameshape d (l, r)"
  using assms
proof (induction vs arbitrary: i onr cp spc d)
  case (Cons v vs)
  from Cons.prems(1) obtain onr1 cp1 spc1 d1 where 1: "halfval onr1 d v = Inr d1" "onr \<longrightarrow> onr1"
    "splleaf vs ms (i + 1) nv hs onr1 cp1 spc1 True d1 pull fr = Inr (l, r, ms', pull', fr')"
    by (auto simp: splleaf.simps(2) pullmsg_def Let_def res_simps)
  have "\<not> onr1 \<longrightarrow> ndvals (snd d) = []" using Cons.prems(2) 1(2) by auto
  note h = halfval_Inr [OF 1(1) this]
  from Cons.IH [OF 1(3)] h sameshape_trans [of d d1 "(l, r)"] show ?case by auto
qed (auto simp: halves_def)

lemma runvals_Nil: "sorted_wrt (<) (map kk vs) \<Longrightarrow> runvals vs [] = vs \<and> runok vs []"
proof (induction vs)
  case Nil
  show ?case by (simp add: runvals_def runok_def keysof_def)
next
  case (Cons v vs)
  have "runok (v # vs) []" by (auto simp: runok_def runkey_def)
  with run_round [of "[]" "[]" "[]" "kk v" "v # vs" vs "Some (kv v)"] Cons show ?case by auto
qed

text \<open>One round for the key \<open>k\<close> of \<open>splitleaf\<close>, seen from what the rest of the loop pulls.\<close>

lemma spl_round:
  assumes "runok vs (grp @ P)" "\<forall>x \<in> set grp. kk x = k" "\<And>k'. k' \<noteq> k \<Longrightarrow> lk vs k' = lk vs' k'"
    and "\<forall>x \<in> kk ` set vs' \<union> kk ` set P. k < x" "kk ` set vs \<union> kk ` set grp = insert k (kk ` set vs')"
    and "mrun k grp (lk vs k) = Inr (s, f)" "h' = h @ entry k s" "h'' = h' @ runvals vs' P"
  shows "h'' = h @ runvals vs (grp @ P)"
proof -
  have "kk ` set vs \<union> kk ` set (grp @ P) = insert k (kk ` set vs' \<union> kk ` set P)" using assms(5) by auto
  from run_round [OF refl assms(2,3) refl assms(4) this assms(1)] assms(6-) show ?thesis by auto
qed

text \<open>The statement about the loop of \<open>splitleaf\<close>, for the induction.\<close>

definition splits :: "Kvp list \<Rightarrow> Msg list \<Rightarrow> Nd \<times> Nd \<Rightarrow> Nd \<times> Nd \<Rightarrow> Msg list \<Rightarrow> Msg list \<Rightarrow> bool" where
  "splits vs ms d d' ms' P \<longleftrightarrow> ms = P @ ms' \<and> halves d' = halves d @ runvals vs P \<and> runok vs P \<and> sameshape d d'"

lemma splits_rest:
  assumes "splleaf vs ms i nv hs onr cp spc full d pull fr = Inr (l, r, ms', pull', fr')" "leafargs vs ms" "\<not> onr \<longrightarrow> ndvals (snd d) = []"
    and "\<not> full \<Longrightarrow> \<exists>P. splits vs ms d (l, r) ms' P"
  shows "\<exists>P. splits vs ms d (l, r) ms' P \<and> (full \<longrightarrow> P = [])"
proof (cases full)
  case True
  with splleaf_full [of vs ms] assms(1,3) have "ms' = ms \<and> halves (l, r) = halves d @ vs \<and> sameshape d (l, r)" by metis
  then have "splits vs ms d (l, r) ms' []" using runvals_Nil [of vs] assms(2) by (simp add: splits_def leafargs_def)
  then show ?thesis by blast
qed (use assms(4) in blast)

text \<open>
  What both cases of a message share: the message \<open>x\<close> has been applied to \<open>s0\<close>, the entry
  \<open>e\<close> carries the result, and the rest of its group follows at \<open>Copyloop\<close>.
\<close>

lemma splits_group:
  assumes arg: "leafargs vs ms" "runok vs ms" and ms: "ms = x # ms1" "kk x = k"
    and vs': "vs' = filter (\<lambda>v. kk v \<noteq> k) vs" "\<forall>y \<in> kk ` set vs'. k < y" "kk ` set vs \<subseteq> insert k (kk ` set vs')" "\<And>k'. k' \<noteq> k \<Longrightarrow> lk vs k' = lk vs' k'"
    and e: "mstep k x (lk vs k) = Inr (if ok then Some (kv e) else None, f)" "kk e = k" "ok \<longrightarrow> okkv e"
    and cl: "copyloop ms1 e ok m False spc pull fr = Inr (ms2, e', ok', m', full', pull', fr')"
    and hv: "(if ok' then halfval onr d e' else Inr d) = Inr d1" "\<not> onr \<longrightarrow> ndvals (snd d) = []"
    and rec: "\<not> full' \<Longrightarrow> leafargs vs' ms2 \<Longrightarrow> runok vs' ms2 \<Longrightarrow> \<exists>P. splits vs' ms2 d1 (l, r) ms' P"
    and sp: "splleaf vs' ms2 i nv hs onr cp spc1 full' d1 pull' fr' = Inr (l, r, ms', pull'', fr'')"
  shows "\<exists>P. splits vs ms d (l, r) ms' P"
proof -
  define g0 where "g0 = takeWhile (\<lambda>m. kk m = k) ms1"
  define rest where "rest = dropWhile (\<lambda>m. kk m = k) ms1"
  have so: "sorted (map kk ms1)" "\<forall>y \<in> set ms1. k \<le> kk y" using arg(1) ms by (auto simp: leafargs_def)
  have ms1: "ms1 = g0 @ rest" and g0: "\<forall>y \<in> set g0. kk y = k" and rest: "\<forall>y \<in> set rest. k < kk y"
    using takeWhile_key [OF so(1), of k] so(2) by (auto simp: g0_def rest_def)
  have keys: "kk ` set vs \<union> kk ` set (x # g0 @ y) = insert k (kk ` set vs' \<union> kk ` set y)" for y
    using vs'(1,3) g0 ms(2) by (auto simp: image_iff)
  have "\<exists>s' f'. mrun k (x # g0) (lk vs k) = Inr (s', f') \<and> runvals vs ms = entry k s' @ runvals vs' rest \<and>
      runfrees vs ms = f' @ runfrees vs' rest \<and> runok vs' rest"
    by (rule run_round) (use ms ms1 g0 vs' rest arg(2) keys [of rest] in auto)
  then obtain s1 f1 where g: "mrun k (x # g0) (lk vs k) = Inr (s1, f1)" and ok: "runok vs' rest" by blast
  from g e(1) obtain f2 where g': "mrun (kk e) g0 (if ok then Some (kv e) else None) = Inr (s1, f2)"
    unfolding e(2) by (auto simp: res_simps)
  have hr: "rest = [] \<or> kk (hd rest) \<noteq> kk e" using rest e(2) by (cases rest) auto
  have okm: "\<forall>y \<in> set ms1. okmsg y" using arg(1) ms(1) by (simp add: leafargs_def)
  have g0e: "\<forall>y \<in> set g0. kk y = kk e" using g0 e(2) by simp
  from copyloop_Inr [OF cl okm e(3) ms1 g0e hr g'] obtain gg gg' f3 where
    c: "ms1 = gg @ ms2" "g0 = gg @ gg'" "mrun k gg (if ok then Some (kv e) else None) = Inr (if ok' then Some (kv e') else None, f3)"
      "kk e' = k" "\<not> full' \<longrightarrow> gg' = []" unfolding e(2) by blast
  have d1: "halves d1 = halves d @ entry k (if ok' then Some (kv e') else None)" "sameshape d d1" "\<not> onr \<longrightarrow> ndvals (snd d1) = []"
  proof (atomize (full), cases ok')
    case True
    have "\<lparr>kk = k, kv = kv e'\<rparr> = e'" using c(4) by auto
    with True hv halfval_Inr [of onr d e' d1] show "halves d1 = halves d @ entry k (if ok' then Some (kv e') else None) \<and> sameshape d d1 \<and> (\<not> onr \<longrightarrow> ndvals (snd d1) = [])"
      by simp
  qed (use hv in auto)
  have la: "leafargs vs' ms2" using arg(1) ms(1) c(1) vs'(1) by (auto simp: leafargs_def sorted_append sorted_wrt_filter sorted_wrt_map)
  have ms2: "\<not> full' \<Longrightarrow> ms2 = rest" using c ms1 by simp
  from splits_rest [OF sp la d1(3)] rec [OF _ la] ok ms2 obtain P where P: "splits vs' ms2 d1 (l, r) ms' P" "full' \<longrightarrow> P = []" by blast
  have run: "mrun k (x # gg) (lk vs k) = Inr (if ok' then Some (kv e') else None, f @ f3)" using e(1) c(3) by simp
  have gtP: "\<forall>y \<in> kk ` set vs' \<union> kk ` set P. k < y"
    using vs'(2) P rest ms2 by (cases full') (auto simp: splits_def)
  have msP: "ms = (x # gg @ P) @ ms'" using ms(1) c(1) P(1) by (simp add: splits_def)
  have okP: "runok vs ((x # gg) @ P)" using arg(2) runok_prefix [of vs "x # gg @ P" ms'] msP by simp
  have "halves (l, r) = halves d @ runvals vs ((x # gg) @ P)"
    by (rule spl_round [OF okP _ vs'(4) gtP _ run d1(1)])
      (use g0 c(2) ms(2) vs'(1,3) P(1) in \<open>auto simp: splits_def image_iff\<close>)
  then show ?thesis using msP okP d1(2) P(1) sameshape_trans by (intro exI [of _ "x # gg @ P"]) (auto simp: splits_def)
qed

lemma newentry_Inr:
  assumes "newentry m spc pull = Inr (e, ok, spc', pull')" "okmsg m"
  shows "mstep (kk m) m None = Inr (if ok then Some (kv e) else None, []) \<and> kk e = kk m \<and> (ok \<longrightarrow> okkv e)"
  using assms by (auto simp: newentry_def mstep_def cpkvp_def okmsg_def okkv_def res_simps split: if_splits)

lemma lk_Cons_other: "k' \<noteq> kk v \<Longrightarrow> lk (v # vs) k' = lk vs k'"
  by simp

lemma splleaf_step:
  assumes "onr1 = (onr \<or> i = nv - 2 \<or> i \<ge> 2 \<and> cp \<ge> hs)"
    and "spc1 = (if \<not> onr \<and> (i = nv - 2 \<or> i \<ge> 2 \<and> cp \<ge> hs) then int Leafspc - (hs + int Msgmax) else spc)"
    and "pullmsg ms (Some (kk v)) full spc1 = (c, full1)"
  shows "c = -1 \<Longrightarrow> splleaf (v # vs) ms i nv hs onr cp spc full d pull fr =
      bindE (halfval onr1 d v) (\<lambda>d. splleaf vs ms (i + 1) nv hs onr1 (cp + valsz_kv v) spc1 full1 d pull fr)"
    and "c = 0 \<Longrightarrow> splleaf (v # vs) ms i nv hs onr cp spc full d pull fr =
      bindE (cpkvp v Msgmax) (\<lambda>e.
        bindE (dropptr e (hd ms)) (\<lambda>f.
        bindE (apply_msg e (hd ms) Msgmax) (\<lambda>(ok, e').
        bindE (copyloop (tl ms) e' ok None full1 spc1 pull (fr @ f)) (\<lambda>(ms', e', ok, _, full, pull, fr).
        bindE (if ok then halfval onr1 d e' else Inr d) (\<lambda>d.
        splleaf vs ms' (i + 1) nv hs onr1 (cp + valsz_kv e) spc1 full d pull fr)))))"
    and "c \<noteq> -1 \<Longrightarrow> c \<noteq> 0 \<Longrightarrow> splleaf (v # vs) ms i nv hs onr cp spc full d pull fr =
      bindE (newentry (hd ms) spc1 pull) (\<lambda>(e, ok, spc, pull).
        bindE (copyloop (tl ms) e ok None full1 spc pull fr) (\<lambda>(ms', e', ok, _, full, pull, fr).
        bindE (if ok then halfval onr1 d e' else Inr d) (\<lambda>d.
        splleaf (v # vs) ms' i nv hs onr1 (cp + valsz_kv e) spc full d pull fr)))"
proof -
  have o: "(onr \<or> \<not> onr \<and> (i = nv - 2 \<or> i \<ge> 2 \<and> cp \<ge> hs)) = onr1" using assms(1) by auto
  note s = o assms(2) [symmetric] assms(3) Let_def prod.case
  show "c = -1 \<Longrightarrow> splleaf (v # vs) ms i nv hs onr cp spc full d pull fr =
      bindE (halfval onr1 d v) (\<lambda>d. splleaf vs ms (i + 1) nv hs onr1 (cp + valsz_kv v) spc1 full1 d pull fr)"
    by (subst splleaf.simps(2)) (simp only: s simp_thms if_True)
  show "c = 0 \<Longrightarrow> splleaf (v # vs) ms i nv hs onr cp spc full d pull fr =
      bindE (cpkvp v Msgmax) (\<lambda>e.
        bindE (dropptr e (hd ms)) (\<lambda>f.
        bindE (apply_msg e (hd ms) Msgmax) (\<lambda>(ok, e').
        bindE (copyloop (tl ms) e' ok None full1 spc1 pull (fr @ f)) (\<lambda>(ms', e', ok, _, full, pull, fr).
        bindE (if ok then halfval onr1 d e' else Inr d) (\<lambda>d.
        splleaf vs ms' (i + 1) nv hs onr1 (cp + valsz_kv e) spc1 full d pull fr)))))"
    by (subst splleaf.simps(2)) (simp only: s, simp)
  show "c \<noteq> -1 \<Longrightarrow> c \<noteq> 0 \<Longrightarrow> splleaf (v # vs) ms i nv hs onr cp spc full d pull fr =
      bindE (newentry (hd ms) spc1 pull) (\<lambda>(e, ok, spc, pull).
        bindE (copyloop (tl ms) e ok None full1 spc pull fr) (\<lambda>(ms', e', ok, _, full, pull, fr).
        bindE (if ok then halfval onr1 d e' else Inr d) (\<lambda>d.
        splleaf (v # vs) ms' i nv hs onr1 (cp + valsz_kv e) spc full d pull fr)))"
    by (subst splleaf.simps(2)) (simp only: s, simp)
qed

lemma splleaf_Inr:
  assumes "splleaf vs ms i nv hs onr cp spc False d pull fr = Inr (l, r, ms', pull', fr')"
    and "leafargs vs ms" "runok vs ms" "\<not> onr \<longrightarrow> ndvals (snd d) = []"
  shows "\<exists>P. splits vs ms d (l, r) ms' P"
  using assms
proof (induction "length vs + length ms" arbitrary: vs ms i onr cp spc d pull fr rule: less_induct)
  case less
  note IH = less.hyps and arg = less.prems(2) and ok = less.prems(3)
  show ?case
  proof (cases vs)
    case Nil
    with less.prems show ?thesis by (intro exI [of _ "[]"]) (auto simp: splits_def halves_def runvals_Nil sameshape_def)
  next
    case (Cons v vs1)
    define onr1 where "onr1 = (onr \<or> i = nv - 2 \<or> i \<ge> 2 \<and> cp \<ge> hs)"
    define spc1 where "spc1 = (if \<not> onr \<and> (i = nv - 2 \<or> i \<ge> 2 \<and> cp \<ge> hs) then int Leafspc - (hs + int Msgmax) else spc)"
    obtain c full1 where pm: "pullmsg ms (Some (kk v)) False spc1 = (c, full1)" by fastforce
    have e1: "\<not> onr1 \<longrightarrow> ndvals (snd d) = []" using less.prems(4) by (simp add: onr1_def)
    have v: "okkv v" "sorted_wrt (<) (map kk vs1)" "\<forall>y \<in> kk ` set vs1. kk v < y" using arg Cons by (auto simp: leafargs_def)
    note step = splleaf_step [OF onr1_def spc1_def pm] and run = less.prems(1) [unfolded Cons]
    consider (skip) "c = -1" | (both) "c = 0" | (new) "c \<noteq> -1" "c \<noteq> 0" by blast
    then show ?thesis
    proof cases
      case skip
      with run step(1) obtain d1 where d1: "halfval onr1 d v = Inr d1"
        "splleaf vs1 ms (i + 1) nv hs onr1 (cp + valsz_kv v) spc1 full1 d1 pull fr = Inr (l, r, ms', pull', fr')"
        by (auto simp: res_simps)
      note h = halfval_Inr [OF d1(1) e1]
      have la: "leafargs vs1 ms" using arg Cons by (simp add: leafargs_def)
      have gt: "\<not> full1 \<Longrightarrow> \<forall>y \<in> set ms. kk v < kk y"
        using pm skip arg by (cases ms) (auto simp: pullmsg_def leafargs_def keycmp_order split: if_splits)
      have "\<exists>P. splits vs1 ms d1 (l, r) ms' P" if nf: "\<not> full1"
      proof -
        have "runok vs1 ms"
          using run_round [of ms "[]" ms "kk v" vs vs1 "Some (kv v)"] gt [OF nf] v(3) ok Cons by auto
        from IH [OF _ _ la this] d1(2) nf h Cons show ?thesis by auto
      qed
      from splits_rest [OF d1(2) la _ this] h obtain P where P: "splits vs1 ms d1 (l, r) ms' P" "full1 \<longrightarrow> P = []" by blast
      have gtP: "\<forall>y \<in> kk ` set vs1 \<union> kk ` set P. kk v < y" using v(3) gt P by (cases full1) (auto simp: splits_def)
      have okP: "runok vs ([] @ P)" using ok P(1) runok_prefix by (auto simp: splits_def)
      have h1: "halves d1 = halves d @ entry (kk v) (Some (kv v))" using h by simp
      have h2: "halves (l, r) = halves d1 @ runvals vs1 P" using P(1) by (simp add: splits_def)
      have "halves (l, r) = halves d @ runvals vs ([] @ P)"
        by (rule spl_round [OF okP _ _ gtP _ _ h1 h2]) (auto simp: Cons)
      with P(1) okP h sameshape_trans [of d d1 "(l, r)"] show ?thesis by (intro exI [of _ P]) (auto simp: splits_def)
    next
      case both
      then obtain x ms1 where ms: "ms = x # ms1" "kk x = kk v" "\<not> full1" using pm by (cases ms) (auto simp: pullmsg_def split: if_splits)
      have cp: "cpkvp v Msgmax = Inr v" using v(1) by (auto simp: cpkvp_def okkv_def)
      from run step(2) [OF both] ms cp obtain f ok1 e ms2 e' ok' m' full' pull1 fr1 d1 where
        1: "dropptr v x = Inr f" "apply_msg v x Msgmax = Inr (ok1, e)"
          "copyloop ms1 e ok1 None False spc1 pull (fr @ f) = Inr (ms2, e', ok', m', full', pull1, fr1)"
          "(if ok' then halfval onr1 d e' else Inr d) = Inr d1"
          "splleaf vs1 ms2 (i + 1) nv hs onr1 (cp + valsz_kv v) spc1 full' d1 pull1 fr1 = Inr (l, r, ms', pull', fr')"
        by (auto simp: res_simps)
      have st: "mstep (kk v) x (lk vs (kk v)) = Inr (if ok1 then Some (kv e) else None, f)"
        using 1(1,2) Cons by (simp add: mstep_def kvp_eta)
      have e: "kk e = kk v" "ok1 \<longrightarrow> okkv e" using apply_msg_entry [OF v(1) _ ms(2) 1(2)] arg ms(1) by (auto simp: leafargs_def)
      have vs1: "vs1 = filter (\<lambda>y. kk y \<noteq> kk v) vs" using v(3) Cons by (auto simp: filter_id_conv intro!: filter_True [symmetric])
      show ?thesis
      proof (rule splits_group [OF arg ok ms(1,2) vs1 v(3) _ _ st e 1(3,4) e1 _ 1(5)])
        show "kk ` set vs \<subseteq> insert (kk v) (kk ` set vs1)" using Cons by auto
        show "lk vs k' = lk vs1 k'" if "k' \<noteq> kk v" for k' using that Cons by simp
        show "\<exists>P. splits vs1 ms2 d1 (l, r) ms' P" if "\<not> full'" "leafargs vs1 ms2" "runok vs1 ms2"
          using IH [OF _ _ that(2,3)] 1(4,5) that(1) e1 Cons ms(1) copyloop_length [OF 1(3)] halfval_Inr [of onr1 d e' d1] by (auto split: if_splits)
      qed
    next
      case new
      then obtain x ms1 where ms: "ms = x # ms1" "kk x < kk v" "\<not> full1" using pm by (cases ms) (auto simp: pullmsg_def keycmp_order split: if_splits)
      from run step(3) [OF new] ms obtain e ok1 spc2 pull0 ms2 e' ok' m' full' pull1 fr1 d1 where
        1: "newentry x spc1 pull = Inr (e, ok1, spc2, pull0)"
          "copyloop ms1 e ok1 None False spc2 pull0 fr = Inr (ms2, e', ok', m', full', pull1, fr1)"
          "(if ok' then halfval onr1 d e' else Inr d) = Inr d1"
          "splleaf vs ms2 i nv hs onr1 (cp + valsz_kv e) spc2 full' d1 pull1 fr1 = Inr (l, r, ms', pull', fr')"
        using Cons by (auto simp: res_simps)
      have gt: "\<forall>y \<in> kk ` set vs. kk x < y" using v(3) ms(2) Cons by auto
      have nk: "lk vs (kk x) = None" using gt by (intro lk_notin) auto
      have "okmsg x" using arg ms(1) by (simp add: leafargs_def)
      note ne = newentry_Inr [OF 1(1) this]
      have st: "mstep (kk x) x (lk vs (kk x)) = Inr (if ok1 then Some (kv e) else None, [])" using ne nk by simp
      have e: "kk e = kk x" "ok1 \<longrightarrow> okkv e" using ne by auto
      have vs1: "vs = filter (\<lambda>y. kk y \<noteq> kk x) vs" using gt by (auto intro!: filter_True [symmetric])
      show ?thesis
      proof (rule splits_group [OF arg ok ms(1) refl vs1 gt _ _ st e 1(2,3) e1 _ 1(4)])
        show "kk ` set vs \<subseteq> insert (kk x) (kk ` set vs)" by auto
        show "lk vs k' = lk vs k'" for k' ..
        show "\<exists>P. splits vs ms2 d1 (l, r) ms' P" if "\<not> full'" "leafargs vs ms2" "runok vs ms2"
          using IH [OF _ _ that(2,3)] 1(3,4) that(1) e1 ms(1) copyloop_length [OF 1(2)] halfval_Inr [of onr1 d e' d1] by (auto split: if_splits)
      qed
    qed
  qed
qed

section \<open>New nodes that stand for an old one\<close>

text \<open>
  \<open>stands \<sigma> h b P cs\<close>: the nodes \<open>cs\<close> stand for the node \<open>b\<close> of height \<open>h\<close> with the messages \<open>P\<close> added.
\<close>

definition stands :: "(u64 \<Rightarrow> Nd option) \<Rightarrow> nat \<Rightarrow> Nd \<Rightarrow> Msg list \<Rightarrow> Nd list \<Rightarrow> bool" where
  "stands \<sigma> h b P cs \<longleftrightarrow> wfnodes \<sigma> h cs \<and> ckeys \<sigma> h cs \<subseteq> nkeys \<sigma> h b \<union> kk ` set P \<and>
     (\<forall>k. mean (nents \<sigma> h cs) (nallm \<sigma> h cs) k = bindE (mean (ents \<sigma> h b) (allm \<sigma> h b) k) (mval k (msgsof k P)))"

lemma lk_mem: "sorted_wrt (<) (map kk xs) \<Longrightarrow> v \<in> set xs \<Longrightarrow> lk xs (kk v) = Some (kv v)"
  by (induction xs) auto

lemma runvals_props:
  assumes "leafargs vs P" "runok vs P"
  shows "sorted_wrt (<) (map kk (runvals vs P))" "kk ` set (runvals vs P) \<subseteq> kk ` set vs \<union> kk ` set P"
    and "\<forall>v \<in> set (runvals vs P). okkv v" "mval k (msgsof k P) (lk vs k) = Inr (lk (runvals vs P) k)"
proof -
  have ks: "sorted_wrt (<) (keysof vs P)" "set (keysof vs P) = kk ` set vs \<union> kk ` set P" by (simp_all add: keysof_def)
  show "sorted_wrt (<) (map kk (runvals vs P))" unfolding runvals_def by (rule sorted_concat [OF ks(1)])
  show "kk ` set (runvals vs P) \<subseteq> kk ` set vs \<union> kk ` set P"
    unfolding runvals_def ks(2) [symmetric] by (rule concat_entries_keys)
  have ok: "\<exists>f. runkey vs P k = Inr (lk (runvals vs P) k, f)" for k
  proof (cases "k \<in> set (keysof vs P)")
    case True
    then have "\<exists>r. runkey vs P k = Inr r" using assms(2) unfolding runok_def by blast
    then show ?thesis using True by (auto simp: runvals_def lk_concat [OF ks(1)])
  next
    case False
    then have "lk vs k = None" "filter (\<lambda>m. kk m = k) P = []" unfolding ks(2) by (auto intro: lk_notin simp: filter_empty_conv)
    then show ?thesis using False by (simp add: runvals_def lk_concat [OF ks(1)] runkey_def)
  qed
  from ok [of k] show "mval k (msgsof k P) (lk vs k) = Inr (lk (runvals vs P) k)" by (auto simp: mval_def msgsof_def runkey_def)
  show "\<forall>v \<in> set (runvals vs P). okkv v"
  proof
    fix v assume v: "v \<in> set (runvals vs P)"
    have vk: "okst k (lk vs k)" for k using assms(1)
      by (induction vs) (auto simp: leafargs_def okst_def kvp_eta)
    have "okst (kk v) (lk (runvals vs P) (kk v))"
      using mrun_ok [OF vk, of "filter (\<lambda>m. kk m = kk v) P" "kk v"] ok [of "kk v"] assms(1) by (auto simp: runkey_def leafargs_def)
    moreover have "lk (runvals vs P) (kk v) = Some (kv v)"
      using lk_mem [OF _ v] sorted_concat [OF ks(1), of "\<lambda>k. fst (projr (runkey vs P k))"] by (simp add: runvals_def)
    ultimately show "okkv v" by (simp add: okst_def kvp_eta)
  qed
qed

lemma leaf_stands:
  assumes b: "wft \<sigma> 0 b" and P: "leafargs (ndvals b) P" "runok (ndvals b) P"
    and cs: "\<forall>c \<in> set cs. ndtype c = Tleaf \<and> ndmsgs c = [] \<and> ndvals c \<noteq> [] \<and> instore \<sigma> c" "concat (map ndvals cs) = runvals (ndvals b) P"
  shows "stands \<sigma> 0 b P cs"
proof -
  note r = runvals_props [OF P]
  have wf: "wfnodes \<sigma> 0 cs" if "\<forall>c \<in> set cs. ndtype c = Tleaf \<and> ndmsgs c = [] \<and> ndvals c \<noteq> [] \<and> instore \<sigma> c"
    "sorted_wrt (<) (map kk (concat (map ndvals cs)))" "\<forall>v \<in> set (concat (map ndvals cs)). okkv v" for cs
    using that by (induction cs) (auto simp: sorted_wrt_append before_def ckeys_def)
  have e: "nents \<sigma> 0 cs = runvals (ndvals b) P" "nallm \<sigma> 0 cs = []" "ckeys \<sigma> 0 cs = kk ` set (runvals (ndvals b) P)"
    unfolding cs(2) [symmetric] by (induction cs) (auto simp: image_Un)
  show ?thesis
    unfolding stands_def using wf [OF cs(1)] r e by (simp add: cs(2) mean_def)
qed

lemma leafargs_prefix: "leafargs vs (P @ Q) \<Longrightarrow> leafargs vs P"
  by (auto simp: leafargs_def sorted_append)

lemma updateleaf_stands:
  assumes u: "updateleaf st t pup p = Inr (st', p')" and b: "pb p = Some b" "wft (bstore st) 0 b"
    and ms: "pending pup = Inr ms" "leafargs (ndvals b) ms" "runok (ndvals b) ms" "valspace (ndvals b) + 2 + msgspace ms \<le> int Leafspc"
  shows "bstore st \<subseteq>\<^sub>m bstore st' \<and> (\<exists>nl pull. p' = p\<lparr>pullsz := pull, npull := int (length ms), pop := POmod, pnl := nl\<rparr> \<and>
    stands (bstore st') 0 b ms (news nl None))"
proof -
  from u b(1) ms(1) obtain st1 n n1 pull fr st2 nl where
    1: "newblk st t (ndtype b) = Inr (st1, n)"
      "updleaf (ndvals b) ms None False (int Leafspc - n_blkfill b) n (pullsz p) [] = Inr (n1, pull, fr)"
      "setb (foldl (\<lambda>st bp. freebp st t bp) st1 fr) t (pnl p) n1 = Inr (st', nl)"
      "p' = p\<lparr>pullsz := pull, npull := int (length ms), pop := POmod, pnl := nl\<rparr>"
    by (auto simp: updateleaf_def Let_def res_simps)
  have leaf: "ndtype b = Tleaf" "ndmsgs b = []" "ndvals b \<noteq> []" using b(2) by auto
  note nb = newblk_Inr [OF 1(1)]
  have "n1 = n\<lparr>ndvals := runvals (ndvals b) ms\<rparr>"
    using updleaf_run [OF ms(2,3), of "int Leafspc - n_blkfill b" n None "pullsz p" "[]"] leaf nb ms(4) 1(2) by (auto simp: n_blkfill_def)
  note s = setb_Inr [OF 1(3)]
  have le: "bstore st \<subseteq>\<^sub>m bstore st'" using s(1) nb(1) by simp
  have "stands (bstore st') 0 b ms (news nl None)"
    by (rule leaf_stands [OF _ ms(2,3)])
      (use s(2) \<open>n1 = _\<close> nb leaf tree_mono [OF le b(2)] in \<open>auto split: if_splits\<close>)
  with 1(4) le show ?thesis by blast
qed

lemma splitleaf_stands:
  assumes u: "splitleaf st t pup p = Inr (st', p')" and b: "pb p = Some b" "wft (bstore st) 0 b"
    and ms: "pending pup = Inr ms" "leafargs (ndvals b) ms" "runok (ndvals b) ms"
  shows "bstore st \<subseteq>\<^sub>m bstore st' \<and> (\<exists>nl nr pull P Q. ms = P @ Q \<and>
    p' = p\<lparr>pullsz := pull, npull := int (length P), pop := POsplit, pnl := nl, pnr := nr\<rparr> \<and> stands (bstore st') 0 b P (news nl nr))"
proof -
  from u b(1) ms(1) obtain st1 l0 st2 r0 hs l r Q pull fr st3 nl nr where
    1: "newblk st t (ndtype b) = Inr (st1, l0)" "newblk st1 t (ndtype b) = Inr (st2, r0)"
      "splleaf (ndvals b) ms 0 (int (length (ndvals b))) hs False 0 (int Leafspc - (hs + int Msgmax)) False (l0, r0) (pullsz p) [] = Inr (l, r, Q, pull, fr)"
      "setb (foldl (\<lambda>st bp. freebp st t bp) st2 fr) t (pnl p) l = Inr (st3, nl)" "setb st3 t (pnr p) r = Inr (st', nr)"
      "p' = p\<lparr>pullsz := pull, npull := int (length ms) - int (length Q), pop := POsplit, pnl := nl, pnr := nr\<rparr>"
    by (auto simp: splitleaf_def Let_def res_simps)
  note nb = newblk_Inr [OF 1(1)] newblk_Inr [OF 1(2)]
  from splleaf_Inr [OF 1(3) ms(2,3)] nb obtain P where "splits (ndvals b) ms (l0, r0) (l, r) Q P" by auto
  then have P: "ms = P @ Q" "ndvals l @ ndvals r = runvals (ndvals b) P" "runok (ndvals b) P" "sameshape (l0, r0) (l, r)"
    using nb by (auto simp: splits_def halves_def)
  note s1 = setb_Inr [OF 1(4)] and s2 = setb_Inr [OF 1(5)]
  have le: "bstore st \<subseteq>\<^sub>m bstore st'" using s1(1) s2(1) nb(1,5) map_le_trans by fastforce
  have "instore (bstore st') n" if "instore (bstore st3) n" for n using that s2(1) by (auto simp: instore_def map_le_def dom_def)
  then have "stands (bstore st') 0 b P (news nl nr)"
    by (intro leaf_stands)
      (use s1(2) s2(2) P nb b tree_mono [OF le b(2)] leafargs_prefix [of "ndvals b" P Q] ms(2) in \<open>auto simp: sameshape_def split: if_splits\<close>)
  with 1(6) le P(1) show ?thesis
    by (intro conjI exI [of _ nl] exI [of _ nr] exI [of _ pull] exI [of _ P] exI [of _ Q]) simp_all
qed

end
