(* ===== verification/Gefs_Pivots.thy ===== *)
theory Gefs_Pivots
  imports Gefs_Flush
begin

text \<open>
  The pivots on the path: \<open>updatepiv\<close> and \<open>splitpiv\<close> put the new children in place of the old one
  and take what they pulled out of the buffer; \<open>merge\<close> and \<open>rotate\<close> move entries and messages
  between two neighbours.
\<close>

section \<open>Two neighbours as one node\<close>

lemma mean_pair:
  shows "k \<notin> nkeys \<sigma> h l \<Longrightarrow> mean (nents \<sigma> h [l, r]) (nallm \<sigma> h [l, r]) k = mean (ents \<sigma> h r) (allm \<sigma> h r) k"
    and "k \<notin> nkeys \<sigma> h r \<Longrightarrow> mean (nents \<sigma> h [l, r]) (nallm \<sigma> h [l, r]) k = mean (ents \<sigma> h l) (allm \<sigma> h l) k"
  using nlist_none [of k \<sigma> h "[l]"] nlist_none [of k \<sigma> h "[r]"]
  by (auto simp: mean_def lk_append option.case_eq_if)

lemma sub_simps: "before A B \<Longrightarrow> x \<in> A \<Longrightarrow> x \<notin> B"
  by (auto simp: before_def)

text \<open>\<open>n\<close> has the entries and messages of \<open>l\<close> and then those of \<open>r\<close>.\<close>

definition joined :: "Nd \<Rightarrow> Nd \<Rightarrow> Nd \<Rightarrow> bool" where
  "joined n l r \<longleftrightarrow> ndtype l = ndtype n \<and> ndtype r = ndtype n \<and> ndvals n = ndvals l @ ndvals r \<and> ndmsgs n = ndmsgs l @ ndmsgs r"

lemma joined_keys: "joined n l r \<Longrightarrow> nkeys \<sigma> h n = nkeys \<sigma> h l \<union> nkeys \<sigma> h r"
  by (cases h) (auto simp: joined_def nkeys_Suc image_Un)

lemma joined_mean:
  assumes "joined n l r" "before (nkeys \<sigma> h l) (nkeys \<sigma> h r)"
  shows "mean (ents \<sigma> h n) (allm \<sigma> h n) k = mean (nents \<sigma> h [l, r]) (nallm \<sigma> h [l, r]) k"
proof (cases h)
  case 0
  then show ?thesis using assms(1) by (simp add: joined_def)
next
  case (Suc h')
  let ?L = "nallm \<sigma> h' (kids \<sigma> (ndvals l))" and ?R = "nallm \<sigma> h' (kids \<sigma> (ndvals r))"
  have "msgsof k ?R = [] \<or> msgsof k (ndmsgs l) = []"
  proof (cases "k \<in> nkeys \<sigma> h r")
    case True
    then have "k \<notin> nkeys \<sigma> h l" using assms(2) by (auto simp: before_def)
    then have "msgsof k (ndmsgs l) = []" by (intro msgsof_notin) (auto simp: Suc nkeys_Suc)
    then show ?thesis by simp
  next
    case False
    then have "msgsof k (allm \<sigma> h r) = []" using tree_keys [of \<sigma> h r] by (intro msgsof_notin) auto
    then show ?thesis by (simp add: Suc allm_Suc)
  qed
  then show ?thesis using assms(1) by (auto simp: Suc joined_def mean_def ents_Suc allm_Suc)
qed

lemma joined_wf:
  assumes "joined n l r" "before (nkeys \<sigma> h l) (nkeys \<sigma> h r)" "wft \<sigma> h l" "wft \<sigma> h r"
  shows "wft \<sigma> h n"
proof (cases h)
  case 0
  with assms show ?thesis by (auto simp: joined_def sorted_wrt_append before_def)
next
  case (Suc h')
  with assms have "before (fkeys \<sigma> h' (ndvals l)) (fkeys \<sigma> h' (ndvals r))" "before (kk ` set (ndmsgs l)) (kk ` set (ndmsgs r))"
    by (auto simp: nkeys_Suc)
  with assms Suc show ?thesis by (auto simp: joined_def wft_Suc sorted_append before_def less_imp_le)
qed

lemma joined_cut:
  assumes "joined n l r" "wft \<sigma> h n" "ndvals l \<noteq> []" "ndvals r \<noteq> []"
    and "\<forall>m \<in> set (ndmsgs l). kk m < kk (hd (ndvals r))" "\<forall>m \<in> set (ndmsgs r). kk (hd (ndvals r)) \<le> kk m"
  shows "wft \<sigma> h l \<and> wft \<sigma> h r \<and> before (nkeys \<sigma> h l) (nkeys \<sigma> h r)"
proof (cases h)
  case 0
  with assms show ?thesis by (auto simp: joined_def sorted_wrt_append before_def)
next
  case (Suc h')
  obtain e es where r: "ndvals r = e # es" using assms(4) by (cases "ndvals r") auto
  have w: "wfkids \<sigma> h' (ndvals l)" "wfkids \<sigma> h' (ndvals r)" "before (fkeys \<sigma> h' (ndvals l)) (fkeys \<sigma> h' (ndvals r))"
    using assms(1,2) by (auto simp: Suc wft_Suc joined_def)
  have "\<forall>x \<in> fkeys \<sigma> h' (ndvals r). kk e \<le> x"
    using w(2) unfolding r wfkids_def by (fastforce simp: fkeys_def ekeys_def before_def)
  moreover have "\<forall>x \<in> fkeys \<sigma> h' (ndvals l). x < kk e" using w(3) by (auto simp: r before_def ekeys_def)
  ultimately have "before (nkeys \<sigma> h l) (nkeys \<sigma> h r)"
    using assms(5,6) w(3) r by (fastforce simp: Suc nkeys_Suc before_def intro: less_le_trans)
  then show ?thesis using assms(1-4) w by (auto simp: Suc wft_Suc joined_def sorted_append)
qed

section \<open>The new children in a pivot\<close>

definition takes :: "(u64 \<Rightarrow> Nd option) \<Rightarrow> nat \<Rightarrow> Kvp list \<Rightarrow> Msg list \<Rightarrow> Nd list \<Rightarrow> bool" where
  "takes \<sigma> h W P cs \<longleftrightarrow> wfnodes \<sigma> h cs \<and> ckeys \<sigma> h cs \<subseteq> fkeys \<sigma> h W \<union> kk ` set P \<and>
     (\<forall>k. mean (nents \<sigma> h cs) (nallm \<sigma> h cs) k =
        bindE (mean (nents \<sigma> h (kids \<sigma> W)) (nallm \<sigma> h (kids \<sigma> W)) k) (mval k (msgsof k P)))"

text \<open>
  \<open>fits\<close>: where the children that the path element \<open>q\<close> leaves go in the node \<open>b\<close> of the element \<open>p\<close>
  above it.
\<close>

definition fits :: "(u64 \<Rightarrow> Nd option) \<Rightarrow> nat \<Rightarrow> Nd \<Rightarrow> Path \<Rightarrow> Path \<Rightarrow> Kvp list \<Rightarrow> Kvp list \<Rightarrow> Kvp list \<Rightarrow> Msg list \<Rightarrow> Msg list \<Rightarrow> Msg list \<Rightarrow> bool" where
  "fits \<sigma> h b p q V1 W V2 A P R \<longleftrightarrow>
     ndvals b = V1 @ W @ V2 \<and> pmidx p = int (length V1) \<and> length W = width q \<and>
     ndmsgs b = A @ P @ R \<and> plo p = int (length A) \<and> npull q = int (length P) \<and>
     takes \<sigma> h W P (news (pnl q) (pnr q)) \<and>
     before (fkeys \<sigma> h V1) (kk ` set P) \<and> before (kk ` set P) (fkeys \<sigma> h V2) \<and> kk ` set A \<inter> kk ` set P = {}"

lemma fits_leftmsgs:
  assumes "fits \<sigma> h b p q V1 W V2 A P R" "leftmsgs (ndmsgs b) p (Some q) = Inr own"
  shows "own = A @ R"
  using assms by (cases P; cases R) (auto simp: fits_def leftmsgs_def nat_add_distrib split: if_splits)

text \<open>The node after the swap, before any message of the parent comes in.\<close>

definition swapped :: "Nd \<Rightarrow> Path \<Rightarrow> Kvp list \<Rightarrow> Kvp list \<Rightarrow> Msg list \<Rightarrow> Msg list \<Rightarrow> Nd" where
  "swapped b q V1 V2 A R = b\<lparr>ndvals := V1 @ map ptr (news (pnl q) (pnr q)) @ V2, ndmsgs := A @ R\<rparr>"

lemma swapped_correct:
  assumes b: "wft \<sigma> (Suc h) b" and f: "fits \<sigma> h b p q V1 W V2 A P R" and ne: "ndvals (swapped b q V1 V2 A R) \<noteq> []"
  shows "wft \<sigma> (Suc h) (swapped b q V1 V2 A R) \<and> nkeys \<sigma> (Suc h) (swapped b q V1 V2 A R) \<subseteq> nkeys \<sigma> (Suc h) b \<and>
    (\<forall>k. mean (ents \<sigma> (Suc h) (swapped b q V1 V2 A R)) (allm \<sigma> (Suc h) (swapped b q V1 V2 A R)) k = mean (ents \<sigma> (Suc h) b) (allm \<sigma> (Suc h) b) k)"
proof -
  have wf: "wfkids \<sigma> h (V1 @ W @ V2)" using b f by (simp add: wft_Suc fits_def)
  have t: "wfnodes \<sigma> h (news (pnl q) (pnr q))" "ckeys \<sigma> h (news (pnl q) (pnr q)) \<subseteq> fkeys \<sigma> h W \<union> kk ` set P"
    "\<forall>k. mean (nents \<sigma> h (news (pnl q) (pnr q))) (nallm \<sigma> h (news (pnl q) (pnr q))) k =
        bindE (mean (nents \<sigma> h (kids \<sigma> W)) (nallm \<sigma> h (kids \<sigma> W)) k) (mval k (msgsof k P))"
    and bs: "before (fkeys \<sigma> h V1) (kk ` set P)" "before (kk ` set P) (fkeys \<sigma> h V2)" "kk ` set A \<inter> kk ` set P = {}"
    using f by (auto simp: fits_def takes_def)
  note s = swap_kids [OF wf t bs]
  have eq: "ndvals b = V1 @ W @ V2" "ndmsgs b = A @ P @ R" using f by (auto simp: fits_def)
  have m: "mean (ents \<sigma> (Suc h) (swapped b q V1 V2 A R)) (allm \<sigma> (Suc h) (swapped b q V1 V2 A R)) k = mean (ents \<sigma> (Suc h) b) (allm \<sigma> (Suc h) b) k" for k
    unfolding ents_Suc allm_Suc eq using s(3) [of R k] by (simp add: swapped_def)
  have "sorted (map kk (A @ R)) \<and> (\<forall>m \<in> set (A @ R). okmsg m)" using b eq by (auto simp: wft_Suc sorted_append)
  moreover have "nkeys \<sigma> (Suc h) (swapped b q V1 V2 A R) \<subseteq> nkeys \<sigma> (Suc h) b"
    unfolding nkeys_Suc eq using s(2) by (auto simp: swapped_def)
  ultimately show ?thesis using s(1) b ne m unfolding wft_Suc by (simp add: swapped_def)
qed

section \<open>\<open>updatepiv\<close>\<close>

text \<open>The messages \<open>G\<close> of the parent join a node.\<close>

lemma joins_stands:
  assumes wf: "wft \<sigma> (Suc h) m" and n: "joins (ndmsgs m) G (ndmsgs n)" "ndvals n = ndvals m" "ndtype n = ndtype m" "instore \<sigma> n"
    and G: "\<forall>x \<in> set G. okmsg x"
    and m: "nkeys \<sigma> (Suc h) m \<subseteq> nkeys \<sigma> (Suc h) b" "\<forall>k. mean (ents \<sigma> (Suc h) m) (allm \<sigma> (Suc h) m) k = mean (ents \<sigma> (Suc h) b) (allm \<sigma> (Suc h) b) k"
  shows "stands \<sigma> (Suc h) b G [n]"
proof -
  have j: "sorted (map kk (ndmsgs n))" "msgsof k (ndmsgs n) = msgsof k (ndmsgs m) @ msgsof k G" "set (ndmsgs n) = set (ndmsgs m) \<union> set G" for k
    using n(1) by (auto simp: joins_def)
  have "wft \<sigma> (Suc h) n" using wf j G n(2,3) by (auto simp: wft_Suc)
  moreover have "nkeys \<sigma> (Suc h) n \<subseteq> nkeys \<sigma> (Suc h) b \<union> kk ` set G" using m(1) j(3) n(2) by (auto simp: nkeys_Suc)
  moreover have "mean (ents \<sigma> (Suc h) n) (allm \<sigma> (Suc h) n) k = bindE (mean (ents \<sigma> (Suc h) b) (allm \<sigma> (Suc h) b) k) (mval k (msgsof k G))" for k
    unfolding m(2) [rule_format, symmetric] by (simp add: mean_def ents_Suc allm_Suc n(2) j(2) mval_append_fun bindE_assoc)
  ultimately show ?thesis using n(4) by (simp add: stands_def)
qed

lemma updatepiv_Inr:
  assumes u: "updatepiv st t pup p pp = Inr (st', p')" and b: "pb p = Some b" and ms: "pending pup = Inr ms" "sorted (map kk ms)"
    and own: "\<And>own. leftmsgs (ndmsgs b) p pp = Inr own \<Longrightarrow> sorted (map kk own)"
  obtains n0 n1 own G Q x nl pull where "leftmsgs (ndmsgs b) p pp = Inr own" "ms = G @ Q" "joins own G x"
    "pivvals (ndvals b) 0 (pmidx p) pp n0 = Inr n1" "ndvals n0 = []" "ndmsgs n0 = []" "ndtype n0 = ndtype b"
    "bstore st \<subseteq>\<^sub>m bstore st'" "p' = p\<lparr>pullsz := pull, npull := int (length G), pop := POmod, pnl := nl\<rparr>"
    "if ndvals n1 = [] then nl = None else \<exists>n. nl = Some n \<and> instore (bstore st') n \<and> ndtype n = ndtype n1 \<and> ndvals n = ndvals n1 \<and> ndmsgs n = ndmsgs n1 @ x"
proof -
  from u b ms(1) obtain st1 n0 n1 own spc ms1 full spc1 n2 pull1 Q n3 pull nl where
    1: "newblk st t (ndtype b) = Inr (st1, n0)" "pivvals (ndvals b) 0 (pmidx p) pp n0 = Inr n1"
      "leftmsgs (ndmsgs b) p pp = Inr own" "pivmsgs own ms False spc n1 (pullsz p) None = Inr (ms1, full, spc1, n2, pull1)"
      "restmsgs ms1 full spc1 n2 pull1 = Inr (Q, n3, pull)" "setb st1 t (pnl p) n3 = Inr (st', nl)"
      "p' = p\<lparr>pullsz := pull, npull := int (length ms) - int (length Q), pop := POmod, pnl := nl\<rparr>"
    by (auto simp: updatepiv_def Let_def res_simps)
  from pivmsgs_Inr [OF 1(4) own [OF 1(3)] ms(2)] obtain g x where
    g: "ms = g @ ms1" "n2 = n1\<lparr>ndmsgs := ndmsgs n1 @ x\<rparr>" "joins own g x" "\<not> full \<longrightarrow> (\<forall>m \<in> set own. \<forall>y \<in> set ms1. kk m \<le> kk y)" by blast
  from restmsgs_Inr [OF 1(5)] obtain g' where
    g': "ms1 = g' @ Q" "n3 = n2\<lparr>ndmsgs := ndmsgs n2 @ g'\<rparr>" "full \<longrightarrow> g' = []" by blast
  have "joins own (g @ g') (x @ g')"
    using g g' ms(2) by (intro joins_append [OF g(3)]) (auto simp: sorted_append)
  moreover have "ms = (g @ g') @ Q" using g g' by simp
  moreover note nb = newblk_Inr [OF 1(1)] and s = setb_Inr [OF 1(6)]
  ultimately show thesis
    using that [of own "g @ g'" Q "x @ g'" n0 n1 nl pull] 1 g g' by (auto split: if_splits)
qed

lemma updatepiv_stands:
  assumes u: "updatepiv st t pup p (Some q) = Inr (st', p')" and b: "pb p = Some b" "wft (bstore st) (Suc h) b"
    and f: "fits (bstore st) h b p q V1 W V2 A P R" and ms: "pending pup = Inr ms" "sorted (map kk ms)" "\<forall>m \<in> set ms. okmsg m"
    and keep: "V1 \<noteq> [] \<or> news (pnl q) (pnr q) \<noteq> [] \<or> V2 \<noteq> []"
  shows "bstore st \<subseteq>\<^sub>m bstore st' \<and> (\<exists>n pull G Q. ms = G @ Q \<and>
    p' = p\<lparr>pullsz := pull, npull := int (length G), pop := POmod, pnl := Some n\<rparr> \<and> stands (bstore st') (Suc h) b G [n])"
proof -
  let ?m = "swapped b q V1 V2 A R"
  have own: "leftmsgs (ndmsgs b) p (Some q) = Inr own \<Longrightarrow> own = A @ R" for own by (rule fits_leftmsgs [OF f])
  have so: "leftmsgs (ndmsgs b) p (Some q) = Inr own \<Longrightarrow> sorted (map kk own)" for own
    using b(2) f own by (auto simp: wft_Suc fits_def sorted_append)
  obtain n0 n1 own G Q x nl pull where
    1: "leftmsgs (ndmsgs b) p (Some q) = Inr own" "ms = G @ Q" "joins own G x"
      "pivvals (ndvals b) 0 (pmidx p) (Some q) n0 = Inr n1" "ndvals n0 = []" "ndmsgs n0 = []" "ndtype n0 = ndtype b"
      "bstore st \<subseteq>\<^sub>m bstore st'" "p' = p\<lparr>pullsz := pull, npull := int (length G), pop := POmod, pnl := nl\<rparr>"
      "if ndvals n1 = [] then nl = None else \<exists>n. nl = Some n \<and> instore (bstore st') n \<and> ndtype n = ndtype n1 \<and> ndvals n = ndvals n1 \<and> ndmsgs n = ndmsgs n1 @ x"
    by (rule updatepiv_Inr [OF u b(1) ms(1,2) so])
  have w: "0 < width q" by (simp add: width_def)
  have vs: "ndvals b = V1 @ W @ V2" "pmidx p = 0 + int (length V1)" "length W = width q" using f by (auto simp: fits_def)
  have n1: "n1 = n0\<lparr>ndvals := ndvals ?m\<rparr>"
    using pivvals_Some [OF 1(4) [unfolded vs(2)]] vs w 1(5) by (auto simp: swapped_def)
  have ne: "ndvals ?m \<noteq> []" using keep by (auto simp: swapped_def)
  note s = swapped_correct [OF b(2) f ne]
  note mb = tree_mono [OF 1(8) b(2)] and mm = tree_mono [OF 1(8), of "Suc h" ?m]
  from 1(10) n1 ne obtain n where n: "nl = Some n" "instore (bstore st') n" "ndtype n = ndtype b" "ndvals n = ndvals ?m" "ndmsgs n = ndmsgs n0 @ x"
    by (auto simp: 1(7))
  have "stands (bstore st') (Suc h) b G [n]"
    by (rule joins_stands [of _ _ ?m]) (use s mb mm n ms(3) 1(2,3,6) own [OF 1(1)] in \<open>auto simp: swapped_def\<close>)
  then show ?thesis using 1(2,8,9) n(1) by (intro conjI exI [of _ n] exI [of _ pull] exI [of _ G] exI [of _ Q]) auto
qed

lemma updatepiv_bottom:
  assumes u: "updatepiv st t pup p None = Inr (st', p')" and b: "pb p = Some b" "wft (bstore st) (Suc h) b" and lo: "plo p < 0"
    and ms: "pending pup = Inr ms" "sorted (map kk ms)" "\<forall>m \<in> set ms. okmsg m"
  shows "bstore st \<subseteq>\<^sub>m bstore st' \<and> (\<exists>n pull G Q. ms = G @ Q \<and>
    p' = p\<lparr>pullsz := pull, npull := int (length G), pop := POmod, pnl := Some n\<rparr> \<and> stands (bstore st') (Suc h) b G [n])"
proof -
  have own: "leftmsgs (ndmsgs b) p None = Inr own \<Longrightarrow> own = ndmsgs b" for own using lo by (simp add: leftmsgs_def)
  have so: "leftmsgs (ndmsgs b) p None = Inr own \<Longrightarrow> sorted (map kk own)" for own using b(2) own by (auto simp: wft_Suc)
  obtain n0 n1 own G Q x nl pull where
    1: "leftmsgs (ndmsgs b) p None = Inr own" "ms = G @ Q" "joins own G x"
      "pivvals (ndvals b) 0 (pmidx p) None n0 = Inr n1" "ndvals n0 = []" "ndmsgs n0 = []" "ndtype n0 = ndtype b"
      "bstore st \<subseteq>\<^sub>m bstore st'" "p' = p\<lparr>pullsz := pull, npull := int (length G), pop := POmod, pnl := nl\<rparr>"
      "if ndvals n1 = [] then nl = None else \<exists>n. nl = Some n \<and> instore (bstore st') n \<and> ndtype n = ndtype n1 \<and> ndvals n = ndvals n1 \<and> ndmsgs n = ndmsgs n1 @ x"
    by (rule updatepiv_Inr [OF u b(1) ms(1,2) so])
  have n1: "n1 = n0\<lparr>ndvals := ndvals b\<rparr>" using pivvals_copy [OF 1(4)] 1(5) by simp
  have ne: "ndvals b \<noteq> []" using b(2) by (simp add: wft_Suc)
  note mb = tree_mono [OF 1(8) b(2)]
  from 1(10) n1 ne obtain n where n: "nl = Some n" "instore (bstore st') n" "ndtype n = ndtype b" "ndvals n = ndvals b" "ndmsgs n = ndmsgs n0 @ x"
    by (auto simp: 1(7))
  have "stands (bstore st') (Suc h) b G [n]"
    by (rule joins_stands [of _ _ b]) (use mb n ms(3) 1(2,3,6) own [OF 1(1)] in auto)
  then show ?thesis using 1(2,8,9) n(1) by (intro conjI exI [of _ n] exI [of _ pull] exI [of _ G] exI [of _ Q]) auto
qed

section \<open>\<open>splitpiv\<close>\<close>

lemma halfcopy_Inr:
  assumes "copyup (if onr then snd d else fst d) q cp = Inr (n, cp')" "\<not> onr \<longrightarrow> ndvals (snd d) = []" "d' = (if onr then (fst d, n) else (n, snd d))"
  shows "halves d' = halves d @ map ptr (news (pnl q) (pnr q)) \<and> sameshape d d' \<and> (\<not> onr \<longrightarrow> ndvals (snd d') = [])"
  using copyup_Inr [OF assms(1)] assms(2,3) by (auto simp: halves_def sameshape_def)

lemma splvals_copy:
  assumes "splvals vs i nv hs idx pp onr cp d = Inr d'" "idx < i" "\<not> onr \<longrightarrow> ndvals (snd d) = []"
  shows "halves d' = halves d @ vs \<and> sameshape d d'"
  using assms
proof (induction vs arbitrary: i onr cp d)
  case (Cons v vs)
  define onr1 where "onr1 = (onr \<or> i = nv - 2 \<or> i \<ge> 2 \<and> cp \<ge> hs)"
  from Cons.prems obtain d1 where 1: "halfval onr1 d v = Inr d1" "splvals vs (i + 1) nv hs idx pp onr1 (cp + valsz_kv v) d1 = Inr d'"
    by (auto simp: res_simps Let_def onr1_def)
  have "\<not> onr1 \<longrightarrow> ndvals (snd d) = []" using Cons.prems(3) by (simp add: onr1_def)
  note h = halfval_Inr [OF 1(1) this]
  from Cons.IH [OF 1(2)] Cons.prems(2) h sameshape_trans [of d d1 d'] show ?case by auto
qed (simp add: halves_def)

lemma splvals_Some:
  assumes "splvals vs i nv hs (i + int j) (Some q) onr cp d = Inr d'" "j < length vs" "\<not> onr \<longrightarrow> ndvals (snd d) = []"
  shows "halves d' = halves d @ take j vs @ map ptr (news (pnl q) (pnr q)) @ drop (Suc j) vs \<and> sameshape d d'"
  using assms
proof (induction j arbitrary: vs i onr cp d)
  case 0
  then obtain v vs1 where vs: "vs = v # vs1" by (cases vs) auto
  define onr1 where "onr1 = (onr \<or> i = nv - 2 \<or> i \<ge> 2 \<and> cp \<ge> hs)"
  from 0(1) vs obtain n cp1 where 1: "copyup (if onr1 then snd d else fst d) q cp = Inr (n, cp1)"
    "splvals vs1 (i + 1) nv hs i (Some q) onr1 cp1 (if onr1 then (fst d, n) else (n, snd d)) = Inr d'"
    by (auto simp: res_simps Let_def onr1_def)
  have "\<not> onr1 \<longrightarrow> ndvals (snd d) = []" using 0(3) by (simp add: onr1_def)
  note h = halfcopy_Inr [OF 1(1) this refl]
  from splvals_copy [OF 1(2)] h sameshape_trans show ?case by (fastforce simp: vs)
next
  case (Suc j)
  then obtain v vs1 where vs: "vs = v # vs1" by (cases vs) auto
  define onr1 where "onr1 = (onr \<or> i = nv - 2 \<or> i \<ge> 2 \<and> cp \<ge> hs)"
  from Suc.prems(1) vs obtain d1 where 1: "halfval onr1 d v = Inr d1"
    "splvals vs1 (i + 1) nv hs ((i + 1) + int j) (Some q) onr1 (cp + valsz_kv v) d1 = Inr d'"
    by (auto simp: res_simps Let_def onr1_def add.assoc)
  have "\<not> onr1 \<longrightarrow> ndvals (snd d) = []" using Suc.prems(3) by (simp add: onr1_def)
  note h = halfval_Inr [OF 1(1) this]
  from Suc.IH [OF 1(2)] Suc.prems(2) h sameshape_trans [of d d1 d'] show ?case by (auto simp: vs)
qed

text \<open>Both halves get an entry: at most one of two entries next to each other is the child's.\<close>

lemma splvals_grow:
  "splvals vs i nv hs idx pp onr cp d = Inr d' \<Longrightarrow>
   (ndvals (fst d) \<noteq> [] \<longrightarrow> ndvals (fst d') \<noteq> []) \<and> (ndvals (snd d) \<noteq> [] \<longrightarrow> ndvals (snd d') \<noteq> [])"
proof (induction vs arbitrary: i onr cp d)
  case (Cons v vs)
  define onr1 where "onr1 = (onr \<or> i = nv - 2 \<or> i \<ge> 2 \<and> cp \<ge> hs)"
  show ?case
  proof (cases "i = idx")
    case True
    with Cons.prems obtain q n cp1 where 1: "copyup (if onr1 then snd d else fst d) q cp = Inr (n, cp1)"
      "splvals vs (i + 1) nv hs idx pp onr1 cp1 (if onr1 then (fst d, n) else (n, snd d)) = Inr d'"
      by (auto simp: res_simps Let_def onr1_def split: option.splits)
    from Cons.IH [OF 1(2)] copyup_Inr [OF 1(1)] show ?thesis by (auto split: if_splits)
  next
    case False
    with Cons.prems obtain d1 where 1: "halfval onr1 d v = Inr d1" "splvals vs (i + 1) nv hs idx pp onr1 (cp + valsz_kv v) d1 = Inr d'"
      by (auto simp: res_simps Let_def onr1_def)
    from Cons.IH [OF 1(2)] 1(1) show ?thesis by (cases d) (auto simp: halfval_def res_simps dest!: n_setval_Inr split: if_splits)
  qed
qed simp

lemma splvals_one:
  assumes "splvals (v # vs) i nv hs idx pp onr cp d = Inr d'" "i \<noteq> idx"
  shows "if onr \<or> i = nv - 2 \<or> i \<ge> 2 \<and> cp \<ge> hs then ndvals (snd d') \<noteq> [] else ndvals (fst d') \<noteq> []"
proof -
  define onr1 where "onr1 = (onr \<or> i = nv - 2 \<or> i \<ge> 2 \<and> cp \<ge> hs)"
  from assms obtain d1 where 1: "halfval onr1 d v = Inr d1" "splvals vs (i + 1) nv hs idx pp onr1 (cp + valsz_kv v) d1 = Inr d'"
    by (auto simp: res_simps Let_def onr1_def)
  then show ?thesis using splvals_grow [OF 1(2)]
    unfolding onr1_def [symmetric] by (cases d) (auto simp: halfval_def res_simps dest!: n_setval_Inr split: if_splits)
qed

lemma splvals_rest:
  assumes "splvals (v # vs) i nv hs idx pp onr cp d = Inr d'"
  shows "\<exists>cp1 d1. splvals vs (i + 1) nv hs idx pp (onr \<or> i = nv - 2 \<or> i \<ge> 2 \<and> cp \<ge> hs) cp1 d1 = Inr d'"
  using assms by (auto simp: res_simps Let_def split: if_splits option.splits)

lemma splvals_left:
  assumes "splvals vs 0 nv hs idx pp False 0 d = Inr d'" "nv = int (length vs)" "nv \<ge> 4"
  shows "ndvals (fst d') \<noteq> []"
proof -
  obtain v1 v2 vs' where vs: "vs = v1 # v2 # vs'" using assms(2,3) by (cases vs; cases "tl vs") auto
  show ?thesis
  proof (cases "idx = 0")
    case False
    then show ?thesis using splvals_one [OF assms(1) [unfolded vs]] assms(3) by (simp split: if_splits)
  next
    case True
    from splvals_rest [OF assms(1) [unfolded vs]] assms(3) obtain cp1 d1 where
      "splvals (v2 # vs') 1 nv hs idx pp False cp1 d1 = Inr d'" by auto
    from splvals_one [OF this] True assms(3) show ?thesis by (simp split: if_splits)
  qed
qed

lemma splvals_right:
  assumes "splvals vs i nv hs idx pp onr cp d = Inr d'" "i + int (length vs) = nv" "2 \<le> length vs"
  shows "ndvals (snd d') \<noteq> []"
  using assms
proof (induction vs arbitrary: i onr cp d)
  case (Cons v vs)
  from splvals_rest [OF Cons.prems(1)] obtain cp1 d1 where
    1: "splvals vs (i + 1) nv hs idx pp (onr \<or> i = nv - 2 \<or> i \<ge> 2 \<and> cp \<ge> hs) cp1 d1 = Inr d'" by blast
  show ?case
  proof (cases "2 \<le> length vs")
    case True
    with Cons.IH [OF 1] Cons.prems(2) show ?thesis by simp
  next
    case False
    with Cons.prems(2,3) have i: "i = nv - 2" and vs: "length vs = 1" by auto
    show ?thesis
    proof (cases "i = idx")
      case False
      with splvals_one [OF Cons.prems(1)] i show ?thesis by simp
    next
      case True
      obtain v2 where "vs = [v2]" using vs by (auto simp: length_Suc_conv)
      with 1 i have "splvals [v2] (i + 1) nv hs idx pp True cp1 d1 = Inr d'" by simp
      from splvals_one [OF this] True show ?thesis by simp
    qed
  qed
qed simp

lemma splmsgs_onr: "splmsgs ms mid True d = Inr d' \<Longrightarrow> d' = (fst d, (snd d)\<lparr>ndmsgs := ndmsgs (snd d) @ ms\<rparr>)"
proof (induction ms arbitrary: d)
  case (Cons m ms)
  then obtain r where 1: "n_setmsg (snd d) m = Inr r" "splmsgs ms mid True (fst d, r) = Inr d'" by (auto simp: res_simps)
  from Cons.IH [OF 1(2)] n_setmsg_Inr [OF 1(1)] show ?case by simp
qed simp

lemma splmsgs_Inr:
  assumes "splmsgs ms mid False d = Inr d'" "sorted (map kk ms)"
  shows "\<exists>X Y. ms = X @ Y \<and> (\<forall>m \<in> set X. kk m < mid) \<and> (\<forall>m \<in> set Y. mid \<le> kk m) \<and>
    d' = ((fst d)\<lparr>ndmsgs := ndmsgs (fst d) @ X\<rparr>, (snd d)\<lparr>ndmsgs := ndmsgs (snd d) @ Y\<rparr>)"
  using assms
proof (induction ms arbitrary: d)
  case (Cons m ms)
  show ?case
  proof (cases "mid \<le> kk m")
    case True
    then have "splmsgs (m # ms) mid True d = Inr d'" using Cons.prems(1) by simp
    from splmsgs_onr [OF this] True Cons.prems(2) show ?thesis by (intro exI [of _ "[]"] exI [of _ "m # ms"]) auto
  next
    case False
    with Cons.prems(1) obtain l where 1: "n_setmsg (fst d) m = Inr l" "splmsgs ms mid False (l, snd d) = Inr d'" by (auto simp: res_simps)
    from Cons.IH [OF 1(2)] Cons.prems(2) obtain X Y where "ms = X @ Y" "\<forall>m \<in> set X. kk m < mid" "\<forall>m \<in> set Y. mid \<le> kk m"
      "d' = (l\<lparr>ndmsgs := ndmsgs l @ X\<rparr>, (snd d)\<lparr>ndmsgs := ndmsgs (snd d) @ Y\<rparr>)" by auto
    with n_setmsg_Inr [OF 1(1)] False show ?thesis by (intro exI [of _ "m # X"] exI [of _ Y]) auto
  qed
qed auto

text \<open>Two halves of a node that stands for \<open>b\<close>.\<close>

lemma cut_stands:
  assumes n: "wft \<sigma> h n" "nkeys \<sigma> h n \<subseteq> nkeys \<sigma> h b" "\<forall>k. mean (ents \<sigma> h n) (allm \<sigma> h n) k = mean (ents \<sigma> h b) (allm \<sigma> h b) k"
    and j: "joined n l r" "ndvals l \<noteq> []" "ndvals r \<noteq> []" "\<forall>m \<in> set (ndmsgs l). kk m < kk (hd (ndvals r))" "\<forall>m \<in> set (ndmsgs r). kk (hd (ndvals r)) \<le> kk m"
    and s: "instore \<sigma> l" "instore \<sigma> r"
  shows "stands \<sigma> h b [] [l, r]"
proof -
  note c = joined_cut [OF j(1) n(1) j(2-)]
  then have "wfnodes \<sigma> h [l, r]" using s by simp
  moreover have "mean (nents \<sigma> h [l, r]) (nallm \<sigma> h [l, r]) k = mean (ents \<sigma> h b) (allm \<sigma> h b) k" for k
    using joined_mean [OF j(1), of \<sigma> h k] c n(3) by simp
  moreover have "ckeys \<sigma> h [l, r] \<subseteq> nkeys \<sigma> h b" using joined_keys [OF j(1), of \<sigma> h] n(2) by simp
  ultimately show ?thesis unfolding stands_def by (simp add: bindE_def split: sum.split)
qed

lemma splitpiv_Inr:
  assumes u: "splitpiv st t p pp = Inr (st', p')" and b: "pb p = Some b"
    and own: "leftmsgs (ndmsgs b) p pp = Inr (ndmsgs m)" "sorted (map kk (ndmsgs m))"
    and vals: "\<And>d d' cp nv hs. splvals (ndvals b) 0 nv hs (pidx p) pp False cp d = Inr d' \<Longrightarrow> ndvals (snd d) = [] \<Longrightarrow> halves d' = halves d @ ndvals m \<and> sameshape d d'"
    and m: "wft (bstore st) h m" "nkeys (bstore st) h m \<subseteq> nkeys (bstore st) h b" "ndtype m = ndtype b" "wft (bstore st) h b"
      "\<forall>k. mean (ents (bstore st) h m) (allm (bstore st) h m) k = mean (ents (bstore st) h b) (allm (bstore st) h b) k"
  shows "bstore st \<subseteq>\<^sub>m bstore st' \<and> (\<exists>l r. p' = p\<lparr>pop := POsplit, pnl := Some l, pnr := Some r\<rparr> \<and> stands (bstore st') h b [] [l, r])"
proof -
  from u b own obtain st1 l0 st2 r0 hs l1 r1 l2 r2 st3 nl nr where
    1: "newblk st t (ndtype b) = Inr (st1, l0)" "newblk st1 t (ndtype b) = Inr (st2, r0)" "int (length (ndvals b)) \<ge> 4"
      "splvals (ndvals b) 0 (int (length (ndvals b))) hs (pidx p) pp False 0 (l0, r0) = Inr (l1, r1)"
      "splmsgs (ndmsgs m) (kk (hd (ndvals r1))) False (l1, r1) = Inr (l2, r2)"
      "setb st2 t (pnl p) l2 = Inr (st3, nl)" "setb st3 t (pnr p) r2 = Inr (st', nr)"
      "p' = p\<lparr>pop := POsplit, pnl := nl, pnr := nr\<rparr>"
    by (auto simp: splitpiv_def Let_def res_simps)
  note nb = newblk_Inr [OF 1(1)] newblk_Inr [OF 1(2)]
  have v: "halves (l1, r1) = ndvals m" "sameshape (l0, r0) (l1, r1)" using vals [OF 1(4)] nb by (auto simp: halves_def)
  have ne: "ndvals l1 \<noteq> []" "ndvals r1 \<noteq> []" using splvals_left [OF 1(4)] splvals_right [OF 1(4)] 1(3) by auto
  from splmsgs_Inr [OF 1(5) own(2)] obtain X Y where
    x: "ndmsgs m = X @ Y" "\<forall>m \<in> set X. kk m < kk (hd (ndvals r1))" "\<forall>m \<in> set Y. kk (hd (ndvals r1)) \<le> kk m"
      "l2 = l1\<lparr>ndmsgs := ndmsgs l1 @ X\<rparr>" "r2 = r1\<lparr>ndmsgs := ndmsgs r1 @ Y\<rparr>" by auto
  note s1 = setb_Inr [OF 1(6)] and s2 = setb_Inr [OF 1(7)]
  have le: "bstore st \<subseteq>\<^sub>m bstore st'" using s1(1) s2(1) nb(1,5) map_le_trans by fastforce
  have ins: "instore (bstore st') n" if "instore (bstore st3) n" for n using that s2(1) by (auto simp: instore_def map_le_def dom_def)
  from s1(2) ne(1) x(4) obtain l where l: "nl = Some l" "instore (bstore st3) l" "ndtype l = ndtype l1" "ndvals l = ndvals l1" "ndmsgs l = ndmsgs l1 @ X" by auto
  from s2(2) ne(2) x(5) obtain r where r: "nr = Some r" "instore (bstore st') r" "ndtype r = ndtype r1" "ndvals r = ndvals r1" "ndmsgs r = ndmsgs r1 @ Y" by auto
  have e: "ndmsgs l1 = []" "ndmsgs r1 = []" "ndtype l1 = ndtype b" "ndtype r1 = ndtype b" using v(2) nb by (auto simp: sameshape_def)
  note mm = tree_mono [OF le m(1)] and mb = tree_mono [OF le m(4)]
  have j: "joined m l r" using v(1) l r e x(1) m(3) by (simp add: joined_def halves_def)
  have "stands (bstore st') h b [] [l, r]"
    by (rule cut_stands [OF _ _ _ j]) (use mm mb m l r ins ne x e in auto)
  then show ?thesis using 1(8) l(1) r(1) le by blast
qed

lemma splitpiv_stands:
  assumes u: "splitpiv st t p (Some q) = Inr (st', p')" and b: "pb p = Some b" "wft (bstore st) (Suc h) b"
    and f: "fits (bstore st) h b p q V1 W V2 A P R" "width q = 1" "pidx p = pmidx p"
    and lm: "leftmsgs (ndmsgs b) p (Some q) = Inr own"
  shows "bstore st \<subseteq>\<^sub>m bstore st' \<and> (\<exists>l r. p' = p\<lparr>pop := POsplit, pnl := Some l, pnr := Some r\<rparr> \<and> stands (bstore st') (Suc h) b [] [l, r])"
proof -
  let ?m = "swapped b q V1 V2 A R"
  have "4 \<le> length (ndvals b)" using u b(1) by (auto simp: splitpiv_def Let_def res_simps)
  moreover have vs: "ndvals b = V1 @ W @ V2" "pidx p = 0 + int (length V1)" "length W = 1" using f by (auto simp: fits_def)
  ultimately have "ndvals ?m \<noteq> []" by (auto simp: swapped_def)
  note s = swapped_correct [OF b(2) f(1) this]
  have vals: "halves d' = halves d @ ndvals ?m \<and> sameshape d d'"
    if "splvals (ndvals b) 0 nv hs (pidx p) (Some q) False cp d = Inr d'" "ndvals (snd d) = []" for d d' cp nv hs
    using splvals_Some [OF that(1) [unfolded vs(2)]] that(2) vs by (simp add: swapped_def)
  show ?thesis
    by (rule splitpiv_Inr [OF u b(1) _ _ vals]) (use s b lm fits_leftmsgs [OF f(1) lm] in \<open>auto simp: swapped_def wft_Suc\<close>)
qed

lemma splitpiv_bottom:
  assumes u: "splitpiv st t p None = Inr (st', p')" and b: "pb p = Some b" "wft (bstore st) (Suc h) b" and lo: "plo p < 0" "pidx p < 0"
  shows "bstore st \<subseteq>\<^sub>m bstore st' \<and> (\<exists>l r. p' = p\<lparr>pop := POsplit, pnl := Some l, pnr := Some r\<rparr> \<and> stands (bstore st') (Suc h) b [] [l, r])"
proof -
  have vals: "halves d' = halves d @ ndvals b \<and> sameshape d d'"
    if "splvals (ndvals b) 0 nv hs (pidx p) None False cp d = Inr d'" "ndvals (snd d) = []" for d d' cp nv hs
    using splvals_copy [OF that(1) lo(2)] that(2) by simp
  show ?thesis
    by (rule splitpiv_Inr [OF u b(1) _ _ vals]) (use b lo in \<open>auto simp: leftmsgs_def wft_Suc\<close>)
qed

end
