(* ===== verification/Gefs_Balance.thy ===== *)
theory Gefs_Balance
  imports Gefs_Pivots
begin

text \<open>\<open>merge\<close>, \<open>rotate\<close> and \<open>trybalance\<close>: a new child is merged with a neighbour, or shares with it.\<close>

section \<open>Merging\<close>

lemma merge_Inr:
  assumes m: "merge st t p pp idx a b = Inr (st', p', q')" and ne: "ndvals a \<noteq> []" and ty: "ndtype b = ndtype a" "ndtype a = Tpivot \<or> ndmsgs a = [] \<and> ndmsgs b = []"
  shows "bstore st \<subseteq>\<^sub>m bstore st' \<and> (\<exists>d. p' = p\<lparr>pmidx := idx\<rparr> \<and> q' = pp\<lparr>pop := POmerge, pnl := Some d\<rparr> \<and> joined d a b \<and> instore (bstore st') d)"
proof -
  from m obtain st1 d0 d1 d2 d3 nl where
    1: "newblk st t (ndtype a) = Inr (st1, d0)" "setvals (ndvals a) d0 = Inr d1" "setvals (ndvals b) d1 = Inr d2"
      "(if ndtype a = Tpivot then bindE (setmsgs (ndmsgs a) d2) (setmsgs (ndmsgs b)) else Inr d2) = Inr d3"
      "setb st1 t (pnl pp) d3 = Inr (st', nl)" "p' = p\<lparr>pmidx := idx\<rparr>" "q' = pp\<lparr>pop := POmerge, pnl := nl\<rparr>"
    by (auto simp: merge_def res_simps)
  note nb = newblk_Inr [OF 1(1)] and s = setb_Inr [OF 1(5)]
  have d2: "d2 = d0\<lparr>ndvals := ndvals a @ ndvals b\<rparr>" using setvals_Inr [OF 1(2)] setvals_Inr [OF 1(3)] nb by simp
  have "ndvals d3 = ndvals a @ ndvals b \<and> ndmsgs d3 = ndmsgs a @ ndmsgs b \<and> ndtype d3 = ndtype a"
    using 1(4) d2 nb ty by (auto simp: res_simps dest!: setmsgs_Inr split: if_splits)
  with s nb 1(6,7) ne ty show ?thesis by (auto simp: joined_def)
qed

section \<open>Rotating\<close>

lemma rotvals_append:
  "rotvals a b (xs @ ys) hp onr sz sp d = bindE (rotvals a b xs hp onr sz sp d) (\<lambda>(l, r, sp, onr, sz). rotvals a b ys hp onr sz sp (l, r))"
proof (induction xs arbitrary: onr sz sp d)
  case (Cons x xs)
  have "rotvals a b (xs @ ys) hp o1 s1 p1 = (\<lambda>d. bindE (rotvals a b xs hp o1 s1 p1 d) (\<lambda>(l, r, sp, onr, sz). rotvals a b ys hp onr sz sp (l, r)))" for o1 s1 p1
    by (rule ext) (rule Cons.IH)
  then show ?case by (simp add: Let_def bindE_assoc)
qed simp

lemma splitidx_loop_spec:
  assumes "sorted (map kk ms)" "i \<le> length ms" "\<forall>m \<in> set (take i ms). kk m < k" "j = splitidx_loop (drop i ms) k i"
  shows "i \<le> j \<and> j \<le> length ms \<and> (\<forall>m \<in> set (take j ms). kk m < k) \<and> (\<forall>m \<in> set (drop j ms). k \<le> kk m)"
  using assms
proof (induction "length ms - i" arbitrary: i)
  case 0
  then show ?case by simp
next
  case (Suc n)
  then have i: "i < length ms" by simp
  then have d: "drop i ms = ms ! i # drop (Suc i) ms" by (simp add: Cons_nth_drop_Suc)
  show ?case
  proof (cases "k \<le> kk (ms ! i)")
    case True
    then have j: "j = i" using Suc.prems(4) by (simp add: d)
    have "\<forall>m \<in> set (drop i ms). kk (ms ! i) \<le> kk m"
      using Suc.prems(1) sorted_wrt_drop [of "(\<le>)" "map kk ms" i] by (auto simp: drop_map d)
    with True i j Suc.prems(3) show ?thesis by (auto intro: order_trans)
  next
    case False
    have "take (Suc i) ms = take i ms @ [ms ! i]" using i by (simp add: take_Suc_conv_app_nth)
    then have "Suc i \<le> j \<and> j \<le> length ms \<and> (\<forall>m \<in> set (take j ms). kk m < k) \<and> (\<forall>m \<in> set (drop j ms). k \<le> kk m)"
      using Suc.prems False i Suc.hyps(2) by (intro Suc.hyps(1)) (auto simp: d)
    then show ?thesis by simp
  qed
qed

text \<open>Where the messages are cut when the entry \<open>e\<close> is the first of the right half.\<close>

definition cutat :: "Msg list \<Rightarrow> nat \<Rightarrow> bytes \<Rightarrow> bool" where
  "cutat ms sp k \<longleftrightarrow> (\<forall>m \<in> set (take sp ms). kk m < k) \<and> (\<forall>m \<in> set (drop sp ms). k \<le> kk m)"

lemma rotvals_onr:
  assumes "rotvals a b vs hp True sz sp d = Inr (l, r, sp', onr', sz')"
  shows "l = fst d \<and> r = (snd d)\<lparr>ndvals := ndvals (snd d) @ vs\<rparr> \<and> sp' = sp \<and> onr'"
  using assms
proof (induction vs arbitrary: sz d)
  case (Cons v vs)
  then obtain d1 where 1: "halfval True d v = Inr d1" "rotvals a b vs hp True (sz + valsz_kv v) sp d1 = Inr (l, r, sp', onr', sz')"
    by (auto simp: res_simps)
  then have "d1 = (fst d, (snd d)\<lparr>ndvals := ndvals (snd d) @ [v]\<rparr>)"
    by (cases d) (auto simp: halfval_def res_simps dest!: n_setval_Inr)
  with Cons.IH [OF 1(2)] show ?case by simp
qed auto

lemma rotvals_Inr:
  assumes "rotvals a b vs hp False sz sp d = Inr (l, r, sp', onr', sz')" "ndvals (snd d) = []"
    and "ndtype a \<noteq> Tleaf \<longrightarrow> sorted (map kk ms) \<and> ms = ndmsgs a @ ndmsgs b \<and> sp \<le> length ms \<and> (\<forall>m \<in> set (take sp ms). \<forall>v \<in> set vs. kk m < kk v)"
    and "sorted_wrt (<) (map kk vs)"
  shows "\<exists>X Y. vs = X @ Y \<and> l = (fst d)\<lparr>ndvals := ndvals (fst d) @ X\<rparr> \<and> r = (snd d)\<lparr>ndvals := Y\<rparr> \<and>
    (if Y = [] then X = [] \<or> sz + valspace (butlast X) < hp else (hp \<le> sz + valspace X \<and> (ndtype a \<noteq> Tleaf \<longrightarrow> cutat ms sp' (kk (hd Y)))))"
  using assms
proof (induction vs arbitrary: sz sp d)
  case Nil
  then show ?case by (intro exI [of _ "[]"]) auto
next
  case (Cons v vs)
  define sp1 where "sp1 = splitidx a b (kk v) sp"
  define onr1 where "onr1 = (sz \<ge> hp)"
  from Cons.prems(1) obtain d1 where 1: "halfval onr1 d v = Inr d1" "rotvals a b vs hp onr1 (sz + valsz_kv v) sp1 d1 = Inr (l, r, sp', onr', sz')"
    by (auto simp: res_simps Let_def onr1_def sp1_def)
  have sp1: "ndtype a \<noteq> Tleaf \<longrightarrow> sp1 \<le> length ms \<and> cutat ms sp1 (kk v)"
  proof
    assume t: "ndtype a \<noteq> Tleaf"
    with splitidx_loop_spec [of ms sp "kk v" sp1] Cons.prems(3) show "sp1 \<le> length ms \<and> cutat ms sp1 (kk v)"
      by (auto simp: sp1_def splitidx_def cutat_def)
  qed
  show ?case
  proof (cases onr1)
    case True
    then have "d1 = (fst d, (snd d)\<lparr>ndvals := [v]\<rparr>)" using 1(1) Cons.prems(2)
      by (cases d) (auto simp: halfval_def res_simps dest!: n_setval_Inr)
    with True rotvals_onr [of a b vs hp "sz + valsz_kv v" sp1 d1 l r sp' onr' sz'] 1(2) sp1 show ?thesis
      by (intro exI [of _ "[]"] exI [of _ "v # vs"]) (auto simp: onr1_def)
  next
    case False
    then have d1: "d1 = ((fst d)\<lparr>ndvals := ndvals (fst d) @ [v]\<rparr>, snd d)" using 1(1)
      by (cases d) (auto simp: halfval_def res_simps dest!: n_setval_Inr)
    have "ndtype a \<noteq> Tleaf \<longrightarrow> sorted (map kk ms) \<and> ms = ndmsgs a @ ndmsgs b \<and> sp1 \<le> length ms \<and> (\<forall>m \<in> set (take sp1 ms). \<forall>v \<in> set vs. kk m < kk v)"
      using sp1 Cons.prems(3,4) by (auto simp: cutat_def intro: less_trans)
    note ih = Cons.IH [OF _ _ this]
    have "rotvals a b vs hp False (sz + valsz_kv v) sp1 d1 = Inr (l, r, sp', onr', sz')" "ndvals (snd d1) = []" "sorted_wrt (<) (map kk vs)" "snd d1 = snd d"
      using 1(2) False d1 Cons.prems(2,4) by simp_all
    with ih [OF this(1-3)] obtain X Y where
      x: "vs = X @ Y" "l = (fst d1)\<lparr>ndvals := ndvals (fst d1) @ X\<rparr>" "r = (snd d)\<lparr>ndvals := Y\<rparr>"
        "if Y = [] then X = [] \<or> sz + valsz_kv v + valspace (butlast X) < hp else (hp \<le> sz + valsz_kv v + valspace X \<and> (ndtype a \<noteq> Tleaf \<longrightarrow> cutat ms sp' (kk (hd Y))))"
      by metis
    then show ?thesis using d1 False by (intro exI [of _ "v # X"] exI [of _ Y]) (auto simp: onr1_def)
  qed
qed

lemma rotmsgs_Inr:
  assumes "rotmsgs ms sp onr i d = Inr d'"
  shows "if onr then d' = (fst d, (snd d)\<lparr>ndmsgs := ndmsgs (snd d) @ ms\<rparr>)
    else i \<le> sp \<longrightarrow> d' = ((fst d)\<lparr>ndmsgs := ndmsgs (fst d) @ take (sp - i) ms\<rparr>, (snd d)\<lparr>ndmsgs := ndmsgs (snd d) @ drop (sp - i) ms\<rparr>)"
  using assms
proof (induction ms arbitrary: onr i d)
  case (Cons m ms)
  show ?case
  proof (cases "onr \<or> i = sp")
    case True
    with Cons.prems obtain r j where 1: "n_setmsg (snd d) m = Inr r" "rotmsgs ms sp True j (fst d, r) = Inr d'"
      by (auto simp: res_simps Let_def)
    from Cons.IH [OF 1(2)] n_setmsg_Inr [OF 1(1)] True show ?thesis by auto
  next
    case False
    with Cons.prems obtain l where 1: "n_setmsg (fst d) m = Inr l" "rotmsgs ms sp False (i + 1) (l, snd d) = Inr d'"
      by (auto simp: res_simps Let_def)
    from Cons.IH [OF 1(2)] n_setmsg_Inr [OF 1(1)] False show ?thesis by (auto simp: take_Cons' drop_Cons')
  qed
qed auto

lemma valspace_butlast: "X \<noteq> [] \<Longrightarrow> valspace X = valspace (butlast X) + valsz_kv (last X)"
  by (induction X rule: rev_induct) auto

lemma wft_sorted: "wft \<sigma> h n \<Longrightarrow> sorted_wrt (<) (map kk (ndvals n))"
  by (cases h) (auto simp: wft_Suc wfkids_def sorted_wrt_map before_def ekeys_def intro: sorted_wrt_mono_rel [rotated])

lemma kid_getptr:
  assumes "kid \<sigma> e = Some c" "getptr e = Inr (bp, fill)"
  shows "\<sigma> (baddr bp) = Some c \<and> bgen (ndbp c) = bgen bp"
  using assms by (auto simp: kid_def split: option.splits if_splits)

lemma wft_valsz:
  assumes "wft \<sigma> h n" "v \<in> set (ndvals n)"
  shows "valsz_kv v \<le> 774"
proof (cases h)
  case 0
  with assms have "okkv v" by auto
  then show ?thesis by (auto simp: okkv_def valsz_kv_def)
next
  case (Suc h')
  with assms obtain c where "length (kk v) \<le> Keymax" "kid \<sigma> v = Some c" by (auto simp: wft_Suc wfkids_def)
  moreover from this(2) have "length (kv v) = Ptrsz + 2" by (auto simp: kid_def getptr_def res_simps split: sum.splits)
  ultimately show ?thesis by (simp add: valsz_kv_def)
qed

lemma rotate_Inr:
  assumes m: "rotate_nd st t p pp idx a b ((valspace (ndvals a) + valspace (ndvals b)) div 2) = Inr (st', p', q')"
    and n: "joined n a b" "wft \<sigma> h n" "ndtype a = Tpivot \<or> ndtype a = Tleaf \<and> ndmsgs a = [] \<and> ndmsgs b = []"
    and big: "valspace (ndvals a) + valspace (ndvals b) > 4 * int Msgmax"
  shows "bstore st \<subseteq>\<^sub>m bstore st' \<and> (\<exists>l r. p' = p\<lparr>pmidx := idx\<rparr> \<and> q' = pp\<lparr>pop := POrot, pnl := Some l, pnr := Some r\<rparr> \<and>
    joined n l r \<and> ndvals l \<noteq> [] \<and> ndvals r \<noteq> [] \<and> instore (bstore st') l \<and> instore (bstore st') r \<and>
    (\<forall>m \<in> set (ndmsgs l). kk m < kk (hd (ndvals r))) \<and> (\<forall>m \<in> set (ndmsgs r). kk (hd (ndvals r)) \<le> kk m))"
proof -
  let ?T = "valspace (ndvals n)"
  have nv: "ndvals n = ndvals a @ ndvals b" "ndmsgs n = ndmsgs a @ ndmsgs b" "ndtype n = ndtype a" using n(1) by (auto simp: joined_def)
  have T: "valspace (ndvals a) + valspace (ndvals b) = ?T" by (simp add: nv(1))
  from m obtain st1 l0 st2 r0 l1 r1 sp1 o1 z1 l2 r2 sp o2 z2 l3 r3 st3 nl nr where
    1: "newblk st t (ndtype a) = Inr (st1, l0)" "newblk st1 t (ndtype a) = Inr (st2, r0)"
      "rotvals a b (ndvals a) (?T div 2) False 0 0 (l0, r0) = Inr (l1, r1, sp1, o1, z1)"
      "rotvals a b (ndvals b) (?T div 2) o1 z1 sp1 (l1, r1) = Inr (l2, r2, sp, o2, z2)"
      "(if ndtype a = Tpivot then rotmsgs (ndmsgs a @ ndmsgs b) sp False 0 (l2, r2) else Inr (l2, r2)) = Inr (l3, r3)"
      "setb st2 t (pnl pp) l3 = Inr (st3, nl)" "setb st3 t (pnr pp) r3 = Inr (st', nr)"
      "p' = p\<lparr>pmidx := idx\<rparr>" "q' = pp\<lparr>pop := POrot, pnl := nl, pnr := nr\<rparr>"
    by (auto simp: rotate_nd_def res_simps T)
  note nb = newblk_Inr [OF 1(1)] newblk_Inr [OF 1(2)]
  have run: "rotvals a b (ndvals n) (?T div 2) False 0 0 (l0, r0) = Inr (l2, r2, sp, o2, z2)"
    using 1(3,4) by (simp add: nv(1) rotvals_append)
  have so: "sorted_wrt (<) (map kk (ndvals n))" by (rule wft_sorted [OF n(2)])
  have "ndtype a \<noteq> Tleaf \<Longrightarrow> sorted (map kk (ndmsgs n))" using n(2) nv(3) by (cases h) (auto simp: wft_Suc)
  then have pre: "ndvals (snd (l0, r0)) = []" "ndtype a \<noteq> Tleaf \<longrightarrow> sorted (map kk (ndmsgs n)) \<and> ndmsgs n = ndmsgs a @ ndmsgs b \<and>
      0 \<le> length (ndmsgs n) \<and> (\<forall>m \<in> set (take 0 (ndmsgs n)). \<forall>v \<in> set (ndvals n). kk m < kk v)"
    using nb nv by auto
  from rotvals_Inr [OF run pre so] obtain X Y where
    x: "ndvals n = X @ Y" "l2 = l0\<lparr>ndvals := X\<rparr>" "r2 = r0\<lparr>ndvals := Y\<rparr>"
      "if Y = [] then X = [] \<or> valspace (butlast X) < ?T div 2 else ?T div 2 \<le> valspace X \<and> (ndtype a \<noteq> Tleaf \<longrightarrow> cutat (ndmsgs n) sp (kk (hd Y)))"
    unfolding fst_conv snd_conv nb add_0 append_Nil by blast
  have ne: "ndvals n \<noteq> []" using n(2) by (cases h) (auto simp: wft_Suc)
  have Y: "Y \<noteq> []"
  proof
    assume "Y = []"
    with x ne have X: "X = ndvals n" "X \<noteq> []" "valspace (butlast X) < ?T div 2" by auto
    have "valsz_kv (last X) \<le> 774" using wft_valsz [OF n(2)] X last_in_set by metis
    with valspace_butlast [OF X(2)] X(1,3) big T show False by simp
  qed
  then have X: "X \<noteq> []" using x(4) big T by (auto split: if_splits)
  have c: "ndtype a \<noteq> Tleaf \<longrightarrow> cutat (ndmsgs n) sp (kk (hd Y))" using x(4) Y by simp
  have m0: "ndtype a = Tleaf \<Longrightarrow> ndmsgs n = []" using n(3) nv(2) by auto
  have l3: "ndvals l3 = X" "ndvals r3 = Y" "ndtype l3 = ndtype n" "ndtype r3 = ndtype n" "ndmsgs l3 @ ndmsgs r3 = ndmsgs n"
    "(\<forall>m \<in> set (ndmsgs l3). kk m < kk (hd Y)) \<and> (\<forall>m \<in> set (ndmsgs r3). kk (hd Y) \<le> kk m)"
    using 1(5) [folded nv(2)] n(3) x(2,3) nb nv(3) c m0 rotmsgs_Inr [of "ndmsgs n" sp False 0 "(l2, r2)" "(l3, r3)"]
    by (auto simp: cutat_def split: if_splits)
  note s1 = setb_Inr [OF 1(6)] and s2 = setb_Inr [OF 1(7)]
  have le: "bstore st \<subseteq>\<^sub>m bstore st'" using s1(1) s2(1) nb(1,5) map_le_trans by fastforce
  have ins: "instore (bstore st') x" if "instore (bstore st3) x" for x using that s2(1) by (auto simp: instore_def map_le_def dom_def)
  from s1(2) X l3(1) obtain l where l: "nl = Some l" "instore (bstore st3) l" "ndtype l = ndtype l3" "ndvals l = ndvals l3" "ndmsgs l = ndmsgs l3" by auto
  from s2(2) Y l3(2) obtain r where r: "nr = Some r" "instore (bstore st') r" "ndtype r = ndtype r3" "ndvals r = ndvals r3" "ndmsgs r = ndmsgs r3" by auto
  have "joined n l r" using l r l3 x(1) by (simp add: joined_def)
  then show ?thesis using le 1(8,9) l r l3 X Y ins
    by (intro conjI exI [of _ l] exI [of _ r]) simp_all
qed

section \<open>\<open>trybalance\<close>\<close>

text \<open>\<open>cs\<close> stand for the neighbours \<open>a\<close> and \<open>b\<close>.\<close>

definition pairs :: "(u64 \<Rightarrow> Nd option) \<Rightarrow> nat \<Rightarrow> Nd \<Rightarrow> Nd \<Rightarrow> Nd list \<Rightarrow> bool" where
  "pairs \<sigma> h a b cs \<longleftrightarrow> cs \<noteq> [] \<and> wfnodes \<sigma> h cs \<and> ckeys \<sigma> h cs = nkeys \<sigma> h a \<union> nkeys \<sigma> h b \<and>
     (\<forall>k. mean (nents \<sigma> h cs) (nallm \<sigma> h cs) k = mean (nents \<sigma> h [a, b]) (nallm \<sigma> h [a, b]) k)"

lemma rotmerge_pairs:
  assumes u: "rotmerge st t p q idx a b = Inr (did, st', p', q')" and wf: "wft (bstore st) h a" "wft (bstore st) h b" "before (nkeys (bstore st) h a) (nkeys (bstore st) h b)"
    and q: "pnr q = None"
  shows "bstore st \<subseteq>\<^sub>m bstore st' \<and> (if did then p' = p\<lparr>pmidx := idx\<rparr> \<and> width q' = 2 \<and> npull q' = npull q \<and> pairs (bstore st') h a b (news (pnl q') (pnr q'))
    else st' = st \<and> p' = p \<and> q' = q)"
proof -
  have t: "ndtype b = ndtype a" using u by (auto simp: rotmerge_def res_simps)
  have l: "ndtype a = Tpivot \<or> ndtype a = Tleaf \<and> ndmsgs a = [] \<and> ndmsgs b = []" and ne: "ndvals a \<noteq> []" using wf(1,2) by (cases h, auto simp: wft_Suc)+
  define n where "n = a\<lparr>ndvals := ndvals a @ ndvals b, ndmsgs := ndmsgs a @ ndmsgs b\<rparr>"
  have n: "joined n a b" using t by (simp add: n_def joined_def)
  have wn: "wft (bstore st) h n" by (rule joined_wf [OF n wf(3,1,2)])
  consider (merge) "did" "merge st t p q idx a b = Inr (st', p', q')"
    | (rot) "did" "rotate_nd st t p q idx a b ((valspace (ndvals a) + valspace (ndvals b)) div 2) = Inr (st', p', q')"
        "\<bar>valspace (ndvals a) - valspace (ndvals b)\<bar> > 4 * int Msgmax"
    | (none) "\<not> did" "st' = st" "p' = p" "q' = q"
    using u by (auto simp: rotmerge_def Let_def res_simps split: if_splits)
  then show ?thesis
  proof cases
    case merge
    from merge_Inr [OF merge(2) ne t] l obtain d where
      d: "bstore st \<subseteq>\<^sub>m bstore st'" "p' = p\<lparr>pmidx := idx\<rparr>" "q' = q\<lparr>pop := POmerge, pnl := Some d\<rparr>" "joined d a b" "instore (bstore st') d" by blast
    note ma = tree_mono [OF d(1) wf(1)] and mb = tree_mono [OF d(1) wf(2)]
    have bf: "before (nkeys (bstore st') h a) (nkeys (bstore st') h b)" using ma mb wf(3) by simp
    have "wft (bstore st') h d" using ma mb bf by (intro joined_wf [OF d(4)]) auto
    then have "pairs (bstore st') h a b [d]"
      using d(5) joined_keys [OF d(4)] joined_mean [OF d(4) bf] by (simp add: pairs_def)
    then show ?thesis using d merge(1) q by (simp add: width_def)
  next
    case rot
    have big: "valspace (ndvals a) + valspace (ndvals b) > 4 * int Msgmax"
      using rot(3) ndspace_nonneg(1) [of "ndvals a"] ndspace_nonneg(1) [of "ndvals b"] by linarith
    from rotate_Inr [OF rot(2) n wn l big] obtain x y where
      d: "bstore st \<subseteq>\<^sub>m bstore st'" "p' = p\<lparr>pmidx := idx\<rparr>" "q' = q\<lparr>pop := POrot, pnl := Some x, pnr := Some y\<rparr>" "joined n x y"
        "ndvals x \<noteq> []" "ndvals y \<noteq> []" "instore (bstore st') x" "instore (bstore st') y"
        "\<forall>m \<in> set (ndmsgs x). kk m < kk (hd (ndvals y))" "\<forall>m \<in> set (ndmsgs y). kk (hd (ndvals y)) \<le> kk m" by blast
    note ma = tree_mono [OF d(1) wf(1)] and mb = tree_mono [OF d(1) wf(2)] and mn = tree_mono [OF d(1) wn]
    have bf: "before (nkeys (bstore st') h a) (nkeys (bstore st') h b)" using ma mb wf(3) by simp
    have wx: "wft (bstore st') h x \<and> wft (bstore st') h y \<and> before (nkeys (bstore st') h x) (nkeys (bstore st') h y)"
      using joined_cut [OF d(4) _ d(5,6,9,10)] mn by blast
    have "mean (nents (bstore st') h [x, y]) (nallm (bstore st') h [x, y]) k = mean (nents (bstore st') h [a, b]) (nallm (bstore st') h [a, b]) k" for k
      using joined_mean [OF d(4), of "bstore st'" h k] joined_mean [OF n bf, of k] wx by simp
    then have "pairs (bstore st') h a b [x, y]"
      using wx d(7,8) joined_keys [OF d(4), of "bstore st'" h] joined_keys [OF n, of "bstore st'" h] by (auto simp: pairs_def)
    then show ?thesis using d rot(1) by (simp add: width_def)
  qed auto
qed

text \<open>The neighbour of a new child goes with it.\<close>

lemma takes_left:
  assumes t: "takes \<sigma> h [e] P [m]" and wf: "wfkids \<sigma> h [s, e]" and k: "kid \<sigma> s = Some c" and P: "before (fkeys \<sigma> h [s]) (kk ` set P)"
    and cs: "pairs \<sigma> h c m cs"
  shows "takes \<sigma> h [s, e] P cs"
proof -
  obtain d where d: "kid \<sigma> e = Some d" using wf by (auto simp: wfkids_def)
  have ck: "nkeys \<sigma> h c \<subseteq> fkeys \<sigma> h [s]" "nkeys \<sigma> h d \<subseteq> fkeys \<sigma> h [e]" using k d by (auto simp: ekeys_def)
  have mk: "nkeys \<sigma> h m \<subseteq> fkeys \<sigma> h [e] \<union> kk ` set P" using t by (auto simp: takes_def)
  have bf: "before (fkeys \<sigma> h [s]) (fkeys \<sigma> h [e])" using wf wfkids_Cons [of \<sigma> h s "[e]"] by simp
  have "mean (nents \<sigma> h cs) (nallm \<sigma> h cs) x = bindE (mean (nents \<sigma> h (kids \<sigma> [s, e])) (nallm \<sigma> h (kids \<sigma> [s, e])) x) (mval x (msgsof x P))" for x
  proof (cases "x \<in> nkeys \<sigma> h c")
    case True
    then have x: "x \<in> fkeys \<sigma> h [s]" using ck by auto
    then have "x \<notin> nkeys \<sigma> h m" "x \<notin> nkeys \<sigma> h d" "x \<notin> kk ` set P" using bf P ck(2) mk by (fastforce simp: before_def)+
    with mean_pair(2) [of x \<sigma> h] cs k d show ?thesis by (simp add: pairs_def msgsof_notin)
  next
    case False
    with mean_pair(1) [of x \<sigma> h] cs k d t show ?thesis by (simp add: pairs_def takes_def)
  qed
  then show ?thesis using cs mk ck by (auto simp: takes_def pairs_def)
qed

lemma takes_right:
  assumes t: "takes \<sigma> h [e] P [m]" and wf: "wfkids \<sigma> h [e, s]" and k: "kid \<sigma> s = Some c" and P: "before (kk ` set P) (fkeys \<sigma> h [s])"
    and cs: "pairs \<sigma> h m c cs"
  shows "takes \<sigma> h [e, s] P cs"
proof -
  obtain d where d: "kid \<sigma> e = Some d" using wf by (auto simp: wfkids_def)
  have ck: "nkeys \<sigma> h c \<subseteq> fkeys \<sigma> h [s]" "nkeys \<sigma> h d \<subseteq> fkeys \<sigma> h [e]" using k d by (auto simp: ekeys_def)
  have mk: "nkeys \<sigma> h m \<subseteq> fkeys \<sigma> h [e] \<union> kk ` set P" using t by (auto simp: takes_def)
  have bf: "before (fkeys \<sigma> h [e]) (fkeys \<sigma> h [s])" using wf wfkids_Cons [of \<sigma> h e "[s]"] by simp
  have "mean (nents \<sigma> h cs) (nallm \<sigma> h cs) x = bindE (mean (nents \<sigma> h (kids \<sigma> [e, s])) (nallm \<sigma> h (kids \<sigma> [e, s])) x) (mval x (msgsof x P))" for x
  proof (cases "x \<in> nkeys \<sigma> h c")
    case True
    then have x: "x \<in> fkeys \<sigma> h [s]" using ck by auto
    then have "x \<notin> nkeys \<sigma> h m" "x \<notin> nkeys \<sigma> h d" "x \<notin> kk ` set P" using bf P ck(2) mk by (fastforce simp: before_def)+
    with mean_pair(1) [of x \<sigma> h] cs k d show ?thesis by (simp add: pairs_def msgsof_notin)
  next
    case False
    with mean_pair(2) [of x \<sigma> h] cs k d t show ?thesis by (simp add: pairs_def takes_def)
  qed
  then show ?thesis using cs mk ck by (auto simp: takes_def pairs_def)
qed

lemma kids_mono:
  assumes "\<sigma> \<subseteq>\<^sub>m \<sigma>'" "wfkids \<sigma> h es"
  shows "wfkids \<sigma>' h es \<and> kids \<sigma>' es = kids \<sigma> es \<and> fkeys \<sigma>' h es = fkeys \<sigma> h es \<and>
    nents \<sigma>' h (kids \<sigma> es) = nents \<sigma> h (kids \<sigma> es) \<and> nallm \<sigma>' h (kids \<sigma> es) = nallm \<sigma> h (kids \<sigma> es)"
proof (cases "es = []")
  case False
  define n :: Nd where "n = \<lparr>ndbp = undefined, ndtype = Tpivot, ndvals = es, ndmsgs = []\<rparr>"
  have "wft \<sigma> (Suc h) n" using assms(2) False by (simp add: n_def wft_Suc)
  note t = tree_mono [OF assms(1) this]
  have "kids \<sigma>' es = kids \<sigma> es"
    using assms(2) kid_mono [OF _ assms(1)] unfolding wfkids_def by (induction es) force+
  with t show ?thesis by (simp add: n_def wft_Suc nkeys_Suc ents_Suc allm_Suc)
qed simp

lemma takes_mono:
  assumes "\<sigma> \<subseteq>\<^sub>m \<sigma>'" "takes \<sigma> h W P cs" "wfkids \<sigma> h W"
  shows "takes \<sigma>' h W P cs"
proof -
  note k = kids_mono [OF assms(1,3)]
  have "wfnodes \<sigma>' h cs \<and> ckeys \<sigma>' h cs = ckeys \<sigma> h cs \<and> nents \<sigma>' h cs = nents \<sigma> h cs \<and> nallm \<sigma>' h cs = nallm \<sigma> h cs" if "wfnodes \<sigma> h cs"
    using that
  proof (induction cs)
    case (Cons c cs)
    then have "wft \<sigma> h c" "instore \<sigma> c" by auto
    with tree_mono [OF assms(1), of h c] Cons assms(1) show ?case by (auto simp: instore_def map_le_def dom_def)
  qed simp
  with assms(2) k show ?thesis by (simp add: takes_def)
qed

text \<open>What \<open>trybalance\<close> keeps of the two path elements.\<close>

definition keeps :: "Path \<Rightarrow> Path \<Rightarrow> bool" where
  "keeps p p' \<longleftrightarrow> pb p' = pb p \<and> plo p' = plo p \<and> phi p' = phi p \<and> ins p' = ins p \<and> pidx p' = pidx p \<and> psz p' = psz p \<and> npull p' = npull p \<and>
    pnl p' = pnl p \<and> pnr p' = pnr p"

lemma trysibling_Inr:
  assumes "trysibling st t p q idx a b s = Inr (st', p', q')" "wft (bstore st) h a" "wft (bstore st) h b"
    and "before (nkeys (bstore st) h a) (nkeys (bstore st) h b)" "pnr q = None"
  shows "bstore st \<subseteq>\<^sub>m bstore st' \<and> keeps p p' \<and>
    (st' = st \<and> p' = p \<and> q' = q \<or> pmidx p' = idx \<and> width q' = 2 \<and> npull q' = npull q \<and> pairs (bstore st') h a b (news (pnl q') (pnr q')))"
proof -
  from assms(1) obtain did p1 where 1: "rotmerge st t p q idx a b = Inr (did, st', p1, q')" "p' = (if did then p1\<lparr>ps := Some s\<rparr> else p1)"
    by (auto simp: trysibling_def res_simps)
  from rotmerge_pairs [OF 1(1) assms(2-5)] 1(2) show ?thesis by (auto simp: keeps_def split: if_splits)
qed

lemma childptr_kid:
  assumes "childptr b i = Inr (bp, fill)" "getblk st bp = Inr c" "wfkids (bstore st) h (ndvals b)"
  shows "0 \<le> i \<and> i < int (length (ndvals b)) \<and> kid (bstore st) (ndvals b ! nat i) = Some c \<and> wft (bstore st) h c"
proof -
  have i: "0 \<le> i" "i < int (length (ndvals b))" and g: "getptr (ndvals b ! nat i) = Inr (bp, fill)"
    using assms(1) by (auto simp: childptr_def res_simps)
  then have "ndvals b ! nat i \<in> set (ndvals b)" by simp
  with assms(3) obtain d where d: "kid (bstore st) (ndvals b ! nat i) = Some d" "wft (bstore st) h d" by (auto simp: wfkids_def)
  from kid_getptr [OF d(1) g] assms(2) have "d = c" by (auto simp: getblk_def res_simps)
  with d i show ?thesis by simp
qed

text \<open>
  After \<open>trybalance\<close> the new children still fit, in place of one entry or of two.
\<close>

definition balanced_fits :: "Bs \<Rightarrow> nat \<Rightarrow> Nd \<Rightarrow> Path \<Rightarrow> Path \<Rightarrow> Msg list \<Rightarrow> Msg list \<Rightarrow> Msg list \<Rightarrow> bool" where
  "balanced_fits st h b p q A P R \<longleftrightarrow> (\<exists>V1 W V2. fits (bstore st) h b p q V1 W V2 A P R)"

lemma trysibling_fits:
  assumes u: "trysibling st t p q idx a b' s = Inr (st', p', q')"
    and f: "fits (bstore st) h b p q V1 [e] V2 A P R" "wfkids (bstore st) h (ndvals b)" "pnl q = Some m" "pnr q = None"
    and side: "V1 = V @ [es] \<and> kid (bstore st) es = Some a \<and> b' = m \<and> idx = int (length V) \<or>
      V2 = es # V \<and> kid (bstore st) es = Some b' \<and> a = m \<and> idx = int (length V1)"
  shows "bstore st \<subseteq>\<^sub>m bstore st' \<and> keeps p p' \<and> balanced_fits st' h b p' q' A P R \<and> (news (pnl q') (pnr q') \<noteq> [])"
proof -
  let ?\<sigma> = "bstore st" and ?\<sigma>' = "bstore st'"
  have vs: "ndvals b = V1 @ [e] @ V2" and tk: "takes ?\<sigma> h [e] P [m]"
    and P: "before (fkeys ?\<sigma> h V1) (kk ` set P)" "before (kk ` set P) (fkeys ?\<sigma> h V2)" using f(1,3,4) by (auto simp: fits_def)
  have m: "wft ?\<sigma> h m" "nkeys ?\<sigma> h m \<subseteq> fkeys ?\<sigma> h [e] \<union> kk ` set P" using tk by (auto simp: takes_def)
  have wf: "wfkids ?\<sigma> h (V1 @ [e] @ V2)" using f(2) vs by simp
  have bfs: "before (fkeys ?\<sigma> h V1) (fkeys ?\<sigma> h [e])" "before (fkeys ?\<sigma> h [e]) (fkeys ?\<sigma> h V2)"
    using wf wfkids_Cons [of ?\<sigma> h e V2] by auto
  have ess: "kid ?\<sigma> es = Some a \<or> kid ?\<sigma> es = Some b'" "es \<in> set (ndvals b)" using side vs by auto
  have ab: "wft ?\<sigma> h a" "wft ?\<sigma> h b'" "before (nkeys ?\<sigma> h a) (nkeys ?\<sigma> h b')"
    using side
  proof (atomize (full), elim disjE conjE)
    assume s: "V1 = V @ [es]" "kid ?\<sigma> es = Some a" "b' = m"
    have "wft ?\<sigma> h a" "nkeys ?\<sigma> h a \<subseteq> fkeys ?\<sigma> h [es]" using f(2) ess(2) s(2) by (auto simp: wfkids_def ekeys_def)
    moreover have "before (fkeys ?\<sigma> h [es]) (fkeys ?\<sigma> h [e] \<union> kk ` set P)" using bfs(1) P(1) s(1) by simp
    ultimately show "wft ?\<sigma> h a \<and> wft ?\<sigma> h b' \<and> before (nkeys ?\<sigma> h a) (nkeys ?\<sigma> h b')" using m s(3) before_sub by blast
  next
    assume s: "V2 = es # V" "kid ?\<sigma> es = Some b'" "a = m"
    have "wft ?\<sigma> h b'" "nkeys ?\<sigma> h b' \<subseteq> fkeys ?\<sigma> h [es]" using f(2) ess(2) s(2) by (auto simp: wfkids_def ekeys_def)
    moreover have "before (fkeys ?\<sigma> h [e] \<union> kk ` set P) (fkeys ?\<sigma> h [es])" using bfs(2) P(2) s(1) by simp
    ultimately show "wft ?\<sigma> h a \<and> wft ?\<sigma> h b' \<and> before (nkeys ?\<sigma> h a) (nkeys ?\<sigma> h b')" using m s(3) before_sub by blast
  qed
  note r = trysibling_Inr [OF u ab f(4)]
  then have le: "?\<sigma> \<subseteq>\<^sub>m ?\<sigma>'" and kp: "keeps p p'" by auto
  consider (same) "st' = st" "p' = p" "q' = q" | (new) "pmidx p' = idx" "width q' = 2" "npull q' = npull q" "pairs ?\<sigma>' h a b' (news (pnl q') (pnr q'))" using r by blast
  then show ?thesis
  proof cases
    case same
    then show ?thesis using f le kp by (auto simp: balanced_fits_def)
  next
    case new
    note tk' = takes_mono [OF le tk]
    have wf1: "wfkids ?\<sigma> h V1" "wfkids ?\<sigma> h V2" "wfkids ?\<sigma> h [e]" using wf wfkids_Cons [of ?\<sigma> h e V2] by auto
    note k1 = kids_mono [OF le wf1(1)] kids_mono [OF le wf1(2)] kids_mono [OF le wf1(3)]
    have wf1': "wfkids ?\<sigma>' h V1" "wfkids ?\<sigma>' h V2" "wfkids ?\<sigma>' h [e]" using k1 by auto
    have bfs': "before (fkeys ?\<sigma>' h V1) (fkeys ?\<sigma>' h [e])" "before (fkeys ?\<sigma>' h [e]) (fkeys ?\<sigma>' h V2)" using bfs k1 by auto
    have P': "before (fkeys ?\<sigma>' h V1) (kk ` set P)" "before (kk ` set P) (fkeys ?\<sigma>' h V2)" using P k1 by auto
    have "\<exists>V1' W' V2'. ndvals b = V1' @ W' @ V2' \<and> idx = int (length V1') \<and> length W' = 2 \<and> takes ?\<sigma>' h W' P (news (pnl q') (pnr q')) \<and>
        before (fkeys ?\<sigma>' h V1') (kk ` set P) \<and> before (kk ` set P) (fkeys ?\<sigma>' h V2')"
      using side
    proof (elim disjE conjE)
      assume s: "V1 = V @ [es]" "kid ?\<sigma> es = Some a" "b' = m" "idx = int (length V)"
      have "takes ?\<sigma>' h [es, e] P (news (pnl q') (pnr q'))"
        using tk' [OF wf1(3)] wf1' bfs' s P' new(4) kid_mono [OF s(2) le] by (intro takes_left [of _ _ _ _ m _ a]) (auto simp: wfkids_Cons [of _ _ es "[e]"])
      then show ?thesis using vs s P' by (intro exI [of _ V] exI [of _ "[es, e]"] exI [of _ V2]) simp
    next
      assume s: "V2 = es # V" "kid ?\<sigma> es = Some b'" "a = m" "idx = int (length V1)"
      have "takes ?\<sigma>' h [e, es] P (news (pnl q') (pnr q'))"
        using tk' [OF wf1(3)] wf1' bfs' s P' new(4) kid_mono [OF s(2) le] wfkids_Cons [of ?\<sigma>' h es V]
        by (intro takes_right [of _ _ _ _ m _ b']) (auto simp: wfkids_Cons [of _ _ e "[es]"])
      then show ?thesis using vs s P' by (intro exI [of _ V1] exI [of _ "[e, es]"] exI [of _ V]) simp
    qed
    then obtain V1' W' V2' where "ndvals b = V1' @ W' @ V2'" "idx = int (length V1')" "length W' = 2" "takes ?\<sigma>' h W' P (news (pnl q') (pnr q'))"
        "before (fkeys ?\<sigma>' h V1') (kk ` set P)" "before (kk ` set P) (fkeys ?\<sigma>' h V2')" by blast
    moreover have "ndmsgs b = A @ P @ R" "plo p' = int (length A)" "npull q = int (length P)" "kk ` set A \<inter> kk ` set P = {}"
      using f(1) kp by (auto simp: fits_def keeps_def)
    ultimately have "fits ?\<sigma>' h b p' q' V1' W' V2' A P R" using new by (simp add: fits_def)
    then show ?thesis using le kp new(4) by (auto simp: balanced_fits_def pairs_def)
  qed
qed

lemma trybalance_fits:
  assumes u: "trybalance st t p (Some q) (pidx p) = Inr (st', p', pp')" and b: "pb p = Some b" "wfkids (bstore st) h (ndvals b)"
    and f: "fits (bstore st) h b p q V1 [e] V2 A P R" "pidx p = pmidx p" "pop q = POmod \<longrightarrow> pnr q = None" "pop q \<noteq> POmerge"
  shows "\<exists>q'. pp' = Some q' \<and> bstore st \<subseteq>\<^sub>m bstore st' \<and> keeps p p' \<and> balanced_fits st' h b p' q' A P R \<and>
    (news (pnl q) (pnr q) \<noteq> [] \<longrightarrow> news (pnl q') (pnr q') \<noteq> [])"
proof -
  have vs: "ndvals b = V1 @ [e] @ V2" "pidx p = int (length V1)" using f(1,2) by (auto simp: fits_def)
  have same: ?thesis if "st' = st" "p' = p" "pp' = Some q" using that f(1) by (auto simp: balanced_fits_def keeps_def)
  show ?thesis
  proof (cases "pnl q = None \<or> pop q \<noteq> POmod")
    case True
    with u f(4) have "st' = st" "p' = p" "pp' = Some q" by (auto simp: trybalance_def split: option.splits)
    then show ?thesis by (rule same)
  next
    case False
    then obtain m where m: "pnl q = Some m" "pop q = POmod" "pnr q = None" using f(3) by auto
    have "pidx p \<noteq> -1" using vs by simp
    with u m b obtain spc q' where l: "tryleft st t p q b m (pidx p) spc = Inr (st', p', q')" "pp' = Some q'"
      by (auto simp: trybalance_def res_simps)
    have right: ?thesis if r: "tryright st t p q b m (pidx p) spc = Inr (st', p', q')"
    proof (cases "st' = st \<and> p' = p \<and> q' = q")
      case True
      with l(2) same show ?thesis by simp
    next
      case False
      with r obtain bp fill c where c: "childptr b (pidx p + 1) = Inr (bp, fill)" "getblk st bp = Inr c"
        "trysibling st t p q (pidx p) m c c = Inr (st', p', q')" by (auto simp: tryright_def res_simps split: if_splits)
      note ck = childptr_kid [OF c(1,2) b(2)]
      then obtain es V where V: "V2 = es # V" using vs by (cases V2) auto
      then have "ndvals b ! nat (pidx p + 1) = es" using vs by (simp add: nat_add_distrib nth_append)
      with ck have "kid (bstore st) es = Some c" by simp
      with trysibling_fits [OF c(3) f(1) b(2) m(1,3), of V es] V vs(2) l(2) show ?thesis by auto
    qed
    show ?thesis
    proof (cases "tryright st t p q b m (pidx p) spc = Inr (st', p', q')")
      case False
      with l obtain bp fill c where c: "0 \<le> pidx p - 1" "childptr b (pidx p - 1) = Inr (bp, fill)" "getblk st bp = Inr c"
        "trysibling st t p q (pidx p - 1) c m c = Inr (st', p', q')" by (auto simp: tryleft_def res_simps split: if_splits)
      note ck = childptr_kid [OF c(2,3) b(2)]
      have "V1 \<noteq> []" using c(1) vs(2) by auto
      then obtain V es where V: "V1 = V @ [es]" by (metis rev_exhaust)
      then have "ndvals b ! nat (pidx p - 1) = es" using vs by (simp add: nth_append)
      with ck have "kid (bstore st) es = Some c" by simp
      with trysibling_fits [OF c(4) f(1) b(2) m(1,3), of V es] V vs(2) l(2) show ?thesis by auto
    qed (rule right)
  qed
qed

end
