(* ===== verification/Gefs_Upsert.thy ===== *)
theory Gefs_Upsert
  imports Gefs_Balance
begin

text \<open>
  The whole path: \<open>flush\<close>, the way down to it, and a turn of \<open>btupsert1\<close>.
\<close>

section \<open>Paths\<close>

text \<open>
  \<open>segok\<close>: the path element \<open>p\<close> of the pivot \<open>b\<close> has chosen the entry \<open>e\<close> and all the messages \<open>M\<close> that
  go to the child there.
\<close>

definition segok :: "Nd \<Rightarrow> Path \<Rightarrow> Kvp list \<Rightarrow> Kvp \<Rightarrow> Kvp list \<Rightarrow> Msg list \<Rightarrow> Msg list \<Rightarrow> Msg list \<Rightarrow> bool" where
  "segok b p V1 e V2 A M B \<longleftrightarrow>
     ndvals b = V1 @ [e] @ V2 \<and> pidx p = int (length V1) \<and> pmidx p = pidx p \<and>
     ndmsgs b = A @ M @ B \<and> plo p = int (length A) \<and> phi p = int (length (A @ M)) \<and> psz p = msgspace M \<and>
     (V1 \<noteq> [] \<longrightarrow> (\<forall>m \<in> set M. kk e \<le> kk m)) \<and> (\<forall>m \<in> set M. \<forall>v \<in> set V2. kk m < kk v) \<and> kk ` set A \<inter> kk ` set M = {}"

text \<open>A path element that has not been worked on yet.\<close>

definition fresh_path :: "Path \<Rightarrow> bool" where
  "fresh_path p \<longleftrightarrow> pnl p = None \<and> pnr p = None \<and> npull p = 0 \<and> pop p = POmod"

text \<open>
  \<open>chain \<sigma> h b ups ms\<close>: the elements \<open>ups\<close> lead from the node \<open>b\<close> of height \<open>h\<close> up to \<open>path[0]\<close>, which
  has the messages \<open>ms\<close> to insert.
\<close>

fun chain :: "(u64 \<Rightarrow> Nd option) \<Rightarrow> nat \<Rightarrow> Nd \<Rightarrow> Path list \<Rightarrow> Msg list \<Rightarrow> bool" where
  "chain \<sigma> h b [] ms \<longleftrightarrow> False"
| "chain \<sigma> h b [p0] ms \<longleftrightarrow> pending p0 = Inr ms \<and> fresh_path p0 \<and> msgspace ms \<le> psz p0"
| "chain \<sigma> h b (p # pup # up) ms \<longleftrightarrow> fresh_path p \<and> ins p = None \<and> (\<exists>b' V1 e V2 A M B. pb p = Some b' \<and> wft \<sigma> (Suc h) b' \<and>
     segok b' p V1 e V2 A M B \<and> kid \<sigma> e = Some b \<and> chain \<sigma> (Suc h) b' (pup # up) ms)"

fun rootof :: "Nd \<Rightarrow> Path list \<Rightarrow> Nd" where
  "rootof b (p # pup # up) = (case pb p of None \<Rightarrow> b | Some b' \<Rightarrow> rootof b' (pup # up))"
| "rootof b _ = b"

lemma chain_mono: "chain \<sigma> h b ups ms \<Longrightarrow> \<sigma> \<subseteq>\<^sub>m \<sigma>' \<Longrightarrow> chain \<sigma>' h b ups ms"
proof (induction \<sigma> h b ups ms rule: chain.induct)
  case (3 \<sigma> h b p pup up ms)
  from 3(2) obtain b' V1 e V2 A M B where c: "fresh_path p" "ins p = None" "pb p = Some b'" "wft \<sigma> (Suc h) b'" "segok b' p V1 e V2 A M B" "kid \<sigma> e = Some b" "chain \<sigma> (Suc h) b' (pup # up) ms"
    by auto
  from 3(1) [OF c(7) 3(3)] tree_mono [OF 3(3) c(4)] kid_mono [OF c(6) 3(3)] c show ?case unfolding chain.simps by blast
qed auto

lemma seg_bounds:
  assumes "wft \<sigma> (Suc h) b" "segok b p V1 e V2 A M B"
  shows "before (fkeys \<sigma> h V1) (kk ` set M)" "before (kk ` set M) (fkeys \<sigma> h V2)"
proof -
  have wf: "wfkids \<sigma> h (V1 @ [e] @ V2)" using assms by (simp add: wft_Suc segok_def)
  have s: "V1 \<noteq> [] \<longrightarrow> (\<forall>m \<in> set M. kk e \<le> kk m)" "\<forall>m \<in> set M. \<forall>v \<in> set V2. kk m < kk v" using assms(2) by (auto simp: segok_def)
  have "\<forall>x \<in> fkeys \<sigma> h V1. x < kk e" using wf by (auto simp: before_def ekeys_def)
  with s(1) show "before (fkeys \<sigma> h V1) (kk ` set M)" by (cases V1) (auto simp: before_def intro: less_le_trans)
  have "\<forall>v \<in> set V2. \<forall>x \<in> ekeys \<sigma> h v. kk v \<le> x" using wf by (fastforce simp: wfkids_def ekeys_def)
  with s(2) show "before (kk ` set M) (fkeys \<sigma> h V2)" by (fastforce simp: before_def fkeys_def intro: less_le_trans)
qed

lemma pending_seg:
  assumes "segok b p V1 e V2 A M B" "pb p = Some b" "ins p = None"
  shows "pending p = Inr M"
  using assms by (auto simp: segok_def pending_def pmsgs_def)

text \<open>The messages on the way make sense of every key when they do so at the root.\<close>

definition sound :: "(u64 \<Rightarrow> Nd option) \<Rightarrow> nat \<Rightarrow> Nd \<Rightarrow> Msg list \<Rightarrow> bool" where
  "sound \<sigma> h b ms \<longleftrightarrow> (\<forall>k. \<exists>s. bindE (mean (ents \<sigma> h b) (allm \<sigma> h b) k) (mval k (msgsof k ms)) = Inr s)"

lemma sound_kid:
  assumes "wft \<sigma> (Suc h) b'" "segok b' p V1 e V2 A M B" "kid \<sigma> e = Some b" "sound \<sigma> (Suc h) b' ms"
  shows "sound \<sigma> h b M"
  unfolding sound_def
proof
  fix k
  from assms(4) obtain s where s: "mean (ents \<sigma> (Suc h) b') (allm \<sigma> (Suc h) b') k = Inr s" by (auto simp: sound_def res_simps)
  have eq: "ndvals b' = V1 @ [e] @ V2" "ndmsgs b' = A @ M @ B" "kk ` set A \<inter> kk ` set M = {}" using assms(2) by (auto simp: segok_def)
  note bs = seg_bounds [OF assms(1,2)]
  have wf: "wfkids \<sigma> h (V1 @ [e] @ V2)" using assms(1) eq by (simp add: wft_Suc)
  have bk: "nkeys \<sigma> h b \<subseteq> fkeys \<sigma> h [e]" using assms(3) by (auto simp: ekeys_def)
  show "\<exists>s. bindE (mean (ents \<sigma> h b) (allm \<sigma> h b) k) (mval k (msgsof k M)) = Inr s"
  proof (cases "k \<in> nkeys \<sigma> h b \<union> kk ` set M")
    case True
    have "before (fkeys \<sigma> h V1) (fkeys \<sigma> h [e])" "before (fkeys \<sigma> h [e]) (fkeys \<sigma> h V2)" using wf wfkids_Cons [of \<sigma> h e V2] by auto
    then have "k \<notin> fkeys \<sigma> h V1" "k \<notin> fkeys \<sigma> h V2" using True bk bs by (fastforce simp: before_def)+
    from s mean_mid [OF this, of "[e]" "A @ M @ B"] assms(3)
    have r: "bindE (mean (ents \<sigma> h b) (allm \<sigma> h b) k) (mval k (msgsof k (A @ M @ B))) = Inr s" by (simp add: ents_Suc allm_Suc eq)
    show ?thesis
    proof (cases "k \<in> kk ` set M")
      case True
      then have "msgsof k A = []" using eq(3) by (intro msgsof_notin) auto
      with r show ?thesis by (auto simp: mval_append res_simps)
    next
      case False
      with r show ?thesis by (auto simp: msgsof_notin res_simps)
    qed
  next
    case False
    then have "mean (ents \<sigma> h b) (allm \<sigma> h b) k = Inr None" using mean_none [of k \<sigma> h "[b]"] by simp
    moreover have "msgsof k M = []" using False by (intro msgsof_notin) auto
    ultimately show ?thesis by simp
  qed
qed

lemma chain_sound:
  "chain \<sigma> h b ups ms \<Longrightarrow> sound \<sigma> (h + length ups - 1) (rootof b ups) ms \<Longrightarrow>
   \<exists>M. pending (hd ups) = Inr M \<and> sound \<sigma> h b M \<and> msgspace M \<le> psz (hd ups)"
proof (induction \<sigma> h b ups ms rule: chain.induct)
  case (3 \<sigma> h b p pup up ms)
  from 3(2) obtain b' V1 e V2 A M B where c: "fresh_path p" "ins p = None" "pb p = Some b'" "wft \<sigma> (Suc h) b'" "segok b' p V1 e V2 A M B" "kid \<sigma> e = Some b" "chain \<sigma> (Suc h) b' (pup # up) ms"
    by auto
  from 3(1) [OF c(7)] 3(3) c(3) obtain N where "sound \<sigma> (Suc h) b' N" by auto
  from sound_kid [OF c(4-6) this] pending_seg [OF c(5,3,2)] c(5) show ?case by (auto simp: segok_def)
qed auto

text \<open>The children that stand for the node below fit into its parent.\<close>

lemma stands_fits:
  assumes "wft \<sigma> (Suc h) b'" "segok b' p V1 e V2 A M B" "kid \<sigma> e = Some b" "stands \<sigma> h b P (news (pnl q) (pnr q))" "M = P @ Q"
    and "npull q = int (length P)" "width q = 1"
  shows "fits \<sigma> h b' p q V1 [e] V2 A P (Q @ B)"
proof -
  note bs = seg_bounds [OF assms(1,2)]
  have "takes \<sigma> h [e] P (news (pnl q) (pnr q))"
    using assms(3,4) by (auto simp: takes_def stands_def ekeys_def)
  with assms bs show ?thesis by (auto simp: fits_def segok_def before_def)
qed

section \<open>\<open>flush\<close>\<close>

text \<open>
  The outcome of \<open>flush\<close>: the node that \<open>rp\<close> has is the new root, of the height the caller works
  out from the path, and stands for the old one with the messages that were pulled.
\<close>

definition flushed :: "(u64 \<Rightarrow> Nd option) \<Rightarrow> nat \<Rightarrow> Nd \<Rightarrow> Msg list \<Rightarrow> Path list \<Rightarrow> nat \<Rightarrow> bool" where
  "flushed \<sigma> H root ms path i \<longleftrightarrow> (\<forall>rb. pnl (path ! i) = Some rb \<longrightarrow> (\<exists>h' P Q.
     instore \<sigma> rb \<and> wft \<sigma> h' rb \<and> ms = P @ Q \<and> npull (path ! i) = int (length P) \<and>
     (\<forall>k. mean (ents \<sigma> h' rb) (allm \<sigma> h' rb) k = bindE (mean (ents \<sigma> H root) (allm \<sigma> H root) k) (mval k (msgsof k P))) \<and>
     int h' = int H + (if pnl (path ! 0) \<noteq> None then 1 else if pnl (path ! 1) \<noteq> None then 0 else -1)))"

text \<open>What \<open>rp\<close> is when the element \<open>q\<close> has just been dealt with, \<open>n\<close> elements being above it.\<close>

definition rpok :: "Path \<Rightarrow> nat option \<Rightarrow> nat \<Rightarrow> bool" where
  "rpok q rp n \<longleftrightarrow> pop q = POmod \<and> pnr q = None \<and> rp = Some n \<or> pop q = POsplit \<and> (pnl q \<noteq> None \<and> pnr q \<noteq> None \<or> rp = None)"

lemma stands_one: "stands \<sigma> h b P [n] \<longleftrightarrow> wft \<sigma> h n \<and> instore \<sigma> n \<and> nkeys \<sigma> h n \<subseteq> nkeys \<sigma> h b \<union> kk ` set P \<and>
    (\<forall>k. mean (ents \<sigma> h n) (allm \<sigma> h n) k = bindE (mean (ents \<sigma> h b) (allm \<sigma> h b) k) (mval k (msgsof k P)))"
  by (simp add: stands_def)

lemma newroot_stands:
  assumes n: "newroot st t p0 q = Inr (st', p0')" and s: "stands (bstore st) h b P [l, r]" "pnl q = Some l" "pnr q = Some r" and b: "wft (bstore st) h b"
  shows "\<exists>n. p0' = p0\<lparr>pnl := Some n, npull := npull q, pullsz := pullsz q\<rparr> \<and> bstore st \<subseteq>\<^sub>m bstore st' \<and> instore (bstore st') n \<and> wft (bstore st') (Suc h) n \<and>
    (\<forall>k. mean (ents (bstore st') (Suc h) n) (allm (bstore st') (Suc h) n) k = bindE (mean (ents (bstore st') h b) (allm (bstore st') h b) k) (mval k (msgsof k P)))"
proof -
  from n obtain st1 n0 n1 nb n where 1: "newblk st t Tpivot = Inr (st1, n0)" "copyup n0 q 0 = Inr (n1, nb)" "enqueue st1 n1 = Inr (st', n)"
    "p0' = p0\<lparr>pnl := Some n, npull := npull q, pullsz := pullsz q\<rparr>"
    by (auto simp: newroot_def res_simps)
  note nb = newblk_Inr [OF 1(1)] and e = enqueue_Inr [OF 1(3)]
  have le: "bstore st \<subseteq>\<^sub>m bstore st'" using e(1) nb(1) by simp
  have n1: "ndvals n = map ptr [l, r]" "ndmsgs n = []" "ndtype n = Tpivot" using e copyup_Inr [OF 1(2)] nb s(2,3) by simp_all
  have wn: "wfnodes (bstore st) h [l, r]" using s(1) by (simp add: stands_def)
  then have l: "wft (bstore st) h l" "wft (bstore st) h r" by auto
  note ml = tree_mono [OF le l(1)] and mr = tree_mono [OF le l(2)] and mb = tree_mono [OF le b]
  have wn': "wfnodes (bstore st') h [l, r]" using wn ml mr le by (auto simp: instore_def map_le_def dom_def)
  note p = wfkids_ptrs [OF wn']
  have "mean (ents (bstore st') (Suc h) n) (allm (bstore st') (Suc h) n) k = bindE (mean (ents (bstore st') h b) (allm (bstore st') h b) k) (mval k (msgsof k P))" for k
    using s(1) p ml mr mb by (simp add: ents_Suc allm_Suc n1 stands_def)
  moreover have "wft (bstore st') (Suc h) n" using p n1 by (simp add: wft_Suc)
  ultimately show ?thesis using 1(4) le e(2) by blast
qed

lemma stands_trans_mono:
  assumes "\<sigma> \<subseteq>\<^sub>m \<sigma>'" "stands \<sigma> h b P cs" "wft \<sigma> h b"
  shows "stands \<sigma>' h b P cs"
proof -
  have "wfnodes \<sigma>' h cs \<and> ckeys \<sigma>' h cs = ckeys \<sigma> h cs \<and> nents \<sigma>' h cs = nents \<sigma> h cs \<and> nallm \<sigma>' h cs = nallm \<sigma> h cs" if "wfnodes \<sigma> h cs"
    using that
  proof (induction cs)
    case (Cons c cs)
    then have "wft \<sigma> h c" "instore \<sigma> c" by auto
    with tree_mono [OF assms(1), of h c] Cons assms(1) show ?case by (auto simp: instore_def map_le_def dom_def)
  qed simp
  with assms(2) tree_mono [OF assms(1,3)] show ?thesis by (simp add: stands_def)
qed

lemma flush_top:
  assumes u: "flushloop st t [p0] (Some q) ds rp = Inr (st', path, Some i)" and b: "wft (bstore st) h b" "stands (bstore st) h b P (news (pnl q) (pnr q))"
    and ms: "ms = P @ Q" "npull q = int (length P)" and p0: "fresh_path p0" and rp: "rpok q rp 1"
  shows "flushed (bstore st') h b ms path i \<and> bstore st \<subseteq>\<^sub>m bstore st'"
proof (cases "pnl q \<noteq> None \<and> pnr q \<noteq> None")
  case True
  then obtain l r where lr: "pnl q = Some l" "pnr q = Some r" by auto
  with u obtain p0' where 1: "newroot st t p0 q = Inr (st', p0')" "path = p0' # q # ds" "i = 0" by (auto simp: res_simps)
  from newroot_stands [OF 1(1) _ lr b(1)] b(2) lr obtain n where
    n: "p0' = p0\<lparr>pnl := Some n, npull := npull q, pullsz := pullsz q\<rparr>" "bstore st \<subseteq>\<^sub>m bstore st'" "instore (bstore st') n" "wft (bstore st') (Suc h) n"
    "\<forall>k. mean (ents (bstore st') (Suc h) n) (allm (bstore st') (Suc h) n) k = bindE (mean (ents (bstore st') h b) (allm (bstore st') h b) k) (mval k (msgsof k P))" by auto
  then show ?thesis using 1(2,3) ms unfolding flushed_def
    by (intro conjI allI impI exI [of _ "Suc h"] exI [of _ P] exI [of _ Q]) auto
next
  case False
  with u have 1: "path = p0 # q # ds" "rp = Some i" "st' = st" by auto
  with rp False have "i = 1" "pnr q = None" by (auto simp: rpok_def)
  show ?thesis
  proof (cases "pnl q")
    case None
    then show ?thesis using 1 \<open>i = 1\<close> by (simp add: flushed_def)
  next
    case (Some n)
    with b(2) \<open>pnr q = None\<close> have "stands (bstore st) h b P [n]" by simp
    then show ?thesis using 1 \<open>i = 1\<close> ms Some p0 unfolding flushed_def stands_one
      by (intro conjI allI impI exI [of _ h] exI [of _ P] exI [of _ Q]) (auto simp: fresh_path_def)
  qed
qed

lemma chain_pending:
  assumes "chain \<sigma> h b ups ms" "sorted (map kk ms)" "\<forall>m \<in> set ms. okmsg m"
  shows "\<exists>M. pending (hd ups) = Inr M \<and> sorted (map kk M) \<and> (\<forall>m \<in> set M. okmsg m)"
  using assms
proof (induction \<sigma> h b ups ms rule: chain.induct)
  case (3 \<sigma> h b p pup up ms)
  from 3(2) obtain b' V1 e V2 A M B where c: "ins p = None" "pb p = Some b'" "wft \<sigma> (Suc h) b'" "segok b' p V1 e V2 A M B" by auto
  then have "ndmsgs b' = A @ M @ B" by (simp add: segok_def)
  with c(3) pending_seg [OF c(4,2,1)] show ?case by (auto simp: wft_Suc sorted_append)
qed auto

lemma level_update:
  assumes u: "trybalance st t p (Some q) (pidx p) = Inr (st1, p1, pp1)" "updatepiv st1 t pup p1 pp1 = Inr (st2, p2)"
    and b: "wft (bstore st) (Suc h) b'" "pb p = Some b'" "fits (bstore st) h b' p q V1 [e] V2 A P R" "pidx p = pmidx p"
    and q: "pop q = POmod \<longrightarrow> pnr q = None" "pop q \<noteq> POmerge" "news (pnl q) (pnr q) \<noteq> [] \<or> length (ndvals b') \<ge> 2"
    and ms: "pending pup = Inr ms" "sorted (map kk ms)" "\<forall>m \<in> set ms. okmsg m"
  shows "bstore st \<subseteq>\<^sub>m bstore st2 \<and> (\<exists>n G Q. ms = G @ Q \<and> pnl p2 = Some n \<and> pnr p2 = pnr p \<and> pop p2 = POmod \<and> npull p2 = int (length G) \<and>
    stands (bstore st2) (Suc h) b' G [n])"
proof -
  have wk: "wfkids (bstore st) h (ndvals b')" using b(1) by (simp add: wft_Suc)
  from trybalance_fits [OF u(1) b(2) wk b(3,4) q(1,2)] obtain q' W1 W W2 where
    1: "pp1 = Some q'" "bstore st \<subseteq>\<^sub>m bstore st1" "keeps p p1" "fits (bstore st1) h b' p1 q' W1 W W2 A P R"
      "news (pnl q) (pnr q) \<noteq> [] \<longrightarrow> news (pnl q') (pnr q') \<noteq> []" by (auto simp: balanced_fits_def)
  have keep: "W1 \<noteq> [] \<or> news (pnl q') (pnr q') \<noteq> [] \<or> W2 \<noteq> []"
  proof (cases "news (pnl q) (pnr q) = []")
    case True
    then have "pnl q = None" "pnr q = None" by (auto simp: news_def split: option.splits)
    with u(1) 1(1) have "q' = q" by (simp add: trybalance_def)
    with b(3) 1(4) have "width q' = 1" by (simp add: fits_def)
    with 1(4) q(3) True show ?thesis by (cases W1) (auto simp: fits_def)
  qed (use 1 in auto)
  have b1: "pb p1 = Some b'" "wft (bstore st1) (Suc h) b'" using 1(3) b(2) tree_mono [OF 1(2) b(1)] by (auto simp: keeps_def)
  from updatepiv_stands [OF u(2) [unfolded 1(1)] b1 1(4) ms keep] obtain n pull G Q where
    2: "bstore st1 \<subseteq>\<^sub>m bstore st2" "ms = G @ Q" "p2 = p1\<lparr>pullsz := pull, npull := int (length G), pop := POmod, pnl := Some n\<rparr>"
      "stands (bstore st2) (Suc h) b' G [n]" by blast
  have "pnl p2 = Some n" "pnr p2 = pnr p" "pop p2 = POmod" "npull p2 = int (length G)" using 2(3) 1(3) by (simp_all add: keeps_def)
  with 2 map_le_trans [OF 1(2) 2(1)] show ?thesis by blast
qed

lemma level_split:
  assumes u: "splitpiv st t p (Some q) = Inr (st2, p2)"
    and b: "wft (bstore st) (Suc h) b'" "pb p = Some b'" "fits (bstore st) h b' p q V1 [e] V2 A P R" "pidx p = pmidx p"
  shows "bstore st \<subseteq>\<^sub>m bstore st2 \<and> (\<exists>l r. p2 = p\<lparr>pop := POsplit, pnl := Some l, pnr := Some r\<rparr> \<and> stands (bstore st2) (Suc h) b' [] [l, r])"
proof -
  from u b(2) obtain own where "leftmsgs (ndmsgs b') p (Some q) = Inr own" by (auto simp: splitpiv_def Let_def res_simps)
  moreover have "width q = 1" using b(3) by (simp add: fits_def)
  ultimately show ?thesis using splitpiv_stands [OF u b(2,1,3) _ b(4)] by blast
qed

text \<open>The root is dropped: its only child holds everything.\<close>

lemma droproot_flushed:
  assumes f: "fits \<sigma> h b' p q V1 W V2 A P R" "pb p = Some b'" and d: "droproot p (Some q)"
    and p: "npull p = 0" "pnl p = None" "pnl pup = None"
  shows "flushed \<sigma> (Suc h) b' ms (pup # p # q\<lparr>npull := npull p\<rparr> # ds) 2"
proof -
  from d f(2) obtain n where q: "pnl q = Some n" "pnr q = None" "npull q = int (length (ndmsgs b'))"
    "pop q = POmerge \<and> length (ndvals b') = 2 \<or> pop q = POmod \<and> length (ndvals b') = 1" by (auto simp: droproot_def)
  have "length (ndvals b') = width q" using q(4) by (auto simp: width_def)
  with f(1) have "V1 = []" "V2 = []" "ndvals b' = W" by (auto simp: fits_def)
  moreover from f(1) q(3) have "A = []" "R = []" "ndmsgs b' = P" by (auto simp: fits_def)
  moreover have t: "takes \<sigma> h W P [n]" using f(1) q by (simp add: fits_def)
  ultimately have "mean (ents \<sigma> h n) (allm \<sigma> h n) k = mean (ents \<sigma> (Suc h) b') (allm \<sigma> (Suc h) b') k" for k
    by (simp add: takes_def ents_Suc allm_Suc mean_def mval_append)
  moreover have "wft \<sigma> h n" "instore \<sigma> n" using t by (auto simp: takes_def)
  ultimately show ?thesis unfolding flushed_def using q p
    by (intro allI impI exI [of _ h] exI [of _ "[]"] exI [of _ ms]) auto
qed

text \<open>Between two levels: the element \<open>q\<close> has been dealt with, the elements \<open>ups\<close> are left.\<close>

definition flushing :: "Bs \<Rightarrow> nat \<Rightarrow> Nd \<Rightarrow> Path list \<Rightarrow> Path \<Rightarrow> nat option \<Rightarrow> Msg list \<Rightarrow> bool" where
  "flushing st h b ups q rp ms \<longleftrightarrow> chain (bstore st) h b ups ms \<and> wft (bstore st) h b \<and> rpok q rp (length ups) \<and>
     (\<exists>P Q. stands (bstore st) h b P (news (pnl q) (pnr q)) \<and> pending (hd ups) = Inr (P @ Q) \<and> npull q = int (length P)) \<and>
     (news (pnl q) (pnr q) \<noteq> [] \<or> (\<forall>b'. pb (hd ups) = Some b' \<longrightarrow> length (ndvals b') \<ge> 2))"

lemma flushing_up:
  assumes c: "chain (bstore st) (Suc h) b' ups ms" "wft (bstore st) (Suc h) b'" "bstore st \<subseteq>\<^sub>m bstore st2"
    and p: "stands (bstore st2) (Suc h) b' G (news (pnl p2) (pnr p2))" "pending (hd ups) = Inr (G @ Q)" "npull p2 = int (length G)"
      "news (pnl p2) (pnr p2) \<noteq> []" "rpok p2 rp2 (length ups)"
  shows "flushing st2 (Suc h) b' ups p2 rp2 ms"
  using assms chain_mono [OF c(1,3)] tree_mono [OF c(3,2)] by (auto simp: flushing_def)

lemma flushloop_level:
  assumes r: "flushloop st t (p # pup # up) (Some q) ds rp = Inr (st', path, Some i)" and F: "flushing st h b (p # pup # up) q rp ms"
    and ms: "sorted (map kk ms)" "\<forall>m \<in> set ms. okmsg m" and b': "pb p = Some b'"
  shows "up = [] \<and> flushed (bstore st') (Suc h) b' ms path i \<and> bstore st \<subseteq>\<^sub>m bstore st' \<or>
    (\<exists>st2 p2 ds2 rp2. bstore st \<subseteq>\<^sub>m bstore st2 \<and> flushing st2 (Suc h) b' (pup # up) p2 rp2 ms \<and>
      flushloop st2 t (pup # up) (Some p2) ds2 rp2 = Inr (st', path, Some i))"
proof -
  from F b' obtain V1 e V2 A M B P Q where c: "fresh_path p" "ins p = None" "wft (bstore st) (Suc h) b'"
      "segok b' p V1 e V2 A M B" "kid (bstore st) e = Some b" "chain (bstore st) (Suc h) b' (pup # up) ms"
    and P: "stands (bstore st) h b P (news (pnl q) (pnr q))" "pending p = Inr (P @ Q)" "npull q = int (length P)"
    and nb: "news (pnl q) (pnr q) \<noteq> [] \<or> length (ndvals b') \<ge> 2" and rp: "rpok q rp (length (p # pup # up))" by (auto simp: flushing_def)
  from chain_pending [OF c(6) ms] obtain N where N: "pending pup = Inr N" "sorted (map kk N)" "\<forall>m \<in> set N. okmsg m" by auto
  have M: "M = P @ Q" using pending_seg [OF c(4) b' c(2)] P(2) by simp
  have q: "width q = 1" "pop q = POmod \<longrightarrow> pnr q = None" "pop q \<noteq> POmerge" using rp by (auto simp: rpok_def width_def)
  note f = stands_fits [OF c(3,4,5) P(1) M P(3) q(1)]
  have idx: "pidx p = pmidx p" using c(4) by (simp add: segok_def)
  from r b' consider
      (split) st2 p2 where "splitpiv st t p (Some q) = Inr (st2, p2)" "flushloop st2 t (pup # up) (Some p2) (pathtail (Some q) ds) rp = Inr (st', path, Some i)"
    | (drop) p1 q' where "trybalance st t p (Some q) (pidx p) = Inr (st', p1, Some q')" "up = []" "droproot p1 (Some q')" "path = pup # p1 # q'\<lparr>npull := npull p1\<rparr> # ds" "i = 2"
    | (update) st1 p1 pp1 st2 p2 where "trybalance st t p (Some q) (pidx p) = Inr (st1, p1, pp1)" "updatepiv st1 t pup p1 pp1 = Inr (st2, p2)"
        "flushloop st2 t (pup # up) (Some p2) (pathtail pp1 ds) (Some (length (pup # up))) = Inr (st', path, Some i)"
    by (auto simp: res_simps split: if_splits option.splits)
  then show ?thesis
  proof cases
    case split
    from level_split [OF split(1) c(3) b' f idx] obtain l r where s: "bstore st \<subseteq>\<^sub>m bstore st2" "p2 = p\<lparr>pop := POsplit, pnl := Some l, pnr := Some r\<rparr>"
      "stands (bstore st2) (Suc h) b' [] [l, r]" by blast
    then have "flushing st2 (Suc h) b' (pup # up) p2 rp ms" using flushing_up [OF c(6,3) s(1), of "[]" p2 N rp] N(1) c(1) by (simp add: rpok_def fresh_path_def)
    with split(2) s(1) show ?thesis by blast
  next
    case drop
    have wk: "wfkids (bstore st) h (ndvals b')" using c(3) by (simp add: wft_Suc)
    from trybalance_fits [OF drop(1) b' wk f idx q(2,3)] obtain W1 W W2 where
      1: "bstore st \<subseteq>\<^sub>m bstore st'" "keeps p p1" "fits (bstore st') h b' p1 q' W1 W W2 A P (Q @ B)" by (auto simp: balanced_fits_def)
    have "fresh_path pup" using c(6) drop(2) by simp
    with 1(2) c(1) b' have k: "pb p1 = Some b'" "npull p1 = 0" "pnl p1 = None" "pnl pup = None" by (auto simp: keeps_def fresh_path_def)
    from droproot_flushed [OF 1(3) k(1) drop(3) k(2-4), of ms ds] drop 1(1) show ?thesis by simp
  next
    case update
    from level_update [OF update(1,2) c(3) b' f idx q(2,3) nb N] obtain n G Q' where
      s: "bstore st \<subseteq>\<^sub>m bstore st2" "N = G @ Q'" "pnl p2 = Some n" "pnr p2 = pnr p" "pop p2 = POmod" "npull p2 = int (length G)" "stands (bstore st2) (Suc h) b' G [n]" by blast
    then have "flushing st2 (Suc h) b' (pup # up) p2 (Some (length (pup # up))) ms" using flushing_up [OF c(6,3) s(1), of G p2 Q'] N(1) c(1) by (simp add: rpok_def fresh_path_def)
    with update(3) s(1) show ?thesis by blast
  qed
qed

lemma flushloop_correct:
  assumes "flushloop st t ups (Some q) ds rp = Inr (st', path, Some i)" "flushing st h b ups q rp ms"
    and ms: "sorted (map kk ms)" "\<forall>m \<in> set ms. okmsg m"
  shows "flushed (bstore st') (h + length ups - 1) (rootof b ups) ms path i \<and> bstore st \<subseteq>\<^sub>m bstore st'"
  using assms(1,2)
proof (induction ups arbitrary: st h b q ds rp)
  case (Cons p ups)
  show ?case
  proof (cases ups)
    case Nil
    with Cons.prems(2) obtain P Q where "pending p = Inr ms" "fresh_path p" "wft (bstore st) h b" "stands (bstore st) h b P (news (pnl q) (pnr q))"
      "ms = P @ Q" "npull q = int (length P)" "rpok q rp 1" by (auto simp: flushing_def)
    with flush_top Cons.prems(1) Nil show ?thesis by auto
  next
    case (Cons pup up)
    from Cons.prems(2) Cons obtain b' where b': "pb p = Some b'" by (auto simp: flushing_def)
    from flushloop_level [OF Cons.prems [unfolded Cons] ms b'] show ?thesis
    proof (elim disjE exE conjE)
      fix st2 p2 ds2 rp2
      assume 2: "bstore st \<subseteq>\<^sub>m bstore st2" "flushing st2 (Suc h) b' (pup # up) p2 rp2 ms"
        "flushloop st2 t (pup # up) (Some p2) ds2 rp2 = Inr (st', path, Some i)"
      from Cons.IH [unfolded Cons, OF 2(3,2)] b' map_le_trans [OF 2(1)] show ?thesis by (simp add: Cons)
    qed (simp add: Cons b')
  qed
qed simp
text \<open>The node at the end of the path.\<close>

definition atend :: "Path \<Rightarrow> Nd \<Rightarrow> bool" where
  "atend p b \<longleftrightarrow> fresh_path p \<and> pb p = Some b \<and> pidx p < 0 \<and> plo p < 0"

lemma sound_leaf:
  assumes "wft \<sigma> 0 b" "sound \<sigma> 0 b M"
  shows "runok (ndvals b) M"
proof -
  have "\<exists>r. runkey (ndvals b) M k = Inr r" for k
  proof -
    from assms(2) obtain s where "mval k (msgsof k M) (lk (ndvals b) k) = Inr s" by (auto simp: sound_def mean_def)
    then show ?thesis by (auto simp: mval_def runkey_def msgsof_def res_simps)
  qed
  then show ?thesis by (simp add: runok_def)
qed

lemma flush_leaf:
  assumes r: "flush st t (p # pup # up) = Inr (st', path, Some i)" and b: "atend p b" "wft (bstore st) 0 b" "chain (bstore st) 0 b (pup # up) ms"
    and ms: "sorted (map kk ms)" "\<forall>m \<in> set ms. okmsg m" and sd: "sound (bstore st) (length up) (rootof b (pup # up)) ms"
    and two: "\<forall>b'. pb pup = Some b' \<longrightarrow> length (ndvals b') \<ge> 2"
  obtains st1 p1 ds rp where "flushing st1 0 b (pup # up) p1 rp ms" "flushloop st1 t (pup # up) (Some p1) ds rp = Inr (st', path, Some i)" "bstore st \<subseteq>\<^sub>m bstore st1"
proof -
  have p: "pb p = Some b" "fresh_path p" "ndtype b = Tleaf" using b by (auto simp: atend_def)
  from chain_sound [OF b(3)] sd obtain M where M: "pending pup = Inr M" "sound (bstore st) 0 b M" "msgspace M \<le> psz pup" by auto
  from chain_pending [OF b(3) ms] M(1) have a: "leafargs (ndvals b) M" using b(2) by (auto simp: leafargs_def)
  note ro = sound_leaf [OF b(2) M(2)]
  have inv: "flushing st1 0 b (pup # up) p1 rp ms"
    if "bstore st \<subseteq>\<^sub>m bstore st1" "stands (bstore st1) 0 b P (news (pnl p1) (pnr p1))" "M = P @ Q" "npull p1 = int (length P)" "rpok p1 rp (length (pup # up))" for st1 p1 rp P Q
    using that chain_mono [OF b(3) that(1)] tree_mono [OF that(1) b(2)] two M(1) by (auto simp: flushing_def)
  from r p obtain fl where fl: "n_filledleaf b (psz pup) = Inr fl" by (auto simp: flush_def res_simps)
  show thesis
  proof (cases fl)
    case True
    with r p fl obtain st1 p1 where u: "splitleaf st t pup p = Inr (st1, p1)"
      "flushloop st1 t (pup # up) (Some (p1\<lparr>pmidx := -1\<rparr>)) [] None = Inr (st', path, Some i)" by (auto simp: flush_def res_simps)
    from splitleaf_stands [OF u(1) p(1) b(2) M(1) a ro] obtain nl nr pull P Q where
      s: "bstore st \<subseteq>\<^sub>m bstore st1" "M = P @ Q" "p1 = p\<lparr>pullsz := pull, npull := int (length P), pop := POsplit, pnl := nl, pnr := nr\<rparr>"
        "stands (bstore st1) 0 b P (news nl nr)" by blast
    show thesis by (rule that [OF inv [OF s(1) _ s(2)] u(2) s(1)]) (use s in \<open>auto simp: rpok_def\<close>)
  next
    case False
    with r p fl obtain st1 p1 where u: "updateleaf st t pup p = Inr (st1, p1)"
      "flushloop st1 t (pup # up) (Some (p1\<lparr>pmidx := -1\<rparr>)) [] (Some (length (pup # up))) = Inr (st', path, Some i)" by (auto simp: flush_def res_simps)
    have "valspace (ndvals b) + 2 + msgspace M \<le> int Leafspc" using fl False M(3) p(3) by (auto simp: n_filledleaf_def)
    from updateleaf_stands [OF u(1) p(1) b(2) M(1) a ro this] obtain nl pull where
      s: "bstore st \<subseteq>\<^sub>m bstore st1" "p1 = p\<lparr>pullsz := pull, npull := int (length M), pop := POmod, pnl := nl\<rparr>" "stands (bstore st1) 0 b M (news nl None)" by blast
    show thesis by (rule that [OF inv [OF s(1), of M _ "[]"] u(2) s(1)]) (use s p(2) in \<open>auto simp: rpok_def fresh_path_def\<close>)
  qed
qed

lemma flush_pivot:
  assumes r: "flush st t (p # pup # up) = Inr (st', path, Some i)" and b: "atend p b" "wft (bstore st) (Suc h) b" "chain (bstore st) (Suc h) b (pup # up) ms"
    and ms: "sorted (map kk ms)" "\<forall>m \<in> set ms. okmsg m"
  obtains st1 p1 ds rp where "flushing st1 (Suc h) b (pup # up) p1 rp ms" "flushloop st1 t (pup # up) (Some p1) ds rp = Inr (st', path, Some i)" "bstore st \<subseteq>\<^sub>m bstore st1"
proof -
  have p: "pb p = Some b" "fresh_path p" "ndtype b = Tpivot" "plo p < 0" "pidx p < 0" using b by (auto simp: atend_def wft_Suc)
  from chain_pending [OF b(3) ms] obtain N where N: "pending pup = Inr N" "sorted (map kk N)" "\<forall>m \<in> set N. okmsg m" by auto
  from r p consider
      (split) st1 p1 where "splitpiv st t p None = Inr (st1, p1)" "flushloop st1 t (pup # up) (Some p1) (pathtail None []) None = Inr (st', path, Some i)"
    | (update) st1 p1 where "updatepiv st t pup p None = Inr (st1, p1)"
        "flushloop st1 t (pup # up) (Some p1) (pathtail None []) (Some (length (pup # up))) = Inr (st', path, Some i)"
    by (auto simp: flush_def trybalance_def droproot_def res_simps split: if_splits)
  then show thesis
  proof cases
    case split
    from splitpiv_bottom [OF split(1) p(1) b(2) p(4,5)] obtain l r where s: "bstore st \<subseteq>\<^sub>m bstore st1" "p1 = p\<lparr>pop := POsplit, pnl := Some l, pnr := Some r\<rparr>"
      "stands (bstore st1) (Suc h) b [] [l, r]" by blast
    have "flushing st1 (Suc h) b (pup # up) p1 None ms" using flushing_up [OF b(3,2) s(1), of "[]" p1 N] s N(1) p(2) by (simp add: rpok_def fresh_path_def)
    with that split(2) s(1) show thesis by blast
  next
    case update
    from updatepiv_bottom [OF update(1) p(1) b(2) p(4) N] obtain n pull G Q where s: "bstore st \<subseteq>\<^sub>m bstore st1" "N = G @ Q"
      "p1 = p\<lparr>pullsz := pull, npull := int (length G), pop := POmod, pnl := Some n\<rparr>" "stands (bstore st1) (Suc h) b G [n]" by blast
    have "flushing st1 (Suc h) b (pup # up) p1 (Some (length (pup # up))) ms" using flushing_up [OF b(3,2) s(1), of G p1 Q] s N(1) p(2) by (simp add: rpok_def fresh_path_def)
    with that update(2) s(1) show thesis by blast
  qed
qed

lemma flush_correct:
  assumes r: "flush st t (p # pup # up) = Inr (st', path, Some i)" and b: "atend p b" "wft (bstore st) h b" "chain (bstore st) h b (pup # up) ms"
    and ms: "sorted (map kk ms)" "\<forall>m \<in> set ms. okmsg m" and sd: "sound (bstore st) (h + length up) (rootof b (pup # up)) ms"
    and two: "h = 0 \<longrightarrow> (\<forall>b'. pb pup = Some b' \<longrightarrow> length (ndvals b') \<ge> 2)"
  shows "flushed (bstore st') (h + length up) (rootof b (pup # up)) ms path i \<and> bstore st \<subseteq>\<^sub>m bstore st'"
proof -
  obtain st1 p1 ds rp where 1: "flushing st1 h b (pup # up) p1 rp ms" "flushloop st1 t (pup # up) (Some p1) ds rp = Inr (st', path, Some i)" "bstore st \<subseteq>\<^sub>m bstore st1"
  proof (cases h)
    case 0
    have s: "sound (bstore st) (length up) (rootof b (pup # up)) ms" "\<forall>b'. pb pup = Some b' \<longrightarrow> length (ndvals b') \<ge> 2" using sd two 0 by auto
    show ?thesis by (rule flush_leaf [OF r b(1) b(2,3) [unfolded 0] ms s], rule that [unfolded 0])
  next
    case (Suc h')
    show ?thesis by (rule flush_pivot [OF r b(1) b(2,3) [unfolded Suc] ms], rule that [unfolded Suc])
  qed
  from flushloop_correct [OF 1(2,1) ms] map_le_trans [OF 1(3)] show ?thesis by simp
qed

end
