(* ===== verification/Gefs_Round.thy ===== *)
theory Gefs_Round
  imports Gefs_Upsert
begin

text \<open>
  The way down the tree (\<open>victim\<close>, \<open>keyvictim\<close>), the short cut of \<open>fastupsert\<close>, and a whole turn of
  \<open>btupsert1\<close>.
\<close>

section \<open>The way down\<close>

definition below :: "bytes option \<Rightarrow> Msg \<Rightarrow> bool" where
  "below k m \<longleftrightarrow> (case k of None \<Rightarrow> True | Some k' \<Rightarrow> kk m < k')"

lemma segment_takeWhile:
  "segment ms k j sz = (j + length (takeWhile (below k) ms), sz + msgspace (takeWhile (below k) ms), dropWhile (below k) ms)"
  by (induction ms k j sz rule: segment.induct) (auto simp: below_def keycmp_order split: option.splits)

lemma sorted_dropWhile_below:
  assumes "sorted (map kk ms)" "m \<in> set (dropWhile (below (Some k)) ms)"
  shows "k \<le> kk m"
  using assms by (induction ms) (auto simp: below_def split: if_splits)

lemma takeWhile_below: "m \<in> set (takeWhile (below (Some k)) ms) \<Longrightarrow> kk m < k"
  by (auto dest!: set_takeWhileD simp: below_def)

text \<open>An entry, the messages before it and the ones from it on.\<close>

definition cutmsgs :: "Kvp list \<Rightarrow> Kvp \<Rightarrow> Msg list \<Rightarrow> Msg list \<Rightarrow> bool" where
  "cutmsgs V1 e A ms \<longleftrightarrow> (V1 = [] \<longrightarrow> A = []) \<and> (V1 \<noteq> [] \<longrightarrow> (\<forall>m \<in> set A. kk m < kk e) \<and> (\<forall>m \<in> set ms. kk e \<le> kk m))"

lemma segok_cut:
  assumes "ndvals b = V1 @ e # V2" "sorted_wrt (<) (map kk (ndvals b))" "ndmsgs b = A @ ms" "cutmsgs V1 e A ms"
    and "M = takeWhile (below (case V2 of [] \<Rightarrow> None | e' # _ \<Rightarrow> Some (kk e'))) ms"
    and "p' = p\<lparr>pop := POmod, plo := int (length A), phi := int (length (A @ M)), psz := msgspace M, pidx := int (length V1),
      pmidx := int (length V1), npull := 0, pullsz := 0\<rparr>"
  shows "\<exists>B. segok b p' V1 e V2 A M B"
proof -
  let ?B = "dropWhile (below (case V2 of [] \<Rightarrow> None | e' # _ \<Rightarrow> Some (kk e'))) ms"
  have ms: "ms = M @ ?B" using assms(5) by simp
  have M: "\<forall>m \<in> set M. \<forall>v \<in> set V2. kk m < kk v"
  proof (cases V2)
    case (Cons e' V)
    with assms(2) assms(1) have "\<forall>v \<in> set V2. kk e' \<le> kk v" by (auto simp: sorted_wrt_append)
    then show ?thesis using takeWhile_below assms(5) Cons by (fastforce intro: less_le_trans)
  qed simp
  have A: "kk ` set A \<inter> kk ` set M = {}" "V1 \<noteq> [] \<longrightarrow> (\<forall>m \<in> set M. kk e \<le> kk m)"
    using assms(4) set_takeWhileD [of _ _ ms] unfolding assms(5) by (fastforce simp: cutmsgs_def)+
  show ?thesis
    using M A ms assms(1,3,6) by (intro exI [of _ ?B]) (auto simp: segok_def)
qed

declare victims.simps [simp del]

lemma victims_segok:
  assumes "ndvals b = V1 @ e # V2" "sorted_wrt (<) (map kk (ndvals b))" "sorted (map kk (ndmsgs b))" "ndmsgs b = A @ ms" "cutmsgs V1 e A ms"
    and "\<exists>V1 e V2 A M B. segok b p V1 e V2 A M B" "fresh_path p" "pb p = Some b" "ins p = None"
    and "p' = victims (map kk V2) (length V1) (length A) ms maxsz p"
  shows "(\<exists>V1 e V2 A M B. segok b p' V1 e V2 A M B) \<and> fresh_path p' \<and> pb p' = Some b \<and> ins p' = None"
  using assms
proof (induction V2 arbitrary: V1 e A ms maxsz p)
  case (Cons e' V2)
  define M where "M = takeWhile (below (Some (kk e'))) ms"
  define p1 where "p1 = p\<lparr>pop := POmod, plo := int (length A), phi := int (length (A @ M)), psz := msgspace M, pidx := int (length V1), pmidx := int (length V1), npull := 0, pullsz := 0\<rparr>"
  define p2 where "p2 = (if msgspace M > maxsz then p1 else p)"
  have s: "\<exists>B. segok b p1 V1 e (e' # V2) A M B" by (rule segok_cut [OF Cons.prems(1,2,4,5)]) (simp_all add: M_def p1_def)
  then have s2: "\<exists>V1 e V2 A M B. segok b p2 V1 e V2 A M B" using Cons.prems(6) unfolding p2_def by (cases "msgspace M > maxsz") (simp_all, blast)
  have f2: "fresh_path p2" "pb p2 = Some b" "ins p2 = None" using Cons.prems(7-9) by (auto simp: p2_def p1_def fresh_path_def)
  have ms: "ms = M @ dropWhile (below (Some (kk e'))) ms" by (simp add: M_def)
  have "sorted (map kk ms)" using Cons.prems(3,4) by (simp add: sorted_append)
  then have cut: "cutmsgs (V1 @ [e]) e' (A @ M) (dropWhile (below (Some (kk e'))) ms)"
  proof -
    have "\<forall>m \<in> set A. kk m < kk e'" using Cons.prems(1,2,5) by (cases "V1 = []") (auto simp: cutmsgs_def sorted_wrt_append intro: less_trans)
    then show ?thesis using takeWhile_below sorted_dropWhile_below [OF \<open>sorted (map kk ms)\<close>] by (auto simp: cutmsgs_def M_def)
  qed
  show ?case
  proof (rule Cons.IH [OF _ Cons.prems(2,3) _ cut s2 f2])
    show "p' = victims (map kk V2) (length (V1 @ [e])) (length (A @ M)) (dropWhile (below (Some (kk e'))) ms) (if msgspace M > maxsz then msgspace M else maxsz) p2"
      using Cons.prems(10) by (simp add: victims.simps [of "kk e' # map kk V2"] segment_takeWhile Let_def p2_def p1_def flip: M_def)
  qed (use Cons.prems ms in auto)
next
  case Nil
  define p1 where "p1 = p\<lparr>pop := POmod, plo := int (length A), phi := int (length (A @ ms)), psz := msgspace ms, pidx := int (length V1), pmidx := int (length V1), npull := 0, pullsz := 0\<rparr>"
  have t: "takeWhile (below None) ms = ms" by (simp add: below_def)
  have "\<exists>B. segok b p1 V1 e [] A ms B" by (rule segok_cut [OF Nil.prems(1,2,4,5)]) (simp_all add: p1_def t)
  moreover have "p' = (if msgspace ms > maxsz then p1 else p)" using Nil.prems(10) by (simp add: victims.simps [of "[]"] segment_takeWhile Let_def p1_def t)
  moreover have "fresh_path p1" "pb p1 = Some b" "ins p1 = None" using Nil.prems(7-9) by (auto simp: p1_def fresh_path_def)
  ultimately show ?case using Nil.prems(6-9) by (cases "msgspace ms > maxsz") (simp_all, blast)
qed

lemma victim_segok:
  assumes "wft \<sigma> (Suc h) b" "p = victim b path0"
  shows "(\<exists>V1 e V2 A M B. segok b p V1 e V2 A M B) \<and> fresh_path p \<and> pb p = Some b \<and> ins p = None"
proof -
  from assms(1) obtain e V2 where v: "ndvals b = [] @ e # V2" by (cases "ndvals b") (auto simp: wft_Suc)
  have s: "sorted_wrt (<) (map kk (ndvals b))" "sorted (map kk (ndmsgs b))" using wft_sorted [OF assms(1)] assms(1) by (auto simp: wft_Suc)
  have "segok b (path0\<lparr>pb := Some b\<rparr>) [] e V2 [] [] (ndmsgs b)" using v by (simp add: segok_def path0_def)
  then have 0: "\<exists>V1 e V2 A M B. segok b (path0\<lparr>pb := Some b\<rparr>) V1 e V2 A M B" by blast
  show ?thesis
    by (rule victims_segok [OF v s _ _ 0]) (use assms(2) v in \<open>auto simp: victim_def cutmsgs_def fresh_path_def path0_def\<close>)
qed

section \<open>Searches\<close>

lemma nthE_Inr [simp]: "nthE xs i = Inr x \<longleftrightarrow> 0 \<le> i \<and> i < int (length xs) \<and> x = xs ! nat i"
  by (auto simp: nthE_def)

lemma n_blksearch_found: "sorted (map kk (ndvals b)) \<Longrightarrow> n_blksearch b k = Inr (found (map kk (ndvals b)) k)"
  unfolding n_blksearch_def using search_correct [of "map kk (ndvals b)"] by (simp add: nthE_def)

lemma n_bufsearch_found: "sorted (map kk (ndmsgs b)) \<Longrightarrow> n_bufsearch b k = Inr (found (map kk (ndmsgs b)) k)"
  unfolding n_bufsearch_def using search_correct [of "map kk (ndmsgs b)"] by (simp add: nthE_def)

lemma keyvictim_Inr:
  assumes "keyvictim b p0 k nn = Inr (p, next)" "n_blksearch b k = Inr (j, same)" "i = (if j = -1 then 0 else j)"
    and "sep = map_option kk (if i + 1 < int (length (ndvals b)) then Some (ndvals b ! nat (i + 1)) else None)"
    and "lo = length (if i > 0 then takeWhile (below (Some (kk (ndvals b ! nat i)))) (ndmsgs b) else [])"
    and "M = takeWhile (below sep) (drop lo (ndmsgs b))"
  shows "p = p0\<lparr>pb := Some b, pop := POmod, plo := int lo, phi := int (lo + length M), psz := msgspace M, pidx := i, pmidx := i, npull := 0, pullsz := 0\<rparr>"
proof -
  have *: "(\<lambda>m. keycmp (kk m) x < 0) = below (Some x)" for x by (auto simp: below_def keycmp_order fun_eq_iff)
  have lo: "lo = (if i > 0 then length (takeWhile (\<lambda>m. keycmp (kk m) (kk (ndvals b ! nat i)) < 0) (ndmsgs b)) else 0)"
    unfolding * assms(5) by simp
  have sg: "segment (drop lo (ndmsgs b)) (map_option kk (if i + 1 < int (length (ndvals b)) then Some (ndvals b ! nat (i + 1)) else None)) lo 0 =
      (lo + length M, msgspace M, dropWhile (below sep) (drop lo (ndmsgs b)))"
    unfolding assms(4) [symmetric] assms(6) by (simp add: segment_takeWhile)
  from assms(1) show ?thesis
    unfolding keyvictim_def assms(2) bindE_simps prod.case Let_def
    unfolding assms(3) [symmetric]
    unfolding lo [symmetric] sg
    by (auto simp: res_simps)
qed

lemma keyvictim_segok:
  assumes b: "wft \<sigma> (Suc h) b" and u: "keyvictim b path0 k nn = Inr (p, next)"
  shows "(\<exists>V1 e V2 A M B. segok b p V1 e V2 A M B) \<and> fresh_path p \<and> pb p = Some b \<and> ins p = None"
proof -
  have s: "sorted_wrt (<) (map kk (ndvals b))" "sorted (map kk (ndmsgs b))" using wft_sorted [OF b] b by (auto simp: wft_Suc)
  define i where "i = (if fst (found (map kk (ndvals b)) k) = -1 then 0 else fst (found (map kk (ndvals b)) k))"
  have i: "0 \<le> i" "i < int (length (ndvals b))" using found_range [of "map kk (ndvals b)" k] b by (auto simp: i_def wft_Suc)
  define V1 e V2 where "V1 = take (nat i) (ndvals b)" and "e = ndvals b ! nat i" and "V2 = drop (Suc (nat i)) (ndvals b)"
  have v: "ndvals b = V1 @ e # V2" "length V1 = nat i" using i id_take_nth_drop [of "nat i" "ndvals b"] by (auto simp: V1_def V2_def e_def)
  define A where "A = (if i > 0 then takeWhile (below (Some (kk e))) (ndmsgs b) else [])"
  define ms where "ms = drop (length A) (ndmsgs b)"
  have m: "ndmsgs b = A @ ms" by (simp add: A_def ms_def flip: dropWhile_eq_drop)
  have cut: "cutmsgs V1 e A ms"
    using v(2) i takeWhile_below sorted_dropWhile_below [OF s(2)] by (auto simp: cutmsgs_def A_def ms_def simp flip: dropWhile_eq_drop)
  define sep where "sep = (case V2 of [] \<Rightarrow> None | e' # _ \<Rightarrow> Some (kk e'))"
  have sep: "map_option kk (if i + 1 < int (length (ndvals b)) then Some (ndvals b ! nat (i + 1)) else None) = sep"
    using v i by (cases V2) (auto simp: sep_def nth_append nat_add_distrib)
  define M where "M = takeWhile (below sep) ms"
  have so: "sorted (map kk (ndvals b))" using s(1) by (rule strict_sorted_imp_sorted)
  have "n_blksearch b k = Inr (fst (found (map kk (ndvals b)) k), snd (found (map kk (ndvals b)) k))" using n_blksearch_found [OF so] by simp
  from keyvictim_Inr [OF u this i_def sep [symmetric] refl refl]
  have p: "p = path0\<lparr>pb := Some b\<rparr>\<lparr>pop := POmod, plo := int (length A), phi := int (length (A @ M)), psz := msgspace M, pidx := int (length V1), pmidx := int (length V1), npull := 0, pullsz := 0\<rparr>"
    using i(1) v(2) unfolding M_def ms_def A_def e_def by simp
  from segok_cut [OF v(1) s(1) m cut M_def [unfolded sep_def] p] have "\<exists>V1 e V2 A M B. segok b p V1 e V2 A M B" by blast
  then show ?thesis using p by (simp add: fresh_path_def path0_def)
qed

text \<open>
  A pivot just above the leaves with one child only is not fit for a round: when its child
  loses its last entry, \<open>setb\<close> drops the pivot and the messages in it.
\<close>

fun twokids :: "(u64 \<Rightarrow> Nd option) \<Rightarrow> nat \<Rightarrow> Nd \<Rightarrow> bool" where
  "twokids \<sigma> 0 n \<longleftrightarrow> True"
| "twokids \<sigma> (Suc h) n \<longleftrightarrow> (h = 0 \<longrightarrow> length (ndvals n) \<ge> 2) \<and> (\<forall>c \<in> set (kids \<sigma> (ndvals n)). twokids \<sigma> h c)"

lemma kid_getblk:
  assumes "kid (bstore st) e = Some c" "unpackbp (kv e) = Inr bp" "getblk st bp = Inr n"
  shows "n = c"
  using assms by (auto simp: kid_def getptr_def getblk_def res_simps split: sum.splits option.splits if_splits)

lemma descend_chain:
  assumes "descend_path left st deep nn nmsg b path next = Inr (b', path', next')" "chain (bstore st) h b path ms" "wft (bstore st) h b"
    and "twokids (bstore st) h b" "h = 0 \<longrightarrow> (\<forall>c. pb (hd path) = Some c \<longrightarrow> length (ndvals c) \<ge> 2)"
  shows "\<exists>h'. chain (bstore st) h' b' path' ms \<and> wft (bstore st) h' b' \<and> h' + length path' = h + length path \<and> rootof b' path' = rootof b path \<and>
    (h' = 0 \<longrightarrow> (\<forall>c. pb (hd path') = Some c \<longrightarrow> length (ndvals c) \<ge> 2))"
  using assms
proof (induction left arbitrary: b path "next" h)
  case 0
  then have "b' = b" "path' = path" by (auto simp: descend_path.simps [of 0] res_simps split: if_splits)
  with 0 show ?case by blast
next
  case (Suc left)
  show ?case
  proof (cases "b' = b \<and> path' = path")
    case True
    with Suc.prems show ?thesis by blast
  next
    case False
    from Suc.prems(1) [unfolded descend_path.simps [of "Suc left"]] False obtain p nx sep bp c where
      1: "ndtype b = Tpivot" "(case deep of None \<Rightarrow> Inr (victim b path0, next) | Some k \<Rightarrow> bindE (keyvictim b path0 k nn) (\<lambda>(p, nx). Inr (p, if nx = None then next else nx))) = Inr (p, nx)"
        "nthE (ndvals b) (pidx p) = Inr sep" "unpackbp (kv sep) = Inr bp" "getblk st bp = Inr c" "descend_path left st deep nn nmsg c (p # path) nx = Inr (b', path', next')"
      by (auto simp: res_simps split: if_splits)
    from 1(1) Suc.prems(3) obtain h1 where h: "h = Suc h1" by (cases h) auto
    with Suc.prems(3) have w: "wft (bstore st) (Suc h1) b" by simp
    from 1(2) victim_segok [OF w] keyvictim_segok [OF w] have "(\<exists>V1 e V2 A M B. segok b p V1 e V2 A M B) \<and> fresh_path p \<and> pb p = Some b \<and> ins p = None"
      by (cases deep) (auto simp: res_simps)
    then obtain V1 e V2 A M B where p: "segok b p V1 e V2 A M B" "fresh_path p" "pb p = Some b" "ins p = None" by blast
    have v: "ndvals b = V1 @ e # V2" using p(1) by (simp add: segok_def)
    have "sep = e" using 1(3) p(1) by (simp add: segok_def)
    moreover from w v obtain c' where c': "kid (bstore st) e = Some c'" "wft (bstore st) h1 c'" by (auto simp: wft_Suc wfkids_def)
    ultimately have c: "kid (bstore st) e = Some c" "wft (bstore st) h1 c" using kid_getblk [OF c'(1) _ 1(5)] 1(4) by auto
    have tw: "twokids (bstore st) h1 c" "h1 = 0 \<longrightarrow> length (ndvals b) \<ge> 2" using Suc.prems(4) c(1) v by (auto simp: h)
    obtain pup up where path: "path = pup # up" using Suc.prems(2) by (cases path) auto
    have "chain (bstore st) h1 c (p # path) ms"
      using p c w Suc.prems(2) unfolding path chain.simps h by blast
    from Suc.IH [OF 1(6) this c(2) tw(1)] tw(2) p(3) show ?thesis by (simp add: h path)
  qed
qed

section \<open>\<open>fastupsert\<close>\<close>

definition upto_key :: "bytes \<Rightarrow> Msg list \<Rightarrow> nat" where
  "upto_key k xs = length (takeWhile (\<lambda>m. kk m \<le> k) xs)"

lemma upto_key_nth: "sorted (map kk xs) \<Longrightarrow> i < length xs \<Longrightarrow> kk (xs ! i) \<le> k \<longleftrightarrow> i < upto_key k xs"
proof (induction xs arbitrary: i)
  case (Cons x xs)
  show ?case
  proof (cases i)
    case (Suc j)
    with Cons.prems have "kk x \<le> kk (xs ! j)" by auto
    then have "\<not> kk x \<le> k \<Longrightarrow> \<not> kk (xs ! j) \<le> k" by order
    with Cons Suc show ?thesis by (auto simp: upto_key_def)
  qed (simp add: upto_key_def)
qed simp

lemma upto_key_le: "upto_key k xs \<le> length xs"
  by (simp add: upto_key_def length_takeWhile_le)

lemma fastsearch_correct:
  assumes "sorted (map kk xs)" "0 \<le> lo" "lo \<le> int (upto_key k xs)" "int (upto_key k xs) \<le> hi + 1" "hi < int (length xs)"
    and "ri = -1 \<or> ri = lo \<and> 0 < lo \<and> kk (xs ! nat (lo - 1)) = k"
  shows "fastsearch (xs @ ys) k ri lo hi = Inr (int (upto_key k xs))"
  using assms(2-)
proof (induction "nat (hi - lo + 1)" arbitrary: ri lo hi rule: less_induct)
  case less
  show ?case
  proof (cases "lo \<le> hi")
    case False
    with less.prems show ?thesis by (auto simp: fastsearch.simps [of _ k ri lo hi])
  next
    case True
    define mid where "mid = (hi + lo) div 2"
    have m: "lo \<le> mid" "mid \<le> hi" using True by (auto simp: mid_def)
    have nm: "nat mid < length xs" using m less.prems by auto
    define x where "x = kk (xs ! nat mid)"
    have g: "nthE (xs @ ys) mid = Inr (xs ! nat mid)" using m less.prems nm by (simp add: nth_append)
    have rank: "x \<le> k \<longleftrightarrow> mid < int (upto_key k xs)" using upto_key_nth [OF assms(1) nm, of k] m less.prems(1) by (auto simp: x_def)
    have step: "fastsearch (xs @ ys) k ri lo hi = (if k < x then fastsearch (xs @ ys) k ri lo (mid - 1)
        else if k = x then fastsearch (xs @ ys) k (mid + 1) (mid + 1) hi else fastsearch (xs @ ys) k ri (mid + 1) hi)"
      using True g by (subst fastsearch.simps) (auto simp: keycmp_order x_def simp del: nthE_Inr simp flip: mid_def)
    consider "k < x" | "k = x" | "x < k" by fastforce
    then show ?thesis
    proof cases
      case 1
      then have "int (upto_key k xs) \<le> mid" using rank by auto
      then show ?thesis using 1 step less.hyps [of "mid - 1" lo ri] less.prems m True by (simp add: step)
    next
      case 2
      then have "mid < int (upto_key k xs)" using rank by auto
      then have "fastsearch (xs @ ys) k (mid + 1) (mid + 1) hi = Inr (int (upto_key k xs))"
        using 2 less.prems m by (intro less.hyps) (auto simp: x_def)
      then show ?thesis unfolding step using 2 by simp
    next
      case 3
      have "ri = -1"
      proof (rule ccontr)
        assume "ri \<noteq> -1"
        with less.prems have "0 < lo" "kk (xs ! nat (lo - 1)) = k" by auto
        moreover have "kk (xs ! nat (lo - 1)) \<le> x" using sorted_nth_mono [OF assms(1), of "nat (lo - 1)" "nat mid"] m nm \<open>0 < lo\<close> by (simp add: x_def)
        ultimately show False using 3 by simp
      qed
      moreover have "mid < int (upto_key k xs)" using 3 rank by auto
      ultimately have "fastsearch (xs @ ys) k ri (mid + 1) hi = Inr (int (upto_key k xs))"
        using less.prems m by (intro less.hyps) auto
      moreover have "\<not> k < x" "k \<noteq> x" using 3 by auto
      ultimately show ?thesis unfolding step by simp
    qed
  qed
qed

definition insr :: "Msg \<Rightarrow> Msg list \<Rightarrow> Msg list" where
  "insr m xs = takeWhile (\<lambda>x. kk x \<le> kk m) xs @ m # dropWhile (\<lambda>x. kk x \<le> kk m) xs"

lemma insr_joins:
  assumes "sorted (map kk xs)"
  shows "joins xs [m] (insr m xs)"
  using assms
proof (induction xs)
  case (Cons x xs)
  then have j: "joins xs [m] (insr m xs)" by simp
  show ?case
  proof (cases "kk x \<le> kk m")
    case True
    with Cons joins_Cons [OF j, of x] show ?thesis by (simp add: insr_def)
  next
    case False
    with Cons have "\<forall>y \<in> set (x # xs). kk m < kk y" by auto
    then have "msgsof (kk m) (x # xs) = []" by (intro msgsof_notin) force
    then show ?thesis using False Cons by (auto simp: insr_def joins_def split: if_splits)
  qed
qed (simp add: insr_def joins_def)

lemma joins_trans:
  assumes "joins own a xs" "joins xs b ys"
  shows "joins own (a @ b) ys"
  using assms by (auto simp: joins_def)

lemma placemsgs_correct:
  assumes "sorted (map kk xs)"
  shows "\<exists>ms. placemsgs msg (length xs) (xs @ msg) = Inr ms \<and> joins xs msg ms"
  using assms
proof (induction msg arbitrary: xs)
  case (Cons m msg)
  let ?r = "upto_key (kk m) xs"
  have f: "fastsearch (xs @ m # msg) (kk m) (-1) 0 (int (length xs) - 1) = Inr (int ?r)"
    by (rule fastsearch_correct [OF Cons.prems]) (auto simp: upto_key_le)
  have mv: "moveto (xs @ m # msg) ?r (length xs) = insr m xs @ msg"
    using upto_key_le [of "kk m" xs] takeWhile_eq_take [of "\<lambda>x. kk x \<le> kk m" xs] dropWhile_eq_drop [of "\<lambda>x. kk x \<le> kk m" xs]
    by (simp add: moveto_def insr_def upto_key_def)
  note j = insr_joins [OF Cons.prems, of m]
  then have s: "sorted (map kk (insr m xs))" "length (insr m xs) = Suc (length xs)"
    by (simp_all add: joins_def insr_def) (metis add_Suc_right length_append takeWhile_dropWhile_id)
  from Cons.IH [OF s(1)] s(2) obtain ms where ms: "placemsgs msg (Suc (length xs)) (insr m xs @ msg) = Inr ms" "joins (insr m xs) msg ms" by auto
  from joins_trans [OF j ms(2)] ms(1) f mv show ?case by simp
qed (simp add: joins_def)

lemma fastupsert_stands:
  assumes u: "fastupsert st t b msg = Inr (st', t')" and b: "wft (bstore st) (Suc h) b" and ms: "\<forall>m \<in> set msg. okmsg m"
  shows "bstore st \<subseteq>\<^sub>m bstore st' \<and> (\<exists>n. t' = t\<lparr>tbp := ndbp n, tdirty := True\<rparr> \<and> stands (bstore st') (Suc h) b msg [n])"
proof -
  from u obtain st1 r r' ms' st2 n where 1: "dupblk st t b = Inr (st1, r)" "setmsgs msg r = Inr r'" "placemsgs msg (length (ndmsgs b)) (ndmsgs r') = Inr ms'"
    "enqueue st1 (r'\<lparr>ndmsgs := ms'\<rparr>) = Inr (st2, n)" "st' = freeblk st2 t b" "t' = t\<lparr>tbp := ndbp n, tdirty := True\<rparr>"
    by (auto simp: fastupsert_def res_simps)
  from 1(1) have r: "bstore st1 = bstore st" "ndvals r = ndvals b" "ndmsgs r = ndmsgs b" "ndtype r = ndtype b"
    by (auto simp: dupblk_def res_simps dest: newblk_Inr)
  note r' = setmsgs_Inr [OF 1(2)] and e = enqueue_Inr [OF 1(4)]
  have "sorted (map kk (ndmsgs b))" using b by (simp add: wft_Suc)
  from placemsgs_correct [OF this, of msg] 1(3) r' r have j: "joins (ndmsgs b) msg ms'" by auto
  have le: "bstore st \<subseteq>\<^sub>m bstore st'" using e(1) r(1) 1(5) by simp
  have "wft (bstore st') (Suc h) b" using tree_mono [OF le b] by simp
  from joins_stands [OF this _ _ _ _ ms order_refl, of n] have "stands (bstore st') (Suc h) b msg [n]"
    using e j r r' 1(5) by simp
  with le 1(6) show ?thesis by blast
qed

section \<open>A turn of \<open>btupsert1\<close>\<close>

text \<open>The tree \<open>t\<close> is in order: its root is in the store, of the height the tree has.\<close>

definition rooted :: "Bs \<Rightarrow> Tree \<Rightarrow> nat \<Rightarrow> Nd \<Rightarrow> bool" where
  "rooted st t h b \<longleftrightarrow> getblk st (tbp t) = Inr b \<and> wft (bstore st) h b \<and> unat (tht t) = Suc h"

definition meaning :: "Bs \<Rightarrow> nat \<Rightarrow> Nd \<Rightarrow> bytes \<Rightarrow> bytes option res" where
  "meaning st h b k = mean (ents (bstore st) h b) (allm (bstore st) h b) k"

lemma freepath_store [simp]: "bstore (freepath st t path) = bstore st"
  unfolding freepath_def by (induction path arbitrary: st) (auto simp: Let_def split: option.splits)

lemma instore_getblk: "instore (bstore st) n \<Longrightarrow> getblk st (ndbp n) = Inr n"
  by (simp add: instore_def getblk_def)

text \<open>What a turn has done: the messages \<open>P\<close> are in the tree.\<close>

definition upserted :: "Bs \<Rightarrow> nat \<Rightarrow> Nd \<Rightarrow> Bs \<Rightarrow> Tree \<Rightarrow> Msg list \<Rightarrow> bool" where
  "upserted st h b st' t' P \<longleftrightarrow> (\<exists>h' b'. rooted st' t' h' b' \<and>
     (\<forall>k. meaning st' h' b' k = bindE (meaning st h b k) (mval k (msgsof k P))))"

lemma fast_upserted:
  assumes u: "fastupsert st t b msg = Inr (st', t')" and b: "rooted st t h b" "ndtype b = Tpivot" and ms: "\<forall>m \<in> set msg. okmsg m"
  shows "upserted st h b st' t' msg"
proof -
  from b obtain h1 where h: "h = Suc h1" by (cases h) (auto simp: rooted_def)
  have w: "wft (bstore st) (Suc h1) b" using b(1) h by (simp add: rooted_def)
  from fastupsert_stands [OF u w ms] obtain n where n: "bstore st \<subseteq>\<^sub>m bstore st'" "t' = t\<lparr>tbp := ndbp n, tdirty := True\<rparr>" "stands (bstore st') (Suc h1) b msg [n]" by blast
  from n(3) have s: "wft (bstore st') h n" "instore (bstore st') n"
    "\<forall>k. mean (ents (bstore st') h n) (allm (bstore st') h n) k = bindE (mean (ents (bstore st') h b) (allm (bstore st') h b) k) (mval k (msgsof k msg))"
    by (simp_all add: stands_one h)
  have "rooted st' t' h n" using n(2) s b(1) by (simp add: rooted_def instore_getblk)
  moreover have "\<forall>k. meaning st' h n k = bindE (meaning st h b k) (mval k (msgsof k msg))"
    using s(3) tree_mono [OF n(1), of h b] w h by (simp add: meaning_def)
  ultimately show ?thesis unfolding upserted_def by blast
qed

lemma flush_upserted:
  assumes u: "flush st t (p # path) = Inr (st', path', Some i)" "pnl (path' ! i) = Some rb"
    and d: "descend_path left st deep nn nmsg b [p0] next = Inr (c, path, next')" and p: "atend p c"
    and p0: "pending p0 = Inr ms" "fresh_path p0" "msgspace ms \<le> psz p0" "pb p0 = None"
    and b: "rooted st t h b" "twokids (bstore st) h b" "sound (bstore st) h b ms" and ms: "sorted (map kk ms)" "\<forall>m \<in> set ms. okmsg m"
  shows "flushed (bstore st') h b ms path' i \<and> bstore st \<subseteq>\<^sub>m bstore st'"
proof -
  have "chain (bstore st) h b [p0] ms" using p0 by simp
  from descend_chain [OF d this] b p0(4) obtain h' where
    h': "chain (bstore st) h' c path ms" "wft (bstore st) h' c" "h' + length path = h + 1" "rootof c path = b"
      "h' = 0 \<longrightarrow> (\<forall>c. pb (hd path) = Some c \<longrightarrow> length (ndvals c) \<ge> 2)" by (auto simp: rooted_def)
  from h'(1) obtain pup up where path: "path = pup # up" by (cases path) auto
  with h'(3) have h: "h' + length up = h" by simp
  from flush_correct [OF u(1) [unfolded path] p h'(2) h'(1) [unfolded path] ms] h'(4,5) b(3) show ?thesis unfolding h path by simp
qed

lemma height_step:
  fixes n :: u32
  assumes "unat n = Suc h" "h + 2 < 2 ^ 32" "int h' = int h + x" "d = of_int x" "x \<in> {-1, 0, 1}"
  shows "unat (n + d) = Suc h'"
proof -
  have "n + d = of_nat (Suc h) + d" using assms(1) by (metis of_nat_unat ucast_id)
  also have "of_nat (Suc h) + d = of_int (int (Suc h) + x)" using assms(4) by simp
  also have "int (Suc h) + x = int (Suc h')" using assms(3) by simp
  finally have "n + d = of_nat (Suc h')" by (simp only: of_int_of_nat_eq)
  moreover have "Suc h' < 2 ^ 32" using assms(2,3,5) by auto
  ultimately show ?thesis by (simp only: unat_of_nat) (simp add: take_bit_nat_eq_self)
qed

lemma upround_cases:
  assumes r: "upround st t msg sz np deep nn next = Inr (st', t', again, next')" and gb: "getblk st (tbp t) = Inr b"
    and p0: "p0 = path0\<lparr>pidx := -1, pmidx := -1, psz := sz, ins := Some msg, plo := np, phi := int (length msg)\<rparr>"
  obtains (leaf) "deep \<noteq> None" "st' = st" "t' = t" "again = None"
    | (fast) "np = 0" "ndtype b = Tpivot" "fastupsert st t b msg = Inr (st', t')" "again = None"
    | (flush) c path nx st1 path' i rb dh where
        "descend_path (unat (tht t)) st deep nn (int (length msg)) b [p0] next = Inr (c, path, nx)"
        "flush st t (path0\<lparr>pb := Some c, pidx := -1, pmidx := -1, plo := -1, phi := -1\<rparr> # path) = Inr (st1, path', Some i)"
        "pnl (path' ! i) = Some rb" "st' = freepath st1 t path'" "t' = t\<lparr>tht := tht t + dh, tbp := ndbp rb, tdirty := True\<rparr>"
        "again = (if np + npull (path' ! i) \<noteq> int (length msg) \<or> ndtype rb = Tpivot \<and> length (ndvals rb) = 1 then Some (np + npull (path' ! i)) else None)"
        "dh = (if pnl (path' ! 0) \<noteq> None then 1 else if pnl (path' ! 1) \<noteq> None then 0 else -1)"
proof -
  note r' = r [unfolded upround_def gb bindE_simps]
  show thesis
  proof (cases "deep \<noteq> None \<and> ndtype b = Tleaf")
    case True
    with r' leaf show thesis by simp
  next
    case leaf: False
    note r1 = r' [unfolded if_not_P [OF leaf]]
    show thesis
    proof (cases "deep = None \<and> np = 0 \<and> ndtype b = Tpivot \<and> length (ndvals b) > 1 \<and> n_filledbuf b (int (length msg)) sz = Inr False")
      case True
      from r1 [unfolded if_P [OF True]] True fast show thesis by (auto simp: res_simps)
    next
      case False
      note r2 = r1 [unfolded if_not_P [OF False] Let_def p0 [symmetric]]
      from r2 obtain c path nx st1 path' j where 1: "descend_path (unat (tht t)) st deep nn (int (length msg)) b [p0] next = Inr (c, path, nx)"
        "flush st t (path0\<lparr>pb := Some c, pidx := -1, pmidx := -1, plo := -1, phi := -1\<rparr> # path) = Inr (st1, path', j)"
        by (auto simp: bindE_Inr_iff)
      note r3 = r2 [unfolded 1 bindE_simps prod.case]
      from r3 obtain i where i: "j = Some i" by (cases j) auto
      note r4 = r3 [unfolded i option.case 1 bindE_simps prod.case]
      from r4 obtain rb where rb: "pnl (path' ! i) = Some rb" by (cases "pnl (path' ! i)") auto
      note r5 = r4 [unfolded rb option.case]
      from flush [OF 1(1) 1(2) [unfolded i] rb] r5 show thesis by (auto simp: res_simps split: if_splits)
    qed
  qed
qed

lemma upround_correct:
  assumes r: "upround st t msg sz np deep nn next = Inr (st', t', again, next')"
    and b: "rooted st t h b" "h + 2 < 2 ^ 32" "twokids (bstore st) h b" "sound (bstore st) h b (drop (nat np) msg)"
    and ms: "sorted (map kk msg)" "\<forall>m \<in> set msg. okmsg m" "msgspace msg \<le> sz" "0 \<le> np" "np \<le> int (length msg)" "deep = None \<or> msg = []"
  shows "\<exists>P Q. drop (nat np) msg = P @ Q \<and> upserted st h b st' t' P \<and> (again = None \<longrightarrow> Q = []) \<and> (\<forall>n. again = Some n \<longrightarrow> n = np + int (length P))"
proof -
  define p0 where "p0 = path0\<lparr>pidx := -1, pmidx := -1, psz := sz, ins := Some msg, plo := np, phi := int (length msg)\<rparr>"
  let ?ms = "drop (nat np) msg"
  have gb: "getblk st (tbp t) = Inr b" using b(1) by (simp add: rooted_def)
  from r gb p0_def show ?thesis
  proof (cases rule: upround_cases)
    case leaf
    then have "upserted st h b st' t' []" "msg = []" using b(1) ms(6) by (auto simp: upserted_def)
    then show ?thesis using leaf by auto
  next
    case fast
    from fast_upserted [OF fast(3) b(1) fast(2) ms(2)] fast show ?thesis by auto
  next
    case (flush c path nx st1 path' i rb dh)
    let ?p = "path0\<lparr>pb := Some c, pidx := -1, pmidx := -1, plo := -1, phi := -1\<rparr>"
    have "msgspace ?ms \<le> msgspace msg" using ndspace_nonneg(2) [of "take (nat np) msg"] ndspace_simps(6) [of "take (nat np) msg" ?ms] by simp
    then have p0: "pending p0 = Inr ?ms" "fresh_path p0" "msgspace ?ms \<le> psz p0" "pb p0 = None"
      using ms(3-5) by (auto simp: p0_def pending_def pmsgs_def path0_def fresh_path_def)
    have s: "sorted (map kk ?ms)" "\<forall>m \<in> set ?ms. okmsg m" using ms(1,2) by (auto simp: drop_map [symmetric] sorted_wrt_drop dest: in_set_dropD)
    have "atend ?p c" by (simp add: atend_def path0_def fresh_path_def)
    from flush_upserted [OF flush(2,3,1) this p0 b(1,3,4) s] flush(3) obtain h' P Q where
      f: "instore (bstore st1) rb" "wft (bstore st1) h' rb" "?ms = P @ Q" "npull (path' ! i) = int (length P)"
        "\<forall>k. mean (ents (bstore st1) h' rb) (allm (bstore st1) h' rb) k = bindE (mean (ents (bstore st1) h b) (allm (bstore st1) h b) k) (mval k (msgsof k P))"
        "int h' = int h + (if pnl (path' ! 0) \<noteq> None then 1 else if pnl (path' ! 1) \<noteq> None then 0 else -1)" "bstore st \<subseteq>\<^sub>m bstore st1"
      unfolding flushed_def by blast
    have "unat (tht t + dh) = Suc h'"
      by (rule height_step [where x = "if pnl (path' ! 0) \<noteq> None then 1 else if pnl (path' ! 1) \<noteq> None then 0 else -1"])
        (use f(6) b(1,2) flush(7) in \<open>auto simp: rooted_def\<close>)
    then have "rooted st' t' h' rb" using f(1,2) flush(4,5) by (simp add: rooted_def instore_def getblk_def)
    moreover have "\<forall>k. meaning st' h' rb k = bindE (meaning st h b k) (mval k (msgsof k P))"
      using f(5) tree_mono [OF f(7), of h b] b(1) flush(4) by (simp add: meaning_def rooted_def)
    ultimately have "upserted st h b st' t' P" unfolding upserted_def by blast
    moreover have "length ?ms = length P + length Q" unfolding f(3) by simp
    then have "np + int (length P) = int (length msg) \<longrightarrow> length Q = 0" using ms(4,5) by (simp del: length_0_conv) linarith
    then have "again = None \<longrightarrow> Q = []" using flush(6) f(4) by (auto split: if_splits)
    ultimately show ?thesis using f(3,4) flush(6) by (intro exI [of _ P] exI [of _ Q]) (auto split: if_splits)
  qed
qed

end
