(* ===== verification/Gefs_Lookup.thy ===== *)
theory Gefs_Lookup
  imports Gefs_Round
begin

text \<open>\<open>btlookup\<close> finds the meaning of a key.\<close>

section \<open>The messages of one node\<close>

text \<open>\<open>(ok, r)\<close> is how \<open>btlookup\<close> holds a value or its absence.\<close>

definition holds :: "bytes \<Rightarrow> bool \<Rightarrow> Kvp \<Rightarrow> bytes option \<Rightarrow> bool" where
  "holds k ok r s \<longleftrightarrow> (ok \<longleftrightarrow> s \<noteq> None) \<and> (\<forall>v. s = Some v \<longrightarrow> r = \<lparr>kk = k, kv = v\<rparr>) \<and> okst k s"

lemma apply_msg_room:
  assumes "apply_msg e m Msgmax = Inr x" "okmsg m" "768 \<le> nn"
  shows "apply_msg e m nn = Inr x"
  using assms by (auto simp: apply_msg_def cpkvp_def okmsg_def res_simps split: if_splits)

lemma mval_ConsE:
  assumes "mval k (m # ms) s = Inr s'"
  obtains s1 where "mval k [m] s = Inr s1" "mval k ms s1 = Inr s'"
proof -
  have "bindE (mval k [m] s) (mval k ms) = Inr s'" using assms mval_append [of k "[m]" ms s] by simp
  with that show thesis by (auto simp: bindE_Inr_iff)
qed

lemma mval_one: "mval k [m] s = Inr s' \<longleftrightarrow> (\<exists>f. mstep k m s = Inr (s', f))"
  by (auto simp: mval_def res_simps)

lemma holds_step:
  assumes h: "holds k ok r s" and m: "okmsg m" "kk m = k" and v: "mval k [m] s = Inr s'" and nn: "768 \<le> nn"
  shows "\<exists>ok' r'. apply_msg r m nn = Inr (ok', r') \<and> holds k ok' r' s'" "\<not> ok \<Longrightarrow> mop m = Oinsert \<or> mop m = Oclearb \<or> mop m = Oclobber"
proof -
  from v obtain f where f: "mstep k m s = Inr (s', f)" by (auto simp: mval_one)
  have "okst k s" using h by (simp add: holds_def)
  from mstep_ok [OF this m f] have os: "okst k s'" by simp
  show "\<exists>ok' r'. apply_msg r m nn = Inr (ok', r') \<and> holds k ok' r' s'"
  proof (cases s)
    case None
    with f m os nn show ?thesis
      by (auto simp: mstep_def apply_msg_def cpkvp_def holds_def okmsg_def assertE_def split: if_splits)
  next
    case (Some v)
    with h have r: "r = \<lparr>kk = k, kv = v\<rparr>" by (simp add: holds_def)
    from f Some r obtain ok' e where a: "apply_msg r m Msgmax = Inr (ok', e)" "s' = (if ok' then Some (kv e) else None)"
      by (auto simp: mstep_def res_simps)
    have "okkv r" using h Some r by (simp add: holds_def okst_def)
    from apply_msg_entry [OF this m(1) _ a(1)] m(2) r have "kk e = k" by simp
    then have "holds k ok' e s'" using a(2) os by (auto simp: holds_def)
    with apply_msg_room [OF a(1) m(1) nn] show ?thesis by blast
  qed
  show "mop m = Oinsert \<or> mop m = Oclearb \<or> mop m = Oclobber" if "\<not> ok"
    using f h that by (auto simp: holds_def mstep_def split: if_splits)
qed

lemma applywhile_run:
  assumes "holds k ok r s" "\<forall>m \<in> set ms. okmsg m" "mval k (takeWhile (\<lambda>m. kk m = k) ms) s = Inr s'" "768 \<le> nn"
  shows "\<exists>ok' r'. applywhile ms k ok r nn = Inr (ok', r') \<and> holds k ok' r' s'"
  using assms
proof (induction ms arbitrary: ok r s)
  case (Cons m ms)
  show ?case
  proof (cases "kk m = k")
    case True
    with Cons.prems(3) have "mval k (m # takeWhile (\<lambda>m. kk m = k) ms) s = Inr s'" by simp
    then obtain s1 where s1: "mval k [m] s = Inr s1" "mval k (takeWhile (\<lambda>m. kk m = k) ms) s1 = Inr s'" by (rule mval_ConsE)
    from holds_step(1) [OF Cons.prems(1) _ True s1(1) Cons.prems(4)] Cons.prems(2) obtain ok1 r1 where
      1: "apply_msg r m nn = Inr (ok1, r1)" "holds k ok1 r1 s1" by auto
    from Cons.IH [OF 1(2) _ s1(2) Cons.prems(4)] Cons.prems(2) 1(1) True show ?thesis by (auto simp: keycmp_order)
  next
    case False
    with Cons.prems show ?thesis by (auto simp: keycmp_order)
  qed
qed auto

lemma sorted_run:
  assumes "sorted (map kk ms)" "k \<in> kk ` set ms" "j = rankof (map kk ms) k"
  shows "j < length ms" "kk (ms ! j) = k" "msgsof k ms = ms ! j # takeWhile (\<lambda>m. kk m = k) (drop (Suc j) ms)"
proof -
  have "\<exists>m. ms ! rankof (map kk ms) k = m \<and> kk m = k \<and> rankof (map kk ms) k < length ms \<and>
      msgsof k ms = m # takeWhile (\<lambda>m. kk m = k) (drop (Suc (rankof (map kk ms) k)) ms)"
    using assms(1,2)
  proof (induction ms)
    case (Cons m ms)
    show ?case
    proof (cases "kk m < k")
      case True
      with Cons have "k \<in> kk ` set ms" by auto
      with Cons True show ?thesis by (auto simp: rankof_def)
    next
      case False
      with Cons.prems have e: "kk m = k" by auto
      have "msgsof k xs = takeWhile (\<lambda>m. kk m = k) xs" if "sorted (map kk xs)" "\<forall>x \<in> set xs. k \<le> kk x" for xs
        using that
      proof (induction xs)
        case (Cons x xs)
        then show ?case
        proof (cases "kk x = k")
          case False
          with Cons.prems have "\<forall>y \<in> set xs. k < kk y" by fastforce
          then have "msgsof k xs = []" by (intro msgsof_notin) force
          with False show ?thesis by simp
        qed simp
      qed simp
      from this [of ms] Cons.prems(1) e show ?thesis by (simp add: rankof_def)
    qed
  qed simp
  with assms(3) show "j < length ms" "kk (ms ! j) = k" "msgsof k ms = ms ! j # takeWhile (\<lambda>m. kk m = k) (drop (Suc j) ms)" by auto
qed

lemma lookmsgs_run:
  assumes h: "holds k ok r s" and ms: "sorted (map kk (ndmsgs b))" "\<forall>m \<in> set (ndmsgs b). okmsg m"
    and v: "mval k (msgsof k (ndmsgs b)) s = Inr s'" and nn: "768 \<le> nn"
  shows "\<exists>ok' r'. lookmsgs b k ok r nn = Inr (ok', r') \<and> holds k ok' r' s'"
proof (cases "k \<in> kk ` set (ndmsgs b)")
  case False
  then have "found (map kk (ndmsgs b)) k = (int (rankof (map kk (ndmsgs b)) k) - 1, False)" "s' = s" using v msgsof_notin by (auto simp: found_def)
  with n_bufsearch_found [OF ms(1)] h show ?thesis by (auto simp: lookmsgs_def)
next
  case True
  define j where "j = rankof (map kk (ndmsgs b)) k"
  note run = sorted_run [OF ms(1) True j_def]
  have "found (map kk (ndmsgs b)) k = (int j, True)" using True by (simp add: found_def j_def)
  then have lm: "lookmsgs b k ok r nn = bindE (if ok \<or> mop (ndmsgs b ! j) = Oinsert then apply_msg r (ndmsgs b ! j) nn
              else if mop (ndmsgs b ! j) \<noteq> Oclearb \<and> mop (ndmsgs b ! j) \<noteq> Oclobber then Inl Panic else Inr (ok, r)) (\<lambda>(ok, r).
       applywhile (drop (Suc j) (ndmsgs b)) k ok r nn)"
    using n_bufsearch_found [OF ms(1)] run(1) by (simp add: lookmsgs_def nthE_def)
  have m: "okmsg (ndmsgs b ! j)" "\<forall>m \<in> set (drop (Suc j) (ndmsgs b)). okmsg m" using ms(2) run(1) by (auto dest: in_set_dropD)
  obtain s1 where
    s1: "mval k [ndmsgs b ! j] s = Inr s1" "mval k (takeWhile (\<lambda>m. kk m = k) (drop (Suc j) (ndmsgs b))) s1 = Inr s'"
    by (rule mval_ConsE [OF v [unfolded run(3)]])
  note st = holds_step [OF h m(1) run(2) s1(1) nn]
  from st(1) obtain ok1 r1 where 1: "apply_msg r (ndmsgs b ! j) nn = Inr (ok1, r1)" "holds k ok1 r1 s1" by blast
  show ?thesis
  proof (cases "ok \<or> mop (ndmsgs b ! j) = Oinsert")
    case True
    with applywhile_run [OF 1(2) m(2) s1(2) nn] 1(1) show ?thesis by (simp add: lm)
  next
    case False
    with st(2) have "mop (ndmsgs b ! j) = Oclearb \<or> mop (ndmsgs b ! j) = Oclobber" by blast
    moreover from this 1 False have "holds k ok r s1" by (auto simp: apply_msg_def holds_def)
    from applywhile_run [OF this m(2) s1(2) nn] obtain ok' r' where "applywhile (drop (Suc j) (ndmsgs b)) k ok r nn = Inr (ok', r')" "holds k ok' r' s'" by blast
    ultimately show ?thesis unfolding lm using False by auto
  qed
qed

section \<open>The path to a key\<close>

definition pathmsgs :: "bytes \<Rightarrow> Nd list \<Rightarrow> Msg list" where
  "pathmsgs k ns = concat (map (\<lambda>n. msgsof k (ndmsgs n)) (rev ns))"

lemma pathmsgs_simps [simp]: "pathmsgs k [] = []" "pathmsgs k (n # ns) = pathmsgs k ns @ msgsof k (ndmsgs n)"
  by (simp_all add: pathmsgs_def)

lemma lookup_up_run:
  assumes "holds k ok r s" "\<forall>n \<in> set ns. sorted (map kk (ndmsgs n)) \<and> (\<forall>m \<in> set (ndmsgs n). okmsg m)" "mval k (pathmsgs k ns) s = Inr s'" "768 \<le> nn"
  shows "\<exists>ok' r'. lookup_up ns k ok r nn = Inr (ok', r') \<and> holds k ok' r' s'"
  using assms(2,3)
proof (induction ns arbitrary: s')
  case Nil
  with assms(1) show ?case by simp
next
  case (Cons n ns)
  from Cons.prems(2) obtain s1 where s1: "mval k (pathmsgs k ns) s = Inr s1" "mval k (msgsof k (ndmsgs n)) s1 = Inr s'" by (auto simp: mval_append res_simps)
  from Cons.IH [OF _ s1(1)] Cons.prems(1) obtain ok1 r1 where 1: "lookup_up ns k ok r nn = Inr (ok1, r1)" "holds k ok1 r1 s1" by auto
  from lookmsgs_run [OF 1(2) _ _ s1(2) assms(4)] Cons.prems(1) 1(1) show ?case by simp
qed

text \<open>The child that \<open>blksearch\<close> picks is the only one that can hold the key.\<close>

lemma found_index:
  assumes "sorted_wrt (<) ks" "found ks k = (i, same)" "i \<noteq> -1"
  shows "0 \<le> i" "nat i < length ks" "ks ! nat i \<le> k" "\<And>j. nat i < j \<Longrightarrow> j < length ks \<Longrightarrow> k < ks ! j"
proof -
  have s: "sorted ks" using assms(1) by (rule strict_sorted_imp_sorted)
  have i: "i < int (length ks)" "-1 \<le> i" using found_range [of ks k] assms(2) by auto
  with assms(3) show i0: "0 \<le> i" "nat i < length ks" by auto
  show "k < ks ! j" if "nat i < j" "j < length ks" for j
  proof (cases "k \<in> set ks")
    case True
    with assms(2) have r: "i = int (rankof ks k)" by (simp add: found_def)
    then have "\<not> ks ! nat i < k" using rankof_nth [OF s i0(2), of k] by simp
    moreover have "ks ! nat i < ks ! j" using sorted_wrt_nth_less [OF assms(1) that(1,2)] .
    ultimately show ?thesis by order
  next
    case False
    with assms(2) have r: "i = int (rankof ks k) - 1" by (auto simp: found_def)
    then have "\<not> ks ! j < k" using rankof_nth [OF s that(2), of k] that(1) by auto
    moreover have "ks ! j \<noteq> k" using False that(2) nth_mem by blast
    ultimately show ?thesis by order
  qed
  show "ks ! nat i \<le> k"
  proof (cases "k \<in> set ks")
    case True
    with assms(2) have "i = int (rankof ks k)" by (simp add: found_def)
    moreover from True obtain j where j: "j < length ks" "ks ! j = k" by (auto simp: in_set_conv_nth)
    with rankof_nth [OF s j(1), of k] have "rankof ks k \<le> j" by auto
    ultimately show ?thesis using sorted_nth_mono [OF s, of "nat i" j] j by simp
  next
    case False
    with assms(2) i0 have "nat i < rankof ks k" by (auto simp: found_def)
    then show ?thesis using rankof_nth [OF s i0(2), of k] by simp
  qed
qed

lemma kid_lookup:
  assumes "kid (bstore st) e = Some c"
  shows "\<exists>bp. unpackbp (kv e) = Inr bp \<and> getblk st bp = Inr c"
proof -
  from assms obtain bp where "unpackbp (kv e) = Inr bp" "bstore st (baddr bp) = Some c" "bgen (ndbp c) = bgen bp"
    by (auto simp: kid_def getptr_def res_simps split: sum.splits option.splits if_splits)
  then show ?thesis by (auto simp: getblk_def)
qed

lemma lookpath_run:
  assumes "wft (bstore st) h b"
  shows "\<exists>p r'. lookpath h st k b r = Inr (p, r') \<and> p \<noteq> [] \<and> length p \<le> Suc h \<and>
    (\<forall>n \<in> set (take h p). sorted (map kk (ndmsgs n)) \<and> (\<forall>m \<in> set (ndmsgs n). okmsg m)) \<and> (length p = Suc h \<longrightarrow> wft (bstore st) 0 (last p)) \<and>
    mean (ents (bstore st) h b) (allm (bstore st) h b) k = mval k (pathmsgs k (take h p)) (if length p = Suc h then lk (ndvals (last p)) k else None)"
  using assms
proof (induction h arbitrary: b r)
  case 0
  then show ?case by (simp add: mean_def)
next
  case (Suc h)
  note w = Suc.prems
  have ss: "sorted_wrt (<) (map kk (ndvals b))" by (rule wft_sorted [OF w])
  note se = n_blksearch_found [OF strict_sorted_imp_sorted [OF ss], of k]
  obtain i same where i: "found (map kk (ndvals b)) k = (i, same)" by (cases "found (map kk (ndvals b)) k") auto
  have wk: "wfkids (bstore st) h (ndvals b)" and ms: "sorted (map kk (ndmsgs b))" "\<forall>m \<in> set (ndmsgs b). okmsg m" using w by (auto simp: wft_Suc)
  show ?case
  proof (cases "i = -1")
    case True
    have lt: "k < x" if "x \<in> set (map kk (ndvals b))" for x
    proof -
      have "rankof (map kk (ndvals b)) k = 0" "k \<notin> set (map kk (ndvals b))" using i True by (auto simp: found_def split: if_splits)
      moreover from that obtain j where j: "j < length (map kk (ndvals b))" "map kk (ndvals b) ! j = x" by (auto simp: in_set_conv_nth)
      ultimately have "\<not> x < k" "x \<noteq> k" using rankof_nth [OF strict_sorted_imp_sorted [OF ss] j(1), of k] that by auto
      then show ?thesis by order
    qed
    have "k \<notin> fkeys (bstore st) h (ndvals b)" using wk lt by (fastforce simp: fkeys_def ekeys_def wfkids_def)
    then have "mean (ents (bstore st) (Suc h) b) (allm (bstore st) (Suc h) b) k = mval k (msgsof k (ndmsgs b)) None"
      using mean_mid [of k "bstore st" h "ndvals b" "[]" "[]" "ndmsgs b"] by (simp add: ents_Suc allm_Suc mean_def)
    then show ?thesis using se i True ms by simp
  next
    case False
    note fi = found_index [OF ss i False]
    define V1 e V2 where "V1 = take (nat i) (ndvals b)" and "e = ndvals b ! nat i" and "V2 = drop (Suc (nat i)) (ndvals b)"
    have v: "ndvals b = V1 @ [e] @ V2" using fi(2) id_take_nth_drop [of "nat i" "ndvals b"] by (simp add: V1_def e_def V2_def)
    have ke: "kk e \<le> k" "\<forall>x \<in> set V2. k < kk x" using fi(2,3) fi(4) [of "Suc (nat i) + j" for j] by (auto simp: e_def V2_def in_set_conv_nth)
    from wk [unfolded v] obtain c where c: "kid (bstore st) e = Some c" "wft (bstore st) h c" by (auto simp: wfkids_def)
    have n1: "k \<notin> fkeys (bstore st) h V1" using wk [unfolded v] ke(1) by (fastforce simp: before_def ekeys_def)
    have n2: "k \<notin> fkeys (bstore st) h V2"
    proof -
      have "wfkids (bstore st) h V2" using wk [unfolded v] wfkids_Cons [of "bstore st" h e V2] by simp
      then show ?thesis using ke(2) by (fastforce simp: fkeys_def ekeys_def wfkids_def)
    qed
    from mean_mid [OF n1 n2, of "[e]" "ndmsgs b"] c(1)
    have m: "mean (ents (bstore st) (Suc h) b) (allm (bstore st) (Suc h) b) k = bindE (mean (ents (bstore st) h c) (allm (bstore st) h c) k) (mval k (msgsof k (ndmsgs b)))"
      by (simp add: ents_Suc allm_Suc v)
    from kid_lookup [OF c(1)] obtain bp where bp: "unpackbp (kv e) = Inr bp" "getblk st bp = Inr c" by blast
    from Suc.IH [OF c(2), of e] obtain p r' where p: "lookpath h st k c e = Inr (p, r')" "p \<noteq> []" "length p \<le> Suc h"
      "\<forall>n \<in> set (take h p). sorted (map kk (ndmsgs n)) \<and> (\<forall>m \<in> set (ndmsgs n). okmsg m)" "length p = Suc h \<longrightarrow> wft (bstore st) 0 (last p)"
      "mean (ents (bstore st) h c) (allm (bstore st) h c) k = mval k (pathmsgs k (take h p)) (if length p = Suc h then lk (ndvals (last p)) k else None)" by blast
    have "nthE (ndvals b) i = Inr e" using fi(1,2) by (auto simp: e_def nthE_def)
    then have "lookpath (Suc h) st k b r = Inr (b # p, r')" using se i False bp p(1) by (simp del: nthE_Inr)
    then show ?thesis using p ms m by (intro exI [of _ "b # p"] exI [of _ r']) (auto simp: mval_append)
  qed
qed

text \<open>The entry of a key in a leaf.\<close>

lemma leaf_found:
  assumes "wft \<sigma> 0 b"
  shows "\<exists>i. n_blksearch b k = Inr (i, lk (ndvals b) k \<noteq> None) \<and> (0 \<le> i \<longrightarrow> i < int (length (ndvals b))) \<and>
    (\<forall>v. lk (ndvals b) k = Some v \<longrightarrow> 0 \<le> i \<and> ndvals b ! nat i = \<lparr>kk = k, kv = v\<rparr>)"
proof -
  have ss: "sorted_wrt (<) (map kk (ndvals b))" by (rule wft_sorted [OF assms])
  obtain i same where i: "found (map kk (ndvals b)) k = (i, same)" by (cases "found (map kk (ndvals b)) k") auto
  note se = n_blksearch_found [OF strict_sorted_imp_sorted [OF ss], of k, unfolded i]
  have r: "i < int (length (ndvals b))" using found_range [of "map kk (ndvals b)" k] i by simp
  show ?thesis
  proof (cases "k \<in> kk ` set (ndvals b)")
    case False
    with i have "same = False" by (auto simp: found_def split: if_splits)
    with False se r show ?thesis by (auto simp: lk_notin)
  next
    case True
    then have "same" "i \<noteq> -1" using i by (auto simp: found_def split: if_splits)
    note fi = found_index [OF ss i this(2)]
    from True obtain j where j: "j < length (ndvals b)" "kk (ndvals b ! j) = k" by (auto simp: in_set_conv_nth image_iff)
    have "\<not> nat i < j" using fi(4) [of j] j by auto
    moreover have "\<not> j < nat i" using sorted_wrt_nth_less [OF ss, of j "nat i"] fi(2,3) j by auto
    ultimately have e: "nat i = j" by simp
    have "lk (ndvals b) k = Some (kv (ndvals b ! j))" using lk_mem [OF ss nth_mem [OF j(1)]] j(2) by simp
    moreover have "ndvals b ! j = \<lparr>kk = k, kv = kv (ndvals b ! j)\<rparr>" using j(2) kvp_eta [of "ndvals b ! j"] by simp
    ultimately show ?thesis using se \<open>same\<close> fi(1) r e by auto
  qed
qed

lemma btlookup_run:
  assumes b: "rooted st t h b" and m: "meaning st h b k = Inr s" and nn: "768 \<le> nn"
  shows "\<exists>ok r'. btlookup st t k r nn = Inr (ok, r') \<and> holds k ok r' s"
proof -
  have g: "getblk st (tbp t) = Inr b" "wft (bstore st) h b" "unat (tht t) = Suc h" using b by (auto simp: rooted_def)
  from lookpath_run [OF g(2), of k r] obtain p r1 where p: "lookpath h st k b r = Inr (p, r1)" "p \<noteq> []"
    "\<forall>n \<in> set (take h p). sorted (map kk (ndmsgs n)) \<and> (\<forall>m \<in> set (ndmsgs n). okmsg m)" "length p = Suc h \<longrightarrow> wft (bstore st) 0 (last p)"
    "mean (ents (bstore st) h b) (allm (bstore st) h b) k = mval k (pathmsgs k (take h p)) (if length p = Suc h then lk (ndvals (last p)) k else None)" by blast
  define s0 where "s0 = (if length p = Suc h then lk (ndvals (last p)) k else None)"
  have v: "mval k (pathmsgs k (take h p)) s0 = Inr s" using m p(5) by (simp add: meaning_def s0_def)
  have "\<exists>ok r2 r3. (if length p = Suc h then bindE (n_blksearch (last p) k) (\<lambda>(i, ok). if i < 0 then Inr (ok, r1) else bindE (nthE (ndvals (last p)) i) (\<lambda>r. Inr (ok, r))) else Inr (False, r1)) = Inr (ok, r2) \<and>
      (if ok then cpkvp r2 nn else Inr r2) = Inr r3 \<and> holds k ok r3 s0"
  proof (cases "length p = Suc h")
    case True
    with p(4) have w: "wft (bstore st) 0 (last p)" by simp
    from leaf_found [OF w, of k] obtain i where i: "n_blksearch (last p) k = Inr (i, lk (ndvals (last p)) k \<noteq> None)" "0 \<le> i \<longrightarrow> i < int (length (ndvals (last p)))"
      "\<forall>v. lk (ndvals (last p)) k = Some v \<longrightarrow> 0 \<le> i \<and> ndvals (last p) ! nat i = \<lparr>kk = k, kv = v\<rparr>" by blast
    show ?thesis
    proof (cases "lk (ndvals (last p)) k")
      case None
      with i True show ?thesis by (cases "i < 0") (auto simp: s0_def holds_def okst_def nthE_def)
    next
      case (Some v)
      with i(2,3) have e: "0 \<le> i" "i < int (length (ndvals (last p)))" "ndvals (last p) ! nat i = \<lparr>kk = k, kv = v\<rparr>" by auto
      moreover have "okkv (ndvals (last p) ! nat i)" using w e(1,2) by auto
      ultimately show ?thesis using i(1) True Some nn by (auto simp: s0_def holds_def okst_def nthE_def cpkvp_def okkv_def)
    qed
  qed (simp add: s0_def holds_def okst_def)
  then obtain ok r2 r3 where 2: "(if length p = Suc h then bindE (n_blksearch (last p) k) (\<lambda>(i, ok). if i < 0 then Inr (ok, r1) else bindE (nthE (ndvals (last p)) i) (\<lambda>r. Inr (ok, r))) else Inr (False, r1)) = Inr (ok, r2)"
      "(if ok then cpkvp r2 nn else Inr r2) = Inr r3" "holds k ok r3 s0" by blast
  from lookup_up_run [OF 2(3) p(3) v nn] obtain ok' r' where 3: "lookup_up (take h p) k ok r3 nn = Inr (ok', r')" "holds k ok' r' s" by blast
  have "btlookup st t k r nn = Inr (ok', r')"
    unfolding btlookup_def Let_def g bindE_simps using p(1) 2(1,2) 3(1) by simp
  with 3(2) show ?thesis by blast
qed

end
