(* ===== verification/Gefs_Store.thy ===== *)
theory Gefs_Store
  imports Gefs_Lookup
begin

text \<open>
  The tree as a store of values under keys: \<open>btupsert\<close> and \<open>btlookup\<close> together.
\<close>

section \<open>Runs of \<open>btupsert1\<close>\<close>

definition ready :: "Bs \<Rightarrow> Tree \<Rightarrow> bool" where
  "ready st t \<longleftrightarrow> (\<exists>h b. rooted st t h b \<and> h + 2 < 2 ^ 32 \<and> twokids (bstore st) h b)"

text \<open>The turns of one call, none of which meets an error.\<close>

inductive turns :: "Msg list \<Rightarrow> int \<Rightarrow> bytes option \<Rightarrow> nat \<Rightarrow> Bs \<times> Tree \<times> int \<times> Kvp option \<Rightarrow> Bs \<times> Tree \<times> Kvp option \<Rightarrow> bool"
  for msg sz deep nn where
  last: "turns msg sz deep nn (st, t, np, next) (st', t', next')"
    if "ready st t" "upround st t msg sz np deep nn next = Inr (st', t', None, next')"
| more: "turns msg sz deep nn (st, t, np, next) r"
    if "ready st t" "upround st t msg sz np deep nn next = Inr (st1, t1, Some np1, next1)" "turns msg sz deep nn (st1, t1, np1, next1) r"

lemma turns_returns: "turns msg sz deep nn (st, t, np, next) r \<Longrightarrow> upsertloop st t msg sz np deep nn next = Some (Inr r)"
  by (induction "(st, t, np, next)" r arbitrary: st t np "next" rule: turns.induct) (simp_all add: upsertloop.simps)

lemma rooted_unique: "rooted st t h b \<Longrightarrow> rooted st t h' b' \<Longrightarrow> h' = h \<and> b' = b"
  by (simp add: rooted_def)

lemma ready_rooted: "ready st t \<Longrightarrow> rooted st t h b \<Longrightarrow> h + 2 < 2 ^ 32 \<and> twokids (bstore st) h b"
  by (auto simp: ready_def dest: rooted_unique)

lemma upserted_trans:
  assumes "upserted st h b st1 t1 P" "rooted st1 t1 h1 b1" "upserted st1 h1 b1 st2 t2 Q"
  shows "upserted st h b st2 t2 (P @ Q)"
proof -
  from assms(1) obtain h' b' where 1: "rooted st1 t1 h' b'" "\<forall>k. meaning st1 h' b' k = bindE (meaning st h b k) (mval k (msgsof k P))"
    unfolding upserted_def by blast
  from rooted_unique [OF assms(2) 1(1)] 1(2) have m: "\<forall>k. meaning st1 h1 b1 k = bindE (meaning st h b k) (mval k (msgsof k P))" by simp
  from assms(3) obtain h2 b2 where 2: "rooted st2 t2 h2 b2" "\<forall>k. meaning st2 h2 b2 k = bindE (meaning st1 h1 b1 k) (mval k (msgsof k Q))"
    unfolding upserted_def by blast
  have "meaning st2 h2 b2 k = bindE (meaning st h b k) (mval k (msgsof k (P @ Q)))" for k
    using 2(2) m by (simp add: mval_append_fun bindE_assoc)
  with 2(1) show ?thesis unfolding upserted_def by blast
qed

lemma upserted_sound:
  assumes "upserted st h b st1 t1 P" "rooted st1 t1 h1 b1" "sound (bstore st) h b (P @ Q)"
  shows "sound (bstore st1) h1 b1 Q"
proof -
  from assms(1) obtain h' b' where 1: "rooted st1 t1 h' b'" "\<forall>k. meaning st1 h' b' k = bindE (meaning st h b k) (mval k (msgsof k P))"
    unfolding upserted_def by blast
  from rooted_unique [OF assms(2) 1(1)] 1(2) have "\<forall>k. meaning st1 h1 b1 k = bindE (meaning st h b k) (mval k (msgsof k P))" by simp
  with assms(3) show ?thesis by (simp add: sound_def meaning_def mval_append_fun bindE_assoc)
qed

lemma turns_upserted:
  assumes "turns msg sz deep nn (st, t, np, next) (st', t', next')" "rooted st t h b" "sound (bstore st) h b (drop (nat np) msg)"
    and "0 \<le> np" "np \<le> int (length msg)"
    and ms: "sorted (map kk msg)" "\<forall>m \<in> set msg. okmsg m" "msgspace msg \<le> sz" "deep = None \<or> msg = []"
  shows "upserted st h b st' t' (drop (nat np) msg)"
  using assms(1-5)
proof (induction "(st, t, np, next)" "(st', t', next')" arbitrary: st t np "next" h b rule: turns.induct)
  case (last st t np "next")
  note r = ready_rooted [OF last(1,3)]
  from upround_correct [OF last(2,3) conjunct1 [OF r] conjunct2 [OF r] last(4) ms(1-3) last(5,6) ms(4)] show ?case by force
next
  case (more st t np "next" st1 t1 np1 next1)
  note r = ready_rooted [OF more(1,5)]
  from upround_correct [OF more(2,5) conjunct1 [OF r] conjunct2 [OF r] more(6) ms(1-3) more(7,8) ms(4)] obtain P Q where
    1: "drop (nat np) msg = P @ Q" "upserted st h b st1 t1 P" "np1 = np + int (length P)" by auto
  from 1(2) obtain h1 b1 where r1: "rooted st1 t1 h1 b1" unfolding upserted_def by blast
  have "length msg - nat np = length P + length Q" using 1(1) by (metis length_append length_drop)
  then have np1: "0 \<le> np1" "np1 \<le> int (length msg)" using 1(3) more(7,8) by linarith+
  have q: "drop (nat np1) msg = Q" using 1(1,3) more(7) by (simp add: nat_add_distrib flip: drop_drop [of "length P" "nat np"] add.commute [of "length P"])
  from more(4) [OF r1 _ np1] upserted_sound [OF 1(2) r1] more(6) 1(1) q have "upserted st1 h1 b1 st' t' Q" by simp
  from upserted_trans [OF 1(2) r1 this] 1(1) show ?case by simp
qed

section \<open>The store\<close>

text \<open>The buffer the callers of \<open>btlookup\<close> bring.\<close>

abbreviation (input) Kvmax :: nat where "Kvmax \<equiv> 768"

text \<open>Batches of messages, one after the other.\<close>

fun batches :: "('s \<Rightarrow> Msg list \<Rightarrow> 's \<Rightarrow> bool) \<Rightarrow> 's \<Rightarrow> Msg list list \<Rightarrow> 's \<Rightarrow> bool" where
  "batches ups s [] s' \<longleftrightarrow> s' = s"
| "batches ups s (ms # mss) s' \<longleftrightarrow> (\<exists>s1. ups s ms s1 \<and> batches ups s1 mss s')"

text \<open>
  What the callers of the tree rely on.  A state that is \<open>valid\<close> gives every key a value, none, or
  an error; a batch of messages changes it key by key; a lookup tells it.
\<close>

locale kvstore =
  fixes valid :: "'s \<Rightarrow> bool" and val :: "'s \<Rightarrow> bytes \<Rightarrow> bytes option res"
    and ups :: "'s \<Rightarrow> Msg list \<Rightarrow> 's \<Rightarrow> bool" and look :: "'s \<Rightarrow> bytes \<Rightarrow> (bool \<times> Kvp) res"
  assumes ups_valid: "valid s \<Longrightarrow> ups s ms s' \<Longrightarrow> valid s'"
    and ups_val: "valid s \<Longrightarrow> ups s ms s' \<Longrightarrow> val s' k = bindE (val s k) (mval k (msgsof k ms))"
    and look_some: "valid s \<Longrightarrow> val s k = Inr (Some v) \<Longrightarrow> look s k = Inr (True, \<lparr>kk = k, kv = v\<rparr>)"
    and look_none: "valid s \<Longrightarrow> val s k = Inr None \<Longrightarrow> \<exists>r. look s k = Inr (False, r)"
begin

lemma batches_val:
  "valid s \<Longrightarrow> batches ups s mss s' \<Longrightarrow> valid s' \<and> val s' k = bindE (val s k) (mval k (msgsof k (concat mss)))"
proof (induction mss arbitrary: s)
  case (Cons ms mss)
  then obtain s1 where s1: "ups s ms s1" "batches ups s1 mss s'" by auto
  from Cons.IH [OF ups_valid [OF Cons.prems(1) s1(1)] s1(2)] ups_val [OF Cons.prems(1) s1(1), of k] show ?case
    by (simp add: mval_append_fun bindE_assoc)
qed simp

lemma read_back:
  assumes "valid s" "batches ups s mss s'" "val s k = Inr v" "mval k (msgsof k (concat mss)) v = Inr (Some w)"
  shows "look s' k = Inr (True, \<lparr>kk = k, kv = w\<rparr>)"
  using batches_val [OF assms(1,2), of k] assms(3,4) by (auto intro: look_some)

lemma read_gone:
  assumes "valid s" "batches ups s mss s'" "val s k = Inr v" "mval k (msgsof k (concat mss)) v = Inr None"
  shows "\<exists>r. look s' k = Inr (False, r)"
  using batches_val [OF assms(1,2), of k] assms(3,4) by (auto intro: look_none)

lemma read_other:
  assumes "valid s" "batches ups s mss s'" "val s k = Inr v" "k \<notin> kk ` set (concat mss)"
  shows "val s' k = val s k"
  using batches_val [OF assms(1,2), of k] msgsof_notin [OF assms(4)] by simp

end

text \<open>The kernel's tree is such a store.\<close>

definition tval :: "Bs \<times> Tree \<Rightarrow> bytes \<Rightarrow> bytes option res" where
  "tval s k = (case s of (st, t) \<Rightarrow> bindE (getblk st (tbp t)) (\<lambda>b. meaning st (unat (tht t) - 1) b k))"

definition tvalid :: "Bs \<times> Tree \<Rightarrow> bool" where
  "tvalid s \<longleftrightarrow> (case s of (st, t) \<Rightarrow> \<exists>h b. rooted st t h b)"

text \<open>A batch that every key can take, and a run of \<open>btupsert\<close> with it.\<close>

definition tups :: "Bs \<times> Tree \<Rightarrow> Msg list \<Rightarrow> Bs \<times> Tree \<Rightarrow> bool" where
  "tups s msg s' \<longleftrightarrow> (case (s, s') of ((st, t), (st', t')) \<Rightarrow>
     (\<forall>m \<in> set msg. okmsg m) \<and> (\<forall>k. \<exists>v. bindE (tval s k) (mval k (msgsof k msg)) = Inr v) \<and>
     (\<exists>next. turns (stablesort msg) (msgspace (stablesort msg)) None 0 (st, t, 0, None) (st', t', next)))"

lemma stablesort_props: "msgsof k (stablesort ms) = msgsof k ms" "set (stablesort ms) = set ms" "sorted (map kk (stablesort ms))"
proof -
  have "mset (stablesort ms) = mset ms \<and> sorted (map kk (stablesort ms)) \<and> (\<forall>k. filter (\<lambda>x. k = kk x) (stablesort ms) = filter (\<lambda>x. k = kk x) ms)"
  proof (cases "ms = []")
    case False
    then have "1 \<le> length ms" by (cases ms) auto
    from stablesort_upto [OF order_refl this] show ?thesis unfolding stablesort_def Let_def by (auto simp flip: One_nat_def)
  qed (simp add: stablesort_def)
  moreover have "msgsof k xs = filter (\<lambda>x. k = kk x) xs" for xs by (auto simp: msgsof_def intro: filter_cong)
  ultimately show "msgsof k (stablesort ms) = msgsof k ms" "set (stablesort ms) = set ms" "sorted (map kk (stablesort ms))"
    by (auto dest: mset_eq_setD)
qed

lemma rooted_tval: "rooted st t h b \<Longrightarrow> tval (st, t) k = meaning st h b k"
  by (simp add: tval_def rooted_def)

lemma tups_upserted:
  assumes "rooted st t h b" "tups (st, t) msg (st', t')"
  shows "upserted st h b st' t' (stablesort msg)"
proof -
  from assms(2) obtain nx where 1: "\<forall>m \<in> set msg. okmsg m" "\<forall>k. \<exists>v. bindE (tval (st, t) k) (mval k (msgsof k msg)) = Inr v"
    "turns (stablesort msg) (msgspace (stablesort msg)) None 0 (st, t, 0, None) (st', t', nx)" by (auto simp: tups_def)
  have "sound (bstore st) h b (stablesort msg)" using 1(2) rooted_tval [OF assms(1)] by (simp add: sound_def meaning_def stablesort_props)
  from turns_upserted [OF 1(3) assms(1) _ _ _ stablesort_props(3)] this 1(1) show ?thesis by (simp add: stablesort_props)
qed

lemma tups_returns:
  assumes "tups (st, t) msg (st', t')"
  shows "\<exists>next. btupsert st t msg = Some (Inr (st', t', next))"
proof -
  from assms obtain nx where 1: "\<forall>m \<in> set msg. okmsg m" "turns (stablesort msg) (msgspace (stablesort msg)) None 0 (st, t, 0, None) (st', t', nx)"
    by (auto simp: tups_def)
  from turns_returns [OF 1(2)] 1(1) show ?thesis by (auto simp: btupsert_def btupsert1_def Let_def stablesort_props okmsg_def)
qed

interpretation bt: kvstore tvalid tval tups "\<lambda>(st, t) k. btlookup st t k r Kvmax" for r
proof (unfold_locales, goal_cases)
  case (1 s ms s')
  obtain st t st' t' where s: "s = (st, t)" "s' = (st', t')" by (cases s; cases s') auto
  from 1(1) s obtain h b where r: "rooted st t h b" by (auto simp: tvalid_def)
  from 1(2) s have "tups (st, t) ms (st', t')" by simp
  from tups_upserted [OF r this] s show ?case by (auto simp: tvalid_def upserted_def)
next
  case (2 s ms s' k)
  obtain st t st' t' where s: "s = (st, t)" "s' = (st', t')" by (cases s; cases s') auto
  from 2(1) s obtain h b where r: "rooted st t h b" by (auto simp: tvalid_def)
  from 2(2) s have "tups (st, t) ms (st', t')" by simp
  from tups_upserted [OF r this] obtain h' b' where u: "rooted st' t' h' b'" "meaning st' h' b' k = bindE (meaning st h b k) (mval k (msgsof k ms))"
    by (auto simp: upserted_def stablesort_props)
  show ?case using u rooted_tval [OF r] rooted_tval [OF u(1)] s by simp
next
  case (3 s k v)
  obtain st t where s: "s = (st, t)" by (cases s)
  from 3(1) s obtain h b where r: "rooted st t h b" by (auto simp: tvalid_def)
  from btlookup_run [OF r, of k "Some v" Kvmax r] 3(2) s rooted_tval [OF r] show ?case by (fastforce simp: holds_def)
next
  case (4 s k)
  obtain st t where s: "s = (st, t)" by (cases s)
  from 4(1) s obtain h b where r: "rooted st t h b" by (auto simp: tvalid_def)
  from btlookup_run [OF r, of k None Kvmax r] 4(2) s rooted_tval [OF r] show ?case by (fastforce simp: holds_def)
qed

section \<open>A small tree\<close>

text \<open>A file system with one arena and a tree of one leaf, for the examples.\<close>

definition stW :: "(u64 \<Rightarrow> Nd option) \<Rightarrow> Bs" where
  "stW \<sigma> = \<lparr>bfs = fsB, bstore = \<sigma>, bsum = \<lambda>_. 0, bbusy = \<lambda>_ _. False, bpriv = True, breserve = False, bissnap = False, blimbo = [], bdead = []\<rparr>"

lemma newblkW:
  assumes "\<sigma> 311296 = None" "ty = Tleaf \<or> ty = Tpivot"
  shows "\<exists>fs'. newblk (stW \<sigma>) t ty = Inr (stW \<sigma>\<lparr>bfs := fs'\<rparr>, newnd \<lparr>baddr = 311296, bhash = -1, bgen = tmemgen t\<rparr> ty) \<and> getarena fs' 311296 = Inr 0"
proof -
  have "\<exists>w a. arenaalloc True False dev0 arena0 ty False = Inr (w, a, 311296) \<and> h0 a = 0 \<and> arsize a = 524288"
    using assms(2) by (auto simp: arenaalloc_def arena0_def blkalloc_lk_def logappend_def logroom_def logput_def log0_def zeroblk_def
        checkflag_def setflag_def avlnode_def rangecmp_def)
  then obtain w a where a: "arenaalloc True False dev0 arena0 ty False = Inr (w, a, 311296)" "h0 a = 0" "arsize a = 524288" by blast
  let ?fs = "\<lparr>arenas = [a], sb0 = -16384, sb1 = 557056, roundrobin = 1, dev = w\<rparr>"
  have "newblk (stW \<sigma>) t ty = Inr (stW \<sigma>\<lparr>bfs := ?fs\<rparr>, newnd \<lparr>baddr = 311296, bhash = -1, bgen = tmemgen t\<rparr> ty)"
    using assms a by (auto simp: newblk_def stW_def blkalloc_def fsB_def blkalloc_again.simps pickarena_def)
  moreover have "getarena ?fs 311296 = Inr 0" using a(2,3) by (simp add: getarena_def getarena_loop.simps signed_divide_int_def)
  ultimately show ?thesis by blast
qed

definition leafW :: Nd where
  "leafW = \<lparr>ndbp = \<lparr>baddr = 49152, bhash = 0, bgen = 1\<rparr>, ndtype = Tleaf, ndvals = [\<lparr>kk = [2], kv = [7]\<rparr>], ndmsgs = []\<rparr>"

definition treeW :: Tree where
  "treeW = \<lparr>tnref = 0, tnlbl = 0, tht = 1, tflag = 0, tgen = 1, tpred = 0, tsucc = 0, tbase = 0, tbp = ndbp leafW, tmemgen = 1, tdirty = False\<rparr>"

definition msgW :: Msg where
  "msgW = \<lparr>kk = [3], kv = [9], mop = Oinsert\<rparr>"

lemma rootedW: "rooted (stW [49152 \<mapsto> leafW]) treeW 0 leafW"
  by (simp add: rooted_def getblk_def stW_def treeW_def leafW_def okkv_def)

lemma meaningW: "meaning (stW [49152 \<mapsto> leafW]) 0 leafW k = Inr (if k = [2] then Some [7] else None)"
  by (simp add: meaning_def mean_def leafW_def)

lemma okmsgW: "okmsg msgW"
  by (simp add: okmsg_def okkv_def msgW_def)

text \<open>The turn that puts the message into the leaf.\<close>

lemma roundW:
  "\<exists>st' t'. upround (stW [49152 \<mapsto> leafW]) treeW [msgW] (msgspace [msgW]) 0 None 0 None = Inr (st', t', None, None)"
proof -
  define z where "z = msgspace [msgW]"
  let ?st = "stW [49152 \<mapsto> leafW]" and ?n = "newnd \<lparr>baddr = 311296, bhash = -1, bgen = 1\<rparr> Tleaf"
  from newblkW [of "[49152 \<mapsto> leafW]" Tleaf treeW] obtain fs' where fs': "newblk ?st treeW Tleaf = Inr (?st\<lparr>bfs := fs'\<rparr>, ?n)" "getarena fs' 311296 = Inr 0"
    by (auto simp: treeW_def)
  have u: "\<exists>pull. updleaf (ndvals leafW) [msgW] None False (16378 - n_blkfill leafW) ?n 0 [] =
      Inr (?n\<lparr>ndvals := [\<lparr>kk = [2], kv = [7]\<rparr>, \<lparr>kk = [3], kv = [9]\<rparr>]\<rparr>, pull, [])"
    by (rule exI) code_simp
  let ?top = "path0\<lparr>pidx := -1, pmidx := -1, psz := z, ins := Some [msgW], plo := 0, phi := 1\<rparr>"
    and ?p = "path0\<lparr>pb := Some leafW, pidx := -1, pmidx := -1, plo := -1, phi := -1\<rparr>"
  have pend: "pending ?top = Inr [msgW]" by (simp add: pending_def pmsgs_def)
  have f: "pullsz path0 = 0" "pnl path0 = None" "pnr path0 = None" "ndtype leafW = Tleaf" by (simp_all add: path0_def leafW_def)
  from u obtain pull where pull: "updleaf (ndvals leafW) [msgW] None False (16378 - n_blkfill leafW) ?n 0 [] =
      Inr (?n\<lparr>ndvals := [\<lparr>kk = [2], kv = [7]\<rparr>, \<lparr>kk = [3], kv = [9]\<rparr>]\<rparr>, pull, [])" by blast
  have "updateleaf ?st treeW ?top ?p = bindE (setb (?st\<lparr>bfs := fs'\<rparr>) treeW None (?n\<lparr>ndvals := [\<lparr>kk = [2], kv = [7]\<rparr>, \<lparr>kk = [3], kv = [9]\<rparr>]\<rparr>))
      (\<lambda>(st, nl). Inr (st, ?p\<lparr>pullsz := pull, npull := 1, pop := POmod, pnl := nl\<rparr>))"
    unfolding updateleaf_def by (simp add: pend f fs'(1) pull)
  moreover have "\<exists>st1 n. setb (?st\<lparr>bfs := fs'\<rparr>) treeW None (?n\<lparr>ndvals := [\<lparr>kk = [2], kv = [7]\<rparr>, \<lparr>kk = [3], kv = [9]\<rparr>]\<rparr>) = Inr (st1, Some n) \<and> ndtype n = Tleaf \<and> baddr (ndbp n) = 311296"
    using fs'(2) by (simp add: setb_def enqueue_def stW_def newnd_def Let_def)
  ultimately obtain st1 n where n: "updateleaf ?st treeW ?top ?p = Inr (st1, ?p\<lparr>pullsz := pull, npull := 1, pop := POmod, pnl := Some n\<rparr>)"
    "ndtype n = Tleaf" "baddr (ndbp n) = 311296" by auto
  have "getblk ?st (tbp treeW) = Inr leafW" using rootedW by (simp add: rooted_def)
  moreover have "n_filledleaf leafW z = Inr False" by (simp add: z_def leafW_def n_filledleaf_def valsz_kv_def msgsz_def msgW_def)
  ultimately show ?thesis unfolding z_def [symmetric] using n(2,3) f
    by (simp add: upround_def Let_def descend_path.simps [of "unat (tht treeW)"] flush_def n(1))
qed

lemma runW:
  "\<exists>st' t'. tups (stW [49152 \<mapsto> leafW], treeW) [msgW] (st', t')"
proof -
  from roundW obtain st' t' where r: "upround (stW [49152 \<mapsto> leafW]) treeW [msgW] (msgspace [msgW]) 0 None 0 None = Inr (st', t', None, None)" by blast
  have "ready (stW [49152 \<mapsto> leafW]) treeW" unfolding ready_def using rootedW by (intro exI [of _ 0] exI [of _ leafW]) simp
  from turns.last [OF this r] have "turns [msgW] (msgspace [msgW]) None 0 (stW [49152 \<mapsto> leafW], treeW, 0, None) (st', t', None)" .
  moreover have "\<exists>v. bindE (tval (stW [49152 \<mapsto> leafW], treeW) k) (mval k (msgsof k [msgW])) = Inr v" for k
    unfolding rooted_tval [OF rootedW] meaningW by (simp add: msgW_def mval_def mstep_def)
  moreover have "stablesort [msgW] = [msgW]" by (simp add: stablesort_def)
  ultimately have "tups (stW [49152 \<mapsto> leafW], treeW) [msgW] (st', t')" using okmsgW unfolding tups_def by auto
  then show ?thesis by blast
qed

section \<open>The theorems\<close>

text \<open>
  C4. \<open>btlookup\<close> finds what the tree means: the entry of the key in the leaf where it belongs, changed by
  the messages for it in the buffers on the way, those lower down first.  It returns, without
  an error, whenever those messages make sense of the key, and says that the key is absent exactly
  when they leave nothing.
\<close>

theorem btlookup_correct:
  assumes "rooted st t h b" "meaning st h b k = Inr s" "Kvmax \<le> nn"
  shows "\<exists>ok r'. btlookup st t k r nn = Inr (ok, r') \<and> (ok \<longleftrightarrow> s \<noteq> None) \<and> (\<forall>v. s = Some v \<longrightarrow> r' = \<lparr>kk = k, kv = v\<rparr>)"
  using btlookup_run [OF assms, of r] by (auto simp: holds_def)

theorem btlookup_correct_witness:
  "\<exists>r'. btlookup (stW [49152 \<mapsto> leafW]) treeW [2] \<lparr>kk = [], kv = []\<rparr> 768 = Inr (True, r') \<and> r' = \<lparr>kk = [2], kv = [7]\<rparr>"
  using btlookup_correct [OF rootedW meaningW, of 768 "[2]" "\<lparr>kk = [], kv = []\<rparr>"] by auto







text \<open>
  C34. A leaf that is not full, by the test of \<open>filledleaf\<close>, takes all the messages: past the allocation
  of the new block \<open>updateleaf\<close> hits no assertion of \<open>setval\<close>; it reports every message as pulled;
  the entries of the new leaf are ordered by key and are, under each key, what the messages for that key, run in their
  order over the old entry, leave there; and the data blocks those messages unlink are freed.
\<close>

theorem updateleaf_correct:
  assumes "pb p = Some b" "ndtype b = Tleaf" "leafargs (ndvals b) ms" "runok (ndvals b) ms" "ndvals b \<noteq> [] \<and> ndmsgs b = []"
    and "\<not> valspace (ndvals b) + 2 + msgspace ms > int Leafspc" "pending pup = Inr ms" "newblk st t Tleaf = Inr (st1, n)"
  shows "\<exists>vs pull. updateleaf st t pup p =
      bindE (setb (foldl (\<lambda>st bp. freebp st t bp) st1 (runfrees (ndvals b) ms)) t (pnl p) (n\<lparr>ndvals := vs\<rparr>)) (\<lambda>(st, nl).
        Inr (st, p\<lparr>pullsz := pull, npull := int (length ms), pop := POmod, pnl := nl\<rparr>)) \<and>
    sorted_wrt (<) (map kk vs) \<and> (\<forall>k. \<exists>f. runkey (ndvals b) ms k = Inr (lk vs k, f))"
proof -
  note n = newblk_Inr [OF assms(8)]
  have sp: "msgspace ms \<le> int Leafspc - n_blkfill b" "valspace (ndvals n) + valspace (ndvals b) + msgspace ms \<le> int Leafspc"
    using assms n by (simp_all add: n_blkfill_def)
  obtain pull where u: "updleaf (ndvals b) ms None False (int Leafspc - n_blkfill b) n (pullsz p) [] =
      Inr (n\<lparr>ndvals := runvals (ndvals b) ms\<rparr>, pull, runfrees (ndvals b) ms)"
    using updleaf_run [of "ndvals b" ms "int Leafspc - n_blkfill b" n None "pullsz p" "[]"] assms n sp by auto
  have "\<exists>f. runkey (ndvals b) ms k = Inr (lk (runvals (ndvals b) ms) k, f)" for k
    using runvals_props(4) [OF assms(3,4), of k] by (auto simp: mval_def runkey_def msgsof_def res_simps)
  moreover have "sorted_wrt (<) (map kk (runvals (ndvals b) ms))" by (rule runvals_props(1) [OF assms(3,4)])
  moreover have "updateleaf st t pup p = bindE (setb (foldl (\<lambda>st bp. freebp st t bp) st1 (runfrees (ndvals b) ms)) t (pnl p) (n\<lparr>ndvals := runvals (ndvals b) ms\<rparr>)) (\<lambda>(st, nl).
        Inr (st, p\<lparr>pullsz := pull, npull := int (length ms), pop := POmod, pnl := nl\<rparr>))"
    unfolding updateleaf_def using assms(1,2,7,8) u by simp
  ultimately show ?thesis by blast
qed

theorem updateleaf_correct_witness:
  "\<exists>st1 n vs pull fr. newblk (stW [49152 \<mapsto> leafW]) treeW Tleaf = Inr (st1, n) \<and>
    updateleaf (stW [49152 \<mapsto> leafW]) treeW (path0\<lparr>ins := Some [msgW], phi := 1\<rparr>) (path0\<lparr>pb := Some leafW\<rparr>) =
      bindE (setb (foldl (\<lambda>st bp. freebp st treeW bp) st1 fr) treeW None (n\<lparr>ndvals := vs\<rparr>)) (\<lambda>(st, nl).
        Inr (st, path0\<lparr>pb := Some leafW, pullsz := pull, npull := 1, pop := POmod, pnl := nl\<rparr>)) \<and>
    lk vs [2] = Some [7] \<and> lk vs [3] = Some [9]"
proof -
  let ?top = "path0\<lparr>ins := Some [msgW], phi := 1\<rparr>" and ?p = "path0\<lparr>pb := Some leafW\<rparr>"
  from newblkW [of "[49152 \<mapsto> leafW]" Tleaf treeW] obtain st1 n where n: "newblk (stW [49152 \<mapsto> leafW]) treeW Tleaf = Inr (st1, n)" by auto
  have rk: "runkey (ndvals leafW) [msgW] [2] = Inr (Some [7], [])" "runkey (ndvals leafW) [msgW] [3] = Inr (Some [9], [])" by code_simp+
  have "pending ?top = Inr [msgW]" "pb ?p = Some leafW" "ndtype leafW = Tleaf" "ndvals leafW \<noteq> [] \<and> ndmsgs leafW = []" by (simp_all add: pending_def pmsgs_def path0_def leafW_def)
  moreover have "leafargs (ndvals leafW) [msgW]" by code_simp
  moreover have "sound (bstore (stW [49152 \<mapsto> leafW])) 0 leafW [msgW]" using meaningW by (simp add: sound_def meaning_def msgW_def mval_def mstep_def)
  then have "runok (ndvals leafW) [msgW]" using rootedW sound_leaf [of "bstore (stW [49152 \<mapsto> leafW])" leafW "[msgW]"] by (simp add: rooted_def)
  moreover have "\<not> valspace (ndvals leafW) + 2 + msgspace [msgW] > int Leafspc" by (simp add: leafW_def msgW_def valsz_kv_def msgsz_def)
  ultimately obtain vs pull where 1: "updateleaf (stW [49152 \<mapsto> leafW]) treeW ?top ?p =
      bindE (setb (foldl (\<lambda>st bp. freebp st treeW bp) st1 (runfrees (ndvals leafW) [msgW])) treeW (pnl ?p) (n\<lparr>ndvals := vs\<rparr>)) (\<lambda>(st, nl).
        Inr (st, ?p\<lparr>pullsz := pull, npull := int (length [msgW]), pop := POmod, pnl := nl\<rparr>))"
      "\<forall>k. \<exists>f. runkey (ndvals leafW) [msgW] k = Inr (lk vs k, f)"
    using updateleaf_correct [OF _ _ _ _ _ _ _ n, of ?p leafW "[msgW]" ?top] by blast
  from 1(2) rk have "lk vs [2] = Some [7]" "lk vs [3] = Some [9]" by (metis Inr_inject prod.inject)+
  moreover have "pnl ?p = None" "int (length [msgW]) = 1" by (simp_all add: path0_def)
  ultimately show ?thesis using n 1(1) by (intro exI [of _ st1] exI [of _ n] exI [of _ vs] exI [of _ pull] exI [of _ "runfrees (ndvals leafW) [msgW]"]) simp
qed

section \<open>A pivot with one child\<close>

lemma restmsgs_all:
  assumes "restmsgs ms False spc n pull = Inr (ms', n', pull')" "msgspace ms \<le> spc"
  shows "ms' = []"
  using assms
proof (induction ms arbitrary: spc n pull)
  case (Cons m ms)
  have "msgsz m + msgspace ms \<le> spc" using Cons.prems(2) by simp
  then have "msgsz m \<le> spc" using ndspace_nonneg(2) [of ms] by linarith
  with Cons.prems(1) obtain n1 where "restmsgs ms False (spc - msgsz m) n1 (pull + msgsz m) = Inr (ms', n', pull')"
    by (auto simp: pullmsg_def res_simps)
  with Cons.IH Cons.prems(2) show ?case by simp
qed simp

text \<open>
  C38. When the only child of a pivot has lost its last entry, \<open>updatepiv\<close> takes messages from the
  parent, reports them as pulled, and keeps none: with no entry in the new node \<open>setb\<close> drops it.
  All of them are lost when there is room for them.
\<close>

theorem updatepiv_loses:
  assumes "updatepiv st t pup p (Some q) = Inr (st', p')" "pb p = Some b" "ndvals b = [e]" "pmidx p = 0"
    and "pnl q = None" "pnr q = None" "leftmsgs (ndmsgs b) p (Some q) = Inr []"
    and "pending pup = Inr ms" "msgspace ms \<le> int Bufspc - msgspace (ndmsgs b) + pullsz q"
  shows "npull p' = int (length ms) \<and> pnl p' = None"
proof -
  from assms(1,2,7,8) obtain st1 n n1 n2 Q pull nl where
    1: "newblk st t (ndtype b) = Inr (st1, n)" "pivvals (ndvals b) 0 (pmidx p) (Some q) n = Inr n1"
      "restmsgs ms False (int Bufspc - msgspace (ndmsgs b) + pullsz q) n1 (pullsz p) = Inr (Q, n2, pull)" "setb st1 t (pnl p) n2 = Inr (st', nl)"
      "p' = p\<lparr>pullsz := pull, npull := int (length ms) - int (length Q), pop := POmod, pnl := nl\<rparr>"
    by (auto simp: updatepiv_def Let_def res_simps)
  from 1(2) assms(3-6) newblk_Inr [OF 1(1)] have "ndvals n1 = []"
    using pivvals_Some [of "[e]" 0 0 q n n1] by (simp add: width_def)
  moreover from restmsgs_Inr [OF 1(3)] have "ndvals n2 = ndvals n1" by auto
  ultimately have "nl = None" using setb_Inr(2) [OF 1(4)] by simp
  with restmsgs_all [OF 1(3) assms(9)] 1(5) show ?thesis by simp
qed

theorem updatepiv_loses_witness:
  "\<exists>st' p'. updatepiv (stW [49152 \<mapsto> leafW]) treeW (path0\<lparr>ins := Some [msgW], phi := 1\<rparr>)
      (path0\<lparr>pb := Some (leafW\<lparr>ndtype := Tpivot, ndvals := [ptr leafW]\<rparr>)\<rparr>) (Some path0) = Inr (st', p') \<and> npull p' = 1 \<and> pnl p' = None"
proof -
  let ?b = "leafW\<lparr>ndtype := Tpivot, ndvals := [ptr leafW]\<rparr>" and ?top = "path0\<lparr>ins := Some [msgW], phi := 1\<rparr>"
  from newblkW [of "[49152 \<mapsto> leafW]" Tpivot treeW] obtain fs' where
    n: "newblk (stW [49152 \<mapsto> leafW]) treeW Tpivot = Inr (stW [49152 \<mapsto> leafW]\<lparr>bfs := fs'\<rparr>, newnd \<lparr>baddr = 311296, bhash = -1, bgen = 1\<rparr> Tpivot)"
    by (auto simp: treeW_def)
  have m: "ndmsgs leafW = []" by (simp add: leafW_def)
  have p: "pnl path0 = None" "pnr path0 = None" "pmidx path0 = 0" "pullsz path0 = 0" "pop path0 = 0" "plo path0 = 0" by (simp_all add: path0_def)
  have pd: "pending ?top = Inr [msgW]" by (simp add: pending_def pmsgs_def path0_def)
  have "\<exists>st' p'. updatepiv (stW [49152 \<mapsto> leafW]) treeW ?top (path0\<lparr>pb := Some ?b\<rparr>) (Some path0) = Inr (st', p')"
    unfolding updatepiv_def by (simp add: n pd [unfolded msgW_def] p m copyup_def copyup1_def leftmsgs_def pullmsg_def setb_def newnd_def n_setmsg_def msgsz_def msgW_def)
  then obtain st' p' where u: "updatepiv (stW [49152 \<mapsto> leafW]) treeW ?top (path0\<lparr>pb := Some ?b\<rparr>) (Some path0) = Inr (st', p')" by blast
  from updatepiv_loses [OF u _ _ _ _ _ _ pd, of ?b "ptr leafW"] u show ?thesis by (simp add: p m leftmsgs_def msgsz_def msgW_def)
qed

end
