(* ===== verification/Gefs_Scan.thy ===== *)
theory Gefs_Scan
  imports Gefs_Store
begin

text \<open>
  Scans, from \<open>sys/src/9/gefs/tree.c\<close>: \<open>btnewscan\<close>, \<open>btenter\<close>, \<open>btnext\<close> and \<open>btexit\<close> go through the keys with a prefix in
  order.  A scan has a path from the root to a leaf, with positions in the entries and in the buffer of each node,
  and merges the leaf's entries with the messages of all the buffers on the path.
\<close>

section \<open>Operations\<close>

text \<open>\<open>vi\<close> and \<open>bi\<close> are never negative once \<open>btenter\<close> has set them.\<close>

record Scanp =
  sbi :: nat
  svi :: nat
  sb :: "Nd option"

record Scan =
  sfirst :: bool
  donescan :: bool
  skv :: Kvp
  spfx :: bytes
  spath :: "Scanp list option"

definition scanp0 :: Scanp where
  "scanp0 = \<lparr>sbi = 0, svi = 0, sb = None\<rparr>"

definition btnewscan :: "bytes \<Rightarrow> Scan res" where
  "btnewscan p = (if length p \<le> Keymax then Inr \<lparr>sfirst = True, donescan = False, skv = \<lparr>kk = p, kv = []\<rparr>, spfx = p, spath = None\<rparr> else Inl Wild)"

text \<open>Where a scan from \<open>k\<close> on starts in a pivot's buffer.\<close>

definition bufstart :: "Nd \<Rightarrow> bytes \<Rightarrow> bool \<Rightarrow> nat res" where
  "bufstart b k first =
     bindE (n_bufsearch b k) (\<lambda>(bi, same).
     if bi = -1 then Inr 0
     else if \<not> same \<or> \<not> first then
       bindE (nthE (ndmsgs b) bi) (\<lambda>m. Inr (nat bi + length (takeWhile (\<lambda>c. keycmp (kk m) (kk c) = 0) (drop (nat bi) (ndmsgs b)))))
     else Inr (nat bi))"

text \<open>The loop of \<open>btenter\<close>, \<open>n\<close> levels from \<open>b\<close> down; \<open>ob\<close> is what the element of the path has for its block.\<close>

fun btpath :: "nat \<Rightarrow> Bs \<Rightarrow> bytes \<Rightarrow> bool \<Rightarrow> Nd option \<Rightarrow> Nd \<Rightarrow> Scanp list res" where
  "btpath 0 st k first ob b = Inr []"
| "btpath (Suc n) st k first ob b =
     bindE (n_blksearch b k) (\<lambda>(vi, same).
     if ndtype b = Tpivot then
       (let vi = (if vi = -1 then 0 else vi) in
        bindE (nthE (ndvals b) vi) (\<lambda>v.
        bindE (bufstart b k first) (\<lambda>bi.
        bindE (unpackbp (kv v)) (\<lambda>bp.
        bindE (getblk st bp) (\<lambda>c.
        if n = 0 then Inl Wild
        else bindE (btpath n st k first (Some c) c) (\<lambda>p. Inr (\<lparr>sbi = bi, svi = nat vi, sb = ob\<rparr> # p)))))))
     else
       (let vi = (if vi = -1 \<or> \<not> same \<or> \<not> first then vi + 1 else vi) in
        bindE (btpath n st k first None b) (\<lambda>p. Inr (\<lparr>sbi = 0, svi = nat vi, sb = ob\<rparr> # p))))"

definition btenter :: "Bs \<Rightarrow> Tree \<Rightarrow> Scan \<Rightarrow> Scan res" where
  "btenter st t s =
     (if donescan s then Inr s
      else
        bindE (getblk st (tbp t)) (\<lambda>b.
        if unat (tht t) = 0 then Inl Wild
        else bindE (btpath (unat (tht t)) st (kk (skv s)) (sfirst s) (Some b) b) (\<lambda>p.
          Inr (s\<lparr>spath := Some p, sfirst := False\<rparr>))))"

definition slive :: "Scanp \<Rightarrow> bool" where
  "slive p = (case sb p of None \<Rightarrow> False | Some b \<Rightarrow> svi p < length (ndvals b) \<or> sbi p < length (ndmsgs b))"

text \<open>
  The first loop of \<open>btnext\<close>, from the leaf up: nodes with nothing left are dropped, and their parents move on.  The
  number of elements kept is the code's \<open>start\<close>, or 0 when nothing is left.
\<close>

fun scanup :: "Scanp list \<Rightarrow> Scanp list \<times> nat" where
  "scanup [] = ([], 0)"
| "scanup (p # rest) =
     (let (qs, n) = scanup rest in
      if n > 0 then (p # qs, Suc n)
      else
        let p = (if rest = [] then p else p\<lparr>svi := svi p + 1\<rparr>)
        in (p # map (\<lambda>_. scanp0) rest, if slive p then 1 else 0))"

text \<open>The nodes below an entry of \<open>b\<close> are hasnext.\<close>

fun loaddown :: "Bs \<Rightarrow> Nd \<Rightarrow> nat \<Rightarrow> Scanp list \<Rightarrow> Scanp list res" where
  "loaddown st b i [] = Inr []"
| "loaddown st b i (q # qs) =
     bindE (nthE (ndvals b) (int i)) (\<lambda>e.
     bindE (unpackbp (kv e)) (\<lambda>bp.
     bindE (getblk st bp) (\<lambda>c.
     bindE (loaddown st c (svi q) qs) (\<lambda>qs. Inr (q\<lparr>sb := Some c\<rparr> # qs)))))"

text \<open>Whether there is an entry after the first message for a key.\<close>

definition opok :: "Msg \<Rightarrow> bool res" where
  "opok m = (if mop m = Oinsert then Inr True else if mop m = Oclobber \<or> mop m = Oclearb then Inr False else Inl Ebroke)"

text \<open>The first candidate: the message, the code's \<open>ok\<close>, and \<open>bufsrc\<close> (\<open>None\<close> for -1).\<close>

definition scanload :: "Bs \<Rightarrow> Scanp list \<Rightarrow> nat \<Rightarrow> (Scanp list \<times> Msg \<times> bool \<times> nat option) res" where
  "scanload st p start =
     (let l = p ! (start - 1) in
      case sb l of
        None \<Rightarrow> Inl Wild
      | Some b \<Rightarrow>
          if svi l < length (ndvals b) then
            bindE (loaddown st b (svi l) (drop start p)) (\<lambda>low.
            let p = take start p @ low; l = last p in
            case sb l of
              None \<Rightarrow> Inl Wild
            | Some c \<Rightarrow> bindE (nthE (ndvals c) (int (svi l))) (\<lambda>e. Inr (p, \<lparr>kk = kk e, kv = kv e, mop = Oinsert\<rparr>, True, None)))
          else
            bindE (nthE (ndmsgs b) (int (sbi l))) (\<lambda>m.
            bindE (opok m) (\<lambda>ok. Inr (p, m, ok, Some (start - 1)))))"

text \<open>The least key, over the buffers of the pivots from the lowest up; \<open>i\<close> is the level of the first.\<close>

fun scanmin :: "nat \<Rightarrow> Scanp list \<Rightarrow> Msg \<times> bool \<times> nat option \<Rightarrow> (Msg \<times> bool \<times> nat option) res" where
  "scanmin i [] c = Inr c"
| "scanmin i (p # rest) c =
     bindE (scanmin (Suc i) rest c) (\<lambda>(m, ok, src).
     case sb p of
       None \<Rightarrow> Inr (m, ok, src)
     | Some b \<Rightarrow>
         if sbi p = length (ndmsgs b) then Inr (m, ok, src)
         else
           bindE (nthE (ndmsgs b) (int (sbi p))) (\<lambda>n.
           if keycmp (kk n) (kk m) < 0 then bindE (opok n) (\<lambda>ok. Inr (n, ok, Some i))
           else Inr (m, ok, src)))"

text \<open>The messages for the key of \<open>r\<close>, from the lowest pivot up.\<close>

fun scanbuf :: "Msg list \<Rightarrow> bool \<Rightarrow> Kvp \<Rightarrow> (nat \<times> bool \<times> Kvp) res" where
  "scanbuf [] ok r = Inr (0, ok, r)"
| "scanbuf (m # ms) ok r =
     (if keycmp (kk r) (kk m) \<noteq> 0 then Inr (0, ok, r)
      else bindE (apply_msg r m Kvmax) (\<lambda>(ok, r). bindE (scanbuf ms ok r) (\<lambda>(n, ok, r). Inr (Suc n, ok, r))))"

fun scanapply :: "Scanp list \<Rightarrow> bool \<Rightarrow> Kvp \<Rightarrow> (Scanp list \<times> bool \<times> Kvp) res" where
  "scanapply [] ok r = Inr ([], ok, r)"
| "scanapply (p # rest) ok r =
     bindE (scanapply rest ok r) (\<lambda>(rest, ok, r).
     case sb p of
       None \<Rightarrow> Inr (p # rest, ok, r)
     | Some b \<Rightarrow> bindE (scanbuf (drop (sbi p) (ndmsgs b)) ok r) (\<lambda>(n, ok, r). Inr (p\<lparr>sbi := sbi p + n\<rparr> # rest, ok, r)))"

definition hasprefix :: "bytes \<Rightarrow> bytes \<Rightarrow> bool" where
  "hasprefix p k \<longleftrightarrow> length p \<le> length k \<and> take (length p) k = p"

text \<open>
  \<open>btnext\<close> from \<open>Again\<close> on, once.  \<open>None\<close>: the scan is done.  \<open>Some (ok, r)\<close>: the key of \<open>r\<close> has been dealt with, and has the
  value of \<open>r\<close> if \<open>ok\<close>.  All callers give \<open>btnext\<close> the scan's own \<open>kv\<close> for the result.
\<close>

definition scanstep :: "Bs \<Rightarrow> Scan \<Rightarrow> (Scan \<times> (bool \<times> Kvp) option) res" where
  "scanstep st s =
     (case spath s of
        None \<Rightarrow> Inr (s, None)
      | Some p \<Rightarrow>
          if donescan s then Inr (s, None)
          else
            let (p, start) = scanup p in
            if start = 0 then Inr (s\<lparr>donescan := True, spath := Some p\<rparr>, None)
            else
              bindE (scanload st p start) (\<lambda>(p, c).
              bindE (scanmin 0 (butlast p) c) (\<lambda>(m, ok, src).
              if \<not> hasprefix (spfx s) (kk m) then Inr (s\<lparr>donescan := True, spath := Some p\<rparr>, None)
              else
                bindE (cpkvp m Kvmax) (\<lambda>r.
                let i = (case src of None \<Rightarrow> length p - 1 | Some i \<Rightarrow> i);
                    p = (case src of None \<Rightarrow> p[i := (p ! i)\<lparr>svi := svi (p ! i) + 1\<rparr>] | Some _ \<Rightarrow> p[i := (p ! i)\<lparr>sbi := sbi (p ! i) + 1\<rparr>])
                in bindE (scanapply (butlast p) ok r) (\<lambda>(q, ok, r).
                   Inr (s\<lparr>spath := Some (q @ [last p]), skv := r\<rparr>, Some (ok, r)))))))"

partial_function (option) btnext :: "Bs \<Rightarrow> Scan \<Rightarrow> (Scan \<times> Kvp option) res option" where
  "btnext st s =
     (case scanstep st s of
        Inl e \<Rightarrow> Some (Inl e)
      | Inr (s, None) \<Rightarrow> Some (Inr (s, None))
      | Inr (s, Some (ok, r)) \<Rightarrow> if ok then Some (Inr (s, Some r)) else btnext st s)"

definition btexit :: "Scan \<Rightarrow> Scan" where
  "btexit s = s\<lparr>spath := None\<rparr>"

section \<open>What is left of a scan\<close>

text \<open>\<open>spok \<sigma> n rest\<close>: a path of height \<open>n\<close>, hasnext down to the leaf or to some pivot.\<close>

fun spok :: "(u64 \<Rightarrow> Nd option) \<Rightarrow> nat \<Rightarrow> Scanp list \<Rightarrow> bool" where
  "spok \<sigma> 0 rest \<longleftrightarrow> (\<exists>p b. rest = [p] \<and> sb p = Some b \<and> wft \<sigma> 0 b)"
| "spok \<sigma> (Suc n) rest \<longleftrightarrow> (\<exists>p b qs. rest = p # qs \<and> sb p = Some b \<and> wft \<sigma> (Suc n) b \<and> sbi p \<le> length (ndmsgs b) \<and>
     (qs = replicate (Suc n) scanp0 \<or> spok \<sigma> n qs \<and> svi p < length (ndvals b) \<and> kid \<sigma> (ndvals b ! svi p) = sb (hd qs)))"

definition vals :: "Scanp \<Rightarrow> Kvp list" where
  "vals p = ndvals (the (sb p))"

definition rest_msgs :: "Scanp \<Rightarrow> Msg list" where
  "rest_msgs p = drop (sbi p) (ndmsgs (the (sb p)))"

text \<open>The next element of the path has a block; the entries of a pivot that are still to come, below the path.\<close>

definition hasnext :: "Scanp list \<Rightarrow> bool" where
  "hasnext qs \<longleftrightarrow> sb (hd qs) \<noteq> None"

definition offv :: "Scanp \<Rightarrow> Scanp list \<Rightarrow> Kvp list" where
  "offv p qs = drop (if hasnext qs then Suc (svi p) else svi p) (vals p)"

fun rents :: "(u64 \<Rightarrow> Nd option) \<Rightarrow> nat \<Rightarrow> Scanp list \<Rightarrow> Kvp list" where
  "rents \<sigma> 0 rest = drop (svi (hd rest)) (vals (hd rest))"
| "rents \<sigma> (Suc n) rest = (if hasnext (tl rest) then rents \<sigma> n (tl rest) else []) @ nents \<sigma> n (kids \<sigma> (offv (hd rest) (tl rest)))"

fun rmsgs :: "(u64 \<Rightarrow> Nd option) \<Rightarrow> nat \<Rightarrow> Scanp list \<Rightarrow> Msg list" where
  "rmsgs \<sigma> 0 rest = []"
| "rmsgs \<sigma> (Suc n) rest = (if hasnext (tl rest) then rmsgs \<sigma> n (tl rest) else []) @ nallm \<sigma> n (kids \<sigma> (offv (hd rest) (tl rest))) @ rest_msgs (hd rest)"

text \<open>Between calls of \<open>btnext\<close>, the path ends early only where a pivot has no more entries.\<close>

fun atrest :: "nat \<Rightarrow> Scanp list \<Rightarrow> bool" where
  "atrest 0 rest \<longleftrightarrow> True"
| "atrest (Suc n) rest \<longleftrightarrow> (if hasnext (tl rest) then atrest n (tl rest) else length (vals (hd rest)) \<le> svi (hd rest))"

lemma spok_hasnext: "spok \<sigma> n rest \<Longrightarrow> hasnext rest" "\<not> hasnext (replicate (Suc n) scanp0)"
  by (cases n) (auto simp: hasnext_def scanp0_def)

lemma spok_length: "spok \<sigma> n rest \<Longrightarrow> length rest = Suc n"
  by (induction n arbitrary: rest) auto

lemma spok_SucD:
  assumes "spok \<sigma> (Suc n) rest"
  obtains p b qs where "rest = p # qs" "sb p = Some b" "wft \<sigma> (Suc n) b" "sbi p \<le> length (ndmsgs b)" "length qs = Suc n"
    "hasnext qs \<longrightarrow> spok \<sigma> n qs \<and> svi p < length (ndvals b) \<and> kid \<sigma> (ndvals b ! svi p) = sb (hd qs)"
    "\<not> hasnext qs \<longrightarrow> qs = replicate (Suc n) scanp0"
proof -
  from assms obtain p b qs where *: "rest = p # qs" "sb p = Some b" "wft \<sigma> (Suc n) b" "sbi p \<le> length (ndmsgs b)"
    "qs = replicate (Suc n) scanp0 \<or> spok \<sigma> n qs \<and> svi p < length (ndvals b) \<and> kid \<sigma> (ndvals b ! svi p) = sb (hd qs)" by auto
  from *(5) spok_hasnext(2) [of n] spok_hasnext(1) [of \<sigma> n qs] spok_length [of \<sigma> n qs] have
    "length qs = Suc n" "hasnext qs \<Longrightarrow> spok \<sigma> n qs \<and> svi p < length (ndvals b) \<and> kid \<sigma> (ndvals b ! svi p) = sb (hd qs)" "\<not> hasnext qs \<Longrightarrow> qs = replicate (Suc n) scanp0"
    by auto
  with that *(1-4) show thesis by blast
qed

lemma spok_next:
  assumes "spok \<sigma> (Suc n) rest"
  obtains p qs where "rest = p # qs" "length qs = Suc n" "hasnext qs \<longrightarrow> spok \<sigma> n qs"
proof -
  from assms obtain p b qs where "rest = p # qs" "sb p = Some b" "wft \<sigma> (Suc n) b" "sbi p \<le> length (ndmsgs b)" "length qs = Suc n"
    "hasnext qs \<longrightarrow> spok \<sigma> n qs \<and> svi p < length (ndvals b) \<and> kid \<sigma> (ndvals b ! svi p) = sb (hd qs)"
    "\<not> hasnext qs \<longrightarrow> qs = replicate (Suc n) scanp0" by (rule spok_SucD)
  with that [of p qs] show thesis by simp
qed

section \<open>Moving up\<close>

text \<open>\<open>kept n s rest\<close>: the path ends at its element \<open>s - 1\<close>, which has something left.\<close>

fun kept :: "nat \<Rightarrow> nat \<Rightarrow> Scanp list \<Rightarrow> bool" where
  "kept n 0 rest \<longleftrightarrow> False"
| "kept n (Suc 0) rest \<longleftrightarrow> slive (hd rest) \<and> tl rest = replicate n scanp0"
| "kept 0 (Suc (Suc s)) rest \<longleftrightarrow> False"
| "kept (Suc n) (Suc (Suc s)) rest \<longleftrightarrow> hasnext (tl rest) \<and> kept n (Suc s) (tl rest)"

lemma scanup_dead: "snd (scanup (replicate n scanp0)) = 0"
  by (induction n) (auto simp: Let_def slive_def scanp0_def split: prod.splits)

lemma scanup_head: "scanup rest = (r', s) \<Longrightarrow> s > 0 \<Longrightarrow> sb (hd r') = sb (hd rest) \<and> length r' = length rest"
  by (induction rest arbitrary: r' s) (auto simp: Let_def split: prod.splits if_splits)

lemma scanup_ok:
  assumes "spok \<sigma> n rest" "atrest n rest" "scanup rest = (r', s)"
  shows "if s = 0 then rents \<sigma> n rest = [] \<and> rmsgs \<sigma> n rest = []
    else spok \<sigma> n r' \<and> kept n s r' \<and> rents \<sigma> n r' = rents \<sigma> n rest \<and> rmsgs \<sigma> n r' = rmsgs \<sigma> n rest"
  using assms
proof (induction n arbitrary: rest r' s)
  case 0
  then obtain p b where p: "rest = [p]" "sb p = Some b" "wft \<sigma> 0 b" by auto
  with 0(3) show ?case by (auto simp: slive_def vals_def split: if_splits)
next
  case (Suc n)
  from Suc.prems(1) obtain p b qs where p: "rest = p # qs" "sb p = Some b" "wft \<sigma> (Suc n) b" "sbi p \<le> length (ndmsgs b)" "length qs = Suc n"
    and l: "hasnext qs \<longrightarrow> spok \<sigma> n qs \<and> svi p < length (ndvals b) \<and> kid \<sigma> (ndvals b ! svi p) = sb (hd qs)"
    and nl: "\<not> hasnext qs \<longrightarrow> qs = replicate (Suc n) scanp0" by (rule spok_SucD)
  obtain q m where q: "scanup qs = (q, m)" by (cases "scanup qs")
  have v: "vals p = ndvals b" by (simp add: vals_def p(2))
  have dead: "map (\<lambda>_. scanp0) qs = replicate (Suc n) scanp0" using p(5) by (simp add: map_replicate_const del: replicate.simps)
  let ?p = "p\<lparr>svi := Suc (svi p)\<rparr>"
  show ?case
  proof (cases "m = 0")
    case False
    then have lq: "hasnext qs" using nl q scanup_dead [of "Suc n"] by (cases "hasnext qs") auto
    note l = l [rule_format, OF lq]
    from Suc.IH [OF conjunct1 [OF l] _ q] Suc.prems(2) lq p(1) False have h: "spok \<sigma> n q" "kept n m q" "rents \<sigma> n q = rents \<sigma> n qs" "rmsgs \<sigma> n q = rmsgs \<sigma> n qs" by auto
    have sq: "sb (hd q) = sb (hd qs)" using scanup_head [OF q] False by simp
    have r: "r' = p # q" "s = Suc m" using Suc.prems(3) p(1) q False by simp_all
    obtain m' where m': "m = Suc m'" using False by (cases m) auto
    have o: "offv p q = offv p qs" "hasnext q" using spok_hasnext(1) [OF h(1)] lq by (simp_all add: offv_def)
    have "spok \<sigma> (Suc n) r'" using p h(1) l sq by (auto simp: r)
    moreover have "kept (Suc n) s r'" using h(2) o by (simp add: r m')
    ultimately show ?thesis using h(3,4) o lq by (simp add: r p(1))
  next
    case True
    have gone: "(if hasnext qs then rents \<sigma> n qs else []) = []" "(if hasnext qs then rmsgs \<sigma> n qs else []) = []"
      using Suc.IH [OF _ _ q] l Suc.prems(2) p(1) True by auto
    have off: "drop (Suc (svi p)) (ndvals b) = offv p qs"
      using Suc.prems(2) p(1) v by (auto simp: offv_def)
    have r: "r' = ?p # replicate (Suc n) scanp0" "s = (if slive ?p then 1 else 0)"
    proof -
      have "qs \<noteq> []" using p(5) by auto
      then show "r' = ?p # replicate (Suc n) scanp0" "s = (if slive ?p then 1 else 0)"
        using Suc.prems(3) q True dead unfolding p(1) by (auto simp: Let_def simp del: replicate.simps)
    qed
    have o': "offv ?p (replicate (Suc n) scanp0) = offv p qs" using off spok_hasnext(2) [of n] v by (simp add: offv_def vals_def p(2))
    have rm: "rest_msgs ?p = rest_msgs p" "rest_msgs p = drop (sbi p) (ndmsgs b)" by (simp_all add: rest_msgs_def p(2))
    have eq: "rents \<sigma> (Suc n) rest = nents \<sigma> n (kids \<sigma> (offv p qs))" "rmsgs \<sigma> (Suc n) rest = nallm \<sigma> n (kids \<sigma> (offv p qs)) @ drop (sbi p) (ndmsgs b)"
      using gone rm(2) by (auto simp: p(1) split: if_splits)
    show ?thesis
    proof (cases "slive ?p")
      case True
      then have "spok \<sigma> (Suc n) r'" using p(2-4) by (auto simp: r)
      moreover have "kept (Suc n) s r'" using True by (simp add: r)
      moreover have "rents \<sigma> (Suc n) r' = nents \<sigma> n (kids \<sigma> (offv p qs))" "rmsgs \<sigma> (Suc n) r' = nallm \<sigma> n (kids \<sigma> (offv p qs)) @ drop (sbi p) (ndmsgs b)"
        unfolding r(1) using spok_hasnext(2) [of n] o' rm by (simp_all del: replicate.simps)
      ultimately show ?thesis using True eq by (simp add: r(2))
    next
      case False
      then have "length (ndvals b) \<le> Suc (svi p)" "length (ndmsgs b) \<le> sbi p" by (auto simp: slive_def p(2))
      then have "offv p qs = []" "drop (sbi p) (ndmsgs b) = []" using off by auto
      then show ?thesis using False eq by (simp add: r(2))
    qed
  qed
qed

section \<open>Moving down\<close>

text \<open>Loaded down to a leaf with an entry left; or down to a pivot that has messages left but no entries.\<close>

fun full :: "nat \<Rightarrow> Scanp list \<Rightarrow> bool" where
  "full 0 rest \<longleftrightarrow> svi (hd rest) < length (vals (hd rest))"
| "full (Suc n) rest \<longleftrightarrow> hasnext (tl rest) \<and> full n (tl rest)"

fun stuck :: "nat \<Rightarrow> nat \<Rightarrow> Scanp list \<Rightarrow> bool" where
  "stuck 0 s rest \<longleftrightarrow> False"
| "stuck (Suc n) s rest \<longleftrightarrow> (if hasnext (tl rest) then s > 0 \<and> stuck n (s - 1) (tl rest)
     else s = 0 \<and> length (vals (hd rest)) \<le> svi (hd rest) \<and> rest_msgs (hd rest) \<noteq> [])"

lemma full_atrest: "full n rest \<Longrightarrow> atrest n rest" "stuck n s rest \<Longrightarrow> atrest n rest"
  by (induction n arbitrary: rest s) (auto split: if_splits)

lemma loaddown_ok:
  assumes "wft (bstore st) (Suc n) b" "i < length (ndvals b)"
  shows "\<exists>qs c. loaddown st b i (replicate (Suc n) scanp0) = Inr qs \<and> spok (bstore st) n qs \<and> full n qs \<and>
    kid (bstore st) (ndvals b ! i) = Some c \<and> sb (hd qs) = Some c \<and> rents (bstore st) n qs = ents (bstore st) n c \<and> rmsgs (bstore st) n qs = allm (bstore st) n c"
  using assms
proof (induction n arbitrary: b i)
  case 0
  from 0 obtain c where c: "kid (bstore st) (ndvals b ! i) = Some c" "wft (bstore st) 0 c" by (force simp: wft_Suc wfkids_def)
  from kid_lookup [OF c(1)] obtain bp where "unpackbp (kv (ndvals b ! i)) = Inr bp" "getblk st bp = Inr c" by blast
  then show ?case using c 0(2) by (auto simp: nthE_def scanp0_def vals_def)
next
  case (Suc n)
  from Suc.prems obtain c where c: "kid (bstore st) (ndvals b ! i) = Some c" "wft (bstore st) (Suc n) c" by (force simp: wft_Suc wfkids_def)
  from kid_lookup [OF c(1)] obtain bp where bp: "unpackbp (kv (ndvals b ! i)) = Inr bp" "getblk st bp = Inr c" by blast
  from c(2) obtain v vs where v: "ndvals c = v # vs" by (cases "ndvals c") (auto simp: wft_Suc)
  from Suc.IH [OF c(2), of 0] v obtain qs d where q: "loaddown st c 0 (replicate (Suc n) scanp0) = Inr qs" "spok (bstore st) n qs" "full n qs"
    "kid (bstore st) v = Some d" "sb (hd qs) = Some d" "rents (bstore st) n qs = ents (bstore st) n d" "rmsgs (bstore st) n qs = allm (bstore st) n d" by auto
  let ?r = "scanp0\<lparr>sb := Some c\<rparr> # qs"
  have "loaddown st b i (replicate (Suc (Suc n)) scanp0) = Inr ?r"
    using bp q(1) Suc.prems(2) by (simp add: nthE_def scanp0_def del: replicate.simps) (simp add: scanp0_def bp nthE_def q(1) [unfolded scanp0_def])
  moreover have lq: "hasnext qs" by (rule spok_hasnext(1) [OF q(2)])
  moreover have "spok (bstore st) (Suc n) ?r" using c(2) q(2,4,5) v by (simp add: scanp0_def)
  moreover have "rents (bstore st) (Suc n) ?r = ents (bstore st) (Suc n) c" "rmsgs (bstore st) (Suc n) ?r = allm (bstore st) (Suc n) c"
    using q(4,6,7) lq v by (simp_all add: offv_def vals_def rest_msgs_def scanp0_def ents_Suc allm_Suc)
  ultimately show ?case using c(1) q(3) by (intro exI [of _ ?r] exI [of _ c]) simp
qed

section \<open>On the path and off it\<close>

fun leafe :: "nat \<Rightarrow> Scanp list \<Rightarrow> Kvp list" where
  "leafe 0 rest = drop (svi (hd rest)) (vals (hd rest))"
| "leafe (Suc n) rest = (if hasnext (tl rest) then leafe n (tl rest) else [])"

text \<open>The messages for a key on the path, lower ones first.\<close>

fun onm :: "nat \<Rightarrow> Scanp list \<Rightarrow> bytes \<Rightarrow> Msg list" where
  "onm 0 rest k = []"
| "onm (Suc n) rest k = (if hasnext (tl rest) then onm n (tl rest) k else []) @ msgsof k (rest_msgs (hd rest))"

fun onkeys :: "nat \<Rightarrow> Scanp list \<Rightarrow> bytes set" where
  "onkeys 0 rest = kk ` set (leafe 0 rest)"
| "onkeys (Suc n) rest = (if hasnext (tl rest) then onkeys n (tl rest) else {}) \<union> kk ` set (rest_msgs (hd rest))"

fun offk :: "(u64 \<Rightarrow> Nd option) \<Rightarrow> nat \<Rightarrow> Scanp list \<Rightarrow> bytes set" where
  "offk \<sigma> 0 rest = {}"
| "offk \<sigma> (Suc n) rest = (if hasnext (tl rest) then offk \<sigma> n (tl rest) else {}) \<union> fkeys \<sigma> n (offv (hd rest) (tl rest))"

lemma leafe_onkeys: "kk ` set (leafe n rest) \<subseteq> onkeys n rest"
  by (induction n arbitrary: rest) auto

lemma onm_onkeys: "k \<notin> onkeys n rest \<Longrightarrow> onm n rest k = [] \<and> lk (leafe n rest) k = None"
proof (induction n arbitrary: rest)
  case 0
  then show ?case by (simp add: lk_notin)
next
  case (Suc n)
  then have "msgsof k (rest_msgs (hd rest)) = []" by (intro msgsof_notin) auto
  with Suc.IH [of "tl rest"] Suc.prems show ?case by auto
qed

lemma on_path:
  assumes "k \<notin> offk \<sigma> n rest"
  shows "lk (rents \<sigma> n rest) k = lk (leafe n rest) k" "msgsof k (rmsgs \<sigma> n rest) = onm n rest k"
proof -
  have "lk (rents \<sigma> n rest) k = lk (leafe n rest) k \<and> msgsof k (rmsgs \<sigma> n rest) = onm n rest k"
    using assms
  proof (induction n arbitrary: rest)
    case (Suc n)
    have "k \<notin> ckeys \<sigma> n (kids \<sigma> (offv (hd rest) (tl rest)))" using Suc.prems ckeys_kids [of \<sigma> n "offv (hd rest) (tl rest)"] by auto
    note o = nlist_none [OF this]
    show ?case using Suc.IH [of "tl rest"] Suc.prems o by (auto simp: lk_append split: option.splits if_splits)
  qed simp
  then show "lk (rents \<sigma> n rest) k = lk (leafe n rest) k" "msgsof k (rmsgs \<sigma> n rest) = onm n rest k" by auto
qed

lemma all_keys: "kk ` set (rents \<sigma> n rest) \<union> kk ` set (rmsgs \<sigma> n rest) \<subseteq> onkeys n rest \<union> offk \<sigma> n rest"
proof (induction n arbitrary: rest)
  case (Suc n)
  note o = nlist_keys [of \<sigma> n "kids \<sigma> (offv (hd rest) (tl rest))"] and c = ckeys_kids [of \<sigma> n "offv (hd rest) (tl rest)"]
  show ?case using Suc.IH [of "tl rest"] o c by (auto split: if_splits)
qed simp

lemma onkeys_all: "onkeys n rest \<subseteq> kk ` set (rents \<sigma> n rest) \<union> kk ` set (rmsgs \<sigma> n rest)"
proof (induction n arbitrary: rest)
  case (Suc n)
  show ?case using Suc.IH [of "tl rest"] by (auto simp: image_Un)
qed simp

text \<open>The first candidate is before everything off the path.\<close>

fun bound :: "nat \<Rightarrow> Scanp list \<Rightarrow> bytes" where
  "bound 0 rest = kk (hd (leafe 0 rest))"
| "bound (Suc n) rest = (if hasnext (tl rest) then bound n (tl rest) else kk (hd (rest_msgs (hd rest))))"

lemma hd_in: "xs \<noteq> [] \<Longrightarrow> hd xs \<in> set xs"
  by (cases xs) auto

lemma rest_msgs_sub: "set (rest_msgs p) \<subseteq> set (ndmsgs (the (sb p)))"
  by (auto simp: rest_msgs_def dest: in_set_dropD)

lemma bound_off:
  assumes "spok \<sigma> n rest" "full n rest \<or> stuck n s rest"
  shows "bound n rest \<in> onkeys n rest \<and> bound n rest \<in> nkeys \<sigma> n (the (sb (hd rest))) \<and> (\<forall>x \<in> offk \<sigma> n rest. bound n rest < x)"
  using assms
proof (induction n arbitrary: rest s)
  case 0
  then obtain p b where p: "rest = [p]" "sb p = Some b" by auto
  with 0 have "leafe 0 rest \<noteq> []" by (auto simp: vals_def)
  from hd_in [OF this] p show ?case by (auto simp: vals_def dest: in_set_dropD)
next
  case (Suc n)
  from Suc.prems(1) obtain p b qs where p: "rest = p # qs" "sb p = Some b" "wft \<sigma> (Suc n) b"
    and l: "hasnext qs \<longrightarrow> spok \<sigma> n qs \<and> svi p < length (ndvals b) \<and> kid \<sigma> (ndvals b ! svi p) = sb (hd qs)" by (rule spok_SucD)
  have v: "vals p = ndvals b" by (simp add: vals_def p(2))
  show ?case
  proof (cases "hasnext qs")
    case True
    note l = l [rule_format, OF True]
    from True obtain c where c: "sb (hd qs) = Some c" by (auto simp: hasnext_def)
    have "full n qs \<or> stuck n (s - 1) qs" using Suc.prems(2) True by (auto simp: p(1))
    from Suc.IH [OF conjunct1 [OF l] this] c have h: "bound n qs \<in> onkeys n qs" "bound n qs \<in> nkeys \<sigma> n c" "\<forall>x \<in> offk \<sigma> n qs. bound n qs < x" by auto
    let ?e = "ndvals b ! svi p"
    have e: "bound n qs \<in> ekeys \<sigma> n ?e" using l c h(2) by (simp add: ekeys_def)
    have split: "ndvals b = take (svi p) (ndvals b) @ [?e] @ drop (Suc (svi p)) (ndvals b)" using l id_take_nth_drop [of "svi p" "ndvals b"] by simp
    have wk: "wfkids \<sigma> n (ndvals b)" using p(3) by (simp add: wft_Suc)
    have "wfkids \<sigma> n (take (svi p) (ndvals b) @ [?e] @ drop (Suc (svi p)) (ndvals b))" by (rule back_subst [where P = "wfkids \<sigma> n", OF wk split])
    then have "before (ekeys \<sigma> n ?e) (fkeys \<sigma> n (drop (Suc (svi p)) (ndvals b)))" unfolding wfkids_append by simp
    moreover have "fkeys \<sigma> n (ndvals b) \<supseteq> ekeys \<sigma> n ?e" unfolding fkeys_def using l by (intro UN_upper nth_mem) simp
    ultimately have "bound n qs \<in> nkeys \<sigma> (Suc n) b" "\<forall>x \<in> fkeys \<sigma> n (drop (Suc (svi p)) (ndvals b)). bound n qs < x"
      using e by (auto simp: nkeys_Suc before_def)
    moreover have "bound (Suc n) rest = bound n qs" "offk \<sigma> (Suc n) rest = offk \<sigma> n qs \<union> fkeys \<sigma> n (drop (Suc (svi p)) (ndvals b))" "onkeys n qs \<subseteq> onkeys (Suc n) rest"
      using True v by (auto simp: p(1) offv_def)
    ultimately show ?thesis using h(1,3) p(2) by (auto simp: p(1))
  next
    case False
    with Suc.prems(2) have s: "length (vals p) \<le> svi p" "rest_msgs p \<noteq> []" by (auto simp: p(1))
    have m: "hd (rest_msgs p) \<in> set (rest_msgs p)" "set (rest_msgs p) \<subseteq> set (ndmsgs b)" using hd_in [OF s(2)] rest_msgs_sub [of p] p(2) by auto
    then show ?thesis using False s(1) p(2) by (auto simp: p(1) offv_def nkeys_Suc)
  qed
qed

section \<open>The next key\<close>

text \<open>A position in a buffer moves on over messages for \<open>k\<close>.\<close>

definition adv :: "bytes \<Rightarrow> Scanp \<Rightarrow> Scanp \<Rightarrow> bool" where
  "adv k p p' \<longleftrightarrow> (sb p = None \<longrightarrow> p' = p) \<and> sb p' = sb p \<and> svi p' = svi p \<and> (sbi p \<le> length (ndmsgs (the (sb p))) \<longrightarrow> sbi p' \<le> length (ndmsgs (the (sb p)))) \<and>
     (\<exists>ms. rest_msgs p = ms @ rest_msgs p' \<and> (\<forall>m \<in> set ms. kk m = k))"

lemma adv_refl [simp]: "adv k p p"
  by (simp add: adv_def)

lemma adv_trans: "adv k p q \<Longrightarrow> adv k q r \<Longrightarrow> adv k p r"
  by (auto simp: adv_def)

lemma advs_refl: "list_all2 (adv k) rest rest"
  by (simp add: list_all2_refl)

lemma adv_msgs:
  assumes "adv k p p'" "x \<noteq> k"
  shows "msgsof x (rest_msgs p') = msgsof x (rest_msgs p)"
proof -
  from assms(1) obtain ms where ms: "rest_msgs p = ms @ rest_msgs p'" "\<forall>m \<in> set ms. kk m = k" by (auto simp: adv_def)
  have "msgsof x ms = []" by (rule msgsof_notin) (use ms(2) assms(2) in auto)
  then show ?thesis by (simp add: ms(1))
qed

lemma adv_hasnext: "list_all2 (adv k) qs qs' \<Longrightarrow> qs \<noteq> [] \<Longrightarrow> hasnext qs' = hasnext qs"
  by (cases qs; cases qs') (auto simp: hasnext_def adv_def)

lemma adv_offv:
  assumes "adv k p p'" "list_all2 (adv k) qs qs'" "qs \<noteq> []"
  shows "offv p' qs' = offv p qs" "vals p' = vals p"
  using assms adv_hasnext [OF assms(2,3)] by (auto simp: offv_def vals_def adv_def)

text \<open>What that leaves of a path.\<close>

lemma advs_frame:
  assumes "list_all2 (adv k) rest rest'" "spok \<sigma> n rest"
  shows "spok \<sigma> n rest'" "rents \<sigma> n rest' = rents \<sigma> n rest" "leafe n rest' = leafe n rest" "offk \<sigma> n rest' = offk \<sigma> n rest" "atrest n rest' = atrest n rest"
    "set (rmsgs \<sigma> n rest') \<subseteq> set (rmsgs \<sigma> n rest)" "length (rmsgs \<sigma> n rest') \<le> length (rmsgs \<sigma> n rest)"
    "x \<noteq> k \<Longrightarrow> msgsof x (rmsgs \<sigma> n rest') = msgsof x (rmsgs \<sigma> n rest)" "x \<noteq> k \<Longrightarrow> onm n rest' x = onm n rest x" "onkeys n rest' \<subseteq> onkeys n rest"
proof -
  have "spok \<sigma> n rest' \<and> rents \<sigma> n rest' = rents \<sigma> n rest \<and> leafe n rest' = leafe n rest \<and> offk \<sigma> n rest' = offk \<sigma> n rest \<and> atrest n rest' = atrest n rest \<and>
    set (rmsgs \<sigma> n rest') \<subseteq> set (rmsgs \<sigma> n rest) \<and> length (rmsgs \<sigma> n rest') \<le> length (rmsgs \<sigma> n rest) \<and>
    (x \<noteq> k \<longrightarrow> msgsof x (rmsgs \<sigma> n rest') = msgsof x (rmsgs \<sigma> n rest)) \<and> (x \<noteq> k \<longrightarrow> onm n rest' x = onm n rest x) \<and> onkeys n rest' \<subseteq> onkeys n rest" for x
    using assms
  proof (induction n arbitrary: rest rest')
    case 0
    then obtain p b p' where p: "rest = [p]" "rest' = [p']" "sb p = Some b" "wft \<sigma> 0 b" "adv k p p'" by (auto simp: list_all2_Cons1)
    then show ?case by (auto simp: adv_def vals_def)
  next
    case (Suc n)
    from Suc.prems(2) obtain p b qs where p: "rest = p # qs" "sb p = Some b" "wft \<sigma> (Suc n) b" "sbi p \<le> length (ndmsgs b)" "length qs = Suc n"
      and l: "hasnext qs \<longrightarrow> spok \<sigma> n qs \<and> svi p < length (ndvals b) \<and> kid \<sigma> (ndvals b ! svi p) = sb (hd qs)"
      and nl: "\<not> hasnext qs \<longrightarrow> qs = replicate (Suc n) scanp0" by (rule spok_SucD)
    from Suc.prems(1) p(1) obtain p' qs' where p': "rest' = p' # qs'" "adv k p p'" "list_all2 (adv k) qs qs'" by (auto simp: list_all2_Cons1)
    have ne: "qs \<noteq> []" using p(5) by auto
    note o = adv_offv [OF p'(2,3) ne] and hn = adv_hasnext [OF p'(3) ne]
    have a: "sb p' = Some b" "svi p' = svi p" "sbi p' \<le> length (ndmsgs b)" using p'(2) p(2,4) by (auto simp: adv_def)
    from p'(2) obtain ms where ms: "rest_msgs p = ms @ rest_msgs p'" "\<forall>m \<in> set ms. kk m = k" by (auto simp: adv_def)
    have mx: "x \<noteq> k \<longrightarrow> msgsof x (rest_msgs p') = msgsof x (rest_msgs p)" using adv_msgs [OF p'(2)] by blast
    show ?case
    proof (cases "hasnext qs")
      case True
      note l = l [rule_format, OF True]
      note h = Suc.IH [OF p'(3) conjunct1 [OF l]]
      have "sb (hd qs') = sb (hd qs)" using p'(3) ne by (cases qs; cases qs') (auto simp: adv_def)
      then have "spok \<sigma> (Suc n) rest'" using h l a p(3) by (auto simp: p'(1))
      then show ?thesis using h True hn o a mx ms(1) by (auto simp: p(1) p'(1))
    next
      case False
      have "qs' = qs"
      proof (rule nth_equalityI)
        show "length qs' = length qs" using p'(3) by (simp add: list_all2_lengthD)
        show "qs' ! i = qs ! i" if "i < length qs'" for i
        proof -
          have "qs ! i = scanp0" using nl False that list_all2_lengthD [OF p'(3)] p(5) by (simp del: replicate.simps)
          then have "sb (qs ! i) = None" by (simp add: scanp0_def)
          with list_all2_nthD2 [OF p'(3) that] show ?thesis by (simp add: adv_def)
        qed
      qed
      then have "spok \<sigma> (Suc n) rest'" using nl False a p(3) by (auto simp: p'(1))
      then show ?thesis using False hn o a mx ms(1) by (auto simp: p(1) p'(1))
    qed
  qed
  then show "spok \<sigma> n rest'" "rents \<sigma> n rest' = rents \<sigma> n rest" "leafe n rest' = leafe n rest" "offk \<sigma> n rest' = offk \<sigma> n rest" "atrest n rest' = atrest n rest"
    "set (rmsgs \<sigma> n rest') \<subseteq> set (rmsgs \<sigma> n rest)" "length (rmsgs \<sigma> n rest') \<le> length (rmsgs \<sigma> n rest)"
    "x \<noteq> k \<Longrightarrow> msgsof x (rmsgs \<sigma> n rest') = msgsof x (rmsgs \<sigma> n rest)" "x \<noteq> k \<Longrightarrow> onm n rest' x = onm n rest x" "onkeys n rest' \<subseteq> onkeys n rest" by blast+
qed

definition bump :: "Scanp \<Rightarrow> Scanp" where
  "bump p = p\<lparr>sbi := Suc (sbi p)\<rparr>"

lemma bump_adv:
  assumes "rest_msgs p = m # ms" "sb p = Some b"
  shows "adv (kk m) p (bump p)" "rest_msgs (bump p) = ms" "sbi p < length (ndmsgs b)" "ndmsgs b ! sbi p = m"
proof -
  have d: "drop (sbi p) (ndmsgs b) = m # ms" using assms by (simp add: rest_msgs_def)
  then show l: "sbi p < length (ndmsgs b)" by (metis drop_all linorder_not_le list.distinct(1))
  show "ndmsgs b ! sbi p = m" using d l by (simp add: nth_via_drop)
  show ms: "rest_msgs (bump p) = ms" using d assms(2) by (simp add: rest_msgs_def bump_def drop_Suc flip: tl_drop)
  show "adv (kk m) p (bump p)" using assms ms l by (simp add: adv_def bump_def)
qed

lemma no_rest: "sb p = Some b \<Longrightarrow> sbi p \<le> length (ndmsgs b) \<Longrightarrow> rest_msgs p = [] \<longleftrightarrow> sbi p = length (ndmsgs b)"
  by (auto simp: rest_msgs_def)

text \<open>A candidate: its key is the least on the path, and its message the first for that key.\<close>

definition cand :: "nat \<Rightarrow> Scanp list \<Rightarrow> nat \<Rightarrow> Msg \<times> bool \<times> nat option \<Rightarrow> bool" where
  "cand n rest i c = (case c of (m, ok, src) \<Rightarrow> kk m \<le> bound n rest \<and> (\<forall>x \<in> onkeys n rest. kk m \<le> x) \<and> kk m \<in> onkeys n rest \<and>
     (case src of
        None \<Rightarrow> ok \<and> full n rest \<and> (\<exists>e es. leafe n rest = e # es \<and> kk e = kk m \<and> kv e = kv m)
      | Some j \<Rightarrow> i \<le> j \<and> j < i + n \<and> opok m = Inr ok \<and> lk (leafe n rest) (kk m) = None \<and>
          list_all2 (adv (kk m)) rest (rest[j - i := bump (rest ! (j - i))]) \<and> onm n rest (kk m) = m # onm n (rest[j - i := bump (rest ! (j - i))]) (kk m)))"

fun startc :: "nat \<Rightarrow> Scanp list \<Rightarrow> nat \<Rightarrow> Msg \<times> bool \<times> nat option \<Rightarrow> bool" where
  "startc 0 rest i c \<longleftrightarrow> (\<exists>e es. leafe 0 rest = e # es \<and> c = (\<lparr>kk = kk e, kv = kv e, mop = Oinsert\<rparr>, True, None))"
| "startc (Suc n) rest i c \<longleftrightarrow> (if hasnext (tl rest) then startc n (tl rest) (Suc i) c
     else length (vals (hd rest)) \<le> svi (hd rest) \<and> (\<exists>m ms ok. rest_msgs (hd rest) = m # ms \<and> opok m = Inr ok \<and> c = (m, ok, Some i)))"

lemma butlast_dead: "butlast (replicate (Suc n) x) = replicate n x"
  by (induction n) auto

lemma scanmin_dead: "scanmin i (replicate n scanp0) c = Inr c"
  by (induction n arbitrary: i) (auto simp: scanp0_def)

lemma mval_first:
  assumes "mval k (x # ms) None = Inr v" "kk x = k"
  shows "\<exists>ok. opok x = Inr ok"
proof -
  obtain s where "mval k [x] None = Inr s" by (rule mval_ConsE [OF assms(1)])
  then show ?thesis by (auto simp: mval_one mstep_def opok_def split: if_splits)
qed

lemma sorted_rest:
  assumes "wft \<sigma> (Suc n) b" "sb p = Some b"
  shows "sorted (map kk (rest_msgs p))" "\<forall>m \<in> set (rest_msgs p). okmsg m"
proof -
  have "sorted (map kk (ndmsgs b))" and o: "\<forall>m \<in> set (ndmsgs b). okmsg m" using assms(1) unfolding wft_Suc by blast+
  then have "sorted (drop (sbi p) (map kk (ndmsgs b)))" by (intro sorted_wrt_drop)
  then show "sorted (map kk (rest_msgs p))" by (simp add: rest_msgs_def assms(2) drop_map)
  show "\<forall>m \<in> set (rest_msgs p). okmsg m" using o rest_msgs_sub [of p] assms(2) by auto
qed

text \<open>One level up, when the candidate stays.\<close>

lemma cand_keep:
  assumes "cand n qs (Suc i) (m, ok, src)" "hasnext qs" "length qs = Suc n" "\<forall>x \<in> kk ` set (rest_msgs p). kk m \<le> x"
  shows "cand (Suc n) (p # qs) i (m, ok, src)"
proof (cases src)
  case None
  with assms show ?thesis by (auto simp: cand_def)
next
  case (Some j)
  with assms(1) have c: "kk m \<le> bound n qs" "\<forall>x \<in> onkeys n qs. kk m \<le> x" "kk m \<in> onkeys n qs" "Suc i \<le> j" "j < Suc i + n" "opok m = Inr ok" "lk (leafe n qs) (kk m) = None"
    "list_all2 (adv (kk m)) qs (qs[j - Suc i := bump (qs ! (j - Suc i))])" "onm n qs (kk m) = m # onm n (qs[j - Suc i := bump (qs ! (j - Suc i))]) (kk m)"
    by (auto simp: cand_def)
  obtain d where j: "j = Suc (i + d)" using c(4) le_Suc_ex [of "Suc i" j] by auto
  have "qs \<noteq> []" using assms(3) by auto
  note hn = adv_hasnext [OF c(8) this]
  have "j - i = Suc d" "j - Suc i = d" using j by auto
  then show ?thesis using c assms(2,4) hn unfolding cand_def Some by auto
qed

lemma scanmin_ok:
  assumes "spok \<sigma> n rest" "startc n rest i c" "\<And>k. k \<le> bound n rest \<Longrightarrow> \<exists>v. mval k (onm n rest k) (lk (leafe n rest) k) = Inr v"
  shows "\<exists>r. scanmin i (butlast rest) c = Inr r \<and> cand n rest i r"
  using assms
proof (induction n arbitrary: rest i)
  case 0
  then obtain p b where p: "rest = [p]" "sb p = Some b" "wft \<sigma> 0 b" by auto
  from 0(2) obtain e es where e: "leafe 0 rest = e # es" "c = (\<lparr>kk = kk e, kv = kv e, mop = Oinsert\<rparr>, True, None)" by auto
  have "sorted_wrt (<) (map kk (leafe 0 rest))" using p by (simp add: vals_def drop_map [symmetric] sorted_wrt_drop)
  then have "\<forall>x \<in> onkeys 0 rest. kk e \<le> x" using e(1) by auto
  moreover have "svi p < length (vals p)" using e(1) p(1) by (cases "svi p < length (vals p)") auto
  ultimately show ?case using e p(1) by (simp add: cand_def)
next
  case (Suc n)
  from Suc.prems(1) obtain p b qs where p: "rest = p # qs" "sb p = Some b" "wft \<sigma> (Suc n) b" "sbi p \<le> length (ndmsgs b)" "length qs = Suc n"
    and l: "hasnext qs \<longrightarrow> spok \<sigma> n qs \<and> svi p < length (ndvals b) \<and> kid \<sigma> (ndvals b ! svi p) = sb (hd qs)"
    and nl: "\<not> hasnext qs \<longrightarrow> qs = replicate (Suc n) scanp0" by (rule spok_SucD)
  have ne: "qs \<noteq> []" using p(5) by auto
  then have bl: "butlast rest = p # butlast qs" by (simp add: p(1))
  note so = sorted_rest [OF p(3,2)]
  show ?case
  proof (cases "hasnext qs")
    case False
    with Suc.prems(2) obtain m ms ok where m: "rest_msgs p = m # ms" "opok m = Inr ok" "c = (m, ok, Some i)" by (auto simp: p(1))
    note b = bump_adv [OF m(1) p(2)]
    have "scanmin (Suc i) (butlast qs) c = Inr c" using nl False scanmin_dead by (simp add: butlast_dead del: replicate.simps)
    then have "scanmin i (butlast rest) c = Inr c" using b(3,4) p(2) m(3) by (simp add: bl nthE_def)
    moreover have "cand (Suc n) rest i c"
      using so(1) m b(1,2) False advs_refl [of "kk m" qs] by (auto simp: cand_def p(1))
    ultimately show ?thesis by blast
  next
    case True
    note l = l [rule_format, OF True]
    have sound: "\<exists>v. mval k (onm n qs k) (lk (leafe n qs) k) = Inr v" if "k \<le> bound n qs" for k
      using Suc.prems(3) [of k] that True by (auto simp: p(1) mval_append bindE_Inr_iff)
    have "startc n qs (Suc i) c" using Suc.prems(2) True by (simp add: p(1))
    from Suc.IH [OF conjunct1 [OF l] this sound] obtain m ok src where r: "scanmin (Suc i) (butlast qs) c = Inr (m, ok, src)" "cand n qs (Suc i) (m, ok, src)"
      by (metis prod_cases3)
    show ?thesis
    proof (cases "rest_msgs p")
      case Nil
      have "scanmin i (butlast rest) c = Inr (m, ok, src)" using r(1) Nil no_rest [OF p(2,4)] p(2) by (simp add: bl)
      with cand_keep [OF r(2) True p(5), of p] Nil show ?thesis by (auto simp: p(1))
    next
      case (Cons x xs)
      note b = bump_adv [OF Cons p(2)]
      have sm: "scanmin i (butlast rest) c = (if kk x < kk m then bindE (opok x) (\<lambda>ok. Inr (x, ok, Some i)) else Inr (m, ok, src))"
        using r(1) b(3,4) p(2) by (simp add: bl nthE_def keycmp_order)
      show ?thesis
      proof (cases "kk x < kk m")
        case False
        with so(1) Cons have "\<forall>y \<in> kk ` set (rest_msgs p). kk m \<le> y" by auto
        with cand_keep [OF r(2) True p(5), of p] False sm show ?thesis by (auto simp: p(1))
      next
        case True
        have cm: "kk m \<le> bound n qs" "\<forall>y \<in> onkeys n qs. kk m \<le> y" using r(2) by (auto simp: cand_def)
        have nk: "kk x \<notin> onkeys n qs" using cm(2) True by force
        note nn = onm_onkeys [OF nk]
        have "onm (Suc n) rest (kk x) = x # msgsof (kk x) xs" using nn Cons by (simp add: p(1))
        moreover have "lk (leafe (Suc n) rest) (kk x) = None" using nn by (simp add: p(1))
        moreover have bd: "kk x \<le> bound (Suc n) rest" using cm(1) True \<open>hasnext qs\<close> by (simp add: p(1))
        ultimately obtain ok' where ok: "opok x = Inr ok'" using Suc.prems(3) [of "kk x"] mval_first [of "kk x" x] by auto
        have "cand (Suc n) rest i (x, ok', Some i)"
          using so(1) Cons b(1,2) nn bd ok cm(2) True advs_refl [of "kk x" qs] by (auto simp: cand_def p(1) intro: order_trans less_imp_le)
        with sm True ok show ?thesis by auto
      qed
    qed
  qed
qed

section \<open>Its messages\<close>

lemma apply_key: "apply_msg e m nn = Inr (ok, e') \<Longrightarrow> kk e = kk m \<Longrightarrow> kk e' = kk e"
  by (auto simp: apply_msg_def cpkvp_def statupdate_def res_simps Let_def split: if_splits)

lemma scanbuf_ok:
  assumes "holds k ok r s" "kk r = k" "\<forall>m \<in> set ms. okmsg m" "sorted (map kk ms)" "\<forall>m \<in> set ms. k \<le> kk m" "mval k (msgsof k ms) s = Inr s'"
  shows "\<exists>j ok' r'. scanbuf ms ok r = Inr (j, ok', r') \<and> holds k ok' r' s' \<and> kk r' = k \<and> j \<le> length ms \<and> (\<forall>m \<in> set (take j ms). kk m = k) \<and> msgsof k (drop j ms) = []"
  using assms
proof (induction ms arbitrary: ok r s)
  case (Cons m ms)
  show ?case
  proof (cases "kk m = k")
    case True
    from Cons.prems(6) True obtain s1 where s1: "mval k [m] s = Inr s1" "mval k (msgsof k ms) s1 = Inr s'" by (auto elim: mval_ConsE)
    from holds_step(1) [OF Cons.prems(1) _ True s1(1), of Kvmax] Cons.prems(3) obtain ok1 r1 where 1: "apply_msg r m Kvmax = Inr (ok1, r1)" "holds k ok1 r1 s1" by auto
    have "kk r1 = k" using apply_key [OF 1(1)] True Cons.prems(2) by simp
    from Cons.IH [OF 1(2) this _ _ _ s1(2)] Cons.prems(3-5) obtain j ok' r' where
      2: "scanbuf ms ok1 r1 = Inr (j, ok', r')" "holds k ok' r' s'" "kk r' = k" "j \<le> length ms" "\<forall>m \<in> set (take j ms). kk m = k" "msgsof k (drop j ms) = []" by auto
    then show ?thesis using 1(1) True Cons.prems(2) by (intro exI [of _ "Suc j"] exI [of _ ok'] exI [of _ r']) (simp add: keycmp_order)
  next
    case False
    with Cons.prems have n: "\<forall>x \<in> set (m # ms). kk x \<noteq> k" by fastforce
    then have "msgsof k (m # ms) = []" by (intro msgsof_notin) auto
    then show ?thesis using Cons.prems False by (intro exI [of _ 0] exI [of _ ok] exI [of _ r]) (simp add: keycmp_order)
  qed
qed simp

lemma scanapply_dead: "scanapply (replicate n scanp0) ok r = Inr (replicate n scanp0, ok, r)"
  by (induction n) (auto simp: scanp0_def)

lemma scanapply_ok:
  assumes "spok \<sigma> n rest" "holds k ok r s" "kk r = k" "\<forall>x \<in> onkeys n rest. k \<le> x" "mval k (onm n rest k) s = Inr s'"
  shows "\<exists>q ok' r'. scanapply (butlast rest) ok r = Inr (q, ok', r') \<and> holds k ok' r' s' \<and> kk r' = k \<and>
    list_all2 (adv k) rest (q @ [last rest]) \<and> onm n (q @ [last rest]) k = []"
  using assms(1,4,5)
proof (induction n arbitrary: rest s')
  case 0
  then obtain p b where "rest = [p]" by auto
  with 0 assms(2,3) show ?case by simp
next
  case (Suc n)
  from Suc.prems(1) obtain p b qs where p: "rest = p # qs" "sb p = Some b" "wft \<sigma> (Suc n) b" "sbi p \<le> length (ndmsgs b)" "length qs = Suc n"
    and l: "hasnext qs \<longrightarrow> spok \<sigma> n qs \<and> svi p < length (ndvals b) \<and> kid \<sigma> (ndvals b ! svi p) = sb (hd qs)"
    and nl: "\<not> hasnext qs \<longrightarrow> qs = replicate (Suc n) scanp0" by (rule spok_SucD)
  have ne: "qs \<noteq> []" using p(5) by auto
  then have bl: "butlast rest = p # butlast qs" "last rest = last qs" by (simp_all add: p(1))
  note so = sorted_rest [OF p(3,2)]
  define A where "A = (if hasnext qs then onm n qs k else [])"
  have mv: "bindE (mval k A s) (mval k (msgsof k (rest_msgs p))) = Inr s'" using Suc.prems(3) by (auto simp: p(1) A_def mval_append split: if_splits)
  then obtain s1 where s1: "mval k A s = Inr s1" "mval k (msgsof k (rest_msgs p)) s1 = Inr s'" by (auto simp: bindE_Inr_iff)
  have "\<exists>q ok1 r1. scanapply (butlast qs) ok r = Inr (q, ok1, r1) \<and> holds k ok1 r1 s1 \<and> kk r1 = k \<and> list_all2 (adv k) qs (q @ [last qs]) \<and>
      (hasnext qs \<longrightarrow> onm n (q @ [last qs]) k = [])"
  proof (cases "hasnext qs")
    case True
    from Suc.IH [of qs s1] l True Suc.prems(2) s1(1) show ?thesis by (auto simp: p(1) A_def)
  next
    case False
    then have q: "qs = replicate (Suc n) scanp0" using nl by simp
    have "replicate n scanp0 @ [last qs] = qs" using append_butlast_last_id [OF ne] butlast_dead [of n scanp0] unfolding q by simp
    moreover have "s1 = s" using s1(1) False by (simp add: A_def)
    ultimately show ?thesis using False assms(2,3) scanapply_dead [of n ok r] advs_refl [of k qs] butlast_dead [of n scanp0] q
      by (intro exI [of _ "replicate n scanp0"] exI [of _ ok] exI [of _ r]) (simp del: replicate.simps)
  qed
  then obtain q ok1 r1 where q: "scanapply (butlast qs) ok r = Inr (q, ok1, r1)" "holds k ok1 r1 s1" "kk r1 = k" "list_all2 (adv k) qs (q @ [last qs])"
    "hasnext qs \<longrightarrow> onm n (q @ [last qs]) k = []" by blast
  have "\<forall>m \<in> set (rest_msgs p). k \<le> kk m" using Suc.prems(2) by (auto simp: p(1))
  from scanbuf_ok [OF q(2,3) so(2,1) this s1(2)] obtain j ok' r' where
    j: "scanbuf (rest_msgs p) ok1 r1 = Inr (j, ok', r')" "holds k ok' r' s'" "kk r' = k" "j \<le> length (rest_msgs p)" "\<forall>m \<in> set (take j (rest_msgs p)). kk m = k" "msgsof k (drop j (rest_msgs p)) = []"
    by blast
  let ?p = "p\<lparr>sbi := sbi p + j\<rparr>"
  have rp: "rest_msgs ?p = drop j (rest_msgs p)" by (simp add: rest_msgs_def add.commute)
  have "\<exists>ms. rest_msgs p = ms @ rest_msgs ?p \<and> (\<forall>m \<in> set ms. kk m = k)"
    unfolding rp using j(5) by (intro exI [of _ "take j (rest_msgs p)"]) simp
  moreover have "sbi p + j \<le> length (ndmsgs b)" using j(4) p(2,4) by (simp add: rest_msgs_def)
  ultimately have "adv k p ?p" using p(2) by (simp add: adv_def)
  moreover have "scanapply (butlast rest) ok r = Inr (?p # q, ok', r')" using q(1) j(1) p(2) by (simp add: bl rest_msgs_def)
  moreover have "onm (Suc n) (?p # q @ [last rest]) k = []" using q(5) j(6) rp adv_hasnext [OF q(4) ne] by (simp add: bl)
  ultimately show ?case using j(2,3) q(4) by (intro exI [of _ "?p # q"] exI [of _ ok'] exI [of _ r']) (simp add: p(1) bl ne)
qed

section \<open>Loading\<close>

lemma full_leaf:
  assumes "spok \<sigma> n rest" "full n rest"
  shows "\<exists>c. sb (last rest) = Some c \<and> svi (last rest) < length (ndvals c) \<and> leafe n rest = drop (svi (last rest)) (ndvals c)"
    and "\<exists>e es. leafe n rest = e # es" "leafe n rest = e # es \<Longrightarrow> startc n rest i (\<lparr>kk = kk e, kv = kv e, mop = Oinsert\<rparr>, True, None)"
proof -
  have "(\<exists>c. sb (last rest) = Some c \<and> svi (last rest) < length (ndvals c) \<and> leafe n rest = drop (svi (last rest)) (ndvals c)) \<and>
    (\<exists>e es. leafe n rest = e # es) \<and> (\<forall>i e es. leafe n rest = e # es \<longrightarrow> startc n rest i (\<lparr>kk = kk e, kv = kv e, mop = Oinsert\<rparr>, True, None))"
    using assms
  proof (induction n arbitrary: rest)
    case 0
    then obtain p b where p: "rest = [p]" "sb p = Some b" "svi p < length (ndvals b)" by (auto simp: vals_def)
    then have "drop (svi p) (ndvals b) = ndvals b ! svi p # drop (Suc (svi p)) (ndvals b)" by (simp add: Cons_nth_drop_Suc)
    then show ?case using p by (auto simp: vals_def)
  next
    case (Suc n)
    from Suc.prems(1) obtain p qs where p: "rest = p # qs" "length qs = Suc n" and l: "hasnext qs \<longrightarrow> spok \<sigma> n qs" by (rule spok_next)
    have "hasnext qs" "full n qs" "last rest = last qs" using Suc.prems(2) p by auto
    with Suc.IH [of qs] l show ?case by (auto simp: p(1))
  qed
  then show "\<exists>c. sb (last rest) = Some c \<and> svi (last rest) < length (ndvals c) \<and> leafe n rest = drop (svi (last rest)) (ndvals c)"
    "\<exists>e es. leafe n rest = e # es" "leafe n rest = e # es \<Longrightarrow> startc n rest i (\<lparr>kk = kk e, kv = kv e, mop = Oinsert\<rparr>, True, None)" by blast+
qed

lemma stuck_msg:
  assumes "stuck n j rest" "spok \<sigma> n rest"
  shows "\<exists>m ms xs. rest_msgs (rest ! j) = m # ms \<and> onm n rest (kk m) = m # xs \<and> leafe n rest = [] \<and> bound n rest = kk m \<and>
    (\<forall>i ok. opok m = Inr ok \<longrightarrow> startc n rest i (m, ok, Some (i + j)))"
  using assms
proof (induction n arbitrary: rest j)
  case (Suc n)
  from Suc.prems(2) obtain p qs where p: "rest = p # qs" and "length qs = Suc n" and l: "hasnext qs \<longrightarrow> spok \<sigma> n qs" by (rule spok_next)
  show ?case
  proof (cases "hasnext qs")
    case True
    with Suc.prems(1) obtain j' where j: "j = Suc j'" "stuck n j' qs" by (cases j) (auto simp: p)
    from Suc.IH [OF j(2)] l True obtain m ms xs where h: "rest_msgs (qs ! j') = m # ms" "onm n qs (kk m) = m # xs" "leafe n qs = []" "bound n qs = kk m"
      "\<forall>i ok. opok m = Inr ok \<longrightarrow> startc n qs i (m, ok, Some (i + j'))" by blast
    have "startc (Suc n) rest i (m, ok, Some (i + j))" if "opok m = Inr ok" for i ok
      using h(5) [rule_format, OF that, of "Suc i"] True by (simp add: p j(1))
    with h True show ?thesis by (auto simp: p j(1))
  next
    case False
    with Suc.prems(1) have "j = 0" "length (vals p) \<le> svi p" "rest_msgs p \<noteq> []" by (auto simp: p)
    with False show ?thesis by (cases "rest_msgs p") (auto simp: p)
  qed
qed simp

lemma kept_slive: "kept n s rest \<Longrightarrow> spok \<sigma> n rest \<Longrightarrow> slive (rest ! (s - 1))"
proof (induction n s rest rule: kept.induct)
  case (2 n rest)
  then show ?case using spok_length [OF 2(2)] by (cases rest) auto
next
  case (4 n s rest)
  from 4(3) obtain p qs where p: "rest = p # qs" and "length qs = Suc n" and l: "hasnext qs \<longrightarrow> spok \<sigma> n qs" by (rule spok_next)
  with 4 show ?case by auto
qed auto

lemma kept_stuck:
  assumes "kept n s rest" "spok \<sigma> n rest" "length (vals (rest ! (s - 1))) \<le> svi (rest ! (s - 1))"
  shows "stuck n (s - 1) rest"
  using assms
proof (induction n s rest rule: kept.induct)
  case (2 n rest)
  show ?case
  proof (cases n)
    case 0
    with 2 show ?thesis by (auto simp: slive_def vals_def)
  next
    case (Suc m)
    with 2(2) obtain p b qs where p: "rest = p # qs" "sb p = Some b" by (auto elim: spok_SucD)
    have "qs = replicate (Suc m) scanp0" "slive p" using 2(1) p(1) Suc by auto
    then show ?thesis using Suc 2(3) p spok_hasnext(2) [of m] by (auto simp: slive_def vals_def rest_msgs_def simp del: replicate.simps)
  qed
next
  case (4 n s rest)
  from 4(3) obtain p qs where p: "rest = p # qs" and "length qs = Suc n" and l: "hasnext qs \<longrightarrow> spok \<sigma> n qs" by (rule spok_next)
  with 4 show ?case by auto
qed auto

lemma kept_load:
  assumes "kept n s rest" "spok (bstore st) n rest" "svi (rest ! (s - 1)) < length (vals (rest ! (s - 1)))"
  shows "\<exists>low. loaddown st (the (sb (rest ! (s - 1)))) (svi (rest ! (s - 1))) (drop s rest) = Inr low \<and> spok (bstore st) n (take s rest @ low) \<and> full n (take s rest @ low) \<and>
    sb (hd (take s rest @ low)) = sb (hd rest) \<and> rents (bstore st) n (take s rest @ low) = rents (bstore st) n rest \<and> rmsgs (bstore st) n (take s rest @ low) = rmsgs (bstore st) n rest"
  using assms
proof (induction n s rest rule: kept.induct)
  case (2 n rest)
  show ?case
  proof (cases n)
    case 0
    with 2 show ?thesis by auto
  next
    case (Suc m)
    with 2(2) obtain p b qs where p: "rest = p # qs" "sb p = Some b" "wft (bstore st) (Suc m) b" "sbi p \<le> length (ndmsgs b)" by (auto elim: spok_SucD)
    have q: "qs = replicate (Suc m) scanp0" using 2(1) p(1) Suc by simp
    have v: "vals p = ndvals b" and sv: "svi p < length (ndvals b)" using 2(3) p by (auto simp: vals_def)
    from loaddown_ok [OF p(3) sv] obtain low c where low: "loaddown st b (svi p) (replicate (Suc m) scanp0) = Inr low" "spok (bstore st) m low" "full m low"
      "kid (bstore st) (ndvals b ! svi p) = Some c" "sb (hd low) = Some c" "rents (bstore st) m low = ents (bstore st) m c" "rmsgs (bstore st) m low = allm (bstore st) m c" by blast
    have hn: "hasnext low" "\<not> hasnext qs" using spok_hasnext(1) [OF low(2)] spok_hasnext(2) [of m] q by auto
    have d: "drop (svi p) (ndvals b) = ndvals b ! svi p # drop (Suc (svi p)) (ndvals b)" using sv by (simp add: Cons_nth_drop_Suc)
    have "rents (bstore st) (Suc m) (p # low) = rents (bstore st) (Suc m) rest" "rmsgs (bstore st) (Suc m) (p # low) = rmsgs (bstore st) (Suc m) rest"
      using hn low(4,6,7) d v by (auto simp: p(1) offv_def)
    moreover have "spok (bstore st) (Suc m) (p # low)" using p(2-4) low(2,4,5) sv by auto
    moreover have "full (Suc m) (p # low)" using low(3) hn by simp
    ultimately show ?thesis using low(1) p(2) unfolding Suc p(1) q by auto
  qed
next
  case (4 n s rest)
  from 4(3) obtain p b qs where p: "rest = p # qs" "sb p = Some b" "wft (bstore st) (Suc n) b" "sbi p \<le> length (ndmsgs b)"
    and l: "hasnext qs \<longrightarrow> spok (bstore st) n qs \<and> svi p < length (ndvals b) \<and> kid (bstore st) (ndvals b ! svi p) = sb (hd qs)" by (rule spok_SucD)
  have hn: "hasnext qs" "kept n (Suc s) qs" using 4(2) p(1) by auto
  note l = l [rule_format, OF hn(1)]
  from 4(1) [of] hn l 4(4) obtain low where low: "loaddown st (the (sb (qs ! s))) (svi (qs ! s)) (drop (Suc s) qs) = Inr low" "spok (bstore st) n (take (Suc s) qs @ low)"
    "full n (take (Suc s) qs @ low)" "sb (hd (take (Suc s) qs @ low)) = sb (hd qs)" "rents (bstore st) n (take (Suc s) qs @ low) = rents (bstore st) n qs"
    "rmsgs (bstore st) n (take (Suc s) qs @ low) = rmsgs (bstore st) n qs" by (auto simp: p(1))
  have h2: "hasnext (take (Suc s) qs @ low)" by (rule spok_hasnext(1) [OF low(2)])
  have "offv p (take (Suc s) qs @ low) = offv p qs" using h2 hn(1) by (simp add: offv_def)
  then have "rents (bstore st) (Suc n) (p # take (Suc s) qs @ low) = rents (bstore st) (Suc n) rest" "rmsgs (bstore st) (Suc n) (p # take (Suc s) qs @ low) = rmsgs (bstore st) (Suc n) rest"
    using low(5,6) h2 hn(1) by (simp_all add: p(1))
  moreover have "spok (bstore st) (Suc n) (p # take (Suc s) qs @ low)" using p(2-4) low(2,4) l by auto
  ultimately show ?case using low(1,3) h2 by (auto simp: p(1))
qed auto

lemma scanload_ok:
  assumes "kept n s rest" "spok (bstore st) n rest" "\<And>k. \<exists>v. mval k (msgsof k (rmsgs (bstore st) n rest)) (lk (rents (bstore st) n rest) k) = Inr v"
  shows "\<exists>rest' c. scanload st rest s = Inr (rest', c) \<and> spok (bstore st) n rest' \<and> startc n rest' 0 c \<and> (full n rest' \<or> (\<exists>j. stuck n j rest')) \<and>
    rents (bstore st) n rest' = rents (bstore st) n rest \<and> rmsgs (bstore st) n rest' = rmsgs (bstore st) n rest"
proof -
  have "slive (rest ! (s - 1))" by (rule kept_slive [OF assms(1,2)])
  then obtain b where b: "sb (rest ! (s - 1)) = Some b" by (auto simp: slive_def split: option.splits)
  then have v: "vals (rest ! (s - 1)) = ndvals b" by (simp add: vals_def)
  show ?thesis
  proof (cases "svi (rest ! (s - 1)) < length (ndvals b)")
    case True
    from kept_load [OF assms(1,2)] True v b obtain low where low: "loaddown st b (svi (rest ! (s - 1))) (drop s rest) = Inr low" "spok (bstore st) n (take s rest @ low)"
      "full n (take s rest @ low)" "rents (bstore st) n (take s rest @ low) = rents (bstore st) n rest" "rmsgs (bstore st) n (take s rest @ low) = rmsgs (bstore st) n rest" by auto
    note f = full_leaf [OF low(2,3)]
    from f(1) obtain c where c: "sb (last (take s rest @ low)) = Some c" "svi (last (take s rest @ low)) < length (ndvals c)"
      "leafe n (take s rest @ low) = drop (svi (last (take s rest @ low))) (ndvals c)" by blast
    from f(2) obtain e es where e: "leafe n (take s rest @ low) = e # es" by blast
    then have "ndvals c ! svi (last (take s rest @ low)) = e" using c(2,3) by (simp add: nth_via_drop)
    then have "scanload st rest s = Inr (take s rest @ low, \<lparr>kk = kk e, kv = kv e, mop = Oinsert\<rparr>, True, None)"
      using low(1) True b c(1,2) unfolding scanload_def Let_def by (simp add: nthE_def)
    then show ?thesis using low f(3) [OF e] by blast
  next
    case False
    then have st: "stuck n (s - 1) rest" using kept_stuck [OF assms(1,2)] v by simp
    from stuck_msg [OF this assms(2)] obtain m ms xs where m: "rest_msgs (rest ! (s - 1)) = m # ms" "onm n rest (kk m) = m # xs" "leafe n rest = []" "bound n rest = kk m"
      "\<forall>i ok. opok m = Inr ok \<longrightarrow> startc n rest i (m, ok, Some (i + (s - 1)))" by blast
    note bm = bump_adv [OF m(1) b]
    have "kk m \<notin> offk (bstore st) n rest" using bound_off [OF assms(2), of "s - 1"] st m(4) by auto
    from on_path [OF this] assms(3) [of "kk m"] m(2,3) obtain v where "mval (kk m) (m # xs) None = Inr v" by auto
    from mval_first [OF this refl] obtain ok where ok: "opok m = Inr ok" by blast
    have "scanload st rest s = Inr (rest, m, ok, Some (s - 1))" using False b bm(3,4) ok unfolding scanload_def Let_def by (simp add: nthE_def)
    with m(5) [rule_format, OF ok, of 0] st assms(2) show ?thesis by auto
  qed
qed

section \<open>One key\<close>

text \<open>What is left means, under a key.\<close>

definition left :: "Bs \<Rightarrow> nat \<Rightarrow> Scanp list \<Rightarrow> bytes \<Rightarrow> bytes option res" where
  "left st n rest k = mean (rents (bstore st) n rest) (rmsgs (bstore st) n rest) k"

definition leftkeys :: "Bs \<Rightarrow> nat \<Rightarrow> Scanp list \<Rightarrow> bytes set" where
  "leftkeys st n rest = kk ` set (rents (bstore st) n rest) \<union> kk ` set (rmsgs (bstore st) n rest)"

lemma left_none: "k \<notin> leftkeys st n rest \<Longrightarrow> left st n rest k = Inr None"
  by (simp add: left_def leftkeys_def mean_def msgsof_notin lk_notin)

text \<open>The leaf moves on.\<close>

definition nextleaf :: "Scanp list \<Rightarrow> Scanp list" where
  "nextleaf rest = butlast rest @ [(last rest)\<lparr>svi := Suc (svi (last rest))\<rparr>]"

lemma nextleaf_simps: "nextleaf [p] = [p\<lparr>svi := Suc (svi p)\<rparr>]" "qs \<noteq> [] \<Longrightarrow> nextleaf (p # qs) = p # nextleaf qs"
    "qs \<noteq> [] \<Longrightarrow> sb (hd (nextleaf qs)) = sb (hd qs)" "hd (nextleaf qs) = (if tl qs = [] then (last qs)\<lparr>svi := Suc (svi (last qs))\<rparr> else hd qs)"
  by (cases qs; cases "tl qs"; simp add: nextleaf_def)+

lemma nextleaf_ok:
  assumes "spok \<sigma> n rest" "full n rest" "leafe n rest = e # es"
  shows "spok \<sigma> n (nextleaf rest)" "leafe n (nextleaf rest) = es" "onm n (nextleaf rest) k = onm n rest k" "rmsgs \<sigma> n (nextleaf rest) = rmsgs \<sigma> n rest"
    "rents \<sigma> n rest = e # rents \<sigma> n (nextleaf rest)" "offk \<sigma> n (nextleaf rest) = offk \<sigma> n rest" "atrest n (nextleaf rest)" "onkeys n (nextleaf rest) \<subseteq> onkeys n rest"
proof -
  have "spok \<sigma> n (nextleaf rest) \<and> leafe n (nextleaf rest) = es \<and> (\<forall>k. onm n (nextleaf rest) k = onm n rest k) \<and> rmsgs \<sigma> n (nextleaf rest) = rmsgs \<sigma> n rest \<and>
    rents \<sigma> n rest = e # rents \<sigma> n (nextleaf rest) \<and> offk \<sigma> n (nextleaf rest) = offk \<sigma> n rest \<and> atrest n (nextleaf rest) \<and> onkeys n (nextleaf rest) \<subseteq> onkeys n rest"
    using assms
  proof (induction n arbitrary: rest)
    case 0
    then obtain p b where p: "rest = [p]" "sb p = Some b" "wft \<sigma> 0 b" by auto
    with 0 have d: "drop (svi p) (ndvals b) = e # es" by (simp add: vals_def)
    then have "drop (Suc (svi p)) (ndvals b) = es" by (metis drop_Suc list.sel(3) tl_drop)
    then show ?case using p d by (auto simp: vals_def nextleaf_simps)
  next
    case (Suc n)
    from Suc.prems(1) obtain p b qs where p: "rest = p # qs" "sb p = Some b" "wft \<sigma> (Suc n) b" "sbi p \<le> length (ndmsgs b)" "length qs = Suc n"
      and l: "hasnext qs \<longrightarrow> spok \<sigma> n qs \<and> svi p < length (ndvals b) \<and> kid \<sigma> (ndvals b ! svi p) = sb (hd qs)"
      and nl: "\<not> hasnext qs \<longrightarrow> qs = replicate (Suc n) scanp0" by (rule spok_SucD)
    have hn: "hasnext qs" "full n qs" "leafe n qs = e # es" using Suc.prems(2,3) by (auto simp: p(1))
    note l = l [rule_format, OF hn(1)]
    note h = Suc.IH [OF conjunct1 [OF l] hn(2,3)]
    have ne: "qs \<noteq> []" using p(5) by auto
    have nx: "nextleaf (p # qs) = p # nextleaf qs" "sb (hd (nextleaf qs)) = sb (hd qs)" using nextleaf_simps(2,3) [OF ne] by (simp_all add: p(1))
    have h2: "hasnext (nextleaf qs)" using hn(1) nx(2) by (simp add: hasnext_def)
    have o: "offv p (nextleaf qs) = offv p qs" using h2 hn(1) by (simp add: offv_def)
    have "spok \<sigma> (Suc n) (p # nextleaf qs)" using p(2-4) l h nx(2) by simp
    then show ?case using h h2 hn(1) o unfolding p(1) nx(1) by (auto simp del: spok.simps)
  qed
  then show "spok \<sigma> n (nextleaf rest)" "leafe n (nextleaf rest) = es" "onm n (nextleaf rest) k = onm n rest k" "rmsgs \<sigma> n (nextleaf rest) = rmsgs \<sigma> n rest"
    "rents \<sigma> n rest = e # rents \<sigma> n (nextleaf rest)" "offk \<sigma> n (nextleaf rest) = offk \<sigma> n rest" "atrest n (nextleaf rest)" "onkeys n (nextleaf rest) \<subseteq> onkeys n rest" by blast+
qed

lemma path_ok:
  assumes "spok \<sigma> n rest"
  shows "\<forall>e \<in> set (leafe n rest). okkv e" "sorted_wrt (<) (map kk (leafe n rest))" "\<forall>m \<in> set (onm n rest k). okmsg m"
proof -
  have "(\<forall>e \<in> set (leafe n rest). okkv e) \<and> sorted_wrt (<) (map kk (leafe n rest)) \<and> (\<forall>m \<in> set (onm n rest k). okmsg m)"
    using assms
  proof (induction n arbitrary: rest)
    case 0
    then obtain p b where "rest = [p]" "sb p = Some b" "wft \<sigma> 0 b" by auto
    then show ?case by (auto simp: vals_def drop_map [symmetric] sorted_wrt_drop dest: in_set_dropD)
  next
    case (Suc n)
    from Suc.prems obtain p b qs where p: "rest = p # qs" "sb p = Some b" "wft \<sigma> (Suc n) b" "sbi p \<le> length (ndmsgs b)" "length qs = Suc n"
      and l: "hasnext qs \<longrightarrow> spok \<sigma> n qs \<and> svi p < length (ndvals b) \<and> kid \<sigma> (ndvals b ! svi p) = sb (hd qs)"
      and nl: "\<not> hasnext qs \<longrightarrow> qs = replicate (Suc n) scanp0" by (rule spok_SucD)
    have "\<forall>m \<in> set (msgsof k (rest_msgs p)). okmsg m" using sorted_rest(2) [OF p(3,2)] by (simp add: msgsof_def)
    then show ?case using Suc.IH [of qs] l by (auto simp: p(1))
  qed
  then show "\<forall>e \<in> set (leafe n rest). okkv e" "sorted_wrt (<) (map kk (leafe n rest))" "\<forall>m \<in> set (onm n rest k). okmsg m" by blast+
qed

lemma lk_in: "k \<in> kk ` set es \<Longrightarrow> lk es k \<noteq> None"
  by (induction es) auto

lemma msgsof_in: "k \<in> kk ` set ms \<Longrightarrow> msgsof k ms \<noteq> []"
  by (auto simp: msgsof_def filter_empty_conv)

text \<open>A key whose entry and messages on the path are gone is not left.\<close>

lemma left_gone:
  assumes "k \<notin> offk (bstore st) n rest" "lk (leafe n rest) k = None" "onm n rest k = []"
  shows "k \<notin> leftkeys st n rest"
  using on_path [OF assms(1)] assms(2,3) lk_in [of k "rents (bstore st) n rest"] msgsof_in [of k "rmsgs (bstore st) n rest"] by (auto simp: leftkeys_def)

lemma first_holds:
  assumes "opok m = Inr ok" "okmsg m" "mval (kk m) (m # ms) None = Inr v"
  shows "\<exists>s. holds (kk m) ok \<lparr>kk = kk m, kv = kv m\<rparr> s \<and> mval (kk m) ms s = Inr v"
proof -
  obtain s where s: "mval (kk m) [m] None = Inr s" "mval (kk m) ms s = Inr v" by (rule mval_ConsE [OF assms(3)])
  then show ?thesis using assms(1,2) by (auto simp: mval_one mstep_def opok_def holds_def okst_def okmsg_def okkv_def split: if_splits)
qed

lemma nextleaf_update: "p \<noteq> [] \<Longrightarrow> p[length p - 1 := (p ! (length p - 1))\<lparr>svi := svi (p ! (length p - 1)) + 1\<rparr>] = nextleaf p"
  by (cases p rule: rev_cases) (auto simp: nextleaf_def)

definition taken :: "Bs \<Rightarrow> nat \<Rightarrow> Scanp list \<Rightarrow> Msg \<Rightarrow> bool \<Rightarrow> bytes option \<Rightarrow> Scanp list \<Rightarrow> bool" where
  "taken st n rest m ok v rest' \<longleftrightarrow>
     (\<exists>s. length (kk m) + length (kv m) \<le> Kvmax \<and> holds (kk m) ok \<lparr>kk = kk m, kv = kv m\<rparr> s \<and> mval (kk m) (onm n rest' (kk m)) s = Inr v) \<and>
     spok (bstore st) n rest' \<and> atrest n rest' \<and> lk (leafe n rest') (kk m) = None \<and> offk (bstore st) n rest' = offk (bstore st) n rest \<and> onkeys n rest' \<subseteq> onkeys n rest \<and>
     (\<forall>x. x \<noteq> kk m \<longrightarrow> left st n rest' x = left st n rest x) \<and> leftkeys st n rest' \<subseteq> leftkeys st n rest"

text \<open>The candidate is taken: where the path is then, and what the code holds of its key.\<close>

lemma take_cand:
  assumes "spok (bstore st) n rest" "cand n rest 0 (m, ok, src)" "left st n rest (kk m) = Inr v" "kk m \<notin> offk (bstore st) n rest" "atrest n rest"
    and "rest' = (case src of None \<Rightarrow> nextleaf rest | Some i \<Rightarrow> rest[i := bump (rest ! i)])"
  shows "taken st n rest m ok v rest'"
proof -
  have lv: "mval (kk m) (onm n rest (kk m)) (lk (leafe n rest) (kk m)) = Inr v" using assms(3) on_path [OF assms(4)] by (simp add: left_def mean_def)
  note ok = path_ok [OF assms(1)]
  show ?thesis
  proof (cases src)
    case None
    with assms(2) obtain e es where e: "ok" "full n rest" "leafe n rest = e # es" "kk e = kk m" "kv e = kv m" by (auto simp: cand_def)
    note nl = nextleaf_ok [OF assms(1) e(2,3)]
    have r: "rest' = nextleaf rest" using assms(6) None by simp
    have oe: "okkv \<lparr>kk = kk m, kv = kv m\<rparr>" "okkv e" using ok(1) e(3-5) by (auto simp: okkv_def)
    have "kk m \<notin> kk ` set es" using ok(2) e(3,4) by auto
    then have "lk (leafe n rest') (kk m) = None" using nl(2) by (simp add: r lk_notin)
    moreover have "holds (kk m) ok \<lparr>kk = kk m, kv = kv m\<rparr> (Some (kv m))" using oe e(1) by (simp add: holds_def okst_def)
    moreover have "mval (kk m) (onm n rest' (kk m)) (Some (kv m)) = Inr v" using lv e(3-5) nl(3) [of "kk m"] by (simp add: r)
    moreover have "length (kk m) + length (kv m) \<le> Kvmax" using oe(1) by (simp add: okkv_def)
    moreover have "left st n rest' x = left st n rest x" if "x \<noteq> kk m" for x
      using nl(4,5) that e(4) by (simp add: left_def mean_def r)
    moreover have "leftkeys st n rest' \<subseteq> leftkeys st n rest" using nl(4,5) by (auto simp: leftkeys_def r)
    ultimately show ?thesis unfolding taken_def
      using nl r by blast
  next
    case (Some i)
    with assms(2) have c: "opok m = Inr ok" "lk (leafe n rest) (kk m) = None" "list_all2 (adv (kk m)) rest rest'" "onm n rest (kk m) = m # onm n rest' (kk m)"
      by (auto simp: cand_def assms(6))
    note f = advs_frame [OF c(3) assms(1)]
    have om: "okmsg m" using ok(3) [of "kk m"] c(4) by simp
    from first_holds [OF c(1) om] lv c(2,4) obtain s where "holds (kk m) ok \<lparr>kk = kk m, kv = kv m\<rparr> s" "mval (kk m) (onm n rest' (kk m)) s = Inr v" by auto
    moreover have "length (kk m) + length (kv m) \<le> Kvmax" using om by (simp add: okmsg_def)
    moreover have "left st n rest' x = left st n rest x" if "x \<noteq> kk m" for x using f(2) f(8) [OF that] by (simp add: left_def mean_def)
    moreover have "leftkeys st n rest' \<subseteq> leftkeys st n rest" using f(2,6) by (auto simp: leftkeys_def)
    ultimately show ?thesis unfolding taken_def
      using f(1,3-5,10) c(2) assms(5) by auto
  qed
qed

text \<open>One turn of \<open>btnext\<close> deals with the least key that is left.\<close>

definition turned :: "Bs \<Rightarrow> nat \<Rightarrow> Scan \<Rightarrow> Scanp list \<Rightarrow> bytes \<Rightarrow> bool" where
  "turned st n s rest k \<longleftrightarrow> (\<exists>rest' ok r v. scanstep st s = Inr (s\<lparr>spath := Some rest', skv := r\<rparr>, Some (ok, r)) \<and> left st n rest k = Inr v \<and> holds k ok r v \<and> kk r = k \<and>
     spok (bstore st) n rest' \<and> atrest n rest' \<and> (\<forall>x. x \<noteq> k \<longrightarrow> left st n rest' x = left st n rest x) \<and> leftkeys st n rest' \<subseteq> leftkeys st n rest - {k})"

lemma scanstep_ok:
  assumes s: "spath s = Some rest" "\<not> donescan s" and sp: "spok (bstore st) n rest" "atrest n rest" and sound: "\<And>k. \<exists>v. left st n rest k = Inr v"
  shows "if leftkeys st n rest = {} then \<exists>s'. scanstep st s = Inr (s', None)
    else \<exists>k \<in> leftkeys st n rest. (\<forall>x \<in> leftkeys st n rest. k \<le> x) \<and> (if hasprefix (spfx s) k then turned st n s rest k else \<exists>s'. scanstep st s = Inr (s', None))"
proof -
  obtain r1 a where u: "scanup rest = (r1, a)" by (cases "scanup rest")
  note up = scanup_ok [OF sp u]
  show ?thesis
  proof (cases "a = 0")
    case True
    with up have "leftkeys st n rest = {}" by (simp add: leftkeys_def)
    with True u s show ?thesis by (simp add: scanstep_def)
  next
    case False
    with up have 1: "spok (bstore st) n r1" "kept n a r1" "rents (bstore st) n r1 = rents (bstore st) n rest" "rmsgs (bstore st) n r1 = rmsgs (bstore st) n rest" by auto
    have "\<exists>v. mval k (msgsof k (rmsgs (bstore st) n r1)) (lk (rents (bstore st) n r1) k) = Inr v" for k
      using sound [of k] by (simp add: 1(3,4) left_def mean_def)
    from scanload_ok [OF 1(2,1) this, unfolded 1(3,4)] obtain r2 c j where 2: "scanload st r1 a = Inr (r2, c)" "spok (bstore st) n r2" "startc n r2 0 c" "full n r2 \<or> stuck n j r2"
      "rents (bstore st) n r2 = rents (bstore st) n rest" "rmsgs (bstore st) n r2 = rmsgs (bstore st) n rest" by blast
    have eq: "left st n r2 k = left st n rest k" "leftkeys st n r2 = leftkeys st n rest" for k using 2(5,6) by (simp_all add: left_def leftkeys_def)
    note bo = bound_off [OF 2(2,4)]
    have no: "k \<notin> offk (bstore st) n r2" if "k \<le> bound n r2" for k using bo that by force
    have "\<exists>v. mval k (onm n r2 k) (lk (leafe n r2) k) = Inr v" if "k \<le> bound n r2" for k
      using sound [of k] on_path [OF no [OF that]] 2(5,6) by (simp add: left_def mean_def)
    from scanmin_ok [OF 2(2,3) this] obtain m ok src where 3: "scanmin 0 (butlast r2) c = Inr (m, ok, src)" "cand n r2 0 (m, ok, src)" by (metis prod_cases3)
    let ?k = "kk m"
    have k: "?k \<le> bound n r2" "\<forall>x \<in> onkeys n r2. ?k \<le> x" "?k \<in> onkeys n r2" using 3(2) by (auto simp: cand_def)
    have kin: "?k \<in> leftkeys st n rest" using k(3) onkeys_all [of n r2 "bstore st"] eq(2) by (auto simp: leftkeys_def)
    have least: "\<forall>x \<in> leftkeys st n rest. ?k \<le> x"
    proof
      fix x assume "x \<in> leftkeys st n rest"
      then have "x \<in> leftkeys st n r2" by (simp add: eq(2))
      then have "x \<in> onkeys n r2 \<union> offk (bstore st) n r2" unfolding leftkeys_def by (rule subsetD [OF all_keys])
      then have "x \<in> onkeys n r2 \<or> x \<in> offk (bstore st) n r2" by simp
      then show "?k \<le> x"
      proof
        assume "x \<in> offk (bstore st) n r2"
        then have "bound n r2 < x" using bo by blast
        with k(1) show ?thesis by order
      qed (use k(2) in blast)
    qed
    have stp: "scanstep st s = (if \<not> hasprefix (spfx s) ?k then Inr (s\<lparr>donescan := True, spath := Some r2\<rparr>, None)
        else bindE (cpkvp m Kvmax) (\<lambda>r. let r3 = (case src of None \<Rightarrow> nextleaf r2 | Some i \<Rightarrow> r2[i := bump (r2 ! i)])
           in bindE (scanapply (butlast r3) ok r) (\<lambda>(q, ok, r). Inr (s\<lparr>spath := Some (q @ [last r3]), skv := r\<rparr>, Some (ok, r)))))"
    proof -
      have "r2 \<noteq> []" using spok_length [OF 2(2)] by auto
      note nl = nextleaf_update [OF this]
      show ?thesis using s u False 2(1) 3(1) by (cases src) (simp_all add: scanstep_def Let_def nl [simplified] bump_def)
    qed
    show ?thesis
    proof (cases "hasprefix (spfx s) ?k")
      case False
      with stp kin least show ?thesis by auto
    next
      case True
      from sound [of ?k] obtain v where v: "left st n r2 ?k = Inr v" using eq by auto
      define r3 where "r3 = (case src of None \<Rightarrow> nextleaf r2 | Some i \<Rightarrow> r2[i := bump (r2 ! i)])"
      have "atrest n r2" using 2(4) full_atrest by blast
      from take_cand [OF 2(2) 3(2) v no [OF k(1)] this r3_def] obtain s0 where
        4: "length ?k + length (kv m) \<le> Kvmax" "holds ?k ok \<lparr>kk = ?k, kv = kv m\<rparr> s0" "mval ?k (onm n r3 ?k) s0 = Inr v" "spok (bstore st) n r3" "atrest n r3"
        "lk (leafe n r3) ?k = None" "offk (bstore st) n r3 = offk (bstore st) n r2" "onkeys n r3 \<subseteq> onkeys n r2" "\<forall>x. x \<noteq> ?k \<longrightarrow> left st n r3 x = left st n r2 x" "leftkeys st n r3 \<subseteq> leftkeys st n r2"
        unfolding taken_def by blast
      have "\<forall>x \<in> onkeys n r3. ?k \<le> x" using k(2) 4(8) by blast
      from scanapply_ok [OF 4(4,2) _ this 4(3)] obtain q ok' r' where
        5: "scanapply (butlast r3) ok \<lparr>kk = ?k, kv = kv m\<rparr> = Inr (q, ok', r')" "holds ?k ok' r' v" "kk r' = ?k" "list_all2 (adv ?k) r3 (q @ [last r3])" "onm n (q @ [last r3]) ?k = []" by auto
      note f = advs_frame [OF 5(4) 4(4)]
      have gone: "?k \<notin> leftkeys st n (q @ [last r3])" by (rule left_gone) (use no [OF k(1)] 4(6,7) f(3,4) 5(5) in auto)
      have "leftkeys st n (q @ [last r3]) \<subseteq> leftkeys st n r3" unfolding leftkeys_def f(2) using f(6) by (intro Un_mono order_refl image_mono)
      then have sub: "leftkeys st n (q @ [last r3]) \<subseteq> leftkeys st n rest - {?k}" using 4(10) eq(2) gone by blast
      have same: "left st n (q @ [last r3]) x = left st n rest x" if "x \<noteq> ?k" for x
        using f(2) f(8) [OF that] 4(9) that eq(1) [of x] by (simp add: left_def mean_def)
      have step: "scanstep st s = Inr (s\<lparr>spath := Some (q @ [last r3]), skv := r'\<rparr>, Some (ok', r'))"
        using stp True 4(1) 5(1) by (simp add: cpkvp_def Let_def flip: r3_def)
      have "turned st n s rest ?k"
        unfolding turned_def using step v eq(1) 5(2,3) f(1,5) 4(5) same sub
        by (intro exI [of _ "q @ [last r3]"] exI [of _ ok'] exI [of _ r'] exI [of _ v] conjI) simp_all
      with True kin least show ?thesis by auto
    qed
  qed
qed

section \<open>Entering the tree\<close>

definition keep :: "bool \<Rightarrow> bytes \<Rightarrow> bytes \<Rightarrow> bool" where
  "keep first c k \<longleftrightarrow> (if first then c \<le> k else c < k)"

lemma keep_mono: "keep first c x \<Longrightarrow> x \<le> y \<Longrightarrow> keep first c y"
  by (auto simp: keep_def split: if_splits)

lemma drop_keep:
  assumes "sorted (map f xs)" "\<And>j. j < length xs \<Longrightarrow> j < i \<longleftrightarrow> \<not> P (f (xs ! j))"
  shows "drop i xs = filter (\<lambda>x. P (f x)) xs"
  using assms(2)
proof (induction xs arbitrary: i)
  case (Cons x xs)
  show ?case
  proof (cases i)
    case 0
    with Cons.prems have "\<forall>y \<in> set (x # xs). P (f y)" by (metis in_set_conv_nth not_less0)
    with 0 show ?thesis by (simp add: filter_True del: filter.simps)
  next
    case (Suc i')
    have "\<not> P (f x)" using Cons.prems [of 0] Suc by simp
    moreover have "j < i' \<longleftrightarrow> \<not> P (f (xs ! j))" if "j < length xs" for j using Cons.prems [of "Suc j"] that Suc by simp
    ultimately show ?thesis using Cons.IH [of i'] Suc by simp
  qed
qed simp

lemma drop_rank:
  assumes "sorted (map f xs)"
  shows "drop (rankof (map f xs) c) xs = filter (\<lambda>x. c \<le> f x) xs"
proof (rule drop_keep [OF assms, where P = "\<lambda>k. c \<le> k"])
  fix j assume "j < length xs"
  then show "j < rankof (map f xs) c \<longleftrightarrow> \<not> c \<le> f (xs ! j)" using rankof_nth [OF assms, of j c] by (auto simp: not_le)
qed

lemma dropWhile_eq: "sorted (map f xs) \<Longrightarrow> \<forall>x \<in> set xs. c \<le> f x \<Longrightarrow> dropWhile (\<lambda>x. f x = c) xs = filter (\<lambda>x. c < f x) xs"
proof (induction xs)
  case (Cons x xs)
  show ?case
  proof (cases "f x = c")
    case False
    with Cons.prems have "\<forall>y \<in> set (x # xs). c < f y" by fastforce
    then show ?thesis using False by (simp add: filter_True)
  qed (use Cons in auto)
qed simp

lemma keep_notin: "c \<notin> f ` set xs \<Longrightarrow> filter (\<lambda>x. keep first c (f x)) xs = filter (\<lambda>x. c \<le> f x) xs"
  by (rule filter_cong) (auto simp: keep_def)

lemma bufstart_ok:
  assumes "sorted (map kk (ndmsgs b))"
  shows "\<exists>bi. bufstart b c first = Inr bi \<and> bi \<le> length (ndmsgs b) \<and> drop bi (ndmsgs b) = filter (\<lambda>m. keep first c (kk m)) (ndmsgs b)"
proof -
  let ?ms = "ndmsgs b" and ?r = "rankof (map kk (ndmsgs b)) c"
  note dr = drop_rank [OF assms, of c]
  have rl: "?r \<le> length ?ms" using rankof_le [of "map kk ?ms" c] by simp
  show ?thesis
  proof (cases "c \<in> kk ` set ?ms")
    case True
    then have f: "found (map kk ?ms) c = (int ?r, True)" by (simp add: found_def)
    from sorted_run [OF assms True refl] have run: "?r < length ?ms" "kk (?ms ! ?r) = c" by auto
    show ?thesis
    proof (cases first)
      case first: True
      have "bufstart b c first = Inr ?r" using n_bufsearch_found [OF assms, of c] f first by (simp add: bufstart_def)
      with dr rl first show ?thesis by (auto simp: keep_def)
    next
      case False
      let ?l = "length (takeWhile (\<lambda>m. kk m = c) (drop ?r ?ms))"
      have s: "sorted (map kk (drop ?r ?ms))" using sorted_wrt_drop [OF assms, of ?r] by (simp add: drop_map)
      have "drop (?r + ?l) ?ms = drop ?l (drop ?r ?ms)" by (simp add: add.commute)
      also have "\<dots> = dropWhile (\<lambda>m. kk m = c) (drop ?r ?ms)" by (simp add: dropWhile_eq_drop)
      also have "\<dots> = filter (\<lambda>m. c < kk m) (drop ?r ?ms)" by (rule dropWhile_eq [OF s]) (simp add: dr)
      also have "\<dots> = filter (\<lambda>m. c < kk m) ?ms" unfolding dr filter_filter by (rule filter_cong) auto
      finally have d: "drop (?r + ?l) ?ms = filter (\<lambda>m. c < kk m) ?ms" .
      have "?l \<le> length ?ms - ?r" using length_takeWhile_le [of "\<lambda>m. kk m = c" "drop ?r ?ms"] by simp
      then have "?r + ?l \<le> length ?ms" using rl by simp
      moreover have "bufstart b c first = Inr (?r + ?l)"
        using n_bufsearch_found [OF assms, of c] f False run by (simp add: bufstart_def nthE_def keycmp_order eq_commute [of c])
      ultimately show ?thesis using d False by (auto simp: keep_def)
    qed
  next
    case False
    then have f: "found (map kk ?ms) c = (int ?r - 1, False)" by (simp add: found_def)
    have "bufstart b c first = Inr ?r"
    proof (cases "?r = 0")
      case True
      then show ?thesis using n_bufsearch_found [OF assms, of c] f by (simp add: bufstart_def)
    next
      case r: False
      then obtain r' where r': "?r = Suc r'" by (cases ?r) auto
      have lt: "kk (?ms ! r') < c" using rankof_nth [OF assms, of r' c] rl r' by simp
      have "drop r' ?ms = ?ms ! r' # drop ?r ?ms" using rl r' by (simp add: Cons_nth_drop_Suc)
      moreover have "takeWhile (\<lambda>m. kk (?ms ! r') = kk m) (drop ?r ?ms) = []"
        unfolding dr using lt by (cases "filter (\<lambda>m. c \<le> kk m) ?ms") (auto dest!: filter_eq_ConsD)
      ultimately have "length (takeWhile (\<lambda>m. kk (?ms ! r') = kk m) (drop r' ?ms)) = 1" by simp
      then show ?thesis using n_bufsearch_found [OF assms, of c] f rl r' by (simp add: bufstart_def nthE_def keycmp_order)
    qed
    then show ?thesis using rl dr keep_notin [OF False, of first] by auto
  qed
qed

lemma leafstart:
  assumes "sorted_wrt (<) (map kk vs)" "found (map kk vs) c = (i, same)"
  shows "drop (nat (if i = -1 \<or> \<not> same \<or> \<not> first then i + 1 else i)) vs = filter (\<lambda>e. keep first c (kk e)) vs"
proof -
  let ?r = "rankof (map kk vs) c"
  have s: "sorted (map kk vs)" using assms(1) by (rule strict_sorted_imp_sorted)
  note dr = drop_rank [OF s, of c]
  show ?thesis
  proof (cases "c \<in> kk ` set vs")
    case False
    then have "i = int ?r - 1" "\<not> same" using assms(2) by (auto simp: found_def)
    then show ?thesis using dr keep_notin [OF False, of first] by simp
  next
    case True
    then have i: "i = int ?r" "same" using assms(2) by (auto simp: found_def)
    show ?thesis
    proof (cases first)
      case True
      then show ?thesis using i dr by (simp add: keep_def)
    next
      case False
      have "drop (Suc ?r) vs = filter (\<lambda>e. c < kk e) vs"
      proof (rule drop_keep [OF s, where P = "\<lambda>k. c < k"])
        fix j assume j: "j < length vs"
        from True obtain l where l: "l < length vs" "kk (vs ! l) = c" by (auto simp: in_set_conv_nth)
        have "?r = l"
        proof -
          have "\<not> l < ?r" using rankof_nth [OF s, of l c] l by simp
          moreover have "\<not> ?r < l" using rankof_nth [OF s, of ?r c] sorted_wrt_nth_less [OF assms(1), of ?r l] l by auto
          ultimately show ?thesis by simp
        qed
        then show "j < Suc ?r \<longleftrightarrow> \<not> c < kk (vs ! j)"
          using sorted_wrt_nth_less [OF assms(1), of j l] sorted_wrt_nth_less [OF assms(1), of l j] l j by (auto simp: less_Suc_eq not_less) (metis leD linorder_neqE_nat)
      qed
      then show ?thesis using i False by (simp add: keep_def nat_add_distrib)
    qed
  qed
qed

lemma filter_keys:
  assumes "kk ` set xs \<subseteq> K"
  shows "\<forall>x \<in> K. \<not> P x \<Longrightarrow> filter (\<lambda>e. P (kk e)) xs = []" "\<forall>x \<in> K. P x \<Longrightarrow> filter (\<lambda>e. P (kk e)) xs = xs"
  using assms by (auto simp: filter_empty_conv filter_id_conv)

lemma btpath_ok:
  assumes "wft (bstore st) n b"
  shows "\<exists>rest. btpath (Suc n) st c first (Some b) b = Inr rest \<and> spok (bstore st) n rest \<and> atrest n rest \<and> sb (hd rest) = Some b \<and>
    rents (bstore st) n rest = filter (\<lambda>e. keep first c (kk e)) (ents (bstore st) n b) \<and> rmsgs (bstore st) n rest = filter (\<lambda>m. keep first c (kk m)) (allm (bstore st) n b)"
  using assms
proof (induction n arbitrary: b)
  case 0
  then have ss: "sorted_wrt (<) (map kk (ndvals b))" and ty: "ndtype b \<noteq> Tpivot" by auto
  obtain i same where i: "found (map kk (ndvals b)) c = (i, same)" by (cases "found (map kk (ndvals b)) c") auto
  let ?vi = "if i = -1 \<or> \<not> same \<or> \<not> first then i + 1 else i"
  have "btpath 1 st c first (Some b) b = Inr [\<lparr>sbi = 0, svi = nat ?vi, sb = Some b\<rparr>]"
    using n_blksearch_found [OF strict_sorted_imp_sorted [OF ss], of c] i ty by simp
  then show ?case using 0 leafstart [OF ss i, of first] by (simp add: vals_def)
next
  case (Suc n)
  note w = Suc.prems
  have ss: "sorted_wrt (<) (map kk (ndvals b))" by (rule wft_sorted [OF w])
  have wk: "wfkids (bstore st) n (ndvals b)" and ms: "sorted (map kk (ndmsgs b))" and ty: "ndtype b = Tpivot" and ne: "ndvals b \<noteq> []" using w by (auto simp: wft_Suc)
  obtain i same where i: "found (map kk (ndvals b)) c = (i, same)" by (cases "found (map kk (ndvals b)) c") auto
  define v where "v = nat (if i = -1 then 0 else i)"
  have v: "int v = (if i = -1 then 0 else i)" "v < length (ndvals b)" using found_range [of "map kk (ndvals b)" c] i ne by (auto simp: v_def)
  define V1 e V2 where "V1 = take v (ndvals b)" and "e = ndvals b ! v" and "V2 = drop (Suc v) (ndvals b)"
  have vs: "ndvals b = V1 @ [e] @ V2" using v(2) id_take_nth_drop [of v "ndvals b"] by (simp add: V1_def e_def V2_def)
  have wv: "wfkids (bstore st) n (V1 @ [e] @ V2)" by (rule back_subst [where P = "wfkids (bstore st) n", OF wk vs])
  have ends: "\<forall>x \<in> fkeys (bstore st) n V1. x < c" "\<forall>x \<in> fkeys (bstore st) n V2. c < x"
  proof -
    have "wfkids (bstore st) n V2" "before (fkeys (bstore st) n V1) (ekeys (bstore st) n e)" using wv wfkids_Cons [of "bstore st" n e V2] by simp_all
    then have b: "\<forall>x \<in> fkeys (bstore st) n V1. x < kk e" "\<forall>z \<in> set V2. \<forall>x \<in> ekeys (bstore st) n z. kk z \<le> x"
      by (auto simp: before_def ekeys_def wfkids_def)
    have "\<forall>z \<in> set V2. c < kk z"
    proof (cases "i = -1")
      case True
      have "c \<notin> set (map kk (ndvals b))" "rankof (map kk (ndvals b)) c = 0" using i True by (auto simp: found_def split: if_splits)
      then have "filter (\<lambda>x. c \<le> kk x) (ndvals b) = ndvals b" using drop_rank [OF strict_sorted_imp_sorted [OF ss], of c] by simp
      then have "\<forall>x \<in> set (ndvals b). c \<le> kk x" by (metis filter_id_conv)
      then show ?thesis using \<open>c \<notin> set (map kk (ndvals b))\<close> vs by (auto simp: order.order_iff_strict)
    next
      case False
      from found_index(4) [OF ss i False] v(1) False show ?thesis by (auto simp: V2_def in_set_conv_nth)
    qed
    then show "\<forall>x \<in> fkeys (bstore st) n V2. c < x" using b(2) by (force simp: fkeys_def)
    show "\<forall>x \<in> fkeys (bstore st) n V1. x < c"
    proof (cases "i = -1")
      case True
      then show ?thesis using v(1) by (simp add: V1_def)
    next
      case False
      then have "kk e \<le> c" using found_index(3) [OF ss i False] v by (auto simp: e_def)
      then show ?thesis using b(1) by force
    qed
  qed
  from wv obtain d where d: "kid (bstore st) e = Some d" "wft (bstore st) n d" by (auto simp: wfkids_def)
  from kid_lookup [OF d(1)] obtain bp where bp: "unpackbp (kv e) = Inr bp" "getblk st bp = Inr d" by blast
  from Suc.IH [OF d(2)] obtain rest where r: "btpath (Suc n) st c first (Some d) d = Inr rest" "spok (bstore st) n rest" "atrest n rest" "sb (hd rest) = Some d"
    "rents (bstore st) n rest = filter (\<lambda>e. keep first c (kk e)) (ents (bstore st) n d)" "rmsgs (bstore st) n rest = filter (\<lambda>m. keep first c (kk m)) (allm (bstore st) n d)" by blast
  from bufstart_ok [OF ms, of c first] obtain bi where bi: "bufstart b c first = Inr bi" "bi \<le> length (ndmsgs b)" "drop bi (ndmsgs b) = filter (\<lambda>m. keep first c (kk m)) (ndmsgs b)" by blast
  let ?p = "\<lparr>sbi = bi, svi = v, sb = Some b\<rparr>"
  have nth: "nthE (ndvals b) (int v) = Inr e" using v(2) by (simp add: nthE_def e_def)
  have "btpath (Suc (Suc n)) st c first (Some b) b = Inr (?p # rest)"
    unfolding btpath.simps(2) [of "Suc n"] using n_blksearch_found [OF strict_sorted_imp_sorted [OF ss], of c] i ty nth bi(1) bp r(1) v(1) v_def by (simp del: nthE_Inr btpath.simps)
  moreover have hn: "hasnext rest" by (rule spok_hasnext(1) [OF r(2)])
  have off: "offv ?p rest = V2" using hn by (simp add: offv_def vals_def V2_def)
  have k1: "\<forall>x \<in> fkeys (bstore st) n V1. \<not> keep first c x" using ends(1) by (auto simp: keep_def)
  have k2: "\<forall>x \<in> fkeys (bstore st) n V2. keep first c x" using ends(2) by (auto simp: keep_def)
  have sub: "kk ` set (nents (bstore st) n (kids (bstore st) V)) \<subseteq> fkeys (bstore st) n V" "kk ` set (nallm (bstore st) n (kids (bstore st) V)) \<subseteq> fkeys (bstore st) n V" for V
    by (rule order_trans [OF nlist_keys(1) ckeys_kids], rule order_trans [OF nlist_keys(2) ckeys_kids])
  note f1 = filter_keys(1) [OF sub(1) k1] filter_keys(1) [OF sub(2) k1] and f2 = filter_keys(2) [OF sub(1) k2] filter_keys(2) [OF sub(2) k2]
  have "rents (bstore st) (Suc n) (?p # rest) = filter (\<lambda>e. keep first c (kk e)) (ents (bstore st) (Suc n) b)"
    using hn off r(5) f1(1) f2(1) d(1) by (simp add: ents_Suc vs)
  moreover have "rmsgs (bstore st) (Suc n) (?p # rest) = filter (\<lambda>m. keep first c (kk m)) (allm (bstore st) (Suc n) b)"
    using hn off r(6) f1(2) f2(2) d(1) bi(3) by (simp add: allm_Suc vs rest_msgs_def)
  moreover have "spok (bstore st) (Suc n) (?p # rest)" using w bi(2) r(2,4) v(2) d(1) by (simp add: e_def)
  ultimately show ?case using r(3) hn by (intro exI [of _ "?p # rest"]) simp
qed

section \<open>The whole scan\<close>

text \<open>\<open>btnext\<close> called until it says there is no more.\<close>

inductive scanrun :: "Bs \<Rightarrow> Scan \<Rightarrow> Kvp list \<Rightarrow> Scan \<Rightarrow> bool" for st where
  last: "scanrun st s [] s'" if "btnext st s = Some (Inr (s', None))"
| more: "scanrun st s (r # rs) s''" if "btnext st s = Some (Inr (s', Some r))" "scanrun st s' rs s''"

inductive_cases scanrun_NilE: "scanrun st s [] s'"
inductive_cases scanrun_ConsE: "scanrun st s (r # rs) s'"

lemma scanrun_again:
  assumes "btnext st s = btnext st s1" "scanrun st s1 xs s'"
  shows "scanrun st s xs s'"
  using assms(2,1) by (cases rule: scanrun.cases) (auto intro: scanrun.intros)

lemma prefix_interval:
  assumes "p \<le> x" "x \<le> y" "hasprefix p y"
  shows "hasprefix p x"
proof -
  from assms(3) obtain s where y: "y = p @ s" unfolding hasprefix_def by (metis append_take_drop_id)
  have "\<exists>t. x = p @ t" using assms(1,2) unfolding y
  proof (induction p arbitrary: x)
    case (Cons a p)
    then obtain b x' where x: "x = b # x'" by (cases x) auto
    with Cons.prems have "b = a" "p \<le> x'" "x' \<le> p @ s" by auto
    with Cons.IH [of x'] x show ?case by auto
  qed simp
  then show ?thesis by (auto simp: hasprefix_def)
qed

lemma hasprefix_le: "hasprefix p k \<Longrightarrow> p \<le> k"
proof -
  assume "hasprefix p k"
  then obtain s where "k = p @ s" unfolding hasprefix_def by (metis append_take_drop_id)
  then show ?thesis by (induction p arbitrary: k) auto
qed

lemma leftkeys_finite: "finite (leftkeys st n rest)"
  by (simp add: leftkeys_def)

lemma btnext_step:
  assumes "scanstep st s = Inr (s1, o1)"
  shows "btnext st s = (case o1 of None \<Rightarrow> Some (Inr (s1, None)) | Some (ok, r) \<Rightarrow> if ok then Some (Inr (s1, Some r)) else btnext st s1)"
  by (subst btnext.simps) (simp add: assms split: option.splits)

lemma scan_left:
  assumes "spath s = Some rest" "\<not> donescan s" "spok (bstore st) n rest" "atrest n rest" "\<And>k. \<exists>v. left st n rest k = Inr v" "\<forall>x \<in> leftkeys st n rest. spfx s \<le> x"
  shows "\<exists>xs s'. scanrun st s xs s' \<and> sorted_wrt (<) (map kk xs) \<and> kk ` set xs \<subseteq> leftkeys st n rest \<and>
    (\<forall>k v. \<lparr>kk = k, kv = v\<rparr> \<in> set xs \<longleftrightarrow> hasprefix (spfx s) k \<and> left st n rest k = Inr (Some v))"
  using assms
proof (induction "card (leftkeys st n rest)" arbitrary: s rest rule: less_induct)
  case less
  note sk = scanstep_ok [OF less(2-6)]
  have none: "left st n rest k = Inr (Some v) \<Longrightarrow> k \<in> leftkeys st n rest" for k v using left_none [of k st n rest] by auto
  show ?case
  proof (cases "leftkeys st n rest = {}")
    case True
    with sk obtain s' where "scanstep st s = Inr (s', None)" by auto
    from btnext_step [OF this] have "scanrun st s [] s'" by (intro scanrun.last) simp
    moreover have "\<not> left st n rest k = Inr (Some v)" for k v using none True by blast
    ultimately show ?thesis by (intro exI [of _ "[]"] exI [of _ s']) simp
  next
    case False
    with sk obtain k where k: "k \<in> leftkeys st n rest" "\<forall>x \<in> leftkeys st n rest. k \<le> x"
      "if hasprefix (spfx s) k then turned st n s rest k else \<exists>s'. scanstep st s = Inr (s', None)" by auto
    show ?thesis
    proof (cases "hasprefix (spfx s) k")
      case nk: False
      with k(3) obtain s' where "scanstep st s = Inr (s', None)" by auto
      from btnext_step [OF this] have "scanrun st s [] s'" by (intro scanrun.last) simp
      moreover have "\<not> (hasprefix (spfx s) x \<and> left st n rest x = Inr (Some v))" for x v
        using none [of x v] k(1,2) less(7) nk prefix_interval [of "spfx s" k x] by blast
      ultimately show ?thesis by (intro exI [of _ "[]"] exI [of _ s']) simp
    next
      case True
      with k(3) obtain rest' ok r v where t: "scanstep st s = Inr (s\<lparr>spath := Some rest', skv := r\<rparr>, Some (ok, r))" "left st n rest k = Inr v" "holds k ok r v"
        "spok (bstore st) n rest'" "atrest n rest'" "\<forall>x. x \<noteq> k \<longrightarrow> left st n rest' x = left st n rest x" "leftkeys st n rest' \<subseteq> leftkeys st n rest - {k}"
        unfolding turned_def by auto
      let ?s = "s\<lparr>spath := Some rest', skv := r\<rparr>"
      have k0: "left st n rest' k = Inr None" by (rule left_none) (use t(7) in blast)
      have "\<exists>w. left st n rest' x = Inr w" for x using t(6) k0 less(6) [of x] by (cases "x = k") auto
      moreover have "card (leftkeys st n rest') < card (leftkeys st n rest)"
        by (rule psubset_card_mono [OF leftkeys_finite]) (use t(7) k(1) in blast)
      ultimately have "\<exists>xs s'. scanrun st ?s xs s' \<and> sorted_wrt (<) (map kk xs) \<and> kk ` set xs \<subseteq> leftkeys st n rest' \<and>
          (\<forall>k v. \<lparr>kk = k, kv = v\<rparr> \<in> set xs \<longleftrightarrow> hasprefix (spfx ?s) k \<and> left st n rest' k = Inr (Some v))"
        by (intro less(1)) (use less(3,7) t(4,5,7) in auto)
      then obtain xs s' where xs: "scanrun st ?s xs s'" "sorted_wrt (<) (map kk xs)" "kk ` set xs \<subseteq> leftkeys st n rest'"
        "\<forall>k v. \<lparr>kk = k, kv = v\<rparr> \<in> set xs \<longleftrightarrow> hasprefix (spfx s) k \<and> left st n rest' k = Inr (Some v)" by auto
      have after: "k < x" if "x \<in> kk ` set xs" for x using that xs(3) t(7) k(2) by (force simp: order.strict_iff_order)
      note nx = btnext_step [OF t(1)]
      show ?thesis
      proof (cases ok)
        case okt: True
        with t(3) obtain w where w: "v = Some w" "r = \<lparr>kk = k, kv = w\<rparr>" by (auto simp: holds_def)
        have "scanrun st s (r # xs) s'" by (rule scanrun.more [OF _ xs(1)]) (use nx okt in simp)
        moreover have "sorted_wrt (<) (map kk (r # xs))" using xs(2) after w(2) by auto
        moreover have "kk ` set (r # xs) \<subseteq> leftkeys st n rest" using xs(3) t(7) k(1) w(2) by auto
        moreover have "\<lparr>kk = x, kv = u\<rparr> \<in> set (r # xs) \<longleftrightarrow> hasprefix (spfx s) x \<and> left st n rest x = Inr (Some u)" for x u
          using xs(4) t(2,6) k0 True w by (cases "x = k") auto
        ultimately show ?thesis by blast
      next
        case nok: False
        then have "v = None" using t(3) by (simp add: holds_def)
        have "scanrun st s xs s'" by (rule scanrun_again [OF _ xs(1)]) (use nx nok in simp)
        moreover have "kk ` set xs \<subseteq> leftkeys st n rest" using xs(3) t(7) by blast
        moreover have "\<lparr>kk = x, kv = u\<rparr> \<in> set xs \<longleftrightarrow> hasprefix (spfx s) x \<and> left st n rest x = Inr (Some u)" for x u
          using xs(4) t(2,6) k0 \<open>v = None\<close> by (cases "x = k") auto
        ultimately show ?thesis using xs(2) by blast
      qed
    qed
  qed
qed

lemma mean_filter:
  "mean (filter (\<lambda>e. P (kk e)) es) (filter (\<lambda>m. P (kk m)) ms) k = (if P k then mean es ms k else Inr None)"
proof -
  have "lk (filter (\<lambda>e. P (kk e)) es) k = (if P k then lk es k else None)" by (induction es) auto
  moreover have "msgsof k (filter (\<lambda>m. P (kk m)) ms) = (if P k then msgsof k ms else [])" by (induction ms) auto
  ultimately show ?thesis by (simp add: mean_def)
qed

section \<open>The theorem\<close>

lemma scan_run:
  assumes "rooted st t h b" "\<And>k. \<exists>v. meaning st h b k = Inr v" "\<not> donescan s" "spfx s \<le> kk (skv s)"
  shows "\<exists>s1 xs s2. btenter st t s = Inr s1 \<and> scanrun st s1 xs s2 \<and> sorted_wrt (<) (map kk xs) \<and>
    (\<forall>k v. \<lparr>kk = k, kv = v\<rparr> \<in> set xs \<longleftrightarrow> hasprefix (spfx s) k \<and> keep (sfirst s) (kk (skv s)) k \<and> meaning st h b k = Inr (Some v))"
proof -
  have r: "getblk st (tbp t) = Inr b" "wft (bstore st) h b" "unat (tht t) = Suc h" using assms(1) by (auto simp: rooted_def)
  let ?P = "keep (sfirst s) (kk (skv s))"
  from btpath_ok [OF r(2), of "kk (skv s)" "sfirst s"] obtain rest where p: "btpath (Suc h) st (kk (skv s)) (sfirst s) (Some b) b = Inr rest"
    "spok (bstore st) h rest" "atrest h rest" "rents (bstore st) h rest = filter (\<lambda>e. ?P (kk e)) (ents (bstore st) h b)" "rmsgs (bstore st) h rest = filter (\<lambda>m. ?P (kk m)) (allm (bstore st) h b)" by blast
  let ?s = "s\<lparr>spath := Some rest, sfirst := False\<rparr>"
  have e: "btenter st t s = Inr ?s" using assms(3) r(1,3) p(1) by (simp add: btenter_def del: btpath.simps)
  have l: "left st h rest k = (if ?P k then meaning st h b k else Inr None)" for k unfolding left_def p(4,5) mean_filter by (simp add: meaning_def)
  have lk: "\<forall>x \<in> leftkeys st h rest. spfx ?s \<le> x"
    unfolding leftkeys_def p(4,5) using assms(4) by (auto simp: keep_def split: if_splits)
  have "\<exists>xs s'. scanrun st ?s xs s' \<and> sorted_wrt (<) (map kk xs) \<and> kk ` set xs \<subseteq> leftkeys st h rest \<and>
      (\<forall>k v. \<lparr>kk = k, kv = v\<rparr> \<in> set xs \<longleftrightarrow> hasprefix (spfx ?s) k \<and> left st h rest k = Inr (Some v))"
    by (rule scan_left) (use assms(2,3) p(2,3) lk l in auto)
  then obtain xs s' where x: "scanrun st ?s xs s'" "sorted_wrt (<) (map kk xs)"
    "\<And>k v. \<lparr>kk = k, kv = v\<rparr> \<in> set xs \<longleftrightarrow> hasprefix (spfx s) k \<and> left st h rest k = Inr (Some v)" by auto
  have "\<lparr>kk = k, kv = v\<rparr> \<in> set xs \<longleftrightarrow> hasprefix (spfx s) k \<and> ?P k \<and> meaning st h b k = Inr (Some v)" for k v unfolding x(3) l by auto
  with e x(1,2) show ?thesis by blast
qed

text \<open>
  C7. A scan gives every key with its prefix that has a value, once, in the order of the keys, with that value, and nothing else, and then
  says that it is done: entries of the leaves changed by the messages in the buffers above them, keys that are only in
  messages, and none that the messages delete.  A scan that is entered again, with \<open>first\<close> no longer set, goes on after
  the key it had come to, in whatever tree it is given then.
\<close>

theorem scan_complete:
  assumes "rooted st t h b" "\<And>k. \<exists>v. meaning st h b k = Inr v" "\<not> donescan s" "spfx s \<le> kk (skv s)"
  shows "\<exists>s1 xs s2. btenter st t s = Inr s1 \<and> scanrun st s1 xs s2 \<and> sorted_wrt (<) (map kk xs) \<and>
    (\<forall>k v. \<lparr>kk = k, kv = v\<rparr> \<in> set xs \<longleftrightarrow> hasprefix (spfx s) k \<and> keep (sfirst s) (kk (skv s)) k \<and> meaning st h b k = Inr (Some v))"
  using assms by (rule scan_run)

definition scanW :: Scan where
  "scanW = \<lparr>sfirst = True, donescan = False, skv = \<lparr>kk = [2], kv = []\<rparr>, spfx = [2], spath = None\<rparr>"

theorem scan_complete_witness:
  "btnewscan [2] = Inr scanW \<and> (\<exists>s1 xs s2. btenter (stW [49152 \<mapsto> leafW]) treeW scanW = Inr s1 \<and> scanrun (stW [49152 \<mapsto> leafW]) s1 xs s2 \<and> \<lparr>kk = [2], kv = [7]\<rparr> \<in> set xs)"
proof
  show "btnewscan [2] = Inr scanW" by (simp add: btnewscan_def scanW_def)
  have m: "\<exists>v. meaning (stW [49152 \<mapsto> leafW]) 0 leafW k = Inr v" for k unfolding meaningW by blast
  have "\<not> donescan scanW" "spfx scanW \<le> kk (skv scanW)" by (simp_all add: scanW_def)
  from scan_complete [OF rootedW m this] obtain s1 xs s2 where "btenter (stW [49152 \<mapsto> leafW]) treeW scanW = Inr s1" "scanrun (stW [49152 \<mapsto> leafW]) s1 xs s2"
    and x: "\<forall>k v. \<lparr>kk = k, kv = v\<rparr> \<in> set xs \<longleftrightarrow> hasprefix (spfx scanW) k \<and> keep (sfirst scanW) (kk (skv scanW)) k \<and> meaning (stW [49152 \<mapsto> leafW]) 0 leafW k = Inr (Some v)" by blast
  moreover have "\<lparr>kk = [2], kv = [7]\<rparr> \<in> set xs" unfolding x [rule_format] meaningW by (simp add: scanW_def hasprefix_def keep_def)
  ultimately show "\<exists>s1 xs s2. btenter (stW [49152 \<mapsto> leafW]) treeW scanW = Inr s1 \<and> scanrun (stW [49152 \<mapsto> leafW]) s1 xs s2 \<and> \<lparr>kk = [2], kv = [7]\<rparr> \<in> set xs" by blast
qed

end
