(* ===== verification/Gefs_Obj.thy ===== *)
theory Gefs_Obj
  imports Gefs_Kvs
begin

text \<open>
  \<open>sys/src/9/gefs/obj.c\<close>, object stores.  A store is a file whose objects are versioned keys of the
  file's tree; the fid that writes it carries a transaction (\<open>Otx\<close>).

  The state is what the mutator works on, under \<open>mutlk\<close>: the tree, the list of transactions under
  way, and the transaction of the fid.  The tree is the entries it holds (\<open>Gefs_Kvs\<close>).  A function
  of the code that can call \<open>error\<close> returns its outcome together with the state it leaves, because the
  transaction and the tree keep what was done to them before the error.

  \<open>upsert\<close> may fail after it has taken part of its batch, and readers and a crash may find the tree
  between its turns.  So the state keeps every root the tree has had, newest first, as if each
  message were a turn of its own: the roots that \<open>btupsert\<close> really makes are among these.  Which
  upserts fail, with what error and how many messages of the sorted batch are not taken then, is
  given by \<open>fates\<close>, and what \<open>dataroom\<close> answers by \<open>rooms\<close>; the theorems hold for all of them.  When a list is
  used up, upserts succeed and there is room.

  Memory allocation succeeds.  The yields of \<open>flushtx\<close> change nothing that the mutator's code reads.
\<close>

abbreviation (input) Objhdrksz :: nat where "Objhdrksz \<equiv> 9"
abbreviation (input) Objoidksz :: nat where "Objoidksz \<equiv> 17"
abbreviation (input) Objksz :: nat where "Objksz \<equiv> 29"
abbreviation (input) Objchunk :: nat where "Objchunk \<equiv> 480"
abbreviation (input) Objuser :: nat where "Objuser \<equiv> 256"
abbreviation (input) Objkeep :: u64 where "Objkeep \<equiv> 3"
abbreviation (input) Objtxmax :: int where "Objtxmax \<equiv> 67108864"
abbreviation (input) Objtomb :: u32 where "Objtomb \<equiv> 0xffffffff"
abbreviation (input) Objbatch :: nat where "Objbatch \<equiv> 32"
abbreviation (input) Objclob :: nat where "Objclob \<equiv> 256"
abbreviation (input) Objyield :: nat where "Objyield \<equiv> 4"
abbreviation (input) Objrhdr :: nat where "Objrhdr \<equiv> 25"

abbreviation (input) Edscan :: fault where "Edscan \<equiv> Err ''invalid dir scan offset''"

section \<open>The state\<close>

record Ohdr =
  hn :: u64
  hk :: u64
  hw :: u64
  huser :: bytes

record Oent =
  eoid :: u64
  enidx :: u32

datatype Rstate = Rseek | Rdata | Rskip

text \<open>A scan between two reads: its prefix, the key it has come to, and whether it is at its end.\<close>

record Oscan =
  scpfx :: bytes
  sclast :: "bytes option"
  scdone :: bool

text \<open>
  \<open>orec\<close> is \<open>rec[0..nrec)\<close>, and so are \<open>ochunk\<close>, \<open>ouser\<close>, \<open>opend\<close>, \<open>omb\<close> and \<open>oents\<close> with their counts.  \<open>oaddr\<close> is
  the address of the structure.
\<close>

record Otx =
  oaddr :: nat
  ostore :: u64
  over :: u64
  oabort :: bool
  oents :: "Oent list"
  obytes :: int
  onewuser :: bool
  ouser :: bytes
  orec :: bytes
  ooid :: u64
  oleft :: int
  oidx :: u32
  ochunk :: bytes
  oinuser :: int
  owk :: int
  onflush :: nat
  omb :: "Msg list"
  oselver :: u64
  oseloid :: u64
  osel :: bool
  oscan :: "Oscan option"
  oroff :: int
  orver :: u64
  oroid :: u64
  orcver :: u64
  oridx :: u32
  orstate :: Rstate
  orleft :: int
  opend :: bytes

record Ow =
  roots :: "Kvp list list"
  fates :: "(nat \<times> string) option list"
  rooms :: "bool list"
  otxs :: "(nat \<times> u64) list"
  objfail :: bool

abbreviation tree :: "Ow \<Rightarrow> Kvp list" where "tree w \<equiv> hd (roots w)"

section \<open>Outcomes with state\<close>

type_synonym 'a om = "Ow \<times> Otx \<Rightarrow> 'a res \<times> Ow \<times> Otx"

definition retM :: "'a \<Rightarrow> 'a om" where
  "retM x s = (Inr x, s)"

definition failM :: "fault \<Rightarrow> 'a om" where
  "failM e s = (Inl e, s)"

definition bindM :: "'a om \<Rightarrow> ('a \<Rightarrow> 'b om) \<Rightarrow> 'b om" where
  "bindM m f s = (case m s of (Inl e, s') \<Rightarrow> (Inl e, s') | (Inr x, s') \<Rightarrow> f x s')"

text \<open>\<open>if(waserror()){ h; } else { m; poperror(); }\<close>\<close>

definition catchM :: "'a om \<Rightarrow> (string \<Rightarrow> 'a om) \<Rightarrow> 'a om" where
  "catchM m h s = (case m s of (Inl (Err e), s') \<Rightarrow> h e s' | r \<Rightarrow> r)"

definition getw :: "(Ow \<Rightarrow> 'a) \<Rightarrow> 'a om" where
  "getw f s = (Inr (f (fst s)), s)"

definition gett :: "(Otx \<Rightarrow> 'a) \<Rightarrow> 'a om" where
  "gett f s = (Inr (f (snd s)), s)"

definition modt :: "(Otx \<Rightarrow> Otx) \<Rightarrow> unit om" where
  "modt f s = (Inr (), fst s, f (snd s))"

definition modw :: "(Ow \<Rightarrow> Ow) \<Rightarrow> unit om" where
  "modw f s = (Inr (), f (fst s), snd s)"

definition liftM :: "'a res \<Rightarrow> 'a om" where
  "liftM r s = (r, s)"

lemma bindM_cong [fundef_cong]:
  "m s = m' s' \<Longrightarrow> (\<And>x t. m' s' = (Inr x, t) \<Longrightarrow> f x t = f' x t) \<Longrightarrow> s = s' \<Longrightarrow> bindM m f s = bindM m' f' s'"
  by (auto simp: bindM_def split: prod.splits sum.splits)

section \<open>Keys and the header\<close>

definition packkey :: "u64 \<Rightarrow> u64 \<Rightarrow> u64 \<Rightarrow> u32 \<Rightarrow> bytes" where
  "packkey store oid ver idx = Kobj # PACK64 store @ PACK64 oid @ PACK64 (NOT ver) @ PACK32 idx"

definition hkey :: "u64 \<Rightarrow> bytes" where
  "hkey store = Kobj # PACK64 store"

definition oidkey :: "u64 \<Rightarrow> u64 \<Rightarrow> bytes" where
  "oidkey store oid = Kobj # PACK64 store @ PACK64 oid"

text \<open>\<open>gethdr\<close>: a store with no header yet has a header of zeros.\<close>

definition hdr0 :: Ohdr where
  "hdr0 = \<lparr>hn = 0, hk = 0, hw = 0, huser = []\<rparr>"

definition gethdr :: "Kvp list \<Rightarrow> u64 \<Rightarrow> Ohdr res" where
  "gethdr t store =
     (case lk t (hkey store) of
        None \<Rightarrow> Inr hdr0
      | Some v \<Rightarrow>
          if length v < 24 \<or> length v > 24 + Objuser then Inl Ecorrupt
          else Inr \<lparr>hn = UNPACK64 v, hk = UNPACK64 (drop 8 v), hw = UNPACK64 (drop 16 v), huser = drop 24 v\<rparr>)"

definition packhdr :: "Ohdr \<Rightarrow> bytes" where
  "packhdr h = PACK64 (hn h) @ PACK64 (hk h) @ PACK64 (hw h) @ huser h"

section \<open>The tree\<close>

fun addroots :: "Msg list \<Rightarrow> Kvp list list \<Rightarrow> Kvp list list" where
  "addroots [] rs = rs"
| "addroots (m # ms) rs = addroots ms (kvmsg m (hd rs) # rs)"

definition upsert :: "Msg list \<Rightarrow> unit om" where
  "upsert ms s =
     (let w = fst s; ms = stablesort ms; fate = (case fates w of [] \<Rightarrow> None | f # _ \<Rightarrow> f); w = w\<lparr>fates := tl (fates w)\<rparr> in
      case fate of
        None \<Rightarrow> (Inr (), w\<lparr>roots := addroots ms (roots w)\<rparr>, snd s)
      | Some (n, e) \<Rightarrow> (Inl (Err e), w\<lparr>roots := addroots (take (length ms - n) ms) (roots w)\<rparr>, snd s))"

definition hasroom :: "bool om" where
  "hasroom s = (Inr (case rooms (fst s) of [] \<Rightarrow> True | b # _ \<Rightarrow> b), (fst s)\<lparr>rooms := tl (rooms (fst s))\<rparr>, snd s)"

definition puthdr :: "u64 \<Rightarrow> Ohdr \<Rightarrow> unit om" where
  "puthdr store h = upsert [\<lparr>kk = hkey store, kv = packhdr h, mop = Oinsert\<rparr>]"

section \<open>Messages\<close>

definition flushtx :: "unit om" where
  "flushtx =
     bindM (gett omb) (\<lambda>mb.
     if mb = [] then retM ()
     else bindM (if \<exists>m \<in> set mb. kv m \<noteq> [] then bindM hasroom (\<lambda>r. if r then retM () else failM Efull) else retM ()) (\<lambda>_.
     bindM (upsert mb) (\<lambda>_.
     modt (\<lambda>tx. let n = Suc (onflush tx) in
       tx\<lparr>omb := [], onflush := (if owk tx < 0 then onflush tx else if Objyield \<le> n then 0 else n)\<rparr>))))"

text \<open>The arrays of the transaction hold \<open>Objclob\<close> messages with their keys, and \<open>Objbatch\<close> values.\<close>

definition addmsg :: "byte \<Rightarrow> bytes \<Rightarrow> bytes \<Rightarrow> unit om" where
  "addmsg op k v =
     bindM (bindM (gett omb) (\<lambda>mb. if length mb = Objclob \<or> v \<noteq> [] \<and> Objbatch \<le> length mb then flushtx else retM ())) (\<lambda>_.
     bindM (gett omb) (\<lambda>mb.
     if Objclob \<le> length mb \<or> Objksz < length k \<or> v \<noteq> [] \<and> (Objbatch \<le> length mb \<or> Objchunk < length v) then failM Wild
     else modt (\<lambda>tx. tx\<lparr>omb := mb @ [\<lparr>kk = k, kv = v, mop = op\<rparr>]\<rparr>)))"

section \<open>Sweeps\<close>

text \<open>
  One scan of the loop in \<open>sweep\<close>, over the keys it gives; \<open>d\<close> is the function \<open>drop\<close>, which may change its
  argument.  The result is the key to go on from, if there is to be another scan.
\<close>

fun sweepscan :: "(bytes \<Rightarrow> 'a \<Rightarrow> bool \<times> 'a) \<Rightarrow> bytes list \<Rightarrow> nat \<Rightarrow> 'a \<Rightarrow> (bytes option \<times> 'a) om" where
  "sweepscan d [] n a = retM (None, a)"
| "sweepscan d (k # ks) n a =
     (let (b, a) = d k a; n = (if b then Suc n else n) in
      bindM (if b then addmsg Oclobber k [] else retM ()) (\<lambda>_.
      bindM (gett omb) (\<lambda>mb.
      if n = Objclob - 1 \<or> length mb = Objclob then retM (Some k, a) else sweepscan d ks n a)))"

text \<open>The loop, with a bound on its scans that \<open>sweep\<close> sets to what the tree can need.\<close>

fun sweeploop :: "nat \<Rightarrow> bytes \<Rightarrow> (bytes \<Rightarrow> 'a \<Rightarrow> bool \<times> 'a) \<Rightarrow> bytes option \<Rightarrow> 'a \<Rightarrow> unit om" where
  "sweeploop 0 pfx d fr a = failM Panic"
| "sweeploop (Suc f) pfx d fr a =
     bindM (getw tree) (\<lambda>t.
     bindM (sweepscan d (map kk (scanned pfx fr t)) 0 a) (\<lambda>(nx, a).
     bindM flushtx (\<lambda>_.
     case nx of None \<Rightarrow> retM () | Some k \<Rightarrow> sweeploop f pfx d (Some k) a)))"

definition sweep :: "bytes \<Rightarrow> (bytes \<Rightarrow> 'a \<Rightarrow> bool \<times> 'a) \<Rightarrow> 'a \<Rightarrow> unit om" where
  "sweep pfx d a = bindM (getw tree) (\<lambda>t. sweeploop (Suc (length t)) pfx d None a)"

definition keyver :: "bytes \<Rightarrow> u64" where
  "keyver k = NOT (UNPACK64 (drop 17 k))"

definition dropall :: "bytes \<Rightarrow> unit \<Rightarrow> bool \<times> unit" where
  "dropall k a = (True, a)"

definition dropunpub :: "bytes \<Rightarrow> u64 \<Rightarrow> bool \<times> u64" where
  "dropunpub k n = (length k = Objksz \<and> keyver k > n, n)"

record Oold =
  oldk :: u64
  oldkeep :: u64

definition dropold :: "bytes \<Rightarrow> Oold \<Rightarrow> bool \<times> Oold" where
  "dropold k a =
     (if length k \<noteq> Objksz then (False, a)
      else let v = keyver k in
        if oldkeep a = 0 then (False, if v \<le> oldk a then a\<lparr>oldkeep := v\<rparr> else a)
        else (v < oldkeep a, a))"

section \<open>Transactions\<close>

definition begin_tx :: "unit om" where
  "begin_tx =
     bindM (gett over) (\<lambda>ver. if ver \<noteq> 0 then retM () else
     bindM (gett ostore) (\<lambda>store.
     bindM (getw otxs) (\<lambda>os. if \<exists>x \<in> set os. snd x = store then failM (Err ''object store busy'') else
     bindM (modt (\<lambda>tx. tx\<lparr>oabort := True\<rparr>)) (\<lambda>_.
     bindM (getw tree) (\<lambda>t.
     bindM (liftM (gethdr t store)) (\<lambda>h.
     bindM (if hw h > hn h then sweep (hkey store) dropunpub (hn h) else retM ()) (\<lambda>_.
     let h = h\<lparr>hw := hn h + 1\<rparr> in
     bindM (puthdr store h) (\<lambda>_.
     bindM (modt (\<lambda>tx. tx\<lparr>over := hw h, oents := [], obytes := 0, onewuser := False\<rparr>)) (\<lambda>_.
     bindM (gett oaddr) (\<lambda>addr.
     modw (\<lambda>w. w\<lparr>otxs := (addr, store) # otxs w\<rparr>)))))))))))"

definition endtx :: "unit om" where
  "endtx =
     bindM (gett oaddr) (\<lambda>addr.
     bindM (modw (\<lambda>w. w\<lparr>otxs := filter (\<lambda>x. fst x \<noteq> addr) (otxs w)\<rparr>)) (\<lambda>_.
     modt (\<lambda>tx. tx\<lparr>over := 0, omb := [], orec := [], oleft := 0, oinuser := 0, oents := []\<rparr>)))"

definition addent :: "u64 \<Rightarrow> u32 \<Rightarrow> unit om" where
  "addent x n = modt (\<lambda>tx. tx\<lparr>oents := oents tx @ [\<lparr>eoid = x, enidx = n\<rparr>]\<rparr>)"

fun addkeys :: "bytes list \<Rightarrow> unit om" where
  "addkeys [] = retM ()"
| "addkeys (k # ks) = bindM (addmsg Oclobber k []) (\<lambda>_. addkeys ks)"

definition txkeys :: "Otx \<Rightarrow> bytes list" where
  "txkeys tx = concat (map (\<lambda>e. map (\<lambda>i. packkey (ostore tx) (eoid e) (over tx) (of_nat i)) [0 ..< unat (enidx e)]) (oents tx))"

definition abort1 :: "unit om" where
  "abort1 =
     bindM (gett over) (\<lambda>ver. if ver = 0 then retM () else
     bindM (catchM (
       bindM (modt (\<lambda>tx. tx\<lparr>omb := []\<rparr>)) (\<lambda>_.
       bindM (gett txkeys) (\<lambda>ks.
       bindM (addkeys ks) (\<lambda>_.
       bindM flushtx (\<lambda>_.
       bindM (gett ostore) (\<lambda>store.
       bindM (getw tree) (\<lambda>t.
       bindM (liftM (gethdr t store)) (\<lambda>h.
       puthdr store (h\<lparr>hw := hn h\<rparr>)))))))))
       (\<lambda>e. bindM endtx (\<lambda>_. failM (Err e)))) (\<lambda>_.
     endtx))"

definition putchunk :: "unit om" where
  "putchunk =
     bindM (gett (\<lambda>tx. packkey (ostore tx) (ooid tx) (over tx) (oidx tx))) (\<lambda>k.
     bindM (gett ochunk) (\<lambda>c.
     bindM (addmsg Oinsert k c) (\<lambda>_.
     modt (\<lambda>tx. tx\<lparr>oidx := oidx tx + 1, ochunk := []\<rparr>))))"

text \<open>The versions of the objects of the transaction that no kept version shows.\<close>

fun sweepents :: "u64 \<Rightarrow> u64 \<Rightarrow> Oent list \<Rightarrow> unit om" where
  "sweepents store k [] = retM ()"
| "sweepents store k (e # es) =
     bindM (sweep (oidkey store (eoid e)) dropold \<lparr>oldk = k, oldkeep = 0\<rparr>) (\<lambda>_. sweepents store k es)"

definition newhdr :: "Otx \<Rightarrow> Ohdr \<Rightarrow> Ohdr" where
  "newhdr tx h =
     (let h = h\<lparr>hn := over tx\<rparr>;
          h = (if hn h \<ge> Objkeep \<and> hk h < hn h - Objkeep + 1 then h\<lparr>hk := hn h - Objkeep + 1\<rparr> else h);
          h = (if hk h = 0 then h\<lparr>hk := 1\<rparr> else h) in
      if onewuser tx then h\<lparr>huser := ouser tx\<rparr> else h)"

definition commit :: "unit om" where
  "commit =
     bindM (gett over) (\<lambda>ver. if ver = 0 then retM () else
     bindM flushtx (\<lambda>_.
     bindM (gett ostore) (\<lambda>store.
     bindM (getw tree) (\<lambda>t.
     bindM (liftM (gethdr t store)) (\<lambda>h.
     if hw h \<noteq> ver then failM Ecorrupt else
     bindM (gett (\<lambda>tx. newhdr tx h)) (\<lambda>h.
     bindM (puthdr store h) (\<lambda>_.
     bindM (modt (\<lambda>tx. tx\<lparr>over := 0\<rparr>)) (\<lambda>_.
     bindM (catchM (
       bindM (getw objfail) (\<lambda>f.
       if f then bindM (modw (\<lambda>w. w\<lparr>objfail := False\<rparr>)) (\<lambda>_. failM (Err ''objfail: history sweep''))
       else bindM (gett oents) (\<lambda>es. sweepents store (hk h) es)))
       (\<lambda>_. modt (\<lambda>tx. tx\<lparr>omb := []\<rparr>))) (\<lambda>_.
     endtx)))))))))"

section \<open>The write stream\<close>

abbreviation (input) chr :: "char \<Rightarrow> byte" where "chr c \<equiv> of_nat (of_char c)"

definition recneed :: "byte \<Rightarrow> nat option" where
  "recneed c =
     (if c = chr (CHR ''p'') then Some 17
      else if c = chr (CHR ''d'') \<or> c = chr (CHR ''v'') \<or> c = chr (CHR ''s'') then Some 9
      else if c = chr (CHR ''h'') then Some 5
      else if c = chr (CHR ''c'') then Some 2
      else if c = chr (CHR ''a'') then Some 1
      else None)"

text \<open>The handling of a whole record; the result is \<open>Some\<close> the new value of \<open>sync\<close> after a commit.\<close>

definition dorec :: "bytes \<Rightarrow> bool option om" where
  "dorec r =
     (let c = r ! 0 in
      if c = chr (CHR ''p'') then
        bindM begin_tx (\<lambda>_.
        bindM (modt (\<lambda>tx. tx\<lparr>ooid := UNPACK64 (drop 1 r), oleft := sint (UNPACK64 (drop 9 r))\<rparr>)) (\<lambda>_.
        bindM (gett oleft) (\<lambda>l.
        bindM (gett obytes) (\<lambda>b.
        if l < 0 \<or> l > Objtxmax \<or> b + l > Objtxmax then failM (Err ''object transaction too big'') else
        bindM hasroom (\<lambda>room. if \<not> room then failM Efull else
        bindM (modt (\<lambda>tx. tx\<lparr>obytes := b + l, oidx := 0, ochunk := PACK32 (of_int l)\<rparr>)) (\<lambda>_.
        bindM (gett ooid) (\<lambda>x.
        bindM (addent x 1) (\<lambda>_.
        bindM (if l = 0 then putchunk else retM ()) (\<lambda>_. retM None)))))))))
      else if c = chr (CHR ''d'') then
        bindM begin_tx (\<lambda>_.
        bindM (modt (\<lambda>tx. tx\<lparr>ooid := UNPACK64 (drop 1 r), oidx := 0, ochunk := PACK32 Objtomb\<rparr>)) (\<lambda>_.
        bindM putchunk (\<lambda>_.
        bindM (gett ooid) (\<lambda>x.
        bindM (addent x 1) (\<lambda>_. retM None)))))
      else if c = chr (CHR ''h'') then
        bindM begin_tx (\<lambda>_.
        bindM (modt (\<lambda>tx. tx\<lparr>oinuser := sint (UNPACK32 (drop 1 r))\<rparr>)) (\<lambda>_.
        bindM (gett oinuser) (\<lambda>n.
        if n < 0 \<or> n > int Objuser then failM (Err ''object header too big'') else
        bindM (modt (\<lambda>tx. tx\<lparr>ouser := [], onewuser := True\<rparr>)) (\<lambda>_. retM None))))
      else if c = chr (CHR ''c'') then bindM commit (\<lambda>_. retM (Some (bit (r ! 1) 0)))
      else if c = chr (CHR ''a'') then bindM abort1 (\<lambda>_. retM None)
      else if c = chr (CHR ''v'') then bindM (modt (\<lambda>tx. tx\<lparr>oselver := UNPACK64 (drop 1 r)\<rparr>)) (\<lambda>_. retM None)
      else bindM (modt (\<lambda>tx. tx\<lparr>oseloid := UNPACK64 (drop 1 r), osel := True\<rparr>)) (\<lambda>_. retM None))"

text \<open>
  One turn of the loop of \<open>objwrite\<close>: an object's data, the header's data, or a record.  The result is the
  data still to be read and \<open>sync\<close>.  The arrays hold \<open>Objchunk\<close>, \<open>Objuser\<close> and 17 bytes.
\<close>

definition wdata :: "bytes \<Rightarrow> bytes om" where
  "wdata p =
     bindM (gett (\<lambda>tx. min (min (Objchunk - length (ochunk tx)) (nat (oleft tx))) (length p))) (\<lambda>n.
     bindM (modt (\<lambda>tx. tx\<lparr>ochunk := ochunk tx @ take n p, oleft := oleft tx - int n\<rparr>)) (\<lambda>_.
     bindM (gett (\<lambda>tx. (length (ochunk tx), oleft tx))) (\<lambda>(nchunk, l).
     bindM (if nchunk = Objchunk \<or> l = 0 then putchunk else retM ()) (\<lambda>_.
     bindM (if l = 0 then
       bindM (gett oents) (\<lambda>es. if es = [] then failM Wild
         else modt (\<lambda>tx. tx\<lparr>oents := es[length es - 1 := (last es)\<lparr>enidx := oidx tx\<rparr>]\<rparr>))
       else retM ()) (\<lambda>_.
     retM (drop n p))))))"

definition wuserdata :: "bytes \<Rightarrow> bytes om" where
  "wuserdata p =
     bindM (gett (\<lambda>tx. min (nat (oinuser tx)) (length p))) (\<lambda>n.
     bindM (gett ouser) (\<lambda>u.
     if Objuser < length u + n then failM Wild else
     bindM (modt (\<lambda>tx. tx\<lparr>ouser := ouser tx @ take n p, oinuser := oinuser tx - int n\<rparr>)) (\<lambda>_.
     retM (drop n p))))"

definition wrec :: "bytes \<Rightarrow> (bytes \<times> bool option) om" where
  "wrec p =
     bindM (gett orec) (\<lambda>r.
     let (r, p) = (if r = [] then (take 1 p, drop 1 p) else (r, p)) in
     case recneed (r ! 0) of
       None \<Rightarrow> bindM (modt (\<lambda>tx. tx\<lparr>orec := r\<rparr>)) (\<lambda>_. failM (Err ''object record: unknown type''))
     | Some need \<Rightarrow>
         (let n = min (need - length r) (length p); r = r @ take n p; p = drop n p in
          if 17 < length r then failM Wild
          else if length r < need then bindM (modt (\<lambda>tx. tx\<lparr>orec := r\<rparr>)) (\<lambda>_. retM (p, None))
          else bindM (modt (\<lambda>tx. tx\<lparr>orec := []\<rparr>)) (\<lambda>_. bindM (dorec r) (\<lambda>sy. retM (p, sy)))))"

definition wturn :: "bytes \<Rightarrow> (bytes \<times> bool option) om" where
  "wturn p =
     bindM (gett (\<lambda>tx. (oleft tx, oinuser tx))) (\<lambda>(l, u).
     if l > 0 then bindM (wdata p) (\<lambda>p. retM (p, None))
     else if u > 0 then bindM (wuserdata p) (\<lambda>p. retM (p, None))
     else wrec p)"

text \<open>The loop takes a byte at least in each turn.\<close>

fun wloop :: "nat \<Rightarrow> bytes \<Rightarrow> bool \<Rightarrow> bool om" where
  "wloop n [] sy = retM sy"
| "wloop 0 (b # p) sy = failM Panic"
| "wloop (Suc n) (b # p) sy =
     bindM (wturn (b # p)) (\<lambda>(p, s). wloop n p (case s of None \<Rightarrow> sy | Some s \<Rightarrow> s))"

text \<open>\<open>objwrite\<close>: \<open>True\<close> when the reply waits for a sync.\<close>

definition objwrite :: "bytes \<Rightarrow> int \<Rightarrow> bool om" where
  "objwrite data wk =
     bindM (modt (\<lambda>tx. tx\<lparr>owk := wk\<rparr>)) (\<lambda>_.
     catchM (bindM (wloop (length data) data False) (\<lambda>sy. bindM flushtx (\<lambda>_. retM sy)))
       (\<lambda>e. bindM (catchM abort1 (\<lambda>_. retM ())) (\<lambda>_. bindM endtx (\<lambda>_. failM (Err e)))))"

text \<open>A fid's first use of the store, \<open>gettx\<close>.\<close>

definition newtx :: "nat \<Rightarrow> u64 \<Rightarrow> Otx" where
  "newtx addr store = \<lparr>oaddr = addr, ostore = store, over = 0, oabort = False, oents = [], obytes = 0, onewuser = False, ouser = [],
     orec = [], ooid = 0, oleft = 0, oidx = 0, ochunk = [], oinuser = 0, owk = -1, onflush = 0, omb = [], oselver = 0, oseloid = 0,
     osel = False, oscan = None, oroff = 0, orver = 0, oroid = 0, orcver = 0, oridx = 0, orstate = Rseek, orleft = 0, opend = []\<rparr>"

section \<open>The read stream\<close>

text \<open>
  \<open>emit\<close>: what fits into the \<open>room\<close> left in the reply, and the transaction with the rest put off; the flag is the
  return value.  \<open>pend\<close> holds \<open>Objrhdr + Objchunk\<close> bytes.
\<close>

definition emit :: "Otx \<Rightarrow> nat \<Rightarrow> bytes \<Rightarrow> (bool \<times> bytes \<times> Otx) res" where
  "emit tx room s =
     (if length s \<le> room then Inr (True, s, tx)
      else if Objrhdr + Objchunk < length (drop room s) then Inl Wild
      else Inr (False, take room s, tx\<lparr>opend := drop room s\<rparr>))"

text \<open>
  What the loop of \<open>objread\<close> does with an entry: \<open>Inl\<close> an error, or the transaction and what is to be sent, if anything.
\<close>

definition rentry :: "Otx \<Rightarrow> Kvp \<Rightarrow> (Otx \<times> bytes option) res" where
  "rentry tx e =
     (let k = kk e; v = kv e in
      if length k \<noteq> Objksz then Inr (tx, None)
      else
        let x = UNPACK64 (drop 9 k); ver = keyver k; idx = UNPACK32 (drop 25 k);
            tx = (if x \<noteq> oroid tx then tx\<lparr>oroid := x, orstate := Rseek\<rparr> else tx) in
        if orstate tx = Rskip \<or> ver > orver tx then Inr (tx, None)
        else if orstate tx = Rseek then
          (if idx \<noteq> 0 \<or> length v < 4 then Inr (tx, None)
           else
             let len = UNPACK32 v; tx = tx\<lparr>orstate := Rskip\<rparr> in
             if len = Objtomb then Inr (tx, None)
             else
               let n = min (length v - 4) (unat len);
                   tx = tx\<lparr>orleft := int (unat len) - int n\<rparr>;
                   tx = (if orleft tx > 0 then tx\<lparr>orstate := Rdata, oridx := 1, orcver := ver\<rparr> else tx) in
               if Objchunk < n then Inl Wild
               else Inr (tx, Some (chr (CHR ''o'') # PACK64 x @ PACK64 ver @ PACK64 (ucast len) @ take n (drop 4 v))))
        else if ver \<noteq> orcver tx \<or> idx \<noteq> oridx tx then Inl Ecorrupt
        else
          let n = min (length v) (nat (orleft tx));
              tx = tx\<lparr>orleft := orleft tx - int n, oridx := oridx tx + 1\<rparr> in
          Inr (if orleft tx = 0 then tx\<lparr>orstate := Rskip\<rparr> else tx, Some (take n v)))"

definition atkey :: "bytes \<Rightarrow> Otx \<Rightarrow> Otx" where
  "atkey k tx = tx\<lparr>oscan := map_option (\<lambda>s. s\<lparr>sclast := Some k\<rparr>) (oscan tx)\<rparr>"

text \<open>The loop, over the entries \<open>btnext\<close> gives; the transaction is kept when there is an error.\<close>

fun rloop :: "Kvp list \<Rightarrow> nat \<Rightarrow> bytes \<Rightarrow> Otx \<Rightarrow> bytes res \<times> Otx" where
  "rloop es 0 out tx = (Inr out, tx)"
| "rloop [] (Suc r) out tx = (Inr out, tx\<lparr>oscan := map_option (\<lambda>s. s\<lparr>scdone := True\<rparr>) (oscan tx)\<rparr>)"
| "rloop (e # es) (Suc r) out tx =
     (case rentry (atkey (kk e) tx) e of
        Inl f \<Rightarrow> (Inl f, atkey (kk e) tx)
      | Inr (tx, None) \<Rightarrow> rloop es (Suc r) out tx
      | Inr (tx, Some b) \<Rightarrow>
          (case emit tx (Suc r) b of
             Inl f \<Rightarrow> (Inl f, tx)
           | Inr (whole, b, tx) \<Rightarrow> if whole then rloop es (Suc r - length b) (out @ b) tx else (Inr (out @ b), tx)))"

text \<open>The start of a read: the version and the object chosen, and the header.\<close>

definition rstart :: "Kvp list \<Rightarrow> nat \<Rightarrow> Otx \<Rightarrow> bytes res \<times> Otx" where
  "rstart t cnt tx =
     (case gethdr t (ostore tx) of
        Inl f \<Rightarrow> (Inl f, tx)
      | Inr h \<Rightarrow>
          (let v = (if oselver tx \<noteq> 0 then oselver tx else hn h); tx = tx\<lparr>oselver := 0\<rparr> in
           if v > hn h \<or> v < hk h \<and> v \<noteq> 0 then (Inl (Err ''object version not kept''), tx\<lparr>osel := False\<rparr>)
           else
             let pfx = (if osel tx then oidkey (ostore tx) (oseloid tx) else hkey (ostore tx));
                 tx = tx\<lparr>oscan := Some \<lparr>scpfx = pfx, sclast = None, scdone = False\<rparr>, osel := False, orver := v, oroff := 0,
                   oroid := -1, orstate := Rskip, opend := []\<rparr> in
             case emit tx cnt (chr (CHR ''H'') # PACK64 v @ PACK64 (hk h) @ PACK32 (of_nat (length (huser h))) @ huser h) of
               Inl f \<Rightarrow> (Inl f, tx)
             | Inr (_, b, tx) \<Rightarrow> (Inr b, tx)))"

definition rcont :: "nat \<Rightarrow> int \<Rightarrow> Otx \<Rightarrow> bytes res \<times> Otx" where
  "rcont cnt off tx =
     (if oscan tx = None \<or> off \<noteq> oroff tx then (Inl Edscan, tx)
      else if opend tx = [] then (Inr [], tx)
      else case emit (tx\<lparr>opend := []\<rparr>) cnt (opend tx) of
        Inl f \<Rightarrow> (Inl f, tx)
      | Inr (_, b, tx) \<Rightarrow> (Inr b, tx))"

text \<open>
  One read.  The writer may change the tree meanwhile: \<open>t0\<close> is the tree when the header is read first, \<open>t1\<close> when the scan is
  entered and \<open>t2\<close> at the end.
\<close>

definition objread :: "Kvp list \<Rightarrow> Kvp list \<Rightarrow> Kvp list \<Rightarrow> nat \<Rightarrow> int \<Rightarrow> Otx \<Rightarrow> bytes res \<times> Otx" where
  "objread t0 t1 t2 cnt off tx =
     (case (if off = 0 then rstart t0 cnt tx else rcont cnt off tx) of
        (Inl f, tx) \<Rightarrow> (Inl f, tx)
      | (Inr out, tx) \<Rightarrow>
          (case (case oscan tx of
                   None \<Rightarrow> (Inl Wild, tx)
                 | Some s \<Rightarrow> if opend tx = [] \<and> \<not> scdone s then rloop (scanned (scpfx s) (sclast s) t1) (cnt - length out) out tx
                            else (Inr out, tx)) of
             (Inl f, tx) \<Rightarrow> (Inl f, tx)
           | (Inr out, tx) \<Rightarrow>
               (case gethdr t2 (ostore tx) of
                  Inl f \<Rightarrow> (Inl f, tx)
                | Inr h \<Rightarrow> if orver tx \<noteq> 0 \<and> orver tx < hk h then (Inl (Err ''object version not kept''), tx)
                          else (Inr out, tx\<lparr>oroff := oroff tx + int (length out)\<rparr>))))"

section \<open>The end of a fid and of a store\<close>

text \<open>
  \<open>objclunk\<close>: the fid's transaction, if it is to be aborted by the sweeper.  \<open>isobj\<close> says that the file is a store, \<open>busy\<close>
  that the caller already has a message for the sweeper.
\<close>

definition objclunk :: "bool \<Rightarrow> Otx option \<Rightarrow> bool \<Rightarrow> Otx option \<times> Otx option" where
  "objclunk isobj aux busy =
     (case aux of
        None \<Rightarrow> (None, None)
      | Some tx \<Rightarrow> if \<not> isobj then (aux, None)
                  else if over tx = 0 \<or> busy then (None, None)
                  else (None, Some (tx\<lparr>oscan := None, oabort := False\<rparr>)))"

definition objpending :: "u64 \<Rightarrow> bytes" where
  "objpending q = Kobj # PACK64 (-1) @ PACK64 q"

text \<open>\<open>objsweep\<close> on a transaction given up by its fid: it ends whatever happens.\<close>

definition objsweep_abort :: "int \<Rightarrow> unit om" where
  "objsweep_abort wk =
     catchM (bindM (modt (\<lambda>tx. tx\<lparr>owk := wk\<rparr>)) (\<lambda>_. abort1)) (\<lambda>e. bindM endtx (\<lambda>_. failM (Err e)))"

text \<open>
  \<open>objsweep\<close> on a removed store, with a transaction structure of its own for the messages.  \<open>drainrange\<close>, which comes
  last, moves messages towards the leaves and leaves the entries as they are; it is not part of this.
\<close>

definition objsweep_clear :: "u64 \<Rightarrow> unit om" where
  "objsweep_clear q =
     bindM (sweep (hkey q) dropall ()) (\<lambda>_.
     bindM (addmsg Oclobber (objpending q) []) (\<lambda>_. flushtx))"

definition objabortfid :: "bool \<Rightarrow> int \<Rightarrow> unit om" where
  "objabortfid isobj wk =
     bindM (gett over) (\<lambda>ver. if \<not> isobj \<or> ver = 0 then retM ()
     else bindM (modt (\<lambda>tx. tx\<lparr>owk := wk\<rparr>)) (\<lambda>_. abort1))"

text \<open>\<open>objresume\<close>: the stores whose removal is to be resumed.\<close>

definition objpendings :: "Kvp list \<Rightarrow> u64 list" where
  "objpendings t = map (\<lambda>e. UNPACK64 (drop 9 (kk e))) (filter (\<lambda>e. length (kk e) = Objoidksz) (scanned (Kobj # PACK64 (-1)) None t))"

fun objresume :: "nat \<Rightarrow> int \<Rightarrow> u64 list \<Rightarrow> Ow \<Rightarrow> Ow" where
  "objresume addr wk [] w = w"
| "objresume addr wk (q # qs) w = objresume addr wk qs (fst (snd (objsweep_clear q (w, (newtx addr 0)\<lparr>owk := wk\<rparr>))))"

end
