(* ===== verification/Gefs_Objkeys.thy ===== *)
theory Gefs_Objkeys
  imports Gefs_Obj
begin

text \<open>
  The keys of an object store: they are told apart by their fields, and in the order of the tree an
  object's keys are together, its newest version first, each version's chunks in order.  Then what a
  version of the store shows, and what may happen to the tree.
\<close>

section \<open>Big-endian numbers in order\<close>

fun be :: "bytes \<Rightarrow> nat" where
  "be [] = 0"
| "be (b # bs) = unat b * 256 ^ length bs + be bs"

lemma be_less: "be bs < 256 ^ length bs"
proof (induction bs)
  case (Cons b bs)
  have "unat b * 256 ^ length bs + be bs < unat b * 256 ^ length bs + 256 ^ length bs" using Cons by simp
  also have "\<dots> = Suc (unat b) * 256 ^ length bs" by simp
  also have "\<dots> \<le> 256 * 256 ^ length bs" using unat_bounds(1) [of b] by (intro mult_right_mono) auto
  finally show ?case by simp
qed simp

lemma be_mono: "length xs = length ys \<Longrightarrow> xs < ys \<longleftrightarrow> be xs < be ys"
proof (induction xs ys rule: list_induct2)
  case (Cons x xs y ys)
  have lt: "be (x # xs) < be (y # ys)" if "length xs = length ys" "x < y" for x y :: byte and xs ys :: bytes
  proof -
    have "be (x # xs) < Suc (unat x) * 256 ^ length ys" using be_less [of xs] that by simp
    also have "\<dots> \<le> unat y * 256 ^ length ys" using that(2) by (intro mult_right_mono) (auto simp: word_less_nat_alt)
    finally show ?thesis by simp
  qed
  show ?case
  proof (cases x y rule: linorder_cases)
    case less
    then show ?thesis using lt [OF Cons.hyps less] by simp
  next
    case equal
    then show ?thesis using Cons by simp
  next
    case greater
    then show ?thesis using lt [OF Cons.hyps [symmetric] greater] by auto
  qed
qed simp

lemma be_append: "be (xs @ ys) = be xs * 256 ^ length ys + be ys"
  by (induction xs) (simp_all add: algebra_simps power_add)

lemma unat_drop_bit: "unat (drop_bit n (v :: 'a::len word)) = unat v div 2 ^ n"
proof -
  have "take_bit LENGTH('a) (unat v) = unat v" using unsigned_less [of v, where 'a = nat] by (simp add: take_bit_nat_eq_self_iff)
  then show ?thesis unfolding unsigned_drop_bit_eq by (simp add: drop_bit_eq_div)
qed

lemma unat_byte: "unat (ucast (drop_bit n (v :: 'a::len word)) :: byte) = unat v div 2 ^ n mod 256"
  by (simp only: unsigned_ucast_eq unat_drop_bit) (simp add: take_bit_eq_mod)

lemma be_PACK32: "be (PACK32 v) = unat v"
proof -
  define n where "n = unat v"
  have b: "unat (ucast v :: byte) = n mod 256" using unat_byte [of 0 v] by (simp add: n_def)
  have d: "n div 65536 = n div 256 div 256" "n div 16777216 = n div 256 div 256 div 256" by (simp_all flip: div_mult2_eq)
  have "n div 256 div 256 div 256 < 256" using unat_bounds(3) [of v] by (simp add: n_def flip: div_mult2_eq)
  then have "n div 256 div 256 div 256 mod 256 = n div 256 div 256 div 256" by simp
  moreover have "n = n div 256 * 256 + n mod 256" "n div 256 = n div 256 div 256 * 256 + n div 256 mod 256"
    "n div 256 div 256 = n div 256 div 256 div 256 * 256 + n div 256 div 256 mod 256" by (simp_all only: div_mult_mod_eq)
  ultimately have "n = (n div 256 div 256 div 256 mod 256) * 16777216 + (n div 256 div 256 mod 256) * 65536 + (n div 256 mod 256) * 256 + n mod 256"
    by linarith
  then show ?thesis by (simp add: PACK32_def unat_byte b d flip: n_def)
qed

lemma be_PACK64: "be (PACK64 v) = unat v"
proof -
  have "unat (ucast (drop_bit 32 v) :: u32) = unat v div 4294967296"
    using unsigned_less [of v, where 'a = nat] by (simp only: unsigned_ucast_eq unat_drop_bit) (simp add: take_bit_eq_mod)
  moreover have "unat (ucast v :: u32) = unat v mod 4294967296" by (simp add: unsigned_ucast_eq take_bit_eq_mod)
  ultimately show ?thesis by (simp add: PACK64_halves be_append be_PACK32)
qed

lemma PACK64_less: "PACK64 a < PACK64 b \<longleftrightarrow> a < b"
  by (simp add: be_mono be_PACK64 word_less_nat_alt)

lemma PACK32_less: "PACK32 a < PACK32 b \<longleftrightarrow> a < b"
  by (simp add: be_mono be_PACK32 word_less_nat_alt)

lemma append_less: "length xs = length ys \<Longrightarrow> xs @ us < ys @ vs \<longleftrightarrow> xs < ys \<or> xs = ys \<and> us < vs" for xs ys :: bytes
  by (induction xs ys rule: list_induct2) auto

section \<open>Keys\<close>

lemma PACK64_inject [simp]: "PACK64 a = PACK64 b \<longleftrightarrow> a = b"
  by (metis UNPACK_PACK_Nil(4))

lemma PACK32_inject [simp]: "PACK32 a = PACK32 b \<longleftrightarrow> a = b"
  by (metis UNPACK_PACK_Nil(3))

lemma length_keys [simp]: "length (packkey s x v i) = Objksz" "length (hkey s) = Objhdrksz" "length (oidkey s x) = Objoidksz"
  by (simp_all add: packkey_def hkey_def oidkey_def)

lemma packkey_inject [simp]: "packkey s x v i = packkey s' x' v' i' \<longleftrightarrow> s = s' \<and> x = x' \<and> v = v' \<and> i = i'"
  by (auto simp: packkey_def)

lemma packkey_hkey [simp]: "packkey s x v i \<noteq> hkey s'" "hkey s' \<noteq> packkey s x v i"
  by (rule notI, drule arg_cong [where f = length], simp)+

lemma hasprefix_append: "hasprefix p (p @ q)" "hasprefix p k \<longleftrightarrow> (\<exists>q. k = p @ q)"
proof -
  show "hasprefix p (p @ q)" by (simp add: hasprefix_def)
  show "hasprefix p k \<longleftrightarrow> (\<exists>q. k = p @ q)" unfolding hasprefix_def by (metis append_take_drop_id append_eq_conv_conj length_append le_add1)
qed

lemma packkey_split: "packkey s x v i = hkey s @ PACK64 x @ PACK64 (NOT v) @ PACK32 i" "packkey s x v i = oidkey s x @ PACK64 (NOT v) @ PACK32 i"
  "oidkey s x = hkey s @ PACK64 x"
  by (simp_all add: packkey_def hkey_def oidkey_def)

lemma prefix_packkey [simp]: "hasprefix (hkey s) (packkey s' x v i) \<longleftrightarrow> s' = s" "hasprefix (oidkey s y) (packkey s' x v i) \<longleftrightarrow> s' = s \<and> x = y"
  "hasprefix (hkey s) (hkey s') \<longleftrightarrow> s' = s"
  by (auto simp: hasprefix_def packkey_def hkey_def oidkey_def)

lemma be_inj: "length xs = length ys \<Longrightarrow> be xs = be ys \<Longrightarrow> xs = ys"
  using be_mono [of xs ys] be_mono [of ys xs] by auto

lemma PACK64_surj: "length b = 8 \<Longrightarrow> \<exists>v. b = PACK64 v"
  using be_less [of b] by (intro exI [of _ "of_nat (be b)"] be_inj) (simp_all add: be_PACK64 unat_of_nat)

lemma PACK32_surj: "length b = 4 \<Longrightarrow> \<exists>v. b = PACK32 v"
  using be_less [of b] by (intro exI [of _ "of_nat (be b)"] be_inj) (simp_all add: be_PACK32 unat_of_nat)

lemma packkey_surj: "hasprefix (hkey s) k \<Longrightarrow> length k = Objksz \<Longrightarrow> \<exists>x v i. k = packkey s x v i"
proof -
  assume "hasprefix (hkey s) k" "length k = Objksz"
  then obtain q where q: "k = hkey s @ q" "length q = 20" by (auto simp: hasprefix_append(2))
  then have "q = take 8 q @ take 8 (drop 8 q) @ drop 16 q" by (metis append_take_drop_id drop_drop numeral_Bit0 add.commute)
  moreover obtain x v i where "take 8 q = PACK64 x" "take 8 (drop 8 q) = PACK64 v" "drop 16 q = PACK32 i"
    using q PACK64_surj [of "take 8 q"] PACK64_surj [of "take 8 (drop 8 q)"] PACK32_surj [of "drop 16 q"] by auto
  ultimately have "k = packkey s x (NOT v) i" using q(1) by (simp add: packkey_split)
  then show ?thesis by blast
qed

lemma oidkey_surj: "hasprefix (oidkey s x) k \<Longrightarrow> length k = Objksz \<Longrightarrow> \<exists>v i. k = packkey s x v i"
proof -
  assume a: "hasprefix (oidkey s x) k" "length k = Objksz"
  then have "hasprefix (hkey s) k" by (auto simp: hasprefix_append(2) packkey_split(3))
  from packkey_surj [OF this a(2)] a(1) show ?thesis by auto
qed

lemma keyver_packkey [simp]: "keyver (packkey s x v i) = v"
  by (simp add: keyver_def packkey_def)

lemma packkey_less: "packkey s x v i < packkey s x' v' i' \<longleftrightarrow> x < x' \<or> x = x' \<and> (v' < v \<or> v = v' \<and> i < i')"
proof -
  have "take_bit 64 (uint u) = uint u" for u :: u64 using unsigned_less [of u, where 'a = int] by (simp add: take_bit_int_eq_self_iff)
  then have "NOT v < NOT v' \<longleftrightarrow> v' < v"
    by (simp add: word_less_def unsigned_not_eq take_bit_not_eq_mask_diff)
  then show ?thesis by (auto simp: packkey_def append_less PACK64_less PACK32_less)
qed

section \<open>What a version shows\<close>

definition chunk :: "Kvp list \<Rightarrow> u64 \<Rightarrow> u64 \<Rightarrow> u64 \<Rightarrow> u32 \<Rightarrow> bytes option" where
  "chunk r S x v i = lk r (packkey S x v i)"

text \<open>The object was written, or deleted, in the version: its first chunk is there.\<close>

definition has :: "Kvp list \<Rightarrow> u64 \<Rightarrow> u64 \<Rightarrow> u64 \<Rightarrow> bool" where
  "has r S x v \<longleftrightarrow> (case chunk r S x v 0 of None \<Rightarrow> False | Some c \<Rightarrow> 4 \<le> length c)"

lemma has_chunk: "has r S x v \<Longrightarrow> chunk r S x v 0 \<noteq> None"
  by (auto simp: has_def split: option.splits)

text \<open>The object's versions, newest first, and the newest up to \<open>v\<close>.\<close>

definition versions :: "Kvp list \<Rightarrow> u64 \<Rightarrow> u64 \<Rightarrow> u64 list" where
  "versions r S x = map (\<lambda>e. keyver (kk e)) (filter (\<lambda>e. length (kk e) = Objksz \<and> drop 25 (kk e) = PACK32 0 \<and> 4 \<le> length (kv e)) (scanned (oidkey S x) None r))"

definition newest :: "Kvp list \<Rightarrow> u64 \<Rightarrow> u64 \<Rightarrow> u64 \<Rightarrow> u64 option" where
  "newest r S v x = find (\<lambda>w. w \<le> v) (versions r S x)"

text \<open>
  What version \<open>v\<close> of the store \<open>S\<close> shows of the object \<open>x\<close>: the version that wrote it and the chunks of that version.
\<close>

definition view :: "Kvp list \<Rightarrow> u64 \<Rightarrow> u64 \<Rightarrow> u64 \<Rightarrow> (u64 \<times> (u32 \<Rightarrow> bytes option)) option" where
  "view r S v x = map_option (\<lambda>w. (w, chunk r S x w)) (newest r S v x)"

lemma versions_set: "kvsorted r \<Longrightarrow> set (versions r S x) = {w. has r S x w}"
proof (intro equalityI subsetI)
  fix w
  assume o: "kvsorted r"
  show "w \<in> {w. has r S x w}" if "w \<in> set (versions r S x)"
  proof -
    from that obtain e where e: "e \<in> set r" "hasprefix (oidkey S x) (kk e)" "length (kk e) = Objksz" "drop 25 (kk e) = PACK32 0" "4 \<le> length (kv e)" "w = keyver (kk e)"
      by (auto simp: versions_def scanned_def)
    from oidkey_surj [OF e(2,3)] obtain v i where k: "kk e = packkey S x v i" by blast
    then have "i = 0" using e(4) by (simp add: packkey_def)
    have "lk r (kk e) = Some (kv e)" using lk_set [OF o, of "kk e" "kv e"] e(1) by (cases e) simp
    with k \<open>i = 0\<close> e(5,6) show ?thesis by (simp add: has_def chunk_def)
  qed
  show "w \<in> set (versions r S x)" if "w \<in> {w. has r S x w}"
  proof -
    from that obtain c where c: "lk r (packkey S x w 0) = Some c" "4 \<le> length c" by (auto simp: has_def chunk_def split: option.splits)
    then have "\<lparr>kk = packkey S x w 0, kv = c\<rparr> \<in> set r" using lk_set [OF o] by blast
    then have "\<lparr>kk = packkey S x w 0, kv = c\<rparr> \<in> set (filter (\<lambda>e. length (kk e) = Objksz \<and> drop 25 (kk e) = PACK32 0 \<and> 4 \<le> length (kv e)) (scanned (oidkey S x) None r))"
      using c(2) by (simp add: scanned_def) (simp add: packkey_def)
    from imageI [OF this, of "\<lambda>e. keyver (kk e)"] show ?thesis by (simp add: versions_def)
  qed
qed

lemma versions_sorted: "kvsorted r \<Longrightarrow> sorted_wrt (>) (versions r S x)"
proof -
  assume o: "kvsorted r"
  let ?P = "\<lambda>e. length (kk e) = Objksz \<and> drop 25 (kk e) = PACK32 0 \<and> 4 \<le> length (kv e)" and ?es = "scanned (oidkey S x) None r"
  have "sorted_wrt (\<lambda>a b. kk a < kk b) (filter ?P ?es)" using ordered_scanned [OF o] by (simp add: kvsorted_def sorted_wrt_map sorted_wrt_filter)
  then have "sorted_wrt (\<lambda>a b. keyver (kk a) > keyver (kk b)) (filter ?P ?es)"
  proof (rule sorted_wrt_mono_rel [rotated])
    fix a b assume a: "a \<in> set (filter ?P ?es)" "b \<in> set (filter ?P ?es)" and l: "kk a < kk b"
    have "\<exists>v. kk e = packkey S x v 0" if "e \<in> set (filter ?P ?es)" for e
    proof -
      from that have e: "hasprefix (oidkey S x) (kk e)" "length (kk e) = Objksz" "drop 25 (kk e) = PACK32 0" by (auto simp: scanned_def)
      from oidkey_surj [OF e(1,2)] obtain v i where k: "kk e = packkey S x v i" by blast
      with e(3) have "i = 0" by (simp add: packkey_def)
      with k show ?thesis by blast
    qed
    from this [OF a(1)] this [OF a(2)] l show "keyver (kk b) < keyver (kk a)" by (auto simp: packkey_less)
  qed
  then show ?thesis by (simp add: versions_def sorted_wrt_map)
qed

lemma newest_Some: "kvsorted r \<Longrightarrow> newest r S v x = Some w \<longleftrightarrow> w \<le> v \<and> has r S x w \<and> (\<forall>w'. w < w' \<and> w' \<le> v \<longrightarrow> \<not> has r S x w')"
proof -
  assume o: "kvsorted r"
  have "find (\<lambda>w. w \<le> v) ws = Some w \<longleftrightarrow> w \<le> v \<and> w \<in> set ws \<and> (\<forall>w' \<in> set ws. w < w' \<longrightarrow> \<not> w' \<le> v)" if "sorted_wrt (>) ws" for ws :: "u64 list"
    using that by (induction ws) (auto split: if_splits)
  from this [OF versions_sorted [OF o]] show ?thesis unfolding newest_def versions_set [OF o] by auto
qed

lemma newest_None: "kvsorted r \<Longrightarrow> newest r S v x = None \<longleftrightarrow> (\<forall>w \<le> v. \<not> has r S x w)"
  using versions_set [of r S x] by (auto simp: newest_def find_None_iff)

text \<open>The versions that matter decide.\<close>

lemma newest_cong:
  assumes "kvsorted r" "kvsorted r'" "\<And>w. w \<le> v \<Longrightarrow> has r' S x w = has r S x w"
  shows "newest r' S v x = newest r S v x"
proof (cases "newest r S v x")
  case None
  then have "newest r' S v x = None" using assms(3) by (simp add: newest_None [OF assms(1)] newest_None [OF assms(2)])
  with None show ?thesis by simp
next
  case (Some w)
  then have "newest r' S v x = Some w" using assms(3) by (simp add: newest_Some [OF assms(1)] newest_Some [OF assms(2)])
  with Some show ?thesis by simp
qed

lemma view_cong:
  assumes "kvsorted r" "kvsorted r'" "\<And>w i. w \<le> v \<Longrightarrow> chunk r' S x w i = chunk r S x w i"
  shows "view r' S v x = view r S v x"
proof -
  have n: "newest r' S v x = newest r S v x" using assms by (intro newest_cong) (auto simp: has_def)
  have "w \<le> v" if "newest r S v x = Some w" for w using that newest_Some [OF assms(1)] by blast
  with n assms(3) show ?thesis by (cases "newest r S v x") (auto simp: view_def)
qed

text \<open>Versions below one that is there do not matter above it.\<close>

lemma view_above:
  assumes "kvsorted r" "kvsorted r'" "has r S x u" "u \<le> v" "\<And>w i. u \<le> w \<Longrightarrow> chunk r' S x w i = chunk r S x w i"
  shows "view r' S v x = view r S v x"
proof -
  have h: "has r' S x w = has r S x w" if "u \<le> w" for w using assms(5) [OF that] by (simp add: has_def)
  obtain w where w: "newest r S v x = Some w" using newest_None [OF assms(1), of S v x] assms(3,4) by (cases "newest r S v x") auto
  then have u: "u \<le> w" using newest_Some [OF assms(1), of S v x w] assms(3,4) by (meson not_le)
  have "newest r' S v x = Some w" using w u h newest_Some [OF assms(1), of S v x w] newest_Some [OF assms(2), of S v x w] by auto
  with w u assms(5) show ?thesis by (simp add: view_def) (auto simp: fun_eq_iff)
qed

end
