(* ===== verification/Gefs_Objstep.thy ===== *)
theory Gefs_Objstep
  imports Gefs_Objkeys
begin

text \<open>
  The steps of the tree under an object store: what each message may do to what the store's versions
  show, and the functions of \<open>obj.c\<close> that only add and flush messages.
\<close>

section \<open>Roots and steps\<close>

definition hdrof :: "u64 \<Rightarrow> Kvp list \<Rightarrow> Ohdr" where
  "hdrof S r = (case gethdr r S of Inr h \<Rightarrow> h | Inl _ \<Rightarrow> hdr0)"

text \<open>
  Every root: the header can be read, the last version begun is the published one or the next, and no object has been written
  in a later one.
\<close>

definition rootok :: "u64 \<Rightarrow> Kvp list \<Rightarrow> bool" where
  "rootok S r \<longleftrightarrow> kvsorted r \<and> gethdr r S = Inr (hdrof S r) \<and> hn (hdrof S r) \<le> hw (hdrof S r) \<and>
     (hw (hdrof S r) = hn (hdrof S r) \<or> hw (hdrof S r) = hn (hdrof S r) + 1) \<and> hk (hdrof S r) \<le> hn (hdrof S r) \<and>
     (\<forall>x v. has r S x v \<longrightarrow> v \<le> hw (hdrof S r))"

text \<open>
  No left-overs that matter: a chunk without the first chunk of its version is below a version that is there and is not newer
  than the oldest one kept.
\<close>

definition noleft :: "u64 \<Rightarrow> Kvp list \<Rightarrow> bool" where
  "noleft S r \<longleftrightarrow> (\<forall>x w i. w \<le> hn (hdrof S r) \<and> chunk r S x w i \<noteq> None \<and> \<not> has r S x w \<longrightarrow>
     (\<exists>u. w < u \<and> u \<le> hk (hdrof S r) \<and> has r S x u))"

text \<open>A step that publishes nothing: the published version shows what it did, and so do the older ones kept.\<close>

definition quiet :: "bool \<Rightarrow> u64 \<Rightarrow> Kvp list \<Rightarrow> Kvp list \<Rightarrow> bool" where
  "quiet cl S r r' \<longleftrightarrow> hn (hdrof S r') = hn (hdrof S r) \<and> hk (hdrof S r') = hk (hdrof S r) \<and>
     (\<forall>x. view r' S (hn (hdrof S r)) x = view r S (hn (hdrof S r)) x) \<and>
     (cl \<longrightarrow> (\<forall>v x. hk (hdrof S r) \<le> v \<and> v \<le> hn (hdrof S r) \<longrightarrow> view r' S v x = view r S v x))"

text \<open>The step that publishes: only the header changes, to the next version.\<close>

definition publishes :: "u64 \<Rightarrow> Kvp list \<Rightarrow> Kvp list \<Rightarrow> bool" where
  "publishes S r r' \<longleftrightarrow> hn (hdrof S r') = hn (hdrof S r) + 1 \<and> hn (hdrof S r) < hn (hdrof S r') \<and>
     hk (hdrof S r) \<le> hk (hdrof S r') \<and> (\<forall>k. k \<noteq> hkey S \<longrightarrow> lk r' k = lk r k)"

definition ostep :: "bool \<Rightarrow> u64 \<Rightarrow> Kvp list \<Rightarrow> Kvp list \<Rightarrow> bool" where
  "ostep cl S r r' \<longleftrightarrow> (\<forall>k. \<not> hasprefix (hkey S) k \<longrightarrow> lk r' k = lk r k) \<and> (quiet cl S r r' \<or> publishes S r r')"

section \<open>Messages\<close>

lemma gethdr_cong: "lk r' (hkey S) = lk r (hkey S) \<Longrightarrow> gethdr r' S = gethdr r S"
  by (simp add: gethdr_def)

lemma hdrof_cong: "lk r' (hkey S) = lk r (hkey S) \<Longrightarrow> hdrof S r' = hdrof S r"
  by (simp add: hdrof_def gethdr_def)

lemma gethdr_hdrof: "gethdr r S = Inr h \<Longrightarrow> hdrof S r = h"
  by (simp add: hdrof_def)

lemma UNPACK_packhdr: "length (huser h) \<le> Objuser \<Longrightarrow> lk r (hkey S) = Some (packhdr h) \<Longrightarrow> gethdr r S = Inr h"
  by (cases h) (simp add: gethdr_def packhdr_def)

lemma huser_bound: "gethdr r S = Inr h \<Longrightarrow> length (huser h) \<le> Objuser"
  by (auto simp: gethdr_def hdr0_def split: option.splits if_splits)

lemma chunk_kvmsg: "kvsorted r \<Longrightarrow> chunk (kvmsg m r) S y w j =
  (if kk m = packkey S y w j then (if mop m = Oinsert then Some (kv m) else None) else chunk r S y w j)"
  by (simp add: chunk_def lk_kvmsg)

text \<open>A message for an unpublished version.\<close>

lemma unpub_msg:
  assumes r: "rootok S r" and m: "kk m = packkey S x v i" "hn (hdrof S r) < v" "mop m = Oinsert \<Longrightarrow> v \<le> hw (hdrof S r)"
  shows "rootok S (kvmsg m r)" "ostep cl S r (kvmsg m r)" "hdrof S (kvmsg m r) = hdrof S r" "noleft S r \<Longrightarrow> noleft S (kvmsg m r)"
    "\<And>y w j. w \<noteq> v \<Longrightarrow> chunk (kvmsg m r) S y w j = chunk r S y w j"
proof -
  let ?r = "kvmsg m r"
  have o: "kvsorted r" "kvsorted ?r" using r by (auto simp: rootok_def)
  have l: "lk ?r k = lk r k" if "k \<noteq> packkey S x v i" for k using lk_kvmsg [OF o(1), of m k] m(1) that by simp
  have "lk ?r (hkey S) = lk r (hkey S)" by (rule l) simp
  note h = gethdr_cong [OF this] hdrof_cong [OF this]
  have c: "chunk ?r S y w j = chunk r S y w j" if "w \<noteq> v" for y w j using that by (auto simp: chunk_def l)
  have hs: "has ?r S y w = has r S y w" if "w \<noteq> v" for y w using c [OF that] by (simp add: has_def)
  show "chunk ?r S y w j = chunk r S y w j" if "w \<noteq> v" for y w j by (rule c [OF that])
  show "hdrof S ?r = hdrof S r" by (rule h(2))
  have "w \<le> hw (hdrof S r)" if "has ?r S y w" for y w
  proof (cases "w = v \<and> mop m = Oinsert")
    case False
    have "has r S y w" using that False m(1) o(1) by (cases "w = v") (auto simp: hs has_def chunk_kvmsg split: if_splits option.splits)
    then show ?thesis using r by (auto simp: rootok_def)
  qed (use m(3) in auto)
  then show "rootok S ?r" using r o(2) h by (auto simp: rootok_def)
  have v: "view ?r S w y = view r S w y" if "w \<le> hn (hdrof S r)" for y w using that m(2) by (intro view_cong o c) auto
  then have "quiet cl S r ?r" using h(2) by (simp add: quiet_def)
  moreover have "lk ?r k = lk r k" if "\<not> hasprefix (hkey S) k" for k using that by (intro l) auto
  ultimately show "ostep cl S r ?r" by (simp add: ostep_def)
  show "noleft S ?r" if n: "noleft S r" unfolding noleft_def
  proof (intro allI impI)
    fix y w j
    assume "w \<le> hn (hdrof S ?r) \<and> chunk ?r S y w j \<noteq> None \<and> \<not> has ?r S y w"
    then have a: "w \<le> hn (hdrof S r)" "chunk ?r S y w j \<noteq> None" "\<not> has ?r S y w" using h(2) by auto
    then have "w \<noteq> v" using m(2) by auto
    with a have "w \<le> hn (hdrof S r) \<and> chunk r S y w j \<noteq> None \<and> \<not> has r S y w" by (simp add: c hs)
    with n obtain u where u: "w < u" "u \<le> hk (hdrof S r)" "has r S y u" unfolding noleft_def by blast
    then have "u \<noteq> v" using r m(2) by (auto simp: rootok_def)
    with u h(2) hs show "\<exists>u. w < u \<and> u \<le> hk (hdrof S ?r) \<and> has ?r S y u" by auto
  qed
qed

text \<open>A clobber of a version below the oldest one kept that is there.\<close>

lemma old_msg:
  assumes r: "rootok S r" and m: "kk m = packkey S x w i" "mop m \<noteq> Oinsert" "w < hn (hdrof S r)" "has r S x (hn (hdrof S r))"
    and u: "cl \<Longrightarrow> w < u \<and> u \<le> hk (hdrof S r) \<and> has r S x u"
  shows "rootok S (kvmsg m r)" "ostep cl S r (kvmsg m r)" "hdrof S (kvmsg m r) = hdrof S r" "noleft S r \<Longrightarrow> cl \<Longrightarrow> noleft S (kvmsg m r)"
proof -
  let ?r = "kvmsg m r"
  have o: "kvsorted r" "kvsorted ?r" using r by (auto simp: rootok_def)
  have l: "lk ?r k = lk r k" if "k \<noteq> packkey S x w i" for k using lk_kvmsg [OF o(1), of m k] m(1) that by simp
  have "lk ?r (hkey S) = lk r (hkey S)" by (rule l) simp
  note h = gethdr_cong [OF this] hdrof_cong [OF this]
  have c: "chunk ?r S y v j = chunk r S y v j" if "y \<noteq> x \<or> v \<noteq> w" for y v j using that by (auto simp: chunk_def l)
  have hs: "has ?r S y v = has r S y v" if "y \<noteq> x \<or> v \<noteq> w" for y v using c [OF that] by (simp add: has_def)
  have hi: "has ?r S y v \<Longrightarrow> has r S y v" for y v using m(1,2) o(1) by (auto simp: has_def chunk_kvmsg split: if_splits option.splits)
  show "hdrof S ?r = hdrof S r" by (rule h(2))
  show "rootok S ?r" using r o(2) h hi by (auto simp: rootok_def)
  have "view ?r S v y = view r S v y" if "u' \<le> v" "w < u'" "has r S x u'" for y v u'
  proof (cases "y = x")
    case True
    show ?thesis unfolding True by (rule view_above [OF o that(3,1)], rule c) (use that(2) in auto)
  next
    case False
    then show ?thesis using c by (intro view_cong o) auto
  qed
  note v = this
  have "view ?r S (hn (hdrof S r)) y = view r S (hn (hdrof S r)) y" for y using v [OF _ m(3,4)] by simp
  moreover have "view ?r S v y = view r S v y" if cl "hk (hdrof S r) \<le> v" for v y using u [OF that(1)] that(2) by (intro v [of u]) auto
  ultimately have "quiet cl S r ?r" using h(2) by (simp add: quiet_def)
  moreover have "lk ?r k = lk r k" if "\<not> hasprefix (hkey S) k" for k using that by (intro l) auto
  ultimately show "ostep cl S r ?r" by (simp add: ostep_def)
  show "noleft S ?r" if n: "noleft S r" and cl unfolding noleft_def
  proof (intro allI impI)
    fix y v j
    assume a: "v \<le> hn (hdrof S ?r) \<and> chunk ?r S y v j \<noteq> None \<and> \<not> has ?r S y v"
    from u [OF \<open>cl\<close>] have u': "w < u" "u \<le> hk (hdrof S r)" "has ?r S x u" using hs [of x u] by auto
    show "\<exists>u. v < u \<and> u \<le> hk (hdrof S ?r) \<and> has ?r S y u"
    proof (cases "y = x \<and> v \<le> w")
      case True
      with u' h(2) show ?thesis by (intro exI [of _ u]) auto
    next
      case False
      then have "y \<noteq> x \<or> v \<noteq> w" by auto
      then have "v \<le> hn (hdrof S r) \<and> chunk r S y v j \<noteq> None \<and> \<not> has r S y v" using a h(2) c [of y v j] hs [of y v] by simp
      with n obtain t where t: "v < t" "t \<le> hk (hdrof S r)" "has r S y t" unfolding noleft_def by blast
      with False have "has ?r S y t" by (subst hs) auto
      with t h(2) show ?thesis by auto
    qed
  qed
qed

text \<open>A header.\<close>

lemma hdr_msg:
  assumes r: "rootok S r" and m: "m = \<lparr>kk = hkey S, kv = packhdr h, mop = Oinsert\<rparr>" "length (huser h) \<le> Objuser"
  shows "kvsorted (kvmsg m r)" "gethdr (kvmsg m r) S = Inr h" "hdrof S (kvmsg m r) = h" "\<And>k. k \<noteq> hkey S \<Longrightarrow> lk (kvmsg m r) k = lk r k"
    "\<And>x v i. chunk (kvmsg m r) S x v i = chunk r S x v i" "\<And>x v. has (kvmsg m r) S x v = has r S x v"
    "\<And>x v. view (kvmsg m r) S v x = view r S v x"
proof -
  let ?r = "kvmsg m r"
  have o: "kvsorted r" using r by (simp add: rootok_def)
  then show o': "kvsorted ?r" by simp
  have l: "lk ?r k = (if k = hkey S then Some (packhdr h) else lk r k)" for k using lk_kvmsg [OF o, of m k] m(1) by simp
  then show "lk ?r k = lk r k" if "k \<noteq> hkey S" for k using that by simp
  show "gethdr ?r S = Inr h" using l m(2) by (intro UNPACK_packhdr) auto
  then show "hdrof S ?r = h" by (rule gethdr_hdrof)
  show c: "chunk ?r S x v i = chunk r S x v i" for x v i by (simp add: chunk_def l)
  then show "has ?r S x v = has r S x v" for x v by (simp add: has_def)
  show "view ?r S v x = view r S v x" for x v by (rule view_cong [OF o o' c])
qed

lemma hdr_quiet:
  assumes r: "rootok S r" and m: "m = \<lparr>kk = hkey S, kv = packhdr h, mop = Oinsert\<rparr>" "h = (hdrof S r)\<lparr>hw := w\<rparr>"
    and w: "w = hn (hdrof S r) \<or> w = hn (hdrof S r) + 1 \<and> hn (hdrof S r) < w" "\<And>x v. has r S x v \<Longrightarrow> v \<le> w"
  shows "rootok S (kvmsg m r)" "ostep cl S r (kvmsg m r)" "noleft S r \<Longrightarrow> noleft S (kvmsg m r)"
proof -
  have g: "gethdr r S = Inr (hdrof S r)" using r by (simp add: rootok_def)
  have "length (huser h) \<le> Objuser" using huser_bound [OF g] m(2) by simp
  note f = hdr_msg [OF r m(1) this]
  show "rootok S (kvmsg m r)" using r f m(2) w by (auto simp: rootok_def)
  have "lk (kvmsg m r) k = lk r k" if "\<not> hasprefix (hkey S) k" for k using that by (intro f(4)) auto
  then show "ostep cl S r (kvmsg m r)" using f m(2) by (simp add: ostep_def quiet_def)
  show "noleft S r \<Longrightarrow> noleft S (kvmsg m r)" using f m(2) by (simp add: noleft_def)
qed

section \<open>Traces\<close>

text \<open>The roots the tree has had since \<open>r0\<close>, newest first.\<close>

definition traced :: "bool \<Rightarrow> u64 \<Rightarrow> Kvp list \<Rightarrow> Kvp list list \<Rightarrow> bool" where
  "traced cl S r0 rs \<longleftrightarrow> rs \<noteq> [] \<and> last rs = r0 \<and> (\<forall>r \<in> set rs. rootok S r) \<and> successively (\<lambda>r' r. ostep cl S r r') rs"

text \<open>Messages that may come in any order, as long as the roots satisfy \<open>I\<close>.\<close>

definition msgfits :: "bool \<Rightarrow> u64 \<Rightarrow> (Kvp list \<Rightarrow> bool) \<Rightarrow> Msg \<Rightarrow> bool" where
  "msgfits cl S I m \<longleftrightarrow> (\<forall>r. rootok S r \<and> I r \<longrightarrow> rootok S (kvmsg m r) \<and> ostep cl S r (kvmsg m r) \<and> I (kvmsg m r))"

lemma traced_Cons: "traced cl S r0 rs \<Longrightarrow> rootok S r \<Longrightarrow> ostep cl S (hd rs) r \<Longrightarrow> traced cl S r0 (r # rs)"
  by (cases rs) (auto simp: traced_def)

lemma traced_hd: "traced cl S r0 rs \<Longrightarrow> rootok S (hd rs)"
  by (cases rs) (auto simp: traced_def)

lemma addroots_ok:
  "traced cl S r0 rs \<Longrightarrow> I (hd rs) \<Longrightarrow> \<forall>m \<in> set ms. msgfits cl S I m \<Longrightarrow>
   traced cl S r0 (addroots ms rs) \<and> I (hd (addroots ms rs)) \<and> hd (addroots ms rs) = kvmsgs ms (hd rs)"
proof (induction ms arbitrary: rs)
  case (Cons m ms)
  from Cons.prems(3) have f: "msgfits cl S I m" by simp
  with traced_hd [OF Cons.prems(1)] Cons.prems(2) have 1: "rootok S (kvmsg m (hd rs))" "ostep cl S (hd rs) (kvmsg m (hd rs))" "I (kvmsg m (hd rs))"
    by (auto simp: msgfits_def)
  from Cons.IH [OF traced_Cons [OF Cons.prems(1) 1(1,2)]] 1(3) Cons.prems(3) show ?case by (auto simp del: kvmsgs_simps(3))
qed simp

section \<open>Adding and flushing messages\<close>

text \<open>The tree once the waiting messages are in it.\<close>

definition eff :: "Ow \<times> Otx \<Rightarrow> Kvp list" where
  "eff s = kvmsgs (omb (snd s)) (tree (fst s))"

text \<open>No upsert raises an error after it has taken its last message.\<close>

definition punctual :: "Ow \<Rightarrow> bool" where
  "punctual w \<longleftrightarrow> (\<forall>n e. Some (n, e) \<in> set (fates w) \<longrightarrow> n \<noteq> 0)"

lemma punctual_tl: "punctual w \<Longrightarrow> punctual (w\<lparr>fates := tl (fates w), roots := rs\<rparr>)"
  by (cases "fates w") (auto simp: punctual_def)

definition txst :: "bool \<Rightarrow> u64 \<Rightarrow> (Kvp list \<Rightarrow> bool) \<Rightarrow> Kvp list \<Rightarrow> Ow \<times> Otx \<Rightarrow> bool" where
  "txst cl S I r0 s \<longleftrightarrow> traced cl S r0 (roots (fst s)) \<and> I (tree (fst s)) \<and> (\<forall>m \<in> set (omb (snd s)). msgfits cl S I m) \<and> length (omb (snd s)) \<le> Objclob \<and>
     punctual (fst s)"

text \<open>What adding and flushing leave alone.\<close>

definition txlike :: "Otx \<Rightarrow> Otx \<Rightarrow> bool" where
  "txlike tx tx' \<longleftrightarrow> (\<exists>mb n. tx' = tx\<lparr>omb := mb, onflush := n\<rparr>)"

definition alike :: "Ow \<times> Otx \<Rightarrow> Ow \<times> Otx \<Rightarrow> bool" where
  "alike s s' \<longleftrightarrow> otxs (fst s') = otxs (fst s) \<and> objfail (fst s') = objfail (fst s) \<and> txlike (snd s) (snd s')"

lemma txlikeI: "tx' = tx\<lparr>omb := mb, onflush := n\<rparr> \<Longrightarrow> txlike tx tx'"
  unfolding txlike_def by (rule exI, rule exI)

lemma txlike_refl [simp]: "txlike tx tx"
  by (rule txlikeI [where mb = "omb tx" and n = "onflush tx"]) simp

lemma txlike_trans: assumes "txlike tx tx'" "txlike tx' tx''" shows "txlike tx tx''"
proof -
  from assms(1) obtain mb n where 1: "tx' = tx\<lparr>omb := mb, onflush := n\<rparr>" unfolding txlike_def by (elim exE)
  from assms(2) obtain mb' n' where "tx'' = tx'\<lparr>omb := mb', onflush := n'\<rparr>" unfolding txlike_def by (elim exE)
  with 1 have "tx'' = tx\<lparr>omb := mb', onflush := n'\<rparr>" by simp
  then show ?thesis by (rule txlikeI)
qed

lemma txlike_omb [simp]: "txlike tx (tx\<lparr>omb := mb, onflush := n\<rparr>)" "txlike tx (tx\<lparr>omb := mb\<rparr>)"
  by (rule txlikeI [where mb = mb and n = n], simp) (rule txlikeI [where mb = mb and n = "onflush tx"], simp)

lemma txlikeD:
  assumes "txlike tx tx'"
  shows "ostore tx' = ostore tx" "over tx' = over tx" "oents tx' = oents tx" "oaddr tx' = oaddr tx" "oleft tx' = oleft tx" "oidx tx' = oidx tx"
    "ochunk tx' = ochunk tx" "ooid tx' = ooid tx" "oinuser tx' = oinuser tx" "ouser tx' = ouser tx" "onewuser tx' = onewuser tx"
    "orec tx' = orec tx" "obytes tx' = obytes tx"
  using assms unfolding txlike_def by (elim exE, simp)+

lemma alike_refl [simp]: "alike s s"
  by (simp add: alike_def)

lemma alike_trans: "alike s s' \<Longrightarrow> alike s' s'' \<Longrightarrow> alike s s''"
  unfolding alike_def using txlike_trans [of "snd s" "snd s'" "snd s''"] by simp

text \<open>
  The outcome of a run: \<open>Q\<close> when it returns, \<open>E\<close> when it raises an error; no other fault happens.
\<close>

definition outcome :: "'a res \<times> Ow \<times> Otx \<Rightarrow> ('a \<Rightarrow> Ow \<times> Otx \<Rightarrow> bool) \<Rightarrow> (Ow \<times> Otx \<Rightarrow> bool) \<Rightarrow> bool" where
  "outcome r Q E \<longleftrightarrow> (case fst r of Inr x \<Rightarrow> Q x (snd r) | Inl f \<Rightarrow> (\<exists>e. f = Err e) \<and> E (snd r))"

lemma outcome_simps [simp]:
  "outcome (Inr x, s) Q E \<longleftrightarrow> Q x s" "outcome (Inl (Err e), s) Q E \<longleftrightarrow> E s" "\<not> outcome (Inl Panic, s) Q E" "\<not> outcome (Inl Wild, s) Q E"
  "outcome (retM x s) Q E \<longleftrightarrow> Q x s" "outcome (failM (Err e) s) Q E \<longleftrightarrow> E s" "outcome (gett f s) Q' E \<longleftrightarrow> Q' (f (snd s)) s"
  "outcome (getw g s) Q'' E \<longleftrightarrow> Q'' (g (fst s)) s" "outcome (modt m s) U E \<longleftrightarrow> U () (fst s, m (snd s))" "outcome (modw n s) U E \<longleftrightarrow> U () (n (fst s), snd s)"
  by (simp_all add: outcome_def retM_def failM_def gett_def getw_def modt_def modw_def)

lemma outcome_bind: "outcome (m s) R E \<Longrightarrow> (\<And>x s'. R x s' \<Longrightarrow> outcome (f x s') Q E) \<Longrightarrow> outcome (bindM m f s) Q E"
proof -
  obtain r s' where "m s = (r, s')" by (metis surj_pair)
  then show "outcome (m s) R E \<Longrightarrow> (\<And>x s'. R x s' \<Longrightarrow> outcome (f x s') Q E) \<Longrightarrow> outcome (bindM m f s) Q E"
    by (cases r) (auto simp: outcome_def bindM_def)
qed

lemma outcome_catch: "outcome (m s) Q R \<Longrightarrow> (\<And>e s'. R s' \<Longrightarrow> outcome (h e s') Q E) \<Longrightarrow> outcome (catchM m h s) Q E"
proof -
  obtain r s' where "m s = (r, s')" by (metis surj_pair)
  then show "outcome (m s) Q R \<Longrightarrow> (\<And>e s'. R s' \<Longrightarrow> outcome (h e s') Q E) \<Longrightarrow> outcome (catchM m h s) Q E"
    by (cases r) (auto simp: outcome_def catchM_def split: fault.splits)
qed

lemma outcome_mono: "outcome r Q E \<Longrightarrow> (\<And>x s. Q x s \<Longrightarrow> Q' x s) \<Longrightarrow> (\<And>s. E s \<Longrightarrow> E' s) \<Longrightarrow> outcome r Q' E'"
  by (auto simp: outcome_def split: sum.splits)

text \<open>The rule to run one call after another.\<close>

lemma outcome_seq:
  "outcome (m s) R F \<Longrightarrow> (\<And>s'. F s' \<Longrightarrow> E s') \<Longrightarrow> (\<And>x s'. R x s' \<Longrightarrow> outcome (f x s') Q E) \<Longrightarrow> outcome (bindM m f s) Q E"
  by (rule outcome_bind, erule outcome_mono)

lemma bindM_simps [simp]:
  "bindM (retM x) f s = f x s" "bindM (gett g) f' s = f' (g (snd s)) s" "bindM (getw g') f'' s = f'' (g' (fst s)) s"
  "bindM (modt m) u s = u () (fst s, m (snd s))" "bindM (modw n) u s = u () (n (fst s), snd s)"
  by (simp_all add: bindM_def retM_def gett_def getw_def modt_def modw_def)

lemma stablesort_length: "length (stablesort ms) = length ms"
proof (cases "ms = []")
  case False
  then have "1 \<le> length ms" by (cases ms) auto
  from stablesort_upto [OF order_refl this] show ?thesis unfolding stablesort_def Let_def by (auto simp flip: One_nat_def)
qed (simp add: stablesort_def)

lemma stablesort_one: "stablesort [m] = [m]"
  by (simp add: stablesort_def)

text \<open>A single message: taken, or not.\<close>

lemma upsert1_ok:
  assumes "punctual (fst s)"
  shows "outcome (upsert [m] s)
    (\<lambda>_ s'. roots (fst s') = kvmsg m (tree (fst s)) # roots (fst s) \<and> alike s s' \<and> snd s' = snd s \<and> punctual (fst s'))
    (\<lambda>s'. roots (fst s') = roots (fst s) \<and> alike s s' \<and> snd s' = snd s \<and> punctual (fst s'))"
proof -
  have u: "punctual ((fst s)\<lparr>fates := tl (fates (fst s)), roots := rs\<rparr>)" for rs
    using assms by (simp add: punctual_tl)
  show ?thesis
  proof (cases "fates (fst s)")
    case (Cons f fs)
    show ?thesis
    proof (cases f)
      case (Some p)
      obtain n e where p: "p = (n, e)" by (cases p)
      with assms Cons Some have "n \<noteq> 0" by (auto simp: punctual_def)
      then have "Suc 0 - n = 0" by simp
      with Cons Some p u show ?thesis by (simp add: upsert_def Let_def alike_def stablesort_one punctual_def)
    qed (use Cons u in \<open>simp add: upsert_def Let_def alike_def stablesort_one\<close>)
  qed (use u in \<open>simp add: upsert_def Let_def alike_def stablesort_one\<close>)
qed

lemma upsert_ok:
  assumes "txst cl S I r0 s" "\<forall>m \<in> set ms. msgfits cl S I m"
  shows "outcome (upsert ms s)
    (\<lambda>_ s'. txst cl S I r0 s' \<and> tree (fst s') = kvmsgs ms (tree (fst s)) \<and> alike s s' \<and> snd s' = snd s)
    (\<lambda>s'. txst cl S I r0 s' \<and> alike s s' \<and> snd s' = snd s)"
proof -
  have t: "traced cl S r0 (roots (fst s))" "I (tree (fst s))" using assms(1) by (simp_all add: txst_def)
  have o: "kvsorted (tree (fst s))" using traced_hd [OF t(1)] by (simp add: rootok_def)
  have a: "\<forall>m \<in> set (stablesort ms). msgfits cl S I m" "\<forall>m \<in> set (take (length ms - n) (stablesort ms)). msgfits cl S I m" for n
    using assms(2) by (auto simp: stablesort_props dest: in_set_takeD)
  note full = addroots_ok [OF t a(1), unfolded kvmsgs_stablesort [OF o]] and part = addroots_ok [OF t a(2)]
  have u: "punctual ((fst s)\<lparr>fates := tl (fates (fst s)), roots := rs\<rparr>)" for rs
    using assms(1) by (simp add: txst_def punctual_tl)
  have l: "length (stablesort ms) = length ms" by (simp add: stablesort_length)
  show ?thesis
  proof (cases "case fates (fst s) of [] \<Rightarrow> None | f # _ \<Rightarrow> f")
    case None
    then show ?thesis using full assms(1) u by (auto simp: upsert_def Let_def txst_def alike_def)
  next
    case (Some p)
    obtain n e where "p = (n, e)" by (cases p)
    with Some show ?thesis using part [of n] assms(1) u by (auto simp: upsert_def Let_def txst_def alike_def l)
  qed
qed

lemma hasroom_ok: "outcome (hasroom s) (\<lambda>_ s'. alike s s' \<and> snd s' = snd s \<and> roots (fst s') = roots (fst s) \<and> fates (fst s') = fates (fst s)) (\<lambda>_. False)"
  by (simp add: hasroom_def alike_def)

lemma okst_roots: "txst cl S I r0 s \<Longrightarrow> roots (fst s') = roots (fst s) \<Longrightarrow> fates (fst s') = fates (fst s) \<Longrightarrow> omb (snd s') = omb (snd s) \<Longrightarrow> txst cl S I r0 s'"
  by (simp add: txst_def punctual_def)

lemma flushtx_ok:
  assumes "txst cl S I r0 s"
  shows "outcome (flushtx s)
    (\<lambda>_ s'. txst cl S I r0 s' \<and> omb (snd s') = [] \<and> eff s' = eff s \<and> alike s s')
    (\<lambda>s'. txst cl S I r0 s' \<and> alike s s' \<and> snd s' = snd s)"
proof (cases "omb (snd s) = []")
  case True
  then show ?thesis using assms by (simp add: flushtx_def)
next
  case False
  let ?room = "\<lambda>s'. alike s s' \<and> snd s' = snd s \<and> roots (fst s') = roots (fst s) \<and> fates (fst s') = fates (fst s)"
  have 1: "outcome ((if \<exists>m \<in> set (omb (snd s)). kv m \<noteq> [] then bindM hasroom (\<lambda>r. if r then retM () else failM Efull) else retM ()) s)
      (\<lambda>_. ?room) (\<lambda>s'. txst cl S I r0 s' \<and> alike s s' \<and> snd s' = snd s)"
  proof (cases "\<exists>m \<in> set (omb (snd s)). kv m \<noteq> []")
    case True
    have "outcome (bindM hasroom (\<lambda>r. if r then retM () else failM Efull) s) (\<lambda>_. ?room) (\<lambda>s'. txst cl S I r0 s' \<and> alike s s' \<and> snd s' = snd s)"
    proof (rule outcome_seq, rule hasroom_ok)
      show "outcome ((if x then retM () else failM Efull) s') (\<lambda>_. ?room) (\<lambda>s'. txst cl S I r0 s' \<and> alike s s' \<and> snd s' = snd s)"
        if "?room s'" for x s' using that okst_roots [OF assms, of s'] by auto
    qed auto
    with True show ?thesis by simp
  qed simp
  show ?thesis unfolding flushtx_def bindM_simps(2) if_not_P [OF False]
  proof (rule outcome_bind, rule 1)
    fix s1 assume s1: "?room s1"
    have o1: "txst cl S I r0 s1" using s1 okst_roots [OF assms, of s1] by simp
    have f: "\<forall>m \<in> set (omb (snd s)). msgfits cl S I m" using assms by (simp add: txst_def)
    show "outcome (bindM (upsert (omb (snd s))) (\<lambda>_. modt (\<lambda>tx. let n = Suc (onflush tx) in
        tx\<lparr>omb := [], onflush := (if owk tx < 0 then onflush tx else if Objyield \<le> n then 0 else n)\<rparr>)) s1)
      (\<lambda>_ s'. txst cl S I r0 s' \<and> omb (snd s') = [] \<and> eff s' = eff s \<and> alike s s') (\<lambda>s'. txst cl S I r0 s' \<and> alike s s' \<and> snd s' = snd s)"
    proof (rule outcome_seq, rule upsert_ok [OF o1 f])
      fix s' assume "txst cl S I r0 s' \<and> alike s1 s' \<and> snd s' = snd s1"
      then show "txst cl S I r0 s' \<and> alike s s' \<and> snd s' = snd s" using s1 alike_trans by metis
    next
      fix s' assume a: "txst cl S I r0 s' \<and> tree (fst s') = kvmsgs (omb (snd s)) (tree (fst s1)) \<and> alike s1 s' \<and> snd s' = snd s1"
      then show "outcome (modt (\<lambda>tx. let n = Suc (onflush tx) in
          tx\<lparr>omb := [], onflush := (if owk tx < 0 then onflush tx else if Objyield \<le> n then 0 else n)\<rparr>) s')
        (\<lambda>_ s'. txst cl S I r0 s' \<and> omb (snd s') = [] \<and> eff s' = eff s \<and> alike s s') (\<lambda>s'. txst cl S I r0 s' \<and> alike s s' \<and> snd s' = snd s)"
        using s1 by (auto simp: txst_def eff_def Let_def alike_def)
    qed
  qed
qed

definition clob :: "bytes \<Rightarrow> Msg" where
  "clob k = \<lparr>kk = k, kv = [], mop = Oclobber\<rparr>"

lemma clob_sel [simp]: "kk (clob k) = k" "kv (clob k) = []" "mop (clob k) = Oclobber"
  by (simp_all add: clob_def)

lemma addmsg_ok:
  assumes "txst cl S I r0 s" "msgfits cl S I \<lparr>kk = k, kv = v, mop = op\<rparr>" "length k \<le> Objksz" "length v \<le> Objchunk"
  shows "outcome (addmsg op k v s)
    (\<lambda>_ s'. txst cl S I r0 s' \<and> eff s' = kvmsg \<lparr>kk = k, kv = v, mop = op\<rparr> (eff s) \<and> alike s s' \<and>
      set (omb (snd s')) \<subseteq> insert \<lparr>kk = k, kv = v, mop = op\<rparr> (set (omb (snd s))))
    (\<lambda>s'. txst cl S I r0 s' \<and> alike s s' \<and> snd s' = snd s)"
proof -
  let ?full = "length (omb (snd s)) = Objclob \<or> v \<noteq> [] \<and> Objbatch \<le> length (omb (snd s))"
  have 1: "outcome (bindM (gett omb) (\<lambda>mb. if length mb = Objclob \<or> v \<noteq> [] \<and> Objbatch \<le> length mb then flushtx else retM ()) s)
    (\<lambda>_ s'. txst cl S I r0 s' \<and> eff s' = eff s \<and> alike s s' \<and> set (omb (snd s')) \<subseteq> set (omb (snd s)) \<and> length (omb (snd s')) < Objclob \<and> (v \<noteq> [] \<longrightarrow> length (omb (snd s')) < Objbatch))
    (\<lambda>s'. txst cl S I r0 s' \<and> alike s s' \<and> snd s' = snd s)"
  proof (cases ?full)
    case True
    from outcome_mono [OF flushtx_ok [OF assms(1)]] True show ?thesis by simp
  next
    case False
    then show ?thesis using assms(1) by (auto simp: txst_def)
  qed
  show ?thesis unfolding addmsg_def
  proof (rule outcome_bind, rule 1, elim conjE)
    fix s' assume a: "txst cl S I r0 s'" "eff s' = eff s" "alike s s'" "set (omb (snd s')) \<subseteq> set (omb (snd s))" "length (omb (snd s')) < Objclob" "v \<noteq> [] \<longrightarrow> length (omb (snd s')) < Objbatch"
    have "txlike (snd s) ((snd s')\<lparr>omb := omb (snd s') @ [\<lparr>kk = k, kv = v, mop = op\<rparr>]\<rparr>)"
      using a(3) txlike_trans [of "snd s" "snd s'"] by (simp add: alike_def)
    then show "outcome (bindM (gett omb) (\<lambda>mb. if Objclob \<le> length mb \<or> Objksz < length k \<or> v \<noteq> [] \<and> (Objbatch \<le> length mb \<or> Objchunk < length v)
        then failM Wild else modt (\<lambda>tx. tx\<lparr>omb := mb @ [\<lparr>kk = k, kv = v, mop = op\<rparr>]\<rparr>)) s')
      (\<lambda>_ s'. txst cl S I r0 s' \<and> eff s' = kvmsg \<lparr>kk = k, kv = v, mop = op\<rparr> (eff s) \<and> alike s s' \<and>
        set (omb (snd s')) \<subseteq> insert \<lparr>kk = k, kv = v, mop = op\<rparr> (set (omb (snd s))))
      (\<lambda>s'. txst cl S I r0 s' \<and> alike s s' \<and> snd s' = snd s)"
      using a assms(2-4) by (auto simp: txst_def eff_def alike_def)
  qed
qed

lemma addkeys_ok:
  assumes "txst cl S I r0 s" "\<forall>k \<in> set ks. msgfits cl S I (clob k) \<and> length k \<le> Objksz"
  shows "outcome (addkeys ks s)
    (\<lambda>_ s'. txst cl S I r0 s' \<and> eff s' = kvmsgs (map clob ks) (eff s) \<and> alike s s')
    (\<lambda>s'. txst cl S I r0 s' \<and> alike s s')"
  using assms
proof (induction ks arbitrary: s)
  case (Cons k ks)
  have f: "msgfits cl S I \<lparr>kk = k, kv = [], mop = Oclobber\<rparr>" using Cons.prems(2) by (simp add: clob_def)
  show ?case unfolding addkeys.simps
  proof (rule outcome_seq, rule addmsg_ok [OF Cons.prems(1) f])
    fix s' assume a: "txst cl S I r0 s' \<and> eff s' = kvmsg \<lparr>kk = k, kv = [], mop = Oclobber\<rparr> (eff s) \<and> alike s s' \<and>
      set (omb (snd s')) \<subseteq> insert \<lparr>kk = k, kv = [], mop = Oclobber\<rparr> (set (omb (snd s)))"
    with Cons.prems(2) have "outcome (addkeys ks s') (\<lambda>_ s''. txst cl S I r0 s'' \<and> eff s'' = kvmsgs (map clob ks) (eff s') \<and> alike s' s'') (\<lambda>s''. txst cl S I r0 s'' \<and> alike s' s'')"
      by (intro Cons.IH) auto
    then show "outcome (addkeys ks s') (\<lambda>_ s''. txst cl S I r0 s'' \<and> eff s'' = kvmsgs (map clob (k # ks)) (eff s) \<and> alike s s'') (\<lambda>s''. txst cl S I r0 s'' \<and> alike s s'')"
      by (rule outcome_mono) (use a alike_trans [of s s'] in \<open>auto simp: clob_def\<close>)
  qed (use Cons.prems(2) in auto)
qed simp

section \<open>Sweeps\<close>

text \<open>
  Over the keys of a scan that follow \<open>fr\<close>: \<open>A\<close> is what is known of the argument of \<open>d\<close> once the keys up to one have been looked
  at, and the keys that are dropped may be clobbered.
\<close>

fun dropsok :: "bool \<Rightarrow> u64 \<Rightarrow> (Kvp list \<Rightarrow> bool) \<Rightarrow> (bytes \<Rightarrow> 'a \<Rightarrow> bool \<times> 'a) \<Rightarrow> (bytes option \<Rightarrow> 'a \<Rightarrow> bool) \<Rightarrow> bytes option \<Rightarrow> bytes list \<Rightarrow> bool" where
  "dropsok cl S I d A fr [] \<longleftrightarrow> True"
| "dropsok cl S I d A fr (k # ks) \<longleftrightarrow>
     (\<forall>a. A fr a \<longrightarrow> A (Some k) (snd (d k a)) \<and> (fst (d k a) \<longrightarrow> msgfits cl S I (clob k) \<and> length k \<le> Objksz)) \<and> dropsok cl S I d A (Some k) ks"

definition swept :: "(bytes \<Rightarrow> bool) \<Rightarrow> bytes list \<Rightarrow> Kvp list \<Rightarrow> Kvp list \<Rightarrow> bool" where
  "swept B ks t t' \<longleftrightarrow> (\<exists>D. t' = kvmsgs (map clob D) t \<and> set D \<subseteq> set ks \<and> (\<forall>k \<in> set ks. B k \<longrightarrow> k \<in> set D))"

lemma swept_Nil: "swept B [] t t"
  unfolding swept_def by (intro exI [of _ "[]"]) simp

lemma swept_app: "swept B ks t t' \<Longrightarrow> swept B ks' t' t'' \<Longrightarrow> swept B (ks @ ks') t t''"
proof -
  assume "swept B ks t t'" "swept B ks' t' t''"
  then obtain D D' where D: "t' = kvmsgs (map clob D) t" "set D \<subseteq> set ks" "\<forall>k \<in> set ks. B k \<longrightarrow> k \<in> set D"
    "t'' = kvmsgs (map clob D') t'" "set D' \<subseteq> set ks'" "\<forall>k \<in> set ks'. B k \<longrightarrow> k \<in> set D'" by (auto simp: swept_def)
  show ?thesis unfolding swept_def by (rule exI [of _ "D @ D'"]) (use D in auto)
qed

lemma swept_one: "swept B [k] t (if b then kvmsg (clob k) t else t)" if "B k \<Longrightarrow> b"
  unfolding swept_def by (rule exI [of _ "if b then [k] else []"]) (use that in auto)

lemma sweepscan_ok:
  assumes "txst cl S I r0 s" "dropsok cl S I d A fr ks" "A fr a" "\<And>fr k a. A fr a \<Longrightarrow> B k \<Longrightarrow> fst (d k a)"
  shows "outcome (sweepscan d ks n a s)
    (\<lambda>x s'. txst cl S I r0 s' \<and> alike s s' \<and> (\<exists>ks1 ks2. ks = ks1 @ ks2 \<and> swept B ks1 (eff s) (eff s') \<and>
      (case fst x of None \<Rightarrow> ks2 = [] | Some k \<Rightarrow> ks1 \<noteq> [] \<and> last ks1 = k \<and> A (Some k) (snd x))))
    (\<lambda>s'. txst cl S I r0 s' \<and> alike s s')"
  using assms(1-3)
proof (induction ks arbitrary: n a s fr)
  case (Cons k ks)
  obtain b a1 where d: "d k a = (b, a1)" by (cases "d k a")
  let ?n = "if b then Suc n else n"
  have h: "A (Some k) a1" "b \<Longrightarrow> msgfits cl S I (clob k)" "b \<Longrightarrow> length k \<le> Objksz" "B k \<Longrightarrow> b" using Cons.prems(2,3) d assms(4) [of fr a k] by auto
  have 1: "outcome ((if b then addmsg Oclobber k [] else retM ()) s)
      (\<lambda>_ s'. txst cl S I r0 s' \<and> alike s s' \<and> eff s' = (if b then kvmsg (clob k) (eff s) else eff s)) (\<lambda>s'. txst cl S I r0 s' \<and> alike s s')"
  proof (cases b)
    case True
    with h(2) have f: "msgfits cl S I \<lparr>kk = k, kv = [], mop = Oclobber\<rparr>" by (simp add: clob_def)
    show ?thesis using True outcome_mono [OF addmsg_ok [OF Cons.prems(1) f h(3)]] by (simp add: clob_def)
  qed (use Cons.prems(1) in simp)
  show ?case unfolding sweepscan.simps d Let_def prod.case
  proof (rule outcome_bind, rule 1, unfold bindM_simps, elim conjE)
    fix s' assume a: "txst cl S I r0 s'" "alike s s'" "eff s' = (if b then kvmsg (clob k) (eff s) else eff s)"
    from swept_one [of B k b "eff s"] h(4) a(3) have sw: "swept B [k] (eff s) (eff s')" by simp
    let ?Q = "\<lambda>x s'. txst cl S I r0 s' \<and> alike s s' \<and> (\<exists>ks1 ks2. k # ks = ks1 @ ks2 \<and> swept B ks1 (eff s) (eff s') \<and>
      (case fst x of None \<Rightarrow> ks2 = [] | Some k \<Rightarrow> ks1 \<noteq> [] \<and> last ks1 = k \<and> A (Some k) (snd x)))"
    show "outcome ((if ?n = Objclob - 1 \<or> length (omb (snd s')) = Objclob then retM (Some k, a1) else sweepscan d ks ?n a1) s') ?Q (\<lambda>s'. txst cl S I r0 s' \<and> alike s s')"
    proof (cases "?n = Objclob - 1 \<or> length (omb (snd s')) = Objclob")
      case True
      have "\<exists>ks1 ks2. k # ks = ks1 @ ks2 \<and> swept B ks1 (eff s) (eff s') \<and> ks1 \<noteq> [] \<and> last ks1 = k"
        by (intro exI [of _ "[k]"] exI [of _ ks]) (simp add: sw)
      with True a h(1) show ?thesis by simp
    next
      case False
      have "outcome (sweepscan d ks ?n a1 s')
        (\<lambda>x s''. txst cl S I r0 s'' \<and> alike s' s'' \<and> (\<exists>ks1 ks2. ks = ks1 @ ks2 \<and> swept B ks1 (eff s') (eff s'') \<and>
          (case fst x of None \<Rightarrow> ks2 = [] | Some k \<Rightarrow> ks1 \<noteq> [] \<and> last ks1 = k \<and> A (Some k) (snd x)))) (\<lambda>s''. txst cl S I r0 s'' \<and> alike s' s'')"
        by (rule Cons.IH [OF a(1) _ h(1)]) (use Cons.prems(2) in simp)
      then have "outcome (sweepscan d ks ?n a1 s') ?Q (\<lambda>s'. txst cl S I r0 s' \<and> alike s s')"
      proof (rule outcome_mono)
        fix x s'' assume "txst cl S I r0 s'' \<and> alike s' s'' \<and> (\<exists>ks1 ks2. ks = ks1 @ ks2 \<and> swept B ks1 (eff s') (eff s'') \<and>
          (case fst x of None \<Rightarrow> ks2 = [] | Some k \<Rightarrow> ks1 \<noteq> [] \<and> last ks1 = k \<and> A (Some k) (snd x)))"
        then obtain ks1 ks2 where x: "txst cl S I r0 s''" "alike s' s''" "ks = ks1 @ ks2" "swept B ks1 (eff s') (eff s'')"
          "case fst x of None \<Rightarrow> ks2 = [] | Some k \<Rightarrow> ks1 \<noteq> [] \<and> last ks1 = k \<and> A (Some k) (snd x)" by auto
        have "k # ks = (k # ks1) @ ks2 \<and> swept B (k # ks1) (eff s) (eff s'') \<and>
            (case fst x of None \<Rightarrow> ks2 = [] | Some j \<Rightarrow> k # ks1 \<noteq> [] \<and> last (k # ks1) = j \<and> A (Some j) (snd x))"
          using x(3,5) swept_app [OF sw x(4)] by (auto split: option.splits)
        with x(1,2) alike_trans [OF a(2)] show "?Q x s''" by meson
      qed (use alike_trans [OF a(2)] in blast)
      with False show ?thesis by simp
    qed
  qed
qed (auto simp: swept_Nil)

lemma lk_clobs: "kvsorted t \<Longrightarrow> lk (kvmsgs (map clob D) t) k = (if k \<in> set D then None else lk t k)"
  by (induction D arbitrary: t) (auto simp: lk_kvmsg)

definition follows :: "bytes \<Rightarrow> bytes option \<Rightarrow> bytes \<Rightarrow> bool" where
  "follows pfx fr k \<longleftrightarrow> hasprefix pfx k \<and> (case fr of None \<Rightarrow> True | Some l \<Rightarrow> l < k)"

text \<open>A whole sweep: keys under the prefix are gone, those of \<open>B\<close> all of them.\<close>

definition sweptall :: "bytes \<Rightarrow> bytes option \<Rightarrow> (bytes \<Rightarrow> bool) \<Rightarrow> Kvp list \<Rightarrow> Kvp list \<Rightarrow> bool" where
  "sweptall pfx fr B t t' \<longleftrightarrow> (\<forall>k. lk t' k = lk t k \<or> lk t' k = None \<and> hasprefix pfx k) \<and> (\<forall>k. follows pfx fr k \<and> B k \<longrightarrow> lk t' k = None)"

lemma scanned_keys: "k \<in> set (map kk (scanned pfx fr t)) \<longleftrightarrow> follows pfx fr k \<and> lk t k \<noteq> None" if "kvsorted t"
proof -
  have "k \<in> kk ` set t \<longleftrightarrow> lk t k \<noteq> None" by (induction t) auto
  moreover have "set (map kk (scanned pfx fr t)) = {k \<in> kk ` set t. follows pfx fr k}" by (auto simp: scanned_def follows_def)
  ultimately show ?thesis by auto
qed

lemma length_scanned_less:
  assumes "kvsorted t" "k \<in> set (map kk (scanned pfx fr t))" "kvsorted t'" "\<And>j. lk t' j = lk t j \<or> lk t' j = None"
  shows "length (scanned pfx (Some k) t') < length (scanned pfx fr t)"
proof -
  have d: "distinct (map kk (scanned pfx fr t))" if "kvsorted t" for t fr using ordered_scanned [OF that, of pfx fr] by (simp add: kvsorted_def strict_sorted_iff)
  have f: "follows pfx fr k" using assms(2) scanned_keys [OF assms(1)] by blast
  have "set (map kk (scanned pfx (Some k) t')) \<subseteq> set (map kk (scanned pfx fr t))"
  proof
    fix j assume "j \<in> set (map kk (scanned pfx (Some k) t'))"
    then have "follows pfx (Some k) j" "lk t' j \<noteq> None" using scanned_keys [OF assms(3)] by blast+
    moreover from this(2) have "lk t j \<noteq> None" using assms(4) [of j] by metis
    ultimately show "j \<in> set (map kk (scanned pfx fr t))" unfolding scanned_keys [OF assms(1)] using f by (auto simp: follows_def split: option.splits)
  qed
  moreover have "k \<notin> set (map kk (scanned pfx (Some k) t'))" unfolding scanned_keys [OF assms(3)] by (simp add: follows_def)
  ultimately have "set (map kk (scanned pfx (Some k) t')) \<subset> set (map kk (scanned pfx fr t))" using assms(2) by blast
  then have "card (set (map kk (scanned pfx (Some k) t'))) < card (set (map kk (scanned pfx fr t)))" by (intro psubset_card_mono) auto
  then show ?thesis using distinct_card [OF d [OF assms(3), of "Some k"]] distinct_card [OF d [OF assms(1), of fr]] by simp
qed

lemma swept_lk: "swept B ks t t' \<Longrightarrow> kvsorted t \<Longrightarrow> lk t' k = lk t k \<or> lk t' k = None \<and> k \<in> set ks"
  "swept B ks t t' \<Longrightarrow> kvsorted t \<Longrightarrow> k \<in> set ks \<Longrightarrow> B k \<Longrightarrow> lk t' k = None"
  by (auto simp: swept_def lk_clobs split: if_splits)

lemma sweeploop_ok:
  assumes "txst cl S I r0 s" "omb (snd s) = []" "A fr a" "length (scanned pfx fr (tree (fst s))) < f" "\<And>fr k a. A fr a \<Longrightarrow> B k \<Longrightarrow> fst (d k a)"
    and drops: "\<And>t fr. I t \<Longrightarrow> rootok S t \<Longrightarrow> dropsok cl S I d A fr (map kk (scanned pfx fr t))"
  shows "outcome (sweeploop f pfx d fr a s)
    (\<lambda>_ s'. txst cl S I r0 s' \<and> alike s s' \<and> omb (snd s') = [] \<and> sweptall pfx fr B (tree (fst s)) (tree (fst s')))
    (\<lambda>s'. txst cl S I r0 s' \<and> alike s s')"
  using assms(1-4)
proof (induction f arbitrary: fr a s)
  case (Suc f)
  let ?t = "tree (fst s)" and ?Q = "\<lambda>_ s'. txst cl S I r0 s' \<and> alike s s' \<and> omb (snd s') = [] \<and> sweptall pfx fr B (tree (fst s)) (tree (fst s'))"
  have t: "I ?t" "rootok S ?t" "eff s = ?t" using Suc.prems(1,2) traced_hd by (auto simp: txst_def eff_def)
  have o: "kvsorted ?t" using t(2) by (simp add: rootok_def)
  show ?case unfolding sweeploop.simps bindM_simps
  proof (rule outcome_bind, rule sweepscan_ok [OF Suc.prems(1) drops [OF t(1,2)] Suc.prems(3) assms(5)], assumption, assumption)
    fix x s1
    assume "txst cl S I r0 s1 \<and> alike s s1 \<and> (\<exists>ks1 ks2. map kk (scanned pfx fr ?t) = ks1 @ ks2 \<and> swept B ks1 (eff s) (eff s1) \<and>
      (case fst x of None \<Rightarrow> ks2 = [] | Some k \<Rightarrow> ks1 \<noteq> [] \<and> last ks1 = k \<and> A (Some k) (snd x)))"
    note res = this
    obtain nx a1 where x1: "x = (nx, a1)" by (cases x)
    from res obtain ks1 ks2 where x: "x = (nx, a1)" "txst cl S I r0 s1" "alike s s1" "map kk (scanned pfx fr ?t) = ks1 @ ks2" "swept B ks1 ?t (eff s1)"
      "case nx of None \<Rightarrow> ks2 = [] | Some k \<Rightarrow> ks1 \<noteq> [] \<and> last ks1 = k \<and> A (Some k) a1" unfolding t(3) x1 fst_conv snd_conv by (elim conjE exE) simp
    have c: "\<And>k. lk (eff s1) k = lk ?t k \<or> lk (eff s1) k = None \<and> k \<in> set ks1" "\<And>k. k \<in> set ks1 \<Longrightarrow> B k \<Longrightarrow> lk (eff s1) k = None"
      using swept_lk [OF x(5) o] by blast+
    have pf: "hasprefix pfx k" if "k \<in> set ks1" for k
      using that x(4) scanned_keys [OF o, of k pfx fr] by (auto simp: follows_def)
    show "outcome ((case x of (nx, a) \<Rightarrow> bindM flushtx (\<lambda>_. case nx of None \<Rightarrow> retM () | Some k \<Rightarrow> sweeploop f pfx d (Some k) a)) s1) ?Q (\<lambda>s'. txst cl S I r0 s' \<and> alike s s')"
      unfolding x(1) prod.case
    proof (rule outcome_seq, rule flushtx_ok [OF x(2)])
      fix s2 assume s2: "txst cl S I r0 s2 \<and> omb (snd s2) = [] \<and> eff s2 = eff s1 \<and> alike s1 s2"
      have t2: "tree (fst s2) = eff s1" using s2 eff_def [of s2] by auto
      have a2: "alike s s2" using s2 x(3) alike_trans by blast
      have o2: "kvsorted (tree (fst s2))" using s2 traced_hd by (auto simp: txst_def rootok_def)
      show "outcome ((case nx of None \<Rightarrow> retM () | Some k \<Rightarrow> sweeploop f pfx d (Some k) a1) s2) ?Q (\<lambda>s'. txst cl S I r0 s' \<and> alike s s')"
      proof (cases nx)
        case None
        then have k: "set ks1 = {k. follows pfx fr k \<and> lk ?t k \<noteq> None}" using x(4,6) scanned_keys [OF o] by auto
        have "lk (eff s1) k = None" if "follows pfx fr k" "B k" for k using c(1) [of k] c(2) [of k] that by (cases "lk ?t k = None") (auto simp: k)
        then have "sweptall pfx fr B ?t (eff s1)" using c(1) pf by (auto simp: sweptall_def)
        with None s2 a2 t2 show ?thesis by simp
      next
        case (Some k)
        then have k: "k \<in> set ks1" "last ks1 = k" "A (Some k) a1" using x(6) by auto
        have kt: "k \<in> set (map kk (scanned pfx fr ?t))" using k(1) x(4) by simp
        have "length (scanned pfx (Some k) (tree (fst s2))) < length (scanned pfx fr ?t)"
          by (rule length_scanned_less [OF o kt o2]) (use c(1) t2 in metis)
        then have len: "length (scanned pfx (Some k) (tree (fst s2))) < f" using Suc.prems(4) by simp
        have "outcome (sweeploop f pfx d (Some k) a1 s2)
          (\<lambda>_ s'. txst cl S I r0 s' \<and> alike s2 s' \<and> omb (snd s') = [] \<and> sweptall pfx (Some k) B (tree (fst s2)) (tree (fst s'))) (\<lambda>s'. txst cl S I r0 s' \<and> alike s2 s')"
          using s2 k(3) len by (intro Suc.IH) auto
        then have "outcome (sweeploop f pfx d (Some k) a1 s2) ?Q (\<lambda>s'. txst cl S I r0 s' \<and> alike s s')"
        proof (rule outcome_mono)
          fix s' assume a: "txst cl S I r0 s' \<and> alike s2 s' \<and> omb (snd s') = [] \<and> sweptall pfx (Some k) B (tree (fst s2)) (tree (fst s'))"
          have "lk (tree (fst s')) j = None" if "follows pfx fr j" "B j" for j
          proof (cases "k < j")
            case True
            with that have "follows pfx (Some k) j" by (simp add: follows_def)
            with a that(2) show ?thesis by (simp add: sweptall_def)
          next
            case False
            have "lk (eff s1) j = None"
            proof (cases "lk ?t j = None")
              case True
              then show ?thesis using c(1) [of j] by auto
            next
              case n: False
              then have "j \<in> set (ks1 @ ks2)" using that(1) scanned_keys [OF o, of j pfx fr] x(4) by auto
              moreover have "\<forall>i \<in> set ks2. k < i"
                using ordered_scanned [OF o, of pfx fr] k(1) by (auto simp: kvsorted_def x(4) sorted_wrt_append)
              ultimately have "j \<in> set ks1" using False by auto
              with c(2) that(2) show ?thesis by blast
            qed
            with a show ?thesis unfolding sweptall_def t2 by metis
          qed
          moreover have "lk (tree (fst s')) j = lk ?t j \<or> lk (tree (fst s')) j = None \<and> hasprefix pfx j" for j
            using a c(1) [of j] pf [of j] unfolding sweptall_def t2 by metis
          ultimately show "?Q () s'" using a alike_trans [OF a2] by (auto simp: sweptall_def)
        qed (use alike_trans [OF a2] in blast)
        with Some show ?thesis by simp
      qed
    qed (use alike_trans [OF x(3)] in blast)
  qed
qed simp

lemma sweep_ok:
  assumes "txst cl S I r0 s" "omb (snd s) = []" "A None a" "\<And>fr k a. A fr a \<Longrightarrow> B k \<Longrightarrow> fst (d k a)"
    and drops: "\<And>t fr. I t \<Longrightarrow> rootok S t \<Longrightarrow> dropsok cl S I d A fr (map kk (scanned pfx fr t))"
  shows "outcome (sweep pfx d a s)
    (\<lambda>_ s'. txst cl S I r0 s' \<and> alike s s' \<and> omb (snd s') = [] \<and> sweptall pfx None B (tree (fst s)) (tree (fst s')))
    (\<lambda>s'. txst cl S I r0 s' \<and> alike s s')"
  unfolding sweep_def bindM_simps by (rule sweeploop_ok [OF assms(1-3) _ assms(4) drops]) (auto simp: scanned_def le_imp_less_Suc)

end
