(* ===== verification/Gefs_Objtx.thy ===== *)
theory Gefs_Objtx
  imports Gefs_Objstep
begin

text \<open>
  The transactions of an object store: what holds of the tree and of the transaction between the
  calls of \<open>objwrite\<close>, and that every function keeps it, whatever fails.
\<close>

section \<open>The invariant\<close>

definition oids :: "Otx \<Rightarrow> u64 set" where
  "oids tx = eoid ` set (oents tx)"

text \<open>What every root satisfies while the transaction of version \<open>ver\<close> is under way; \<open>cl\<close> asks for no left-overs.\<close>

definition duringtx :: "bool \<Rightarrow> u64 \<Rightarrow> Ohdr \<Rightarrow> u64 \<Rightarrow> u64 set \<Rightarrow> Kvp list \<Rightarrow> bool" where
  "duringtx cl S h ver X r \<longleftrightarrow> hdrof S r = h \<and> (\<forall>x. has r S x ver \<longrightarrow> x \<in> X) \<and> (cl \<longrightarrow> noleft S r)"

definition txmsg :: "u64 \<Rightarrow> u64 \<Rightarrow> u64 set \<Rightarrow> Msg \<Rightarrow> bool" where
  "txmsg S ver X m \<longleftrightarrow> mop m = Oinsert \<and> (\<exists>x \<in> X. \<exists>i. kk m = packkey S x ver i)"

text \<open>The tree and the messages of an open transaction, which has entries for the objects \<open>X\<close>.\<close>

definition opentx :: "bool \<Rightarrow> u64 \<Rightarrow> Kvp list \<Rightarrow> u64 set \<Rightarrow> Ow \<times> Otx \<Rightarrow> bool" where
  "opentx cl S r0 X s \<longleftrightarrow>
     traced cl S r0 (roots (fst s)) \<and> punctual (fst s) \<and> ostore (snd s) = S \<and> length (omb (snd s)) \<le> Objclob \<and>
     hn (hdrof S (tree (fst s))) + 1 = over (snd s) \<and> hn (hdrof S (tree (fst s))) < over (snd s) \<and> hw (hdrof S (tree (fst s))) = over (snd s) \<and>
     (\<forall>x. has (tree (fst s)) S x (over (snd s)) \<longrightarrow> x \<in> X) \<and> (cl \<longrightarrow> noleft S (tree (fst s))) \<and>
     (\<forall>m \<in> set (omb (snd s)). txmsg S (over (snd s)) X m) \<and> (\<forall>e \<in> set (oents (snd s)). 0 < enidx e)"

text \<open>No chunk without the first one of its version, once the messages are in.\<close>

definition tidy :: "u64 \<Rightarrow> u64 \<Rightarrow> Kvp list \<Rightarrow> bool" where
  "tidy S ver r \<longleftrightarrow> (\<forall>x v i. chunk r S x v i \<noteq> None \<longrightarrow> v \<le> ver \<and> (v = ver \<longrightarrow> has r S x v))"

text \<open>The entries of the transaction tell all the chunks it has put.\<close>

definition covered :: "u64 \<Rightarrow> Kvp list \<Rightarrow> Otx \<Rightarrow> bool" where
  "covered S r tx \<longleftrightarrow> (\<forall>x i. chunk r S x (over tx) i \<noteq> None \<longrightarrow>
     (\<exists>e \<in> set (oents tx). eoid e = x \<and> i < enidx e) \<or> 0 < oleft tx \<and> x = ooid tx \<and> i < oidx tx)"

text \<open>The put under way: how much of it has come.\<close>

definition putting :: "u64 \<Rightarrow> Kvp list \<Rightarrow> Otx \<Rightarrow> bool" where
  "putting S r tx \<longleftrightarrow> oents tx \<noteq> [] \<and> eoid (last (oents tx)) = ooid tx \<and> enidx (last (oents tx)) = 1 \<and> length (ochunk tx) < Objchunk \<and>
     (oidx tx = 0 \<longrightarrow> 4 \<le> length (ochunk tx)) \<and> (oidx tx \<noteq> 0 \<longrightarrow> has r S (ooid tx) (over tx)) \<and>
     unat (oidx tx) * Objchunk + length (ochunk tx) + nat (oleft tx) \<le> 67108868"

definition opened :: "bool \<Rightarrow> u64 \<Rightarrow> Kvp list \<Rightarrow> Ow \<times> Otx \<Rightarrow> bool" where
  "opened cl S r0 s \<longleftrightarrow> opentx cl S r0 (oids (snd s)) s \<and> over (snd s) \<noteq> 0 \<and>
     (\<forall>x \<in> oids (snd s). has (eff s) S x (over (snd s)) \<or> 0 < oleft (snd s) \<and> oidx (snd s) = 0 \<and> x = ooid (snd s)) \<and>
     (cl \<longrightarrow> tidy S (over (snd s)) (eff s) \<and> covered S (eff s) (snd s)) \<and> (0 < oleft (snd s) \<longrightarrow> putting S (eff s) (snd s)) \<and>
     (onewuser (snd s) \<longrightarrow> int (length (ouser (snd s))) + oinuser (snd s) \<le> int Objuser) \<and>
     0 \<le> oleft (snd s) \<and> 0 \<le> oinuser (snd s) \<and> (0 < oinuser (snd s) \<longrightarrow> onewuser (snd s)) \<and> 0 \<le> obytes (snd s) \<and> obytes (snd s) \<le> Objtxmax"

text \<open>Between transactions.\<close>

definition idle :: "bool \<Rightarrow> u64 \<Rightarrow> Kvp list \<Rightarrow> Ow \<times> Otx \<Rightarrow> bool" where
  "idle cl S r0 s \<longleftrightarrow> traced cl S r0 (roots (fst s)) \<and> punctual (fst s) \<and> ostore (snd s) = S \<and> over (snd s) = 0 \<and> omb (snd s) = [] \<and>
     oleft (snd s) = 0 \<and> oinuser (snd s) = 0 \<and>
     (cl \<longrightarrow> noleft S (tree (fst s)) \<and>
       (hw (hdrof S (tree (fst s))) = hn (hdrof S (tree (fst s))) \<longrightarrow>
         (\<forall>x v i. chunk (tree (fst s)) S x v i \<noteq> None \<longrightarrow> v \<le> hn (hdrof S (tree (fst s))))))"

text \<open>After an error, before the transaction is given up: enough for \<open>abort1\<close>.\<close>

definition failed :: "bool \<Rightarrow> u64 \<Rightarrow> Kvp list \<Rightarrow> Ow \<times> Otx \<Rightarrow> bool" where
  "failed cl S r0 s \<longleftrightarrow> traced cl S r0 (roots (fst s)) \<and> punctual (fst s) \<and> ostore (snd s) = S \<and>
     (over (snd s) \<noteq> 0 \<longrightarrow>
        hn (hdrof S (tree (fst s))) + 1 = over (snd s) \<and> hn (hdrof S (tree (fst s))) < over (snd s) \<and> hw (hdrof S (tree (fst s))) = over (snd s) \<and>
        (\<forall>x. has (tree (fst s)) S x (over (snd s)) \<longrightarrow> x \<in> oids (snd s)) \<and> (\<forall>e \<in> set (oents (snd s)). 0 < enidx e))"

lemma opentx_failed: "opentx cl S r0 (oids (snd s)) s \<Longrightarrow> failed cl S r0 s"
  unfolding opentx_def failed_def by blast

lemma fits_put:
  assumes "hn h < ver" "ver \<le> hw h" "txmsg S ver X m"
  shows "msgfits c S (duringtx cl S h ver X) m"
  unfolding msgfits_def
proof (intro allI impI conjI, goal_cases)
  case (1 r)
  from assms(3) obtain x i where m: "mop m = Oinsert" "x \<in> X" "kk m = packkey S x ver i" by (auto simp: txmsg_def)
  have h: "hdrof S r = h" using 1 by (simp add: duringtx_def)
  note u = unpub_msg [of S r m x ver i]
  show ?case using 1 m assms(1,2) h by (intro u(1)) auto
next
  case (2 r)
  from assms(3) obtain x i where m: "mop m = Oinsert" "x \<in> X" "kk m = packkey S x ver i" by (auto simp: txmsg_def)
  have h: "hdrof S r = h" using 2 by (simp add: duringtx_def)
  show ?case using 2 m assms(1,2) h by (intro unpub_msg(2) [of S r m x ver i]) auto
next
  case (3 r)
  from assms(3) obtain x i where m: "mop m = Oinsert" "x \<in> X" "kk m = packkey S x ver i" by (auto simp: txmsg_def)
  have h: "hdrof S r = h" "rootok S r" "cl \<longrightarrow> noleft S r" "\<And>x. has r S x ver \<Longrightarrow> x \<in> X" using 3 by (simp_all add: duringtx_def)
  have o: "kvsorted r" using h(2) by (simp add: rootok_def)
  have "y \<in> X" if "has (kvmsg m r) S y ver" for y
  proof (cases "y = x")
    case False
    then have "has r S y ver" using that m(3) o by (simp add: has_def chunk_kvmsg)
    then show ?thesis by (rule h(4))
  qed (use m(2) in simp)
  then show ?case using unpub_msg(3,4) [OF h(2) m(3)] h assms(1,2) by (simp add: duringtx_def)
qed

lemma fits_unpub:
  assumes "hn h < v"
  shows "msgfits c S (duringtx cl S h ver X) (clob (packkey S x v i))"
  unfolding msgfits_def
proof (intro allI impI)
  fix r assume "rootok S r \<and> duringtx cl S h ver X r"
  then have r: "rootok S r" "hdrof S r = h" "\<And>x. has r S x ver \<Longrightarrow> x \<in> X" "cl \<longrightarrow> noleft S r" by (simp_all add: duringtx_def)
  have o: "kvsorted r" using r(1) by (simp add: rootok_def)
  let ?m = "clob (packkey S x v i)"
  have k: "kk ?m = packkey S x v i" "hn (hdrof S r) < v" "mop ?m = Oinsert \<Longrightarrow> v \<le> hw (hdrof S r)" using assms r(2) by simp_all
  have "has (kvmsg ?m r) S y ver \<Longrightarrow> has r S y ver" for y using o by (auto simp: has_def chunk_kvmsg split: if_splits option.splits)
  then show "rootok S (kvmsg ?m r) \<and> ostep c S r (kvmsg ?m r) \<and> duringtx cl S h ver X (kvmsg ?m r)"
    using unpub_msg(1-4) [OF r(1) k] r(2-4) by (auto simp: duringtx_def)
qed

section \<open>Messages of an open transaction\<close>

lemma opentx_okst: "opentx cl S r0 X s \<Longrightarrow> txst cl S (duringtx cl S (hdrof S (tree (fst s))) (over (snd s)) X) r0 s"
  unfolding opentx_def txst_def using fits_put by (auto simp: duringtx_def)

lemma okst_opentx:
  assumes "opentx cl S r0 X s" "txst cl S (duringtx cl S (hdrof S (tree (fst s))) (over (snd s)) X) r0 s'" "alike s s'"
    "\<forall>m \<in> set (omb (snd s')). txmsg S (over (snd s)) X m"
  shows "opentx cl S r0 X s'"
proof -
  have "txlike (snd s) (snd s')" using assms(3) by (simp add: alike_def)
  note t = txlikeD [OF this]
  have "hdrof S (tree (fst s')) = hdrof S (tree (fst s))" using assms(2) by (simp add: txst_def duringtx_def)
  with assms(1,2,4) t show ?thesis unfolding opentx_def txst_def duringtx_def by simp
qed

lemma opentx_msgs: "opentx cl S r0 X s \<Longrightarrow> \<forall>m \<in> set (omb (snd s)). txmsg S (over (snd s)) X m"
  by (simp add: opentx_def)

lemma flushtx_open:
  assumes "opentx cl S r0 X s"
  shows "outcome (flushtx s)
    (\<lambda>_ s'. opentx cl S r0 X s' \<and> omb (snd s') = [] \<and> eff s' = eff s \<and> alike s s')
    (\<lambda>s'. opentx cl S r0 X s' \<and> alike s s')"
  by (rule outcome_mono [OF flushtx_ok [OF opentx_okst [OF assms]]]) (use okst_opentx [OF assms] opentx_msgs [OF assms] in auto)

lemma opentx_mono: "opentx cl S r0 X s \<Longrightarrow> X \<subseteq> Y \<Longrightarrow> opentx cl S r0 Y s"
  unfolding opentx_def txmsg_def by (intro conjI; blast)

lemma addmsg_open:
  assumes "opentx cl S r0 X s" "length v \<le> Objchunk"
  shows "outcome (addmsg Oinsert (packkey S x (over (snd s)) i) v s)
    (\<lambda>_ s'. opentx cl S r0 (insert x X) s' \<and> eff s' = kvmsg \<lparr>kk = packkey S x (over (snd s)) i, kv = v, mop = Oinsert\<rparr> (eff s) \<and> alike s s')
    (\<lambda>s'. opentx cl S r0 X s' \<and> alike s s')"
proof -
  let ?m = "\<lparr>kk = packkey S x (over (snd s)) i, kv = v, mop = Oinsert\<rparr>"
  let ?full = "length (omb (snd s)) = Objclob \<or> v \<noteq> [] \<and> Objbatch \<le> length (omb (snd s))"
  have 1: "outcome (bindM (gett omb) (\<lambda>mb. if length mb = Objclob \<or> v \<noteq> [] \<and> Objbatch \<le> length mb then flushtx else retM ()) s)
    (\<lambda>_ s'. opentx cl S r0 X s' \<and> eff s' = eff s \<and> alike s s' \<and> length (omb (snd s')) < Objclob \<and> (v \<noteq> [] \<longrightarrow> length (omb (snd s')) < Objbatch))
    (\<lambda>s'. opentx cl S r0 X s' \<and> alike s s')"
  proof (cases ?full)
    case True
    from outcome_mono [OF flushtx_open [OF assms(1)]] True show ?thesis by simp
  next
    case False
    then show ?thesis using assms(1) by (auto simp: opentx_def)
  qed
  show ?thesis unfolding addmsg_def
  proof (rule outcome_bind, rule 1, elim conjE)
    fix s' assume a: "opentx cl S r0 X s'" "eff s' = eff s" "alike s s'" "length (omb (snd s')) < Objclob" "v \<noteq> [] \<longrightarrow> length (omb (snd s')) < Objbatch"
    let ?s = "(fst s', (snd s')\<lparr>omb := omb (snd s') @ [?m]\<rparr>)"
    have v: "over (snd s') = over (snd s)" using a(3) txlikeD(2) by (simp add: alike_def)
    have l: "alike s ?s" using a(3) txlike_trans [of "snd s" "snd s'"] by (simp add: alike_def)
    have e: "eff ?s = kvmsg ?m (eff s)" using a(2) by (simp add: eff_def)
    have "opentx cl S r0 (insert x X) s'" using a(1) by (rule opentx_mono) auto
    then have "opentx cl S r0 (insert x X) ?s" using a(4) v by (auto simp: opentx_def txmsg_def)
    with l e a(4,5) assms(2) show "outcome (bindM (gett omb) (\<lambda>mb. if Objclob \<le> length mb \<or> Objksz < length (packkey S x (over (snd s)) i) \<or> v \<noteq> [] \<and> (Objbatch \<le> length mb \<or> Objchunk < length v)
        then failM Wild else modt (\<lambda>tx. tx\<lparr>omb := mb @ [?m]\<rparr>)) s')
      (\<lambda>_ s'. opentx cl S r0 (insert x X) s' \<and> eff s' = kvmsg ?m (eff s) \<and> alike s s') (\<lambda>s'. opentx cl S r0 X s' \<and> alike s s')"
      by auto
  qed
qed

lemma eff_ordered: "opentx cl S r0 X s \<Longrightarrow> kvsorted (eff s)"
  unfolding eff_def by (rule ordered_kvmsgs) (use traced_hd in \<open>auto simp: opentx_def rootok_def\<close>)

definition keptput :: "Otx \<Rightarrow> Otx \<Rightarrow> bool" where
  "keptput tx tx' \<longleftrightarrow> txlike (tx\<lparr>oidx := oidx tx + 1, ochunk := []\<rparr>) tx'"

lemma putchunk_open:
  assumes "opentx cl S r0 X s" "length (ochunk (snd s)) \<le> Objchunk"
  shows "outcome (putchunk s)
    (\<lambda>_ s'. opentx cl S r0 (insert (ooid (snd s)) X) s' \<and> eff s' = kvmsg \<lparr>kk = packkey S (ooid (snd s)) (over (snd s)) (oidx (snd s)), kv = ochunk (snd s), mop = Oinsert\<rparr> (eff s) \<and>
      keptput (snd s) (snd s'))
    (\<lambda>s'. opentx cl S r0 X s' \<and> alike s s')"
proof -
  have st: "ostore (snd s) = S" using assms(1) by (simp add: opentx_def)
  show ?thesis unfolding putchunk_def bindM_simps st
  proof (rule outcome_bind, rule addmsg_open [OF assms], elim conjE)
    fix s' assume a: "opentx cl S r0 (insert (ooid (snd s)) X) s'" "eff s' = kvmsg \<lparr>kk = packkey S (ooid (snd s)) (over (snd s)) (oidx (snd s)), kv = ochunk (snd s), mop = Oinsert\<rparr> (eff s)" "alike s s'"
    then obtain mb n where "snd s' = (snd s)\<lparr>omb := mb, onflush := n\<rparr>" by (auto simp: alike_def txlike_def)
    then have "(snd s')\<lparr>oidx := oidx (snd s') + 1, ochunk := []\<rparr> = (snd s)\<lparr>oidx := oidx (snd s) + 1, ochunk := []\<rparr>\<lparr>omb := mb, onflush := n\<rparr>" by simp
    then have "keptput (snd s) ((snd s')\<lparr>oidx := oidx (snd s') + 1, ochunk := []\<rparr>)" unfolding keptput_def by (rule txlikeI)
    then show "outcome (modt (\<lambda>tx. tx\<lparr>oidx := oidx tx + 1, ochunk := []\<rparr>) s')
      (\<lambda>_ s'. opentx cl S r0 (insert (ooid (snd s)) X) s' \<and> eff s' = kvmsg \<lparr>kk = packkey S (ooid (snd s)) (over (snd s)) (oidx (snd s)), kv = ochunk (snd s), mop = Oinsert\<rparr> (eff s) \<and>
        keptput (snd s) (snd s')) (\<lambda>s'. opentx cl S r0 X s' \<and> alike s s')"
      using a(1,2) by (simp add: opentx_def eff_def [of "(_, _)"] flip: eff_def)
  qed
qed

lemma keptputD:
  assumes "keptput tx tx'"
  shows "over tx' = over tx" "oents tx' = oents tx" "ooid tx' = ooid tx" "oleft tx' = oleft tx" "oidx tx' = oidx tx + 1" "ochunk tx' = []"
    "oinuser tx' = oinuser tx" "ouser tx' = ouser tx" "onewuser tx' = onewuser tx" "orec tx' = orec tx" "obytes tx' = obytes tx" "oaddr tx' = oaddr tx"
  using txlikeD [OF assms [unfolded keptput_def]] by simp_all

section \<open>The end of a transaction\<close>

text \<open>\<open>endtx\<close> from any state: what it leaves of the transaction.\<close>

lemma endtx_ok: "outcome (endtx s)
  (\<lambda>_ s'. roots (fst s') = roots (fst s) \<and> fates (fst s') = fates (fst s) \<and> ostore (snd s') = ostore (snd s) \<and> over (snd s') = 0 \<and> omb (snd s') = [] \<and>
    orec (snd s') = [] \<and> oleft (snd s') = 0 \<and> oinuser (snd s') = 0) (\<lambda>_. False)"
  by (simp add: endtx_def)

lemma endtx_idle:
  assumes "traced cl S r0 (roots (fst s))" "punctual (fst s)" "ostore (snd s) = S"
    "cl \<longrightarrow> noleft S (tree (fst s)) \<and> (hw (hdrof S (tree (fst s))) = hn (hdrof S (tree (fst s))) \<longrightarrow>
         (\<forall>x v i. chunk (tree (fst s)) S x v i \<noteq> None \<longrightarrow> v \<le> hn (hdrof S (tree (fst s)))))"
  shows "outcome (endtx s) (\<lambda>_ s'. idle cl S r0 s' \<and> orec (snd s') = [] \<and> roots (fst s') = roots (fst s)) (\<lambda>_. False)"
  by (rule outcome_mono [OF endtx_ok]) (use assms in \<open>auto simp: idle_def punctual_def\<close>)

lemma set_concat_upt: "k \<in> set (concat (map (\<lambda>e. map (f e) [0 ..< g e]) xs)) \<longleftrightarrow> (\<exists>e \<in> set xs. \<exists>i < g e. k = f e i)" for g :: "'a \<Rightarrow> nat"
  by (induction xs) (auto simp: image_iff Bex_def)

lemma txkeys_mem: "k \<in> set (txkeys tx) \<longleftrightarrow> (\<exists>e \<in> set (oents tx). \<exists>i < unat (enidx e). k = packkey (ostore tx) (eoid e) (over tx) (of_nat i))"
  unfolding txkeys_def by (rule set_concat_upt)

lemma unat_next: "n < n + 1 \<Longrightarrow> unat (n + 1) = Suc (unat n)" for n :: u64
proof -
  assume a: "n < n + 1"
  have u: "unat (n + 1) = (unat n + 1) mod 2 ^ 64" by (simp add: unat_word_ariths)
  have "unat n < 2 ^ 64" using unsigned_less [of n, where 'a = nat] by simp
  moreover have "unat n + 1 \<noteq> 2 ^ 64" using a u by (auto simp: word_less_nat_alt)
  ultimately show ?thesis using u by simp
qed

lemma less_next: "n < n + 1 \<Longrightarrow> v < n + 1 \<longleftrightarrow> v \<le> n" for n v :: u64
  using unat_next [of n] by (auto simp: word_less_nat_alt word_le_nat_alt)

text \<open>\<open>abort1\<close>: whatever fails in it, the roots are good ones and the transaction is over.\<close>

lemma abort1_ok:
  assumes "failed cl S r0 s"
    and c: "c \<Longrightarrow> over (snd s) \<noteq> 0 \<Longrightarrow> noleft S (tree (fst s)) \<and> (\<forall>x v i. chunk (tree (fst s)) S x v i \<noteq> None \<longrightarrow>
      v \<le> over (snd s) \<and> (v = over (snd s) \<longrightarrow> packkey S x v i \<in> set (txkeys (snd s))))"
  shows "outcome (abort1 s)
    (\<lambda>_ s'. failed cl S r0 s' \<and> over (snd s') = 0 \<and>
      (over (snd s) \<noteq> 0 \<longrightarrow> hn (hdrof S (tree (fst s'))) = hn (hdrof S (tree (fst s))) \<and> orec (snd s') = [] \<and> ((cl \<longrightarrow> c) \<longrightarrow> idle cl S r0 s')))
    (\<lambda>s'. failed cl S r0 s')"
proof (cases "over (snd s) = 0")
  case True
  then show ?thesis using assms by (simp add: abort1_def)
next
  case False
  let ?tx = "snd s" and ?h = "hdrof S (tree (fst s))" and ?s = "(fst s, (snd s)\<lparr>omb := []\<rparr>)"
  let ?X = "oids ?tx" and ?I = "duringtx c S (hdrof S (tree (fst s))) (over (snd s)) (oids (snd s))"
  let ?E = "\<lambda>s'. traced cl S r0 (roots (fst s')) \<and> punctual (fst s') \<and> ostore (snd s') = S"
  let ?F = "\<lambda>s'. ?E s' \<and> hn (hdrof S (tree (fst s'))) = hn ?h \<and> (c \<longrightarrow> noleft S (tree (fst s')) \<and>
    (\<forall>x v i. chunk (tree (fst s')) S x v i \<noteq> None \<longrightarrow> v \<le> hn ?h))"
  have f: "traced cl S r0 (roots (fst s))" "punctual (fst s)" "ostore ?tx = S" "hn ?h + 1 = over ?tx" "hn ?h < over ?tx" "hw ?h = over ?tx"
    "\<And>x. has (tree (fst s)) S x (over ?tx) \<Longrightarrow> x \<in> ?X" "\<forall>e \<in> set (oents ?tx). 0 < enidx e" using assms False unfolding failed_def by blast+
  have ok: "txst cl S ?I r0 ?s" using f c [OF _ False] by (simp add: txst_def duringtx_def)
  have ks: "\<forall>k \<in> set (txkeys ((snd s)\<lparr>omb := []\<rparr>)). msgfits cl S ?I (clob k) \<and> length k \<le> Objksz"
    using f(3) fits_unpub [OF f(5)] by (auto simp: txkeys_mem)
  have body: "outcome (bindM (addkeys (txkeys ((snd s)\<lparr>omb := []\<rparr>))) (\<lambda>_. bindM flushtx (\<lambda>_. bindM (gett ostore) (\<lambda>store. bindM (getw tree) (\<lambda>t.
      bindM (liftM (gethdr t store)) (\<lambda>h. puthdr store (h\<lparr>hw := hn h\<rparr>)))))) ?s) (\<lambda>_. ?F) ?E"
  proof (rule outcome_seq, rule addkeys_ok [OF ok ks])
    show "?E s'" if "txst cl S ?I r0 s' \<and> alike ?s s'" for s'
      using that f(3) txlikeD(1) [of "(snd s)\<lparr>omb := []\<rparr>" "snd s'"] by (simp add: txst_def alike_def)
    fix s1 assume a: "txst cl S ?I r0 s1 \<and> eff s1 = kvmsgs (map clob (txkeys ((snd s)\<lparr>omb := []\<rparr>))) (eff ?s) \<and> alike ?s s1"
    show "outcome (bindM flushtx (\<lambda>_. bindM (gett ostore) (\<lambda>store. bindM (getw tree) (\<lambda>t.
      bindM (liftM (gethdr t store)) (\<lambda>h. puthdr store (h\<lparr>hw := hn h\<rparr>))))) s1) (\<lambda>_. ?F) ?E"
    proof (rule outcome_seq, rule flushtx_ok [OF conjunct1 [OF a]])
      show "?E s'" if "txst cl S ?I r0 s' \<and> alike s1 s' \<and> snd s' = snd s1" for s'
        using that a f(3) txlikeD(1) [of "(snd s)\<lparr>omb := []\<rparr>" "snd s1"] by (simp add: txst_def alike_def)
      fix s2 assume b: "txst cl S ?I r0 s2 \<and> omb (snd s2) = [] \<and> eff s2 = eff s1 \<and> alike s1 s2"
      let ?t = "tree (fst s2)"
      have st: "ostore (snd s2) = S" using a b f(3) txlikeD(1) [of "(snd s)\<lparr>omb := []\<rparr>" "snd s1"] txlikeD(1) [of "snd s1" "snd s2"] by (simp add: alike_def)
      have t2: "traced cl S r0 (roots (fst s2))" "rootok S ?t" "hdrof S ?t = ?h" "punctual (fst s2)" "c \<longrightarrow> noleft S ?t" using b traced_hd by (auto simp: txst_def duringtx_def)
      have te: "?t = kvmsgs (map clob (txkeys ((snd s)\<lparr>omb := []\<rparr>))) (tree (fst s))" 
      proof -
        have "?t = eff s2" using b by (simp add: eff_def)
        also have "\<dots> = eff s1" using b by simp
        also have "\<dots> = kvmsgs (map clob (txkeys ((snd s)\<lparr>omb := []\<rparr>))) (eff ?s)" using a by simp
        also have "eff ?s = tree (fst s)" by (simp add: eff_def)
        finally show ?thesis .
      qed
      have o: "kvsorted (tree (fst s))" using traced_hd [OF f(1)] by (simp add: rootok_def)
      have "\<not> has ?t S x (over ?tx)" for x
      proof
        assume h: "has ?t S x (over ?tx)"
        then have l: "lk ?t (packkey S x (over ?tx) 0) \<noteq> None" by (auto simp: has_def chunk_def split: option.splits)
        have "lk ?t k = lk (tree (fst s)) k \<or> lk ?t k = None" for k unfolding te lk_clobs [OF o] by simp
        with h have "has (tree (fst s)) S x (over ?tx)" unfolding has_def chunk_def by (metis option.case(1))
        with f(7,8) obtain e where e: "e \<in> set (oents ?tx)" "eoid e = x" "0 < enidx e" by (auto simp: oids_def)
        then have "packkey S x (over ?tx) 0 \<in> set (txkeys ((snd s)\<lparr>omb := []\<rparr>))"
          unfolding txkeys_mem using f(3) by (intro bexI [of _ e] exI [of _ 0]) (auto simp: unat_gt_0)
        with l show False unfolding te lk_clobs [OF o] by simp
      qed
      note no = this
      have hv: "v \<le> hn ?h" if "has ?t S x v" for x v
      proof -
        have "v \<le> hw ?h" using that t2(2,3) by (auto simp: rootok_def)
        moreover have "v \<noteq> over ?tx" using no that by blast
        ultimately have "v < hn ?h + 1" using f(4,6) by simp
        then show ?thesis using f(4,5) less_next [of "hn ?h" v] by simp
      qed
      have cv: "v \<le> hn ?h" if c "chunk ?t S x v i \<noteq> None" for x v i
      proof -
        have "chunk (tree (fst s)) S x v i \<noteq> None" "packkey S x v i \<notin> set (txkeys ((snd s)\<lparr>omb := []\<rparr>))"
          using that(2) unfolding chunk_def te lk_clobs [OF o] by (auto split: if_splits)
        moreover have "txkeys ((snd s)\<lparr>omb := []\<rparr>) = txkeys (snd s)" by (simp add: txkeys_def)
        ultimately have "v \<le> over ?tx" "v \<noteq> over ?tx" using c [OF that(1) False] by auto
        then have "v < hn ?h + 1" using f(4) by (simp add: order_less_le)
        then show ?thesis using f(4,5) less_next [of "hn ?h" v] by simp
      qed
      have g: "gethdr ?t S = Inr ?h" using t2(2,3) by (simp add: rootok_def)
      let ?m = "\<lparr>kk = hkey S, kv = packhdr (?h\<lparr>hw := hn ?h\<rparr>), mop = Oinsert\<rparr>"
      have q: "rootok S (kvmsg ?m ?t)" "ostep cl S ?t (kvmsg ?m ?t)" "noleft S ?t \<Longrightarrow> noleft S (kvmsg ?m ?t)" 
        by (rule hdr_quiet [OF t2(2) refl, of _ "hn ?h"], use t2(3) hv in simp_all)+
      have "outcome (upsert [?m] s2) (\<lambda>_. ?F) ?E"
      proof (rule outcome_mono [OF upsert1_ok [OF t2(4)]])
        have lu: "length (huser (?h\<lparr>hw := hn ?h\<rparr>)) \<le> Objuser" using huser_bound [OF g] by simp
        note m = hdr_msg [OF t2(2) refl lu]
        show "?F s'" if "roots (fst s') = kvmsg ?m ?t # roots (fst s2) \<and> alike s2 s' \<and> snd s' = snd s2 \<and> punctual (fst s')" for s'
          using that traced_Cons [OF t2(1) q(1,2)] st q(3) t2(5) m(3,5) cv by simp
      qed (use t2(1) st in auto)
      then show "outcome (bindM (gett ostore) (\<lambda>store. bindM (getw tree) (\<lambda>t. bindM (liftM (gethdr t store)) (\<lambda>h. puthdr store (h\<lparr>hw := hn h\<rparr>)))) s2) (\<lambda>_. ?F) ?E"
        by (simp add: bindM_def [of "liftM _"] liftM_def st g puthdr_def)
    qed
  qed
  have e: "outcome (endtx s') (\<lambda>_ s''. failed cl S r0 s'') (\<lambda>_. False)" if "?E s'" for s'
    by (rule outcome_mono [OF endtx_ok]) (use that in \<open>auto simp: failed_def punctual_def\<close>)
  have ef: "outcome (endtx s') (\<lambda>_ s''. failed cl S r0 s'' \<and> over (snd s'') = 0 \<and> hn (hdrof S (tree (fst s''))) = hn ?h \<and> orec (snd s'') = [] \<and> ((cl \<longrightarrow> c) \<longrightarrow> idle cl S r0 s'')) (\<lambda>_. False)"
    if "?F s'" for s'
    by (rule outcome_mono [OF endtx_ok]) (use that in \<open>auto simp: failed_def idle_def punctual_def\<close>)
  have "outcome (catchM (bindM (modt (\<lambda>tx. tx\<lparr>omb := []\<rparr>)) (\<lambda>_. bindM (gett txkeys) (\<lambda>ks. bindM (addkeys ks) (\<lambda>_. bindM flushtx (\<lambda>_.
      bindM (gett ostore) (\<lambda>store. bindM (getw tree) (\<lambda>t. bindM (liftM (gethdr t store)) (\<lambda>h. puthdr store (h\<lparr>hw := hn h\<rparr>)))))))))
      (\<lambda>e. bindM endtx (\<lambda>_. failM (Err e))) s) (\<lambda>_. ?F) (\<lambda>s'. failed cl S r0 s')"
  proof (rule outcome_catch [where R = ?E])
    show "outcome (bindM endtx (\<lambda>_. failM (Err e)) s') (\<lambda>_. ?F) (\<lambda>s'. failed cl S r0 s')" if "?E s'" for e s'
      by (rule outcome_seq, rule e [OF that]) auto
  qed (use body in simp)
  then show ?thesis unfolding abort1_def bindM_simps if_not_P [OF False]
    by (rule outcome_seq, simp) (rule outcome_mono [OF ef], use False in auto)
qed

section \<open>The start of a transaction\<close>

lemma bindM_liftM [simp]: "bindM (liftM (Inr h)) f s = f h s"
  by (simp add: bindM_def liftM_def)

text \<open>The unpublished versions, all of them.\<close>

lemma sweep_unpub:
  assumes "txst cl S (duringtx cl S h ver X) r0 s" "omb (snd s) = []"
  shows "outcome (sweep (hkey S) dropunpub (hn h) s)
    (\<lambda>_ s'. txst cl S (duringtx cl S h ver X) r0 s' \<and> alike s s' \<and> omb (snd s') = [] \<and>
      (\<forall>x v i. hn h < v \<longrightarrow> chunk (tree (fst s')) S x v i = None) \<and> (\<forall>k. lk (tree (fst s')) k = lk (tree (fst s)) k \<or> lk (tree (fst s')) k = None))
    (\<lambda>s'. txst cl S (duringtx cl S h ver X) r0 s' \<and> alike s s')"
proof -
  let ?A = "\<lambda>fr a. a = hn h" and ?B = "\<lambda>k. length k = Objksz \<and> keyver k > hn h"
  have d: "dropsok cl S (duringtx cl S h ver X) dropunpub ?A fr ks" if "\<forall>k \<in> set ks. hasprefix (hkey S) k" for fr ks
    using that
  proof (induction ks arbitrary: fr)
    case (Cons k ks)
    have "msgfits cl S (duringtx cl S h ver X) (clob k) \<and> length k \<le> Objksz" if "length k = Objksz" "hn h < keyver k"
    proof -
      from packkey_surj [of S k] Cons.prems that(1) obtain x v i where "k = packkey S x v i" by auto
      with that(2) fits_unpub [of h v] show ?thesis by simp
    qed
    with Cons show ?case by (auto simp: dropunpub_def)
  qed simp
  have "outcome (sweep (hkey S) dropunpub (hn h) s)
    (\<lambda>_ s'. txst cl S (duringtx cl S h ver X) r0 s' \<and> alike s s' \<and> omb (snd s') = [] \<and> sweptall (hkey S) None ?B (tree (fst s)) (tree (fst s')))
    (\<lambda>s'. txst cl S (duringtx cl S h ver X) r0 s' \<and> alike s s')"
  proof (rule sweep_ok [OF assms, where A = ?A and B = ?B])
    show "dropsok cl S (duringtx cl S h ver X) dropunpub ?A fr (map kk (scanned (hkey S) fr t))" for t fr by (rule d) (auto simp: scanned_def)
  qed (auto simp: dropunpub_def)
  then show ?thesis
  proof (rule outcome_mono)
    fix s' assume a: "txst cl S (duringtx cl S h ver X) r0 s' \<and> alike s s' \<and> omb (snd s') = [] \<and> sweptall (hkey S) None ?B (tree (fst s)) (tree (fst s'))"
    then have "\<forall>x v i. hn h < v \<longrightarrow> chunk (tree (fst s')) S x v i = None" by (simp add: sweptall_def chunk_def follows_def)
    moreover have "lk (tree (fst s')) k = lk (tree (fst s)) k \<or> lk (tree (fst s')) k = None" for k using a by (auto simp: sweptall_def)
    ultimately show "txst cl S (duringtx cl S h ver X) r0 s' \<and> alike s s' \<and> omb (snd s') = [] \<and>
      (\<forall>x v i. hn h < v \<longrightarrow> chunk (tree (fst s')) S x v i = None) \<and> (\<forall>k. lk (tree (fst s')) k = lk (tree (fst s)) k \<or> lk (tree (fst s')) k = None)"
      using a by simp
  qed simp
qed

text \<open>The state between the sweep of \<open>begin\<close> and its header.\<close>

definition cleared :: "bool \<Rightarrow> u64 \<Rightarrow> Kvp list \<Rightarrow> Ohdr \<Rightarrow> Ow \<times> Otx \<Rightarrow> bool" where
  "cleared cl S r0 h s \<longleftrightarrow> traced cl S r0 (roots (fst s)) \<and> punctual (fst s) \<and> hdrof S (tree (fst s)) = h \<and> (cl \<longrightarrow> noleft S (tree (fst s))) \<and>
     (\<forall>x v. has (tree (fst s)) S x v \<longrightarrow> v \<le> hn h) \<and> (cl \<longrightarrow> (\<forall>x v i. chunk (tree (fst s)) S x v i \<noteq> None \<longrightarrow> v \<le> hn h)) \<and> omb (snd s) = []"

lemma begin_clears:
  assumes i: "idle cl S r0 s" and h: "h = hdrof S (tree (fst s))"
  shows "outcome ((if hw h > hn h then sweep (hkey S) dropunpub (hn h) else retM ()) s)
    (\<lambda>_ s'. cleared cl S r0 h s' \<and> alike s s') (\<lambda>s'. traced cl S r0 (roots (fst s')) \<and> punctual (fst s') \<and> alike s s')"
proof (cases "hw h > hn h")
  case True
  have ok: "txst cl S (duringtx cl S h 0 UNIV) r0 s" using i h by (simp add: idle_def txst_def duringtx_def)
  have "omb (snd s) = []" using i by (simp add: idle_def)
  from sweep_unpub [OF ok this] show ?thesis unfolding if_P [OF True]
  proof (rule outcome_mono)
    fix s' assume a: "txst cl S (duringtx cl S h 0 UNIV) r0 s' \<and> alike s s' \<and> omb (snd s') = [] \<and>
      (\<forall>x v i. hn h < v \<longrightarrow> chunk (tree (fst s')) S x v i = None) \<and> (\<forall>k. lk (tree (fst s')) k = lk (tree (fst s)) k \<or> lk (tree (fst s')) k = None)"
    have c: "v \<le> hn h" if "chunk (tree (fst s')) S x v i \<noteq> None" for x v i using a that by (metis not_le)
    moreover have "v \<le> hn h" if "has (tree (fst s')) S x v" for x v using c has_chunk [OF that] by blast
    ultimately show "cleared cl S r0 h s' \<and> alike s s'" using a by (auto simp: cleared_def txst_def duringtx_def)
  qed (simp add: txst_def)
next
  case False
  have r: "rootok S (tree (fst s))" using i traced_hd [of cl S r0 "roots (fst s)"] by (simp add: idle_def)
  then have w: "hw h = hn h" using False h by (auto simp: rootok_def)
  then show ?thesis using i h r False by (auto simp: cleared_def idle_def rootok_def)
qed

definition begun :: "Otx \<Rightarrow> Otx \<Rightarrow> bool" where
  "begun tx tx' \<longleftrightarrow> orec tx' = orec tx \<and> oents tx' = [] \<and> obytes tx' = 0 \<and> oleft tx' = 0 \<and> oinuser tx' = 0 \<and> onewuser tx' = False"

lemma begin_ok:
  assumes i: "idle cl S r0 s" and n: "hn (hdrof S (tree (fst s))) < hn (hdrof S (tree (fst s))) + 1"
  shows "outcome (begin_tx s)
    (\<lambda>_ s'. opened cl S r0 s' \<and> begun (snd s) (snd s') \<and> hn (hdrof S (tree (fst s'))) = hn (hdrof S (tree (fst s)))) (\<lambda>s'. failed cl S r0 s')"
proof -
  define h where "h = hdrof S (tree (fst s))"
  let ?tx = "(snd s)\<lparr>oabort := True\<rparr>" and ?s = "(fst s, (snd s)\<lparr>oabort := True\<rparr>)"
  have f: "traced cl S r0 (roots (fst s))" "punctual (fst s)" "ostore (snd s) = S" "over (snd s) = 0" "omb (snd s) = []" "oleft (snd s) = 0" "oinuser (snd s) = 0"
    using i by (simp_all add: idle_def)
  have g: "gethdr (tree (fst s)) S = Inr h" using traced_hd [OF f(1)] by (simp add: rootok_def h_def)
  have i': "idle cl S r0 ?s" using i by (simp add: idle_def)
  let ?F = "\<lambda>s'. traced cl S r0 (roots (fst s')) \<and> punctual (fst s') \<and> alike ?s s'"
  have fail: "failed cl S r0 s'" if "?F s'" for s'
    using that f(3,4) txlikeD(1,2) [of ?tx "snd s'"] by (simp add: failed_def alike_def)
  let ?Q = "\<lambda>_ s'. opened cl S r0 s' \<and> begun (snd s) (snd s') \<and> hn (hdrof S (tree (fst s'))) = hn h"
  have main: "outcome (bindM (if hw h > hn h then sweep (hkey S) dropunpub (hn h) else retM ()) (\<lambda>_. let h = h\<lparr>hw := hn h + 1\<rparr> in
      bindM (puthdr S h) (\<lambda>_. bindM (modt (\<lambda>tx. tx\<lparr>over := hw h, oents := [], obytes := 0, onewuser := False\<rparr>)) (\<lambda>_.
      bindM (gett oaddr) (\<lambda>addr. modw (\<lambda>w. w\<lparr>otxs := (addr, S) # otxs w\<rparr>))))) ?s) ?Q (\<lambda>s'. failed cl S r0 s')"
  proof (rule outcome_seq, rule begin_clears [OF i'], simp add: h_def, rule fail, assumption, unfold Let_def, elim conjE)
    fix s1 assume c: "cleared cl S r0 h s1" and a1: "alike ?s s1"
    let ?t = "tree (fst s1)" and ?m = "\<lparr>kk = hkey S, kv = packhdr (h\<lparr>hw := hn h + 1\<rparr>), mop = Oinsert\<rparr>"
    have t: "traced cl S r0 (roots (fst s1))" "punctual (fst s1)" "hdrof S ?t = h" "omb (snd s1) = []" "cl \<longrightarrow> noleft S ?t" using c by (simp_all add: cleared_def)
    have hv: "v \<le> hn h" if "has ?t S x v" for x v using c that by (simp add: cleared_def)
    note r = traced_hd [OF t(1)]
    have q: "rootok S (kvmsg ?m ?t)" "ostep cl S ?t (kvmsg ?m ?t)" "noleft S ?t \<Longrightarrow> noleft S (kvmsg ?m ?t)"
    proof -
      have w: "hn h + 1 = hn (hdrof S ?t) \<or> hn h + 1 = hn (hdrof S ?t) + 1 \<and> hn (hdrof S ?t) < hn h + 1" using t(3) n by (simp add: h_def)
      have w2: "v \<le> hn h + 1" if "has ?t S x v" for x v using hv [OF that] n by (simp add: h_def)
      note q = hdr_quiet [OF r refl _ w w2]
      show "rootok S (kvmsg ?m ?t)" "ostep cl S ?t (kvmsg ?m ?t)" "noleft S ?t \<Longrightarrow> noleft S (kvmsg ?m ?t)" by (rule q, use t(3) in simp_all)+
    qed
    have lu: "length (huser (h\<lparr>hw := hn h + 1\<rparr>)) \<le> Objuser" using huser_bound [OF g] by simp
    note m = hdr_msg [OF r refl lu]
    show "outcome (bindM (puthdr S (h\<lparr>hw := hn h + 1\<rparr>)) (\<lambda>_. bindM (modt (\<lambda>tx. tx\<lparr>over := hw (h\<lparr>hw := hn h + 1\<rparr>), oents := [], obytes := 0, onewuser := False\<rparr>)) (\<lambda>_.
        bindM (gett oaddr) (\<lambda>addr. modw (\<lambda>w. w\<lparr>otxs := (addr, S) # otxs w\<rparr>)))) s1) ?Q (\<lambda>s'. failed cl S r0 s')"
      unfolding puthdr_def
    proof (rule outcome_seq, rule upsert1_ok [OF t(2)])
      show "failed cl S r0 s'" if "roots (fst s') = roots (fst s1) \<and> alike s1 s' \<and> snd s' = snd s1 \<and> punctual (fst s')" for s'
        using that t(1) a1 alike_trans [OF a1] by (intro fail) auto
      fix s2 assume b: "roots (fst s2) = kvmsg ?m ?t # roots (fst s1) \<and> alike s1 s2 \<and> snd s2 = snd s1 \<and> punctual (fst s2)"
      have x2: "txlike ?tx (snd s2)" using a1 b by (simp add: alike_def)
      have n': "hn h < hn h + 1" using n by (simp add: h_def)
      have c0: "\<not> hn h + 1 \<le> v" if "v \<le> hn h" for v using that n' by (metis not_le order_trans)
      have no: "\<not> has (kvmsg ?m ?t) S x (hn h + 1)" for x using m(6) hv [of x "hn h + 1"] n' by auto
      have td: "tidy S (hn h + 1) (kvmsg ?m ?t)" if cl
        unfolding tidy_def m(5)
      proof (intro allI impI)
        fix x v i assume "chunk ?t S x v i \<noteq> None"
        with c that have "v \<le> hn h" unfolding cleared_def by blast
        then have "v < hn h + 1" using less_next [OF n'] by blast
        then show "v \<le> hn h + 1 \<and> (v = hn h + 1 \<longrightarrow> has (kvmsg ?m ?t) S x v)" by auto
      qed
      let ?s2 = "((fst s2)\<lparr>otxs := (oaddr (snd s2), S) # otxs (fst s2)\<rparr>, (snd s2)\<lparr>over := hn h + 1, oents := [], obytes := 0, onewuser := False\<rparr>)"
      have e2: "eff ?s2 = kvmsg ?m ?t" using b t(4) by (simp add: eff_def)
      have "opentx cl S r0 {} ?s2" unfolding opentx_def
        using b t traced_Cons [OF t(1) q(1,2)] q(3) m(3) n' no txlikeD(1) [OF x2] f(3) by (simp add: punctual_def)
      moreover have "hn h + 1 \<noteq> 0" using n' by (metis word_not_simps(1))
      moreover have "covered S (kvmsg ?m ?t) (snd ?s2)" if cl
      proof -
        have "chunk (kvmsg ?m ?t) S x (hn h + 1) i = None" for x i using td [OF that] no [of x] unfolding tidy_def by blast
        then show ?thesis by (simp add: covered_def)
      qed
      ultimately have "opened cl S r0 ?s2" unfolding opened_def e2 using td txlikeD(5,9) [OF x2] f(6,7) by (simp add: oids_def)
      moreover have "begun (snd s) (snd ?s2)" unfolding begun_def using txlikeD [OF x2] f(6,7) by simp
      moreover have "hn (hdrof S (tree (fst ?s2))) = hn h" using b m(3) by simp
      ultimately show "outcome (bindM (modt (\<lambda>tx. tx\<lparr>over := hw (h\<lparr>hw := hn h + 1\<rparr>), oents := [], obytes := 0, onewuser := False\<rparr>)) (\<lambda>_.
          bindM (gett oaddr) (\<lambda>addr. modw (\<lambda>w. w\<lparr>otxs := (addr, S) # otxs w\<rparr>))) s2) ?Q (\<lambda>s'. failed cl S r0 s')"
        by simp
    qed
  qed
  have ff: "failed cl S r0 s" using f by (simp add: failed_def)
  show ?thesis using main ff g by (cases "hn h < hw h") (simp_all add: begin_tx_def f(3,4) flip: h_def)
qed

end
