(* ===== verification/Gefs_Objcommit.thy ===== *)
theory Gefs_Objcommit
  imports Gefs_Objtx
begin

text \<open>
  The commit of a transaction: the header that publishes it, and the sweep of the versions that no
  kept version shows.
\<close>

section \<open>The history of one object\<close>

text \<open>The versions of \<open>x\<close> that the oldest kept version, or a later one, shows.\<close>

definition shown :: "u64 \<Rightarrow> Kvp list \<Rightarrow> u64 \<Rightarrow> u64 \<Rightarrow> u64 \<Rightarrow> bool" where
  "shown S r k x v \<longleftrightarrow> \<not> (\<exists>u. newest r S k x = Some u \<and> v < u)"

text \<open>What every root satisfies while the history of \<open>x\<close> is swept, from the root \<open>r1\<close> on.\<close>

definition oldtx :: "bool \<Rightarrow> u64 \<Rightarrow> Ohdr \<Rightarrow> u64 \<Rightarrow> Kvp list \<Rightarrow> Kvp list \<Rightarrow> bool" where
  "oldtx cl S h x r1 r \<longleftrightarrow> hdrof S r = h \<and> has r S x (hn h) \<and> (cl \<longrightarrow> noleft S r) \<and> (\<forall>k. lk r k = lk r1 k \<or> lk r k = None) \<and>
     (\<forall>y. has r1 S y (hn h) \<longrightarrow> has r S y (hn h)) \<and> (\<forall>y. view r S (hn h) y = view r1 S (hn h) y) \<and>
     (cl \<longrightarrow> (\<forall>v i. shown S r1 (hk h) x v \<longrightarrow> chunk r S x v i = chunk r1 S x v i))"

lemma ostep_quiet: "ostep cl S r r' \<Longrightarrow> hdrof S r' = hdrof S r \<Longrightarrow> quiet cl S r r'"
  by (auto simp: ostep_def publishes_def)

lemma fits_old:
  assumes w: "w < hn h" "cl \<Longrightarrow> \<not> shown S r1 (hk h) x w" and r1: "rootok S r1"
  shows "msgfits cl S (oldtx cl S h x r1) (clob (packkey S x w i))"
  unfolding msgfits_def
proof (intro allI impI)
  fix r assume a: "rootok S r \<and> oldtx cl S h x r1 r"
  let ?m = "clob (packkey S x w i)" and ?r = "kvmsg (clob (packkey S x w i)) r"
  have r: "rootok S r" "hdrof S r = h" "has r S x (hn h)" using a by (simp_all add: oldtx_def)
  have o: "kvsorted r" "kvsorted r1" using r(1) r1 by (simp_all add: rootok_def)
  from w(2) obtain u where u: "cl \<Longrightarrow> newest r1 S (hk h) x = Some u \<and> w < u" by (auto simp: shown_def)
  have u': "w < u \<and> u \<le> hk (hdrof S r) \<and> has r S x u" if cl
  proof -
    have n: "u \<le> hk h" "has r1 S x u" using u [OF that] newest_Some [OF o(2)] by blast+
    have "shown S r1 (hk h) x u" using u [OF that] by (simp add: shown_def)
    then have "chunk r S x u 0 = chunk r1 S x u 0" using a that by (simp add: oldtx_def)
    with n u [OF that] r(2) show ?thesis by (simp add: has_def)
  qed
  have m: "kk ?m = packkey S x w i" "mop ?m \<noteq> Oinsert" "w < hn (hdrof S r)" "has r S x (hn (hdrof S r))" using r w(1) by simp_all
  note f = old_msg [OF r(1) m u', of cl]
  have l: "lk ?r k = (if k = packkey S x w i then None else lk r k)" for k using lk_kvmsg [OF o(1), of ?m k] by simp
  have c: "chunk ?r S y v j = chunk r S y v j" if "v \<noteq> w" for y v j using that by (simp add: chunk_def l)
  then have hs: "has ?r S y (hn h) = has r S y (hn h)" for y using w(1) by (simp add: has_def)
  have q: "view ?r S (hn h) y = view r S (hn h) y" for y using ostep_quiet [OF f(2,3)] r(2) by (simp add: quiet_def)
  have "lk ?r k = lk r1 k \<or> lk ?r k = None" for k using a l [of k] by (auto simp: oldtx_def)
  moreover have "chunk ?r S x v j = chunk r1 S x v j" if cl "shown S r1 (hk h) x v" for v j
  proof -
    have "v \<noteq> w" using that w(2) by auto
    with c [of v x j] a that show ?thesis by (simp add: oldtx_def)
  qed
  ultimately have "oldtx cl S h x r1 ?r" using a f(3,4) hs q unfolding oldtx_def by auto
  with f(1,2) show "rootok S ?r \<and> ostep cl S r ?r \<and> oldtx cl S h x r1 ?r" by blast
qed

lemma scanned_tl:
  assumes "kvsorted t" "scanned pfx fr t = e # es"
  shows "scanned pfx (Some (kk e)) t = es"
proof -
  have o: "kvsorted (e # es)" using ordered_scanned [OF assms(1), of pfx fr] assms(2) by simp
  have e: "e \<in> set (scanned pfx fr t)" using assms(2) by simp
  have "scanned pfx (Some (kk e)) t = filter (\<lambda>x. kk e < kk x) (scanned pfx fr t)"
    using e unfolding scanned_def filter_filter by (intro filter_cong) (auto split: option.splits)
  also have "\<dots> = filter (\<lambda>x. kk e < kk x) es" using assms(2) by simp
  also have "\<dots> = es" using o by (intro filter_True) (auto simp: kvsorted_def)
  finally show ?thesis .
qed

text \<open>
  What is known of the argument of \<open>dropold\<close> when the keys up to \<open>fr\<close> have been looked at: while nothing is to be kept, no
  version up to the oldest kept has come; the version to be kept is the newest of them.
\<close>

definition oldarg :: "bool \<Rightarrow> u64 \<Rightarrow> Ohdr \<Rightarrow> u64 \<Rightarrow> Kvp list \<Rightarrow> bytes option \<Rightarrow> Oold \<Rightarrow> bool" where
  "oldarg cl S h x r1 fr a \<longleftrightarrow> oldk a = hk h \<and>
     (if oldkeep a = 0
      then cl \<longrightarrow> (\<forall>v i l. fr = Some l \<and> packkey S x v i \<le> l \<and> chunk r1 S x v i \<noteq> None \<and> shown S r1 (hk h) x v \<longrightarrow> hk h < v \<or> v = 0)
      else oldkeep a \<le> hk h \<and> (cl \<longrightarrow> newest r1 S (hk h) x = Some (oldkeep a)))"

lemma newest_first:
  assumes "rootok S r1" "noleft S r1" "hk (hdrof S r1) \<le> hn (hdrof S r1)" "chunk r1 S x v i \<noteq> None" "v \<le> hk (hdrof S r1)"
    and u: "\<And>u. newest r1 S (hk (hdrof S r1)) x = Some u \<Longrightarrow> u \<le> v"
  shows "newest r1 S (hk (hdrof S r1)) x = Some v"
proof -
  let ?K = "hk (hdrof S r1)"
  have o: "kvsorted r1" using assms(1) by (simp add: rootok_def)
  have h: "has r1 S x v"
  proof (rule ccontr)
    assume "\<not> has r1 S x v"
    with assms(2-5) obtain w where w: "v < w" "w \<le> ?K" "has r1 S x w" unfolding noleft_def by (meson order_trans)
    then obtain u where n: "newest r1 S ?K x = Some u" using newest_None [OF o, of S ?K x] by (cases "newest r1 S ?K x") auto
    with u have "u < w" using w(1) by (meson le_less_trans)
    with n w show False using newest_Some [OF o, of S ?K x u] by blast
  qed
  then obtain u where n: "newest r1 S ?K x = Some u" using newest_None [OF o, of S ?K x] assms(5) by (cases "newest r1 S ?K x") auto
  then have "v \<le> u" using newest_Some [OF o, of S ?K x u] h assms(5) by (meson not_le)
  with u [OF n] n show ?thesis by simp
qed

lemma dropold_ok:
  assumes r1: "rootok S r1" "hdrof S r1 = h" "cl \<longrightarrow> noleft S r1"
    and t: "oldtx cl S h x r1 t" "rootok S t"
  shows "dropsok cl S (oldtx cl S h x r1) dropold (oldarg cl S h x r1) fr (map kk (scanned (oidkey S x) fr t))"
proof (induction "scanned (oidkey S x) fr t" arbitrary: fr)
  case Nil
  then show ?case by (metis dropsok.simps(1) list.map(1))
next
  case (Cons e es)
  let ?k = "kk e" and ?I = "oldtx cl S h x r1" and ?A = "oldarg cl S h x r1"
  have o: "kvsorted t" using t(2) by (simp add: rootok_def)
  have e: "follows (oidkey S x) fr ?k" "lk t ?k \<noteq> None"
    using scanned_keys [OF o, of ?k "oidkey S x" fr] Cons.hyps(2) [symmetric] by auto
  have kn: "hk h \<le> hn h" using r1(1,2) by (auto simp: rootok_def)
  have sub: "chunk r1 S x v i \<noteq> None" if "chunk t S x v i \<noteq> None" for v i using t(1) that unfolding oldtx_def chunk_def by metis
  text \<open>No key of a version that is shown lies between.\<close>
  have btw: "packkey S x v i = ?k" if "cl" "chunk r1 S x v i \<noteq> None" "shown S r1 (hk h) x v" "packkey S x v i \<le> ?k" "\<And>l. fr = Some l \<Longrightarrow> l < packkey S x v i" for v i
  proof -
    have "lk t (packkey S x v i) \<noteq> None" using t(1) that(1-3) by (simp add: oldtx_def chunk_def)
    moreover have "follows (oidkey S x) fr (packkey S x v i)" using that(5) by (auto simp: follows_def split: option.splits)
    ultimately have "packkey S x v i \<in> set (map kk (e # es))" using scanned_keys [OF o, of "packkey S x v i" "oidkey S x" fr] Cons.hyps(2) by auto
    moreover have "\<forall>j \<in> set es. ?k < kk j" using ordered_scanned [OF o, of "oidkey S x" fr] Cons.hyps(2) [symmetric] by (simp add: kvsorted_def)
    ultimately show ?thesis using that(4) by auto
  qed
  have step: "?A (Some ?k) (snd (dropold ?k a)) \<and> (fst (dropold ?k a) \<longrightarrow> msgfits cl S ?I (clob ?k) \<and> length ?k \<le> Objksz)" if a: "?A fr a" for a
  proof (cases "length ?k = Objksz")
    case False
    have "hk h < v \<or> v = 0" if "cl" "oldkeep a = 0" "packkey S x v i \<le> ?k" "chunk r1 S x v i \<noteq> None" "shown S r1 (hk h) x v" for v i
    proof (cases "\<exists>l. fr = Some l \<and> packkey S x v i \<le> l")
      case True
      with a that show ?thesis by (auto simp: oldarg_def)
    next
      case F: False
      then have "packkey S x v i = ?k" using that by (intro btw) auto
      then have "length ?k = Objksz" by (metis length_keys(1))
      with False show ?thesis by simp
    qed
    with False a show ?thesis by (auto simp: dropold_def oldarg_def)
  next
    case True
    from e(1) True oidkey_surj [of S x ?k] obtain v i where k: "?k = packkey S x v i" by (auto simp: follows_def)
    have cv: "chunk r1 S x v i \<noteq> None" using e(2) k by (intro sub) (simp add: chunk_def)
    show ?thesis
    proof (cases "oldkeep a = 0")
      case z: True
      have old: "hk h < w \<or> w = 0" if "cl" "packkey S x w j \<le> ?k" "chunk r1 S x w j \<noteq> None" "shown S r1 (hk h) x w" "packkey S x w j \<noteq> ?k" for w j
      proof (cases "\<exists>l. fr = Some l \<and> packkey S x w j \<le> l")
        case True
        with a that z show ?thesis by (auto simp: oldarg_def)
      next
        case F: False
        then have "packkey S x w j = ?k" using that by (intro btw) auto
        with that(5) show ?thesis by simp
      qed
      have new: "newest r1 S (hk h) x = Some v" if "cl" "v \<le> hk h" "v \<noteq> 0"
      proof -
        have "u \<le> v" if n: "newest r1 S (hk h) x = Some u" for u
        proof (rule ccontr)
          assume "\<not> u \<le> v"
          then have uv: "v < u" by simp
          have hu: "u \<le> hk h" "has r1 S x u" using n newest_Some [of r1] r1(1) by (auto simp: rootok_def)
          have "shown S r1 (hk h) x u" using n by (simp add: shown_def)
          moreover have "packkey S x u 0 \<le> ?k" "packkey S x u 0 \<noteq> ?k" using uv by (auto simp: k le_less packkey_less)
          ultimately have "hk h < u \<or> u = 0" using old [OF \<open>cl\<close>] has_chunk [OF hu(2)] by blast
          with hu(1) uv show False by (metis not_le word_not_simps(1))
        qed
        then show ?thesis using newest_first [OF r1(1) _ _ cv] r1 that kn by simp
      qed
      show ?thesis
      proof (cases "v \<le> hk h")
        case True
        then show ?thesis using z new old k a by (auto simp: dropold_def oldarg_def)
      next
        case False
        have "hk h < w \<or> w = 0" if "cl" "packkey S x w j \<le> packkey S x v i" "chunk r1 S x w j \<noteq> None" "shown S r1 (hk h) x w" for w j
          using old [of w j] that k False by (cases "packkey S x w j = ?k") auto
        with False z k a show ?thesis by (auto simp: dropold_def oldarg_def)
      qed
    next
      case False
      then have ka: "oldkeep a \<le> hk h" "cl \<Longrightarrow> newest r1 S (hk h) x = Some (oldkeep a)" using a by (simp_all add: oldarg_def)
      have "msgfits cl S ?I (clob (packkey S x v i))" if "v < oldkeep a"
        using that ka kn by (intro fits_old r1(1)) (auto simp: shown_def)
      with False k a show ?thesis by (auto simp: dropold_def oldarg_def)
    qed
  qed
  have "dropsok cl S ?I dropold ?A (Some ?k) (map kk es)" using Cons.hyps(1) [of "Some ?k"] scanned_tl [OF o Cons.hyps(2) [symmetric]] by simp
  with step have "dropsok cl S ?I dropold ?A fr (map kk (e # es))" by simp
  then show ?case using Cons.hyps(2) by simp
qed

section \<open>The history of the transaction's objects\<close>

text \<open>After the publication: the tree has lost chunks since the root \<open>r2\<close>, and the published version shows the same.\<close>

definition histst :: "bool \<Rightarrow> u64 \<Rightarrow> Kvp list \<Rightarrow> Ohdr \<Rightarrow> Kvp list \<Rightarrow> Ow \<times> Otx \<Rightarrow> bool" where
  "histst cl S r0 h r2 s \<longleftrightarrow> traced cl S r0 (roots (fst s)) \<and> punctual (fst s) \<and> hdrof S (tree (fst s)) = h \<and> (cl \<longrightarrow> noleft S (tree (fst s))) \<and>
     (\<forall>k. lk (tree (fst s)) k = lk r2 k \<or> lk (tree (fst s)) k = None) \<and>
     (\<forall>y. has r2 S y (hn h) \<longrightarrow> has (tree (fst s)) S y (hn h)) \<and> (\<forall>y. view (tree (fst s)) S (hn h) y = view r2 S (hn h) y)"

lemma histst_okst:
  "histst cl S r0 h r2 s \<Longrightarrow> omb (snd s) = [] \<Longrightarrow> has r2 S x (hn h) \<Longrightarrow> txst cl S (oldtx cl S h x (tree (fst s))) r0 s"
  by (simp add: histst_def txst_def oldtx_def)

lemma okst_histst:
  assumes "histst cl S r0 h r2 s" "txst cl S (oldtx cl S h x (tree (fst s))) r0 s'"
  shows "histst cl S r0 h r2 s'"
proof -
  have t: "oldtx cl S h x (tree (fst s)) (tree (fst s'))" using assms(2) by (simp add: txst_def)
  have "lk (tree (fst s')) k = lk r2 k \<or> lk (tree (fst s')) k = None" for k
    using t assms(1) unfolding oldtx_def histst_def by metis
  with assms t show ?thesis unfolding histst_def txst_def oldtx_def by simp
qed

lemma sweepents_ok:
  "histst cl S r0 h r2 s \<Longrightarrow> omb (snd s) = [] \<Longrightarrow> \<forall>e \<in> set es. has r2 S (eoid e) (hn h) \<Longrightarrow>
   outcome (sweepents S (hk h) es s) (\<lambda>_ s'. histst cl S r0 h r2 s' \<and> alike s s') (\<lambda>s'. histst cl S r0 h r2 s' \<and> alike s s')"
proof (induction es arbitrary: s)
  case (Cons e es)
  let ?x = "eoid e" and ?t = "tree (fst s)" and ?H = "\<lambda>s'. histst cl S r0 h r2 s' \<and> alike s s'"
  have r: "rootok S ?t" "hdrof S ?t = h" "cl \<longrightarrow> noleft S ?t" using Cons.prems(1) traced_hd by (auto simp: histst_def)
  have hx: "has r2 S ?x (hn h)" using Cons.prems(3) by simp
  note ok = histst_okst [OF Cons.prems(1,2) hx]
  show ?case unfolding sweepents.simps
  proof (rule outcome_seq, rule sweep_ok [OF ok Cons.prems(2), where A = "oldarg cl S h ?x ?t" and B = "\<lambda>_. False"])
    show "oldarg cl S h ?x ?t None \<lparr>oldk = hk h, oldkeep = 0\<rparr>" by (simp add: oldarg_def)
    show "dropsok cl S (oldtx cl S h ?x ?t) dropold (oldarg cl S h ?x ?t) fr (map kk (scanned (oidkey S ?x) fr t))"
      if "oldtx cl S h ?x ?t t" "rootok S t" for t fr by (rule dropold_ok [OF r that])
    show "?H s'" if "txst cl S (oldtx cl S h ?x ?t) r0 s' \<and> alike s s'" for s' using that okst_histst [OF Cons.prems(1)] by blast
    fix s' assume a: "txst cl S (oldtx cl S h ?x ?t) r0 s' \<and> alike s s' \<and> omb (snd s') = [] \<and> sweptall (oidkey S ?x) None (\<lambda>_. False) ?t (tree (fst s'))"
    then have "histst cl S r0 h r2 s'" using okst_histst [OF Cons.prems(1)] by blast
    from Cons.IH [OF this] a Cons.prems(3) have "outcome (sweepents S (hk h) es s') (\<lambda>_ s''. histst cl S r0 h r2 s'' \<and> alike s' s'') (\<lambda>s''. histst cl S r0 h r2 s'' \<and> alike s' s'')" by simp
    then show "outcome (sweepents S (hk h) es s') (\<lambda>_. ?H) ?H" by (rule outcome_mono) (use a alike_trans [of s s'] in auto)
  qed simp_all
qed simp

section \<open>Commit\<close>

lemma newhdr_sel:
  assumes "length (huser h) \<le> Objuser" "onewuser tx \<Longrightarrow> length (ouser tx) \<le> Objuser" "hn h < over tx" "hk h \<le> hn h" "over tx \<noteq> 0"
  shows "hn (newhdr tx h) = over tx" "hw (newhdr tx h) = hw h" "hk h \<le> hk (newhdr tx h)" "hk (newhdr tx h) \<le> over tx" "length (huser (newhdr tx h)) \<le> Objuser"
proof -
  have k: "over tx - 2 \<le> over tx" if "3 \<le> over tx"
  proof -
    have "(2 :: u64) \<le> 3" by simp
    then have "2 \<le> over tx" using that by (rule order_trans)
    then show ?thesis by (simp add: word_sub_le)
  qed
  show "hn (newhdr tx h) = over tx" "hw (newhdr tx h) = hw h" "length (huser (newhdr tx h)) \<le> Objuser"
    using assms(1,2) by (auto simp: newhdr_def Let_def)
  have "hk h \<le> over tx" using assms(3,4) by simp
  moreover have "1 \<le> over tx" using assms(5) by (simp add: word_le_nat_alt unat_gt_0 Suc_le_eq)
  ultimately show "hk h \<le> hk (newhdr tx h)" "hk (newhdr tx h) \<le> over tx" using k by (auto simp: newhdr_def Let_def)
qed

lemma commit_ok:
  assumes s: "opened cl S r0 s" "oleft (snd s) = 0"
  shows "outcome (commit s)
    (\<lambda>_ s'. idle cl S r0 s' \<and> orec (snd s') = [] \<and> hn (hdrof S (tree (fst s'))) = over (snd s) \<and>
      (\<forall>x. view (tree (fst s')) S (over (snd s)) x = view (eff s) S (over (snd s)) x))
    (\<lambda>s'. failed cl S r0 s')"
proof -
  let ?ver = "over (snd s)" and ?X = "oids (snd s)"
  have p: "opentx cl S r0 ?X s" "?ver \<noteq> 0" "\<forall>x \<in> ?X. has (eff s) S x ?ver" "cl \<longrightarrow> tidy S ?ver (eff s)"
    "onewuser (snd s) \<Longrightarrow> length (ouser (snd s)) \<le> Objuser"
    using s by (auto simp: opened_def)
  let ?Q = "\<lambda>_ s'. idle cl S r0 s' \<and> orec (snd s') = [] \<and> hn (hdrof S (tree (fst s'))) = ?ver \<and> (\<forall>x. view (tree (fst s')) S ?ver x = view (eff s) S ?ver x)"
  have fl: "failed cl S r0 s'" if "opentx cl S r0 ?X s'" "txlike (snd s) (snd s')" for s'
    using that opentx_failed [of cl S r0 s'] txlikeD(3) [OF that(2)] by (simp add: oids_def)
  show ?thesis unfolding commit_def
  proof (subst bindM_simps(2), subst if_not_P [OF p(2)], rule outcome_seq, rule flushtx_open [OF p(1)], (rule fl; simp add: alike_def), elim conjE)
    fix s1 assume s1: "opentx cl S r0 ?X s1" "omb (snd s1) = []" "eff s1 = eff s" "alike s s1"
    let ?t = "tree (fst s1)" and ?h = "hdrof S (tree (fst s1))"
    have x1: "txlike (snd s) (snd s1)" using s1(4) by (simp add: alike_def)
    note f1 = txlikeD [OF x1]
    have te: "?t = eff s" using s1(2,3) eff_def [of s1] by simp
    have o1: "traced cl S r0 (roots (fst s1))" "punctual (fst s1)" "ostore (snd s1) = S" "hn ?h + 1 = ?ver" "hn ?h < ?ver" "hw ?h = ?ver" "cl \<longrightarrow> noleft S ?t"
      using s1(1) f1(2) by (auto simp: opentx_def)
    note r = traced_hd [OF o1(1)]
    have g: "gethdr ?t S = Inr ?h" using r by (simp add: rootok_def)
    let ?h2 = "newhdr (snd s1) ?h" let ?m = "\<lparr>kk = hkey S, kv = packhdr ?h2, mop = Oinsert\<rparr>" let ?r2 = "kvmsg ?m ?t"
    have kn: "hk ?h \<le> hn ?h" using r by (simp add: rootok_def)
    have nh: "hn ?h2 = ?ver" "hw ?h2 = ?ver" "hk ?h \<le> hk ?h2" "hk ?h2 \<le> ?ver" "length (huser ?h2) \<le> Objuser"
      using newhdr_sel [OF huser_bound [OF g], of "snd s1"] p(2,5) o1(5,6) f1 kn by simp_all
    note m = hdr_msg [OF r refl nh(5)]
    have r2: "rootok S ?r2" using r m nh o1(6) by (auto simp: rootok_def)
    have pub: "publishes S ?t ?r2" unfolding publishes_def m(3) using nh o1(4,5) m(4) by simp
    have "lk ?r2 k = lk ?t k" if "\<not> hasprefix (hkey S) k" for k using that by (intro m(4)) auto
    with pub have st: "ostep cl S ?t ?r2" by (simp add: ostep_def)
    have nl: "noleft S ?r2" if cl unfolding noleft_def m(3,5,6) nh(1)
    proof (intro allI impI)
      fix x w i assume a: "w \<le> ?ver \<and> chunk ?t S x w i \<noteq> None \<and> \<not> has ?t S x w"
      then have "w \<noteq> ?ver" using p(4) that te by (auto simp: tidy_def)
      then have "w < hn ?h + 1" using a o1(4) by (simp add: order_less_le)
      then have "w \<le> hn ?h" using less_next [of "hn ?h" w] o1(4,5) by simp
      with a that o1(7) obtain u where "w < u" "u \<le> hk ?h" "has ?t S x u" unfolding noleft_def by blast
      with nh(3) show "\<exists>u. w < u \<and> u \<le> hk ?h2 \<and> has ?t S x u" by (meson order_trans)
    qed
    show "outcome (bindM (gett ostore) (\<lambda>store. bindM (getw tree) (\<lambda>t. bindM (liftM (gethdr t store)) (\<lambda>h. if hw h \<noteq> ?ver then failM Ecorrupt else
        bindM (gett (\<lambda>tx. newhdr tx h)) (\<lambda>h. bindM (puthdr store h) (\<lambda>_. bindM (modt (\<lambda>tx. tx\<lparr>over := 0\<rparr>)) (\<lambda>_.
        bindM (catchM (bindM (getw objfail) (\<lambda>f. if f then bindM (modw (\<lambda>w. w\<lparr>objfail := False\<rparr>)) (\<lambda>_. failM (Err ''objfail: history sweep''))
          else bindM (gett oents) (\<lambda>es. sweepents store (hk h) es))) (\<lambda>_. modt (\<lambda>tx. tx\<lparr>omb := []\<rparr>))) (\<lambda>_. endtx))))))) s1) ?Q (\<lambda>s'. failed cl S r0 s')"
      unfolding puthdr_def
    proof (subst bindM_simps(2), subst bindM_simps(3), unfold o1(3), subst g, subst bindM_liftM, subst if_not_P [OF not_not [THEN iffD2, OF o1(6)]],
        subst bindM_simps(2), rule outcome_seq, rule upsert1_ok [OF o1(2)])
      show "failed cl S r0 s'" if "roots (fst s') = roots (fst s1) \<and> alike s1 s' \<and> snd s' = snd s1 \<and> punctual (fst s')" for s'
      proof (rule fl)
        show "opentx cl S r0 ?X s'" using s1(1) that by (simp add: opentx_def)
        show "txlike (snd s) (snd s')" using x1 that by simp
      qed
      fix s2 assume s2: "roots (fst s2) = ?r2 # roots (fst s1) \<and> alike s1 s2 \<and> snd s2 = snd s1 \<and> punctual (fst s2)"
      let ?s2 = "(fst s2, (snd s2)\<lparr>over := 0\<rparr>)"
      have hs: "histst cl S r0 ?h2 ?r2 ?s2" using s2 traced_Cons [OF o1(1) r2 st] nl m(3) by (simp add: histst_def)
      have es: "\<forall>e \<in> set (oents (snd s1)). has ?r2 S (eoid e) (hn ?h2)" using p(3) m(6) nh(1) te f1(3) by (simp add: oids_def)
      have hist: "outcome (catchM (bindM (getw objfail) (\<lambda>f. if f then bindM (modw (\<lambda>w. w\<lparr>objfail := False\<rparr>)) (\<lambda>_. failM (Err ''objfail: history sweep''))
          else bindM (gett oents) (\<lambda>es. sweepents S (hk ?h2) es))) (\<lambda>_. modt (\<lambda>tx. tx\<lparr>omb := []\<rparr>)) ?s2)
          (\<lambda>_ s'. histst cl S r0 ?h2 ?r2 s' \<and> ostore (snd s') = S) (\<lambda>s'. failed cl S r0 s')"
      proof (rule outcome_catch [where R = "\<lambda>s'. histst cl S r0 ?h2 ?r2 s' \<and> ostore (snd s') = S"])
        show "outcome (bindM (getw objfail) (\<lambda>f. if f then bindM (modw (\<lambda>w. w\<lparr>objfail := False\<rparr>)) (\<lambda>_. failM (Err ''objfail: history sweep''))
          else bindM (gett oents) (\<lambda>es. sweepents S (hk ?h2) es)) ?s2) (\<lambda>_ s'. histst cl S r0 ?h2 ?r2 s' \<and> ostore (snd s') = S) (\<lambda>s'. histst cl S r0 ?h2 ?r2 s' \<and> ostore (snd s') = S)"
        proof (cases "objfail (fst s2)")
          case True
          then show ?thesis using hs s2 o1(3) by (simp add: histst_def punctual_def)
        next
          case False
          have "omb (snd ?s2) = []" using s2 s1(2) by simp
          from sweepents_ok [OF hs this es] have "outcome (sweepents S (hk ?h2) (oents (snd s1)) ?s2) (\<lambda>_ s'. histst cl S r0 ?h2 ?r2 s' \<and> ostore (snd s') = S) (\<lambda>s'. histst cl S r0 ?h2 ?r2 s' \<and> ostore (snd s') = S)"
            by (rule outcome_mono) (use s2 o1(3) txlikeD(1) in \<open>fastforce simp: alike_def\<close>)+
          then show ?thesis using False s2 by simp
        qed
      qed (auto simp: histst_def)
      show "outcome (bindM (modt (\<lambda>tx. tx\<lparr>over := 0\<rparr>)) (\<lambda>_. bindM (catchM (bindM (getw objfail) (\<lambda>f. if f then bindM (modw (\<lambda>w. w\<lparr>objfail := False\<rparr>)) (\<lambda>_. failM (Err ''objfail: history sweep''))
          else bindM (gett oents) (\<lambda>es. sweepents S (hk ?h2) es))) (\<lambda>_. modt (\<lambda>tx. tx\<lparr>omb := []\<rparr>))) (\<lambda>_. endtx)) s2) ?Q (\<lambda>s'. failed cl S r0 s')"
      proof (subst bindM_simps(4), rule outcome_bind, rule hist)
        fix s' assume a: "histst cl S r0 ?h2 ?r2 s' \<and> ostore (snd s') = S"
        have td: "v \<le> ?ver" if cl "chunk (tree (fst s')) S x v i \<noteq> None" for x v i
        proof -
          have "chunk ?r2 S x v i \<noteq> None" using a that(2) unfolding histst_def chunk_def by metis
          then show ?thesis using p(4) that(1) te m(5) by (auto simp: tidy_def)
        qed
        have "outcome (endtx s') (\<lambda>_ s''. idle cl S r0 s'' \<and> orec (snd s'') = [] \<and> roots (fst s'') = roots (fst s')) (\<lambda>_. False)"
          by (rule endtx_idle) (use a td nh(1) in \<open>auto simp: histst_def\<close>)
        then show "outcome (endtx s') ?Q (\<lambda>s'. failed cl S r0 s')"
          by (rule outcome_mono) (use a nh(1) m(7) te in \<open>auto simp: histst_def\<close>)
      qed
    qed
  qed
qed

end
