(* ===== verification/Gefs_Objwrite.thy ===== *)
theory Gefs_Objwrite
  imports Gefs_Objcommit
begin

text \<open>
  The write stream of an object store, \<open>objwrite\<close>: the records and their data, and the theorems on
  what a write may do, whatever is written and whatever fails.
\<close>

section \<open>Chunks\<close>

lemma chunk_ins: "kvsorted r \<Longrightarrow> chunk (kvmsg \<lparr>kk = packkey S x v i, kv = c, mop = Oinsert\<rparr> r) S y w j = (if y = x \<and> w = v \<and> j = i then Some c else chunk r S y w j)"
  by (auto simp: chunk_kvmsg)

lemma has_ins: "kvsorted r \<Longrightarrow> has (kvmsg \<lparr>kk = packkey S x v i, kv = c, mop = Oinsert\<rparr> r) S y w = (if y = x \<and> w = v \<and> i = 0 then 4 \<le> length c else has r S y w)"
  by (auto simp: has_def chunk_ins)

text \<open>A chunk put in its place, the first one with the length in it.\<close>

lemma put_chunk:
  assumes o: "kvsorted r" and t: "tidy S ver r" and x: "if i = 0 then 4 \<le> length c else has r S x ver"
  shows "tidy S ver (kvmsg \<lparr>kk = packkey S x ver i, kv = c, mop = Oinsert\<rparr> r)"
  using t x unfolding tidy_def chunk_ins [OF o] has_ins [OF o] by (auto split: if_splits)

lemma put_has:
  assumes o: "kvsorted r" and h: "has r S y ver \<or> y = x" and x: "if i = 0 then 4 \<le> length c else has r S x ver"
  shows "has (kvmsg \<lparr>kk = packkey S x ver i, kv = c, mop = Oinsert\<rparr> r) S y ver"
  using h x unfolding has_ins [OF o] by (auto split: if_splits)

lemma opened_hn: "opened cl S r0 s \<Longrightarrow> hn (hdrof S (tree (fst s))) = over (snd s) - 1"
  by (auto simp: opened_def opentx_def eq_diff_eq)

lemma opened_failed: "opened cl S r0 s \<Longrightarrow> failed cl S r0 s"
  by (simp add: opened_def opentx_failed)

lemma idx_small: "unat (i :: u32) * Objchunk + n \<le> 67108868 \<Longrightarrow> i + 1 \<noteq> 0 \<and> unat (i + 1) = Suc (unat i)"
proof -
  assume "unat i * Objchunk + n \<le> 67108868"
  then have "unat i < 200000" by simp
  then have "unat (i + 1) = Suc (unat i)" by (simp add: unat_word_ariths)
  then show ?thesis by (metis nat.distinct(1) unat_0)
qed

lemma bindM_assoc: "bindM (bindM m f) g s = bindM m (\<lambda>x. bindM (f x) g) s"
  by (auto simp: bindM_def split: prod.splits sum.splits)

section \<open>An object's data\<close>

lemma wdata_ok:
  assumes s: "opened cl S r0 s" "0 < oleft (snd s)" and p: "p \<noteq> []"
  shows "outcome (wdata p s)
    (\<lambda>p' s'. opened cl S r0 s' \<and> over (snd s') = over (snd s) \<and> orec (snd s') = orec (snd s) \<and> length p' < length p) (\<lambda>s'. failed cl S r0 s')"
proof -
  define n where "n = min (min (Objchunk - length (ochunk (snd s))) (nat (oleft (snd s)))) (length p)"
  let ?tx = "(snd s)\<lparr>ochunk := ochunk (snd s) @ take n p, oleft := oleft (snd s) - int n\<rparr>"
  let ?s = "(fst s, ?tx)" and ?ver = "over (snd s)" and ?X = "oids (snd s)"
  have o: "opentx cl S r0 ?X s" "?ver \<noteq> 0" "putting S (eff s) (snd s)" "cl \<longrightarrow> tidy S ?ver (eff s) \<and> covered S (eff s) (snd s)"
    "\<forall>x \<in> ?X. has (eff s) S x ?ver \<or> oidx (snd s) = 0 \<and> x = ooid (snd s)" using s by (auto simp: opened_def)
  have pt: "oents (snd s) \<noteq> []" "eoid (last (oents (snd s))) = ooid (snd s)" "length (ochunk (snd s)) < Objchunk" "oidx (snd s) = 0 \<longrightarrow> 4 \<le> length (ochunk (snd s))"
    "oidx (snd s) \<noteq> 0 \<longrightarrow> has (eff s) S (ooid (snd s)) ?ver" "unat (oidx (snd s)) * Objchunk + length (ochunk (snd s)) + nat (oleft (snd s)) \<le> 67108868"
    "enidx (last (oents (snd s))) = 1"
    using o(3) by (simp_all add: putting_def)
  have n: "0 < n" "n \<le> length p" "int n \<le> oleft (snd s)" "length (ochunk (snd s)) + n \<le> Objchunk" using p s(2) pt(3) by (auto simp: n_def)
  have ln: "nat (oleft (snd s) - int n) = nat (oleft (snd s)) - n" "n \<le> nat (oleft (snd s))" using n(3) by auto
  have len: "length (ochunk ?tx) = length (ochunk (snd s)) + n" using n(2) by simp
  have os: "opentx cl S r0 ?X ?s" "eff ?s = eff s" using o(1) by (simp_all add: opentx_def eff_def)
  have ord: "kvsorted (eff s)" by (rule eff_ordered [OF o(1)])
  have ix: "ooid (snd s) \<in> ?X" using pt(1,2) by (metis oids_def image_eqI last_in_set)
  have sm: "oidx (snd s) + 1 \<noteq> 0" "unat (oidx (snd s) + 1) = Suc (unat (oidx (snd s)))" using idx_small [of "oidx (snd s)"] pt(6) by (auto simp: add.assoc)
  let ?Q = "\<lambda>s'. opened cl S r0 s' \<and> over (snd s') = ?ver \<and> orec (snd s') = orec (snd s)"
  let ?fin = "if oleft ?tx = 0 then bindM (gett oents) (\<lambda>es. if es = [] then failM Wild else modt (\<lambda>tx. tx\<lparr>oents := es[length es - 1 := (last es)\<lparr>enidx := oidx tx\<rparr>]\<rparr>)) else retM ()"
  have body: "outcome (bindM (if length (ochunk ?tx) = Objchunk \<or> oleft ?tx = 0 then putchunk else retM ()) (\<lambda>_. bindM ?fin (\<lambda>_. retM (drop n p))) ?s)
      (\<lambda>p' s'. ?Q s' \<and> length p' < length p) (\<lambda>s'. failed cl S r0 s')"
  proof (cases "length (ochunk ?tx) = Objchunk \<or> oleft ?tx = 0")
    case False
    then have f: "length (ochunk ?tx) < Objchunk" "0 < oleft ?tx" using n len by auto
    have "putting S (eff ?s) ?tx" unfolding putting_def using pt len f ln os(2) by auto
    moreover have "covered S (eff ?s) ?tx" if cl using o(4) that f(2) s(2) os(2) by (simp add: covered_def)
    ultimately have "opened cl S r0 ?s" using s(1) os f o(4,5) unfolding opened_def by (simp add: oids_def)
    with False n(1,2) f(2) show ?thesis by simp
  next
    case True
    have lc: "length (ochunk (snd ?s)) \<le> Objchunk" using len n(4) by simp
    let ?m = "\<lparr>kk = packkey S (ooid (snd s)) ?ver (oidx (snd s)), kv = ochunk ?tx, mop = Oinsert\<rparr>"
    have ok: "if oidx (snd s) = 0 then 4 \<le> length (ochunk ?tx) else has (eff s) S (ooid (snd s)) ?ver" using pt(4,5) len by auto
    have "outcome (bindM putchunk (\<lambda>_. bindM ?fin (\<lambda>_. retM (drop n p))) ?s) (\<lambda>p' s'. ?Q s' \<and> length p' < length p) (\<lambda>s'. failed cl S r0 s')"
    proof (rule outcome_seq, rule putchunk_open [OF os(1) lc])
      show "failed cl S r0 s'" if "opentx cl S r0 ?X s' \<and> alike ?s s'" for s'
        using that opentx_failed [of cl S r0 s'] txlikeD(3) [of ?tx "snd s'"] by (simp add: alike_def oids_def)
      fix s1 assume a: "opentx cl S r0 (insert (ooid (snd ?s)) ?X) s1 \<and> eff s1 = kvmsg \<lparr>kk = packkey S (ooid (snd ?s)) (over (snd ?s)) (oidx (snd ?s)), kv = ochunk (snd ?s), mop = Oinsert\<rparr> (eff ?s) \<and>
        keptput (snd ?s) (snd s1)"
      have k: "keptput ?tx (snd s1)" using a by simp
      note k = keptputD [OF k, simplified]
      have e1: "eff s1 = kvmsg ?m (eff s)" using a os(2) by simp
      have x1: "opentx cl S r0 ?X s1" using a ix by (simp add: insert_absorb)
      have all: "\<forall>x \<in> ?X. has (eff s1) S x ?ver" unfolding e1 using o(5) ok by (intro ballI put_has [OF ord]) auto
      have td: "tidy S ?ver (eff s1)" if cl unfolding e1 using o(4) that ok by (intro put_chunk [OF ord]) auto
      have cov: "(\<exists>e \<in> set (oents (snd s)). eoid e = x \<and> i < enidx e) \<or> x = ooid (snd s) \<and> i < oidx (snd s) + 1" if cl "chunk (eff s1) S x ?ver i \<noteq> None" for x i
      proof -
        have "i < oidx (snd s) + 1" if "i = oidx (snd s) \<or> i < oidx (snd s)" using that sm by (auto simp: word_less_nat_alt)
        then show ?thesis using o(4) that unfolding covered_def e1 chunk_ins [OF ord] by (auto split: if_splits)
      qed
      show "outcome (bindM ?fin (\<lambda>_. retM (drop n p)) s1) (\<lambda>p' s'. ?Q s' \<and> length p' < length p) (\<lambda>s'. failed cl S r0 s')"
      proof (cases "oleft ?tx = 0")
        case l0: False
        then have l: "0 < oleft ?tx" "length (ochunk ?tx) = Objchunk" using True n(3) by auto
        have "putting S (eff s1) (snd s1)" unfolding putting_def k using pt(1,2,6,7) all ix sm l(2) len ln by simp
        moreover have "covered S (eff s1) (snd s1)" if cl using cov [OF that] l(1) unfolding covered_def k by auto
        ultimately have "opened cl S r0 s1" using s(1) x1 all td l(1) unfolding opened_def k by (simp add: k oids_def)
        with l0 k n(1,2) show ?thesis by simp
      next
        case l0: True
        let ?es = "oents (snd s)" let ?es' = "?es[length ?es - 1 := (last ?es)\<lparr>enidx := oidx (snd s1)\<rparr>]"
        let ?s2 = "(fst s1, (snd s1)\<lparr>oents := ?es'\<rparr>)"
        have es': "?es' = butlast ?es @ [(last ?es)\<lparr>enidx := oidx (snd s1)\<rparr>]" using pt(1) by (metis append_butlast_last_id length_append_singleton diff_Suc_1 list_update_length length_butlast)
        have es: "?es = butlast ?es @ [last ?es]" using pt(1) by simp
        have X': "eoid ` set ?es' = ?X" unfolding es' oids_def by (subst (3) es) auto
        have pos: "\<forall>e \<in> set ?es'. 0 < enidx e"
        proof -
          have "\<forall>e \<in> set ?es. 0 < enidx e" using o(1) by (simp add: opentx_def)
          moreover have "0 < oidx (snd s1)" using k(5) sm(1) by (simp add: word_gt_0)
          ultimately show ?thesis unfolding es' by (auto dest: in_set_butlastD)
        qed
        have e2: "eff ?s2 = eff s1" by (simp add: eff_def)
        have "opentx cl S r0 ?X ?s2" using x1 pos by (simp add: opentx_def)
        moreover have "covered S (eff s1) (snd ?s2)" if cl unfolding covered_def
        proof (intro allI impI disjI1)
          fix x i assume "chunk (eff s1) S x (over (snd ?s2)) i \<noteq> None"
          then have "(\<exists>e \<in> set ?es. eoid e = x \<and> i < enidx e) \<or> x = ooid (snd s) \<and> i < oidx (snd s) + 1" using cov [OF that] k(1) by simp
          moreover have "i < oidx (snd s) + 1" if "i < enidx (last ?es)"
          proof -
            have "i = 0" using that pt(7) by (simp add: word_less_1)
            with sm(1) show ?thesis by (simp add: word_gt_0)
          qed
          moreover have "e \<in> set (butlast ?es) \<or> e = last ?es" if "e \<in> set ?es" for e using that by (subst (asm) es) auto
          ultimately show "\<exists>e \<in> set (oents (snd ?s2)). eoid e = x \<and> i < enidx e" unfolding es' using pt(2) k(5) by fastforce
        qed
        moreover have xo: "oids (snd ?s2) = ?X" using X' by (simp add: oids_def)
        ultimately have "opened cl S r0 ?s2" using s(1) all td l0 unfolding opened_def e2 xo by (simp add: k)
        with l0 k pt(1) n(1,2) show ?thesis by (simp add: bindM_assoc)
      qed
    qed
    with True show ?thesis by simp
  qed
  then show ?thesis by (simp add: wdata_def flip: n_def)
qed

lemma wuserdata_ok:
  assumes s: "opened cl S r0 s" "0 < oinuser (snd s)" and p: "p \<noteq> []"
  shows "outcome (wuserdata p s)
    (\<lambda>p' s'. opened cl S r0 s' \<and> over (snd s') = over (snd s) \<and> orec (snd s') = orec (snd s) \<and> length p' < length p) (\<lambda>s'. failed cl S r0 s')"
proof -
  define n where "n = min (nat (oinuser (snd s))) (length p)"
  have n: "0 < n" "n \<le> length p" "int n \<le> oinuser (snd s)" using p s(2) by (auto simp: n_def)
  have u: "onewuser (snd s)" "int (length (ouser (snd s))) + oinuser (snd s) \<le> int Objuser" using s by (auto simp: opened_def)
  let ?s = "(fst s, (snd s)\<lparr>ouser := ouser (snd s) @ take n p, oinuser := oinuser (snd s) - int n\<rparr>)"
  have e: "eff ?s = eff s" by (simp add: eff_def)
  have "opened cl S r0 ?s" using s(1) n u unfolding opened_def e by (simp add: opentx_def oids_def covered_def putting_def)
  moreover have "\<not> Objuser < length (ouser (snd s)) + n" using n u by linarith
  ultimately show ?thesis using n by (simp add: wuserdata_def flip: n_def)
qed

section \<open>Records\<close>

text \<open>Between the turns of the loop.\<close>

definition steady :: "bool \<Rightarrow> u64 \<Rightarrow> Kvp list \<Rightarrow> Ow \<times> Otx \<Rightarrow> bool" where
  "steady cl S r0 s \<longleftrightarrow> opened cl S r0 s \<or> idle cl S r0 s"

abbreviation (input) hnof :: "u64 \<Rightarrow> Ow \<times> Otx \<Rightarrow> u64" where "hnof S s \<equiv> hn (hdrof S (tree (fst s)))"

lemma steady_failed: "steady cl S r0 s \<Longrightarrow> failed cl S r0 s"
  using opened_failed [of cl S r0 s] by (auto simp: steady_def failed_def idle_def)

lemma begin_steady:
  assumes s: "steady cl S r0 s" "oleft (snd s) = 0" "oinuser (snd s) = 0" and n: "hnof S s < hnof S s + 1"
  shows "outcome (begin_tx s)
    (\<lambda>_ s'. opened cl S r0 s' \<and> oleft (snd s') = 0 \<and> oinuser (snd s') = 0 \<and> orec (snd s') = orec (snd s) \<and> hnof S s' = hnof S s) (\<lambda>s'. failed cl S r0 s')"
  using s(1) unfolding steady_def
proof
  assume o: "opened cl S r0 s"
  then have "over (snd s) \<noteq> 0" by (simp add: opened_def)
  then show ?thesis using o s by (simp add: begin_tx_def)
next
  assume "idle cl S r0 s"
  from begin_ok [OF this n] show ?thesis by (rule outcome_mono) (auto simp: begun_def)
qed

lemma openedI:
  assumes "opentx cl S r0 X s" "oids (snd s) = X" "over (snd s) \<noteq> 0"
    "\<And>x. x \<in> X \<Longrightarrow> has (eff s) S x (over (snd s)) \<or> 0 < oleft (snd s) \<and> oidx (snd s) = 0 \<and> x = ooid (snd s)"
    "cl \<Longrightarrow> tidy S (over (snd s)) (eff s)" "cl \<Longrightarrow> covered S (eff s) (snd s)" "0 < oleft (snd s) \<Longrightarrow> putting S (eff s) (snd s)"
    "onewuser (snd s) \<Longrightarrow> int (length (ouser (snd s))) + oinuser (snd s) \<le> int Objuser" "0 < oinuser (snd s) \<Longrightarrow> onewuser (snd s)"
    "0 \<le> oleft (snd s)" "0 \<le> oinuser (snd s)" "0 \<le> obytes (snd s)" "obytes (snd s) \<le> Objtxmax"
  shows "opened cl S r0 s"
  using assms by (auto simp: opened_def)

text \<open>A put: the entry is there, and its first chunk is begun.\<close>

lemma put_ok:
  assumes s: "steady cl S r0 s" "oleft (snd s) = 0" "oinuser (snd s) = 0" and n: "hnof S s < hnof S s + 1"
  shows "outcome (bindM begin_tx (\<lambda>_. bindM (modt (\<lambda>tx. tx\<lparr>ooid := x0, oleft := l0\<rparr>)) (\<lambda>_. bindM (gett oleft) (\<lambda>l. bindM (gett obytes) (\<lambda>b.
        if l < 0 \<or> l > Objtxmax \<or> b + l > Objtxmax then failM (Err ''object transaction too big'') else
        bindM hasroom (\<lambda>room. if \<not> room then failM Efull else
        bindM (modt (\<lambda>tx. tx\<lparr>obytes := b + l, oidx := 0, ochunk := PACK32 (of_int l)\<rparr>)) (\<lambda>_. bindM (gett ooid) (\<lambda>x. bindM (addent x 1) (\<lambda>_.
        bindM (if l = 0 then putchunk else retM ()) (\<lambda>_. retM None))))))))) s)
      (\<lambda>_ s'. opened cl S r0 s' \<and> orec (snd s') = orec (snd s) \<and> hnof S s' = hnof S s) (\<lambda>s'. failed cl S r0 s')"
    (is "outcome _ ?Q _")
  proof (rule outcome_bind, rule begin_steady [OF s n], elim conjE)
    fix s1 assume a: "opened cl S r0 s1" "oleft (snd s1) = 0" "oinuser (snd s1) = 0" "orec (snd s1) = orec (snd s)" "hnof S s1 = hnof S s"
    let ?b = "obytes (snd s1)" and ?s1 = "(fst s1, (snd s1)\<lparr>ooid := x0, oleft := l0\<rparr>)"
    have f1: "failed cl S r0 ?s1" using opened_failed [OF a(1)] by (simp add: failed_def oids_def)
    show "outcome (bindM (modt (\<lambda>tx. tx\<lparr>ooid := x0, oleft := l0\<rparr>)) (\<lambda>_. bindM (gett oleft) (\<lambda>l. bindM (gett obytes) (\<lambda>b.
        if l < 0 \<or> l > Objtxmax \<or> b + l > Objtxmax then failM (Err ''object transaction too big'') else
        bindM hasroom (\<lambda>room. if \<not> room then failM Efull else
        bindM (modt (\<lambda>tx. tx\<lparr>obytes := b + l, oidx := 0, ochunk := PACK32 (of_int l)\<rparr>)) (\<lambda>_. bindM (gett ooid) (\<lambda>x. bindM (addent x 1) (\<lambda>_.
        bindM (if l = 0 then putchunk else retM ()) (\<lambda>_. retM None)))))))) s1) ?Q (\<lambda>s'. failed cl S r0 s')"
    proof (cases "l0 < 0 \<or> l0 > Objtxmax \<or> ?b + l0 > Objtxmax")
      case True
      with f1 show ?thesis by simp
    next
      case False
      have "outcome (bindM hasroom (\<lambda>room. if \<not> room then failM Efull else
        bindM (modt (\<lambda>tx. tx\<lparr>obytes := ?b + l0, oidx := 0, ochunk := PACK32 (of_int l0)\<rparr>)) (\<lambda>_. bindM (gett ooid) (\<lambda>x. bindM (addent x 1) (\<lambda>_.
        bindM (if l0 = 0 then putchunk else retM ()) (\<lambda>_. retM None))))) ?s1) ?Q (\<lambda>s'. failed cl S r0 s')"
      proof (rule outcome_seq, rule hasroom_ok)
        fix room s2 assume b: "alike ?s1 s2 \<and> snd s2 = snd ?s1 \<and> roots (fst s2) = roots (fst ?s1) \<and> fates (fst s2) = fates (fst ?s1)"
        let ?tx = "(snd s1)\<lparr>ooid := x0, oleft := l0, obytes := ?b + l0, oidx := 0, ochunk := PACK32 (of_int l0), oents := oents (snd s1) @ [\<lparr>eoid = x0, enidx = 1\<rparr>]\<rparr>"
        let ?s3 = "(fst s2, ?tx)" and ?X = "insert x0 (oids (snd s1))" and ?ver = "over (snd s1)"
        have x3: "oids ?tx = ?X" by (auto simp: oids_def)
        have e3: "eff ?s3 = eff s1" using b by (simp add: eff_def)
        have "opentx cl S r0 ?X s1" using a(1) by (auto simp: opened_def intro: opentx_mono)
        then have o3: "opentx cl S r0 ?X ?s3" using b by (auto simp: opentx_def punctual_def)
        have all: "\<forall>x \<in> oids (snd s1). has (eff s1) S x ?ver" using a(1,2) by (auto simp: opened_def)
        have f2: "failed cl S r0 s2" using f1 b by (simp add: failed_def punctual_def)
        have bd: "0 \<le> ?b + l0" "?b + l0 \<le> Objtxmax" "0 \<le> l0" "l0 \<le> Objtxmax" using False a(1) by (auto simp: opened_def)
        have cov: "(\<exists>e \<in> set (oents ?tx). eoid e = x \<and> i < enidx e)" if cl "chunk (eff s1) S x ?ver i \<noteq> None" for x i
          using a(1,2) that unfolding opened_def covered_def by auto
        have td: "tidy S ?ver (eff s1)" if cl using a(1) that by (simp add: opened_def)
        have ord: "kvsorted (eff s1)" using a(1) eff_ordered [of cl S r0 "oids (snd s1)" s1] by (simp add: opened_def)
        have "outcome (bindM (if l0 = 0 then putchunk else retM ()) (\<lambda>_. retM None) ?s3) ?Q (\<lambda>s'. failed cl S r0 s')"
        proof (cases "l0 = 0")
          case False
          then have l: "0 < l0" using bd by simp
          have "nat l0 \<le> 67108864" using bd(4) by simp
          then have "putting S (eff s1) ?tx" unfolding putting_def by simp
          moreover have "covered S (eff s1) ?tx" if cl using cov [OF that] by (auto simp: covered_def)
          ultimately have "opened cl S r0 ?s3" using a(1,3) o3 all td bd l x3 e3 by (intro openedI [OF o3]) (auto simp: opened_def)
          then show ?thesis using False a(4,5) b by simp
        next
          case True
          have "length (ochunk (snd ?s3)) \<le> Objchunk" by simp
          have "outcome (bindM putchunk (\<lambda>_. retM None) ?s3) ?Q (\<lambda>s'. failed cl S r0 s')"
          proof (rule outcome_seq, rule putchunk_open [OF o3], simp)
            show "failed cl S r0 s'" if "opentx cl S r0 ?X s' \<and> alike ?s3 s'" for s'
              using that opentx_failed [of cl S r0 s'] txlikeD(3) [of ?tx "snd s'"] x3 by (simp add: alike_def oids_def)
            fix s4 assume d: "opentx cl S r0 (insert (ooid (snd ?s3)) ?X) s4 \<and> eff s4 = kvmsg \<lparr>kk = packkey S (ooid (snd ?s3)) (over (snd ?s3)) (oidx (snd ?s3)), kv = ochunk (snd ?s3), mop = Oinsert\<rparr> (eff ?s3) \<and> keptput (snd ?s3) (snd s4)"
            have kp: "keptput ?tx (snd s4)" using d by simp
            note k = keptputD [OF kp, simplified]
            have e4: "eff s4 = kvmsg \<lparr>kk = packkey S x0 ?ver 0, kv = PACK32 0, mop = Oinsert\<rparr> (eff s1)" using d e3 True by simp
            have o4: "opentx cl S r0 ?X s4" using d by simp
            have x4: "oids (snd s4) = ?X" using k(2) by (auto simp: oids_def)
            have h4: "\<forall>x \<in> ?X. has (eff s4) S x ?ver" unfolding e4 using all by (auto intro!: put_has [OF ord])
            have t4: "tidy S ?ver (eff s4)" if cl unfolding e4 using td [OF that] by (intro put_chunk [OF ord]) auto
            have c4: "covered S (eff s4) (snd s4)" if cl unfolding covered_def k e4 chunk_ins [OF ord] using cov [OF that] by (auto split: if_splits)
            have "opened cl S r0 s4" using a(1,3) o4 h4 t4 c4 bd True unfolding opened_def x4 by (simp add: k)
            moreover have "hnof S s4 = hnof S s" using opened_hn [OF calculation] opened_hn [OF a(1)] a(5) k(1) by simp
            ultimately show "outcome (retM None s4) ?Q (\<lambda>s'. failed cl S r0 s')" using k a(4) by simp
          qed
          with True show ?thesis by simp
        qed
        then show "outcome ((if \<not> room then failM Efull else
          bindM (modt (\<lambda>tx. tx\<lparr>obytes := ?b + l0, oidx := 0, ochunk := PACK32 (of_int l0)\<rparr>)) (\<lambda>_. bindM (gett ooid) (\<lambda>x. bindM (addent x 1) (\<lambda>_.
          bindM (if l0 = 0 then putchunk else retM ()) (\<lambda>_. retM None))))) s2) ?Q (\<lambda>s'. failed cl S r0 s')"
          using b f2 by (simp add: addent_def)
      qed simp
      with False show ?thesis by (simp cong: if_cong)
    qed
  qed

lemma del_ok:
  assumes s: "steady cl S r0 s" "oleft (snd s) = 0" "oinuser (snd s) = 0" and n: "hnof S s < hnof S s + 1"
  shows "outcome (bindM begin_tx (\<lambda>_. bindM (modt (\<lambda>tx. tx\<lparr>ooid := x0, oidx := 0, ochunk := PACK32 Objtomb\<rparr>)) (\<lambda>_. bindM putchunk (\<lambda>_.
      bindM (gett ooid) (\<lambda>x. bindM (addent x 1) (\<lambda>_. retM None))))) s)
    (\<lambda>_ s'. opened cl S r0 s' \<and> orec (snd s') = orec (snd s) \<and> hnof S s' = hnof S s) (\<lambda>s'. failed cl S r0 s')"
    (is "outcome _ ?Q _")
proof (rule outcome_bind, rule begin_steady [OF s n], elim conjE)
  fix s1 assume a: "opened cl S r0 s1" "oleft (snd s1) = 0" "oinuser (snd s1) = 0" "orec (snd s1) = orec (snd s)" "hnof S s1 = hnof S s"
  let ?tx = "(snd s1)\<lparr>ooid := x0, oidx := 0, ochunk := PACK32 Objtomb\<rparr>" let ?s2 = "(fst s1, ?tx)" and ?ver = "over (snd s1)" and ?X = "oids (snd s1)"
  have o: "opentx cl S r0 ?X s1" "opentx cl S r0 ?X ?s2" "eff ?s2 = eff s1" using a(1) by (simp_all add: opened_def opentx_def eff_def)
  have ord: "kvsorted (eff s1)" by (rule eff_ordered [OF o(1)])
  have all: "\<forall>x \<in> ?X. has (eff s1) S x ?ver" using a(1,2) by (auto simp: opened_def)
  have "outcome (bindM putchunk (\<lambda>_. bindM (gett ooid) (\<lambda>x. bindM (addent x 1) (\<lambda>_. retM None))) ?s2) ?Q (\<lambda>s'. failed cl S r0 s')"
  proof (rule outcome_seq, rule putchunk_open [OF o(2)], simp)
    show "failed cl S r0 s'" if "opentx cl S r0 ?X s' \<and> alike ?s2 s'" for s'
      using that opentx_failed [of cl S r0 s'] txlikeD(3) [of ?tx "snd s'"] by (simp add: alike_def oids_def)
    fix s3 assume d: "opentx cl S r0 (insert (ooid (snd ?s2)) ?X) s3 \<and> eff s3 = kvmsg \<lparr>kk = packkey S (ooid (snd ?s2)) (over (snd ?s2)) (oidx (snd ?s2)), kv = ochunk (snd ?s2), mop = Oinsert\<rparr> (eff ?s2) \<and> keptput (snd ?s2) (snd s3)"
    have kp: "keptput ?tx (snd s3)" using d by simp
    note k = keptputD [OF kp, simplified]
    have e3: "eff s3 = kvmsg \<lparr>kk = packkey S x0 ?ver 0, kv = PACK32 Objtomb, mop = Oinsert\<rparr> (eff s1)" using d o(3) by simp
    let ?s4 = "(fst s3, (snd s3)\<lparr>oents := oents (snd s3) @ [\<lparr>eoid = x0, enidx = 1\<rparr>]\<rparr>)"
    have o4: "opentx cl S r0 (insert x0 ?X) ?s4" using d by (auto simp: opentx_def)
    have e4: "eff ?s4 = eff s3" by (simp add: eff_def)
    have "opened cl S r0 ?s4"
    proof (rule openedI [OF o4])
      show "oids (snd ?s4) = insert x0 ?X" using k(2) by (auto simp: oids_def)
      show "has (eff ?s4) S x (over (snd ?s4)) \<or> 0 < oleft (snd ?s4) \<and> oidx (snd ?s4) = 0 \<and> x = ooid (snd ?s4)" if "x \<in> insert x0 ?X" for x
        unfolding e4 e3 using all that k(1) by (auto intro!: put_has [OF ord])
      show "tidy S (over (snd ?s4)) (eff ?s4)" if cl unfolding e4 e3 using a(1) that k(1) by (auto intro!: put_chunk [OF ord] simp: opened_def)
      show "covered S (eff ?s4) (snd ?s4)" if cl using a(1,2) that k unfolding e4 e3 covered_def chunk_ins [OF ord] opened_def by (auto split: if_splits)
    qed (use a(1-3) k in \<open>auto simp: opened_def\<close>)
    moreover from opened_hn [OF this] opened_hn [OF a(1)] a(5) k(1) have "hnof S ?s4 = hnof S s" by simp
    ultimately show "outcome (bindM (gett ooid) (\<lambda>x. bindM (addent x 1) (\<lambda>_. retM None)) s3) ?Q (\<lambda>s'. failed cl S r0 s')"
      using a(4) k by (simp add: addent_def)
  qed
  then show "outcome (bindM (modt (\<lambda>tx. tx\<lparr>ooid := x0, oidx := 0, ochunk := PACK32 Objtomb\<rparr>)) (\<lambda>_. bindM putchunk (\<lambda>_.
      bindM (gett ooid) (\<lambda>x. bindM (addent x 1) (\<lambda>_. retM None)))) s1) ?Q (\<lambda>s'. failed cl S r0 s')" by simp
qed

lemma huser_ok:
  assumes s: "steady cl S r0 s" "oleft (snd s) = 0" "oinuser (snd s) = 0" and n: "hnof S s < hnof S s + 1"
  shows "outcome (bindM begin_tx (\<lambda>_. bindM (modt (\<lambda>tx. tx\<lparr>oinuser := u0\<rparr>)) (\<lambda>_. bindM (gett oinuser) (\<lambda>n.
      if n < 0 \<or> n > int Objuser then failM (Err ''object header too big'') else bindM (modt (\<lambda>tx. tx\<lparr>ouser := [], onewuser := True\<rparr>)) (\<lambda>_. retM None)))) s)
    (\<lambda>_ s'. opened cl S r0 s' \<and> orec (snd s') = orec (snd s) \<and> hnof S s' = hnof S s) (\<lambda>s'. failed cl S r0 s')"
    (is "outcome _ ?Q _")
proof (rule outcome_bind, rule begin_steady [OF s n], elim conjE)
  fix s1 assume a: "opened cl S r0 s1" "oleft (snd s1) = 0" "oinuser (snd s1) = 0" "orec (snd s1) = orec (snd s)" "hnof S s1 = hnof S s"
  have f: "failed cl S r0 (fst s1, (snd s1)\<lparr>oinuser := u0\<rparr>)" using opened_failed [OF a(1)] by (simp add: failed_def oids_def)
  let ?s2 = "(fst s1, (snd s1)\<lparr>oinuser := u0, ouser := [], onewuser := True\<rparr>)"
  have "opened cl S r0 ?s2" if "0 \<le> u0" "u0 \<le> int Objuser"
  proof (rule openedI [where X = "oids (snd s1)"])
    show "opentx cl S r0 (oids (snd s1)) ?s2" using a(1) by (simp add: opened_def opentx_def)
  qed (use a(1,2) that in \<open>auto simp: opened_def oids_def eff_def covered_def\<close>)
  with f a(4,5) show "outcome (bindM (modt (\<lambda>tx. tx\<lparr>oinuser := u0\<rparr>)) (\<lambda>_. bindM (gett oinuser) (\<lambda>n.
      if n < 0 \<or> n > int Objuser then failM (Err ''object header too big'') else bindM (modt (\<lambda>tx. tx\<lparr>ouser := [], onewuser := True\<rparr>)) (\<lambda>_. retM None))) s1) ?Q (\<lambda>s'. failed cl S r0 s')"
    by (cases "u0 < 0 \<or> u0 > int Objuser") auto
qed

lemma eff_keys: "opentx cl S r0 X s \<Longrightarrow> lk (tree (fst s)) k \<noteq> None \<Longrightarrow> lk (eff s) k \<noteq> None"
proof -
  assume o: "opentx cl S r0 X s" and k: "lk (tree (fst s)) k \<noteq> None"
  have t: "kvsorted (tree (fst s))" using o traced_hd [of cl S r0 "roots (fst s)"] by (simp add: opentx_def rootok_def)
  have m: "\<forall>m \<in> set (omb (snd s)). mop m = Oinsert" using o by (auto simp: opentx_def txmsg_def)
  have "mlast k ms v \<noteq> None" if "v \<noteq> None" "\<forall>m \<in> set ms. mop m = Oinsert" for ms v using that by (induction ms arbitrary: v) auto
  then show ?thesis unfolding eff_def lk_kvmsgs [OF t] using k m by blast
qed

lemma abort_ok:
  assumes s: "steady cl S r0 s" "oleft (snd s) = 0"
  shows "outcome (abort1 s) (\<lambda>_ s'. idle cl S r0 s' \<and> (orec (snd s) = [] \<longrightarrow> orec (snd s') = []) \<and> hnof S s' = hnof S s) (\<lambda>s'. failed cl S r0 s')"
  using s(1) unfolding steady_def
proof
  assume i: "idle cl S r0 s"
  then have "over (snd s) = 0" by (simp add: idle_def)
  with i show ?thesis by (simp add: abort1_def)
next
  assume o: "opened cl S r0 s"
  then have ot: "opentx cl S r0 (oids (snd s)) s" and v: "over (snd s) \<noteq> 0" by (simp_all add: opened_def)
  have st: "ostore (snd s) = S" using ot by (simp add: opentx_def)
  have c: "noleft S (tree (fst s)) \<and> (\<forall>x v i. chunk (tree (fst s)) S x v i \<noteq> None \<longrightarrow> v \<le> over (snd s) \<and> (v = over (snd s) \<longrightarrow> packkey S x v i \<in> set (txkeys (snd s))))" if cl
  proof (intro conjI allI impI)
    show "noleft S (tree (fst s))" using ot that by (simp add: opentx_def)
    fix x v i assume "chunk (tree (fst s)) S x v i \<noteq> None"
    then have e: "chunk (eff s) S x v i \<noteq> None" using eff_keys [OF ot] by (simp add: chunk_def)
    show "v \<le> over (snd s)" using o that e unfolding opened_def tidy_def by blast
    assume "v = over (snd s)"
    moreover have "covered S (eff s) (snd s)" using o that by (simp add: opened_def)
    ultimately have "\<exists>e \<in> set (oents (snd s)). eoid e = x \<and> i < enidx e" using e s(2) unfolding covered_def by (metis less_irrefl)
    then obtain e where e: "e \<in> set (oents (snd s))" "eoid e = x" "i < enidx e" by (elim bexE conjE)
    show "packkey S x v i \<in> set (txkeys (snd s))" unfolding txkeys_mem
    proof (rule bexI [where x = e], rule exI [where x = "unat i"], rule conjI)
      show "unat i < unat (enidx e)" using e(3) by (simp add: word_less_nat_alt)
    qed (use st e(1,2) \<open>v = over (snd s)\<close> in simp_all)
  qed
  show ?thesis by (rule outcome_mono [OF abort1_ok [OF opened_failed [OF o], of cl]]) (use c v in auto)
qed

text \<open>A whole record.\<close>

lemma dorec_ok:
  assumes s: "steady cl S r0 s" "oleft (snd s) = 0" "oinuser (snd s) = 0" "orec (snd s) = []" and n: "hnof S s < hnof S s + 1"
  shows "outcome (dorec r s) (\<lambda>_ s'. steady cl S r0 s' \<and> orec (snd s') = [] \<and> unat (hnof S s') \<le> Suc (unat (hnof S s))) (\<lambda>s'. failed cl S r0 s')"
    (is "outcome _ ?Q _")
proof -
  let ?c = "r ! 0"
  have op: "?Q y s'" if "opened cl S r0 s' \<and> orec (snd s') = orec (snd s) \<and> hnof S s' = hnof S s" for y :: "bool option" and s'
    using that s(4) by (simp add: steady_def)
  consider "?c = chr (CHR ''p'')" | "?c = chr (CHR ''d'')" | "?c = chr (CHR ''h'')" | "?c = chr (CHR ''c'')" | "?c = chr (CHR ''a'')"
    | "?c \<noteq> chr (CHR ''p'')" "?c \<noteq> chr (CHR ''d'')" "?c \<noteq> chr (CHR ''h'')" "?c \<noteq> chr (CHR ''c'')" "?c \<noteq> chr (CHR ''a'')" by blast
  then show ?thesis
  proof cases
    case 1
    show ?thesis unfolding dorec_def Let_def if_P [OF 1] by (rule outcome_mono [OF put_ok [OF s(1-3) n]]) (use op in auto)
  next
    case 2
    have "outcome (dorec r s) (\<lambda>_ s'. opened cl S r0 s' \<and> orec (snd s') = orec (snd s) \<and> hnof S s' = hnof S s) (\<lambda>s'. failed cl S r0 s')"
      using del_ok [OF s(1-3) n, of "UNPACK64 (drop 1 r)"] 2 by (simp add: dorec_def)
    then show ?thesis by (rule outcome_mono) (use op in auto)
  next
    case 3
    have "outcome (dorec r s) (\<lambda>_ s'. opened cl S r0 s' \<and> orec (snd s') = orec (snd s) \<and> hnof S s' = hnof S s) (\<lambda>s'. failed cl S r0 s')"
      using huser_ok [OF s(1-3) n, of "sint (UNPACK32 (drop 1 r))"] 3 by (simp add: dorec_def)
    then show ?thesis by (rule outcome_mono) (use op in auto)
  next
    case 4
    have c: "outcome (commit s) (\<lambda>_ s'. steady cl S r0 s' \<and> orec (snd s') = [] \<and> unat (hnof S s') \<le> Suc (unat (hnof S s))) (\<lambda>s'. failed cl S r0 s')"
      using s(1) unfolding steady_def
    proof
      assume o: "opened cl S r0 s"
      have "over (snd s) = hnof S s + 1" using opened_hn [OF o] by simp
      with unat_next [OF n] show "outcome (commit s) (\<lambda>_ s'. (opened cl S r0 s' \<or> idle cl S r0 s') \<and> orec (snd s') = [] \<and> unat (hnof S s') \<le> Suc (unat (hnof S s))) (\<lambda>s'. failed cl S r0 s')"
        by (intro outcome_mono [OF commit_ok [OF o s(2)]]) auto
    next
      assume i: "idle cl S r0 s"
      then have "over (snd s) = 0" by (simp add: idle_def)
      with i s(4) show "outcome (commit s) (\<lambda>_ s'. (opened cl S r0 s' \<or> idle cl S r0 s') \<and> orec (snd s') = [] \<and> unat (hnof S s') \<le> Suc (unat (hnof S s))) (\<lambda>s'. failed cl S r0 s')"
        by (simp add: commit_def)
    qed
    have "outcome (bindM commit (\<lambda>_. retM (Some (bit (r ! 1) 0))) s) ?Q (\<lambda>s'. failed cl S r0 s')" by (rule outcome_bind, rule c) simp
    then show ?thesis using 4 by (simp add: dorec_def)
  next
    case 5
    have "outcome (bindM abort1 (\<lambda>_. retM None) s) ?Q (\<lambda>s'. failed cl S r0 s')"
      by (rule outcome_bind, rule abort_ok [OF s(1,2)]) (use s(4) in \<open>auto simp: steady_def\<close>)
    then show ?thesis using 5 by (simp add: dorec_def)
  next
    case 6
    have t: "opened cl S r0 (fst s, (snd s)\<lparr>oselver := a\<rparr>) \<or> idle cl S r0 (fst s, (snd s)\<lparr>oselver := a\<rparr>)"
      "opened cl S r0 (fst s, (snd s)\<lparr>oseloid := a, osel := b\<rparr>) \<or> idle cl S r0 (fst s, (snd s)\<lparr>oseloid := a, osel := b\<rparr>)" for a b
      using s(1) unfolding steady_def opened_def idle_def by (auto simp: opentx_def oids_def eff_def covered_def putting_def)
    show ?thesis using 6 t s(4) by (simp add: dorec_def steady_def)
  qed
qed

section \<open>The loop\<close>

text \<open>A record begun: fewer bytes than it needs.\<close>

definition recok :: "bytes \<Rightarrow> bool" where
  "recok r \<longleftrightarrow> r = [] \<or> (case recneed (r ! 0) of None \<Rightarrow> False | Some n \<Rightarrow> length r < n)"

lemma recneed_bound: "recneed c = Some n \<Longrightarrow> 0 < n \<and> n \<le> 17"
  by (auto simp: recneed_def split: if_splits)

lemma steady_orec: "steady cl S r0 (w, tx\<lparr>orec := r\<rparr>) \<longleftrightarrow> steady cl S r0 (w, tx)" "failed cl S r0 (w, tx\<lparr>orec := r\<rparr>) \<longleftrightarrow> failed cl S r0 (w, tx)"
  by (auto simp: steady_def opened_def idle_def failed_def opentx_def oids_def eff_def covered_def putting_def)

lemma wrec_ok:
  assumes s: "steady cl S r0 s" "oleft (snd s) = 0" "oinuser (snd s) = 0" "recok (orec (snd s))" and n: "hnof S s < hnof S s + 1" and p: "p \<noteq> []"
  shows "outcome (wrec p s)
    (\<lambda>x s'. steady cl S r0 s' \<and> recok (orec (snd s')) \<and> length (fst x) < length p \<and> unat (hnof S s') \<le> Suc (unat (hnof S s))) (\<lambda>s'. failed cl S r0 s')"
    (is "outcome _ ?Q _")
proof -
  obtain w tx where e: "s = (w, tx)" by (cases s)
  obtain r q where rq: "(if orec tx = [] then (take 1 p, drop 1 p) else (orec tx, p)) = (r, q)" by fastforce
  have r: "r \<noteq> []" "length q \<le> length p" using rq p by (auto split: if_splits)
  have w: "wrec p s = (case recneed (r ! 0) of
       None \<Rightarrow> bindM (modt (\<lambda>tx. tx\<lparr>orec := r\<rparr>)) (\<lambda>_. failM (Err ''object record: unknown type''))
     | Some need \<Rightarrow>
         (let n = min (need - length r) (length q); r = r @ take n q; p = drop n q in
          if 17 < length r then failM Wild
          else if length r < need then bindM (modt (\<lambda>tx. tx\<lparr>orec := r\<rparr>)) (\<lambda>_. retM (p, None))
          else bindM (modt (\<lambda>tx. tx\<lparr>orec := []\<rparr>)) (\<lambda>_. bindM (dorec r) (\<lambda>sy. retM (p, sy))))) s"
    by (simp only: wrec_def bindM_simps Let_def rq e snd_conv prod.case)
  show "outcome (wrec p s) ?Q (\<lambda>s'. failed cl S r0 s')"
  proof (cases "recneed (r ! 0)")
    case None
    then show ?thesis using w e steady_failed [OF s(1)] by (simp add: steady_orec)
  next
    case (Some need)
    define m where "m = min (need - length r) (length q)"
    have nb: "0 < need" "need \<le> 17" using recneed_bound [OF Some] by auto
    have lr: "length r \<le> need" "orec tx \<noteq> [] \<Longrightarrow> length r < need"
      using rq s(4) e Some nb by (auto simp: recok_def split: if_splits)
    have sh: "length (drop m q) < length p"
    proof (cases "orec tx = []")
      case True
      then show ?thesis using rq p by (cases p) auto
    next
      case False
      then have "q = p" "0 < m" using rq lr p by (auto simp: m_def)
      then show ?thesis using p by simp
    qed
    have l17: "\<not> 17 < length (r @ take m q)" using lr nb by (auto simp: m_def)
    show ?thesis
    proof (cases "length (r @ take m q) < need")
      case True
      have "recok (r @ take m q)" using r(1) Some True by (simp add: recok_def nth_append)
      then show ?thesis using True w e Some s(1) l17 sh by (simp add: steady_orec flip: m_def)
    next
      case False
      let ?s = "(w, tx\<lparr>orec := []\<rparr>)"
      have "outcome (dorec (r @ take m q) ?s) (\<lambda>_ s'. steady cl S r0 s' \<and> orec (snd s') = [] \<and> unat (hnof S s') \<le> Suc (unat (hnof S ?s))) (\<lambda>s'. failed cl S r0 s')"
        by (rule dorec_ok) (use s n e in \<open>simp_all add: steady_orec\<close>)
      then have "outcome (bindM (dorec (r @ take m q)) (\<lambda>sy. retM (drop m q, sy)) ?s) ?Q (\<lambda>s'. failed cl S r0 s')"
        by (rule outcome_bind) (use sh e in \<open>auto simp: recok_def\<close>)
      then show ?thesis using False w e Some l17 by (simp flip: m_def)
    qed
  qed
qed

lemma steady_sel: "steady cl S r0 s \<Longrightarrow> 0 \<le> oleft (snd s) \<and> 0 \<le> oinuser (snd s)"
  "steady cl S r0 s \<Longrightarrow> 0 < oleft (snd s) \<or> 0 < oinuser (snd s) \<Longrightarrow> opened cl S r0 s"
  by (auto simp: steady_def opened_def idle_def)

lemma wturn_ok:
  assumes s: "steady cl S r0 s" "recok (orec (snd s))" and n: "hnof S s < hnof S s + 1" and p: "p \<noteq> []"
  shows "outcome (wturn p s)
    (\<lambda>x s'. steady cl S r0 s' \<and> recok (orec (snd s')) \<and> length (fst x) < length p \<and> unat (hnof S s') \<le> Suc (unat (hnof S s))) (\<lambda>s'. failed cl S r0 s')"
    (is "outcome _ ?Q _")
proof -
  have op: "outcome (retM (p', None) s') ?Q (\<lambda>s'. failed cl S r0 s')" if "opened cl S r0 s" "opened cl S r0 s' \<and> over (snd s') = over (snd s) \<and> orec (snd s') = orec (snd s) \<and> length p' < length p" for p' s'
    using that s(2) opened_hn [of cl S r0 s] opened_hn [of cl S r0 s'] by (simp add: steady_def)
  consider "0 < oleft (snd s)" | "oleft (snd s) = 0" "0 < oinuser (snd s)" | "oleft (snd s) = 0" "oinuser (snd s) = 0" using steady_sel(1) [OF s(1)] by force
  then show ?thesis
  proof cases
    case 1
    note o = steady_sel(2) [OF s(1) disjI1 [OF 1]]
    have "outcome (bindM (wdata p) (\<lambda>p. retM (p, None)) s) ?Q (\<lambda>s'. failed cl S r0 s')" by (rule outcome_bind, rule wdata_ok [OF o 1 p]) (rule op [OF o])
    with 1 show ?thesis by (simp add: wturn_def)
  next
    case 2
    note o = steady_sel(2) [OF s(1) disjI2 [OF 2(2)]]
    have "outcome (bindM (wuserdata p) (\<lambda>p. retM (p, None)) s) ?Q (\<lambda>s'. failed cl S r0 s')" by (rule outcome_bind, rule wuserdata_ok [OF o 2(2) p]) (rule op [OF o])
    with 2 show ?thesis by (simp add: wturn_def)
  next
    case 3
    have "outcome (wrec p s) ?Q (\<lambda>s'. failed cl S r0 s')" by (rule wrec_ok [OF s(1) 3 s(2) n p])
    with 3 show ?thesis by (simp add: wturn_def)
  qed
qed

lemma wloop_ok:
  "steady cl S r0 s \<Longrightarrow> recok (orec (snd s)) \<Longrightarrow> unat (hnof S s) + length p < 2 ^ 64 \<Longrightarrow> length p \<le> n \<Longrightarrow>
   outcome (wloop n p sy s) (\<lambda>_ s'. steady cl S r0 s' \<and> recok (orec (snd s')) \<and> unat (hnof S s') \<le> unat (hnof S s) + length p) (\<lambda>s'. failed cl S r0 s')"
proof (induction n p sy arbitrary: s rule: wloop.induct)
  case (3 n b p sy)
  have "unat (hnof S s) + 1 < 2 ^ 64" using "3.prems"(3) by simp
  then have u: "unat (hnof S s + 1) = Suc (unat (hnof S s))" by (simp add: unat_word_ariths)
  then have n: "hnof S s < hnof S s + 1" by (simp add: word_less_nat_alt)
  show ?case unfolding wloop.simps
  proof (rule outcome_bind, rule wturn_ok [OF "3.prems"(1,2) n])
    fix x :: "bytes \<times> bool option" and s1 assume a: "steady cl S r0 s1 \<and> recok (orec (snd s1)) \<and> length (fst x) < length (b # p) \<and> unat (hnof S s1) \<le> Suc (unat (hnof S s))"
    obtain p1 sy1 where x: "x = (p1, sy1)" by (cases x)
    have "outcome (wloop n p1 (case sy1 of None \<Rightarrow> sy | Some s \<Rightarrow> s) s1)
      (\<lambda>_ s'. steady cl S r0 s' \<and> recok (orec (snd s')) \<and> unat (hnof S s') \<le> unat (hnof S s1) + length p1) (\<lambda>s'. failed cl S r0 s')"
      by (rule "3.IH") (use a x "3.prems"(3,4) in auto)
    then show "outcome ((case x of (p, s) \<Rightarrow> wloop n p (case s of None \<Rightarrow> sy | Some s \<Rightarrow> s)) s1)
      (\<lambda>_ s'. steady cl S r0 s' \<and> recok (orec (snd s')) \<and> unat (hnof S s') \<le> unat (hnof S s) + length (b # p)) (\<lambda>s'. failed cl S r0 s')"
      unfolding x prod.case by (rule outcome_mono) (use a x in auto)
  qed simp
qed simp_all


section \<open>A write\<close>

text \<open>After a write that failed: the transaction is gone.\<close>

definition stopped :: "bool \<Rightarrow> u64 \<Rightarrow> Kvp list \<Rightarrow> Ow \<times> Otx \<Rightarrow> bool" where
  "stopped cl S r0 s \<longleftrightarrow> traced cl S r0 (roots (fst s)) \<and> punctual (fst s) \<and> ostore (snd s) = S \<and> over (snd s) = 0 \<and> omb (snd s) = [] \<and>
     orec (snd s) = [] \<and> oleft (snd s) = 0 \<and> oinuser (snd s) = 0"

lemma stopped_steady: "stopped False S r0 s \<Longrightarrow> steady False S r0 s \<and> recok (orec (snd s))"
  by (simp add: stopped_def steady_def idle_def recok_def)

lemma steady_owk: "steady cl S r0 (w, tx\<lparr>owk := k\<rparr>) \<longleftrightarrow> steady cl S r0 (w, tx)" "failed cl S r0 (w, tx\<lparr>owk := k\<rparr>) \<longleftrightarrow> failed cl S r0 (w, tx)"
  by (auto simp: steady_def opened_def idle_def failed_def opentx_def oids_def eff_def covered_def putting_def)

lemma opened_flushed:
  assumes o: "opened cl S r0 s" and x: "opentx cl S r0 (oids (snd s)) s'" "eff s' = eff s" "alike s s'"
  shows "opened cl S r0 s' \<and> orec (snd s') = orec (snd s) \<and> over (snd s') = over (snd s)"
proof -
  obtain mb n where t: "snd s' = (snd s)\<lparr>omb := mb, onflush := n\<rparr>" using x(3) by (auto simp: alike_def txlike_def)
  have i: "oids (snd s') = oids (snd s)" by (simp add: t oids_def)
  have "covered S r (snd s') = covered S r (snd s)" "putting S r (snd s') = putting S r (snd s)" for r by (simp_all add: t covered_def putting_def)
  then show ?thesis using o x(1,2) unfolding opened_def i by (simp add: t)
qed

lemma flushtx_steady:
  assumes s: "steady cl S r0 s" "recok (orec (snd s))"
  shows "outcome (flushtx s) (\<lambda>_ s'. steady cl S r0 s' \<and> recok (orec (snd s')) \<and> hnof S s' = hnof S s) (\<lambda>s'. failed cl S r0 s')"
  using s(1) unfolding steady_def
proof
  assume o: "opened cl S r0 s"
  then have x: "opentx cl S r0 (oids (snd s)) s" by (simp add: opened_def)
  show "outcome (flushtx s) (\<lambda>_ s'. (opened cl S r0 s' \<or> idle cl S r0 s') \<and> recok (orec (snd s')) \<and> hnof S s' = hnof S s) (\<lambda>s'. failed cl S r0 s')"
  proof (rule outcome_mono [OF flushtx_open [OF x]])
    show "(opened cl S r0 s' \<or> idle cl S r0 s') \<and> recok (orec (snd s')) \<and> hnof S s' = hnof S s"
      if "opentx cl S r0 (oids (snd s)) s' \<and> omb (snd s') = [] \<and> eff s' = eff s \<and> alike s s'" for s'
      using that opened_flushed [OF o, of s'] s(2) opened_hn [OF o] opened_hn [of cl S r0 s'] by simp
    show "failed cl S r0 s'" if "opentx cl S r0 (oids (snd s)) s' \<and> alike s s'" for s'
      using that opentx_failed [of cl S r0 s'] txlikeD(3) [of "snd s" "snd s'"] by (simp add: alike_def oids_def)
  qed
next
  assume i: "idle cl S r0 s"
  then have "omb (snd s) = []" by (simp add: idle_def)
  with i s(2) show "outcome (flushtx s) (\<lambda>_ s'. (opened cl S r0 s' \<or> idle cl S r0 s') \<and> recok (orec (snd s')) \<and> hnof S s' = hnof S s) (\<lambda>s'. failed cl S r0 s')"
    by (simp add: flushtx_def)
qed

lemma endtx_stopped: "failed cl S r0 s \<Longrightarrow> outcome (endtx s) (\<lambda>_ s'. stopped cl S r0 s') (\<lambda>_. False)"
  by (rule outcome_mono [OF endtx_ok]) (auto simp: failed_def stopped_def punctual_def)

lemma giveup_ok:
  assumes f: "failed cl S r0 s"
  shows "outcome (bindM (catchM abort1 (\<lambda>_. retM ())) (\<lambda>_. bindM endtx (\<lambda>_. failM (Err e))) s) (\<lambda>_ _. False) (\<lambda>s'. stopped cl S r0 s')"
proof (rule outcome_seq, rule outcome_catch [where R = "\<lambda>s'. failed cl S r0 s'"])
  show "outcome (abort1 s) (\<lambda>_ s'. failed cl S r0 s') (\<lambda>s'. failed cl S r0 s')"
    by (rule outcome_mono [OF abort1_ok [OF f, of False]]) auto
  show "outcome (bindM endtx (\<lambda>_. failM (Err e)) s') (\<lambda>_ _. False) (\<lambda>s'. stopped cl S r0 s')" if "failed cl S r0 s'" for s'
    by (rule outcome_seq, rule endtx_stopped [OF that]) auto
qed auto

text \<open>Whatever is written and whatever fails, a write ends, with the transaction open, or none, and nothing but the errors of the source.\<close>

lemma objwrite_ok:
  assumes s: "steady cl S r0 s" "recok (orec (snd s))" and n: "unat (hnof S s) + length data < 2 ^ 64"
  shows "outcome (objwrite data wk s) (\<lambda>_ s'. steady cl S r0 s' \<and> recok (orec (snd s')) \<and> unat (hnof S s') \<le> unat (hnof S s) + length data) (\<lambda>s'. stopped cl S r0 s')"
    (is "outcome _ ?Q _")
proof -
  let ?s = "(fst s, (snd s)\<lparr>owk := wk\<rparr>)"
  have s': "steady cl S r0 ?s" "recok (orec (snd ?s))" "hnof S ?s = hnof S s" using s steady_owk(1) [of cl S r0 "fst s" wk "snd s"] by simp_all
  have b: "unat (hnof S ?s) + length data < 2 ^ 64" using n by simp
  have w: "outcome (bindM (wloop (length data) data False) (\<lambda>sy. bindM flushtx (\<lambda>_. retM sy)) ?s) ?Q (\<lambda>s'. failed cl S r0 s')"
  proof (rule outcome_bind, rule wloop_ok [OF s'(1,2) b order_refl])
    fix sy s1 assume a: "steady cl S r0 s1 \<and> recok (orec (snd s1)) \<and> unat (hnof S s1) \<le> unat (hnof S ?s) + length data"
    then have 1: "steady cl S r0 s1" "recok (orec (snd s1))" by simp_all
    show "outcome (bindM flushtx (\<lambda>_. retM sy) s1) ?Q (\<lambda>s'. failed cl S r0 s')"
      by (rule outcome_bind, rule flushtx_steady [OF 1]) (use a in simp)
  qed
  have "outcome (catchM (bindM (wloop (length data) data False) (\<lambda>sy. bindM flushtx (\<lambda>_. retM sy)))
       (\<lambda>e. bindM (catchM abort1 (\<lambda>_. retM ())) (\<lambda>_. bindM endtx (\<lambda>_. failM (Err e)))) ?s) ?Q (\<lambda>s'. stopped cl S r0 s')"
    by (rule outcome_catch, rule w, rule outcome_mono [OF giveup_ok]) auto
  then show ?thesis by (simp add: objwrite_def)
qed

text \<open>A clunk: the sweeper gives the transaction up.\<close>

lemma objsweep_abort_ok:
  assumes "failed cl S r0 s"
  shows "outcome (objsweep_abort wk s) (\<lambda>_ s'. traced cl S r0 (roots (fst s')) \<and> punctual (fst s')) (\<lambda>s'. traced cl S r0 (roots (fst s')) \<and> punctual (fst s'))"
proof -
  have f: "failed cl S r0 (fst s, (snd s)\<lparr>owk := wk\<rparr>)" using assms steady_owk(2) [of cl S r0 "fst s" wk "snd s"] by simp
  show ?thesis unfolding objsweep_abort_def
  proof (rule outcome_catch [where R = "\<lambda>s'. failed cl S r0 s'"])
    show "outcome (bindM (modt (owk_update (\<lambda>_. wk))) (\<lambda>_. abort1) s) (\<lambda>_ s'. traced cl S r0 (roots (fst s')) \<and> punctual (fst s')) (\<lambda>s'. failed cl S r0 s')"
      unfolding bindM_simps by (rule outcome_mono [OF abort1_ok [OF f, of False]]) (auto simp: failed_def)
    show "outcome (bindM endtx (\<lambda>_. failM (Err e)) s') (\<lambda>_ s'. traced cl S r0 (roots (fst s')) \<and> punctual (fst s')) (\<lambda>s'. traced cl S r0 (roots (fst s')) \<and> punctual (fst s'))"
      if "failed cl S r0 s'" for e s'
      by (rule outcome_seq, rule endtx_stopped [OF that]) (auto simp: stopped_def)
  qed
qed

end
