(* ===== verification/Gefs_Objsafe.thy ===== *)
theory Gefs_Objsafe
  imports Gefs_Objwrite
begin

text \<open>
  Runs of a client of an object store: writes and clunks in any order, with any data and any failure of
  the tree below.  What they leave of the versions published before, and that no array is overrun.
\<close>

section \<open>Runs\<close>

text \<open>
  A write, or a clunk by which the sweeper gets the transaction to abort and the store gets a new fid with the address \<open>a\<close>.
\<close>

datatype Oop = Owrite bytes | Oclunk nat

fun objop :: "int \<Rightarrow> Oop \<Rightarrow> Ow \<times> Otx \<Rightarrow> unit res \<times> Ow \<times> Otx" where
  "objop wk (Owrite data) s = bindM (objwrite data wk) (\<lambda>_. retM ()) s"
| "objop wk (Oclunk a) (w, tx) =
     (case snd (objclunk True (Some tx) False) of
        None \<Rightarrow> (Inr (), w, newtx a (ostore tx))
      | Some t \<Rightarrow> (case objsweep_abort wk (w, t) of (r, w', _) \<Rightarrow> (r, w', newtx a (ostore tx))))"

fun objrun :: "int \<Rightarrow> Oop list \<Rightarrow> Ow \<times> Otx \<Rightarrow> unit res list \<times> Ow \<times> Otx" where
  "objrun wk [] s = ([], s)"
| "objrun wk (p # os) s = (case objop wk p s of (r, s') \<Rightarrow> (case objrun wk os s' of (rs, s'') \<Rightarrow> (r # rs, s'')))"

text \<open>The version numbers do not run out: a write takes one at most for each byte.\<close>

fun unworn :: "int \<Rightarrow> u64 \<Rightarrow> Oop list \<Rightarrow> Ow \<times> Otx \<Rightarrow> bool" where
  "unworn wk S [] s = True"
| "unworn wk S (p # os) s =
     (uint (hn (hdrof S (tree (fst s)))) + (case p of Owrite data \<Rightarrow> int (length data) | Oclunk a \<Rightarrow> 0) < 2 ^ 64 \<and> unworn wk S os (snd (objop wk p s)))"

section \<open>Every operation keeps the store\<close>

lemma outcome_cases:
  assumes "outcome r Q E"
  obtains x where "fst r = Inr x" "Q x (snd r)" | e where "fst r = Inl (Err e)" "E (snd r)"
  using assms by (auto simp: outcome_def split: sum.splits)

lemma outcome_any: "outcome r (\<lambda>_. P) P \<Longrightarrow> P (snd r) \<and> fst r \<noteq> Inl Wild \<and> fst r \<noteq> Inl Panic"
  by (erule outcome_cases) auto

lemma newtx_idle: "traced False S r0 (roots w) \<Longrightarrow> punctual w \<Longrightarrow> steady False S r0 (w, newtx a S) \<and> recok (orec (newtx a S))"
  by (simp add: steady_def idle_def newtx_def recok_def)

lemma steady_store: "steady cl S r0 s \<Longrightarrow> ostore (snd s) = S \<and> traced cl S r0 (roots (fst s)) \<and> punctual (fst s)"
  by (auto simp: steady_def opened_def opentx_def idle_def)

lemma clunked_failed: "failed cl S r0 (w, tx\<lparr>oscan := c, oabort := b\<rparr>) \<longleftrightarrow> failed cl S r0 (w, tx)"
  by (simp add: failed_def oids_def)

lemma unat_room: "unat (v :: u64) + n < 18446744073709551616 \<longleftrightarrow> uint v + int n < 18446744073709551616"
  by (simp flip: of_nat_less_iff [where 'a = int])

lemma objop_ok:
  assumes s: "steady False S r0 s" "recok (orec (snd s))" "uint (hnof S s) + (case p of Owrite data \<Rightarrow> int (length data) | Oclunk a \<Rightarrow> 0) < 2 ^ 64"
  shows "outcome (objop wk p s) (\<lambda>_ s'. steady False S r0 s' \<and> recok (orec (snd s'))) (\<lambda>s'. steady False S r0 s' \<and> recok (orec (snd s')))"
proof (cases p)
  case (Owrite data)
  then have n: "unat (hnof S s) + length data < 2 ^ 64" using s(3) by (simp add: unat_room)
  have "outcome (bindM (objwrite data wk) (\<lambda>_. retM ()) s) (\<lambda>_ s'. steady False S r0 s' \<and> recok (orec (snd s'))) (\<lambda>s'. steady False S r0 s' \<and> recok (orec (snd s')))"
    by (rule outcome_seq, rule objwrite_ok [OF s(1,2) n]) (use stopped_steady [of S r0] in auto)
  with Owrite show ?thesis by simp
next
  case (Oclunk a)
  obtain w tx where e: "s = (w, tx)" by (cases s)
  note st = steady_store [OF s(1), unfolded e fst_conv snd_conv]
  show ?thesis
  proof (cases "over tx = 0")
    case True
    with Oclunk e st newtx_idle [of S r0 w a] show ?thesis by (simp add: objclunk_def)
  next
    case False
    let ?t = "tx\<lparr>oscan := None, oabort := False\<rparr>"
    have "failed False S r0 (w, ?t)" using steady_failed [OF s(1)] e clunked_failed by simp
    note ok = objsweep_abort_ok [OF this, of wk]
    obtain r w' t' where r: "objsweep_abort wk (w, ?t) = (r, w', t')" by (metis surj_pair)
    have "steady False S r0 (w', newtx a S) \<and> recok (orec (newtx a S))" "r \<noteq> Inl Wild" "r \<noteq> Inl Panic"
      using outcome_any [OF ok, unfolded r] newtx_idle [of S r0 w' a] by auto
    moreover from this have "(\<exists>x. r = Inr x) \<or> (\<exists>e. r = Inl (Err e))" by (metis fault.exhaust sum.exhaust)
    ultimately show ?thesis using Oclunk e st False r by (auto simp: objclunk_def)
  qed
qed

lemma objrun_ok:
  "steady False S r0 s \<Longrightarrow> recok (orec (snd s)) \<Longrightarrow> unworn wk S os s \<Longrightarrow>
   steady False S r0 (snd (objrun wk os s)) \<and> recok (orec (snd (snd (objrun wk os s)))) \<and> (\<forall>r \<in> set (fst (objrun wk os s)). r \<noteq> Inl Wild \<and> r \<noteq> Inl Panic)"
proof (induction os arbitrary: s)
  case (Cons p os)
  obtain r s' where o: "objop wk p s = (r, s')" by (cases "objop wk p s")
  have u: "uint (hnof S s) + (case p of Owrite data \<Rightarrow> int (length data) | Oclunk a \<Rightarrow> 0) < 2 ^ 64" "unworn wk S os s'" using Cons.prems(3) o by simp_all
  note k = outcome_any [OF objop_ok [OF Cons.prems(1,2) u(1), of wk], unfolded o fst_conv snd_conv]
  have "steady False S r0 s'" "recok (orec (snd s'))" using k by auto
  note h = Cons.IH [OF this u(2)]
  obtain rs s'' where e: "objrun wk os s' = (rs, s'')" by (cases "objrun wk os s'")
  show ?case using h k by (simp add: o e)
qed simp

text \<open>A run of writes, none of which fails but perhaps the last one.\<close>

lemma objrun_history:
  "steady True S r0 s \<Longrightarrow> recok (orec (snd s)) \<Longrightarrow> unworn wk S (map Owrite ds) s \<Longrightarrow>
   \<forall>r \<in> set (butlast (fst (objrun wk (map Owrite ds) s))). r = Inr () \<Longrightarrow>
   traced True S r0 (roots (fst (snd (objrun wk (map Owrite ds) s))))"
proof (induction ds arbitrary: s)
  case Nil
  then show ?case using steady_store by simp
next
  case (Cons d ds)
  obtain r s' where o: "objop wk (Owrite d) s = (r, s')" by (cases "objop wk (Owrite d) s")
  have u: "unat (hnof S s) + length d < 2 ^ 64" "unworn wk S (map Owrite ds) s'" using Cons.prems(3) o by (simp_all add: unat_room)
  have w: "outcome (bindM (objwrite d wk) (\<lambda>_. retM ()) s) (\<lambda>_ s'. steady True S r0 s' \<and> recok (orec (snd s'))) (\<lambda>s'. stopped True S r0 s')"
    by (rule outcome_seq, rule objwrite_ok [OF Cons.prems(1,2) u(1)]) auto
  have k: "outcome (r, s') (\<lambda>_ s'. steady True S r0 s' \<and> recok (orec (snd s'))) (\<lambda>s'. stopped True S r0 s')" using w o by simp
  obtain rs s'' where e: "objrun wk (map Owrite ds) s' = (rs, s'')" by (cases "objrun wk (map Owrite ds) s'")
  show ?case
  proof (cases ds)
    case Nil
    then have "s'' = s'" using e by simp
    moreover have "traced True S r0 (roots (fst s'))" using k steady_store [of True S r0 s'] by (auto simp: outcome_def stopped_def split: sum.splits)
    ultimately show ?thesis using o e by simp
  next
    case (Cons d' ds')
    have "rs \<noteq> []" using e Cons by (auto split: prod.splits)
    then have "r = Inr ()" "\<forall>r \<in> set (butlast rs). r = Inr ()" using Cons.prems(4) o e by simp_all
    moreover have "steady True S r0 s'" "recok (orec (snd s'))" using k \<open>r = Inr ()\<close> by (simp_all add: outcome_def)
    ultimately have "traced True S r0 (roots (fst s''))" using Cons.IH [of s'] u(2) e by simp
    then show ?thesis using o e by simp
  qed
qed


section \<open>Properties\<close>

definition putrec :: "u64 \<Rightarrow> bytes \<Rightarrow> bytes" where
  "putrec x d = chr (CHR ''p'') # PACK64 x @ PACK64 (of_nat (length d)) @ d"

definition commitrec :: bytes where
  "commitrec = [chr (CHR ''c''), 0]"

text \<open>A client's run, with an upsert that fails in the second write.\<close>

definition run1 :: "Oop list" where
  "run1 = [Owrite (putrec 6 [1, 2, 3] @ commitrec), Owrite (putrec 6 [4, 5]), Oclunk 1]"

definition ow1 :: Ow where
  "ow1 = \<lparr>roots = [[]], fates = [None, None, None, Some (1, ''io'')], rooms = [], otxs = [], objfail = False\<rparr>"

lemma start1: "rootok S []" "roots ow1 = [[]]" "punctual ow1" "unworn 0 1 run1 (ow1, newtx 0 1)"
proof -
  show "rootok S []" by (simp add: rootok_def kvsorted_def hdrof_def gethdr_def hdr0_def has_def chunk_def lk_def)
  show "unworn 0 1 run1 (ow1, newtx 0 1)" by code_simp
qed (simp_all add: ow1_def punctual_def)

lemma start_steady:
  assumes "rootok S r0" "roots w = [r0]" "punctual w"
    "cl \<Longrightarrow> noleft S r0" "cl \<Longrightarrow> hw (hdrof S r0) = hn (hdrof S r0) \<Longrightarrow> \<forall>x v i. chunk r0 S x v i \<noteq> None \<longrightarrow> v \<le> hn (hdrof S r0)"
  shows "steady cl S r0 (w, newtx a S)" "recok (orec (snd (w, newtx a S)))"
  using assms by (auto simp: steady_def idle_def newtx_def recok_def traced_def)

lemma start_run:
  assumes "rootok S r0" "roots w = [r0]" "punctual w" "unworn wk S os (w, newtx a S)"
  shows "steady False S r0 (snd (objrun wk os (w, newtx a S))) \<and> recok (orec (snd (snd (objrun wk os (w, newtx a S))))) \<and>
    (\<forall>r \<in> set (fst (objrun wk os (w, newtx a S))). r \<noteq> Inl Wild \<and> r \<noteq> Inl Panic)"
  by (rule objrun_ok [OF _ _ assms(4)]) (use newtx_idle [of S r0 w a] assms in \<open>simp_all add: traced_def\<close>)



text \<open>
  C25. No write and no abort of such a run overruns an array of the transaction (the messages, their keys and values, the
  chunk, the client's header, the record) or fails to end, the messages that wait and the record begun are within their
  arrays, and an open transaction is within its limit of bytes.\<close>

theorem obj_bounds:
  assumes "rootok S r0" "roots w = [r0]" "punctual w" "unworn wk S os (w, newtx a S)"
  shows "case objrun wk os (w, newtx a S) of (rs, w', tx) \<Rightarrow>
    (\<forall>r \<in> set rs. r \<noteq> Inl Wild \<and> r \<noteq> Inl Panic) \<and> length (omb tx) \<le> Objclob \<and> length (orec tx) < 17 \<and>
    (over tx \<noteq> 0 \<longrightarrow> 0 \<le> obytes tx \<and> obytes tx \<le> Objtxmax \<and> (onewuser tx \<longrightarrow> length (ouser tx) \<le> Objuser) \<and> (0 < oleft tx \<longrightarrow> length (ochunk tx) < Objchunk))"
proof -
  obtain rs w' tx where e: "objrun wk os (w, newtx a S) = (rs, w', tx)" by (metis surj_pair)
  note k = start_run [OF assms, unfolded e fst_conv snd_conv]
  then have "steady False S r0 (w', tx)" "recok (orec tx)" by simp_all
  then show ?thesis using k recneed_bound [of "orec tx ! 0"]
    by (auto simp: e steady_def opened_def opentx_def idle_def recok_def putting_def split: option.splits)
qed

theorem obj_bounds_witness: "case objrun 0 run1 (ow1, newtx 0 1) of (rs, w', tx) \<Rightarrow>
    (\<forall>r \<in> set rs. r \<noteq> Inl Wild \<and> r \<noteq> Inl Panic) \<and> length (omb tx) \<le> Objclob \<and> length (orec tx) < 17 \<and>
    (over tx \<noteq> 0 \<longrightarrow> 0 \<le> obytes tx \<and> obytes tx \<le> Objtxmax \<and> (onewuser tx \<longrightarrow> length (ouser tx) \<le> Objuser) \<and> (0 < oleft tx \<longrightarrow> length (ochunk tx) < Objchunk))"
  using obj_bounds [OF start1] .


lemma start2: "unworn 0 1 (map Owrite [putrec 6 [1, 2, 3] @ commitrec, putrec 6 [4, 5]]) (ow1, newtx 0 1)" "noleft S []" "\<forall>x v i. chunk [] S x v i \<noteq> None \<longrightarrow> v \<le> n"
  "\<forall>r \<in> set (butlast (fst (objrun 0 (map Owrite [putrec 6 [1, 2, 3] @ commitrec, putrec 6 [4, 5]]) (ow1, newtx 0 1)))). r = Inr ()"
proof -
  show "unworn 0 1 (map Owrite [putrec 6 [1, 2, 3] @ commitrec, putrec 6 [4, 5]]) (ow1, newtx 0 1)" by code_simp
  show "noleft S []" "\<forall>x v i. chunk [] S x v i \<noteq> None \<longrightarrow> v \<le> n" by (simp_all add: noleft_def chunk_def lk_def)
  show "\<forall>r \<in> set (butlast (fst (objrun 0 (map Owrite [putrec 6 [1, 2, 3] @ commitrec, putrec 6 [4, 5]]) (ow1, newtx 0 1)))). r = Inr ()" by code_simp
qed


section \<open>Left-over chunks\<close>

text \<open>
  Left-overs do come to be, and they do harm.  A put of 1000 bytes, of which 960 have come when the fid is clunked: the sweeper
  removes the first chunk only, and sets the header back.  A later commit takes the left-over chunk for the version of
  the object that the oldest kept version shows, and drops the version below it that they do show.
\<close>

definition run2 :: "Oop list" where
  "run2 = [Owrite (putrec 6 [1, 2, 3] @ commitrec), Owrite (chr (CHR ''p'') # PACK64 6 @ PACK64 1000 @ replicate 960 0), Oclunk 1]"

definition ow2 :: "Kvp list \<Rightarrow> Ow" where
  "ow2 r = \<lparr>roots = [r], fates = [], rooms = [], otxs = [], objfail = False\<rparr>"

definition leftover :: "Kvp list" where
  "leftover = [\<lparr>kk = hkey 1, kv = PACK64 4 @ PACK64 2 @ PACK64 4\<rparr>, \<lparr>kk = packkey 1 6 2 1, kv = []\<rparr>, \<lparr>kk = packkey 1 6 1 0, kv = PACK32 3 @ [1, 2, 3]\<rparr>]"

text \<open>
  C40. Two runs: after the first the header says that version 2 was never begun, and the second chunk of its put is still there; in the second, a commit
  over such a left-over publishes version 5, and version 3, which is kept, no longer shows the object it showed one step before.\<close>

theorem obj_leftover:
  "(let r = tree (fst (snd (objrun 0 run2 (ow2 [], newtx 0 1)))) in
     hdrof 1 r = \<lparr>hn = 1, hk = 1, hw = 1, huser = []\<rparr> \<and> chunk r 1 6 2 1 \<noteq> None \<and> chunk r 1 6 2 0 = None) \<and>
   (let rs = roots (fst (snd (objrun 0 [Owrite (putrec 6 [9] @ commitrec)] (ow2 leftover, newtx 0 1)))) in
     hk (hdrof 1 (rs ! 0)) = 3 \<and> newest (rs ! 1) 1 3 6 = Some 1 \<and> newest (rs ! 0) 1 3 6 = None)"
proof
  show "let r = tree (fst (snd (objrun 0 run2 (ow2 [], newtx 0 1)))) in
     hdrof 1 r = \<lparr>hn = 1, hk = 1, hw = 1, huser = []\<rparr> \<and> chunk r 1 6 2 1 \<noteq> None \<and> chunk r 1 6 2 0 = None" by code_simp
  show "let rs = roots (fst (snd (objrun 0 [Owrite (putrec 6 [9] @ commitrec)] (ow2 leftover, newtx 0 1)))) in
     hk (hdrof 1 (rs ! 0)) = 3 \<and> newest (rs ! 1) 1 3 6 = Some 1 \<and> newest (rs ! 0) 1 3 6 = None" by code_simp
qed

text \<open>
  An upsert that fails after its last message, when \<open>commit\<close> writes the header, makes \<open>abort1\<close> remove what has just been published.
\<close>

theorem obj_late_failure:
  "let rs = roots (fst (snd (objrun 0 [Owrite (putrec 6 [1] @ commitrec)] ((ow2 [])\<lparr>fates := [None, None, Some (0, ''io'')]\<rparr>, newtx 0 1)))) in
     hn (hdrof 1 (rs ! 2)) = 1 \<and> newest (rs ! 2) 1 1 6 = Some 1 \<and> hn (hdrof 1 (rs ! 0)) = 1 \<and> newest (rs ! 0) 1 1 6 = None"
  by code_simp

end
