(* ===== verification/Gefs_Cache.thy ===== *)
theory Gefs_Cache
  imports Gefs_Blk
begin

text \<open>
  \<open>sys/src/9/gefs/cache.c\<close>: the block cache.  The buffers for blocks are numbered; \<open>cblk\<close> has the fields
  of each that the cache works with.  Buffers that nobody holds are on the list from \<open>chead\<close> to
  \<open>ctail\<close>, the least recently used last; those whose block can be found by its address are in
  the hash table \<open>bcache\<close>, chained by \<open>hnext\<close>.
\<close>

section \<open>Operations\<close>

record Cblk =
  cnext :: "nat option"
  cprev :: "nat option"
  hnext :: "nat option"
  caddr :: u64
  cref :: int
  cflag :: u32

record Cache =
  cblk :: "nat \<Rightarrow> Cblk"
  chead :: "nat option"
  ctail :: "nat option"
  bcache :: "nat option list"

definition upd :: "Cache \<Rightarrow> nat \<Rightarrow> (Cblk \<Rightarrow> Cblk) \<Rightarrow> Cache" where
  "upd c b f = c\<lparr>cblk := (cblk c)(b := f (cblk c b))\<rparr>"

definition updopt :: "Cache \<Rightarrow> nat option \<Rightarrow> (Cblk \<Rightarrow> Cblk) \<Rightarrow> Cache" where
  "updopt c p f = (case p of None \<Rightarrow> c | Some b \<Rightarrow> upd c b f)"

lemma upd_simps [simp]: "bcache (upd c b f) = bcache c" "chead (upd c b f) = chead c" "ctail (upd c b f) = ctail c"
  "cblk (upd c b f) x = (if x = b then f (cblk c b) else cblk c x)"
  by (simp_all add: upd_def)

definition ckflag :: "Cache \<Rightarrow> nat \<Rightarrow> u32 \<Rightarrow> u32 \<Rightarrow> bool" where
  "ckflag c b st cl \<longleftrightarrow> cflag (cblk c b) AND (st OR cl) = st"

definition lrudel :: "Cache \<Rightarrow> nat \<Rightarrow> Cache" where
  "lrudel c b =
     (let c = (if chead c = Some b then c\<lparr>chead := cnext (cblk c b)\<rparr> else c);
          c = (if ctail c = Some b then c\<lparr>ctail := cprev (cblk c b)\<rparr> else c);
          c = updopt c (cnext (cblk c b)) (\<lambda>n. n\<lparr>cprev := cprev (cblk c b)\<rparr>);
          c = updopt c (cprev (cblk c b)) (\<lambda>n. n\<lparr>cnext := cnext (cblk c b)\<rparr>)
      in upd c b (\<lambda>n. n\<lparr>cnext := None, cprev := None\<rparr>))"

definition lrutop :: "Cache \<Rightarrow> nat \<Rightarrow> Cache res" where
  "lrutop c b =
     assertE (ckflag c b 0 Bstatic)
     (if cref (cblk c b) \<noteq> 0 then Inr c
      else
        let c = lrudel c b;
            c = updopt c (chead c) (\<lambda>n. n\<lparr>cprev := Some b\<rparr>);
            c = (if ctail c = None then c\<lparr>ctail := Some b\<rparr> else c);
            c = upd c b (\<lambda>n. n\<lparr>cnext := chead c\<rparr>)
        in Inr (c\<lparr>chead := Some b\<rparr>))"

definition lrubot :: "Cache \<Rightarrow> nat \<Rightarrow> Cache res" where
  "lrubot c b =
     assertE (ckflag c b 0 Bstatic)
     (if cref (cblk c b) \<noteq> 0 then Inr c
      else
        let c = lrudel c b;
            c = updopt c (ctail c) (\<lambda>n. n\<lparr>cnext := Some b\<rparr>);
            c = (if chead c = None then c\<lparr>chead := Some b\<rparr> else c);
            c = upd c b (\<lambda>n. n\<lparr>cprev := ctail c\<rparr>)
        in Inr (c\<lparr>ctail := Some b\<rparr>))"

definition bucket :: "Cache \<Rightarrow> u64 \<Rightarrow> nat" where
  "bucket c addr = unat (ihash addr) mod length (bcache c)"

text \<open>
  The blocks of a chain.  There are as many buffers as buckets, so a chain that is longer than that has a
  cycle, and the loops over it do not end.
\<close>

fun hwalk :: "nat \<Rightarrow> Cache \<Rightarrow> nat option \<Rightarrow> nat list res" where
  "hwalk n c None = Inr []"
| "hwalk 0 c (Some b) = Inl Wild"
| "hwalk (Suc n) c (Some b) = bindE (hwalk n c (hnext (cblk c b))) (\<lambda>bs. Inr (b # bs))"

definition chainof :: "Cache \<Rightarrow> u64 \<Rightarrow> nat list res" where
  "chainof c addr = assertE (bcache c \<noteq> []) (hwalk (length (bcache c)) c (bcache c ! bucket c addr))"

definition cacheins :: "Cache \<Rightarrow> nat \<Rightarrow> Cache res" where
  "cacheins c b =
     (let addr = caddr (cblk c b) in
      assertE (ckflag c b 0 (Bstatic OR Bcached))
      (let c = upd c b (\<lambda>n. n\<lparr>cflag := cflag n OR Bcached\<rparr>) in
       assertE (hnext (cblk c b) = None)
       (bindE (chainof c addr) (\<lambda>bs.
        assertE (\<forall>bb \<in> set bs. b \<noteq> bb \<and> addr \<noteq> caddr (cblk c bb))
        (let i = bucket c addr;
             c = upd c b (\<lambda>n. n\<lparr>hnext := bcache c ! i\<rparr>)
         in Inr (c\<lparr>bcache := (bcache c)[i := Some b]\<rparr>))))))"

text \<open>The block of a chain with the address, and the one whose \<open>hnext\<close> leads to it (the bucket when \<open>None\<close>).\<close>

fun hfind :: "Cache \<Rightarrow> u64 \<Rightarrow> nat option \<Rightarrow> nat list \<Rightarrow> (nat option \<times> nat) option" where
  "hfind c addr p [] = None"
| "hfind c addr p (b # bs) = (if caddr (cblk c b) = addr then Some (p, b) else hfind c addr (Some b) bs)"

definition cachedel_lk :: "Cache \<Rightarrow> u64 \<Rightarrow> Cache res" where
  "cachedel_lk c addr =
     (if addr = -1 then Inr c
      else
        bindE (chainof c addr) (\<lambda>bs.
        case hfind c addr None bs of
          None \<Rightarrow> Inr c
        | Some (p, b) \<Rightarrow>
            assertE (ckflag c b Bcached Bstatic)
            (let c = (case p of None \<Rightarrow> c\<lparr>bcache := (bcache c)[bucket c addr := hnext (cblk c b)]\<rparr>
                      | Some q \<Rightarrow> upd c q (\<lambda>n. n\<lparr>hnext := hnext (cblk c b)\<rparr>))
             in Inr (upd c b (\<lambda>n. n\<lparr>hnext := None, cflag := cflag n AND NOT Bcached\<rparr>)))))"

definition cachedel :: "Cache \<Rightarrow> u64 \<Rightarrow> Cache res" where
  "cachedel c addr = cachedel_lk c addr"

definition c_holdblk :: "Cache \<Rightarrow> nat \<Rightarrow> Cache" where
  "c_holdblk c b = upd c b (\<lambda>n. n\<lparr>cref := cref n + 1\<rparr>)"

definition cacheget :: "Cache \<Rightarrow> u64 \<Rightarrow> (Cache \<times> nat option) res" where
  "cacheget c addr =
     bindE (chainof c addr) (\<lambda>bs.
     case hfind c addr None bs of
       None \<Rightarrow> Inr (c, None)
     | Some (_, b) \<Rightarrow> Inr (lrudel (c_holdblk c b) b, Some b))"

text \<open>
  \<open>cachepluck\<close> as far as the lock is held; \<open>None\<close> when there is no buffer on the list, and the caller
  sleeps.  The buffer is held after the lock has been given up.
\<close>

definition cachepluck_lk :: "Cache \<Rightarrow> (Cache \<times> nat) option res" where
  "cachepluck_lk c =
     (case ctail c of
        None \<Rightarrow> Inr None
      | Some b \<Rightarrow>
          assertE (cref (cblk c b) = 0)
          (bindE (if ckflag c b Bcached 0 then cachedel_lk c (caddr (cblk c b)) else Inr c) (\<lambda>c.
           assertE (ckflag c b 0 Bcached)
           (Inr (Some (upd (lrudel c b) b (\<lambda>n. n\<lparr>cflag := 0, hnext := None\<rparr>), b))))))"

definition cachepluck :: "Cache \<Rightarrow> (Cache \<times> nat) option res" where
  "cachepluck c = bindE (cachepluck_lk c) (\<lambda>r. Inr (map_option (\<lambda>(c, b). (c_holdblk c b, b)) r))"

text \<open>\<open>dropblk\<close>: the count goes down, and then, under the lock, the buffer goes on the list.\<close>

definition decref :: "Cache \<Rightarrow> nat \<Rightarrow> Cache" where
  "decref c b = upd c b (\<lambda>n. n\<lparr>cref := cref n - 1\<rparr>)"

definition lruput :: "Cache \<Rightarrow> nat \<Rightarrow> Cache res" where
  "lruput c b = (if ckflag c b Bfreed 0 then lrubot c b else lrutop c b)"

definition c_dropblk :: "Cache \<Rightarrow> nat \<Rightarrow> Cache res" where
  "c_dropblk c b =
     (let c = decref c b in if cref (cblk c b) \<noteq> 0 then Inr c else lruput c b)"

section \<open>The list of unused buffers\<close>

fun nextin :: "nat list \<Rightarrow> nat \<Rightarrow> nat option" where
  "nextin [] b = None"
| "nextin (x # xs) b = (if x = b then (case xs of [] \<Rightarrow> None | y # _ \<Rightarrow> Some y) else nextin xs b)"

definition hdopt :: "nat list \<Rightarrow> nat option" where
  "hdopt xs = (case xs of [] \<Rightarrow> None | x # _ \<Rightarrow> Some x)"

lemma hdopt_simps [simp]: "hdopt [] = None" "hdopt (x # xs) = Some x" "hdopt xs = None \<longleftrightarrow> xs = []"
  by (auto simp: hdopt_def split: list.splits)

lemma hdopt_mem: "hdopt xs = Some b \<Longrightarrow> b \<in> set xs"
  by (cases xs) auto

lemma hdopt_append: "hdopt (A @ B) = (if A = [] then hdopt B else hdopt A)"
  by (cases A) auto

lemma hdopt_rev: "hdopt (rev A) = (if A = [] then None else Some (last A))"
  by (cases A rule: rev_cases) auto

lemma nextin_Cons [simp]: "nextin (x # xs) b = (if x = b then hdopt xs else nextin xs b)"
  by (simp add: hdopt_def)

declare nextin.simps(2) [simp del]

lemma nextin_notin: "b \<notin> set xs \<Longrightarrow> nextin xs b = None"
  by (induction xs) auto

lemma nextin_mid: "b \<notin> set A \<Longrightarrow> nextin (A @ b # B) b = hdopt B"
  by (induction A) auto

lemma nextin_del:
  "distinct (A @ b # B) \<Longrightarrow> nextin (A @ B) x = (if x = b then None else if A \<noteq> [] \<and> x = last A then hdopt B else nextin (A @ b # B) x)"
proof (induction A)
  case Nil
  then show ?case by (auto simp: nextin_notin)
next
  case (Cons a A)
  then have IH: "nextin (A @ B) x = (if x = b then None else if A \<noteq> [] \<and> x = last A then hdopt B else nextin (A @ b # B) x)"
    and a: "a \<noteq> b" "a \<notin> set A" "b \<notin> set B" by auto
  show ?case
  proof (cases "a = x")
    case True
    with a show ?thesis by (cases "A = []") (auto simp: hdopt_append)
  next
    case False
    show ?thesis
    proof (cases "A = []")
      case True
      with False a(3) show ?thesis by (simp add: nextin_notin)
    next
      case ne: False
      from False have "nextin ((a # A) @ B) x = nextin (A @ B) x" by simp
      with False ne show ?thesis unfolding IH by simp
    qed
  qed
qed

lemma nextin_snoc: "b \<notin> set A \<Longrightarrow> distinct A \<Longrightarrow> nextin (A @ [b]) x = (if A \<noteq> [] \<and> x = last A then Some b else nextin A x)"
proof (induction A)
  case (Cons a A)
  then show ?case by (cases "A = []") (auto simp: hdopt_append)
qed simp

lemma nextin_prev: "distinct (A @ b # B) \<Longrightarrow> nextin (rev (A @ b # B)) b = (if A = [] then None else Some (last A))"
  using nextin_mid [of b "rev B" "rev A"] by (cases A rule: rev_cases) auto

text \<open>\<open>dll c xs\<close>: the buffers on the list are \<open>xs\<close>, from the head.\<close>

definition dll :: "Cache \<Rightarrow> nat list \<Rightarrow> bool" where
  "dll c xs \<longleftrightarrow> distinct xs \<and> chead c = hdopt xs \<and> ctail c = hdopt (rev xs) \<and>
     (\<forall>b. cnext (cblk c b) = nextin xs b \<and> cprev (cblk c b) = nextin (rev xs) b)"

lemma lrudel_links:
  assumes "cnext (cblk c b) \<noteq> Some b" "cprev (cblk c b) \<noteq> Some b"
  shows "cnext (cblk (lrudel c b) y) = (if y = b then None else if cprev (cblk c b) = Some y then cnext (cblk c b) else cnext (cblk c y))"
    and "cprev (cblk (lrudel c b) y) = (if y = b then None else if cnext (cblk c b) = Some y then cprev (cblk c b) else cprev (cblk c y))"
    and "chead (lrudel c b) = (if chead c = Some b then cnext (cblk c b) else chead c)"
    and "ctail (lrudel c b) = (if ctail c = Some b then cprev (cblk c b) else ctail c)"
  using assms by (auto simp: lrudel_def updopt_def upd_def Let_def split: option.splits)

lemma lrudel_dll:
  assumes "dll c xs"
  shows "dll (lrudel c b) (remove1 b xs)"
proof (cases "b \<in> set xs")
  case False
  with assms have n: "cnext (cblk c b) = None" "cprev (cblk c b) = None" "chead c \<noteq> Some b" "ctail c \<noteq> Some b"
    by (auto simp: dll_def nextin_notin dest: hdopt_mem)
  then show ?thesis using assms False by (auto simp: lrudel_def updopt_def upd_def dll_def remove1_idem)
next
  case True
  then obtain A B where x: "xs = A @ b # B" by (auto simp: in_set_conv_decomp)
  have d: "distinct (A @ b # B)" "distinct (rev B @ b # rev A)" using assms x by (auto simp: dll_def)
  have r: "remove1 b xs = A @ B" using d x by (auto simp: remove1_append)
  have cn: "cnext (cblk c b) = hdopt B" "cprev (cblk c b) = (if A = [] then None else Some (last A))"
    using assms d nextin_mid [of b A B] nextin_prev [OF d(1)] by (auto simp: dll_def x)
  note del = nextin_del [OF d(1)] nextin_del [OF d(2)]
  have c: "\<And>y. cnext (cblk c y) = nextin (A @ b # B) y" "\<And>y. cprev (cblk c y) = nextin (rev B @ b # rev A) y" using assms by (simp_all add: dll_def x)
  have bn: "b \<notin> set A" "b \<notin> set B" "set A \<inter> set B = {}" using d(1) by auto
  have nb: "cnext (cblk c b) \<noteq> Some b" "cprev (cblk c b) \<noteq> Some b" using cn bn by (auto dest: hdopt_mem split: if_splits)
  note l = lrudel_links [OF nb]
  have "cnext (cblk (lrudel c b) y) = nextin (A @ B) y" for y
    using c(1) [of y] unfolding l(1) del(1) cn by auto
  moreover have "cprev (cblk (lrudel c b) y) = nextin (rev B @ rev A) y" for y
    using c(2) [of y] unfolding l(2) del(2) cn by (cases B) (auto simp: hdopt_rev last_rev)
  moreover have "chead (lrudel c b) = hdopt (A @ B)" "ctail (lrudel c b) = hdopt (rev (A @ B))"
    using assms bn unfolding l(3,4) cn by (auto simp: dll_def x hdopt_append hdopt_rev dest: hdopt_mem split: if_splits)
  ultimately show ?thesis using d by (simp add: dll_def r)
qed

lemma lrudel_frame:
  "hnext (cblk (lrudel c b) x) = hnext (cblk c x)" "caddr (cblk (lrudel c b) x) = caddr (cblk c x)" "cref (cblk (lrudel c b) x) = cref (cblk c x)"
  "cflag (cblk (lrudel c b) x) = cflag (cblk c x)" "bcache (lrudel c b) = bcache c"
  unfolding lrudel_def Let_def by (simp_all add: updopt_def upd_def split: option.splits)

text \<open>What the list operations leave alone.\<close>

definition sameblks :: "Cache \<Rightarrow> Cache \<Rightarrow> bool" where
  "sameblks c c' \<longleftrightarrow> bcache c' = bcache c \<and>
     (\<forall>x. hnext (cblk c' x) = hnext (cblk c x) \<and> caddr (cblk c' x) = caddr (cblk c x) \<and> cref (cblk c' x) = cref (cblk c x) \<and> cflag (cblk c' x) = cflag (cblk c x))"

lemma sameblks_lrudel: "sameblks c (lrudel c b)"
  by (simp add: sameblks_def lrudel_frame)

lemma sameblks_trans: "sameblks a b \<Longrightarrow> sameblks b c \<Longrightarrow> sameblks a c"
  by (simp add: sameblks_def)

lemma lrutop_dll:
  assumes d: "dll c xs" and b: "ckflag c b 0 Bstatic" "cref (cblk c b) = 0"
  shows "\<exists>c'. lrutop c b = Inr c' \<and> dll c' (b # remove1 b xs) \<and> sameblks c c'"
proof -
  let ?d = "lrudel c b" and ?ys = "remove1 b xs"
  have dd: "dll ?d ?ys" by (rule lrudel_dll [OF d])
  have nb: "b \<notin> set ?ys" using d by (simp add: dll_def)
  have h: "chead ?d = hdopt ?ys" "ctail ?d = hdopt (rev ?ys)" "hdopt ?ys \<noteq> Some b" "distinct ?ys"
    "\<And>y. cnext (cblk ?d y) = nextin ?ys y" "\<And>y. cprev (cblk ?d y) = nextin (rev ?ys) y" using dd nb by (auto simp: dll_def dest: hdopt_mem)
  define c' where "c' = (let c = updopt ?d (hdopt ?ys) (\<lambda>n. n\<lparr>cprev := Some b\<rparr>);
            c = (if ctail c = None then c\<lparr>ctail := Some b\<rparr> else c);
            c = upd c b (\<lambda>n. n\<lparr>cnext := chead c\<rparr>) in c\<lparr>chead := Some b\<rparr>)"
  have l: "lrutop c b = Inr c'" using b h(1) by (simp add: lrutop_def c'_def Let_def)
  have f: "chead c' = Some b" "ctail c' = (if ?ys = [] then Some b else hdopt (rev ?ys))"
    "\<And>y. cnext (cblk c' y) = (if y = b then hdopt ?ys else nextin ?ys y)"
    "\<And>y. cprev (cblk c' y) = (if hdopt ?ys = Some y then Some b else nextin (rev ?ys) y)"
    using h by (cases "hdopt ?ys"; auto simp: c'_def updopt_def upd_def Let_def)+
  have s: "sameblks ?d c'" by (auto simp: c'_def sameblks_def updopt_def upd_def Let_def split: option.splits)
  have "cprev (cblk c' y) = nextin (rev ?ys @ [b]) y" for y
    unfolding f(4) using nextin_snoc [of b "rev ?ys" y] nb h(4) by (cases ?ys) (auto simp: last_rev)
  then have "dll c' (b # ?ys)" using nb h(4) f(1,2,3) by (auto simp: dll_def hdopt_append)
  with l s sameblks_trans [OF sameblks_lrudel] show ?thesis by blast
qed

lemma lrubot_dll:
  assumes d: "dll c xs" and b: "ckflag c b 0 Bstatic" "cref (cblk c b) = 0"
  shows "\<exists>c'. lrubot c b = Inr c' \<and> dll c' (remove1 b xs @ [b]) \<and> sameblks c c'"
proof -
  let ?d = "lrudel c b" and ?ys = "remove1 b xs"
  have dd: "dll ?d ?ys" by (rule lrudel_dll [OF d])
  have nb: "b \<notin> set ?ys" using d by (simp add: dll_def)
  have h: "chead ?d = hdopt ?ys" "ctail ?d = hdopt (rev ?ys)" "hdopt (rev ?ys) \<noteq> Some b" "distinct ?ys"
    "\<And>y. cnext (cblk ?d y) = nextin ?ys y" "\<And>y. cprev (cblk ?d y) = nextin (rev ?ys) y" using dd nb by (auto simp: dll_def dest: hdopt_mem)
  define c' where "c' = (let c = updopt ?d (hdopt (rev ?ys)) (\<lambda>n. n\<lparr>cnext := Some b\<rparr>);
            c = (if chead c = None then c\<lparr>chead := Some b\<rparr> else c);
            c = upd c b (\<lambda>n. n\<lparr>cprev := ctail c\<rparr>) in c\<lparr>ctail := Some b\<rparr>)"
  have l: "lrubot c b = Inr c'" using b h(2) by (simp add: lrubot_def c'_def Let_def)
  have f: "ctail c' = Some b" "chead c' = (if ?ys = [] then Some b else hdopt ?ys)"
    "\<And>y. cprev (cblk c' y) = (if y = b then hdopt (rev ?ys) else nextin (rev ?ys) y)"
    "\<And>y. cnext (cblk c' y) = (if hdopt (rev ?ys) = Some y then Some b else nextin ?ys y)"
    using h by (cases "hdopt (rev ?ys)"; auto simp: c'_def updopt_def upd_def Let_def)+
  have s: "sameblks ?d c'" by (auto simp: c'_def sameblks_def updopt_def upd_def Let_def split: option.splits)
  have "cnext (cblk c' y) = nextin (?ys @ [b]) y" for y
    unfolding f(4) using nextin_snoc [of b ?ys y] nb h(4) by (auto simp: hdopt_rev)
  then have "dll c' (?ys @ [b])" using nb h(4) f(1,2,3) by (auto simp: dll_def hdopt_append)
  with l s sameblks_trans [OF sameblks_lrudel] show ?thesis by blast
qed

section \<open>The hash table\<close>

fun hlist :: "Cache \<Rightarrow> nat option \<Rightarrow> nat list \<Rightarrow> bool" where
  "hlist c p [] \<longleftrightarrow> p = None"
| "hlist c p (x # xs) \<longleftrightarrow> p = Some x \<and> hlist c (hnext (cblk c x)) xs"

definition iscached :: "Cache \<Rightarrow> nat \<Rightarrow> bool" where
  "iscached c b \<longleftrightarrow> ckflag c b Bcached 0"

text \<open>\<open>H\<close> are the chains of the buckets.\<close>

definition tab :: "Cache \<Rightarrow> (nat \<Rightarrow> nat list) \<Rightarrow> bool" where
  "tab c H \<longleftrightarrow> bcache c \<noteq> [] \<and>
     (\<forall>i < length (bcache c). hlist c (bcache c ! i) (H i) \<and> distinct (H i) \<and> (\<forall>b \<in> set (H i). bucket c (caddr (cblk c b)) = i \<and> iscached c b)) \<and>
     (\<forall>b. iscached c b \<longrightarrow> b \<in> set (H (bucket c (caddr (cblk c b)))) \<and> b < length (bcache c) \<and> ckflag c b 0 Bstatic \<and> caddr (cblk c b) \<noteq> -1) \<and>
     (\<forall>b b'. iscached c b \<and> iscached c b' \<and> caddr (cblk c b) = caddr (cblk c b') \<longrightarrow> b = b') \<and>
     (\<forall>b. \<not> iscached c b \<longrightarrow> hnext (cblk c b) = None)"

lemma tab_ne: "tab c H \<Longrightarrow> bcache c \<noteq> []"
  by (simp add: tab_def)

lemma tab_row:
  assumes "tab c H" "i < length (bcache c)"
  shows "hlist c (bcache c ! i) (H i)" "distinct (H i)" "\<And>b. b \<in> set (H i) \<Longrightarrow> bucket c (caddr (cblk c b)) = i" "\<And>b. b \<in> set (H i) \<Longrightarrow> iscached c b"
  using assms unfolding tab_def by blast+

lemma tab_cached:
  assumes "tab c H" "iscached c b"
  shows "b \<in> set (H (bucket c (caddr (cblk c b))))" "b < length (bcache c)" "ckflag c b 0 Bstatic" "caddr (cblk c b) \<noteq> -1"
  using assms unfolding tab_def by blast+

lemma tab_inj: "tab c H \<Longrightarrow> iscached c b \<Longrightarrow> iscached c b' \<Longrightarrow> caddr (cblk c b) = caddr (cblk c b') \<Longrightarrow> b = b'"
  unfolding tab_def by blast

lemma tab_hnext: "tab c H \<Longrightarrow> \<not> iscached c b \<Longrightarrow> hnext (cblk c b) = None"
  unfolding tab_def by blast

lemma tabI:
  assumes "bcache c \<noteq> []"
    and "\<And>i. i < length (bcache c) \<Longrightarrow> hlist c (bcache c ! i) (H i) \<and> distinct (H i) \<and> (\<forall>b \<in> set (H i). bucket c (caddr (cblk c b)) = i \<and> iscached c b)"
    and "\<And>b. iscached c b \<Longrightarrow> b \<in> set (H (bucket c (caddr (cblk c b)))) \<and> b < length (bcache c) \<and> ckflag c b 0 Bstatic \<and> caddr (cblk c b) \<noteq> -1"
    and "\<And>b b'. iscached c b \<Longrightarrow> iscached c b' \<Longrightarrow> caddr (cblk c b) = caddr (cblk c b') \<Longrightarrow> b = b'"
    and "\<And>b. \<not> iscached c b \<Longrightarrow> hnext (cblk c b) = None"
  shows "tab c H"
  unfolding tab_def using assms by blast

lemma hlist_cong: "(\<forall>x \<in> set xs. hnext (cblk c' x) = hnext (cblk c x)) \<Longrightarrow> hlist c' p xs = hlist c p xs"
  by (induction xs arbitrary: p) auto

lemma hwalk_hlist: "hlist c p xs \<Longrightarrow> length xs \<le> n \<Longrightarrow> hwalk n c p = Inr xs"
  by (induction xs arbitrary: n p) (auto simp: Suc_le_eq less_iff_Suc_add)

lemma hwalk_cong: "(\<And>x. hnext (cblk c' x) = hnext (cblk c x)) \<Longrightarrow> hwalk n c' p = hwalk n c p"
proof (induction n arbitrary: p)
  case 0
  then show ?case by (cases p) auto
next
  case (Suc n)
  then show ?case by (cases p) auto
qed

lemma bucket_less: "bcache c \<noteq> [] \<Longrightarrow> bucket c addr < length (bcache c)"
  by (simp add: bucket_def)

lemma chainof_tab:
  assumes "tab c H"
  shows "chainof c addr = Inr (H (bucket c addr))"
proof -
  let ?i = "bucket c addr"
  have i: "?i < length (bcache c)" using assms bucket_less by (simp add: tab_def)
  then have h: "hlist c (bcache c ! ?i) (H ?i)" "distinct (H ?i)" "\<forall>b \<in> set (H ?i). iscached c b" using assms by (auto simp: tab_def)
  have "set (H ?i) \<subseteq> {..< length (bcache c)}" using h(3) assms by (auto simp: tab_def)
  from card_mono [OF _ this] h(2) have "length (H ?i) \<le> length (bcache c)" by (simp add: distinct_card)
  from hwalk_hlist [OF h(1) this] show ?thesis using assms by (simp add: chainof_def tab_def)
qed

lemma hfind_None: "hfind c addr p xs = None \<longleftrightarrow> (\<forall>b \<in> set xs. caddr (cblk c b) \<noteq> addr)"
  by (induction xs arbitrary: p) auto

lemma hfind_Some:
  "hfind c addr p xs = Some (q, b) \<Longrightarrow> \<exists>A B. xs = A @ b # B \<and> caddr (cblk c b) = addr \<and> q = (if A = [] then p else Some (last A))"
proof (induction xs arbitrary: p)
  case (Cons x xs)
  show ?case
  proof (cases "caddr (cblk c x) = addr")
    case True
    with Cons.prems show ?thesis by (intro exI [of _ "[]"] exI [of _ xs]) auto
  next
    case False
    with Cons obtain A B where "xs = A @ b # B" "caddr (cblk c b) = addr" "q = (if A = [] then Some x else Some (last A))" by force
    then show ?thesis by (intro exI [of _ "x # A"] exI [of _ B]) auto
  qed
qed simp

text \<open>What \<open>hfind\<close> tells of the table.\<close>

lemma find_tab:
  assumes "tab c H"
  shows "case hfind c addr None (H (bucket c addr)) of None \<Rightarrow> \<forall>b. iscached c b \<longrightarrow> caddr (cblk c b) \<noteq> addr
    | Some (p, b) \<Rightarrow> iscached c b \<and> caddr (cblk c b) = addr \<and>
        (\<exists>A B. H (bucket c addr) = A @ b # B \<and> p = (if A = [] then None else Some (last A)))"
proof (cases "hfind c addr None (H (bucket c addr))")
  case None
  then have n: "\<forall>b \<in> set (H (bucket c addr)). caddr (cblk c b) \<noteq> addr" by (simp add: hfind_None)
  have "caddr (cblk c b) \<noteq> addr" if "iscached c b" for b
  proof
    assume a: "caddr (cblk c b) = addr"
    have "b \<in> set (H (bucket c (caddr (cblk c b))))" using assms that by (simp add: tab_def)
    with n a show False by auto
  qed
  with None show ?thesis by simp
next
  case (Some pb)
  obtain p b where pb: "pb = (p, b)" by (cases pb)
  from hfind_Some [OF Some [unfolded pb]] obtain A B where h: "H (bucket c addr) = A @ b # B" "caddr (cblk c b) = addr" "p = (if A = [] then None else Some (last A))" by blast
  have "bcache c \<noteq> []" using assms by (simp add: tab_def)
  from bucket_less [OF this, of addr] assms have "\<forall>x \<in> set (H (bucket c addr)). iscached c x" unfolding tab_def by blast
  with h(1) have "iscached c b" by simp
  with h Some pb show ?thesis by auto
qed

lemma tab_frame:
  assumes "tab c H" "sameblks c c'"
  shows "tab c' H"
proof -
  have f: "hnext (cblk c' x) = hnext (cblk c x)" "caddr (cblk c' x) = caddr (cblk c x)" "cflag (cblk c' x) = cflag (cblk c x)" "bcache c' = bcache c" for x
    using assms(2) by (auto simp: sameblks_def)
  have "hlist c' p xs = hlist c p xs" for p xs by (rule hlist_cong) (simp add: f)
  with assms(1) show ?thesis by (simp add: tab_def bucket_def iscached_def ckflag_def f)
qed

lemma hlist_del:
  assumes "\<And>x. x \<noteq> b \<Longrightarrow> hnext (cblk c' x) = (if A \<noteq> [] \<and> x = last A then hnext (cblk c b) else hnext (cblk c x))"
    and "hlist c p (A @ b # B)" "distinct (A @ b # B)"
  shows "hlist c' (if A = [] then hnext (cblk c b) else p) (A @ B)"
  using assms
proof (induction A arbitrary: p)
  case Nil
  have "hnext (cblk c' x) = hnext (cblk c x)" if "x \<in> set B" for x using that Nil.prems(1) [of x] Nil.prems(3) by auto
  then have "hlist c' q B = hlist c q B" for q by (intro hlist_cong) simp
  with Nil.prems(2) show ?case by simp
next
  case (Cons a A)
  show ?case
  proof (cases "A = []")
    case True
    have "hnext (cblk c' x) = hnext (cblk c x)" if "x \<in> set B" for x
    proof -
      have "x \<noteq> b" "x \<noteq> a" using that Cons.prems(3) by auto
      with Cons.prems(1) [of x] True show ?thesis by simp
    qed
    then have "hlist c' q B = hlist c q B" for q by (intro hlist_cong) simp
    moreover have "hnext (cblk c' a) = hnext (cblk c b)" using Cons.prems(1) [of a] Cons.prems(3) True by simp
    ultimately show ?thesis using Cons.prems(2) True by simp
  next
    case False
    have "hnext (cblk c' x) = (if A \<noteq> [] \<and> x = last A then hnext (cblk c b) else hnext (cblk c x))" if "x \<noteq> b" for x
      using Cons.prems(1) [OF that] False by simp
    from Cons.IH [OF this] Cons.prems(2,3) False have "hlist c' (hnext (cblk c a)) (A @ B)" by auto
    moreover have "hnext (cblk c' a) = hnext (cblk c a)" using Cons.prems(1) [of a] Cons.prems(3) False by auto
    ultimately show ?thesis using Cons.prems(2) by simp
  qed
qed

lemma flag_simps:
  "(f OR 8) AND 8 = (8 :: u32)" "(f AND - 9) AND 8 = (0 :: u32)" "(f OR 8) AND 64 = f AND (64 :: u32)" "(f AND - 9) AND 64 = f AND (64 :: u32)"
proof -
  have [simp]: "(8 :: u32) AND 64 = 0" "(- 9 :: u32) AND 64 = 64" "(- 9 :: u32) AND 8 = 0" by simp_all
  show "(f OR 8) AND 8 = (8 :: u32)" "(f AND - 9) AND 8 = (0 :: u32)" "(f OR 8) AND 64 = f AND (64 :: u32)" "(f AND - 9) AND 64 = f AND (64 :: u32)"
    by (simp_all add: bit.conj_disj_distrib2 and.assoc)
qed

lemma flag8: "f AND 8 = 8 \<or> f AND 8 = (0 :: u32)"
proof -
  have "f AND 2 ^ k = (if bit f k then 2 ^ k else (0 :: u32))" for k by (rule bit_eqI) (auto simp: bit_and_iff bit_exp_iff)
  from this [of 3] show ?thesis by (cases "bit f 3") simp_all
qed

lemma ckflag_both: "ckflag c b 8 0 \<Longrightarrow> ckflag c b 0 64 \<Longrightarrow> ckflag c b 8 64"
  unfolding ckflag_def bit.conj_disj_distrib by simp

text \<open>The cached block \<open>b\<close> leaves the table.\<close>

lemma tab_del:
  assumes t: "tab c H" and H: "H i = A @ b # B" "i = bucket c (caddr (cblk c b))" "iscached c b"
    and c': "length (bcache c') = length (bcache c)" "\<And>j. j \<noteq> i \<Longrightarrow> bcache c' ! j = bcache c ! j"
      "bcache c' ! i = (if A = [] then hnext (cblk c b) else bcache c ! i)"
      "\<And>x. x \<noteq> b \<Longrightarrow> hnext (cblk c' x) = (if A \<noteq> [] \<and> x = last A then hnext (cblk c b) else hnext (cblk c x))"
      "hnext (cblk c' b) = None" "\<And>x. caddr (cblk c' x) = caddr (cblk c x)"
      "\<And>x. x \<noteq> b \<Longrightarrow> cflag (cblk c' x) = cflag (cblk c x)" "cflag (cblk c' b) = cflag (cblk c b) AND NOT Bcached"
  shows "tab c' (H(i := A @ B))" "\<And>x. iscached c' x \<longleftrightarrow> iscached c x \<and> x \<noteq> b"
proof -
  note ne = tab_ne [OF t]
  have il: "i < length (bcache c)" unfolding H(2) by (rule bucket_less [OF ne])
  have bk: "bucket c' a = bucket c a" for a by (simp add: bucket_def c'(1))
  show ic: "iscached c' x \<longleftrightarrow> iscached c x \<and> x \<noteq> b" for x
    by (cases "x = b") (simp_all add: iscached_def ckflag_def c'(7,8) flag_simps(2))
  have st: "ckflag c' x 0 Bstatic = ckflag c x 0 Bstatic" for x
    by (cases "x = b") (simp_all add: ckflag_def c'(7,8) flag_simps(4))
  have ch: "hlist c (bcache c ! j) (H j)" "distinct (H j)" "\<forall>x \<in> set (H j). bucket c (caddr (cblk c x)) = j \<and> iscached c x" if "j < length (bcache c)" for j
    using tab_row [OF t that] by blast+
  have bi: "\<forall>x \<in> set (H i). bucket c (caddr (cblk c x)) = i" using ch(3) [OF il] by blast
  have row: "hlist c' (bcache c' ! j) ((H(i := A @ B)) j) \<and> distinct ((H(i := A @ B)) j) \<and> (\<forall>x \<in> set ((H(i := A @ B)) j). bucket c' (caddr (cblk c' x)) = j \<and> iscached c' x)"
    if j: "j < length (bcache c)" for j
  proof (cases "j = i")
    case True
    have "hlist c' (bcache c' ! i) (A @ B)" using hlist_del [OF c'(4), of "bcache c ! i" B] ch(1,2) [OF il] by (simp add: H(1) c'(3) split: if_splits)
    moreover have "distinct (A @ B)" "b \<notin> set (A @ B)" using ch(2) [OF il] H(1) by auto
    ultimately show ?thesis using True ch(3) [OF il] H(1) by (auto simp: bk c'(6) ic)
  next
    case False
    have d: "x \<notin> set (H j)" if "x \<in> set (H i)" for x
    proof
      assume "x \<in> set (H j)"
      then have "bucket c (caddr (cblk c x)) = j" using ch(3) [OF j] by blast
      with bi that False show False by auto
    qed
    have nb: "b \<notin> set (H j)" "A \<noteq> [] \<longrightarrow> last A \<notin> set (H j)" using d [of b] d [of "last A"] by (auto simp: H(1))
    have "hnext (cblk c' x) = hnext (cblk c x)" if "x \<in> set (H j)" for x
    proof -
      have "x \<noteq> b" "\<not> (A \<noteq> [] \<and> x = last A)" using that nb by auto
      with c'(4) [of x] show ?thesis by simp
    qed
    then have "hlist c' (bcache c' ! j) (H j) = hlist c (bcache c ! j) (H j)" using c'(2) [OF False] by (simp add: hlist_cong)
    then show ?thesis using False ch [OF j] nb by (auto simp: bk c'(6) ic)
  qed
  have mem: "x \<in> set ((H(i := A @ B)) (bucket c' (caddr (cblk c' x)))) \<and> x < length (bcache c') \<and> ckflag c' x 0 Bstatic \<and> caddr (cblk c' x) \<noteq> -1" if "iscached c' x" for x
  proof -
    have x: "iscached c x" "x \<noteq> b" using that ic by auto
    with tab_cached [OF t x(1)] H(1) show ?thesis by (auto simp: bk c'(1,6) st)
  qed
  have la: "A \<noteq> [] \<longrightarrow> iscached c (last A)" using ch(3) [OF il] H(1) by auto
  have hn: "hnext (cblk c' x) = None" if "\<not> iscached c' x" for x
  proof (cases "x = b")
    case False
    with that ic have "\<not> iscached c x" by blast
    with tab_hnext [OF t] la c'(4) [OF False] show ?thesis by auto
  qed (simp add: c'(5))
  show "tab c' (H(i := A @ B))"
  proof (rule tabI)
    show "bcache c' \<noteq> []" using ne c'(1) by (metis length_0_conv)
  next
    fix x y assume "iscached c' x" "iscached c' y" "caddr (cblk c' x) = caddr (cblk c' y)"
    then show "x = y" using tab_inj [OF t] ic by (simp add: c'(6))
  qed (use row mem hn c'(1) in auto)
qed

section \<open>The operations on a sound cache\<close>

definition cinv :: "Cache \<Rightarrow> nat list \<Rightarrow> bool" where
  "cinv c xs \<longleftrightarrow> dll c xs \<and> (\<exists>H. tab c H)"

lemma dll_frame:
  assumes "dll c xs" "chead c' = chead c" "ctail c' = ctail c" "\<And>x. cnext (cblk c' x) = cnext (cblk c x) \<and> cprev (cblk c' x) = cprev (cblk c x)"
  shows "dll c' xs"
  using assms by (simp add: dll_def)

lemma cachedel_cinv:
  assumes "cinv c xs"
  shows "\<exists>c'. cachedel_lk c addr = Inr c' \<and> cinv c' xs \<and> (\<forall>x. iscached c' x \<longleftrightarrow> iscached c x \<and> caddr (cblk c x) \<noteq> addr) \<and>
    (\<forall>x. caddr (cblk c' x) = caddr (cblk c x) \<and> cref (cblk c' x) = cref (cblk c x) \<and> (cflag (cblk c' x) AND Bstatic) = (cflag (cblk c x) AND Bstatic)) \<and>
    length (bcache c') = length (bcache c)"
proof -
  from assms obtain H where H: "tab c H" "dll c xs" by (auto simp: cinv_def)
  show ?thesis
  proof (cases "addr = -1 \<or> hfind c addr None (H (bucket c addr)) = None")
    case True
    have "caddr (cblk c x) \<noteq> addr" if "iscached c x" for x using True find_tab [OF H(1), of addr] tab_cached(4) [OF H(1) that] that by auto
    then have "\<forall>x. iscached c x \<longleftrightarrow> iscached c x \<and> caddr (cblk c x) \<noteq> addr" by blast
    moreover have "cachedel_lk c addr = Inr c" using True chainof_tab [OF H(1)] by (auto simp: cachedel_lk_def)
    ultimately show ?thesis using assms by blast
  next
    case False
    then obtain p b where pb: "hfind c addr None (H (bucket c addr)) = Some (p, b)" by auto
    with find_tab [OF H(1), of addr] obtain A B where b: "iscached c b" "caddr (cblk c b) = addr" "H (bucket c addr) = A @ b # B" "p = (if A = [] then None else Some (last A))" by auto
    let ?i = "bucket c addr"
    have "ckflag c b 0 Bstatic" by (rule tab_cached(3) [OF H(1) b(1)])
    then have ck: "ckflag c b Bcached Bstatic" using b(1) ckflag_both by (simp add: iscached_def)
    define c' where "c' = upd (case p of None \<Rightarrow> c\<lparr>bcache := (bcache c)[?i := hnext (cblk c b)]\<rparr> | Some q \<Rightarrow> upd c q (\<lambda>n. n\<lparr>hnext := hnext (cblk c b)\<rparr>))
      b (\<lambda>n. n\<lparr>hnext := None, cflag := cflag n AND NOT Bcached\<rparr>)"
    have r: "cachedel_lk c addr = Inr c'" using False chainof_tab [OF H(1)] pb ck by (simp add: cachedel_lk_def c'_def Let_def)
    have il: "?i < length (bcache c)" by (rule bucket_less [OF tab_ne [OF H(1)]])
    from tab_row(2) [OF H(1) this] have "distinct (A @ b # B)" by (simp add: b(3))
    then have nb: "A \<noteq> [] \<Longrightarrow> last A \<noteq> b" by auto
    have e: "cblk c' = (if A = [] then cblk c else (cblk c)(last A := (cblk c (last A))\<lparr>hnext := hnext (cblk c b)\<rparr>))(b := (cblk c b)\<lparr>hnext := None, cflag := cflag (cblk c b) AND NOT Bcached\<rparr>)"
      "bcache c' = (if A = [] then (bcache c)[?i := hnext (cblk c b)] else bcache c)" "chead c' = chead c" "ctail c' = ctail c"
      using b(4) nb by (auto simp: c'_def upd_def)
    have f: "length (bcache c') = length (bcache c)" "\<And>j. j \<noteq> ?i \<Longrightarrow> bcache c' ! j = bcache c ! j"
      "bcache c' ! ?i = (if A = [] then hnext (cblk c b) else bcache c ! ?i)"
      "\<And>x. x \<noteq> b \<Longrightarrow> hnext (cblk c' x) = (if A \<noteq> [] \<and> x = last A then hnext (cblk c b) else hnext (cblk c x))"
      "hnext (cblk c' b) = None" "\<And>x. caddr (cblk c' x) = caddr (cblk c x)"
      "\<And>x. x \<noteq> b \<Longrightarrow> cflag (cblk c' x) = cflag (cblk c x)" "cflag (cblk c' b) = cflag (cblk c b) AND NOT Bcached"
      and g: "chead c' = chead c" "ctail c' = ctail c" "\<And>x. cnext (cblk c' x) = cnext (cblk c x) \<and> cprev (cblk c' x) = cprev (cblk c x)"
        "\<And>x. cref (cblk c' x) = cref (cblk c x)"
      unfolding e using il nb by (cases "A = []"; simp)+
    note td = tab_del [OF H(1) b(3) _ b(1) f]
    have "iscached c' x \<longleftrightarrow> iscached c x \<and> caddr (cblk c x) \<noteq> addr" for x
      using td(2) [of x] b(1,2) tab_inj [OF H(1), of x b] by auto
    moreover have "cflag (cblk c' x) AND Bstatic = cflag (cblk c x) AND Bstatic" for x
      using f(7) [of x] f(8) by (cases "x = b") (simp_all add: flag_simps)
    ultimately show ?thesis using r td(1) b(2) dll_frame [OF H(2) g(1-3)] f(1,6) g(4) unfolding cinv_def by auto
  qed
qed

lemma lrudel_cinv: "cinv c xs \<Longrightarrow> cinv (lrudel c b) (remove1 b xs)"
  unfolding cinv_def using lrudel_dll tab_frame [OF _ sameblks_lrudel] by blast

text \<open>The counts and the other flags do not matter to the lists.\<close>

lemma cinv_frame:
  assumes "cinv c xs" "bcache c' = bcache c" "chead c' = chead c" "ctail c' = ctail c"
    and "\<And>x. cnext (cblk c' x) = cnext (cblk c x) \<and> cprev (cblk c' x) = cprev (cblk c x)"
    and "\<And>x. hnext (cblk c' x) = hnext (cblk c x) \<and> caddr (cblk c' x) = caddr (cblk c x) \<and> cflag (cblk c' x) = cflag (cblk c x)"
  shows "cinv c' xs"
proof -
  from assms(1) obtain H where H: "dll c xs" "tab c H" by (auto simp: cinv_def)
  have "hlist c' p ys = hlist c p ys" for p ys by (rule hlist_cong) (simp add: assms(6))
  then have "tab c' H" using H(2) by (simp add: tab_def bucket_def iscached_def ckflag_def assms(2,6))
  with dll_frame [OF H(1) assms(3,4,5)] show ?thesis by (auto simp: cinv_def)
qed

lemma cinv_ref: "cinv c xs \<Longrightarrow> cinv (upd c b (\<lambda>n. n\<lparr>cref := f n\<rparr>)) xs"
  by (erule cinv_frame) (simp_all add: upd_def)

lemma cacheget_cinv:
  assumes "cinv c xs"
  shows "\<exists>c' r. cacheget c addr = Inr (c', r) \<and>
    (case r of None \<Rightarrow> c' = c \<and> (\<forall>b. iscached c b \<longrightarrow> caddr (cblk c b) \<noteq> addr)
     | Some b \<Rightarrow> iscached c b \<and> caddr (cblk c b) = addr \<and> c' = lrudel (c_holdblk c b) b \<and> cinv c' (remove1 b xs))"
proof -
  from assms obtain H where H: "tab c H" by (auto simp: cinv_def)
  have "cinv (lrudel (c_holdblk c b) b) (remove1 b xs)" for b
    unfolding c_holdblk_def by (intro lrudel_cinv cinv_ref assms)
  with find_tab [OF H, of addr] show ?thesis
    by (auto simp: cacheget_def chainof_tab [OF H] split: option.splits)
qed

lemma cacheins_cinv:
  assumes c: "cinv c xs" and b: "\<not> iscached c b" "ckflag c b 0 Bstatic" "b < length (bcache c)" "caddr (cblk c b) \<noteq> -1"
    and new: "\<forall>x. iscached c x \<longrightarrow> caddr (cblk c x) \<noteq> caddr (cblk c b)"
  shows "\<exists>c'. cacheins c b = Inr c' \<and> cinv c' xs \<and> (\<forall>x. iscached c' x \<longleftrightarrow> iscached c x \<or> x = b) \<and>
    (\<forall>x. caddr (cblk c' x) = caddr (cblk c x) \<and> cref (cblk c' x) = cref (cblk c x) \<and> (cflag (cblk c' x) AND Bstatic) = (cflag (cblk c x) AND Bstatic)) \<and>
    length (bcache c') = length (bcache c)"
proof -
  from c obtain H where H: "dll c xs" "tab c H" by (auto simp: cinv_def)
  let ?i = "bucket c (caddr (cblk c b))"
  define c1 where "c1 = upd c b (\<lambda>n. n\<lparr>cflag := cflag n OR Bcached\<rparr>)"
  define c' where "c' = (upd c1 b (\<lambda>n. n\<lparr>hnext := bcache c ! ?i\<rparr>))\<lparr>bcache := (bcache c)[?i := Some b]\<rparr>"
  have il: "?i < length (bcache c)" by (rule bucket_less [OF tab_ne [OF H(2)]])
  note row = tab_row [OF H(2)]
  have bH: "b \<notin> set (H j)" if "j < length (bcache c)" for j using row(4) [OF that] b(1) by blast
  have ck: "ckflag c b 0 (Bstatic OR Bcached)"
    using b(1,2) unfolding iscached_def ckflag_def bit.conj_disj_distrib
    using flag8 [of "cflag (cblk c b)"] by simp
  have tr: "chainof c1 a = Inr (H (bucket c a))" for a
  proof -
    have "hwalk n c1 p = hwalk n c p" for n p by (rule hwalk_cong) (simp add: c1_def upd_def)
    then show ?thesis using chainof_tab [OF H(2), of a] by (simp add: chainof_def bucket_def c1_def upd_def)
  qed
  have hn: "hnext (cblk c b) = None" by (rule tab_hnext [OF H(2) b(1)])
  have fr: "hnext (cblk c1 b) = None" "caddr (cblk c1 x) = caddr (cblk c x)" "bcache c1 = bcache c" "bucket c1 a = bucket c a" for x a
    using hn by (simp_all add: c1_def upd_def bucket_def)
  have un: "\<forall>x \<in> set (H ?i). b \<noteq> x \<and> caddr (cblk c b) \<noteq> caddr (cblk c x)" using bH [OF il] row(4) [OF il] new by metis
  have r: "cacheins c b = Inr c'"
    unfolding cacheins_def Let_def c1_def [symmetric] using ck un by (simp add: tr fr c'_def)
  have f: "\<And>x. x \<noteq> b \<Longrightarrow> cblk c' x = cblk c x" "cblk c' b = (cblk c b)\<lparr>cflag := cflag (cblk c b) OR Bcached, hnext := bcache c ! ?i\<rparr>"
    "bcache c' = (bcache c)[?i := Some b]" "chead c' = chead c" "ctail c' = ctail c" by (simp_all add: c'_def c1_def upd_def)
  have ad: "caddr (cblk c' x) = caddr (cblk c x)" "cnext (cblk c' x) = cnext (cblk c x) \<and> cprev (cblk c' x) = cprev (cblk c x)"
    "cref (cblk c' x) = cref (cblk c x)" "(cflag (cblk c' x) AND Bstatic) = (cflag (cblk c x) AND Bstatic)" for x
    by (cases "x = b"; simp add: f flag_simps)+
  have ic: "iscached c' x \<longleftrightarrow> iscached c x \<or> x = b" for x by (cases "x = b") (simp_all add: f iscached_def ckflag_def flag_simps)
  have bk: "bucket c' a = bucket c a" for a by (simp add: bucket_def f)
  have hl: "hlist c' p (H j) = hlist c p (H j)" if "j < length (bcache c)" for p j
    using bH [OF that] f(1) by (intro hlist_cong) metis
  have "tab c' (H(?i := b # H ?i))"
  proof (rule tabI)
    show "bcache c' \<noteq> []" using tab_ne [OF H(2)] by (simp add: f)
  next
    fix j assume j: "j < length (bcache c')"
    then have jl: "j < length (bcache c)" by (simp add: f)
    show "hlist c' (bcache c' ! j) ((H(?i := b # H ?i)) j) \<and> distinct ((H(?i := b # H ?i)) j) \<and> (\<forall>x \<in> set ((H(?i := b # H ?i)) j). bucket c' (caddr (cblk c' x)) = j \<and> iscached c' x)"
      using row [OF jl] bH [OF jl] hl [OF jl] by (cases "j = ?i") (auto simp: f(2,3) ad bk ic il)
  next
    fix x assume "iscached c' x"
    then show "x \<in> set ((H(?i := b # H ?i)) (bucket c' (caddr (cblk c' x)))) \<and> x < length (bcache c') \<and> ckflag c' x 0 Bstatic \<and> caddr (cblk c' x) \<noteq> -1"
      using tab_cached [OF H(2), of x] b(2-4) ad(4) [of x] by (auto simp: ad(1) bk ic f(3) ckflag_def)
  next
    fix x y assume "iscached c' x" "iscached c' y" "caddr (cblk c' x) = caddr (cblk c' y)"
    then show "x = y" using tab_inj [OF H(2), of x y] new by (auto simp: ad(1) ic)
  next
    fix x assume "\<not> iscached c' x"
    then show "hnext (cblk c' x) = None" using tab_hnext [OF H(2), of x] f(1) [of x] by (auto simp: ic)
  qed
  moreover have "dll c' xs" by (rule dll_frame [OF H(1) f(4,5) ad(2)])
  ultimately show ?thesis using r ic ad f(3) by (auto simp: cinv_def)
qed

lemma tab_uncached:
  assumes t: "tab c H" and b: "\<not> iscached c b" "\<not> iscached c' b" "hnext (cblk c' b) = None" and f: "\<And>x. x \<noteq> b \<Longrightarrow> cblk c' x = cblk c x" "bcache c' = bcache c"
  shows "tab c' H"
proof (rule tabI)
  have bk: "bucket c' a = bucket c a" for a by (simp add: bucket_def f)
  have ic: "iscached c' x \<longleftrightarrow> iscached c x" for x using b f(1) by (cases "x = b") (auto simp: iscached_def ckflag_def)
  have ne: "iscached c x \<Longrightarrow> x \<noteq> b" for x using b(1) by auto
  note row = tab_row [OF t]
  show "bcache c' \<noteq> []" using tab_ne [OF t] f(2) by simp
  show "hlist c' (bcache c' ! i) (H i) \<and> distinct (H i) \<and> (\<forall>x \<in> set (H i). bucket c' (caddr (cblk c' x)) = i \<and> iscached c' x)" if "i < length (bcache c')" for i
  proof -
    have i: "i < length (bcache c)" using that f(2) by simp
    have n: "cblk c' x = cblk c x" if "x \<in> set (H i)" for x using f(1) ne row(4) [OF i that] by blast
    have "hlist c' (bcache c' ! i) (H i)" using row(1) [OF i] hlist_cong [of "H i" c' c] n f(2) by simp
    with row(2-4) [OF i] show ?thesis using n by (simp add: bk ic)
  qed
  show "x \<in> set (H (bucket c' (caddr (cblk c' x)))) \<and> x < length (bcache c') \<and> ckflag c' x 0 Bstatic \<and> caddr (cblk c' x) \<noteq> -1" if "iscached c' x" for x
    using that tab_cached [OF t, of x] ne [of x] f(1) [of x] by (simp add: ic bk f(2) ckflag_def)
  show "x = y" if "iscached c' x" "iscached c' y" "caddr (cblk c' x) = caddr (cblk c' y)" for x y
    using that tab_inj [OF t, of x y] ne f(1) by (simp add: ic)
  show "hnext (cblk c' x) = None" if "\<not> iscached c' x" for x
    using that tab_hnext [OF t, of x] b(3) f(1) [of x] by (cases "x = b") (simp_all add: ic)
qed

lemma pluck_cinv:
  assumes c: "cinv c (ys @ [b])" and b: "cref (cblk c b) = 0"
  shows "\<exists>c'. cachepluck_lk c = Inr (Some (c', b)) \<and> cinv c' ys \<and> (\<forall>x. iscached c' x \<longleftrightarrow> iscached c x \<and> x \<noteq> b) \<and>
    (\<forall>x. caddr (cblk c' x) = caddr (cblk c x) \<and> cref (cblk c' x) = cref (cblk c x) \<and> (cflag (cblk c' x) AND Bstatic = (if x = b then 0 else cflag (cblk c x) AND Bstatic))) \<and>
    length (bcache c') = length (bcache c)"
proof -
  have ct: "ctail c = Some b" "distinct (ys @ [b])" using c by (auto simp: cinv_def dll_def)
  have "\<exists>c1. (if ckflag c b Bcached 0 then cachedel_lk c (caddr (cblk c b)) else Inr c) = Inr c1 \<and> cinv c1 (ys @ [b]) \<and> (\<forall>x. iscached c1 x \<longleftrightarrow> iscached c x \<and> x \<noteq> b) \<and>
    (\<forall>x. caddr (cblk c1 x) = caddr (cblk c x) \<and> cref (cblk c1 x) = cref (cblk c x) \<and> (cflag (cblk c1 x) AND Bstatic) = (cflag (cblk c x) AND Bstatic)) \<and>
    length (bcache c1) = length (bcache c)"
  proof (cases "iscached c b")
    case True
    from cachedel_cinv [OF c, of "caddr (cblk c b)"] obtain c1 where
      1: "cachedel_lk c (caddr (cblk c b)) = Inr c1" "cinv c1 (ys @ [b])" "\<forall>x. iscached c1 x \<longleftrightarrow> iscached c x \<and> caddr (cblk c x) \<noteq> caddr (cblk c b)"
        "\<forall>x. caddr (cblk c1 x) = caddr (cblk c x) \<and> cref (cblk c1 x) = cref (cblk c x) \<and> (cflag (cblk c1 x) AND Bstatic) = (cflag (cblk c x) AND Bstatic)"
        "length (bcache c1) = length (bcache c)" by blast
    from c obtain H where "tab c H" by (auto simp: cinv_def)
    with 1(3) True have "\<forall>x. iscached c1 x \<longleftrightarrow> iscached c x \<and> x \<noteq> b" using tab_inj by blast
    with 1 True show ?thesis by (auto simp: iscached_def)
  next
    case False
    with c show ?thesis by (auto simp: iscached_def)
  qed
  then obtain c1 where 1: "(if ckflag c b Bcached 0 then cachedel_lk c (caddr (cblk c b)) else Inr c) = Inr c1" "cinv c1 (ys @ [b])" "\<forall>x. iscached c1 x \<longleftrightarrow> iscached c x \<and> x \<noteq> b"
    "\<forall>x. caddr (cblk c1 x) = caddr (cblk c x) \<and> cref (cblk c1 x) = cref (cblk c x) \<and> (cflag (cblk c1 x) AND Bstatic) = (cflag (cblk c x) AND Bstatic)"
    "length (bcache c1) = length (bcache c)" by blast
  let ?d = "lrudel c1 b"
  define c' where "c' = upd ?d b (\<lambda>n. n\<lparr>cflag := 0, hnext := None\<rparr>)"
  have ck: "ckflag c1 b 0 Bcached" using 1(3) flag8 [of "cflag (cblk c1 b)"] by (auto simp: iscached_def ckflag_def)
  have r: "cachepluck_lk c = Inr (Some (c', b))" by (simp add: cachepluck_lk_def ct b 1(1) ck c'_def)
  have "remove1 b (ys @ [b]) = ys" using ct(2) by (simp add: remove1_append)
  with lrudel_cinv [OF 1(2), of b] have d: "cinv ?d ys" by simp
  then obtain H where H: "dll ?d ys" "tab ?d H" by (auto simp: cinv_def)
  have id: "iscached ?d x \<longleftrightarrow> iscached c1 x" for x by (simp add: iscached_def ckflag_def lrudel_frame)
  have "tab c' H" by (rule tab_uncached [OF H(2), of b]) (use 1(3) id in \<open>auto simp: c'_def iscached_def ckflag_def\<close>)
  moreover have "dll c' ys" by (rule dll_frame [OF H(1)]) (simp_all add: c'_def)
  ultimately have "cinv c' ys" by (auto simp: cinv_def)
  moreover have "iscached c' x \<longleftrightarrow> iscached c x \<and> x \<noteq> b" for x
    using 1(3) id [of x] by (cases "x = b") (auto simp: c'_def iscached_def ckflag_def)
  moreover have "caddr (cblk c' x) = caddr (cblk c x) \<and> cref (cblk c' x) = cref (cblk c x) \<and> (cflag (cblk c' x) AND Bstatic = (if x = b then 0 else cflag (cblk c x) AND Bstatic))" for x
    using 1(4) by (simp add: c'_def lrudel_frame)
  moreover have "length (bcache c') = length (bcache c)" using 1(5) by (simp add: c'_def lrudel_frame)
  ultimately show ?thesis using r by blast
qed

lemma lruput_cinv:
  assumes "cinv c xs" "ckflag c b 0 Bstatic"
  shows "\<exists>c' xs'. lruput c b = Inr c' \<and> cinv c' xs' \<and> sameblks c c' \<and>
    (if cref (cblk c b) = 0 then set xs' = insert b (set xs) else xs' = xs)"
proof (cases "cref (cblk c b) = 0")
  case False
  with assms show ?thesis by (auto simp: lruput_def lrutop_def lrubot_def sameblks_def)
next
  case True
  from assms(1) obtain H where H: "dll c xs" "tab c H" by (auto simp: cinv_def)
  have "distinct xs" using H(1) by (simp add: dll_def)
  then have s: "insert b (set (remove1 b xs)) = insert b (set xs)" by auto
  show ?thesis
  proof (cases "ckflag c b Bfreed 0")
    case fr: True
    from lrubot_dll [OF H(1) assms(2) True] obtain c' where "lrubot c b = Inr c'" "dll c' (remove1 b xs @ [b])" "sameblks c c'" by blast
    with tab_frame [OF H(2)] fr True s show ?thesis by (intro exI [of _ c'] exI [of _ "remove1 b xs @ [b]"]) (auto simp: lruput_def cinv_def)
  next
    case fr: False
    from lrutop_dll [OF H(1) assms(2) True] obtain c' where "lrutop c b = Inr c'" "dll c' (b # remove1 b xs)" "sameblks c c'" by blast
    with tab_frame [OF H(2)] fr True s show ?thesis by (intro exI [of _ c'] exI [of _ "b # remove1 b xs"]) (auto simp: lruput_def cinv_def)
  qed
qed

lemma cacheins_pre:
  assumes c: "cinv c xs" and r: "cacheins c b = Inr c'"
  shows "\<not> iscached c b" "ckflag c b 0 Bstatic" "\<forall>x. iscached c x \<longrightarrow> caddr (cblk c x) \<noteq> caddr (cblk c b)"
proof -
  from c obtain H where H: "tab c H" by (auto simp: cinv_def)
  let ?c = "upd c b (\<lambda>n. n\<lparr>cflag := cflag n OR Bcached\<rparr>)" and ?a = "caddr (cblk c b)"
  have "hwalk n ?c p = hwalk n c p" for n p by (rule hwalk_cong) simp
  then have ch: "chainof ?c ?a = Inr (H (bucket c ?a))" using chainof_tab [OF H, of ?a] by (simp add: chainof_def bucket_def)
  from r ch have f: "cflag (cblk c b) AND 72 = 0" and n: "\<forall>x \<in> set (H (bucket c ?a)). b \<noteq> x \<and> ?a \<noteq> caddr (cblk ?c x)"
    by (auto simp: cacheins_def Let_def res_simps ckflag_def)
  have "cflag (cblk c b) AND 8 = (cflag (cblk c b) AND 72) AND 8" "cflag (cblk c b) AND 64 = (cflag (cblk c b) AND 72) AND 64" by (simp_all add: and.assoc)
  then show "\<not> iscached c b" "ckflag c b 0 Bstatic" using f by (simp_all add: iscached_def ckflag_def)
  show "\<forall>x. iscached c x \<longrightarrow> caddr (cblk c x) \<noteq> ?a"
  proof (intro allI impI notI)
    fix x assume "iscached c x" "caddr (cblk c x) = ?a"
    with tab_cached(1) [OF H, of x] n show False by (auto split: if_splits)
  qed
qed

section \<open>Processes at work on the cache\<close>

text \<open>
  The steps that processes take, each under the lock of the list or atomic.  A process in \<open>dropblk\<close>
  that has taken the count to 0 is still to put the buffer on the list: \<open>pd\<close> has these buffers.  A process in
  \<open>cachepluck\<close> has given up the lock and is still to count itself as the holder: \<open>pl\<close>.
  With \<open>tight\<close> the lock is kept until it has.
\<close>

inductive cstep :: "bool \<Rightarrow> Cache \<times> nat list \<times> nat list \<Rightarrow> Cache \<times> nat list \<times> nat list \<Rightarrow> bool" for tight where
  get: "cstep tight (c, pd, pl) (c', pd, pl)" if "cacheget c a = Inr (c', r)"
| hold: "cstep tight (c, pd, pl) (c_holdblk c b, pd, pl)" if "0 < cref (cblk c b)"
| dec: "cstep tight (c, pd, pl) (decref c b, if cref (cblk c b) = 1 then b # pd else pd, pl)" if "0 < cref (cblk c b)" "b < length (bcache c)"
| put: "cstep tight (c, pd, pl) (c', remove1 b pd, pl)" if "b \<in> set pd" "lruput c b = Inr c'"
| ins: "cstep tight (c, pd, pl) (c', pd, pl)" if "0 < cref (cblk c b)" "b < length (bcache c)" "caddr (cblk c b) \<noteq> -1" "cacheins c b = Inr c'"
| init: "cstep tight (c, pd, pl) (upd c b (\<lambda>n. n\<lparr>caddr := a\<rparr>), pd, pl)" if "0 < cref (cblk c b)" "\<not> iscached c b"
| del: "cstep tight (c, pd, pl) (c', pd, pl)" if "cachedel c a = Inr c'"
| pluck: "cstep tight (c, pd, pl) (c', pd, b # pl)" if "\<not> tight" "cachepluck_lk c = Inr (Some (c', b))"
| plucked: "cstep tight (c, pd, pl) (c_holdblk c b, pd, remove1 b pl)" if "\<not> tight" "b \<in> set pl"
| pluckhold: "cstep tight (c, pd, pl) (c', pd, pl)" if "tight" "cachepluck c = Inr (Some (c', b))"

definition csound :: "Cache \<Rightarrow> nat list \<Rightarrow> nat list \<Rightarrow> bool" where
  "csound c xs pd \<longleftrightarrow> cinv c xs \<and> (\<forall>b \<in> set xs. cref (cblk c b) = 0) \<and> set xs \<union> set pd \<subseteq> {..< length (bcache c)} \<and>
     (\<forall>b < length (bcache c). 0 \<le> cref (cblk c b) \<and> cflag (cblk c b) AND Bstatic = 0 \<and> (cref (cblk c b) = 0 \<longrightarrow> b \<in> set xs \<union> set pd))"

lemma csound_ref:
  assumes "csound c xs pd" "0 < cref (cblk c b)"
  shows "b \<notin> set xs"
  using assms by (auto simp: csound_def)

text \<open>A step that changes neither counts nor the list.\<close>

lemma csound_same:
  assumes "csound c xs pd" "cinv c' xs" "\<And>x. cref (cblk c' x) = cref (cblk c x)" "\<And>x. cflag (cblk c' x) AND Bstatic = cflag (cblk c x) AND Bstatic"
    and "length (bcache c') = length (bcache c)"
  shows "csound c' xs pd"
  using assms by (simp add: csound_def)

lemma csound_get:
  assumes "csound c xs pd" "cacheget c a = Inr (c', r)"
  shows "\<exists>xs'. csound c' xs' pd"
proof -
  from assms have i: "cinv c xs" by (simp add: csound_def)
  from cacheget_cinv [OF i, of a] assms(2) have "case r of None \<Rightarrow> c' = c | Some b \<Rightarrow> iscached c b \<and> c' = lrudel (c_holdblk c b) b \<and> cinv c' (remove1 b xs)"
    by (auto split: option.splits)
  then show ?thesis
  proof (cases r)
    case (Some b)
    with \<open>case r of None \<Rightarrow> c' = c | Some b \<Rightarrow> _ b\<close> have b: "iscached c b" "c' = lrudel (c_holdblk c b) b" "cinv c' (remove1 b xs)" by auto
    have d: "distinct xs" using i by (simp add: cinv_def dll_def)
    have f: "bcache c' = bcache c" "cflag (cblk c' x) = cflag (cblk c x)" "cref (cblk c' x) = (if x = b then cref (cblk c b) + 1 else cref (cblk c x))" for x
      by (auto simp: b(2) lrudel_frame c_holdblk_def)
    have "csound c' (remove1 b xs) pd" using assms(1) b(3) d unfolding csound_def f by (auto dest: notin_set_remove1)
    then show ?thesis by blast
  qed (use assms(1) in auto)
qed

lemma csound_step:
  assumes "csound c xs pd" "cstep True (c, pd, pl) (c', pd', pl')"
  shows "\<exists>xs'. csound c' xs' pd'"
proof -
  have i: "cinv c xs" using assms(1) by (simp add: csound_def)
  from assms(2) show ?thesis
  proof cases
    case (get a r)
    with csound_get [OF assms(1)] show ?thesis by auto
  next
    case (hold b)
    have "cinv c' xs" unfolding hold c_holdblk_def by (rule cinv_ref [OF i])
    with assms(1) csound_ref [OF assms(1) hold(4)] hold have "csound c' xs pd'" by (auto simp: csound_def c_holdblk_def)
    then show ?thesis by blast
  next
    case (dec b)
    have "cinv c' xs" unfolding dec decref_def by (rule cinv_ref [OF i])
    with assms(1) csound_ref [OF assms(1) dec(4)] dec have "csound c' xs pd'" by (auto simp: csound_def decref_def)
    then show ?thesis by blast
  next
    case (put b)
    have bl: "b < length (bcache c)" using assms(1) put(3) by (auto simp: csound_def)
    then have "ckflag c b 0 Bstatic" using assms(1) by (auto simp: csound_def ckflag_def)
    from lruput_cinv [OF i this] put(4) obtain xs' where x: "cinv c' xs'" "sameblks c c'" "if cref (cblk c b) = 0 then set xs' = insert b (set xs) else xs' = xs" by auto
    have f: "bcache c' = bcache c" "cref (cblk c' x) = cref (cblk c x)" "cflag (cblk c' x) = cflag (cblk c x)" for x using x(2) by (auto simp: sameblks_def)
    have sub: "set (remove1 b pd) \<subseteq> set pd" "set pd \<subseteq> insert b (set (remove1 b pd))" by (auto simp: set_remove1_subset) (metis in_set_remove1)
    have "csound c' xs' (remove1 b pd)"
      using assms(1) x(1,3) sub bl unfolding csound_def f by (cases "cref (cblk c b) = 0") (simp_all, blast+)
    with put show ?thesis by blast
  next
    case (ins b)
    note pre = cacheins_pre [OF i ins(6)]
    from cacheins_cinv [OF i pre(1,2) ins(4,5) pre(3)] ins(6) have "csound c' xs pd" by (intro csound_same [OF assms(1)]) auto
    with ins show ?thesis by auto
  next
    case (init b a)
    from i obtain H where H: "dll c xs" "tab c H" by (auto simp: cinv_def)
    have "tab c' H" using init tab_hnext [OF H(2) init(5)] by (intro tab_uncached [OF H(2), of b]) (auto simp: iscached_def ckflag_def)
    moreover have "dll c' xs" by (rule dll_frame [OF H(1)]) (simp_all add: init)
    ultimately have "cinv c' xs" by (auto simp: cinv_def)
    then have "csound c' xs pd" by (rule csound_same [OF assms(1)]) (simp_all add: init)
    with init show ?thesis by auto
  next
    case (del a)
    from cachedel_cinv [OF i, of a] del(3) have "csound c' xs pd" by (intro csound_same [OF assms(1)]) (auto simp: cachedel_def)
    with del show ?thesis by auto
  next
    case (pluckhold b)
    then obtain c1 where c1: "cachepluck_lk c = Inr (Some (c1, b))" "c' = c_holdblk c1 b" by (auto simp: cachepluck_def res_simps)
    then have "ctail c = Some b" by (auto simp: cachepluck_lk_def res_simps split: option.splits)
    then obtain ys where xs: "xs = ys @ [b]" using i by (cases xs rule: rev_cases) (auto simp: cinv_def dll_def)
    with assms(1) have b: "cref (cblk c b) = 0" "b \<notin> set ys" by (auto simp: csound_def cinv_def dll_def)
    from pluck_cinv [OF i [unfolded xs] b(1)] c1(1) have p: "cinv c1 ys" "\<forall>x. cref (cblk c1 x) = cref (cblk c x) \<and> (cflag (cblk c1 x) AND Bstatic = (if x = b then 0 else cflag (cblk c x) AND Bstatic))"
      "length (bcache c1) = length (bcache c)" by auto
    have "cinv c' ys" unfolding c1(2) c_holdblk_def by (rule cinv_ref [OF p(1)])
    then have "csound c' ys pd" using assms(1) p(2,3) b(2) unfolding csound_def c1(2) c_holdblk_def xs by auto
    with pluckhold show ?thesis by auto
  qed simp_all
qed

section \<open>The theorems\<close>


text \<open>A cache of one buffer, as \<open>initfs\<close> leaves it.\<close>

definition cache1 :: Cache where
  "cache1 = \<lparr>cblk = \<lambda>_. \<lparr>cnext = None, cprev = None, hnext = None, caddr = -1, cref = 0, cflag = 0\<rparr>, chead = Some 0, ctail = Some 0, bcache = [None]\<rparr>"

lemma cache1_inv: "cinv cache1 [0]"
proof -
  have "dll cache1 [0]" by (simp add: dll_def cache1_def)
  moreover have "tab cache1 (\<lambda>_. [])" by (rule tabI) (simp_all add: cache1_def iscached_def ckflag_def)
  ultimately show ?thesis by (auto simp: cinv_def)
qed




text \<open>
  A run in which \<open>cachepluck\<close> gives up its lock before it holds the buffer: a process takes the only buffer for the
  address 5 and drops it, but has not yet put it on the list when another finds it by its address, drops it and puts
  it there; a third plucks it and, before it counts itself as a holder, the first puts the buffer on the list again.
\<close>

definition raceblk :: "int \<Rightarrow> u32 \<Rightarrow> u64 \<Rightarrow> Cblk" where
  "raceblk r f a = \<lparr>cnext = None, cprev = None, hnext = None, caddr = a, cref = r, cflag = f\<rparr>"

definition racest :: "Cblk \<Rightarrow> nat option \<Rightarrow> nat option \<Rightarrow> Cache" where
  "racest n l h = \<lparr>cblk = (\<lambda>_. raceblk 0 0 (-1))(0 := n), chead = l, ctail = l, bcache = [h]\<rparr>"

lemmas race_defs = racest_def raceblk_def upd_def updopt_def ckflag_def lrudel_def lrutop_def lrubot_def bucket_def chainof_def cachedel_lk_def
  c_holdblk_def decref_def lruput_def cacheget_def cachepluck_lk_def cacheins_def iscached_def Let_def

lemma race_steps:
  "cachepluck_lk (racest (raceblk 0 0 (-1)) (Some 0) None) = Inr (Some (racest (raceblk 0 0 (-1)) None None, 0))"
  "c_holdblk (racest (raceblk r f a) l h) 0 = racest (raceblk (r + 1) f a) l h"
  "decref (racest (raceblk r f a) l h) 0 = racest (raceblk (r - 1) f a) l h"
  "cacheins (racest (raceblk 1 0 5) None None) 0 = Inr (racest (raceblk 1 Bcached 5) None (Some 0))"
  "cacheget (racest (raceblk 0 Bcached 5) None (Some 0)) 5 = Inr (racest (raceblk 1 Bcached 5) None (Some 0), Some 0)"
  "lruput (racest (raceblk 0 Bcached 5) None (Some 0)) 0 = Inr (racest (raceblk 0 Bcached 5) (Some 0) (Some 0))"
  "cachepluck_lk (racest (raceblk 0 Bcached 5) (Some 0) (Some 0)) = Inr (Some (racest (raceblk 0 0 5) None None, 0))"
  "lruput (racest (raceblk 0 0 5) None None) 0 = Inr (racest (raceblk 0 0 5) (Some 0) None)"
  "cachepluck_lk (racest (raceblk 1 0 5) (Some 0) None) = Inl Panic"
  by (auto simp: race_defs fun_eq_iff)

lemma race_start: "cache1 = racest (raceblk 0 0 (-1)) (Some 0) None"
  by (simp add: cache1_def racest_def raceblk_def fun_eq_iff)

lemma race_ref: "cref (cblk (racest (raceblk r f a) l h) 0) = r" "length (bcache (racest n l h)) = 1"
  by (simp_all add: racest_def raceblk_def)

lemma race_pluck: "(cstep False)\<^sup>*\<^sup>* (cache1, [], []) (racest (raceblk 1 0 (-1)) None None, [], [])"
proof -
  have "cstep False (cache1, [], []) (racest (raceblk 0 0 (-1)) None None, [], [0])"
    unfolding race_start by (rule cstep.pluck) (simp_all add: race_steps)
  moreover have "cstep False (racest (raceblk 0 0 (-1)) None None, [], [0]) (racest (raceblk 1 0 (-1)) None None, [], [])"
    using cstep.plucked [of False 0 "[0]" "racest (raceblk 0 0 (-1)) None None" "[]"] by (simp add: race_steps)
  ultimately show ?thesis by (simp add: converse_rtranclp_into_rtranclp)
qed

lemma race_cached: "(cstep False)\<^sup>*\<^sup>* (racest (raceblk 1 0 (-1)) None None, [], []) (racest (raceblk 0 8 5) None (Some 0), [0], [])"
proof -
  have "cstep False (racest (raceblk 1 0 (-1)) None None, [], []) (racest (raceblk 1 0 5) None None, [], [])"
    using cstep.init [of "racest (raceblk 1 0 (-1)) None None" 0 False "[]" "[]" 5]
    by (simp add: race_ref) (simp add: race_defs)
  moreover have "cstep False (racest (raceblk 1 0 5) None None, [], []) (racest (raceblk 1 8 5) None (Some 0), [], [])"
    by (rule cstep.ins [of _ 0]) (simp_all add: race_ref race_steps, simp add: race_defs)
  moreover have "cstep False (racest (raceblk 1 8 5) None (Some 0), [], []) (racest (raceblk 0 8 5) None (Some 0), [0], [])"
    using cstep.dec [of "racest (raceblk 1 8 5) None (Some 0)" 0 False "[]" "[]"] by (simp add: race_ref race_steps)
  ultimately show ?thesis by (meson converse_rtranclp_into_rtranclp rtranclp.rtrancl_refl)
qed

lemma race_dropped: "(cstep False)\<^sup>*\<^sup>* (racest (raceblk 0 8 5) None (Some 0), [0], []) (racest (raceblk 0 8 5) (Some 0) (Some 0), [0], [])"
proof -
  have "cstep False (racest (raceblk 0 8 5) None (Some 0), [0], []) (racest (raceblk 1 8 5) None (Some 0), [0], [])"
    by (rule cstep.get) (rule race_steps(5))
  moreover have "cstep False (racest (raceblk 1 8 5) None (Some 0), [0], []) (racest (raceblk 0 8 5) None (Some 0), [0, 0], [])"
    using cstep.dec [of "racest (raceblk 1 8 5) None (Some 0)" 0 False "[0]" "[]"] by (simp add: race_ref race_steps)
  moreover have "cstep False (racest (raceblk 0 8 5) None (Some 0), [0, 0], []) (racest (raceblk 0 8 5) (Some 0) (Some 0), [0], [])"
    using cstep.put [of 0 "[0, 0]" "racest (raceblk 0 8 5) None (Some 0)" _ False "[]", OF _ race_steps(6)] by simp
  ultimately show ?thesis by (meson converse_rtranclp_into_rtranclp rtranclp.rtrancl_refl)
qed

lemma race_again: "(cstep False)\<^sup>*\<^sup>* (racest (raceblk 0 8 5) (Some 0) (Some 0), [0], []) (racest (raceblk 1 0 5) (Some 0) None, [], [])"
proof -
  have "cstep False (racest (raceblk 0 8 5) (Some 0) (Some 0), [0], []) (racest (raceblk 0 0 5) None None, [0], [0])"
    by (rule cstep.pluck) (simp_all add: race_steps)
  moreover have "cstep False (racest (raceblk 0 0 5) None None, [0], [0]) (racest (raceblk 0 0 5) (Some 0) None, [], [0])"
    using cstep.put [of 0 "[0]" "racest (raceblk 0 0 5) None None" _ False "[0]", OF _ race_steps(8)] by simp
  moreover have "cstep False (racest (raceblk 0 0 5) (Some 0) None, [], [0]) (racest (raceblk 1 0 5) (Some 0) None, [], [])"
    using cstep.plucked [of False 0 "[0]" "racest (raceblk 0 0 5) (Some 0) None" "[]"] by (simp add: race_steps)
  ultimately show ?thesis by (meson converse_rtranclp_into_rtranclp rtranclp.rtrancl_refl)
qed

text \<open>
  C39. As the code has it, \<open>cachepluck\<close> counts itself as the holder of a buffer only after it has given up the lock of the
  list, and the invariant fails: the processes can get to a state in which a buffer on the list has a holder, and the
  next \<open>cachepluck\<close> fails its assertion.
\<close>

theorem cachepluck_race:
  "\<exists>c. (cstep False)\<^sup>*\<^sup>* (cache1, [], []) (c, [], []) \<and> ctail c = Some 0 \<and> cref (cblk c 0) = 1 \<and> cachepluck c = Inl Panic"
proof (intro exI conjI)
  show "(cstep False)\<^sup>*\<^sup>* (cache1, [], []) (racest (raceblk 1 0 5) (Some 0) None, [], [])"
    using race_pluck race_cached race_dropped race_again by (meson rtranclp_trans)
qed (simp_all add: cachepluck_def race_steps race_ref, simp add: racest_def)

end
