(* ===== verification/Gefs_Epoch.thy ===== *)
theory Gefs_Epoch
  imports Prelude "HOL-Library.Multiset"
begin

text \<open>
  Deferred frees, from \<open>sys/src/9/gefs/blk.c\<close>: \<open>limbo\<close>, \<open>epochstart\<close>, \<open>epochend\<close> and \<open>epochclean\<close>.  What has been unlinked
  from the trees may still be in use by a worker that found it before.  It waits on one of three lists, by the
  epoch it was put there in, and \<open>epochclean\<close> gives up those of a list once the workers that were active then are done.
  The lists are pushed to with compare-and-swap and no lock, so the processes are modelled as they interleave: every
  atomic operation is one step.
\<close>

section \<open>Operations\<close>

abbreviation (input) Eactive :: u32 where "Eactive \<equiv> 0x40000000"

datatype Lop = DFblk_op | DFbp_op | DFmnt_op | DFtree_op | DFclose_op | DFdlist_op

record Ep =
  epoch :: u32
  lepoch :: "nat \<Rightarrow> u32"
  nworker :: nat
  elimbo :: "u32 \<Rightarrow> nat option"
  lnext :: "nat \<Rightarrow> nat option"
  lop :: "nat \<Rightarrow> Lop"
  nlimbo :: u32
  epcmax :: u32

definition epochstart :: "'a Ep_scheme \<Rightarrow> nat \<Rightarrow> u32 \<Rightarrow> 'a Ep_scheme" where
  "epochstart s tid ge = s\<lparr>lepoch := (lepoch s)(tid := ge OR Eactive)\<rparr>"

definition epochend :: "'a Ep_scheme \<Rightarrow> nat \<Rightarrow> 'a Ep_scheme" where
  "epochend s tid = s\<lparr>lepoch := (lepoch s)(tid := lepoch s tid AND NOT Eactive)\<rparr>"

definition isactive :: "'a Ep_scheme \<Rightarrow> nat \<Rightarrow> bool" where
  "isactive s w \<longleftrightarrow> lepoch s w AND Eactive \<noteq> 0"

text \<open>The test of \<open>epochclean\<close>: a worker that is active in an epoch other than \<open>ge\<close>.\<close>

definition stalled :: "'a Ep_scheme \<Rightarrow> u32 \<Rightarrow> nat \<Rightarrow> bool" where
  "stalled s ge i \<longleftrightarrow> lepoch s i AND Eactive \<noteq> 0 \<and> lepoch s i \<noteq> ge OR Eactive"

definition nextepoch :: "u32 \<Rightarrow> u32" where
  "nextepoch ge = (ge + 1) mod 3"

text \<open>\<open>l->next = p\<close>, and the compare-and-swap of the list's head.\<close>

definition limbolink :: "'a Ep_scheme \<Rightarrow> nat \<Rightarrow> nat option \<Rightarrow> 'a Ep_scheme" where
  "limbolink s l p = s\<lparr>lnext := (lnext s)(l := p)\<rparr>"

definition limbocas :: "'a Ep_scheme \<Rightarrow> u32 \<Rightarrow> nat option \<Rightarrow> nat \<Rightarrow> ('a Ep_scheme \<times> bool)" where
  "limbocas s ge p l = (if elimbo s ge = p then (s\<lparr>elimbo := (elimbo s)(ge := Some l)\<rparr>, True) else (s, False))"

definition limboswap :: "'a Ep_scheme \<Rightarrow> u32 \<Rightarrow> 'a Ep_scheme \<times> nat option" where
  "limboswap s ge = (s\<lparr>elimbo := (elimbo s)(nextepoch ge := None)\<rparr>, elimbo s (nextepoch ge))"

text \<open>
  Where processes are.  In \<open>limbo\<close>: to read the epoch, to read the head of its list, to swap it.
  In \<open>epochclean\<close>, of which \<open>epochlk\<close> lets in one: at \<open>Again\<close>, in the loop over workers, past it, and between the two
  swaps.  Those that have given up the lock again each go down a list they took: \<open>popped\<close>.
\<close>

datatype Lpc = Lepoch | Lhead u32 | Lcas u32 "nat option"

datatype Cpc = Cfree | Cagain | Ccheck u32 u32 nat | Cswap u32 | Cadv u32 "nat option"

text \<open>
  The rest of the state is there to say what is proved: the number of epochs so far, when a worker's current section
  began and how many it has had, the epoch number an item was put in limbo at, and the sections that were
  under way when it was, which may hold it.  \<open>owed\<close> is what was given to \<open>limbo\<close> and not yet released.
\<close>

record Esys = Ep +
  pushing :: "nat \<Rightarrow> Lpc option"
  starting :: "nat \<Rightarrow> u32 option"
  uncounted :: nat
  cleaner :: Cpc
  popped :: "nat option list"
  now :: nat
  since :: "nat \<Rightarrow> nat"
  sect :: "nat \<Rightarrow> nat"
  gx :: "nat \<Rightarrow> nat"
  holders :: "nat \<Rightarrow> (nat \<times> nat) set"
  owed :: "nat set"

definition running :: "Esys \<Rightarrow> (nat \<times> nat) set" where
  "running s = {(w, sect s w) |w. isactive s w}"

text \<open>\<open>limbo(op, l)\<close> is called.\<close>

definition limbo :: "Esys \<Rightarrow> Lop \<Rightarrow> nat \<Rightarrow> Esys" where
  "limbo s op l = s\<lparr>lop := (lop s)(l := op), pushing := (pushing s)(l := Some Lepoch), holders := (holders s)(l := running s), owed := insert l (owed s)\<rparr>"

inductive estep :: "Esys \<Rightarrow> Esys \<Rightarrow> bool" where
  start_read: "estep s (s\<lparr>starting := (starting s)(w := Some (epoch s))\<rparr>)"
    if "\<not> isactive s w" "w < nworker s"
| start_set: "estep s ((epochstart s w ge)\<lparr>starting := (starting s)(w := None), since := (since s)(w := now s), sect := (sect s)(w := Suc (sect s w))\<rparr>)"
    if "starting s w = Some ge"
| finish: "estep s (epochend s w)" if "isactive s w"
| call: "estep s (limbo s op l)" if "l \<notin> owed s"
| limbo_epoch: "estep s (s\<lparr>pushing := (pushing s)(l := Some (Lhead (epoch s))), gx := (gx s)(l := now s)\<rparr>)"
    if "pushing s l = Some Lepoch"
| limbo_head: "estep s ((limbolink s l (elimbo s ge))\<lparr>pushing := (pushing s)(l := Some (Lcas ge (elimbo s ge)))\<rparr>)"
    if "pushing s l = Some (Lhead ge)"
| limbo_cas: "estep s (if ok then s'\<lparr>pushing := (pushing s)(l := None), uncounted := Suc (uncounted s)\<rparr> else s'\<lparr>pushing := (pushing s)(l := Some Lepoch)\<rparr>)"
    if "pushing s l = Some (Lcas ge p)" "limbocas s ge p l = (s', ok)"
| limbo_count: "estep s (s\<lparr>nlimbo := nlimbo s + 1, uncounted := n\<rparr>)" if "uncounted s = Suc n"
| clean_lock: "estep s (s\<lparr>cleaner := Cagain\<rparr>)" if "cleaner s = Cfree"
| clean_again: "estep s (s\<lparr>cleaner := Ccheck (nlimbo s) (epoch s) 0\<rparr>)" if "cleaner s = Cagain"
| clean_check: "estep s (s\<lparr>cleaner := if \<not> stalled s ge i then Ccheck c ge (Suc i) else if c < epcmax s div 4 then Cfree else Cagain\<rparr>)"
    if "cleaner s = Ccheck c ge i" "i < nworker s"
| clean_all: "estep s (s\<lparr>cleaner := Cswap ge\<rparr>)" if "cleaner s = Ccheck c ge i" "\<not> i < nworker s"
| clean_swap: "estep s (s'\<lparr>cleaner := Cadv ge p\<rparr>)" if "cleaner s = Cswap ge" "limboswap s ge = (s', p)"
| clean_adv: "estep s (s\<lparr>epoch := nextepoch ge, cleaner := Cfree, popped := p # popped s, now := Suc (now s)\<rparr>)" if "cleaner s = Cadv ge p"
| release: "estep s (s\<lparr>popped := as @ lnext s l # bs, nlimbo := nlimbo s - 1, owed := owed s - {l}\<rparr>)"
    if "popped s = as @ Some l # bs"
| reclose: "estep s (limbo (s\<lparr>popped := as @ lnext s l # bs, nlimbo := nlimbo s - 1\<rparr>) DFtree_op l)"
    if "popped s = as @ Some l # bs" "lop s l = DFclose_op"

text \<open>As \<open>initfs\<close> leaves it, for \<open>n\<close> workers.\<close>

definition einit :: "nat \<Rightarrow> u32 \<Rightarrow> Esys" where
  "einit n cm = \<lparr>epoch = 0, lepoch = \<lambda>_. 0, nworker = n, elimbo = \<lambda>_. None, lnext = \<lambda>_. None, lop = \<lambda>_. DFblk_op, nlimbo = 0, epcmax = cm,
     pushing = \<lambda>_. None, starting = \<lambda>_. None, uncounted = 0, cleaner = Cfree, popped = [],
     now = 0, since = \<lambda>_. 0, sect = \<lambda>_. 0, gx = \<lambda>_. 0, holders = \<lambda>_. {}, owed = {}\<rparr>"

section \<open>Epochs modulo three\<close>

definition ep3 :: "nat \<Rightarrow> u32" where
  "ep3 n = of_nat (n mod 3)"

lemma mod3_cases: "n mod 3 = 0 \<or> n mod 3 = 1 \<or> n mod 3 = (2::nat)"
  by linarith

lemma ep3_cases: "ep3 n = 0 \<or> ep3 n = 1 \<or> ep3 n = 2"
  using mod3_cases [of n] by (auto simp: ep3_def)

lemma ep3_eq: "ep3 m = ep3 n \<longleftrightarrow> m mod 3 = n mod 3"
  using mod3_cases [of m] mod3_cases [of n] by (auto simp: ep3_def)

lemma ep3_next: "nextepoch (ep3 n) = ep3 (Suc n)"
proof -
  have "Suc n mod 3 = (if n mod 3 = 2 then 0 else Suc (n mod 3))" by (simp add: mod_Suc)
  then show ?thesis using mod3_cases [of n] by (auto simp: ep3_def nextepoch_def)
qed

lemma ep3_active: "(ep3 n OR Eactive) AND Eactive \<noteq> 0" "ep3 m OR Eactive = ep3 n OR Eactive \<longleftrightarrow> ep3 m = ep3 n"
  using ep3_cases [of m] ep3_cases [of n] by auto

lemma inactive: "(x AND NOT Eactive) AND Eactive = 0" for x :: u32
  by (simp add: and.assoc)

section \<open>Lists in limbo\<close>

fun lchain :: "(nat \<Rightarrow> nat option) \<Rightarrow> nat option \<Rightarrow> nat list \<Rightarrow> bool" where
  "lchain nx p [] \<longleftrightarrow> p = None"
| "lchain nx p (x # xs) \<longleftrightarrow> p = Some x \<and> lchain nx (nx x) xs"

lemma lchain_upd: "x \<notin> set xs \<Longrightarrow> lchain (nx(x := v)) p xs \<longleftrightarrow> lchain nx p xs"
  by (induction xs arbitrary: p) auto

lemma lchain_Some: "lchain nx (Some x) xs \<longleftrightarrow> (\<exists>ys. xs = x # ys \<and> lchain nx (nx x) ys)"
  by (cases xs) auto

definition heads :: "Esys \<Rightarrow> nat option list" where
  "heads s = (case cleaner s of Cadv ge p \<Rightarrow> [p] | _ \<Rightarrow> []) @ popped s"

definition listed :: "(nat \<Rightarrow> nat list) \<Rightarrow> nat list list \<Rightarrow> nat list" where
  "listed L H = L 0 @ L 1 @ L 2 @ concat H"

text \<open>\<open>lists s L H\<close>: \<open>L j\<close> are the items of the list \<open>j\<close>, and \<open>H\<close> those of the lists that were taken.\<close>

definition lists :: "Esys \<Rightarrow> (nat \<Rightarrow> nat list) \<Rightarrow> nat list list \<Rightarrow> bool" where
  "lists s L H \<longleftrightarrow> (\<forall>j. lchain (lnext s) (elimbo s (ep3 j)) (L (j mod 3))) \<and> list_all2 (lchain (lnext s)) (heads s) H \<and>
     distinct (listed L H) \<and> set (listed L H) \<inter> dom (pushing s) = {} \<and> set (listed L H) \<union> dom (pushing s) = owed s \<and>
     nlimbo s + of_nat (uncounted s) = of_nat (length (listed L H))"

lemma listsD:
  assumes "lists s L H"
  shows "lchain (lnext s) (elimbo s (ep3 j)) (L (j mod 3))" "list_all2 (lchain (lnext s)) (heads s) H" "distinct (listed L H)"
    "x \<in> set (listed L H) \<Longrightarrow> pushing s x = None" "x \<in> owed s \<longleftrightarrow> x \<in> set (listed L H) \<or> pushing s x \<noteq> None"
    "nlimbo s + of_nat (uncounted s) = of_nat (length (listed L H))"
proof -
  have "set (listed L H) \<inter> dom (pushing s) = {}" "set (listed L H) \<union> dom (pushing s) = owed s" using assms unfolding lists_def by blast+
  then show "x \<in> set (listed L H) \<Longrightarrow> pushing s x = None" "x \<in> owed s \<longleftrightarrow> x \<in> set (listed L H) \<or> pushing s x \<noteq> None" by blast+
qed (use assms in \<open>simp_all add: lists_def\<close>)

lemma listsI:
  assumes "\<And>j. lchain (lnext s) (elimbo s (ep3 j)) (L (j mod 3))" "list_all2 (lchain (lnext s)) (heads s) H" "distinct (listed L H)"
    "\<And>x. x \<in> set (listed L H) \<Longrightarrow> pushing s x = None" "\<And>x. x \<in> owed s \<longleftrightarrow> x \<in> set (listed L H) \<or> pushing s x \<noteq> None"
    "nlimbo s + of_nat (uncounted s) = of_nat (length (listed L H))"
  shows "lists s L H"
  unfolding lists_def using assms by auto

text \<open>A step that does not touch the lists.\<close>

lemma lists_same:
  assumes "lists s L H" "elimbo s' = elimbo s" "lnext s' = lnext s" "heads s' = heads s" "\<And>x. pushing s' x = None \<longleftrightarrow> pushing s x = None" "owed s' = owed s"
    and "nlimbo s' + of_nat (uncounted s') = nlimbo s + of_nat (uncounted s)"
  shows "lists s' L H"
  using assms by (intro listsI) (simp_all add: listsD [OF assms(1)])

lemma listed_L: "x \<in> set (L (j mod 3)) \<Longrightarrow> x \<in> set (listed L H)"
  using mod3_cases [of j] by (auto simp: listed_def)

lemma listed_H: "x \<in> set (concat H) \<Longrightarrow> x \<in> set (listed L H)"
  by (auto simp: listed_def)

lemma listed_push: "j < 3 \<Longrightarrow> set (listed (L(j := x # L j)) H) = insert x (set (listed L H))"
    "j < 3 \<Longrightarrow> distinct (listed (L(j := x # L j)) H) \<longleftrightarrow> distinct (listed L H) \<and> x \<notin> set (listed L H)"
    "j < 3 \<Longrightarrow> length (listed (L(j := x # L j)) H) = Suc (length (listed L H))"
  using mod3_cases [of j] by (auto simp: listed_def)

lemma listed_take: "j < 3 \<Longrightarrow> mset (listed (L(j := [])) (L j # H)) = mset (listed L H)"
  using mod3_cases [of j] by (auto simp: listed_def ac_simps)

text \<open>The item \<open>l\<close> is linked, while it is in none of the lists.\<close>

lemma lchain_all_upd:
  assumes "list_all2 (lchain nx) ps H" "x \<notin> set (concat H)"
  shows "list_all2 (lchain (nx(x := v))) ps H"
  using assms by (induction rule: list_all2_induct) (auto simp: lchain_upd)

lemma lists_link:
  assumes "lists s L H" "pushing s l \<noteq> None"
  shows "lists ((limbolink s l p)\<lparr>pushing := (pushing s)(l := Some q)\<rparr>) L H"
proof -
  note d = listsD [OF assms(1)]
  have l: "l \<notin> set (listed L H)" using d(4) assms(2) by auto
  show ?thesis
  proof (rule listsI)
    show "lchain (lnext ((limbolink s l p)\<lparr>pushing := (pushing s)(l := Some q)\<rparr>)) (elimbo ((limbolink s l p)\<lparr>pushing := (pushing s)(l := Some q)\<rparr>) (ep3 j)) (L (j mod 3))" for j
      using d(1) [of j] lchain_upd [of l "L (j mod 3)"] listed_L [of l L j H] l by (auto simp: limbolink_def)
    show "list_all2 (lchain (lnext ((limbolink s l p)\<lparr>pushing := (pushing s)(l := Some q)\<rparr>))) (heads ((limbolink s l p)\<lparr>pushing := (pushing s)(l := Some q)\<rparr>)) H"
      using lchain_all_upd [OF d(2)] listed_H [of l H L] l by (auto simp: limbolink_def heads_def)
  qed (use d(3-6) l assms(2) in \<open>auto simp: limbolink_def\<close>)
qed

lemma lists_push:
  assumes "lists s L H" "pushing s l = Some (Lcas (ep3 j) p)" "elimbo s (ep3 j) = p" "lnext s l = p"
  shows "lists (s\<lparr>elimbo := (elimbo s)(ep3 j := Some l), pushing := (pushing s)(l := None), uncounted := Suc (uncounted s)\<rparr>) (L(j mod 3 := l # L (j mod 3))) H"
proof -
  note d = listsD [OF assms(1)] and m = listed_push [where j = "j mod 3", OF mod_less_divisor [of 3]]
  have l: "l \<notin> set (listed L H)" using d(4) assms(2) by auto
  show ?thesis
  proof (rule listsI)
    show "lchain (lnext (s\<lparr>elimbo := (elimbo s)(ep3 j := Some l), pushing := (pushing s)(l := None), uncounted := Suc (uncounted s)\<rparr>))
        (elimbo (s\<lparr>elimbo := (elimbo s)(ep3 j := Some l), pushing := (pushing s)(l := None), uncounted := Suc (uncounted s)\<rparr>) (ep3 i)) ((L(j mod 3 := l # L (j mod 3))) (i mod 3))" for i
      using d(1) [of j] d(1) [of i] assms(3,4) by (auto simp: ep3_eq)
  qed (use d l assms(2) in \<open>auto simp: heads_def m algebra_simps\<close>)
qed

lemma lists_swap:
  assumes "lists s L H" "\<And>g p. cleaner s \<noteq> Cadv g p"
  shows "lists (s\<lparr>elimbo := (elimbo s)(ep3 j := None), cleaner := Cadv g (elimbo s (ep3 j))\<rparr>) (L(j mod 3 := [])) (L (j mod 3) # H)"
proof -
  note d = listsD [OF assms(1)] and t = listed_take [where j = "j mod 3" and L = L and H = H, OF mod_less_divisor [of 3], simplified]
  have h: "heads s = popped s" using assms(2) by (auto simp: heads_def split: Cpc.splits)
  have x: "set (listed (L(j mod 3 := [])) (L (j mod 3) # H)) = set (listed L H)" "distinct (listed (L(j mod 3 := [])) (L (j mod 3) # H)) \<longleftrightarrow> distinct (listed L H)"
    "length (listed (L(j mod 3 := [])) (L (j mod 3) # H)) = length (listed L H)"
    using t by (auto dest: mset_eq_setD mset_eq_imp_distinct_iff mset_eq_length)
  show ?thesis
  proof (rule listsI)
    show "lchain (lnext (s\<lparr>elimbo := (elimbo s)(ep3 j := None), cleaner := Cadv g (elimbo s (ep3 j))\<rparr>))
       (elimbo (s\<lparr>elimbo := (elimbo s)(ep3 j := None), cleaner := Cadv g (elimbo s (ep3 j))\<rparr>) (ep3 i)) ((L(j mod 3 := [])) (i mod 3))" for i
      using d(1) [of i] by (auto simp: ep3_eq)
    show "list_all2 (lchain (lnext (s\<lparr>elimbo := (elimbo s)(ep3 j := None), cleaner := Cadv g (elimbo s (ep3 j))\<rparr>)))
       (heads (s\<lparr>elimbo := (elimbo s)(ep3 j := None), cleaner := Cadv g (elimbo s (ep3 j))\<rparr>)) (L (j mod 3) # H)"
      using d(1) [of j] d(2) h by (simp add: heads_def)
  qed (use d(3-6) in \<open>auto simp: x\<close>)
qed

lemma lists_pop:
  assumes "lists s L H" "popped s = as @ Some l # bs"
  shows "\<exists>A ys B. H = A @ (l # ys) # B \<and> l \<notin> set (listed L (A @ ys # B)) \<and> pushing s l = None \<and>
    lists (s\<lparr>popped := as @ lnext s l # bs, nlimbo := nlimbo s - 1, owed := owed s - {l}\<rparr>) L (A @ ys # B)"
proof -
  note d = listsD [OF assms(1)]
  let ?pre = "(case cleaner s of Cadv ge p \<Rightarrow> [p] | _ \<Rightarrow> []) @ as"
  define pre where "pre = ?pre"
  have "list_all2 (lchain (lnext s)) (pre @ Some l # bs) H" using d(2) assms(2) by (simp add: heads_def pre_def)
  then obtain A zs B where H: "H = A @ zs # B" "list_all2 (lchain (lnext s)) pre A" "lchain (lnext s) (Some l) zs" "list_all2 (lchain (lnext s)) bs B"
    by (auto simp: list_all2_append1 list_all2_Cons1)
  then obtain ys where ys: "zs = l # ys" "lchain (lnext s) (lnext s l) ys" by (auto simp: lchain_Some)
  have m: "mset (listed L H) = add_mset l (mset (listed L (A @ ys # B)))" by (simp add: listed_def H(1) ys(1))
  then have x: "set (listed L H) = insert l (set (listed L (A @ ys # B)))" "distinct (listed L H) \<longleftrightarrow> distinct (l # listed L (A @ ys # B))" "length (listed L H) = Suc (length (listed L (A @ ys # B)))"
    using mset_eq_setD [of "listed L H" "l # listed L (A @ ys # B)"] mset_eq_imp_distinct_iff [of "listed L H" "l # listed L (A @ ys # B)"] mset_eq_length [of "listed L H" "l # listed L (A @ ys # B)"] by auto
  have l: "l \<notin> set (listed L (A @ ys # B))" "pushing s l = None" using d(3) d(4) [of l] x by auto
  have "lists (s\<lparr>popped := as @ lnext s l # bs, nlimbo := nlimbo s - 1, owed := owed s - {l}\<rparr>) L (A @ ys # B)"
  proof (rule listsI)
    show "list_all2 (lchain (lnext (s\<lparr>popped := as @ lnext s l # bs, nlimbo := nlimbo s - 1, owed := owed s - {l}\<rparr>)))
       (heads (s\<lparr>popped := as @ lnext s l # bs, nlimbo := nlimbo s - 1, owed := owed s - {l}\<rparr>)) (A @ ys # B)"
      using list_all2_appendI [OF H(2)] H(4) ys(2) by (simp add: heads_def pre_def)
    show "nlimbo (s\<lparr>popped := as @ lnext s l # bs, nlimbo := nlimbo s - 1, owed := owed s - {l}\<rparr>) +
      of_nat (uncounted (s\<lparr>popped := as @ lnext s l # bs, nlimbo := nlimbo s - 1, owed := owed s - {l}\<rparr>)) = of_nat (length (listed L (A @ ys # B)))"
      using d(6) x(3) by (simp add: algebra_simps)
  qed (use d(1,3-5) x l in auto)
  with H(1) ys(1) l show ?thesis by blast
qed

section \<open>Workers\<close>

text \<open>
  A worker's section begins when it sets its epoch, which may be an older one than the current: the epoch can move on between the
  read and the store.  The current epoch is at most two past the one its section began in.
\<close>

definition sectok :: "Esys \<Rightarrow> nat \<Rightarrow> bool" where
  "sectok s w \<longleftrightarrow> w < nworker s \<and> since s w \<le> now s \<and> now s \<le> since s w + 2 \<and>
     (\<exists>g. lepoch s w = ep3 g OR Eactive \<and> (now s = since s w + 2 \<longrightarrow> ep3 g = ep3 (Suc (since s w))))"

fun checked :: "Cpc \<Rightarrow> nat \<Rightarrow> nat" where
  "checked (Ccheck c ge i) n = i"
| "checked (Cswap ge) n = n"
| "checked (Cadv ge p) n = n"
| "checked pc n = 0"

fun cleange :: "Cpc \<Rightarrow> u32 \<Rightarrow> bool" where
  "cleange (Ccheck c ge i) e \<longleftrightarrow> ge = e"
| "cleange (Cswap ge) e \<longleftrightarrow> ge = e"
| "cleange (Cadv ge p) e \<longleftrightarrow> ge = e"
| "cleange pc e \<longleftrightarrow> True"

definition wok :: "Esys \<Rightarrow> bool" where
  "wok s \<longleftrightarrow> epoch s = ep3 (now s) \<and> (\<forall>w. isactive s w \<longrightarrow> sectok s w) \<and>
     (\<forall>w ge. starting s w = Some ge \<longrightarrow> \<not> isactive s w \<and> w < nworker s \<and> (\<exists>g. ge = ep3 g)) \<and>
     (\<forall>w < checked (cleaner s) (nworker s). isactive s w \<longrightarrow> since s w = now s \<or> lepoch s w = epoch s OR Eactive) \<and>
     cleange (cleaner s) (epoch s)"

lemma wokD:
  assumes "wok s"
  shows "epoch s = ep3 (now s)" "isactive s w \<Longrightarrow> sectok s w" "starting s w = Some ge \<Longrightarrow> \<not> isactive s w \<and> w < nworker s \<and> (\<exists>g. ge = ep3 g)"
    "w < checked (cleaner s) (nworker s) \<Longrightarrow> isactive s w \<Longrightarrow> since s w = now s \<or> lepoch s w = epoch s OR Eactive"
    "cleange (cleaner s) (epoch s)"
  using assms unfolding wok_def by blast+

text \<open>A section that passed the check of all workers is at most one epoch old.\<close>

lemma checked_young:
  assumes "wok s" "isactive s w" "w < checked (cleaner s) (nworker s)"
  shows "now s \<le> Suc (since s w)" "now s = Suc (since s w) \<Longrightarrow> lepoch s w = ep3 (now s) OR Eactive"
proof -
  note o = wokD [OF assms(1)]
  from o(2) [OF assms(2)] obtain g where g: "since s w \<le> now s" "now s \<le> since s w + 2" "lepoch s w = ep3 g OR Eactive" "now s = since s w + 2 \<longrightarrow> ep3 g = ep3 (Suc (since s w))"
    by (auto simp: sectok_def)
  from o(4) [OF assms(3,2)] o(1) have c: "since s w = now s \<or> ep3 g = ep3 (now s)" by (auto simp: g(3) ep3_active)
  have "now s \<noteq> since s w + 2"
  proof
    assume n: "now s = since s w + 2"
    with c g(4) have "ep3 (Suc (since s w)) = ep3 (since s w + 2)" by auto
    then show False by (simp add: ep3_eq) presburger
  qed
  with g(2) show "now s \<le> Suc (since s w)" by simp
  show "now s = Suc (since s w) \<Longrightarrow> lepoch s w = ep3 (now s) OR Eactive" using c g(3) by auto
qed

lemma wok_frame:
  assumes "wok s" "epoch s' = epoch s" "now s' = now s" "lepoch s' = lepoch s" "nworker s' = nworker s" "since s' = since s" "starting s' = starting s" "cleaner s' = cleaner s"
  shows "wok s'"
proof -
  have a: "isactive s' w = isactive s w" "sectok s' w = sectok s w" for w using assms by (simp_all add: isactive_def sectok_def)
  show ?thesis using assms(1) unfolding wok_def a assms(2-8) .
qed

lemma isactive_frame: "lepoch s' w = lepoch s w \<Longrightarrow> isactive s' w = isactive s w"
  by (simp add: isactive_def)

lemma wok_start_read:
  assumes "wok s" "\<not> isactive s w" "w < nworker s"
  shows "wok (s\<lparr>starting := (starting s)(w := Some (epoch s))\<rparr>)"
  using assms unfolding wok_def by (auto simp: sectok_def isactive_def)

lemma wok_start_set:
  assumes "wok s" "starting s w = Some ge"
  shows "wok ((epochstart s w ge)\<lparr>starting := (starting s)(w := None), since := (since s)(w := now s), sect := (sect s)(w := Suc (sect s w))\<rparr>)" (is "wok ?s")
proof -
  note o = wokD [OF assms(1)]
  from o(3) [OF assms(2)] obtain g where g: "w < nworker s" "ge = ep3 g" by auto
  have f: "lepoch ?s = (lepoch s)(w := ep3 g OR Eactive)" "since ?s = (since s)(w := now s)" "now ?s = now s" "epoch ?s = epoch s" "nworker ?s = nworker s"
    "cleaner ?s = cleaner s" "starting ?s = (starting s)(w := None)" by (simp_all add: epochstart_def g(2))
  have a: "isactive ?s v \<longleftrightarrow> v = w \<or> isactive s v" for v by (auto simp: isactive_def f(1) ep3_active(1))
  have "sectok ?s v" if "isactive ?s v" for v
    using that o(2) [of v] g(1) a [of v] by (cases "v = w") (auto simp: sectok_def f)
  moreover have "since ?s v = now ?s \<or> lepoch ?s v = epoch ?s OR Eactive" if "v < checked (cleaner ?s) (nworker ?s)" "isactive ?s v" for v
    using that o(4) [of v] a [of v] by (cases "v = w") (auto simp: f)
  moreover have "\<not> isactive ?s v \<and> v < nworker ?s \<and> (\<exists>g. h = ep3 g)" if "starting ?s v = Some h" for v h
    using that o(3) [of v h] a [of v] by (auto simp: f split: if_splits)
  ultimately show ?thesis using o(1,5) unfolding wok_def f by blast
qed

lemma wok_end:
  assumes "wok s"
  shows "wok (epochend s w)"
proof -
  note o = wokD [OF assms]
  have a: "isactive (epochend s w) v \<longleftrightarrow> v \<noteq> w \<and> isactive s v" for v by (cases "v = w") (simp_all add: isactive_def epochend_def inactive [simplified])
  have f: "v \<noteq> w \<Longrightarrow> lepoch (epochend s w) v = lepoch s v" "since (epochend s w) = since s" "now (epochend s w) = now s" "epoch (epochend s w) = epoch s" "nworker (epochend s w) = nworker s"
    "cleaner (epochend s w) = cleaner s" "starting (epochend s w) = starting s" for v by (simp_all add: epochend_def)
  have "sectok (epochend s w) v" if "isactive (epochend s w) v" for v using that o(2) [of v] by (auto simp: a f sectok_def)
  moreover have "since (epochend s w) v = now (epochend s w) \<or> lepoch (epochend s w) v = epoch (epochend s w) OR Eactive" if "v < checked (cleaner (epochend s w)) (nworker (epochend s w))" "isactive (epochend s w) v" for v
    using that o(4) [of v] by (auto simp: a f)
  ultimately show ?thesis using o(1,3,5) unfolding wok_def a f by blast
qed

text \<open>Only the place of the cleaner changes, and it has checked no more than it had.\<close>

lemma wok_clean:
  assumes "wok s" "epoch s' = epoch s" "now s' = now s" "lepoch s' = lepoch s" "nworker s' = nworker s" "since s' = since s" "starting s' = starting s"
    and "\<And>w. w < checked (cleaner s') (nworker s') \<Longrightarrow> isactive s w \<Longrightarrow> w < checked (cleaner s) (nworker s) \<or> lepoch s w = epoch s OR Eactive"
    and "cleange (cleaner s') (epoch s)"
  shows "wok s'"
proof -
  note o = wokD [OF assms(1)]
  have a: "isactive s' w = isactive s w" "sectok s' w = sectok s w" for w using assms by (simp_all add: isactive_def sectok_def)
  have "since s' w = now s' \<or> lepoch s' w = epoch s' OR Eactive" if "w < checked (cleaner s') (nworker s')" "isactive s' w" for w
    using assms(8) [OF that(1)] that(2) o(4) [of w] unfolding a assms(2-7) by blast
  then show ?thesis using o(1-3) assms(9) unfolding wok_def a assms(2-7) by blast
qed

lemma wok_adv:
  assumes "wok s" "cleaner s = Cadv ge p"
  shows "wok (s\<lparr>epoch := nextepoch ge, cleaner := Cfree, popped := p # popped s, now := Suc (now s)\<rparr>)" (is "wok ?s")
proof -
  note o = wokD [OF assms(1)]
  have ge: "ge = ep3 (now s)" using o(1,5) assms(2) by auto
  have f: "lepoch ?s = lepoch s" "since ?s = since s" "now ?s = Suc (now s)" "epoch ?s = ep3 (Suc (now s))" "nworker ?s = nworker s" "cleaner ?s = Cfree" "starting ?s = starting s"
    by (simp_all add: ge ep3_next)
  have a: "isactive ?s w = isactive s w" for w by (simp add: isactive_def)
  have "sectok ?s w" if w: "isactive s w" for w
  proof -
    from o(2) [OF w] have wn: "w < nworker s" "since s w \<le> now s" and "\<exists>g. lepoch s w = ep3 g OR Eactive" by (auto simp: sectok_def)
    then obtain g where g: "lepoch s w = ep3 g OR Eactive" by blast
    have "w < checked (cleaner s) (nworker s)" using wn assms(2) by (simp add:)
    note y = checked_young [OF assms(1) w this]
    have "ep3 g = ep3 (Suc (since s w))" if "Suc (now s) = since s w + 2"
      using y(2) that g by (simp add: ep3_active(2))
    with y(1) wn g show ?thesis unfolding sectok_def f by auto
  qed
  then show ?thesis using o(3) unfolding wok_def a f by (auto simp:)
qed

section \<open>Items\<close>

definition live :: "Esys \<Rightarrow> nat \<Rightarrow> nat set" where
  "live s x = {w. isactive s w \<and> (w, sect s w) \<in> holders s x}"

definition youngat :: "Esys \<Rightarrow> nat \<Rightarrow> nat \<Rightarrow> bool" where
  "youngat s x g \<longleftrightarrow> g \<le> now s \<and> (\<forall>w \<in> live s x. since s w \<le> g)"

definition pushok :: "Esys \<Rightarrow> nat \<Rightarrow> Lpc \<Rightarrow> bool" where
  "pushok s x pc = (case pc of Lepoch \<Rightarrow> youngat s x (now s) | Lhead ge \<Rightarrow> ge = ep3 (gx s x) \<and> youngat s x (gx s x)
     | Lcas ge p \<Rightarrow> ge = ep3 (gx s x) \<and> youngat s x (gx s x) \<and> lnext s x = p)"

definition items :: "Esys \<Rightarrow> (nat \<Rightarrow> nat list) \<Rightarrow> nat list list \<Rightarrow> bool" where
  "items s L H \<longleftrightarrow> (\<forall>j < 3. \<forall>x \<in> set (L j). gx s x mod 3 = j \<and> youngat s x (gx s x)) \<and>
     (\<forall>x pc. pushing s x = Some pc \<longrightarrow> pushok s x pc) \<and> (\<forall>x \<in> set (concat H). live s x = {}) \<and> (\<forall>x w k. (w, k) \<in> holders s x \<longrightarrow> k \<le> sect s w)"

lemma itemsD:
  assumes "items s L H"
  shows "j < 3 \<Longrightarrow> x \<in> set (L j) \<Longrightarrow> gx s x mod 3 = j \<and> youngat s x (gx s x)" "pushing s x = Some pc \<Longrightarrow> pushok s x pc"
    "x \<in> set (concat H) \<Longrightarrow> live s x = {}" "(w, k) \<in> holders s x \<Longrightarrow> k \<le> sect s w"
  using assms unfolding items_def by blast+

lemma youngat_mono:
  assumes "youngat s x g" "live s' x \<subseteq> live s x" "\<And>w. w \<in> live s' x \<Longrightarrow> since s' w = since s w" "now s \<le> now s'"
  shows "youngat s' x g"
  using assms by (auto simp: youngat_def)

lemma youngat_now: "youngat s x g \<Longrightarrow> youngat s x (now s)"
  by (fastforce simp: youngat_def)

text \<open>What every step does to the items it is not about.\<close>

definition ekeeps :: "Esys \<Rightarrow> Esys \<Rightarrow> nat \<Rightarrow> bool" where
  "ekeeps s s' x \<longleftrightarrow> live s' x \<subseteq> live s x \<and> (\<forall>w \<in> live s' x. since s' w = since s w) \<and> now s \<le> now s' \<and> gx s' x = gx s x \<and> lnext s' x = lnext s x"

lemma ekeeps_young: "ekeeps s s' x \<Longrightarrow> youngat s x g \<Longrightarrow> youngat s' x g"
  using youngat_mono [of s x g s'] by (simp add: ekeeps_def)

lemma ekeeps_push:
  assumes "ekeeps s s' x" "pushok s x pc"
  shows "pushok s' x pc"
  using assms ekeeps_young [OF assms(1)] youngat_now [of s' x "now s"] by (cases pc) (auto simp: pushok_def ekeeps_def)

text \<open>A step about the item \<open>l\<close>, which is in no list before.\<close>

lemma items_step:
  assumes "items s L H" "\<And>x. x \<noteq> l \<Longrightarrow> ekeeps s s' x" "l \<notin> set (listed L H)" "\<And>x. x \<noteq> l \<Longrightarrow> pushing s' x = pushing s x"
    and "\<And>pc. pushing s' l = Some pc \<Longrightarrow> pushok s' l pc" "\<And>x w k. (w, k) \<in> holders s' x \<Longrightarrow> k \<le> sect s' w"
  shows "items s' L H"
proof -
  note i = itemsD [OF assms(1)]
  have "gx s' x mod 3 = j \<and> youngat s' x (gx s' x)" if j: "j < 3" "x \<in> set (L j)" for j x
  proof -
    have "x \<noteq> l" using j assms(3) listed_L [of x L j H] by auto
    from assms(2) [OF this] i(1) [OF j] ekeeps_young [of s s' x] show ?thesis by (auto simp: ekeeps_def)
  qed
  moreover have "pushok s' x pc" if "pushing s' x = Some pc" for x pc
    using that assms(2,4) [of x] assms(5) [of pc] i(2) [of x pc] ekeeps_push [of s s' x pc] by (cases "x = l") auto
  moreover have "live s' x = {}" if x: "x \<in> set (concat H)" for x
  proof -
    have "x \<noteq> l" using assms(3) x listed_H [of x H L] by auto
    from assms(2) [OF this] i(3) [OF x] show ?thesis by (auto simp: ekeeps_def)
  qed
  ultimately show ?thesis using assms(6) unfolding items_def by blast
qed

text \<open>A step about no item.\<close>

lemma items_same:
  assumes "items s L H" "\<And>x. ekeeps s s' x" "pushing s' = pushing s" "\<And>x w k. (w, k) \<in> holders s' x \<Longrightarrow> k \<le> sect s' w"
  shows "items s' L H"
proof -
  note i = itemsD [OF assms(1)]
  have "gx s' x mod 3 = j \<and> youngat s' x (gx s' x)" if j: "j < 3" "x \<in> set (L j)" for j x
    using assms(2) [of x] i(1) [OF j] ekeeps_young [of s s' x] by (auto simp: ekeeps_def)
  moreover have "pushok s' x pc" if "pushing s' x = Some pc" for x pc
    using ekeeps_push [OF assms(2) i(2)] that assms(3) by auto
  moreover have "live s' x = {}" if x: "x \<in> set (concat H)" for x
    using assms(2) [of x] i(3) [OF x] by (auto simp: ekeeps_def)
  ultimately show ?thesis using assms(4) unfolding items_def by blast
qed

lemma live_frame: "lepoch s' = lepoch s \<Longrightarrow> sect s' = sect s \<Longrightarrow> holders s' x = holders s x \<Longrightarrow> live s' x = live s x"
  by (simp add: live_def isactive_def)

lemma ekeeps_frame:
  assumes "lepoch s' = lepoch s" "sect s' = sect s" "holders s' x = holders s x" "since s' = since s" "now s \<le> now s'" "gx s' x = gx s x" "lnext s' x = lnext s x"
  shows "ekeeps s s' x"
  using assms live_frame [OF assms(1-3)] by (simp add: ekeeps_def)

definition einv :: "Esys \<Rightarrow> bool" where
  "einv s \<longleftrightarrow> wok s \<and> (\<exists>L H. lists s L H \<and> items s L H)"

lemma einv_same:
  assumes "einv s" "wok s'" "elimbo s' = elimbo s" "lnext s' = lnext s" "heads s' = heads s" "pushing s' = pushing s" "owed s' = owed s"
    and "nlimbo s' + of_nat (uncounted s') = nlimbo s + of_nat (uncounted s)" "\<And>x. ekeeps s s' x" "holders s' = holders s" "\<And>w. sect s w \<le> sect s' w"
  shows "einv s'"
proof -
  from assms(1) obtain L H where l: "lists s L H" "items s L H" by (auto simp: einv_def)
  have "lists s' L H" by (rule lists_same [OF l(1)]) (simp_all add: assms)
  moreover have "k \<le> sect s' w" if "(w, k) \<in> holders s' x" for x w k
    using that itemsD(4) [OF l(2), of w k x] assms(10) assms(11) [of w] by simp
  then have "items s' L H" by (intro items_same [OF l(2) assms(9,6)])
  ultimately show ?thesis using assms(2) by (auto simp: einv_def)
qed

lemma einv_limbo:
  assumes "einv s" "l \<notin> owed s"
  shows "einv (limbo s op l)"
proof -
  from assms(1) obtain L H where l: "lists s L H" "items s L H" and w: "wok s" by (auto simp: einv_def)
  note d = listsD [OF l(1)]
  have nl: "l \<notin> set (listed L H)" "pushing s l = None" using d(5) [of l] assms(2) by auto
  have "lists (limbo s op l) L H"
    by (rule listsI) (use d nl in \<open>auto simp: limbo_def heads_def\<close>)
  moreover have "items (limbo s op l) L H"
  proof (rule items_step [OF l(2) _ nl(1)])
    show "ekeeps s (limbo s op l) x" if "x \<noteq> l" for x by (rule ekeeps_frame) (use that in \<open>simp_all add: limbo_def\<close>)
    show "pushing (limbo s op l) x = pushing s x" if "x \<noteq> l" for x using that by (simp add: limbo_def)
    have "since s v \<le> now s" if "isactive s v" for v using wokD(2) [OF w that] by (simp add: sectok_def)
    then show "pushok (limbo s op l) l pc" if "pushing (limbo s op l) l = Some pc" for pc
      using that by (auto simp: limbo_def pushok_def youngat_def live_def isactive_def)
    show "k \<le> sect (limbo s op l) v" if "(v, k) \<in> holders (limbo s op l) x" for x v k
      using that itemsD(4) [OF l(2)] by (auto simp: limbo_def running_def split: if_splits)
  qed
  moreover have "wok (limbo s op l)" by (rule wok_frame [OF w]) (simp_all add: limbo_def)
  ultimately show ?thesis by (auto simp: einv_def)
qed

lemma einv_epoch:
  assumes "einv s" "pushing s l = Some Lepoch"
  shows "einv (s\<lparr>pushing := (pushing s)(l := Some (Lhead (epoch s))), gx := (gx s)(l := now s)\<rparr>)" (is "einv ?s")
proof -
  from assms(1) obtain L H where l: "lists s L H" "items s L H" and w: "wok s" by (auto simp: einv_def)
  have nl: "l \<notin> set (listed L H)" using listsD(4) [OF l(1), of l] assms(2) by auto
  have "lists ?s L H" by (rule lists_same [OF l(1)]) (use assms(2) in \<open>auto simp: heads_def\<close>)
  moreover have "items ?s L H"
  proof (rule items_step [OF l(2) _ nl])
    show "ekeeps s ?s x" if "x \<noteq> l" for x by (rule ekeeps_frame) (use that in simp_all)
    have "live ?s l = live s l" by (rule live_frame) simp_all
    with itemsD(2) [OF l(2) assms(2)] show "pushok ?s l pc" if "pushing ?s l = Some pc" for pc
      using that wokD(1) [OF w] by (auto simp: pushok_def youngat_def)
  qed (use itemsD(4) [OF l(2)] in auto)
  moreover have "wok ?s" by (rule wok_frame [OF w]) simp_all
  ultimately show ?thesis by (auto simp: einv_def)
qed

lemma einv_head:
  assumes "einv s" "pushing s l = Some (Lhead ge)"
  shows "einv ((limbolink s l (elimbo s ge))\<lparr>pushing := (pushing s)(l := Some (Lcas ge (elimbo s ge)))\<rparr>)" (is "einv ?s")
proof -
  from assms(1) obtain L H where l: "lists s L H" "items s L H" and w: "wok s" by (auto simp: einv_def)
  have nl: "l \<notin> set (listed L H)" using listsD(4) [OF l(1), of l] assms(2) by auto
  have "lists ?s L H" by (rule lists_link [OF l(1)]) (simp add: assms(2))
  moreover have "items ?s L H"
  proof (rule items_step [OF l(2) _ nl])
    show "ekeeps s ?s x" if "x \<noteq> l" for x by (rule ekeeps_frame) (use that in \<open>simp_all add: limbolink_def\<close>)
    have "live ?s l = live s l" by (rule live_frame) (simp_all add: limbolink_def)
    with itemsD(2) [OF l(2) assms(2)] show "pushok ?s l pc" if "pushing ?s l = Some pc" for pc
      using that by (auto simp: pushok_def youngat_def limbolink_def)
  qed (use itemsD(4) [OF l(2)] in \<open>auto simp: limbolink_def\<close>)
  moreover have "wok ?s" by (rule wok_frame [OF w]) (simp_all add: limbolink_def)
  ultimately show ?thesis by (auto simp: einv_def)
qed

lemma einv_cas:
  assumes "einv s" "pushing s l = Some (Lcas ge p)" "elimbo s ge = p"
  shows "einv (s\<lparr>elimbo := (elimbo s)(ge := Some l), pushing := (pushing s)(l := None), uncounted := Suc (uncounted s)\<rparr>)" (is "einv ?s")
proof -
  from assms(1) obtain L H where l: "lists s L H" "items s L H" and w: "wok s" by (auto simp: einv_def)
  note i = itemsD [OF l(2)]
  have ge: "ge = ep3 (gx s l)" "youngat s l (gx s l)" "lnext s l = p" using i(2) [OF assms(2)] by (simp_all add: pushok_def)
  let ?j = "gx s l mod 3"
  have "lists ?s (L(?j := l # L ?j)) H" unfolding ge(1) using lists_push [OF l(1)] assms(2,3) ge by simp
  moreover have k: "ekeeps s ?s x" for x by (rule ekeeps_frame) simp_all
  have "items ?s (L(?j := l # L ?j)) H"
    unfolding items_def
  proof (intro conjI allI impI ballI)
    fix j x assume x: "j < 3" "x \<in> set ((L(?j := l # L ?j)) j)"
    show "gx ?s x mod 3 = j" using x i(1) [of j x] by (auto split: if_splits)
    show "youngat ?s x (gx ?s x)" using x i(1) [of j x] ge(2) ekeeps_young [OF k] by (auto split: if_splits)
  next
    fix x pc assume "pushing ?s x = Some pc"
    then show "pushok ?s x pc" using i(2) [of x pc] ekeeps_push [OF k] by (auto split: if_splits)
  next
    fix x assume "x \<in> set (concat H)"
    then show "live ?s x = {}" using i(3) [of x] k [of x] by (auto simp: ekeeps_def)
  qed (use i(4) in auto)
  moreover have "wok ?s" by (rule wok_frame [OF w]) simp_all
  ultimately show ?thesis by (auto simp: einv_def)
qed

lemma einv_retry:
  assumes "einv s" "pushing s l = Some (Lcas ge p)"
  shows "einv (s\<lparr>pushing := (pushing s)(l := Some Lepoch)\<rparr>)" (is "einv ?s")
proof -
  from assms(1) obtain L H where l: "lists s L H" "items s L H" and w: "wok s" by (auto simp: einv_def)
  have nl: "l \<notin> set (listed L H)" using listsD(4) [OF l(1), of l] assms(2) by auto
  have "lists ?s L H" by (rule lists_same [OF l(1)]) (use assms(2) in \<open>auto simp: heads_def\<close>)
  moreover have "items ?s L H"
  proof (rule items_step [OF l(2) _ nl])
    show k: "ekeeps s ?s x" for x by (rule ekeeps_frame) simp_all
    show "pushok ?s l pc" if "pushing ?s l = Some pc" for pc
      using that itemsD(2) [OF l(2) assms(2)] youngat_now [OF ekeeps_young [OF k]] by (auto simp: pushok_def)
  qed (use itemsD(4) [OF l(2)] in auto)
  moreover have "wok ?s" by (rule wok_frame [OF w]) simp_all
  ultimately show ?thesis by (auto simp: einv_def)
qed

text \<open>
  The list that is taken has the items put there at least two epochs ago, and no section that began then has passed the
  check of the workers.
\<close>

lemma einv_swap:
  assumes "einv s" "cleaner s = Cswap ge"
  shows "einv (s\<lparr>elimbo := (elimbo s)(nextepoch ge := None), cleaner := Cadv ge (elimbo s (nextepoch ge))\<rparr>)" (is "einv ?s")
proof -
  from assms(1) obtain L H where l: "lists s L H" "items s L H" and w: "wok s" by (auto simp: einv_def)
  note i = itemsD [OF l(2)] and o = wokD [OF w]
  have ge: "ge = epoch s" "nextepoch ge = ep3 (Suc (now s))" using o(1,5) assms(2) by (simp_all add: ep3_next)
  let ?j = "Suc (now s) mod 3"
  have "lists ?s (L(?j := [])) (L ?j # H)" unfolding ge(2) by (rule lists_swap [OF l(1)]) (simp add: assms(2))
  moreover have k: "ekeeps s ?s x" for x by (rule ekeeps_frame) simp_all
  have gone: "live s x = {}" if x: "x \<in> set (L ?j)" for x
  proof -
    have g: "gx s x mod 3 = ?j" "gx s x \<le> now s" and y: "\<And>v. v \<in> live s x \<Longrightarrow> since s v \<le> gx s x" using i(1) [OF _ x] by (auto simp: youngat_def)
    from g have old: "gx s x + 2 \<le> now s" by presburger
    have "v \<notin> live s x" for v
    proof
      assume v: "v \<in> live s x"
      then have a: "isactive s v" by (simp add: live_def)
      then have "v < checked (cleaner s) (nworker s)" using o(2) [OF a] assms(2) by (simp add: sectok_def)
      from checked_young(1) [OF w a this] y [OF v] old show False by simp
    qed
    then show ?thesis by blast
  qed
  have "items ?s (L(?j := [])) (L ?j # H)"
    unfolding items_def
  proof (intro conjI allI impI ballI)
    fix j x assume x: "j < 3" "x \<in> set ((L(?j := [])) j)"
    then have x: "x \<in> set (L j)" "j < 3" by (auto split: if_splits)
    show "gx ?s x mod 3 = j" "youngat ?s x (gx ?s x)" using i(1) [OF x(2,1)] ekeeps_young [OF k] by auto
  next
    fix x pc assume "pushing ?s x = Some pc"
    then show "pushok ?s x pc" using i(2) [of x pc] ekeeps_push [OF k] by auto
  next
    fix x assume "x \<in> set (concat (L ?j # H))"
    then show "live ?s x = {}" using i(3) [of x] gone k [of x] by (auto simp: ekeeps_def)
  qed (use i(4) in auto)
  moreover have "wok ?s" by (rule wok_clean [OF w]) (use assms(2) ge(1) in auto)
  ultimately show ?thesis by (auto simp: einv_def)
qed

lemma einv_pop:
  assumes "einv s" "popped s = as @ Some l # bs"
  shows "einv (s\<lparr>popped := as @ lnext s l # bs, nlimbo := nlimbo s - 1, owed := owed s - {l}\<rparr>)" (is "einv ?s") and "live s l = {}" "l \<in> owed s"
proof -
  from assms(1) obtain L H where l: "lists s L H" "items s L H" and w: "wok s" by (auto simp: einv_def)
  note i = itemsD [OF l(2)]
  from lists_pop [OF l(1) assms(2)] obtain A ys B where H: "H = A @ (l # ys) # B" and n: "lists ?s L (A @ ys # B)" by blast
  have k: "ekeeps s ?s x" for x by (rule ekeeps_frame) simp_all
  have "items ?s L H" by (rule items_same [OF l(2) k]) (use i(4) in auto)
  then have "items ?s L (A @ ys # B)" unfolding items_def H by auto
  moreover have "wok ?s" by (rule wok_frame [OF w]) simp_all
  ultimately show "einv ?s" using n by (auto simp: einv_def)
  show "live s l = {}" using i(3) [of l] by (simp add: H)
  show "l \<in> owed s" using listsD(5) [OF l(1), of l] listed_H [of l H L] by (simp add: H)
qed

lemma limbo_again: "l \<in> owed s \<Longrightarrow> limbo (s\<lparr>owed := owed s - {l}\<rparr>) op l = limbo s op l"
  by (simp add: limbo_def running_def isactive_def insert_absorb)

lemma ekeeps_start:
  assumes "wok s" "\<And>x w k. (w, k) \<in> holders s x \<Longrightarrow> k \<le> sect s w" "starting s w = Some ge"
  shows "ekeeps s ((epochstart s w ge)\<lparr>starting := (starting s)(w := None), since := (since s)(w := now s), sect := (sect s)(w := Suc (sect s w))\<rparr>) x" (is "ekeeps s ?s x")
proof -
  have nw: "\<not> isactive s w" using wokD(3) [OF assms(1,3)] by blast
  have "(w, Suc (sect s w)) \<notin> holders s x" using assms(2) [of w "Suc (sect s w)" x] by auto
  then have "live ?s x = live s x" using nw by (auto simp: live_def epochstart_def isactive_def split: if_splits)
  moreover have "w \<notin> live s x" using nw by (simp add: live_def)
  ultimately show ?thesis by (auto simp: ekeeps_def epochstart_def)
qed

lemma einv_step:
  assumes "estep s s'" "einv s"
  shows "einv s'"
proof -
  have w: "wok s" using assms(2) by (simp add: einv_def)
  obtain L H where li: "lists s L H" "items s L H" using assms(2) by (auto simp: einv_def)
  from assms(1) show ?thesis
  proof cases
    case (start_read v)
    have "wok s'" unfolding start_read(1) by (rule wok_start_read [OF w start_read(2,3)])
    then show ?thesis by (rule einv_same [OF assms(2)]) (simp_all add: start_read(1) heads_def ekeeps_frame)
  next
    case (start_set v ge)
    have "wok s'" unfolding start_set(1) by (rule wok_start_set [OF w start_set(2)])
    moreover have "ekeeps s s' x" for x unfolding start_set(1) by (rule ekeeps_start [OF w itemsD(4) [OF li(2)] start_set(2)])
    ultimately show ?thesis by (intro einv_same [OF assms(2)]) (simp_all add: start_set(1) epochstart_def heads_def)
  next
    case (finish v)
    have "wok s'" unfolding finish(1) by (rule wok_end [OF w])
    moreover have "ekeeps s s' x" for x by (auto simp: ekeeps_def finish(1) epochend_def live_def isactive_def inactive [simplified])
    ultimately show ?thesis by (intro einv_same [OF assms(2)]) (simp_all add: finish(1) epochend_def heads_def)
  next
    case (call l op)
    with einv_limbo [OF assms(2)] show ?thesis by simp
  next
    case (limbo_epoch l)
    with einv_epoch [OF assms(2)] show ?thesis by simp
  next
    case (limbo_head l ge)
    with einv_head [OF assms(2)] show ?thesis by simp
  next
    case (limbo_cas l ge p t ok)
    with einv_cas [OF assms(2) limbo_cas(2)] einv_retry [OF assms(2) limbo_cas(2)] show ?thesis by (auto simp: limbocas_def split: if_splits)
  next
    case (limbo_count n)
    then show ?thesis
      by (intro einv_same [OF assms(2)] wok_frame [OF w]) (simp_all add: heads_def ekeeps_frame algebra_simps)
  next
    case clean_lock
    have "wok s'" by (rule wok_clean [OF w]) (simp_all add: clean_lock)
    then show ?thesis by (rule einv_same [OF assms(2)]) (simp_all add: clean_lock heads_def ekeeps_frame)
  next
    case clean_again
    have "wok s'" by (rule wok_clean [OF w]) (simp_all add: clean_again)
    then show ?thesis by (rule einv_same [OF assms(2)]) (simp_all add: clean_again heads_def ekeeps_frame)
  next
    case (clean_check c ge i)
    have ge: "ge = epoch s" using wokD(5) [OF w] clean_check(2) by simp
    have "wok s'" by (rule wok_clean [OF w]) (use clean_check ge in \<open>auto simp: stalled_def isactive_def less_Suc_eq split: if_splits\<close>)
    then show ?thesis by (rule einv_same [OF assms(2)]) (simp_all add: clean_check heads_def ekeeps_frame)
  next
    case (clean_all c ge i)
    have ge: "ge = epoch s" using wokD(5) [OF w] clean_all(2) by simp
    have "wok s'" by (rule wok_clean [OF w]) (use clean_all ge in auto)
    then show ?thesis by (rule einv_same [OF assms(2)]) (simp_all add: clean_all heads_def ekeeps_frame)
  next
    case (clean_swap ge t p)
    with einv_swap [OF assms(2) clean_swap(2)] show ?thesis by (auto simp: limboswap_def)
  next
    case (clean_adv ge p)
    have "wok s'" unfolding clean_adv(1) by (rule wok_adv [OF w clean_adv(2)])
    then show ?thesis by (rule einv_same [OF assms(2)]) (simp_all add: clean_adv heads_def ekeeps_frame)
  next
    case (release as l bs)
    with einv_pop(1) [OF assms(2) release(2)] show ?thesis by simp
  next
    case (reclose as l bs)
    note p = einv_pop [OF assms(2) reclose(2)]
    from einv_limbo [OF p(1), of l DFtree_op] show ?thesis
      using limbo_again [of l "s\<lparr>popped := as @ lnext s l # bs, nlimbo := nlimbo s - 1\<rparr>" DFtree_op] p(3) reclose(1) by simp
  qed
qed

lemma einv_init: "einv (einit n cm)"
proof -
  have e: "ep3 j = 0 \<longleftrightarrow> j mod 3 = 0" for j using ep3_eq [of j 0] by (simp add: ep3_def)
  have "lists (einit n cm) (\<lambda>_. []) []" by (rule listsI) (simp_all add: einit_def listed_def heads_def)
  moreover have "items (einit n cm) (\<lambda>_. []) []" by (simp add: items_def einit_def)
  moreover have "wok (einit n cm)" by (simp add: wok_def einit_def isactive_def ep3_def)
  ultimately show ?thesis by (auto simp: einv_def)
qed

lemma einv_reach: "estep\<^sup>*\<^sup>* (einit n cm) s \<Longrightarrow> einv s"
  by (induction rule: rtranclp_induct) (auto intro: einv_init einv_step)

section \<open>A clean-up that is not held up\<close>

definition cleaned :: "Esys \<Rightarrow> Esys" where
  "cleaned s = s\<lparr>elimbo := (elimbo s)(nextepoch (epoch s) := None), epoch := nextepoch (epoch s), cleaner := Cfree,
     popped := elimbo s (nextepoch (epoch s)) # popped s, now := Suc (now s)\<rparr>"

lemma clean_checks:
  assumes "\<forall>i < nworker s. \<not> stalled s ge i" "i \<le> nworker s"
  shows "estep\<^sup>*\<^sup>* (s\<lparr>cleaner := Ccheck c ge i\<rparr>) (s\<lparr>cleaner := Ccheck c ge (nworker s)\<rparr>)"
  using assms(2)
proof (induction "nworker s - i" arbitrary: i)
  case (Suc n)
  then have i: "i < nworker s" by simp
  have "estep (s\<lparr>cleaner := Ccheck c ge i\<rparr>) (s\<lparr>cleaner := Ccheck c ge (Suc i)\<rparr>)"
    using estep.clean_check [of "s\<lparr>cleaner := Ccheck c ge i\<rparr>" c ge i] assms(1) i by (simp add: stalled_def)
  moreover have "estep\<^sup>*\<^sup>* (s\<lparr>cleaner := Ccheck c ge (Suc i)\<rparr>) (s\<lparr>cleaner := Ccheck c ge (nworker s)\<rparr>)" using Suc(1) [of "Suc i"] Suc(2) i by simp
  ultimately show ?case by (rule converse_rtranclp_into_rtranclp)
qed simp

lemma clean_run:
  assumes "cleaner s = Cfree" "\<forall>i < nworker s. \<not> stalled s (epoch s) i"
  shows "estep\<^sup>*\<^sup>* s (cleaned s)"
proof -
  have "estep s (s\<lparr>cleaner := Cagain\<rparr>)" by (rule estep.clean_lock [OF assms(1)])
  moreover have "estep (s\<lparr>cleaner := Cagain\<rparr>) (s\<lparr>cleaner := Ccheck (nlimbo s) (epoch s) 0\<rparr>)"
    using estep.clean_again [of "s\<lparr>cleaner := Cagain\<rparr>"] by simp
  moreover note clean_checks [OF assms(2), of 0 "nlimbo s"]
  moreover have "estep (s\<lparr>cleaner := Ccheck (nlimbo s) (epoch s) (nworker s)\<rparr>) (s\<lparr>cleaner := Cswap (epoch s)\<rparr>)"
    using estep.clean_all [of "s\<lparr>cleaner := Ccheck (nlimbo s) (epoch s) (nworker s)\<rparr>"] by simp
  moreover have "estep (s\<lparr>cleaner := Cswap (epoch s)\<rparr>) (s\<lparr>elimbo := (elimbo s)(nextepoch (epoch s) := None), cleaner := Cadv (epoch s) (elimbo s (nextepoch (epoch s)))\<rparr>)"
    using estep.clean_swap [of "s\<lparr>cleaner := Cswap (epoch s)\<rparr>" "epoch s"] by (simp add: limboswap_def)
  moreover have "estep (s\<lparr>elimbo := (elimbo s)(nextepoch (epoch s) := None), cleaner := Cadv (epoch s) (elimbo s (nextepoch (epoch s)))\<rparr>) (cleaned s)"
    using estep.clean_adv [of "s\<lparr>elimbo := (elimbo s)(nextepoch (epoch s) := None), cleaner := Cadv (epoch s) (elimbo s (nextepoch (epoch s)))\<rparr>"] assms(1)
    by (simp add: cleaned_def)
  ultimately show ?thesis by (meson le0 rtranclp.rtrancl_into_rtrancl rtranclp.rtrancl_refl rtranclp_trans)
qed

lemma clean_run_idle:
  assumes "cleaner s = Cfree" "\<forall>w. \<not> isactive s w"
  shows "estep\<^sup>*\<^sup>* s (cleaned s)" "cleaner (cleaned s) = Cfree" "\<forall>w. \<not> isactive (cleaned s) w" "pushing (cleaned s) = pushing s"
  using assms clean_run [OF assms(1)] by (auto simp: cleaned_def isactive_def stalled_def)

lemma cleaned_slots: "elimbo (cleaned s) x = (if x = nextepoch (epoch s) then None else elimbo s x)" "epoch (cleaned s) = nextepoch (epoch s)"
  by (simp_all add: cleaned_def)

lemma cleaned_thrice:
  assumes "epoch s = ep3 n"
  shows "elimbo (cleaned (cleaned (cleaned s))) (ep3 j) = None"
proof -
  have "ep3 j = ep3 (Suc n) \<or> ep3 j = ep3 (Suc (Suc n)) \<or> ep3 j = ep3 (Suc (Suc (Suc n)))"
    unfolding ep3_eq using mod3_cases [of n] mod3_cases [of j] by (auto simp: mod_Suc)
  then show ?thesis unfolding cleaned_slots assms ep3_next by (elim disjE) simp_all
qed

lemma lchain_None: "list_all2 (lchain nx) ps H \<Longrightarrow> \<forall>l. Some l \<notin> set ps \<Longrightarrow> concat H = []"
proof (induction rule: list_all2_induct)
  case (Cons p ps zs H)
  then show ?case by (cases zs) auto
qed simp

lemma release_all:
  assumes "einv s" "cleaner s = Cfree" "pushing s = Map.empty" "\<And>j. elimbo s (ep3 j) = None"
  shows "\<exists>s'. estep\<^sup>*\<^sup>* s s' \<and> owed s' = {}"
proof -
  have "finite (owed s)"
  proof -
    from assms(1) obtain L H where "lists s L H" by (auto simp: einv_def)
    then show ?thesis using assms(3) by (auto simp: lists_def dest: sym)
  qed
  then show ?thesis using assms
  proof (induction "card (owed s)" arbitrary: s rule: less_induct)
    case less
    show ?case
    proof (cases "\<exists>l. Some l \<in> set (popped s)")
      case True
      then obtain l as bs where p: "popped s = as @ Some l # bs" by (auto simp: in_set_conv_decomp)
      let ?s = "s\<lparr>popped := as @ lnext s l # bs, nlimbo := nlimbo s - 1, owed := owed s - {l}\<rparr>"
      note e = einv_pop [OF less(3) p]
      have "card (owed ?s) < card (owed s)" using card_Diff1_less [OF less(2) e(3)] by simp
      then have "\<exists>s'. estep\<^sup>*\<^sup>* ?s s' \<and> owed s' = {}"
        by (rule less(1)) (use less(2-6) e in auto)
      then show ?thesis using estep.release [OF p] by (meson converse_rtranclp_into_rtranclp)
    next
      case False
      from less(3) obtain L H where l: "lists s L H" by (auto simp: einv_def)
      note d = listsD [OF l]
      have L: "L j = []" if "j < 3" for j using d(1) [of j] less(6) [of j] that by (cases "L j") auto
      have "heads s = popped s" using less(4) by (simp add: heads_def)
      then have "concat H = []" using lchain_None [OF d(2)] False by simp
      then have "listed L H = []" using L by (simp add: listed_def)
      then have "owed s = {}" using d(5) less(5) by auto
      then show ?thesis by blast
    qed
  qed
qed

section \<open>The theorems\<close>

text \<open>
  C13. However the processes interleave: when \<open>epochclean\<close> comes to give up an item, no worker is still in a section that was
  under way when the item was put in limbo.  What such a section found is there until it ends.
\<close>

theorem epoch_safe:
  assumes "estep\<^sup>*\<^sup>* (einit n cm) s" "Some l \<in> set (popped s)" "(w, k) \<in> holders s l"
  shows "\<not> (isactive s w \<and> sect s w = k)"
proof -
  from assms(2) obtain as bs where "popped s = as @ Some l # bs" by (auto simp: in_set_conv_decomp)
  from einv_pop(2) [OF einv_reach [OF assms(1)] this] assms(3) show ?thesis by (auto simp: live_def)
qed

text \<open>A worker is in a section when another puts an item in limbo; it ends, and the item is given up at the third clean-up.\<close>

definition eworker :: Esys where
  "eworker = (einit 1 0)\<lparr>lepoch := (\<lambda>_. 0)(0 := Eactive), sect := (\<lambda>_. 0)(0 := 1)\<rparr>"

definition elimboed :: Esys where
  "elimboed = eworker\<lparr>elimbo := Map.empty(0 := Some 7), owed := {7}, holders := (\<lambda>_. {})(7 := {(0, 1)}), uncounted := 1\<rparr>"

lemma eworker_reach: "estep\<^sup>*\<^sup>* (einit 1 0) eworker"
proof -
  let ?s = "(einit 1 0)\<lparr>starting := (\<lambda>_. None)(0 := Some 0)\<rparr>"
  have "estep (einit 1 0) ?s" using estep.start_read [of "einit 1 0" 0] by (simp add: einit_def isactive_def)
  moreover have "estep ?s eworker"
    using estep.start_set [of ?s 0 0] by (simp add: eworker_def einit_def epochstart_def fun_upd_idem)
  ultimately show ?thesis by (meson rtranclp.rtrancl_into_rtrancl rtranclp.rtrancl_refl)
qed

lemma elimboed_reach: "estep\<^sup>*\<^sup>* eworker elimboed"
proof -
  let ?a = "eworker\<lparr>pushing := (\<lambda>_. None)(7 := Some Lepoch), holders := (\<lambda>_. {})(7 := {(0, 1)}), owed := {7}\<rparr>"
  let ?b = "?a\<lparr>pushing := (\<lambda>_. None)(7 := Some (Lhead 0))\<rparr>" and ?c = "?a\<lparr>pushing := (\<lambda>_. None)(7 := Some (Lcas 0 None))\<rparr>"
  have r: "running eworker = {(0, 1)}" by (auto simp: running_def eworker_def einit_def isactive_def split: if_splits)
  have a: "limbo eworker DFblk_op 7 = ?a"
    unfolding limbo_def r by (simp add: eworker_def einit_def fun_upd_idem)
  note d = eworker_def einit_def fun_upd_idem
  have "estep eworker ?a" unfolding a [symmetric] by (rule estep.call) (simp add: d)
  moreover have "estep ?a ?b" using estep.limbo_epoch [of ?a 7] by (simp add: d)
  moreover have "estep ?b ?c" using estep.limbo_head [of ?b 7 0] by (simp add: d limbolink_def)
  moreover have "estep ?c elimboed" using estep.limbo_cas [of ?c 7 0 None] by (simp add: d limbocas_def elimboed_def)
  ultimately show ?thesis by (meson rtranclp.rtrancl_into_rtrancl rtranclp.rtrancl_refl)
qed

definition eended :: Esys where
  "eended = epochend elimboed 0"

lemma eended_reach: "estep\<^sup>*\<^sup>* (einit 1 0) eended" "cleaner eended = Cfree" "\<forall>w. \<not> isactive eended w" "pushing eended = Map.empty"
proof -
  have "estep elimboed eended" unfolding eended_def by (rule estep.finish) (simp add: elimboed_def eworker_def isactive_def)
  then show "estep\<^sup>*\<^sup>* (einit 1 0) eended" using eworker_reach elimboed_reach by (meson rtranclp.rtrancl_into_rtrancl rtranclp_trans)
qed (simp_all add: eended_def elimboed_def eworker_def einit_def epochend_def isactive_def)

theorem epoch_safe_witness:
  "\<exists>s. estep\<^sup>*\<^sup>* (einit 1 0) s \<and> Some 7 \<in> set (popped s) \<and> (0, 1) \<in> holders s 7 \<and> \<not> (isactive s 0 \<and> sect s 0 = 1)"
proof -
  let ?s = "cleaned (cleaned (cleaned eended))"
  note a = clean_run_idle [OF eended_reach(2,3)]
  note b = clean_run_idle [OF a(2,3)]
  note c = clean_run_idle [OF b(2,3)]
  have r: "estep\<^sup>*\<^sup>* (einit 1 0) ?s" using eended_reach(1) a(1) b(1) c(1) by (meson rtranclp_trans)
  have p: "Some 7 \<in> set (popped ?s)" "(0, 1) \<in> holders ?s 7"
    by (simp_all add: cleaned_def eended_def elimboed_def eworker_def einit_def epochend_def nextepoch_def)
  from epoch_safe [OF r p] r p show ?thesis by blast
qed



end
